(* ===== verification/Prelude.thy ===== *)
theory Prelude
  imports Main "HOL-Library.Word" "HOL-Library.Monad_Syntax"
begin

text \<open>
  Shared vocabulary of the development.

  Addresses are natural numbers, a C pointer is an optional address (\<open>None\<close> is
  \<open>NULL\<close>), and a \<open>char\<close> is a byte. Every operation that dereferences memory returns an
  \<open>option\<close>: \<open>None\<close> is undefined behaviour (a \<open>NULL\<close> or dangling dereference) or, for a
  loop over pointers, not returning. A theorem that an operation equals \<open>Some\<close> of
  something therefore includes memory safety and termination.

  The theory also holds the list-segment predicate \<open>lpath\<close> that the singly linked
  structures share.
\<close>

unbundle bit_operations_syntax

type_synonym addr = nat
type_synonym ptr = "addr option"
type_synonym byte = "8 word"

named_theorems c_defs "definitions of field accesses, unfolded in the proofs of the operations"
named_theorems c_frame "frame rules: what an update leaves unchanged"

section \<open>Signed characters\<close>

lemma sint_byte_eq: "sint (a :: byte) = sint b \<longleftrightarrow> a = b"
  by (auto intro: signed_word_eqI)

section \<open>Option plumbing\<close>

abbreviation deref :: "(addr \<Rightarrow> 'c option) \<Rightarrow> ptr \<Rightarrow> 'c option" where
  "deref m p \<equiv> Option.bind p m"

definition ensure :: "bool \<Rightarrow> unit option" where
  "ensure b = (if b then Some () else None)"

lemma ensure_simps [simp]: "ensure True = Some ()" "ensure False = None"
  by (simp_all add: ensure_def)

lemma bind_ensure [simp]: "Option.bind (ensure b) f = (if b then f () else None)"
  by (simp add: ensure_def)

section \<open>List segments\<close>

primrec lpath :: "(addr \<Rightarrow> ptr option) \<Rightarrow> ptr \<Rightarrow> addr list \<Rightarrow> ptr \<Rightarrow> bool" where
  "lpath n p [] q \<longleftrightarrow> p = q"
| "lpath n p (a # as) q \<longleftrightarrow> p = Some a \<and> (\<exists>r. n a = Some r \<and> lpath n r as q)"

lemma lpath_None [simp]: "lpath n None as q \<longleftrightarrow> as = [] \<and> q = None"
  by (cases as) auto

lemma lpath_Some_None: "lpath n (Some a) as None \<longleftrightarrow>
    (\<exists>bs r. as = a # bs \<and> n a = Some r \<and> lpath n r bs None)"
  by (cases as) auto

lemma lpath_append [simp]: "lpath n p (as @ bs) q \<longleftrightarrow> (\<exists>r. lpath n p as r \<and> lpath n r bs q)"
  by (induction as arbitrary: p) auto

lemma lpath_upd [simp]: "a \<notin> set as \<Longrightarrow> lpath (n(a := v)) p as q \<longleftrightarrow> lpath n p as q"
  by (induction as arbitrary: p) auto

lemma lpath_cong: "(\<And>a. a \<in> set as \<Longrightarrow> n a = m a) \<Longrightarrow> lpath n p as q \<longleftrightarrow> lpath m p as q"
  by (induction as arbitrary: p) auto

lemma lpath_det: "lpath n p as None \<Longrightarrow> lpath n p bs None \<Longrightarrow> as = bs"
proof (induction as arbitrary: p bs)
  case Nil
  then show ?case by simp
next
  case (Cons a as)
  then show ?case by (cases bs) auto
qed

lemma lpath_head: "lpath n p as q \<Longrightarrow> as \<noteq> [] \<Longrightarrow> p = Some (hd as)"
  by (cases as) auto

lemma lpath_empty_iff: "lpath n p as None \<Longrightarrow> p = None \<longleftrightarrow> as = []"
  by (cases as) auto

lemma lpath_alloc: "lpath n p as q \<Longrightarrow> a \<in> set as \<Longrightarrow> n a \<noteq> None"
  by (induction as arbitrary: p) auto

lemma lpath_distinct: "lpath n p as None \<Longrightarrow> distinct as"
proof (induction as arbitrary: p)
  case Nil
  then show ?case by simp
next
  case (Cons a as)
  then obtain r where r: "n a = Some r" "lpath n r as None" by auto
  have "a \<notin> set as"
  proof
    assume "a \<in> set as"
    then obtain us vs where as: "as = us @ a # vs" by (meson split_list)
    with r have "lpath n r vs None" by auto
    with r(2) have "as = vs" by (rule lpath_det)
    with as show False by simp
  qed
  with Cons.IH r(2) show ?case by simp
qed

lemma lpath_nth: "lpath n p as q \<Longrightarrow> i < length as \<Longrightarrow>
    n (as ! i) = Some (if Suc i < length as then Some (as ! Suc i) else q)"
proof (induction as arbitrary: p i)
  case Nil
  then show ?case by simp
next
  case (Cons a as)
  show ?case
  proof (cases i)
    case 0
    with Cons.prems show ?thesis by (cases as) auto
  next
    case (Suc j)
    with Cons.prems obtain r where "lpath n r as q" by auto
    with Cons.IH [of r j] Suc Cons.prems show ?thesis by simp
  qed
qed

lemma lpath_drop: "lpath n p as None \<Longrightarrow> i \<le> length as \<Longrightarrow>
    lpath n (if i < length as then Some (as ! i) else None) (drop i as) None"
proof (induction i arbitrary: p as)
  case 0
  then show ?case by (cases as) auto
next
  case (Suc i)
  then show ?case by (cases as) (simp, fastforce)
qed

lemma lpath_snoc_upd:
  assumes "lpath n p as q" "distinct as" "as \<noteq> []"
  shows "lpath (n(last as \<mapsto> r)) p as r"
proof -
  obtain bs b where as: "as = bs @ [b]" using assms(3) by (cases as rule: rev_cases) auto
  with assms show ?thesis by auto
qed

section \<open>Lists\<close>

lemma last_drop_nth: "i < length xs \<Longrightarrow> last (drop i xs) = last xs"
  by simp

lemma take_Suc_drop: "i < length xs \<Longrightarrow> i < j \<Longrightarrow>
    take (j - i) (drop i xs) = xs ! i # take (j - Suc i) (drop (Suc i) xs)"
  by (metis Cons_nth_drop_Suc Suc_diff_Suc take_Suc_Cons)

primrec fold_opt :: "('a \<Rightarrow> 's \<Rightarrow> 's option) \<Rightarrow> 'a list \<Rightarrow> 's \<Rightarrow> 's option" where
  "fold_opt f [] s = Some s"
| "fold_opt f (x # xs) s = Option.bind (f x s) (fold_opt f xs)"

lemma fold_opt_append: "fold_opt f (xs @ ys) s = Option.bind (fold_opt f xs s) (fold_opt f ys)"
  by (induction xs arbitrary: s) (auto split: Option.bind_splits)

lemma fold_opt_total: "fold_opt (\<lambda>x s. Some (f x s)) xs s = Some (fold f xs s)"
  by (induction xs arbitrary: s) auto

end
