(* ===== verification/Slist.thy ===== *)
theory Slist
  imports Prelude
begin

text \<open>
  Singly linked lists: \<open>src/slist.c\<close> and \<open>src/slist.h\<close> (with the stack macros of
  \<open>src/stack.h\<close>).

  The store holds list nodes (\<open>items\<close>) and list headers (\<open>lists\<close>). The field \<open>iter\<close> of
  a header is a pointer to a pointer; a \<open>slot\<close> says which one: the \<open>head\<close> field of a
  header or the \<open>next\<close> field of a node. Payloads are nullable pointers.
  The abstraction relation \<open>list_rep\<close> says that a header owns a chain of nodes and a
  disjoint chain of pooled nodes.
\<close>

section \<open>The store\<close>

datatype slot = SNull | SHead addr | SNext addr

record 'a item =
  i_next :: ptr
  i_data :: "'a option"

record slist =
  l_size :: int
  l_pool_size :: int
  l_iter_idx :: int
  l_iter :: slot
  l_head :: ptr
  l_pool :: ptr
  l_tail :: ptr

record 'a lheap =
  items :: "addr \<Rightarrow> 'a item option"
  lists :: "addr \<Rightarrow> slist option"
  brk :: addr

definition empty_lheap :: "'a lheap" where
  "empty_lheap = \<lparr>items = (\<lambda>_. None), lists = (\<lambda>_. None), brk = 0\<rparr>"

definition upd_item :: "'a lheap \<Rightarrow> ptr \<Rightarrow> ('a item \<Rightarrow> 'a item) \<Rightarrow> 'a lheap option" where
  "upd_item h p f = do { a \<leftarrow> p; c \<leftarrow> items h a; Some (h\<lparr>items := (items h)(a \<mapsto> f c)\<rparr>) }"

definition upd_list :: "'a lheap \<Rightarrow> ptr \<Rightarrow> (slist \<Rightarrow> slist) \<Rightarrow> 'a lheap option" where
  "upd_list h p f = do { a \<leftarrow> p; l \<leftarrow> lists h a; Some (h\<lparr>lists := (lists h)(a \<mapsto> f l)\<rparr>) }"

definition free_item :: "'a lheap \<Rightarrow> ptr \<Rightarrow> 'a lheap option" where
  "free_item h p = do { a \<leftarrow> p; _ \<leftarrow> items h a; Some (h\<lparr>items := (items h)(a := None)\<rparr>) }"

definition free_list :: "'a lheap \<Rightarrow> ptr \<Rightarrow> 'a lheap option" where
  "free_list h p = do { a \<leftarrow> p; _ \<leftarrow> lists h a; Some (h\<lparr>lists := (lists h)(a := None)\<rparr>) }"

fun read_slot :: "'a lheap \<Rightarrow> slot \<Rightarrow> ptr option" where
  "read_slot h SNull = None"
| "read_slot h (SHead a) = map_option l_head (lists h a)"
| "read_slot h (SNext a) = map_option i_next (items h a)"

fun write_slot :: "'a lheap \<Rightarrow> slot \<Rightarrow> ptr \<Rightarrow> 'a lheap option" where
  "write_slot h SNull v = None"
| "write_slot h (SHead a) v = upd_list h (Some a) (l_head_update (\<lambda>_. v))"
| "write_slot h (SNext a) v = upd_item h (Some a) (i_next_update (\<lambda>_. v))"

text \<open>\<open>xmalloc\<close> is \<open>calloc\<close>: the block is new and zeroed.\<close>

definition malloc_item :: "'a lheap \<Rightarrow> addr \<times> 'a lheap" where
  "malloc_item h = (brk h,
     h\<lparr>items := (items h)(brk h \<mapsto> \<lparr>i_next = None, i_data = None\<rparr>), brk := Suc (brk h)\<rparr>)"

definition zero_list :: slist where
  "zero_list = \<lparr>l_size = 0, l_pool_size = 0, l_iter_idx = 0, l_iter = SNull,
     l_head = None, l_pool = None, l_tail = None\<rparr>"

definition malloc_list :: "'a lheap \<Rightarrow> addr \<times> 'a lheap" where
  "malloc_list h = (brk h,
     h\<lparr>lists := (lists h)(brk h \<mapsto> zero_list), brk := Suc (brk h)\<rparr>)"

section \<open>Operations\<close>

subsection \<open>Accessors\<close>

definition list_get_tail :: "'a lheap \<Rightarrow> ptr \<Rightarrow> 'a option option" where
  "list_get_tail h list = (if list = None then Some None else do {
     l \<leftarrow> deref (lists h) list;
     if l_tail l \<noteq> None then do { t \<leftarrow> deref (items h) (l_tail l); Some (i_data t) }
     else Some None })"

definition list_get_head :: "'a lheap \<Rightarrow> ptr \<Rightarrow> 'a option option" where
  "list_get_head h list = (if list = None then Some None else do {
     l \<leftarrow> deref (lists h) list;
     if l_head l \<noteq> None then do { t \<leftarrow> deref (items h) (l_head l); Some (i_data t) }
     else Some None })"

definition list_size :: "'a lheap \<Rightarrow> ptr \<Rightarrow> int option" where
  "list_size h list = (if list = None then Some 0 else do {
     l \<leftarrow> deref (lists h) list; Some (l_size l) })"

subsection \<open>The node pool\<close>

definition release_to_pool :: "'a lheap \<Rightarrow> ptr \<Rightarrow> ptr \<Rightarrow> 'a lheap option" where
  "release_to_pool h list item = do {
     h \<leftarrow> upd_item h item (i_next_update (\<lambda>_. None));
     h \<leftarrow> upd_item h item (i_data_update (\<lambda>_. None));
     l \<leftarrow> deref (lists h) list;
     h \<leftarrow> (if l_pool l \<noteq> None then upd_item h item (i_next_update (\<lambda>_. l_pool l)) else Some h);
     h \<leftarrow> upd_list h list (l_pool_update (\<lambda>_. item));
     h \<leftarrow> upd_list h list (\<lambda>l. l\<lparr>l_pool_size := l_pool_size l + 1\<rparr>);
     upd_list h list (\<lambda>l. l\<lparr>l_size := l_size l - 1\<rparr>) }"

definition allocate_from_pool :: "'a lheap \<Rightarrow> ptr \<Rightarrow> (ptr \<times> 'a lheap) option" where
  "allocate_from_pool h list = do {
     l \<leftarrow> deref (lists h) list;
     let old_head = l_pool l;
     c \<leftarrow> deref (items h) old_head;
     h \<leftarrow> upd_list h list (l_pool_update (\<lambda>_. i_next c));
     h \<leftarrow> upd_item h old_head (i_next_update (\<lambda>_. None));
     h \<leftarrow> upd_list h list (\<lambda>l. l\<lparr>l_pool_size := l_pool_size l - 1\<rparr>);
     Some (old_head, h) }"

definition new_list_item :: "'a lheap \<Rightarrow> ptr \<Rightarrow> 'a option \<Rightarrow> (ptr \<times> 'a lheap) option" where
  "new_list_item h list data = do {
     l \<leftarrow> deref (lists h) list;
     (item, h) \<leftarrow> (if l_pool_size l > 0 then allocate_from_pool h list
                   else (let (a, h) = malloc_item h in Some (Some a, h)));
     h \<leftarrow> upd_item h item (i_data_update (\<lambda>_. data));
     h \<leftarrow> upd_item h item (i_next_update (\<lambda>_. None));
     Some (item, h) }"

definition new_list :: "'a lheap \<Rightarrow> addr \<times> 'a lheap" where
  "new_list h = (let (a, h) = malloc_list h in
     (a, h\<lparr>lists := (lists h)(a \<mapsto> zero_list\<lparr>l_iter_idx := -1, l_iter := SHead a\<rparr>)\<rparr>))"

subsection \<open>Insertion and removal\<close>

definition list_append :: "'a lheap \<Rightarrow> ptr \<Rightarrow> 'a option \<Rightarrow> (int \<times> 'a lheap) option" where
  "list_append h list data = (if list = None then Some (-1, h) else do {
     l \<leftarrow> deref (lists h) list;
     (if l_head l = None then do {
        (item, h) \<leftarrow> new_list_item h list data;
        h \<leftarrow> upd_list h list (l_head_update (\<lambda>_. item));
        h \<leftarrow> upd_list h list (l_tail_update (\<lambda>_. item));
        h \<leftarrow> upd_list h list (l_iter_update (\<lambda>_. SHead (the list)));
        h \<leftarrow> upd_list h list (\<lambda>l. l\<lparr>l_size := l_size l + 1\<rparr>);
        Some (0, h) }
      else do {
        (item, h) \<leftarrow> new_list_item h list data;
        l' \<leftarrow> deref (lists h) list;
        h \<leftarrow> upd_item h (l_tail l') (i_next_update (\<lambda>_. item));
        t \<leftarrow> deref (items h) (l_tail l');
        h \<leftarrow> upd_list h list (l_tail_update (\<lambda>_. i_next t));
        h \<leftarrow> upd_list h list (\<lambda>l. l\<lparr>l_size := l_size l + 1\<rparr>);
        Some (l_size l', h) }) })"

definition list_push :: "'a lheap \<Rightarrow> ptr \<Rightarrow> 'a option \<Rightarrow> (int \<times> 'a lheap) option" where
  "list_push h list data = (if list = None then Some (-1, h) else do {
     (new_node, h) \<leftarrow> new_list_item h list data;
     l \<leftarrow> deref (lists h) list;
     h \<leftarrow> upd_item h new_node (i_next_update (\<lambda>_. l_head l));
     h \<leftarrow> upd_list h list (l_head_update (\<lambda>_. new_node));
     h \<leftarrow> (if l_size l = 0 then upd_list h list
              (\<lambda>l. l\<lparr>l_iter := SHead (the list), l_tail := l_head l, l_iter_idx := 0\<rparr>)
            else Some h);
     l \<leftarrow> deref (lists h) list;
     h \<leftarrow> (if l_iter_idx l \<ge> 0 then upd_list h list (\<lambda>l. l\<lparr>l_iter_idx := l_iter_idx l + 1\<rparr>) else Some h);
     h \<leftarrow> upd_list h list (\<lambda>l. l\<lparr>l_size := l_size l + 1\<rparr>);
     l \<leftarrow> deref (lists h) list;
     Some (l_size l, h) })"

definition list_shift :: "'a lheap \<Rightarrow> ptr \<Rightarrow> ('a option \<times> 'a lheap) option" where
  "list_shift h list = (if list = None then Some (None, h) else do {
     l \<leftarrow> deref (lists h) list;
     (if l_head l = None then Some (None, h) else do {
        let old_head = l_head l;
        c \<leftarrow> deref (items h) old_head;
        h \<leftarrow> upd_list h list (l_head_update (\<lambda>_. i_next c));
        let removed_data = i_data c;
        h \<leftarrow> (if old_head = l_tail l then upd_list h list (l_tail_update (\<lambda>_. None)) else Some h);
        h \<leftarrow> upd_list h list (\<lambda>l. l\<lparr>l_iter_idx := l_iter_idx l - 1\<rparr>);
        h \<leftarrow> release_to_pool h list old_head;
        Some (removed_data, h) }) })"

text \<open>The walk of \<open>list_insert_at\<close> and \<open>list_remove_at\<close>: \<open>item_pp\<close> advances while it and
  its successor exist and fewer than \<open>idx - 1\<close> steps were made. The walk of
  \<open>list_remove_at\<close> also drags \<open>tmp_tail\<close> along.\<close>

function walk_pp :: "'a lheap \<Rightarrow> int \<Rightarrow> slot \<Rightarrow> int \<Rightarrow> ptr \<Rightarrow> (slot \<times> int \<times> ptr) option" where
  "walk_pp h idx item_pp cur_idx tmp_tail = do {
     p \<leftarrow> read_slot h item_pp;
     (case p of None \<Rightarrow> Some (item_pp, cur_idx, tmp_tail)
      | Some a \<Rightarrow> do {
          c \<leftarrow> items h a;
          (if i_next c \<noteq> None \<and> cur_idx < idx - 1
           then walk_pp h idx (SNext a) (cur_idx + 1) p
           else Some (item_pp, cur_idx, tmp_tail)) }) }"
  by pat_completeness auto
termination
  by (relation "measure (\<lambda>(h, idx, pp, cur, tt). nat (idx - 1 - cur))") auto

declare walk_pp.simps [simp del]

definition list_insert_at :: "'a lheap \<Rightarrow> ptr \<Rightarrow> 'a option \<Rightarrow> int \<Rightarrow> (int \<times> 'a lheap) option" where
  "list_insert_at h list data idx = (if list = None \<or> idx < 0 then Some (-1, h) else do {
     (item_pp, cur_idx, _) \<leftarrow> walk_pp h idx (SHead (the list)) 0 None;
     (new_item, h) \<leftarrow> new_list_item h list data;
     l \<leftarrow> deref (lists h) list;
     h \<leftarrow> (if idx \<ge> l_size l then upd_list h list (l_tail_update (\<lambda>_. new_item)) else Some h);
     p \<leftarrow> read_slot h item_pp;
     (cur_idx, h) \<leftarrow> (if idx = 0 then do {
          h \<leftarrow> upd_item h new_item (i_next_update (\<lambda>_. l_head l));
          h \<leftarrow> upd_list h list (l_head_update (\<lambda>_. new_item));
          Some (cur_idx, h) }
        else if p \<noteq> None then do {
          c \<leftarrow> deref (items h) p;
          h \<leftarrow> upd_item h new_item (i_next_update (\<lambda>_. i_next c));
          h \<leftarrow> upd_item h p (i_next_update (\<lambda>_. new_item));
          Some (cur_idx + 1, h) }
        else do { h \<leftarrow> write_slot h item_pp new_item; Some (cur_idx, h) });
     h \<leftarrow> upd_list h list (\<lambda>l. l\<lparr>l_size := l_size l + 1\<rparr>);
     Some (cur_idx, h) })"

text \<open>\<open>removed_data == *(list->iter)\<close> compares a payload pointer with a node pointer; the two
  kinds of pointer are distinct here unless both are \<open>NULL\<close>.\<close>

definition list_remove_at :: "'a lheap \<Rightarrow> ptr \<Rightarrow> int \<Rightarrow> ('a option \<times> 'a lheap) option" where
  "list_remove_at h list idx = (if list = None \<or> idx < 0 then Some (None, h) else do {
     l \<leftarrow> deref (lists h) list;
     (if idx \<ge> l_size l then Some (None, h) else do {
        (item_pp, cur_idx, tmp_tail) \<leftarrow> walk_pp h idx (SHead (the list)) 0 (l_head l);
        p \<leftarrow> read_slot h item_pp;
        item_pp \<leftarrow> (if idx > 0 then (case p of None \<Rightarrow> None | Some a \<Rightarrow> Some (SNext a))
                    else Some item_pp);
        removed_item \<leftarrow> read_slot h item_pp;
        c \<leftarrow> deref (items h) removed_item;
        h \<leftarrow> write_slot h item_pp (i_next c);
        l \<leftarrow> deref (lists h) list;
        h \<leftarrow> (if removed_item = l_tail l then upd_list h list (l_tail_update (\<lambda>_. tmp_tail))
              else Some h);
        it \<leftarrow> read_slot h (l_iter l);
        h \<leftarrow> (if i_data c = None \<and> it = None then upd_list h list (l_iter_idx_update (\<lambda>_. -1))
              else Some h);
        h \<leftarrow> release_to_pool h list removed_item;
        Some (i_data c, h) }) })"

subsection \<open>Random access and iteration\<close>

function get_at_walk :: "'a lheap \<Rightarrow> int \<Rightarrow> ptr \<Rightarrow> int \<Rightarrow> 'a option option" where
  "get_at_walk h idx iter cur_idx = do {
     c \<leftarrow> deref (items h) iter;
     (if cur_idx < idx \<and> i_next c \<noteq> None then get_at_walk h idx (i_next c) (cur_idx + 1)
      else Some (if cur_idx = idx then i_data c else None)) }"
  by pat_completeness auto
termination
  by (relation "measure (\<lambda>(h, idx, it, cur). nat (idx - cur))") auto

declare get_at_walk.simps [simp del]

definition list_get_at :: "'a lheap \<Rightarrow> ptr \<Rightarrow> int \<Rightarrow> 'a option option" where
  "list_get_at h list idx = (if list = None then Some None else do {
     l \<leftarrow> deref (lists h) list;
     (if l_head l = None \<or> idx < 0 \<or> idx \<ge> l_size l then Some None
      else if idx = 0 then do { c \<leftarrow> deref (items h) (l_head l); Some (i_data c) }
      else if idx = l_size l - 1 then do { c \<leftarrow> deref (items h) (l_tail l); Some (i_data c) }
      else get_at_walk h idx (l_head l) 0) })"

definition list_get_iterator :: "'a lheap \<Rightarrow> ptr \<Rightarrow> ptr option" where
  "list_get_iterator h list = (if list = None then Some None else do {
     l \<leftarrow> deref (lists h) list;
     (if l_head l = None then Some None else read_slot h (l_iter l)) })"

text \<open>The loop \<open>for(; iter_idx != indx; ++iter_idx)\<close> of \<open>list_set_iterator\<close>; it is entered
  with \<open>iter_idx \<le> indx\<close>.\<close>

function set_iter_walk :: "'a lheap \<Rightarrow> int \<Rightarrow> slot \<Rightarrow> int \<Rightarrow> slot option" where
  "set_iter_walk h indx it i = (if i < indx then do {
       p \<leftarrow> read_slot h it;
       a \<leftarrow> p;
       _ \<leftarrow> items h a;
       set_iter_walk h indx (SNext a) (i + 1) }
     else Some it)"
  by pat_completeness auto
termination
  by (relation "measure (\<lambda>(h, indx, it, i). nat (indx - i))") auto

declare set_iter_walk.simps [simp del]

definition list_set_iterator :: "'a lheap \<Rightarrow> ptr \<Rightarrow> int \<Rightarrow> (int \<times> 'a lheap) option" where
  "list_set_iterator h list indx = (if list = None then Some (0, h) else do {
     l \<leftarrow> deref (lists h) list;
     (if l_head l = None \<or> indx \<ge> l_size l then Some (0, h)
      else if l_iter_idx l = indx then Some (1, h)
      else do {
        h \<leftarrow> (if l_iter_idx l > indx \<or> l_iter_idx l < 0
              then upd_list h list (\<lambda>l. l\<lparr>l_iter := SHead (the list), l_iter_idx := 0\<rparr>)
              else Some h);
        l \<leftarrow> deref (lists h) list;
        _ \<leftarrow> ensure (l_iter_idx l \<le> indx);
        it \<leftarrow> set_iter_walk h indx (l_iter l) (l_iter_idx l);
        h \<leftarrow> upd_list h list (\<lambda>l. l\<lparr>l_iter := it, l_iter_idx := indx\<rparr>);
        Some (1, h) }) })"

definition list_get_next :: "'a lheap \<Rightarrow> ptr \<Rightarrow> ('a option \<times> 'a lheap) option" where
  "list_get_next h list = (if list = None then Some (None, h) else do {
     l \<leftarrow> deref (lists h) list;
     (if l_head l = None \<or> l_iter_idx l \<ge> l_size l \<or> l_iter_idx l < 0 then Some (None, h)
      else do {
        ret \<leftarrow> (if l_iter_idx l = 0 then Some (l_head l) else read_slot h (l_iter l));
        a \<leftarrow> ret;
        c \<leftarrow> items h a;
        h \<leftarrow> upd_list h list (\<lambda>l. l\<lparr>l_iter := SNext a, l_iter_idx := l_iter_idx l + 1\<rparr>);
        Some (i_data c, h) }) })"

text \<open>The macro \<open>list_for_each(tmp, list, start, finish)\<close>; the body is a state transformer.\<close>

partial_function (option) for_each_loop ::
    "('a \<Rightarrow> 's \<Rightarrow> 's option) \<Rightarrow> 'a lheap \<Rightarrow> ptr \<Rightarrow> int \<Rightarrow> 's \<Rightarrow> ('s \<times> 'a lheap) option" where [code]:
  "for_each_loop body h list finish s = do {
     (tmp, h) \<leftarrow> list_get_next h list;
     (case tmp of None \<Rightarrow> Some (s, h)
      | Some x \<Rightarrow> do {
          l \<leftarrow> deref (lists h) list;
          (if l_iter_idx l \<le> finish then do {
             s \<leftarrow> body x s;
             for_each_loop body h list finish s }
           else Some (s, h)) }) }"

definition list_for_each ::
    "('a \<Rightarrow> 's \<Rightarrow> 's option) \<Rightarrow> 'a lheap \<Rightarrow> ptr \<Rightarrow> int \<Rightarrow> int \<Rightarrow> 's \<Rightarrow> ('s \<times> 'a lheap) option" where
  "list_for_each body h list start finish s = do {
     (_, h) \<leftarrow> list_set_iterator h list start;
     for_each_loop body h list finish s }"

partial_function (option) iterate_walk ::
    "('a option \<Rightarrow> 's \<Rightarrow> 's option) \<Rightarrow> 'a lheap \<Rightarrow> int \<Rightarrow> int \<Rightarrow> ptr \<Rightarrow> 's \<Rightarrow> 's option" where [code]:
  "iterate_walk action h upper_bound i li s = (if i < upper_bound then do {
       c \<leftarrow> deref (items h) li;
       s \<leftarrow> action (i_data c) s;
       iterate_walk action h upper_bound (i + 1) (i_next c) s }
     else Some s)"

definition list_iterate ::
    "('a option \<Rightarrow> 's \<Rightarrow> 's option) \<Rightarrow> 'a lheap \<Rightarrow> ptr \<Rightarrow> 's \<Rightarrow> 's option" where
  "list_iterate action h list s = (if list = None then Some s else do {
     l \<leftarrow> deref (lists h) list;
     iterate_walk action h (l_size l) 0 (l_head l) s })"

text \<open>\<open>list_iterate2\<close> stores each result of the two-argument action in \<open>*ret\<close>.\<close>

definition list_iterate2 ::
    "('a option \<Rightarrow> 'b \<Rightarrow> 's \<Rightarrow> ('r \<times> 's) option) \<Rightarrow> 'a lheap \<Rightarrow> ptr \<Rightarrow> 'b \<Rightarrow> 'r \<Rightarrow> 's \<Rightarrow> ('r \<times> 's) option" where
  "list_iterate2 action h list extra_arg ret s = (if list = None then Some (ret, s) else do {
     l \<leftarrow> deref (lists h) list;
     iterate_walk (\<lambda>d (_, s). action d extra_arg s) h (l_size l) 0 (l_head l) (ret, s) })"

partial_function (option) search_walk ::
    "('a option \<Rightarrow> 'b \<Rightarrow> 'r option) \<Rightarrow> 'a lheap \<Rightarrow> 'b \<Rightarrow> ptr \<Rightarrow> 'r option option" where [code]:
  "search_walk compare h target iter = do {
     c \<leftarrow> deref (items h) iter;
     (let ret = compare (i_data c) target in
      if ret = None \<and> i_next c \<noteq> None then search_walk compare h target (i_next c)
      else Some ret) }"

text \<open>\<open>list_search\<close> on a non-\<open>NULL\<close> comparison function (\<open>fatal\<close> otherwise, the \<open>None\<close> of
  \<open>compare\<close>).\<close>

definition list_search ::
    "'a lheap \<Rightarrow> ptr \<Rightarrow> 'b \<Rightarrow> ('a option \<Rightarrow> 'b \<Rightarrow> 'r option) option \<Rightarrow> 'r option option" where
  "list_search h list target compare = (if list = None then Some None else do {
     l \<leftarrow> deref (lists h) list;
     (if l_head l = None then Some None else do {
        f \<leftarrow> compare;
        search_walk f h target (l_head l) }) })"

subsection \<open>Whole-list operations\<close>

partial_function (option) last_item :: "'a lheap \<Rightarrow> ptr \<Rightarrow> ptr option" where [code]:
  "last_item h dst = do {
     c \<leftarrow> deref (items h) dst;
     (if i_next c \<noteq> None then last_item h (i_next c) else Some dst) }"

definition list_clear :: "'a lheap \<Rightarrow> ptr \<Rightarrow> 'a lheap option" where
  "list_clear h list = (if list = None then Some h else do {
     l \<leftarrow> deref (lists h) list;
     (if l_size l = 0 then Some h else do {
        h \<leftarrow> (if l_pool_size l = 0 then upd_list h list (l_pool_update (\<lambda>_. l_head l))
              else do {
                let (dst, src) = (if l_size l < l_pool_size l then (l_head l, l_pool l)
                                  else (l_pool l, l_head l));
                let start = dst;
                dst \<leftarrow> last_item h dst;
                h \<leftarrow> upd_item h dst (i_next_update (\<lambda>_. src));
                upd_list h list (l_pool_update (\<lambda>_. start)) });
        upd_list h list (\<lambda>l. l\<lparr>l_head := None, l_tail := None, l_iter := SHead (the list),
          l_pool_size := l_pool_size l + l_size l, l_size := 0, l_iter_idx := -1\<rparr>) }) })"

text \<open>Freeing: the first component of the result lists the payloads given to the callback
  \<open>delete_data\<close>, in order.\<close>

partial_function (option) free_items_loop ::
    "'a lheap \<Rightarrow> ptr \<Rightarrow> bool \<Rightarrow> 'a option list \<Rightarrow> ptr \<Rightarrow> (ptr \<times> 'a option list \<times> 'a lheap) option" where [code]:
  "free_items_loop h list del freed cur_item = (if cur_item = None then Some (cur_item, freed, h)
     else do {
       c \<leftarrow> deref (items h) cur_item;
       (if i_next c \<noteq> None then do {
          let tmp = i_next c;
          let freed = (if del then freed @ [i_data c] else freed);
          h \<leftarrow> upd_list h list (\<lambda>l. l\<lparr>l_pool_size := l_pool_size l - 1\<rparr>);
          h \<leftarrow> free_item h cur_item;
          free_items_loop h list del freed tmp }
        else Some (cur_item, freed, h)) })"

definition list_free_items :: "'a lheap \<Rightarrow> ptr \<Rightarrow> bool \<Rightarrow> ('a option list \<times> 'a lheap) option" where
  "list_free_items h list del = (if list = None then Some ([], h) else do {
     h \<leftarrow> list_clear h list;
     l \<leftarrow> deref (lists h) list;
     (cur_item, freed, h) \<leftarrow> free_items_loop h list del [] (l_pool l);
     (if cur_item \<noteq> None then do {
        c \<leftarrow> deref (items h) cur_item;
        let freed = (if del \<and> i_data c \<noteq> None then freed @ [i_data c] else freed);
        h \<leftarrow> free_item h cur_item;
        Some (freed, h) }
      else Some (freed, h)) })"

definition list_free :: "'a lheap \<Rightarrow> ptr \<Rightarrow> bool \<Rightarrow> ('a option list \<times> 'a lheap) option" where
  "list_free h list del = (if list = None then Some ([], h) else do {
     (freed, h) \<leftarrow> list_free_items h list del;
     h \<leftarrow> upd_list h list (\<lambda>l. l\<lparr>l_head := None, l_pool := None, l_tail := None\<rparr>);
     h \<leftarrow> free_list h list;
     Some (freed, h) })"

partial_function (option) deep_copy_loop :: "'a lheap \<Rightarrow> ptr \<Rightarrow> ptr \<Rightarrow> 'a lheap option" where [code]:
  "deep_copy_loop h list_copy list_node = (if list_node = None then Some h else do {
     c \<leftarrow> deref (items h) list_node;
     (_, h) \<leftarrow> list_append h list_copy (i_data c);
     c \<leftarrow> deref (items h) list_node;
     deep_copy_loop h list_copy (i_next c) })"

definition list_deep_copy :: "'a lheap \<Rightarrow> ptr \<Rightarrow> (ptr \<times> 'a lheap) option" where
  "list_deep_copy h list_node = (if list_node = None then Some (None, h) else do {
     let (a, h) = malloc_list h;
     h \<leftarrow> deep_copy_loop h (Some a) list_node;
     Some (Some a, h) })"

partial_function (option) reverse_loop ::
    "'a lheap \<Rightarrow> ptr \<Rightarrow> ptr \<Rightarrow> ptr \<Rightarrow> (ptr \<times> 'a lheap) option" where [code]:
  "reverse_loop h prev_node node next_node = (if next_node = None then Some (node, h) else do {
     h \<leftarrow> upd_item h node (i_next_update (\<lambda>_. prev_node));
     let prev_node = node;
     let node = next_node;
     c \<leftarrow> deref (items h) next_node;
     let next_node = i_next c;
     h \<leftarrow> (if next_node = None then upd_item h node (i_next_update (\<lambda>_. prev_node)) else Some h);
     reverse_loop h prev_node node next_node })"

definition list_reverse :: "'a lheap \<Rightarrow> ptr \<Rightarrow> (ptr \<times> 'a lheap) option" where
  "list_reverse h node = (if node = None then Some (node, h) else do {
     c \<leftarrow> deref (items h) node;
     reverse_loop h None node (i_next c) })"

function chop_walk :: "'a lheap \<Rightarrow> int \<Rightarrow> int \<Rightarrow> slot \<Rightarrow> ptr \<Rightarrow> (slot \<times> ptr) option" where
  "chop_walk h sz i new_head chop_tail = (if i < sz then do {
     chop_tail \<leftarrow> read_slot h new_head;
     a \<leftarrow> chop_tail;
     chop_walk h sz (i + 1) (SNext a) (Some a) }
   else Some (new_head, chop_tail))"
  by pat_completeness auto
termination
  by (relation "measure (\<lambda>(h, sz, i, nh, ct). nat (sz - i))") auto

declare chop_walk.simps [simp del]

definition list_chop :: "'a lheap \<Rightarrow> ptr \<Rightarrow> int \<Rightarrow> (ptr \<times> 'a lheap) option" where
  "list_chop h list sz = (if list = None then Some (None, h) else do {
     l \<leftarrow> deref (lists h) list;
     (if l_head l = None \<or> sz < 1 then Some (None, h) else do {
        let (chopped, h) = new_list h;
        let chopped = Some chopped;
        h \<leftarrow> upd_list h chopped (l_head_update (\<lambda>_. l_head l));
        (if sz \<ge> l_size l then do {
           h \<leftarrow> upd_list h chopped (\<lambda>c. c\<lparr>l_size := l_size l, l_tail := l_tail l\<rparr>);
           h \<leftarrow> upd_list h list (\<lambda>l. l\<lparr>l_head := None, l_tail := None, l_size := 0\<rparr>);
           Some (chopped, h) }
         else do {
           h \<leftarrow> upd_list h chopped (l_size_update (\<lambda>_. sz));
           (new_head, chop_tail) \<leftarrow> chop_walk h sz 0 (SHead (the list)) (l_head l);
           nh \<leftarrow> read_slot h new_head;
           h \<leftarrow> upd_list h list (\<lambda>l. l\<lparr>l_head := nh, l_size := l_size l - sz\<rparr>);
           h \<leftarrow> upd_list h chopped (l_tail_update (\<lambda>_. chop_tail));
           h \<leftarrow> write_slot h new_head None;
           Some (chopped, h) }) }) })"

definition list_transfer :: "'a lheap \<Rightarrow> ptr \<Rightarrow> ptr \<Rightarrow> (ptr \<times> 'a lheap) option" where
  "list_transfer h dst src = (if dst = None then Some (None, h)
     else if src = None then Some (dst, h) else do {
     s \<leftarrow> deref (lists h) src;
     (if l_head s = None then Some (dst, h) else do {
        d \<leftarrow> deref (lists h) dst;
        h \<leftarrow> (if l_head d = None
              then upd_list h dst (\<lambda>d. d\<lparr>l_head := l_head s, l_tail := l_tail s\<rparr>)
              else do {
                h \<leftarrow> upd_item h (l_tail d) (i_next_update (\<lambda>_. l_head s));
                upd_list h dst (l_tail_update (\<lambda>_. l_tail s)) });
        h \<leftarrow> upd_list h dst (\<lambda>d. d\<lparr>l_size := l_size d + l_size s\<rparr>);
        h \<leftarrow> upd_list h src (\<lambda>s. s\<lparr>l_head := None, l_tail := None\<rparr>);
        h \<leftarrow> write_slot h (l_iter s) None;
        h \<leftarrow> upd_list h src (\<lambda>s. s\<lparr>l_iter_idx := -1, l_size := 0\<rparr>);
        Some (dst, h) }) })"

text \<open>The callback of \<open>list_transfer_on_match\<close> may change the world \<open>w\<close> outside the list
  store (\<open>is_nfa_tree\<close> in \<open>src/nfa.c\<close> rewires automaton nodes). The guard
  \<open>src == NULL && src->head == NULL\<close> dereferences \<open>NULL\<close> when \<open>src\<close> is \<open>NULL\<close> and is false
  otherwise.\<close>

partial_function (option) transfer_match_loop ::
    "('a option \<Rightarrow> 'b \<Rightarrow> 'w \<Rightarrow> ('a option \<times> 'w) option) \<Rightarrow> 'b \<Rightarrow> ptr \<Rightarrow> ptr \<Rightarrow>
     'a lheap \<Rightarrow> slot \<Rightarrow> 'w \<Rightarrow> ('a lheap \<times> 'w) option" where [code]:
  "transfer_match_loop compare arg2 dst src h iter w = do {
     p \<leftarrow> read_slot h iter;
     (case p of None \<Rightarrow> Some (h, w)
      | Some a \<Rightarrow> do {
          c \<leftarrow> items h a;
          (res, w) \<leftarrow> compare (i_data c) arg2 w;
          (if res \<noteq> None then do {
             (_, h) \<leftarrow> list_append h dst res;
             c \<leftarrow> items h a;
             h \<leftarrow> write_slot h iter (i_next c);
             h \<leftarrow> free_item h (Some a);
             h \<leftarrow> upd_list h src (\<lambda>l. l\<lparr>l_size := l_size l - 1\<rparr>);
             transfer_match_loop compare arg2 dst src h iter w }
           else transfer_match_loop compare arg2 dst src h (SNext a) w) }) }"

definition list_transfer_on_match ::
    "('a option \<Rightarrow> 'b \<Rightarrow> 'w \<Rightarrow> ('a option \<times> 'w) option) \<Rightarrow> 'b \<Rightarrow>
     'a lheap \<Rightarrow> ptr \<Rightarrow> ptr \<Rightarrow> 'w \<Rightarrow> (ptr \<times> 'a lheap \<times> 'w) option" where
  "list_transfer_on_match compare arg2 h dst src w = (if dst = None then Some (None, h, w)
     else do {
       s \<leftarrow> src;
       (h, w) \<leftarrow> transfer_match_loop compare arg2 dst src h (SHead s) w;
       l \<leftarrow> lists h s;
       h \<leftarrow> (if l_size l = 0 then do {
               h \<leftarrow> upd_list h src (\<lambda>l. l\<lparr>l_head := None, l_tail := None\<rparr>);
               h \<leftarrow> write_slot h (l_iter l) None;
               upd_list h src (l_iter_idx_update (\<lambda>_. -1)) }
             else if l_size l = 1 then do {
               h \<leftarrow> upd_list h src (l_tail_update (\<lambda>_. l_head l));
               h \<leftarrow> write_slot h (l_iter l) (l_head l);
               upd_list h src (l_iter_idx_update (\<lambda>_. 0)) }
             else Some h);
       Some (dst, h, w) })"

subsection \<open>The stack macros of \<open>src/stack.h\<close>\<close>

abbreviation stack_push :: "'a lheap \<Rightarrow> ptr \<Rightarrow> 'a option \<Rightarrow> (int \<times> 'a lheap) option" where
  "stack_push \<equiv> list_push"

abbreviation stack_pop :: "'a lheap \<Rightarrow> ptr \<Rightarrow> ('a option \<times> 'a lheap) option" where
  "stack_pop \<equiv> list_shift"

definition stack_peek :: "'a lheap \<Rightarrow> ptr \<Rightarrow> 'a option option" where
  "stack_peek h s = list_get_at h s 0"

end
