(* ===== verification/SlistRep.thy ===== *)
theory SlistRep
  imports Slist
begin

section \<open>Abstraction\<close>

definition nexts :: "'a lheap \<Rightarrow> addr \<Rightarrow> ptr option" where
  "nexts h a = map_option i_next (items h a)"

definition datas :: "'a lheap \<Rightarrow> addr list \<Rightarrow> 'a option list" where
  "datas h as = map (\<lambda>a. Option.bind (items h a) i_data) as"

definition heap_ok :: "'a lheap \<Rightarrow> bool" where
  "heap_ok h \<longleftrightarrow> (\<forall>a \<ge> brk h. items h a = None \<and> lists h a = None)"

text \<open>Header \<open>p\<close> owns the chain \<open>as\<close> and, disjoint from it, the pooled nodes \<open>qs\<close>.\<close>

definition list_rep :: "'a lheap \<Rightarrow> addr \<Rightarrow> addr list \<Rightarrow> addr list \<Rightarrow> bool" where
  "list_rep h p as qs \<longleftrightarrow> (\<exists>L. lists h p = Some L \<and>
     lpath (nexts h) (l_head L) as None \<and> lpath (nexts h) (l_pool L) qs None \<and>
     set as \<inter> set qs = {} \<and> l_size L = int (length as) \<and> l_pool_size L = int (length qs) \<and>
     l_tail L = (if as = [] then None else Some (last as)))"

definition store_rep :: "'a lheap \<Rightarrow> (addr \<Rightarrow> (addr list \<times> addr list) option) \<Rightarrow> bool" where
  "store_rep h R \<longleftrightarrow> heap_ok h \<and> dom R = dom (lists h) \<and>
     (\<forall>p as qs. R p = Some (as, qs) \<longrightarrow> list_rep h p as qs) \<and>
     (\<forall>p q as qs bs rs. p \<noteq> q \<longrightarrow> R p = Some (as, qs) \<longrightarrow> R q = Some (bs, rs) \<longrightarrow>
        (set as \<union> set qs) \<inter> (set bs \<union> set rs) = {})"

text \<open>The view of a store: every header with its contents and the number of its pooled nodes.\<close>

type_synonym 'a lview = "addr \<Rightarrow> ('a option list \<times> nat) option"

definition view :: "'a lheap \<Rightarrow> 'a lview \<Rightarrow> bool" where
  "view h V \<longleftrightarrow> (\<exists>R. store_rep h R \<and> V = (\<lambda>p. map_option (\<lambda>(as, qs). (datas h as, length qs)) (R p)))"

text \<open>What an operation on the one list \<open>p\<close> may change: nodes the list owned (\<open>N\<close>) or that are
  new, and the header of \<open>p\<close>.\<close>

definition local_change :: "'a lheap \<Rightarrow> 'a lheap \<Rightarrow> addr \<Rightarrow> addr set \<Rightarrow> addr set \<Rightarrow> bool" where
  "local_change h h' p N N' \<longleftrightarrow>
     (\<forall>a. a < brk h \<longrightarrow> a \<notin> N \<longrightarrow> items h' a = items h a) \<and>
     (\<forall>q. q \<noteq> p \<longrightarrow> lists h' q = lists h q) \<and>
     N' \<subseteq> N \<union> {brk h ..< brk h'} \<and> heap_ok h' \<and> brk h \<le> brk h'"

lemma heap_ok_lt: "heap_ok h \<Longrightarrow> items h a = Some c \<Longrightarrow> a < brk h"
  by (metis heap_ok_def leI option.distinct(1))

lemma heap_ok_list_lt: "heap_ok h \<Longrightarrow> lists h a = Some c \<Longrightarrow> a < brk h"
  by (metis heap_ok_def leI option.distinct(1))

lemma lpath_nexts_alloc: "lpath (nexts h) p as q \<Longrightarrow> a \<in> set as \<Longrightarrow> \<exists>c. items h a = Some c"
  by (drule (1) lpath_alloc) (auto simp: nexts_def)

lemma list_rep_alloc: "list_rep h p as qs \<Longrightarrow> a \<in> set as \<union> set qs \<Longrightarrow> \<exists>c. items h a = Some c"
  by (auto simp: list_rep_def dest: lpath_nexts_alloc)

lemma list_rep_distinct: "list_rep h p as qs \<Longrightarrow> distinct (as @ qs)"
  by (auto simp: list_rep_def dest: lpath_distinct)

lemma nexts_cong: "(\<And>a. a \<in> set as \<Longrightarrow> items h' a = items h a) \<Longrightarrow>
    lpath (nexts h') p as q = lpath (nexts h) p as q"
  by (rule lpath_cong) (simp add: nexts_def)

lemma datas_cong: "(\<And>a. a \<in> set as \<Longrightarrow> items h' a = items h a) \<Longrightarrow> datas h' as = datas h as"
  by (simp add: datas_def)

lemma list_rep_cong:
  assumes "list_rep h p as qs" "lists h' p = lists h p"
    "\<And>a. a \<in> set as \<union> set qs \<Longrightarrow> items h' a = items h a"
  shows "list_rep h' p as qs"
  using assms nexts_cong [of as h' h] nexts_cong [of qs h' h] by (auto simp: list_rep_def)

text \<open>The general frame rule: only the lists of \<open>P\<close> change, and only their own nodes and new ones.\<close>

definition nodes_of :: "(addr \<Rightarrow> (addr list \<times> addr list) option) \<Rightarrow> addr set \<Rightarrow> addr set" where
  "nodes_of R P = {a. \<exists>p as qs. p \<in> P \<and> R p = Some (as, qs) \<and> a \<in> set as \<union> set qs}"

lemma store_rep_nodes: "store_rep h R \<Longrightarrow> R q = Some (bs, rs) \<Longrightarrow> a \<in> set bs \<union> set rs \<Longrightarrow> a < brk h"
  using list_rep_alloc heap_ok_lt unfolding store_rep_def by blast

lemma store_rep_frame:
  assumes S: "store_rep h R" and ok': "heap_ok h'" and le: "brk h \<le> brk h'"
    and RP: "\<And>q. q \<notin> P \<Longrightarrow> R' q = R q"
    and LP: "\<And>q. q \<notin> P \<Longrightarrow> lists h' q = lists h q"
    and dP: "\<And>q. q \<in> P \<Longrightarrow> R' q = None \<longleftrightarrow> lists h' q = None"
    and rep: "\<And>q as qs. q \<in> P \<Longrightarrow> R' q = Some (as, qs) \<Longrightarrow> list_rep h' q as qs"
    and disj: "\<And>p q as qs bs rs. p \<in> P \<Longrightarrow> q \<in> P \<Longrightarrow> p \<noteq> q \<Longrightarrow> R' p = Some (as, qs) \<Longrightarrow>
        R' q = Some (bs, rs) \<Longrightarrow> (set as \<union> set qs) \<inter> (set bs \<union> set rs) = {}"
    and items: "\<And>a. a < brk h \<Longrightarrow> a \<notin> nodes_of R P \<Longrightarrow> items h' a = items h a"
    and new: "nodes_of R' P \<subseteq> nodes_of R P \<union> {brk h ..< brk h'}"
  shows "store_rep h' R'"
    "\<And>q bs rs. q \<notin> P \<Longrightarrow> R q = Some (bs, rs) \<Longrightarrow> datas h' bs = datas h bs"
proof -
  have out: "a \<notin> nodes_of R P" if q: "q \<notin> P" "R q = Some (bs, rs)" "a \<in> set bs \<union> set rs" for q bs rs a
  proof
    assume "a \<in> nodes_of R P"
    then obtain p as qs where p: "p \<in> P" "R p = Some (as, qs)" "a \<in> set as \<union> set qs"
      by (auto simp: nodes_of_def)
    then have "p \<noteq> q" using q by auto
    then have "(set as \<union> set qs) \<inter> (set bs \<union> set rs) = {}"
      using S p q unfolding store_rep_def by blast
    with p q show False by blast
  qed
  have same: "items h' a = items h a" if "q \<notin> P" "R q = Some (bs, rs)" "a \<in> set bs \<union> set rs" for q bs rs a
    using items out store_rep_nodes [OF S] that by blast
  then show dat: "\<And>q bs rs. q \<notin> P \<Longrightarrow> R q = Some (bs, rs) \<Longrightarrow> datas h' bs = datas h bs"
    by (meson UnI1 datas_cong)
  have other: "list_rep h' q bs rs" if "q \<notin> P" "R' q = Some (bs, rs)" for q bs rs
  proof (rule list_rep_cong)
    show "list_rep h q bs rs" using S RP that by (auto simp: store_rep_def)
    show "lists h' q = lists h q" using LP that by simp
  qed (use same RP that in auto)
  have fresh: "(set as \<union> set qs) \<inter> (set bs \<union> set rs) = {}"
    if "p \<in> P" "q \<notin> P" "R' p = Some (as, qs)" "R' q = Some (bs, rs)" for p q as qs bs rs
  proof -
    have "set as \<union> set qs \<subseteq> nodes_of R' P" using that unfolding nodes_of_def by blast
    moreover have "R q = Some (bs, rs)" using that RP by simp
    moreover have "a < brk h" if "a \<in> set bs \<union> set rs" for a
      using store_rep_nodes [OF S \<open>R q = Some (bs, rs)\<close> that] .
    ultimately show ?thesis using new out [OF \<open>q \<notin> P\<close>] by fastforce
  qed
  have d: "dom R' = dom (lists h')"
  proof -
    have "R' q = None \<longleftrightarrow> lists h' q = None" for q
    proof (cases "q \<in> P")
      case False
      moreover have "q \<in> dom R \<longleftrightarrow> q \<in> dom (lists h)" using S by (simp add: store_rep_def)
      ultimately show ?thesis using RP LP by (auto simp: domIff)
    qed (rule dP)
    then show ?thesis by (auto simp: dom_def)
  qed
  show "store_rep h' R'"
    unfolding store_rep_def
  proof (intro conjI allI impI ok' d)
    fix q bs rs assume "R' q = Some (bs, rs)"
    then show "list_rep h' q bs rs" using rep other by (cases "q \<in> P") auto
  next
    fix p q as qs bs rs
    assume pq: "p \<noteq> q" "R' p = Some (as, qs)" "R' q = Some (bs, rs)"
    show "(set as \<union> set qs) \<inter> (set bs \<union> set rs) = {}"
    proof (cases "p \<in> P \<or> q \<in> P")
      case True
      then show ?thesis using disj fresh pq by (metis Int_commute)
    next
      case False
      then show ?thesis using S RP pq unfolding store_rep_def by (metis (no_types))
    qed
  qed
qed

lemma store_rep_local:
  assumes S: "store_rep h R" and R: "R p = Some (as, qs)"
    and rep: "list_rep h' p as' qs'"
    and loc: "local_change h h' p (set as \<union> set qs) (set as' \<union> set qs')"
  shows "store_rep h' (R(p \<mapsto> (as', qs')))"
    "\<And>q bs rs. q \<noteq> p \<Longrightarrow> R q = Some (bs, rs) \<Longrightarrow> datas h' bs = datas h bs"
proof -
  have n: "nodes_of R {p} = set as \<union> set qs" "nodes_of (R(p \<mapsto> (as', qs'))) {p} = set as' \<union> set qs'"
    using R by (auto simp: nodes_of_def)
  have l: "heap_ok h'" "brk h \<le> brk h'" using loc by (auto simp: local_change_def)
  note F = store_rep_frame [OF S l, of "{p}" "R(p \<mapsto> (as', qs'))", unfolded n]
  have p: "lists h' p \<noteq> None" using rep by (auto simp: list_rep_def)
  show "store_rep h' (R(p \<mapsto> (as', qs')))"
    by (rule F) (use loc rep p in \<open>auto simp: local_change_def\<close>)
  show "\<And>q bs rs. q \<noteq> p \<Longrightarrow> R q = Some (bs, rs) \<Longrightarrow> datas h' bs = datas h bs"
    by (rule F) (use loc rep p in \<open>auto simp: local_change_def\<close>)
qed

lemma view_local:
  assumes V: "view h V" and p: "V p = Some (xs, n)"
    and step: "\<And>as qs. list_rep h p as qs \<Longrightarrow> heap_ok h \<Longrightarrow> datas h as = xs \<Longrightarrow> length qs = n \<Longrightarrow>
      \<exists>h' as' qs'. op = Some (r, h') \<and> list_rep h' p as' qs' \<and> datas h' as' = xs' \<and>
        length qs' = n' \<and> local_change h h' p (set as \<union> set qs) (set as' \<union> set qs')"
  shows "\<exists>h'. op = Some (r, h') \<and> view h' (V(p \<mapsto> (xs', n')))"
proof -
  from V obtain R where S: "store_rep h R"
    and VR: "V = (\<lambda>p. map_option (\<lambda>(as, qs). (datas h as, length qs)) (R p))"
    by (auto simp: view_def)
  from p VR obtain as qs where R: "R p = Some (as, qs)" "datas h as = xs" "length qs = n"
    by (auto split: prod.splits)
  from S R have "list_rep h p as qs" "heap_ok h" by (auto simp: store_rep_def)
  from step [OF this R(2,3)] obtain h' as' qs' where
    op: "op = Some (r, h')" and rep: "list_rep h' p as' qs'" and d: "datas h' as' = xs'" "length qs' = n'"
    and loc: "local_change h h' p (set as \<union> set qs) (set as' \<union> set qs')" by blast
  note S' = store_rep_local [OF S R(1) rep loc]
  have "view h' (V(p \<mapsto> (xs', n')))"
    unfolding view_def
  proof (intro exI conjI)
    show "store_rep h' (R(p \<mapsto> (as', qs')))" by (rule S')
    show "V(p \<mapsto> (xs', n')) =
        (\<lambda>q. map_option (\<lambda>(as, qs). (datas h' as, length qs)) ((R(p \<mapsto> (as', qs'))) q))"
      using d VR S'(2) by (fastforce split: prod.splits option.splits simp: map_option_case)
  qed
  with op show ?thesis by blast
qed

lemma view_heap_ok: "view h V \<Longrightarrow> heap_ok h"
  by (auto simp: view_def store_rep_def)

lemma view_list: "view h V \<Longrightarrow> V p = Some (xs, n) \<Longrightarrow>
    \<exists>as qs. list_rep h p as qs \<and> datas h as = xs \<and> length qs = n"
  by (fastforce simp: view_def store_rep_def split: prod.splits)

section \<open>Evaluation of field accesses\<close>

lemma upd_item_Some [simp]: "items h a = Some c \<Longrightarrow>
    upd_item h (Some a) f = Some (h\<lparr>items := (items h)(a \<mapsto> f c)\<rparr>)"
  by (simp add: upd_item_def)

lemma upd_list_Some [simp]: "lists h p = Some L \<Longrightarrow>
    upd_list h (Some p) f = Some (h\<lparr>lists := (lists h)(p \<mapsto> f L)\<rparr>)"
  by (simp add: upd_list_def)

lemma free_item_Some [simp]: "items h a = Some c \<Longrightarrow>
    free_item h (Some a) = Some (h\<lparr>items := (items h)(a := None)\<rparr>)"
  by (simp add: free_item_def)

lemma nexts_upd_item [simp]:
  "nexts (h\<lparr>items := (items h)(a \<mapsto> c)\<rparr>) = (nexts h)(a \<mapsto> i_next c)"
  by (auto simp: nexts_def)

lemma nexts_upd_lists [simp]: "nexts (h\<lparr>lists := f\<rparr>) = nexts h"
  "nexts (h\<lparr>brk := b\<rparr>) = nexts h"
  by (auto simp: nexts_def)

lemma datas_Nil [simp]: "datas h [] = []"
  by (simp add: datas_def)

lemma datas_append [simp]: "datas h (as @ bs) = datas h as @ datas h bs"
  by (simp add: datas_def)

lemma datas_Cons: "datas h (a # as) = Option.bind (items h a) i_data # datas h as"
  by (simp add: datas_def)

lemma length_datas [simp]: "length (datas h as) = length as"
  by (simp add: datas_def)

lemma nexts_eq_items: "items h' = items h \<Longrightarrow> nexts h' = nexts h"
  by (simp add: nexts_def fun_eq_iff)

lemma nexts_items_upd: "items h' = (items h)(a \<mapsto> c) \<Longrightarrow> nexts h' = (nexts h)(a \<mapsto> i_next c)"
  by (simp add: nexts_def fun_eq_iff)

lemma new_list_item_rep:
  assumes rep: "list_rep h p as qs" and ok: "heap_ok h"
  obtains a h' L pl where
    "new_list_item h (Some p) x = Some (Some a, h')"
    "lists h p = Some L"
    "lists h' = (lists h)(p \<mapsto> L\<lparr>l_pool := pl, l_pool_size := int (length (tl qs))\<rparr>)"
    "items h' = (items h)(a \<mapsto> \<lparr>i_next = None, i_data = x\<rparr>)"
    "brk h \<le> brk h'" "heap_ok h'" "a \<notin> set as" "a \<notin> set (tl qs)"
    "a \<in> set qs \<union> {brk h ..< brk h'}"
    "lpath (nexts h') pl (tl qs) None" "lpath (nexts h') (l_head L) as None"
proof -
  from rep obtain L where L: "lists h p = Some L" "lpath (nexts h) (l_head L) as None"
    "lpath (nexts h) (l_pool L) qs None" "set as \<inter> set qs = {}"
    "l_pool_size L = int (length qs)" by (auto simp: list_rep_def)
  note pbrk = heap_ok_list_lt [OF ok L(1)]
  show ?thesis
  proof (cases qs)
    case Nil
    then have z: "l_pool L = None" "l_pool_size L = 0" using L by auto
    have new: "brk h \<notin> set as" using rep list_rep_alloc [OF rep] heap_ok_lt [OF ok] by blast
    let ?h = "h\<lparr>items := (items h)(brk h \<mapsto> \<lparr>i_next = None, i_data = x\<rparr>), brk := Suc (brk h)\<rparr>"
    have n: "nexts ?h = (nexts h)(brk h \<mapsto> None)" by (auto simp: nexts_def)
    have Leq: "L\<lparr>l_pool := None, l_pool_size := 0\<rparr> = L" using z by (cases L) simp
    show ?thesis
    proof (rule that [of "brk h" ?h L None])
      show "new_list_item h (Some p) x = Some (Some (brk h), ?h)"
        using L(1) z by (simp add: new_list_item_def malloc_item_def)
      show "heap_ok ?h" using ok by (auto simp: heap_ok_def)
      show "lpath (nexts ?h) (l_head L) as None" using new L(2) by (simp add: n)
    qed (use L Nil Leq new in \<open>auto simp: fun_upd_idem\<close>)
  next
    case (Cons q qs')
    with L obtain c where c: "l_pool L = Some q" "items h q = Some c"
      "lpath (nexts h) (i_next c) qs' None" by (auto simp: nexts_def)
    have d: "q \<notin> set as" "q \<notin> set qs'" using L Cons lpath_distinct [OF L(3)] by auto
    let ?h = "h\<lparr>items := (items h)(q \<mapsto> \<lparr>i_next = None, i_data = x\<rparr>),
      lists := (lists h)(p \<mapsto> L\<lparr>l_pool := i_next c, l_pool_size := int (length qs')\<rparr>)\<rparr>"
    have n: "nexts ?h = (nexts h)(q \<mapsto> None)" by (auto simp: nexts_def)
    show ?thesis
    proof (rule that [of q ?h L "i_next c"])
      show "new_list_item h (Some p) x = Some (Some q, ?h)"
        using L(1,5) c Cons by (cases c) (simp add: new_list_item_def allocate_from_pool_def)
      show "heap_ok ?h" using ok heap_ok_lt [OF ok c(2)] pbrk by (auto simp: heap_ok_def)
      show "lpath (nexts ?h) (l_head L) as None" using d L(2) by (simp add: n)
      show "lpath (nexts ?h) (i_next c) (tl qs) None" using d c Cons by (simp add: n)
    qed (use L Cons d in auto)
  qed
qed

section \<open>Insertion at the ends\<close>

text \<open>Appending leaves the nodes of the list, and the cursor of a list that is not empty, as they are.\<close>

definition append_keeps :: "'a lheap \<Rightarrow> 'a lheap \<Rightarrow> addr \<Rightarrow> addr list \<Rightarrow> addr list \<Rightarrow> bool" where
  "append_keeps h h' p as as' \<longleftrightarrow> take (length as) as' = as \<and> (as \<noteq> [] \<longrightarrow> (\<forall>L. lists h p = Some L \<longrightarrow>
     (\<exists>L'. lists h' p = Some L' \<and> l_iter L' = l_iter L \<and> l_iter_idx L' = l_iter_idx L)))"

lemma list_append_keeps:
  assumes rep: "list_rep h p as qs" and ok: "heap_ok h"
  shows "\<exists>h' as' qs'. list_append h (Some p) x = Some (int (length as), h') \<and>
    list_rep h' p as' qs' \<and> datas h' as' = datas h as @ [x] \<and> length qs' = length qs - 1 \<and>
    local_change h h' p (set as \<union> set qs) (set as' \<union> set qs') \<and> append_keeps h h' p as as'"
proof -
  from new_list_item_rep [OF rep ok, of x] obtain a h1 L pl where
    new: "new_list_item h (Some p) x = Some (Some a, h1)"
    and L: "lists h p = Some L"
    and l1: "lists h1 = (lists h)(p \<mapsto> L\<lparr>l_pool := pl, l_pool_size := int (length (tl qs))\<rparr>)"
    and i1: "items h1 = (items h)(a \<mapsto> \<lparr>i_next = None, i_data = x\<rparr>)"
    and b: "brk h \<le> brk h1" "heap_ok h1"
    and a: "a \<notin> set as" "a \<notin> set (tl qs)" "a \<in> set qs \<union> {brk h ..< brk h1}"
    and paths: "lpath (nexts h1) pl (tl qs) None" "lpath (nexts h1) (l_head L) as None"
    by blast
  from rep L have R: "set as \<inter> set qs = {}" "l_size L = int (length as)"
    "l_tail L = (if as = [] then None else Some (last as))"
    by (auto simp: list_rep_def)
  show ?thesis
  proof (cases "as = []")
    case True
    with paths have hd: "l_head L = None" by simp
    let ?L = "L\<lparr>l_pool := pl, l_pool_size := int (length (tl qs)), l_head := Some a, l_tail := Some a,
      l_iter := SHead p, l_size := 1\<rparr>"
    let ?h = "h1\<lparr>lists := (lists h)(p \<mapsto> ?L)\<rparr>"
    have op: "list_append h (Some p) x = Some (0, ?h)"
      using L hd new l1 R True by (simp add: list_append_def)
    have "list_rep ?h p [a] (tl qs)"
      using paths a True i1 by (auto simp: list_rep_def nexts_def)
    moreover have "local_change h ?h p (set as \<union> set qs) (set [a] \<union> set (tl qs))"
      using a b i1 heap_ok_list_lt [OF ok L] True list.set_sel(2) [of qs]
      by (cases qs) (auto simp: local_change_def heap_ok_def l1)
    moreover have "append_keeps h ?h p as [a]" using True by (simp add: append_keeps_def)
    ultimately show ?thesis using op True i1
      by (intro exI [of _ ?h] exI [of _ "[a]"] exI [of _ "tl qs"]) (simp add: datas_def)
  next
    case False
    then obtain y where hd: "l_head L = Some y" using paths(2) by (cases as) auto
    let ?t = "last as"
    have t: "?t \<in> set as" "?t \<noteq> a" using False a by auto
    then obtain c where c: "items h ?t = Some c" using list_rep_alloc [OF rep] by blast
    let ?L = "L\<lparr>l_pool := pl, l_pool_size := int (length (tl qs)), l_tail := Some a,
      l_size := l_size L + 1\<rparr>"
    let ?h = "h1\<lparr>items := (items h1)(?t \<mapsto> c\<lparr>i_next := Some a\<rparr>), lists := (lists h)(p \<mapsto> ?L)\<rparr>"
    have op: "list_append h (Some p) x = Some (int (length as), ?h)"
      using L hd new l1 R False c i1 t by (simp add: list_append_def)
    have da: "distinct as" using list_rep_distinct [OF rep] by simp
    have n: "nexts ?h = (nexts h1)(?t \<mapsto> Some a)"
      by (auto simp: nexts_def)
    have na: "nexts h1 a = Some None" by (simp add: nexts_def i1)
    have tq: "?t \<notin> set (tl qs)" using R(1) t(1) by (cases qs) auto
    have "lpath (nexts ?h) (l_head L) (as @ [a]) None"
      using lpath_snoc_upd [OF paths(2) da False, of "Some a"] t na by (simp add: n)
    moreover have "lpath (nexts ?h) pl (tl qs) None"
      using paths(1) tq by (simp add: n)
    moreover have "set (as @ [a]) \<inter> set (tl qs) = {}"
      using R(1) a by (cases qs) auto
    ultimately have "list_rep ?h p (as @ [a]) (tl qs)"
      using R by (auto simp: list_rep_def)
    moreover have "local_change h ?h p (set as \<union> set qs) (set (as @ [a]) \<union> set (tl qs))"
      using a b i1 t heap_ok_list_lt [OF ok L] heap_ok_lt [OF ok c]
      by (cases qs) (auto simp: local_change_def heap_ok_def l1)
    moreover have "datas ?h (as @ [a]) = datas h as @ [x]"
      using t a i1 c by (auto simp: datas_def)
    moreover have "append_keeps h ?h p as (as @ [a])" using L by (simp add: append_keeps_def)
    ultimately show ?thesis using op
      by (intro exI [of _ ?h] exI [of _ "as @ [a]"] exI [of _ "tl qs"]) simp
  qed
qed

lemma list_append_local:
  assumes "list_rep h p as qs" "heap_ok h"
  shows "\<exists>h' as' qs'. list_append h (Some p) x = Some (int (length as), h') \<and>
    list_rep h' p as' qs' \<and> datas h' as' = datas h as @ [x] \<and> length qs' = length qs - 1 \<and>
    local_change h h' p (set as \<union> set qs) (set as' \<union> set qs')"
  using list_append_keeps [OF assms] by blast

lemma list_push_local:
  assumes rep: "list_rep h p as qs" and ok: "heap_ok h"
  shows "\<exists>h' as' qs'. list_push h (Some p) x = Some (int (length as) + 1, h') \<and>
    list_rep h' p as' qs' \<and> datas h' as' = x # datas h as \<and> length qs' = length qs - 1 \<and>
    local_change h h' p (set as \<union> set qs) (set as' \<union> set qs')"
proof -
  from new_list_item_rep [OF rep ok, of x] obtain a h1 L pl where
    new: "new_list_item h (Some p) x = Some (Some a, h1)"
    and L: "lists h p = Some L"
    and l1: "lists h1 = (lists h)(p \<mapsto> L\<lparr>l_pool := pl, l_pool_size := int (length (tl qs))\<rparr>)"
    and i1: "items h1 = (items h)(a \<mapsto> \<lparr>i_next = None, i_data = x\<rparr>)"
    and b: "brk h \<le> brk h1" "heap_ok h1"
    and a: "a \<notin> set as" "a \<notin> set (tl qs)" "a \<in> set qs \<union> {brk h ..< brk h1}"
    and paths: "lpath (nexts h1) pl (tl qs) None" "lpath (nexts h1) (l_head L) as None"
    by blast
  from rep L have R: "set as \<inter> set qs = {}" "l_size L = int (length as)"
    "l_tail L = (if as = [] then None else Some (last as))"
    by (auto simp: list_rep_def)
  let ?L = "L\<lparr>l_pool := pl, l_pool_size := int (length (tl qs)), l_head := Some a\<rparr>"
  let ?L2 = "(if as = [] then ?L\<lparr>l_iter := SHead p, l_tail := Some a, l_iter_idx := 0\<rparr> else ?L)"
  let ?L3 = "(if l_iter_idx ?L2 \<ge> 0 then ?L2\<lparr>l_iter_idx := l_iter_idx ?L2 + 1\<rparr> else ?L2)"
  let ?L4 = "?L3\<lparr>l_size := l_size L + 1\<rparr>"
  let ?h = "h1\<lparr>items := (items h1)(a \<mapsto> \<lparr>i_next = l_head L, i_data = x\<rparr>),
    lists := (lists h1)(p \<mapsto> ?L4)\<rparr>"
  have op: "list_push h (Some p) x = Some (int (length as) + 1, ?h)"
    using L new l1 R i1 by (simp add: list_push_def)
  have n: "nexts ?h = (nexts h1)(a \<mapsto> l_head L)" by (auto simp: nexts_def)
  have "lpath (nexts ?h) (Some a) (a # as) None" using paths(2) a by (simp add: n)
  moreover have "lpath (nexts ?h) pl (tl qs) None" using paths(1) a by (simp add: n)
  moreover have "set (a # as) \<inter> set (tl qs) = {}" using R(1) a by (cases qs) auto
  ultimately have "list_rep ?h p (a # as) (tl qs)"
    using R by (auto simp: list_rep_def)
  moreover have "local_change h ?h p (set as \<union> set qs) (set (a # as) \<union> set (tl qs))"
    using a b i1 heap_ok_list_lt [OF ok L]
    by (cases qs) (auto simp: local_change_def heap_ok_def l1)
  moreover have "datas ?h (a # as) = x # datas h as"
    using a i1 by (auto simp: datas_def)
  ultimately show ?thesis using op
    by (intro exI [of _ ?h] exI [of _ "a # as"] exI [of _ "tl qs"]) simp
qed

lemma release_to_pool_eval:
  assumes "lists h p = Some L" "items h a = Some c"
  shows "release_to_pool h (Some p) (Some a) = Some (h\<lparr>
    items := (items h)(a \<mapsto> \<lparr>i_next = l_pool L, i_data = None\<rparr>),
    lists := (lists h)(p \<mapsto> L\<lparr>l_pool := Some a, l_pool_size := l_pool_size L + 1,
      l_size := l_size L - 1\<rparr>)\<rparr>)"
  using assms by (cases c) (auto simp: release_to_pool_def)

lemma list_shift_empty:
  assumes "list_rep h p [] qs"
  shows "list_shift h (Some p) = Some (None, h)"
  using assms by (auto simp: list_rep_def list_shift_def)

lemma list_shift_local:
  assumes rep: "list_rep h p as qs" and ok: "heap_ok h" and ne: "as \<noteq> []"
  shows "\<exists>h' as' qs'. list_shift h (Some p) = Some (hd (datas h as), h') \<and>
    list_rep h' p as' qs' \<and> datas h' as' = tl (datas h as) \<and> length qs' = Suc (length qs) \<and>
    local_change h h' p (set as \<union> set qs) (set as' \<union> set qs')"
proof -
  obtain a bs where as: "as = a # bs" using ne by (cases as) auto
  from rep as obtain L c where L: "lists h p = Some L" "l_head L = Some a"
    "items h a = Some c" "lpath (nexts h) (i_next c) bs None" "lpath (nexts h) (l_pool L) qs None"
    "set as \<inter> set qs = {}" "l_size L = int (length as)" "l_pool_size L = int (length qs)"
    "l_tail L = Some (last as)"
    by (auto simp: list_rep_def nexts_def split: if_splits)
  have d: "distinct as" "a \<notin> set bs" "a \<notin> set qs"
    using list_rep_distinct [OF rep] as by auto
  have lst: "last as = a \<longleftrightarrow> bs = []" using d as by (auto dest: last_in_set)
  let ?L = "L\<lparr>l_head := i_next c, l_tail := (if bs = [] then None else l_tail L),
    l_iter_idx := l_iter_idx L - 1, l_pool := Some a, l_pool_size := l_pool_size L + 1,
    l_size := l_size L - 1\<rparr>"
  let ?h = "h\<lparr>items := (items h)(a \<mapsto> \<lparr>i_next = l_pool L, i_data = None\<rparr>),
    lists := (lists h)(p \<mapsto> ?L)\<rparr>"
  have op: "list_shift h (Some p) = Some (i_data c, ?h)"
    using L lst by (cases L) (auto simp: list_shift_def release_to_pool_eval)
  have n: "nexts ?h = (nexts h)(a \<mapsto> l_pool L)" by (auto simp: nexts_def)
  have "list_rep ?h p bs (a # qs)"
    using L d as by (auto simp: list_rep_def n)
  moreover have "local_change h ?h p (set as \<union> set qs) (set bs \<union> set (a # qs))"
    using as ok heap_ok_lt [OF ok L(3)] heap_ok_list_lt [OF ok L(1)]
    by (auto simp: local_change_def heap_ok_def)
  moreover have "datas ?h bs = tl (datas h as)" "hd (datas h as) = i_data c"
    using d L(3) as by (auto simp: datas_def)
  ultimately show ?thesis using op
    by (intro exI [of _ ?h] exI [of _ bs] exI [of _ "a # qs"]) auto
qed

section \<open>Refinement of the end operations\<close>

lemma list_append_view:
  assumes "view h V" "V p = Some (xs, n)"
  shows "\<exists>h'. list_append h (Some p) x = Some (int (length xs), h') \<and>
    view h' (V(p \<mapsto> (xs @ [x], n - 1)))"
  using assms by (rule view_local) (metis list_append_local length_datas)

lemma list_push_view:
  assumes "view h V" "V p = Some (xs, n)"
  shows "\<exists>h'. list_push h (Some p) x = Some (int (length xs) + 1, h') \<and>
    view h' (V(p \<mapsto> (x # xs, n - 1)))"
  using assms by (rule view_local) (metis list_push_local length_datas)

lemma list_shift_view:
  assumes "view h V" "V p = Some (xs, n)" "xs \<noteq> []"
  shows "\<exists>h'. list_shift h (Some p) = Some (hd xs, h') \<and> view h' (V(p \<mapsto> (tl xs, Suc n)))"
  using assms(1,2)
proof (rule view_local)
  fix as qs assume "list_rep h p as qs" "heap_ok h" "datas h as = xs" "length qs = n"
  moreover from this have "as \<noteq> []" using assms(3) by auto
  ultimately show "\<exists>h' as' qs'. list_shift h (Some p) = Some (hd xs, h') \<and> list_rep h' p as' qs' \<and>
      datas h' as' = tl xs \<and> length qs' = Suc n \<and>
      local_change h h' p (set as \<union> set qs) (set as' \<union> set qs')"
    using list_shift_local by blast
qed

lemma list_shift_view_empty:
  assumes "view h V" "V p = Some ([], n)"
  shows "list_shift h (Some p) = Some (None, h)"
  using view_list [OF assms] list_shift_empty by (metis length_0_conv length_datas)

end
