(* ===== verification/SlistOps.thy ===== *)
theory SlistOps
  imports SlistRep
begin

section \<open>Slots of a chain\<close>

definition slot_of :: "addr \<Rightarrow> addr list \<Rightarrow> nat \<Rightarrow> slot" where
  "slot_of p as i = (if i = 0 then SHead p else SNext (as ! (i - 1)))"

lemma slot_of_0 [simp]: "slot_of p as 0 = SHead p"
  by (simp add: slot_of_def)

lemma slot_of_Suc [simp]: "slot_of p as (Suc i) = SNext (as ! i)"
  by (simp add: slot_of_def)

lemma list_repD:
  assumes "list_rep h p as qs"
  obtains L where "lists h p = Some L" "lpath (nexts h) (l_head L) as None"
    "lpath (nexts h) (l_pool L) qs None" "set as \<inter> set qs = {}" "distinct as" "distinct qs"
    "l_size L = int (length as)" "l_pool_size L = int (length qs)"
    "l_tail L = (if as = [] then None else Some (last as))"
  using assms lpath_distinct by (auto simp: list_rep_def)

lemma list_rep_next:
  assumes "list_rep h p as qs" "i < length as"
  obtains c where "items h (as ! i) = Some c"
    "i_next c = (if Suc i < length as then Some (as ! Suc i) else None)"
    "datas h as ! i = i_data c"
proof -
  from assms(1) obtain L :: slist where "lpath (nexts h) (l_head L) as None"
    by (auto simp: list_rep_def)
  from lpath_nth [OF this assms(2)] obtain c where "items h (as ! i) = Some c"
    "i_next c = (if Suc i < length as then Some (as ! Suc i) else None)" by (auto simp: nexts_def)
  with assms(2) that show ?thesis by (simp add: datas_def)
qed

lemma list_rep_head: "list_rep h p as qs \<Longrightarrow> lists h p = Some L \<Longrightarrow>
    l_head L = (if as = [] then None else Some (as ! 0))"
  by (cases as) (auto simp: list_rep_def)

lemma read_slot_of:
  assumes "list_rep h p as qs" "i \<le> length as"
  shows "read_slot h (slot_of p as i) = Some (if i < length as then Some (as ! i) else None)"
proof (cases i)
  case 0
  with assms list_rep_head [OF assms(1)] show ?thesis by (cases as) (auto elim!: list_repD)
next
  case (Suc j)
  with assms have "j < length as" by simp
  from list_rep_next [OF assms(1) this] obtain c where "items h (as ! j) = Some c"
    "i_next c = (if Suc j < length as then Some (as ! Suc j) else None)" by metis
  with Suc show ?thesis by simp
qed

lemma walk_pp_rep:
  assumes rep: "list_rep h p as qs" and ne: "as \<noteq> []" and idx: "0 \<le> idx"
    and j: "j = min (length as - 1) (nat (idx - 1))" and "i \<le> j"
  shows "walk_pp h idx (slot_of p as i) (int i) tt =
    Some (slot_of p as j, int j, if j = i then tt else Some (as ! (j - 1)))"
  using \<open>i \<le> j\<close>
proof (induction "j - i" arbitrary: i tt)
  case 0
  then have ij: "i = j" by simp
  then have il: "i < length as" using j ne by (cases as) auto
  from list_rep_next [OF rep il] obtain c where c: "items h (as ! i) = Some c"
    "i_next c = (if Suc i < length as then Some (as ! Suc i) else None)" by metis
  have "\<not> (i_next c \<noteq> None \<and> int i < idx - 1)" using c(2) ij j by (auto split: if_splits)
  with c il ij show ?case
    by (subst walk_pp.simps) (auto simp: read_slot_of [OF rep])
next
  case (Suc d)
  then have ij: "i < j" by simp
  then have il: "Suc i < length as" using j ne by (cases as) auto
  from list_rep_next [OF rep, of i] il obtain c where c: "items h (as ! i) = Some c"
    "i_next c = Some (as ! Suc i)" by (metis Suc_lessD)
  have "int i < idx - 1" using ij j by auto
  moreover have "walk_pp h idx (slot_of p as (Suc i)) (int (Suc i)) (Some (as ! i)) =
      Some (slot_of p as j, int j, if j = Suc i then Some (as ! i) else Some (as ! (j - 1)))"
    using Suc ij by (intro Suc.hyps) auto
  ultimately show ?case using c il ij
    by (subst walk_pp.simps) (auto simp: read_slot_of [OF rep] ac_simps)
qed

section \<open>Insertion at an index\<close>

lemma datas_cong_bind:
  "(\<And>a. a \<in> set as \<Longrightarrow> Option.bind (items h' a) i_data = Option.bind (items h a) i_data) \<Longrightarrow>
    datas h' as = datas h as"
  by (simp add: datas_def)

lemma lpath_insert_after:
  assumes "lpath n p as None" "j < length as" "a \<notin> set as" "distinct as"
  shows "lpath (n(a \<mapsto> (if Suc j < length as then Some (as ! Suc j) else None), as ! j \<mapsto> Some a)) p
    (take (Suc j) as @ a # drop (Suc j) as) None"
proof -
  let ?r = "if Suc j < length as then Some (as ! Suc j) else None"
  have as: "as = take j as @ as ! j # drop (Suc j) as" using assms(2) by (rule id_take_nth_drop)
  have d: "as ! j \<notin> set (take j as)" "as ! j \<notin> set (drop (Suc j) as)"
    using assms(4) by (subst (asm) as, simp)+
  have tl: "lpath n ?r (drop (Suc j) as) None"
    using lpath_drop [OF assms(1), of "Suc j"] assms(2) by simp
  have hd: "lpath n p (take j as) (Some (as ! j))"
    using assms(1) by (subst (asm) as) auto
  have an: "a \<notin> set (take j as)" "a \<notin> set (drop (Suc j) as)"
    using assms(3) by (meson in_set_takeD in_set_dropD)+
  have "as ! j \<noteq> a" using assms by auto
  with hd tl d an assms(2) show ?thesis by (simp add: take_Suc_conv_app_nth)
qed

lemma datas_take_drop: "datas h (take k as) = take k (datas h as)" "datas h (drop k as) = drop k (datas h as)"
  by (simp_all add: datas_def take_map drop_map)

lemma list_insert_at_local:
  assumes rep: "list_rep h p as qs" and ok: "heap_ok h" and idx: "0 \<le> idx"
    and k: "k = min (length as) (nat idx)"
  shows "\<exists>h' as' qs'. list_insert_at h (Some p) x idx = Some (int k, h') \<and>
    list_rep h' p as' qs' \<and> datas h' as' = take k (datas h as) @ x # drop k (datas h as) \<and>
    length qs' = length qs - 1 \<and> local_change h h' p (set as \<union> set qs) (set as' \<union> set qs')"
proof -
  from new_list_item_rep [OF rep ok, of x] obtain a h1 L pl where
    new: "new_list_item h (Some p) x = Some (Some a, h1)"
    and L: "lists h p = Some L"
    and l1: "lists h1 = (lists h)(p \<mapsto> L\<lparr>l_pool := pl, l_pool_size := int (length (tl qs))\<rparr>)"
    and i1: "items h1 = (items h)(a \<mapsto> \<lparr>i_next = None, i_data = x\<rparr>)"
    and b: "brk h \<le> brk h1" "heap_ok h1"
    and a: "a \<notin> set as" "a \<notin> set (tl qs)" "a \<in> set qs \<union> {brk h ..< brk h1}"
    and paths: "lpath (nexts h1) pl (tl qs) None" "lpath (nexts h1) (l_head L) as None"
    by blast
  from rep L have R: "set as \<inter> set qs = {}" "l_size L = int (length as)"
    "l_tail L = (if as = [] then None else Some (last as))" "distinct as"
    by (auto simp: list_rep_def dest: lpath_distinct)
  have disj: "set as \<inter> set (tl qs) = {}" using R(1) by (cases qs) auto
  let ?L = "\<lambda>hd. L\<lparr>l_head := hd, l_pool := pl, l_pool_size := int (length (tl qs)),
      l_tail := (if idx \<ge> int (length as) then Some a else l_tail L), l_size := l_size L + 1\<rparr>"
  have loc: "local_change h h' p (set as \<union> set qs) (set as' \<union> set (tl qs))"
    if "\<And>b. b \<notin> set as \<Longrightarrow> b \<noteq> a \<Longrightarrow> items h' b = items h b"
      "lists h' = (lists h)(p \<mapsto> L')" "brk h' = brk h1" "set as' = insert a (set as)"
      "\<And>b. items h' b = None \<longleftrightarrow> items h1 b = None" for h' as' L'
    using that a b heap_ok_list_lt [OF ok L]
    by (cases qs) (auto simp: local_change_def heap_ok_def l1)
  show ?thesis
  proof (cases "k = 0")
    case True
    then have cases: "as = [] \<or> idx = 0" using k idx by (auto simp: min_def split: if_splits)
    let ?h = "h1\<lparr>items := (items h1)(a \<mapsto> \<lparr>i_next = l_head L, i_data = x\<rparr>),
      lists := (lists h)(p \<mapsto> ?L (Some a))\<rparr>"
    have op: "list_insert_at h (Some p) x idx = Some (0, ?h)"
    proof (cases "as = []")
      case True
      then have "l_head L = None" using paths(2) by simp
      then have "walk_pp h idx (SHead p) 0 None = Some (SHead p, 0, None)"
        using L by (subst walk_pp.simps) simp
      then show ?thesis using idx new L l1 i1 R True \<open>l_head L = None\<close>
        by (cases L) (auto simp: list_insert_at_def)
    next
      case False
      then have "idx = 0" using cases by simp
      with walk_pp_rep [OF rep False, of idx 0 0 None] have
        "walk_pp h idx (SHead p) 0 None = Some (SHead p, 0, None)" by simp
      then show ?thesis using idx new L l1 i1 R False \<open>idx = 0\<close>
        by (cases L) (auto simp: list_insert_at_def)
    qed
    have n: "nexts ?h = (nexts h1)(a \<mapsto> l_head L)" by (auto simp: nexts_def)
    have "list_rep ?h p (a # as) (tl qs)"
      using paths a R disj cases idx unfolding list_rep_def n by auto
    moreover have "datas ?h (a # as) = x # datas h as" using a i1 by (auto simp: datas_def)
    moreover have "local_change h ?h p (set as \<union> set qs) (set (a # as) \<union> set (tl qs))"
      by (rule loc) (auto simp: i1)
    ultimately show ?thesis using op True
      by (intro exI [of _ ?h] exI [of _ "a # as"] exI [of _ "tl qs"]) simp
  next
    case False
    then have ne: "as \<noteq> []" and ip: "idx > 0" using k idx by auto
    define j where "j = k - 1"
    have j: "j = min (length as - 1) (nat (idx - 1))" "j < length as" "k = Suc j"
      using False k ip ne by (auto simp: j_def min_def)
    from list_rep_next [OF rep j(2)] obtain c where c: "items h (as ! j) = Some c"
      "i_next c = (if Suc j < length as then Some (as ! Suc j) else None)" by metis
    let ?h = "h1\<lparr>items := (items h1)(a \<mapsto> \<lparr>i_next = i_next c, i_data = x\<rparr>,
        as ! j \<mapsto> c\<lparr>i_next := Some a\<rparr>), lists := (lists h)(p \<mapsto> ?L (l_head L))\<rparr>"
    have ja: "as ! j \<noteq> a" "as ! j \<in> set as" using a j by auto
    have hd: "l_head L = Some (as ! 0)" using list_rep_head [OF rep L] ne by simp
    have rs: "read_slot (h1\<lparr>lists := (lists h)(p \<mapsto> L')\<rparr>) (slot_of p as j) = Some (Some (as ! j))"
      if "l_head L' = l_head L" for L'
    proof (cases j)
      case 0 then show ?thesis using that hd by simp
    next
      case (Suc i)
      with j have i: "i < length as" by simp
      from list_rep_next [OF rep this] obtain d where "items h (as ! i) = Some d"
        "i_next d = Some (as ! Suc i)" using Suc j by metis
      moreover have "as ! i \<noteq> a" using a i by auto
      ultimately show ?thesis using Suc i1 by simp
    qed
    have op: "list_insert_at h (Some p) x idx = Some (int k, ?h)"
    proof -
      have w: "walk_pp h idx (SHead p) 0 None =
          Some (slot_of p as j, int j, if j = 0 then None else Some (as ! (j - 1)))"
        using walk_pp_rep [OF rep ne, of idx j 0 None] ip j by simp
      have rs1: "read_slot h1 (slot_of p as j) = Some (Some (as ! j))"
        using rs [of "L\<lparr>l_pool := pl, l_pool_size := int (length (tl qs))\<rparr>"]
        unfolding l1 [symmetric] by simp
      have Leq: "l_tail L = l_tail (?L (l_head L))" if "\<not> idx \<ge> int (length as)" using that by simp
      have "L\<lparr>l_pool := pl, l_pool_size := int (length (tl qs)), l_size := l_size L + 1\<rparr> = ?L (l_head L)"
        if "\<not> idx \<ge> int (length as)" using that by (cases L) simp
      moreover have "L\<lparr>l_pool := pl, l_pool_size := int (length (tl qs)), l_tail := Some a,
          l_size := l_size L + 1\<rparr> = ?L (l_head L)"
        if "idx \<ge> int (length as)" using that by (cases L) simp
      ultimately show ?thesis
        using ip new L l1 i1 w c(1) ja(1) j(3) rs [of "L\<lparr>l_pool := pl, l_pool_size := int (length (tl qs)), l_tail := Some a\<rparr>"] rs1
        by (simp add: list_insert_at_def R(2) fun_upd_twist del: length_tl)
    qed
    have n: "nexts ?h = (nexts h1)(a \<mapsto> i_next c, as ! j \<mapsto> Some a)" by (auto simp: nexts_def)
    let ?as = "take (Suc j) as @ a # drop (Suc j) as"
    have "lpath (nexts ?h) (l_head L) ?as None"
      using lpath_insert_after [OF paths(2) j(2) a(1) R(4)] c(2) unfolding n by simp
    moreover have "lpath (nexts ?h) pl (tl qs) None"
    proof -
      have "as ! j \<notin> set (tl qs)" using ja(2) disj by blast
      then show ?thesis using paths(1) a(2) unfolding n by simp
    qed
    moreover have st: "set ?as = insert a (set as)"
      by (metis Un_insert_right append_take_drop_id list.simps(15) set_append)
    moreover have "last ?as = (if idx \<ge> int (length as) then a else last as)"
    proof -
      have "drop (Suc j) as = [] \<longleftrightarrow> idx \<ge> int (length as)"
        using j(3) k ip by (auto simp: min_def split: if_splits)
      then show ?thesis by (auto simp: last_drop)
    qed
    moreover have "length ?as = Suc (length as)" using j(2) by simp
    ultimately have "list_rep ?h p ?as (tl qs)"
      using R disj a(2) ne unfolding list_rep_def by auto
    moreover have "datas ?h ?as = take k (datas h as) @ x # drop k (datas h as)"
    proof -
      have same: "Option.bind (items ?h b) i_data = Option.bind (items h b) i_data" if "b \<in> set as" for b
        using that a c i1 by auto
      have "datas ?h bs = datas h bs" if "set bs \<subseteq> set as" for bs
        by (rule datas_cong_bind) (use that same in blast)
      moreover have "set (take (Suc j) as) \<subseteq> set as" "set (drop (Suc j) as) \<subseteq> set as"
        by (simp_all add: set_take_subset set_drop_subset)
      ultimately have "datas ?h (take (Suc j) as) = datas h (take (Suc j) as)"
        "datas ?h (drop (Suc j) as) = datas h (drop (Suc j) as)" by blast+
      moreover have "datas ?h [a] = [x]" using ja by (simp add: datas_def)
      ultimately show ?thesis using j(3)
        by (simp add: datas_Cons datas_take_drop del: lheap.select_convs) 
    qed
    moreover have "local_change h ?h p (set as \<union> set qs) (set ?as \<union> set (tl qs))"
      by (rule loc) (use i1 ja st c in auto)
    ultimately show ?thesis using op
      by (intro exI [of _ ?h] exI [of _ ?as] exI [of _ "tl qs"]) simp
  qed
qed

end
