(* ===== verification/SlistOps2.thy ===== *)
theory SlistOps2
  imports SlistOps
begin

lemma list_insert_at_view:
  assumes "view h V" "V p = Some (xs, n)" "0 \<le> idx" "k = min (length xs) (nat idx)"
  shows "\<exists>h'. list_insert_at h (Some p) x idx = Some (int k, h') \<and>
    view h' (V(p \<mapsto> (take k xs @ x # drop k xs, n - 1)))"
  using assms(1,2)
  by (rule view_local) (use assms(3,4) list_insert_at_local in \<open>metis length_datas\<close>)

section \<open>Random access\<close>

lemma lpath_nexts_Cons: "lpath (nexts h) p (a # as) q \<longleftrightarrow>
    p = Some a \<and> (\<exists>c. items h a = Some c \<and> lpath (nexts h) (i_next c) as q)"
  by (auto simp: nexts_def)

lemma get_at_walk_rep:
  assumes rep: "list_rep h p as qs" and "i \<le> k" "k < length as"
  shows "get_at_walk h (int k) (Some (as ! i)) (int i) = Some (datas h as ! k)"
  using assms(2,3)
proof (induction "k - i" arbitrary: i)
  case 0
  then have "i = k" by simp
  with 0 list_rep_next [OF rep, of k] obtain c where "items h (as ! k) = Some c"
    "datas h as ! k = i_data c" by metis
  with \<open>i = k\<close> show ?case by (subst get_at_walk.simps) simp
next
  case (Suc d)
  then have "Suc i < length as" "i < k" by auto
  with list_rep_next [OF rep, of i] obtain c where "items h (as ! i) = Some c"
    "i_next c = Some (as ! Suc i)" by (metis Suc_lessD)
  moreover have "get_at_walk h (int k) (Some (as ! Suc i)) (int (Suc i)) = Some (datas h as ! k)"
    using Suc by (intro Suc.hyps) auto
  ultimately show ?case using \<open>i < k\<close> by (subst get_at_walk.simps) (simp add: ac_simps)
qed

lemma list_get_at_rep:
  assumes rep: "list_rep h p as qs"
  shows "list_get_at h (Some p) idx =
    Some (if 0 \<le> idx \<and> idx < int (length as) then datas h as ! nat idx else None)"
proof -
  from rep obtain L where L: "lists h p = Some L" "l_size L = int (length as)"
    "l_tail L = (if as = [] then None else Some (last as))" by (auto elim!: list_repD)
  note hd = list_rep_head [OF rep L(1)]
  show ?thesis
  proof (cases "0 \<le> idx \<and> idx < int (length as)")
    case False
    then show ?thesis using L hd by (auto simp: list_get_at_def)
  next
    case True
    then have ne: "as \<noteq> []" and k: "nat idx < length as" by auto
    have l: "last as = as ! (length as - 1)" using ne by (simp add: last_conv_nth)
    from list_rep_next [OF rep, of 0] ne obtain c where c: "items h (as ! 0) = Some c"
      "datas h as ! 0 = i_data c" by (metis length_greater_0_conv)
    from list_rep_next [OF rep, of "length as - 1"] ne obtain d where
      d: "items h (last as) = Some d" "datas h as ! (length as - 1) = i_data d"
      by (metis One_nat_def diff_less length_greater_0_conv lessI l)
    have w: "get_at_walk h idx (Some (as ! 0)) 0 = Some (datas h as ! nat idx)"
      using get_at_walk_rep [OF rep, of 0 "nat idx"] k True by simp
    have "nat idx = length as - 1" if "idx = int (length as) - 1" using that ne by auto
    then show ?thesis using True L hd ne c d w by (auto simp: list_get_at_def)
  qed
qed

lemma list_get_at_view:
  assumes "view h V" "V p = Some (xs, n)"
  shows "list_get_at h (Some p) idx =
    Some (if 0 \<le> idx \<and> idx < int (length xs) then xs ! nat idx else None)"
  using view_list [OF assms] list_get_at_rep by (metis length_datas)

section \<open>Clearing\<close>

lemma last_item_rep: "lpath (nexts h) p as None \<Longrightarrow> as \<noteq> [] \<Longrightarrow> last_item h p = Some (Some (last as))"
proof (induction as arbitrary: p)
  case Nil
  then show ?case by simp
next
  case (Cons a as)
  then obtain c where "p = Some a" "items h a = Some c" "lpath (nexts h) (i_next c) as None"
    by (auto simp: lpath_nexts_Cons simp del: lpath.simps(2))
  with Cons.IH show ?case by (cases "as = []") (auto simp: last_item.simps lpath_empty_iff)
qed

lemma lpath_join:
  assumes "lpath n p as None" "lpath n q bs None" "as \<noteq> []" "set as \<inter> set bs = {}"
  shows "lpath (n(last as \<mapsto> q)) p (as @ bs) None"
proof -
  have "lpath (n(last as \<mapsto> q)) p as q"
    using lpath_snoc_upd [OF assms(1) lpath_distinct [OF assms(1)] assms(3)] .
  moreover have "last as \<notin> set bs" using assms(3,4) last_in_set by blast
  ultimately show ?thesis using assms(2) by auto
qed

lemma list_clear_local:
  assumes rep: "list_rep h p as qs" and ok: "heap_ok h"
  shows "\<exists>h' as' qs'. list_clear h (Some p) = Some h' \<and> list_rep h' p as' qs' \<and>
    as' = [] \<and> length qs' = length qs + length as \<and>
    local_change h h' p (set as \<union> set qs) (set as' \<union> set qs')"
proof -
  from rep obtain L where L: "lists h p = Some L" "lpath (nexts h) (l_head L) as None"
    "lpath (nexts h) (l_pool L) qs None" "set as \<inter> set qs = {}" "l_size L = int (length as)"
    "l_pool_size L = int (length qs)" by (auto elim!: list_repD)
  let ?L = "\<lambda>st. L\<lparr>l_pool := st, l_head := None, l_tail := None, l_iter := SHead p,
      l_pool_size := l_pool_size L + l_size L, l_size := 0, l_iter_idx := -1\<rparr>"
  have fin: ?thesis
    if op: "list_clear h (Some p) = Some h'" and l: "lists h' = (lists h)(p \<mapsto> ?L st)"
      and q: "lpath (nexts h') st qs' None" "set qs' = set as \<union> set qs" "length qs' = length qs + length as"
      and i: "\<And>b. b \<notin> set as \<union> set qs \<Longrightarrow> items h' b = items h b" "brk h' = brk h"
    for h' st qs'
  proof (intro exI conjI)
    show "list_rep h' p [] qs'" using L l q by (auto simp: list_rep_def)
    have "items h' b = None" if "b \<ge> brk h" for b
    proof -
      have "b \<notin> set as \<union> set qs" using list_rep_alloc [OF rep] heap_ok_lt [OF ok] that by fastforce
      then show ?thesis using ok i that by (simp add: heap_ok_def)
    qed
    then show "local_change h h' p (set as \<union> set qs) (set [] \<union> set qs')"
      using i l q ok heap_ok_list_lt [OF ok L(1)] by (auto simp: local_change_def heap_ok_def)
  qed (use op q in auto)
  show ?thesis
  proof (cases "as = []")
    case True
    then have "list_clear h (Some p) = Some h" using L by (simp add: list_clear_def)
    moreover have "local_change h h p (set as \<union> set qs) (set [] \<union> set qs)"
      using ok True by (simp add: local_change_def)
    ultimately show ?thesis using rep True by (intro exI [of _ h] exI [of _ "[]"] exI [of _ qs]) simp
  next
    case ne: False
    show ?thesis
    proof (cases "qs = []")
      case True
      show ?thesis
        by (rule fin [of "h\<lparr>lists := (lists h)(p \<mapsto> ?L (l_head L))\<rparr>" "l_head L" as])
          (use L ne True in \<open>auto simp: list_clear_def\<close>)
    next
      case qne: False
      have join: ?thesis if xy: "lpath (nexts h) dst xs None" "lpath (nexts h) src ys None" "xs \<noteq> []"
        "set xs \<inter> set ys = {}" "set xs \<union> set ys = set as \<union> set qs" "length xs + length ys = length qs + length as"
        "(dst, src) = (if l_size L < l_pool_size L then (l_head L, l_pool L) else (l_pool L, l_head L))"
      for dst src xs ys
      proof -
        obtain c where c: "items h (last xs) = Some c"
          using lpath_nexts_alloc [OF xy(1)] xy(3) last_in_set by blast
        let ?h = "h\<lparr>items := (items h)(last xs \<mapsto> c\<lparr>i_next := src\<rparr>), lists := (lists h)(p \<mapsto> ?L dst)\<rparr>"
        have li: "last_item h dst = Some (Some (last xs))" using last_item_rep [OF xy(1,3)] .
        have n: "nexts ?h = (nexts h)(last xs \<mapsto> src)" by (auto simp: nexts_def)
        have pz: "l_pool_size L \<noteq> 0" "l_size L \<noteq> 0" using L qne ne by auto
        show ?thesis
        proof (rule fin [of ?h dst "xs @ ys"])
          show "list_clear h (Some p) = Some ?h"
            using L(1) pz li c by (simp add: list_clear_def flip: xy(7))
          show "lpath (nexts ?h) dst (xs @ ys) None" unfolding n by (rule lpath_join) (use xy in auto)
          show "items ?h b = items h b" if "b \<notin> set as \<union> set qs" for b
          proof -
            have "last xs \<in> set as \<union> set qs" using xy(3,5) last_in_set by blast
            then show ?thesis using that by auto
          qed
        qed (use xy in auto)
      qed
      show ?thesis
      proof (cases "l_size L < l_pool_size L")
        case True
        then show ?thesis using join [of "l_head L" as "l_pool L" qs] L ne by auto
      next
        case False
        then show ?thesis using join [of "l_pool L" qs "l_head L" as] L qne by auto
      qed
    qed
  qed
qed

lemma list_clear_view:
  assumes "view h V" "V p = Some (xs, n)"
  shows "\<exists>h'. list_clear h (Some p) = Some h' \<and> view h' (V(p \<mapsto> ([], n + length xs)))"
proof -
  have "\<exists>h'. map_option (\<lambda>h'. ((), h')) (list_clear h (Some p)) = Some ((), h') \<and>
      view h' (V(p \<mapsto> ([], n + length xs)))"
    using assms
  proof (rule view_local)
    fix as qs assume a: "list_rep h p as qs" "heap_ok h" "datas h as = xs" "length qs = n"
    with list_clear_local [OF a(1,2)] obtain h' as' qs' where
      "list_clear h (Some p) = Some h'" "list_rep h' p as' qs'" "as' = []"
      "length qs' = length qs + length as" "local_change h h' p (set as \<union> set qs) (set as' \<union> set qs')"
      by blast
    with a show "\<exists>h' as' qs'. map_option (\<lambda>h'. ((), h')) (list_clear h (Some p)) = Some ((), h') \<and>
        list_rep h' p as' qs' \<and> datas h' as' = [] \<and> length qs' = n + length xs \<and>
        local_change h h' p (set as \<union> set qs) (set as' \<union> set qs')"
      by (intro exI [of _ h'] exI [of _ as'] exI [of _ qs']) auto
  qed
  then show ?thesis by auto
qed

end
