(* ===== verification/SlistIter.thy ===== *)
theory SlistIter
  imports SlistOps2
begin

text \<open>
  Iteration with the list's own cursor (\<open>list_set_iterator\<close>, \<open>list_get_next\<close>,
  \<open>list_for_each\<close>) and plain iteration.
\<close>

section \<open>New lists\<close>

lemma empty_view: "view empty_lheap (\<lambda>_. None)"
  by (auto simp: view_def store_rep_def heap_ok_def empty_lheap_def intro!: exI [of _ "\<lambda>_. None"])

lemma new_list_view:
  assumes "view h V"
  shows "\<exists>p h'. new_list h = (p, h') \<and> view h' (V(p \<mapsto> ([], 0))) \<and> V p = None"
proof -
  from assms obtain R where S: "store_rep h R"
    and VR: "V = (\<lambda>p. map_option (\<lambda>(as, qs). (datas h as, length qs)) (R p))" by (auto simp: view_def)
  have ok: "heap_ok h" and dm: "dom R = dom (lists h)" using S by (auto simp: store_rep_def)
  obtain p h' where n: "new_list h = (p, h')" by fastforce
  let ?L = "zero_list\<lparr>l_iter_idx := -1, l_iter := SHead p\<rparr>"
  have p: "p = brk h" and h': "h' = h\<lparr>lists := (lists h)(p \<mapsto> ?L), brk := Suc p\<rparr>"
    using n by (auto simp: new_list_def malloc_list_def Let_def)
  have np: "R p = None" "lists h p = None" using ok dm p by (auto simp: heap_ok_def domIff)
  have it: "items h' = items h" by (simp add: h')
  have nx: "nexts h' = nexts h" by (rule nexts_eq_items [OF it])
  have dt: "datas h' as = datas h as" for as by (simp add: datas_def it)
  let ?R = "R(p \<mapsto> ([], []))"
  have reps: "list_rep h' q as qs" if "?R q = Some (as, qs)" for q as qs
  proof (cases "q = p")
    case True
    then show ?thesis using that by (auto simp: list_rep_def h' zero_list_def)
  next
    case False
    then have "list_rep h q as qs" using that S by (simp add: store_rep_def)
    then show ?thesis using False unfolding list_rep_def nx by (simp add: h')
  qed
  have dj: "(set as \<union> set qs) \<inter> (set bs \<union> set rs) = {}"
    if "q \<noteq> q'" "?R q = Some (as, qs)" "?R q' = Some (bs, rs)" for q q' as qs bs rs
  proof (cases "q = p \<or> q' = p")
    case False
    then have "R q = Some (as, qs)" "R q' = Some (bs, rs)" using that by auto
    then show ?thesis using S that(1) unfolding store_rep_def by blast
  qed (use that in auto)
  have "heap_ok h'" using ok by (auto simp: heap_ok_def h' p)
  moreover have "dom ?R = dom (lists h')" using dm by (simp add: h')
  ultimately have "store_rep h' ?R" using reps dj unfolding store_rep_def by blast
  moreover have "V(p \<mapsto> ([], 0)) = (\<lambda>q. map_option (\<lambda>(as, qs). (datas h' as, length qs)) (?R q))"
    using VR dt by (auto simp: fun_eq_iff)
  ultimately have "view h' (V(p \<mapsto> ([], 0)))" unfolding view_def by blast
  moreover have "V p = None" using VR np by simp
  ultimately show ?thesis using n by blast
qed

section \<open>Cursors\<close>

lemma cursor_view:
  assumes V: "view h V" and L: "lists h p = Some L"
  shows "view (h\<lparr>lists := (lists h)(p \<mapsto> L\<lparr>l_iter := it, l_iter_idx := i\<rparr>)\<rparr>) V"
proof -
  let ?h = "h\<lparr>lists := (lists h)(p \<mapsto> L\<lparr>l_iter := it, l_iter_idx := i\<rparr>)\<rparr>"
  from V obtain R where S: "store_rep h R"
    and VR: "V = (\<lambda>p. map_option (\<lambda>(as, qs). (datas h as, length qs)) (R p))"
    by (auto simp: view_def)
  have ok: "heap_ok h" using S by (simp add: store_rep_def)
  have "list_rep ?h q as qs" if "R q = Some (as, qs)" for q as qs
  proof -
    have "list_rep h q as qs" using S that by (auto simp: store_rep_def)
    then show ?thesis using L by (auto simp: list_rep_def)
  qed
  moreover have "dom (lists ?h) = dom (lists h)" using L by auto
  moreover have "heap_ok ?h" using ok heap_ok_list_lt [OF ok L] by (auto simp: heap_ok_def)
  moreover have "\<forall>p q as qs bs rs. p \<noteq> q \<longrightarrow> R p = Some (as, qs) \<longrightarrow> R q = Some (bs, rs) \<longrightarrow>
      (set as \<union> set qs) \<inter> (set bs \<union> set rs) = {}"
    using S unfolding store_rep_def by blast
  moreover have "dom R = dom (lists h)" using S unfolding store_rep_def by blast
  ultimately have "store_rep ?h R" unfolding store_rep_def by simp
  moreover have "datas ?h as = datas h as" for as by (simp add: datas_def)
  ultimately show ?thesis using VR unfolding view_def by (intro exI [of _ R]) simp
qed

text \<open>The cursor stands exactly before element \<open>i\<close>; \<open>cursor_at\<close> allows a stale \<open>iter\<close> at 0,
  where \<open>list_get_next\<close> reads the head instead.\<close>

definition cursor_exact :: "'a lheap \<Rightarrow> addr \<Rightarrow> nat \<Rightarrow> bool" where
  "cursor_exact h p i \<longleftrightarrow> (\<exists>L as qs. list_rep h p as qs \<and> lists h p = Some L \<and>
     l_iter_idx L = int i \<and> l_iter L = slot_of p as i)"

definition cursor_at :: "'a lheap \<Rightarrow> addr \<Rightarrow> nat \<Rightarrow> bool" where
  "cursor_at h p i \<longleftrightarrow> (\<exists>L as qs. list_rep h p as qs \<and> lists h p = Some L \<and>
     l_iter_idx L = int i \<and> (i = 0 \<or> l_iter L = slot_of p as i))"

definition cursor_idx :: "'a lheap \<Rightarrow> addr \<Rightarrow> int" where
  "cursor_idx h p = (case lists h p of Some L \<Rightarrow> l_iter_idx L | None \<Rightarrow> -1)"

lemma cursor_exact_at: "cursor_exact h p i \<Longrightarrow> cursor_at h p i"
  by (auto simp: cursor_exact_def cursor_at_def)

lemma cursor_at_idx: "cursor_at h p i \<Longrightarrow> cursor_idx h p = int i"
  by (auto simp: cursor_at_def cursor_idx_def)

lemma list_rep_det: "list_rep h p as qs \<Longrightarrow> list_rep h p bs rs \<Longrightarrow> as = bs \<and> qs = rs"
  by (auto simp: list_rep_def dest: lpath_det)

lemma list_rep_cursor: "list_rep h p as qs \<Longrightarrow> lists h p = Some L \<Longrightarrow>
    list_rep (h\<lparr>lists := (lists h)(p \<mapsto> L\<lparr>l_iter := it, l_iter_idx := i\<rparr>)\<rparr>) p as qs"
  by (auto simp: list_rep_def)

lemma list_get_next_rep:
  assumes V: "view h V" and p: "V p = Some (xs, n)" and cur: "cursor_at h p i" and i: "i < length xs"
  shows "\<exists>h'. list_get_next h (Some p) = Some (xs ! i, h') \<and> view h' V \<and> cursor_at h' p (Suc i)"
proof -
  from cur obtain L as qs where rep: "list_rep h p as qs" and L: "lists h p = Some L"
    "l_iter_idx L = int i" "i = 0 \<or> l_iter L = slot_of p as i" by (auto simp: cursor_at_def)
  from view_list [OF V p] rep have xs: "datas h as = xs" using list_rep_det by blast
  then have il: "i < length as" using i by auto
  from list_rep_next [OF rep il] obtain c where c: "items h (as ! i) = Some c" "xs ! i = i_data c"
    using xs by metis
  have sz: "l_size L = int (length as)" using rep L by (auto simp: list_rep_def)
  have hd: "l_head L = Some (as ! 0)" using list_rep_head [OF rep L(1)] il by auto
  have sl: "read_slot h (l_iter L) = Some (Some (as ! i))" if "i \<noteq> 0"
    using L(3) that read_slot_of [OF rep, of i] il by auto
  let ?h = "h\<lparr>lists := (lists h)(p \<mapsto> L\<lparr>l_iter := SNext (as ! i), l_iter_idx := l_iter_idx L + 1\<rparr>)\<rparr>"
  have "list_get_next h (Some p) = Some (xs ! i, ?h)"
    using L(1,2) sz hd il c sl by (auto simp: list_get_next_def)
  moreover have "view ?h V" by (rule cursor_view [OF V L(1)])
  moreover have "cursor_at ?h p (Suc i)"
    unfolding cursor_at_def
    by (rule exI, rule exI, rule exI, rule conjI, rule list_rep_cursor [OF rep L(1)])
      (use L(2) in auto)
  ultimately show ?thesis by blast
qed

lemma list_get_next_end:
  assumes V: "view h V" and p: "V p = Some (xs, n)" and cur: "cursor_at h p (length xs)"
  shows "list_get_next h (Some p) = Some (None, h)"
proof -
  from cur obtain L as qs where rep: "list_rep h p as qs" and L: "lists h p = Some L"
    "l_iter_idx L = int (length xs)" by (auto simp: cursor_at_def)
  moreover have "datas h as = xs" using view_list [OF V p] rep list_rep_det by blast
  moreover have "l_size L = int (length as)" using rep L by (auto simp: list_rep_def)
  moreover have "length xs = length as" using \<open>datas h as = xs\<close> by auto
  ultimately show ?thesis by (simp add: list_get_next_def)
qed

text \<open>A cursor stays where it is when the list grows at its end.\<close>

lemma slot_of_take: "take (length as) as' = as \<Longrightarrow> i \<le> length as \<Longrightarrow> slot_of p as' i = slot_of p as i"
  by (cases i) (auto, metis Suc_le_eq nth_take)

lemma list_append_cursor:
  assumes V: "view h V" "V p = Some (xs, n)" and cur: "cursor_at h p i" "i \<le> length xs" "xs \<noteq> []"
  shows "\<exists>h'. list_append h (Some p) x = Some (int (length xs), h') \<and> view h' (V(p \<mapsto> (xs @ [x], n - 1))) \<and> cursor_at h' p i"
proof -
  from cur obtain L as qs where rep: "list_rep h p as qs" and L: "lists h p = Some L"
    "l_iter_idx L = int i" "i = 0 \<or> l_iter L = slot_of p as i" by (auto simp: cursor_at_def)
  from view_list [OF V] rep have xs: "datas h as = xs" using list_rep_det by blast
  then have as: "i \<le> length as" "as \<noteq> []" using cur by auto
  from list_append_keeps [OF rep view_heap_ok [OF V(1)], of x] obtain h' as' qs' where
    h': "list_append h (Some p) x = Some (int (length as), h')" "list_rep h' p as' qs'" "append_keeps h h' p as as'" by blast
  have "cursor_at h' p i"
    using h'(2, 3) L as slot_of_take [of as as' i p] unfolding append_keeps_def cursor_at_def by metis
  moreover have "view h' (V(p \<mapsto> (xs @ [x], n - 1)))" "int (length as) = int (length xs)"
    using list_append_view [OF V, of x] h'(1) by auto
  ultimately show ?thesis using h'(1) by simp
qed

lemma set_iter_walk_rep:
  assumes rep: "list_rep h p as qs" and "i \<le> k" "k \<le> length as"
  shows "set_iter_walk h (int k) (slot_of p as i) (int i) = Some (slot_of p as k)"
  using assms(2,3)
proof (induction "k - i" arbitrary: i)
  case 0
  then show ?case by (subst set_iter_walk.simps) simp
next
  case (Suc d)
  then have i: "i < length as" "i < k" by auto
  from list_rep_next [OF rep i(1)] obtain c where "items h (as ! i) = Some c" by metis
  moreover have "set_iter_walk h (int k) (slot_of p as (Suc i)) (int (Suc i)) = Some (slot_of p as k)"
    using Suc by (intro Suc.hyps) auto
  ultimately show ?case using i by (subst set_iter_walk.simps) (simp add: read_slot_of [OF rep] ac_simps)
qed

lemma list_set_iterator_rep:
  assumes V: "view h V" and p: "V p = Some (xs, n)" and k: "k < length xs"
    and cur: "cursor_idx h p < 0 \<or> cursor_idx h p > int k \<or> (\<exists>i. cursor_exact h p i)"
  shows "\<exists>h'. list_set_iterator h (Some p) (int k) = Some (1, h') \<and> view h' V \<and> cursor_exact h' p k"
proof -
  from view_list [OF V p] obtain as qs where rep: "list_rep h p as qs" and xs: "datas h as = xs" by blast
  from rep obtain L where L: "lists h p = Some L" "l_size L = int (length as)"
    by (auto simp: list_rep_def)
  have kl: "k < length as" using k xs by auto
  have hd: "l_head L = Some (as ! 0)" using list_rep_head [OF rep L(1)] kl by auto
  have ex: "l_iter L = slot_of p as i" if "cursor_exact h p i" "l_iter_idx L = int i" for i
    using that rep L list_rep_det by (fastforce simp: cursor_exact_def)
  have ex': "l_iter_idx L = int i" if "cursor_exact h p i" for i
    using that L by (auto simp: cursor_exact_def)
  show ?thesis
  proof (cases "l_iter_idx L = int k")
    case True
    moreover from this cur have "\<exists>i. cursor_exact h p i" using L by (auto simp: cursor_idx_def)
    ultimately have "cursor_exact h p k" using ex' by (metis of_nat_eq_iff)
    moreover have "list_set_iterator h (Some p) (int k) = Some (1, h)"
      using L hd kl True by (simp add: list_set_iterator_def)
    ultimately show ?thesis using V by blast
  next
    case ne: False
    let ?R = "l_iter_idx L > int k \<or> l_iter_idx L < 0"
    have cexact: "\<exists>i. l_iter_idx L = int i \<and> l_iter L = slot_of p as i \<and> i \<le> k" if "\<not> ?R"
    proof -
      from cur that L obtain i where "cursor_exact h p i" by (auto simp: cursor_idx_def)
      with ex ex' that show ?thesis by (intro exI [of _ i]) auto
    qed
    let ?g = "h\<lparr>lists := (lists h)(p \<mapsto> L\<lparr>l_iter := SHead p, l_iter_idx := 0\<rparr>)\<rparr>"
    let ?h = "h\<lparr>lists := (lists h)(p \<mapsto> L\<lparr>l_iter := slot_of p as k, l_iter_idx := int k\<rparr>)\<rparr>"
    have "list_set_iterator h (Some p) (int k) = Some (1, ?h)"
    proof (cases ?R)
      case True
      have "set_iter_walk ?g (int k) (SHead p) 0 = Some (slot_of p as k)"
        using set_iter_walk_rep [OF list_rep_cursor [OF rep L(1), where it = "SHead p" and i = 0], of 0 k] kl by simp
      with True L hd kl ne show ?thesis by (simp add: list_set_iterator_def)
    next
      case False
      then obtain i where i: "l_iter_idx L = int i" "l_iter L = slot_of p as i" "i \<le> k" using cexact by blast
      then have "set_iter_walk h (int k) (l_iter L) (int i) = Some (slot_of p as k)"
        using set_iter_walk_rep [OF rep i(3)] kl by simp
      with False L hd kl ne i show ?thesis by (simp add: list_set_iterator_def)
    qed
    moreover have "view ?h V" by (rule cursor_view [OF V L(1)])
    moreover have "cursor_exact ?h p k"
      unfolding cursor_exact_def
      by (rule exI, rule exI, rule exI, rule conjI, rule list_rep_cursor [OF rep L(1)]) auto
    ultimately show ?thesis by blast
  qed
qed

lemma list_set_iterator_0:
  assumes V: "view h V" and p: "V p = Some (xs, n)" and ne: "xs \<noteq> []"
  shows "\<exists>h'. list_set_iterator h (Some p) 0 = Some (1, h') \<and> view h' V \<and> cursor_at h' p 0"
proof (cases "cursor_idx h p = 0")
  case False
  then have "cursor_idx h p < 0 \<or> cursor_idx h p > int 0" by auto
  then show ?thesis using list_set_iterator_rep [OF V p, of 0] ne cursor_exact_at by fastforce
next
  case True
  from view_list [OF V p] obtain as qs where rep: "list_rep h p as qs" and xs: "datas h as = xs" by blast
  from rep obtain L where L: "lists h p = Some L" "l_size L = int (length as)" by (auto simp: list_rep_def)
  have "as \<noteq> []" using ne xs by auto
  then have "list_set_iterator h (Some p) 0 = Some (1, h)" "cursor_at h p 0"
    using True L rep list_rep_head [OF rep L(1)]
    by (auto simp: list_set_iterator_def cursor_idx_def cursor_at_def)
  then show ?thesis using V by blast
qed

section \<open>Loops over a list\<close>

lemma cursor_at_list: "cursor_at h p i \<Longrightarrow> \<exists>L. lists h p = Some L \<and> l_iter_idx L = int i"
  by (auto simp: cursor_at_def)

lemma for_each_loop_rep:
  assumes "view h V" "V p = Some (map Some ys, n)" "cursor_at h p i" "i \<le> length ys" "i \<le> finish"
    "fold_opt body (take (finish - i) (drop i ys)) s = Some s'"
  shows "\<exists>h'. for_each_loop body h (Some p) (int finish) s = Some (s', h') \<and> view h' V"
  using assms
proof (induction "finish - i" arbitrary: i s h)
  case 0
  then have fin: "i = finish" "s' = s" by auto
  show ?case
  proof (cases "i = length ys")
    case True
    with 0 list_get_next_end have "list_get_next h (Some p) = Some (None, h)" by fastforce
    then show ?thesis using 0 fin by (subst for_each_loop.simps) simp
  next
    case False
    with 0 have "i < length (map Some ys)" by simp
    from list_get_next_rep [OF 0(2,3,4) this] obtain h' where
      h': "list_get_next h (Some p) = Some (Some (ys ! i), h')" "view h' V" "cursor_at h' p (Suc i)"
      using False 0 by auto
    from cursor_at_list [OF h'(3)] obtain L where "lists h' p = Some L" "l_iter_idx L = int (Suc i)" by blast
    then show ?thesis using h' fin by (subst for_each_loop.simps) simp
  qed
next
  case (Suc d)
  show ?case
  proof (cases "i = length ys")
    case True
    with Suc list_get_next_end have "list_get_next h (Some p) = Some (None, h)" by fastforce
    then show ?thesis using Suc True by (subst for_each_loop.simps) simp
  next
    case False
    then have il: "i < length ys" using Suc by simp
    then have "i < length (map Some ys)" by simp
    from list_get_next_rep [OF Suc(3,4,5) this] obtain h' where
      h': "list_get_next h (Some p) = Some (Some (ys ! i), h')" "view h' V" "cursor_at h' p (Suc i)"
      using il by auto
    from cursor_at_list [OF h'(3)] obtain L where L: "lists h' p = Some L" "l_iter_idx L = int (Suc i)" by blast
    have "take (finish - i) (drop i ys) = ys ! i # take (finish - Suc i) (drop (Suc i) ys)"
      using Suc(2) il by (intro take_Suc_drop) auto
    with Suc(8) obtain s1 where s1: "body (ys ! i) s = Some s1"
      "fold_opt body (take (finish - Suc i) (drop (Suc i) ys)) s1 = Some s'"
      by (auto simp: bind_eq_Some_conv)
    have "\<exists>h''. for_each_loop body h' (Some p) (int finish) s1 = Some (s', h'') \<and> view h'' V"
      using Suc h' s1 il by (intro Suc.hyps(1) [of "Suc i"]) auto
    then show ?thesis using h'(1) L s1(1) Suc(2) by (subst for_each_loop.simps) auto
  qed
qed

lemma list_for_each_view:
  assumes V: "view h V" and p: "V p = Some (map Some ys, n)" and k: "k < length ys" "k \<le> finish"
    and cur: "k = 0 \<or> cursor_idx h p < 0 \<or> cursor_idx h p > int k \<or> (\<exists>i. cursor_exact h p i)"
    and f: "fold_opt body (take (finish - k) (drop k ys)) s = Some s'"
  shows "\<exists>h'. list_for_each body h (Some p) (int k) (int finish) s = Some (s', h') \<and> view h' V"
proof -
  have "\<exists>h'. list_set_iterator h (Some p) (int k) = Some (1, h') \<and> view h' V \<and> cursor_at h' p k"
  proof (cases "k = 0")
    case True
    then show ?thesis using list_set_iterator_0 [OF V p] k by auto
  next
    case False
    then show ?thesis using list_set_iterator_rep [OF V p, of k] k cur cursor_exact_at by fastforce
  qed
  then obtain h1 where h1: "list_set_iterator h (Some p) (int k) = Some (1, h1)" "view h1 V" "cursor_at h1 p k"
    by blast
  from for_each_loop_rep [OF h1(2) p h1(3) _ k(2) f] k(1) h1(1) show ?thesis
    by (simp add: list_for_each_def)
qed

lemma iterate_walk_rep:
  assumes rep: "list_rep h p as qs" and "i \<le> length as"
  shows "iterate_walk action h (int (length as)) (int i) (if i < length as then Some (as ! i) else None) s =
    fold_opt action (drop i (datas h as)) s"
  using assms(2)
proof (induction "length as - i" arbitrary: i s)
  case 0
  then show ?case by (subst iterate_walk.simps) simp
next
  case (Suc d)
  then have i: "i < length as" by simp
  from list_rep_next [OF rep i] obtain c where c: "items h (as ! i) = Some c"
    "i_next c = (if Suc i < length as then Some (as ! Suc i) else None)"
    "datas h as ! i = i_data c" by metis
  have dr: "drop i (datas h as) = i_data c # drop (Suc i) (datas h as)"
    using c(3) i by (metis Cons_nth_drop_Suc length_datas)
  have "iterate_walk action h (int (length as)) (int (Suc i)) (i_next c) s1 =
      fold_opt action (drop (Suc i) (datas h as)) s1" for s1
    unfolding c(2) using Suc by (intro Suc.hyps) auto
  then have "iterate_walk action h (int (length as)) (int i + 1) (i_next c) =
      fold_opt action (drop (Suc i) (datas h as))" by (simp add: fun_eq_iff ac_simps)
  with dr show ?case using i c(1) by (subst iterate_walk.simps) simp
qed

lemma list_iterate_view:
  assumes V: "view h V" and p: "V p = Some (xs, n)"
  shows "list_iterate action h (Some p) s = fold_opt action xs s"
proof -
  from view_list [OF V p] obtain as qs where rep: "list_rep h p as qs" and xs: "datas h as = xs" by blast
  from rep obtain L where L: "lists h p = Some L" "l_size L = int (length as)" by (auto simp: list_rep_def)
  show ?thesis
    using iterate_walk_rep [OF rep, of 0 action s] list_rep_head [OF rep L(1)] L xs
    by (cases as) (auto simp: list_iterate_def)
qed

end
