(* ===== verification/SlistMove.thy ===== *)
theory SlistMove
  imports SlistIter
begin

text \<open>
  Operations that move whole chains: \<open>list_transfer\<close>, \<open>list_chop\<close>, \<open>list_reverse\<close>, and the
  removal at an index.
\<close>

section \<open>Transfer\<close>

lemma viewE:
  assumes "view h V"
  obtains R where "store_rep h R" "V = (\<lambda>p. map_option (\<lambda>(as, qs). (datas h as, length qs)) (R p))"
    "heap_ok h" "\<And>p as qs. R p = Some (as, qs) \<Longrightarrow> list_rep h p as qs"
    "\<And>p q as qs bs rs. p \<noteq> q \<Longrightarrow> R p = Some (as, qs) \<Longrightarrow> R q = Some (bs, rs) \<Longrightarrow>
        (set as \<union> set qs) \<inter> (set bs \<union> set rs) = {}"
proof -
  from assms obtain R where S: "store_rep h R"
    "V = (\<lambda>p. map_option (\<lambda>(as, qs). (datas h as, length qs)) (R p))" by (auto simp: view_def)
  moreover from S(1) have "heap_ok h" "\<And>p as qs. R p = Some (as, qs) \<Longrightarrow> list_rep h p as qs"
    "\<And>p q as qs bs rs. p \<noteq> q \<Longrightarrow> R p = Some (as, qs) \<Longrightarrow> R q = Some (bs, rs) \<Longrightarrow>
        (set as \<union> set qs) \<inter> (set bs \<union> set rs) = {}"
    unfolding store_rep_def by blast+
  ultimately show ?thesis by (rule that)
qed

lemma view_two:
  assumes V: "V = (\<lambda>p. map_option (\<lambda>(as, qs). (datas h as, length qs)) (R p))"
    and S': "store_rep h' (R(p \<mapsto> (as, qs), q \<mapsto> (bs, rs)))" and pq: "p \<noteq> q"
    and D: "\<And>r cs ts. r \<notin> {p, q} \<Longrightarrow> R r = Some (cs, ts) \<Longrightarrow> datas h' cs = datas h cs"
    and "datas h' as = xs" "datas h' bs = ys" "length qs = n" "length rs = m"
  shows "view h' (V(p \<mapsto> (xs, n), q \<mapsto> (ys, m)))"
  unfolding view_def
proof (intro exI conjI)
  show "store_rep h' (R(p \<mapsto> (as, qs), q \<mapsto> (bs, rs)))" by fact
  show "V(p \<mapsto> (xs, n), q \<mapsto> (ys, m)) =
      (\<lambda>r. map_option (\<lambda>(as, qs). (datas h' as, length qs)) ((R(p \<mapsto> (as, qs), q \<mapsto> (bs, rs))) r))"
    using assms by (auto simp: fun_eq_iff map_option_case split: option.splits prod.splits)
qed

lemma list_transfer_view:
  assumes V: "view h V" and ne: "dst \<noteq> src" and d: "V dst = Some (xs, n)" and s: "V src = Some (ys, m)"
    and ys: "ys \<noteq> []" and it: "lists h src = Some S" "l_iter S = SHead src"
  shows "\<exists>h'. list_transfer h (Some dst) (Some src) = Some (Some dst, h') \<and>
    view h' (V(dst \<mapsto> (xs @ ys, n), src \<mapsto> ([], m)))"
proof -
  from V obtain R where SR: "store_rep h R"
    and VR: "V = (\<lambda>p. map_option (\<lambda>(as, qs). (datas h as, length qs)) (R p))"
    and ok: "heap_ok h" and reps: "\<And>p as qs. R p = Some (as, qs) \<Longrightarrow> list_rep h p as qs"
    and dis: "\<And>p q as qs bs rs. p \<noteq> q \<Longrightarrow> R p = Some (as, qs) \<Longrightarrow> R q = Some (bs, rs) \<Longrightarrow>
        (set as \<union> set qs) \<inter> (set bs \<union> set rs) = {}" by (rule viewE) blast
  from d VR obtain as qs where Rd: "R dst = Some (as, qs)" "datas h as = xs" "length qs = n"
    by (auto split: prod.splits)
  from s VR obtain bs rs where Rs: "R src = Some (bs, rs)" "datas h bs = ys" "length rs = m"
    by (auto split: prod.splits)
  note rd = reps [OF Rd(1)] and rs = reps [OF Rs(1)]
  from rd obtain D where D: "lists h dst = Some D" "lpath (nexts h) (l_head D) as None"
    "lpath (nexts h) (l_pool D) qs None" "set as \<inter> set qs = {}" "distinct as" "l_size D = int (length as)"
    "l_pool_size D = int (length qs)" "l_tail D = (if as = [] then None else Some (last as))"
    by (auto elim!: list_repD)
  from rs it have S: "lpath (nexts h) (l_head S) bs None" "lpath (nexts h) (l_pool S) rs None"
    "set bs \<inter> set rs = {}" "l_size S = int (length bs)" "l_pool_size S = int (length rs)"
    "l_tail S = (if bs = [] then None else Some (last bs))"
    by (auto simp: list_rep_def)
  have bne: "bs \<noteq> []" using ys Rs by auto
  have dj: "(set as \<union> set qs) \<inter> (set bs \<union> set rs) = {}" using dis [OF ne Rd(1) Rs(1)] .
  have hs: "l_head S = Some (hd bs)" using lpath_head [OF S(1) bne] .
  have lt: "dst < brk h" "src < brk h" using heap_ok_list_lt [OF ok] D(1) it(1) by auto
  let ?D = "if as = [] then D\<lparr>l_head := l_head S, l_tail := l_tail S, l_size := l_size D + l_size S\<rparr>
    else D\<lparr>l_tail := l_tail S, l_size := l_size D + l_size S\<rparr>"
  let ?S = "S\<lparr>l_tail := None, l_head := None, l_iter_idx := -1, l_size := 0\<rparr>"
  let ?I = "if as = [] then items h else (items h)(last as \<mapsto> (the (items h (last as)))\<lparr>i_next := l_head S\<rparr>)"
  let ?h = "h\<lparr>items := ?I, lists := (lists h)(dst \<mapsto> ?D, src \<mapsto> ?S)\<rparr>"
  have op: "list_transfer h (Some dst) (Some src) = Some (Some dst, ?h)"
  proof (cases "as = []")
    case True
    then show ?thesis using D(1,2) it hs ne
      by (auto simp: list_transfer_def fun_upd_twist)
  next
    case False
    then obtain c where "items h (last as) = Some c" using list_rep_alloc [OF rd] last_in_set by blast
    moreover have "l_head D \<noteq> None" using lpath_head [OF D(2) False] by simp
    ultimately show ?thesis using False D(1,8) it hs ne
      by (auto simp: list_transfer_def fun_upd_twist)
  qed
  have n: "nexts ?h = (if as = [] then nexts h else (nexts h)(last as \<mapsto> l_head S))"
    by (auto simp: nexts_def fun_eq_iff)
  have la: "last as \<in> set as" if "as \<noteq> []" using that by simp
  have unch: "lpath (nexts ?h) x cs None" if "lpath (nexts h) x cs None" "set cs \<inter> set as = {}" for x cs
  proof (cases "as = []")
    case False
    then have "last as \<notin> set cs" using la that(2) by blast
    then show ?thesis using that(1) by (simp add: n)
  qed (use that in \<open>simp add: n\<close>)
  have "lpath (nexts ?h) (l_head ?D) (as @ bs) None"
  proof (cases "as = []")
    case False
    have "set as \<inter> set bs = {}" using dj by blast
    from lpath_join [OF D(2) S(1) False this] False show ?thesis unfolding n by simp
  qed (use S(1) in \<open>simp add: n\<close>)
  moreover have "lpath (nexts ?h) (l_pool ?D) qs None"
    using unch [OF D(3)] D(4) by (cases "as = []") (simp_all add: Int_commute)
  moreover have "set (as @ bs) \<inter> set qs = {}" using D(4) dj by auto
  moreover have "l_tail ?D = Some (last (as @ bs))" using S(6) bne by simp
  ultimately have rD: "list_rep ?h dst (as @ bs) qs"
    using D(6,7) S(4) bne ne unfolding list_rep_def by simp
  have "lpath (nexts ?h) (l_pool S) rs None" using unch [OF S(2)] dj by blast
  then have rS: "list_rep ?h src [] rs" using S(5) unfolding list_rep_def by simp
  have dat: "datas ?h cs = datas h cs" for cs
  proof (rule datas_cong_bind)
    fix a assume "a \<in> set cs"
    show "Option.bind (items ?h a) i_data = Option.bind (items h a) i_data"
      using list_rep_alloc [OF rd, of "last as"] la by (cases "as = []") auto
  qed
  let ?R = "R(dst \<mapsto> (as @ bs, qs), src \<mapsto> ([], rs))"
  have nod: "nodes_of R {dst, src} = set as \<union> set qs \<union> set bs \<union> set rs"
    "nodes_of ?R {dst, src} = set as \<union> set bs \<union> set qs \<union> set rs"
    using Rd(1) Rs(1) ne by (auto simp: nodes_of_def)
  have ok': "heap_ok ?h"
    using ok lt heap_ok_lt [OF ok] list_rep_alloc [OF rd, of "last as"] la
    by (cases "as = []") (auto simp: heap_ok_def)
  have "store_rep ?h ?R"
  proof (rule store_rep_frame(1) [OF SR ok', of "{dst, src}" ?R, unfolded nod])
    show "list_rep ?h q cs ts" if "q \<in> {dst, src}" "?R q = Some (cs, ts)" for q cs ts
      using that rD rS ne by (auto split: if_splits)
    show "(set cs \<union> set ts) \<inter> (set es \<union> set us) = {}"
      if "p \<in> {dst, src}" "q \<in> {dst, src}" "p \<noteq> q" "?R p = Some (cs, ts)" "?R q = Some (es, us)"
      for p q cs ts es us
      using that ne dj S(3) by (auto split: if_splits)
    show "items ?h a = items h a" if "a \<notin> set as \<union> set qs \<union> set bs \<union> set rs" for a
      using that la by auto
  qed (use ne in auto)
  then have "view ?h (V(dst \<mapsto> (xs @ ys, n), src \<mapsto> ([], m)))"
    using Rd Rs by (intro view_two [OF VR _ ne]) (auto simp: dat)
  with op show ?thesis by blast
qed

text \<open>With the cursor of the source at its element \<open>k\<close> the store to \<open>*(src->iter)\<close> cuts the chain there.\<close>

definition cursor_slot :: "'a lheap \<Rightarrow> addr \<Rightarrow> nat \<Rightarrow> bool" where
  "cursor_slot h p k \<longleftrightarrow> (\<exists>L as qs. list_rep h p as qs \<and> lists h p = Some L \<and> k \<le> length as \<and> l_iter L = slot_of p as k)"

lemma list_transfer_cut:
  assumes V: "view h V" and ne: "dst \<noteq> src" and d: "V dst = Some (xs, n)" and s: "V src = Some (ys, m)"
    and k: "0 < k" and cur: "cursor_slot h src k"
  shows "\<exists>h' D as. list_transfer h (Some dst) (Some src) = Some (Some dst, h') \<and> lists h' dst = Some D \<and>
    lpath (nexts h') (l_head D) as None \<and> datas h' as = xs @ take k ys \<and>
    l_size D = int (length xs) + int (length ys) \<and> list_size h' (Some src) = Some 0"
proof -
  from V obtain R where SR: "store_rep h R"
    and VR: "V = (\<lambda>p. map_option (\<lambda>(as, qs). (datas h as, length qs)) (R p))"
    and ok: "heap_ok h" and reps: "\<And>p as qs. R p = Some (as, qs) \<Longrightarrow> list_rep h p as qs"
    and dis: "\<And>p q as qs bs rs. p \<noteq> q \<Longrightarrow> R p = Some (as, qs) \<Longrightarrow> R q = Some (bs, rs) \<Longrightarrow>
        (set as \<union> set qs) \<inter> (set bs \<union> set rs) = {}" by (rule viewE) blast
  from d VR obtain as qs where Rd: "R dst = Some (as, qs)" "datas h as = xs" by (auto split: prod.splits)
  from s VR obtain bs rs where Rs: "R src = Some (bs, rs)" "datas h bs = ys" by (auto split: prod.splits)
  note rd = reps [OF Rd(1)] and rs = reps [OF Rs(1)]
  from rd obtain D where D: "lists h dst = Some D" "lpath (nexts h) (l_head D) as None" "distinct as"
    "l_size D = int (length as)" "l_tail D = (if as = [] then None else Some (last as))"
    by (auto elim!: list_repD)
  from cur rs obtain S where it: "lists h src = Some S" "l_iter S = SNext (bs ! (k - 1))" "k \<le> length bs"
    using k by (auto simp: cursor_slot_def slot_of_def dest: list_rep_det)
  from rs it have S: "lpath (nexts h) (l_head S) bs None" "distinct bs" "l_size S = int (length bs)"
    "l_tail S = (if bs = [] then None else Some (last bs))"
    using list_rep_distinct [OF rs] by (auto simp: list_rep_def)
  have bne: "bs \<noteq> []" using it(3) k by auto
  let ?a = "bs ! (k - 1)"
  have a: "?a \<in> set bs" using it(3) k by auto
  have dj: "set as \<inter> set bs = {}" using dis [OF ne Rd(1) Rs(1)] by blast
  have hs: "l_head S = Some (hd bs)" using lpath_head [OF S(1) bne] .
  obtain ca where ca: "items h ?a = Some ca" using list_rep_alloc [OF rs] a by blast
  let ?I = "if as = [] then items h else (items h)(last as \<mapsto> (the (items h (last as)))\<lparr>i_next := l_head S\<rparr>)"
  let ?D = "if as = [] then D\<lparr>l_head := l_head S, l_tail := l_tail S, l_size := l_size D + l_size S\<rparr>
    else D\<lparr>l_tail := l_tail S, l_size := l_size D + l_size S\<rparr>"
  let ?S = "S\<lparr>l_head := None, l_tail := None, l_iter_idx := -1, l_size := 0\<rparr>"
  let ?h = "h\<lparr>items := ?I(?a \<mapsto> ca\<lparr>i_next := None\<rparr>), lists := (lists h)(dst \<mapsto> ?D, src \<mapsto> ?S)\<rparr>"
  have nla: "last as \<noteq> ?a" if "as \<noteq> []" using dj a last_in_set [OF that] by auto
  have op: "list_transfer h (Some dst) (Some src) = Some (Some dst, ?h)"
  proof (cases "as = []")
    case True
    then show ?thesis using D(1,2) it hs ne ca by (auto simp: list_transfer_def fun_upd_twist)
  next
    case False
    then obtain c where "items h (last as) = Some c" using list_rep_alloc [OF rd] last_in_set by blast
    moreover have "l_head D \<noteq> None" using lpath_head [OF D(2) False] by simp
    ultimately show ?thesis using False D(1,5) it hs ne ca nla
      by (auto simp: list_transfer_def fun_upd_twist)
  qed
  let ?n = "if as = [] then nexts h else (nexts h)(last as \<mapsto> l_head S)"
  have n: "nexts ?h = ?n(?a \<mapsto> None)" by (auto simp: nexts_def fun_eq_iff)
  have full: "lpath ?n (l_head ?D) (as @ bs) None"
    using lpath_join [OF D(2) S(1) _ dj] S(1) by (cases "as = []") auto
  let ?us = "as @ take k bs"
  have "lpath ?n (l_head ?D) (?us @ drop k bs) None" using full by (simp only: append_assoc append_take_drop_id)
  then obtain q where q: "lpath ?n (l_head ?D) ?us q"
    unfolding lpath_append [of ?n "l_head ?D" ?us "drop k bs" None] by blast
  have "take k bs \<noteq> []" using bne k by (cases bs; cases k) auto
  moreover from this have "last (take k bs) = ?a" using it(3) k by (simp add: last_conv_nth min_def)
  ultimately have lu: "last ?us = ?a" "?us \<noteq> []" by simp_all
  have "distinct ?us" using D(3) S(2) dj set_take_subset [of k bs] by (auto simp: distinct_take)
  have path: "lpath (nexts ?h) (l_head ?D) ?us None"
    using lpath_snoc_upd [OF q \<open>distinct ?us\<close> lu(2), of None] by (simp only: n lu(1))
  have dat: "datas ?h cs = datas h cs" for cs
  proof (rule datas_cong_bind)
    fix x assume "x \<in> set cs"
    show "Option.bind (items ?h x) i_data = Option.bind (items h x) i_data"
      using ca list_rep_alloc [OF rd, of "last as"] by (cases "as = []") auto
  qed
  have "datas h ?us = xs @ take k ys" using Rd(2) Rs(2) by (auto simp: datas_def take_map)
  moreover have "length xs = length as" "length ys = length bs" using Rd(2) Rs(2) by (auto simp: datas_def)
  moreover have "list_size ?h (Some src) = Some 0" by (simp add: list_size_def)
  moreover have "lists ?h dst = Some ?D" using ne by simp
  moreover have "l_size ?D = int (length as) + int (length bs)" using D(4) S(3) by simp
  ultimately show ?thesis using op path
    by (intro exI [of _ ?h] exI [of _ ?D] exI [of _ ?us] conjI) (simp_all only: dat)
qed

section \<open>Chop\<close>

lemma chop_walk_rep:
  assumes items: "\<And>i. i < length as \<Longrightarrow> read_slot h (slot_of p as i) = Some (Some (as ! i))"
    and "i \<le> k" "k \<le> length as"
  shows "chop_walk h (int k) (int i) (slot_of p as i) ct =
    Some (slot_of p as k, if i = k then ct else Some (as ! (k - 1)))"
  using assms(2,3)
proof (induction "k - i" arbitrary: i ct)
  case 0
  then show ?case by (subst chop_walk.simps) simp
next
  case (Suc d)
  then have i: "i < length as" "i < k" by auto
  have "chop_walk h (int k) (int (Suc i)) (slot_of p as (Suc i)) (Some (as ! i)) =
      Some (slot_of p as k, if Suc i = k then Some (as ! i) else Some (as ! (k - 1)))"
    using Suc by (intro Suc.hyps) auto
  then show ?case using i items [OF i(1)] by (subst chop_walk.simps) (auto simp: ac_simps)
qed

lemma lpath_split:
  assumes "lpath n p as None" "0 < k" "k < length as" "distinct as"
  shows "lpath (n(as ! (k - 1) \<mapsto> None)) p (take k as) None"
    "lpath (n(as ! (k - 1) \<mapsto> None)) (Some (as ! k)) (drop k as) None"
proof -
  have tl: "last (take k as) = as ! (k - 1)"
    using assms(2,3) by (cases k) (auto simp: take_Suc_conv_app_nth)
  have ne: "take k as \<noteq> []" using assms by auto
  have "lpath n p (take k as @ drop k as) None" using assms(1) by simp
  then obtain r where "lpath n p (take k as) r" "lpath n r (drop k as) None" by (auto simp del: append_take_drop_id)
  then show "lpath (n(as ! (k - 1) \<mapsto> None)) p (take k as) None"
    using lpath_snoc_upd [OF _ _ ne] assms(4) tl by (metis distinct_take)
  have "as ! (k - 1) \<notin> set (drop k as)"
    using assms(2-4) by (auto simp: in_set_conv_nth nth_eq_iff_index_eq)
  then show "lpath (n(as ! (k - 1) \<mapsto> None)) (Some (as ! k)) (drop k as) None"
    using lpath_drop [OF assms(1), of k] assms(3) by simp
qed

lemma list_chop_view:
  assumes V: "view h V" and p: "V p = Some (xs, n)" and ne: "xs \<noteq> []" and k: "0 < k"
  shows "\<exists>h'. list_chop h (Some p) (int k) = Some (Some (brk h), h') \<and>
    view h' (V(p \<mapsto> (drop k xs, n), brk h \<mapsto> (take k xs, 0)))"
proof -
  from V obtain R where SR: "store_rep h R"
    and VR: "V = (\<lambda>p. map_option (\<lambda>(as, qs). (datas h as, length qs)) (R p))"
    and ok: "heap_ok h" and reps: "\<And>p as qs. R p = Some (as, qs) \<Longrightarrow> list_rep h p as qs" by (rule viewE) blast
  from p VR obtain as qs where Rp: "R p = Some (as, qs)" "datas h as = xs" "length qs = n"
    by (auto split: prod.splits)
  note rep = reps [OF Rp(1)]
  from rep obtain L where L: "lists h p = Some L" "lpath (nexts h) (l_head L) as None"
    "lpath (nexts h) (l_pool L) qs None" "set as \<inter> set qs = {}" "distinct as" "l_size L = int (length as)"
    "l_pool_size L = int (length qs)" "l_tail L = (if as = [] then None else Some (last as))"
    by (auto elim!: list_repD)
  have ane: "as \<noteq> []" using ne Rp by auto
  have hd: "l_head L = Some (as ! 0)" using list_rep_head [OF rep L(1)] ane by simp
  have pb: "p < brk h" using heap_ok_list_lt [OF ok L(1)] .
  let ?c = "brk h"
  let ?k = "min k (length as)"
  let ?C = "zero_list\<lparr>l_iter_idx := -1, l_iter := SHead ?c, l_head := l_head L, l_size := int ?k,
      l_tail := Some (as ! (?k - 1))\<rparr>"
  let ?L = "if k \<ge> length as then L\<lparr>l_head := None, l_tail := None, l_size := 0\<rparr>
    else L\<lparr>l_head := Some (as ! k), l_size := l_size L - int k\<rparr>"
  let ?I = "if k \<ge> length as then items h
    else (items h)(as ! (k - 1) \<mapsto> (the (items h (as ! (k - 1))))\<lparr>i_next := None\<rparr>)"
  let ?h = "h\<lparr>items := ?I, lists := (lists h)(?c \<mapsto> ?C, p \<mapsto> ?L), brk := Suc (brk h)\<rparr>"
  have ka: "as ! (k - 1) \<in> set as" "\<exists>c. items h (as ! (k - 1)) = Some c" if "k < length as"
    using that list_rep_alloc [OF rep] by auto
  have op: "list_chop h (Some p) (int k) = Some (Some ?c, ?h)"
  proof (cases "k \<ge> length as")
    case True
    then have "as ! (?k - 1) = last as" using ane by (simp add: last_conv_nth)
    then show ?thesis using L(1,6,8) hd k True pb ane
      by (simp add: list_chop_def new_list_def malloc_list_def Let_def fun_upd_twist)
  next
    case False
    then have kl: "k < length as" by simp
    let ?g = "h\<lparr>brk := Suc (brk h), lists := (lists h)(?c \<mapsto> zero_list\<lparr>l_iter_idx := -1,
      l_iter := SHead ?c, l_head := Some (as ! 0), l_size := int k\<rparr>)\<rparr>"
    have rs: "read_slot ?g (slot_of p as i) = Some (if i < length as then Some (as ! i) else None)"
      if "i \<le> length as" for i
    proof -
      have "read_slot ?g (slot_of p as i) = read_slot h (slot_of p as i)"
        using pb by (cases i) auto
      then show ?thesis using read_slot_of [OF rep that] by simp
    qed
    have w: "chop_walk ?g (int k) 0 (SHead p) (Some (as ! 0)) = Some (SNext (as ! (k - 1)), Some (as ! (k - 1)))"
      using chop_walk_rep [of as ?g p 0 k "Some (as ! 0)"] rs k kl by (simp add: slot_of_def)
    have rk: "map_option i_next (items h (as ! (k - 1))) = Some (Some (as ! k))"
      using rs [of k] k kl by (simp add: slot_of_def)
    then obtain c where c: "items h (as ! (k - 1)) = Some c" "i_next c = Some (as ! k)" by auto
    show ?thesis using L(1,6) hd k kl pb w c
      by (simp add: list_chop_def new_list_def malloc_list_def Let_def fun_upd_twist)
  qed
  have n: "nexts ?h = (if k \<ge> length as then nexts h else (nexts h)(as ! (k - 1) \<mapsto> None))"
    by (auto simp: nexts_def fun_eq_iff)
  have st: "set (take k as) \<subseteq> set as" "set (drop k as) \<subseteq> set as" "set (take k as) \<inter> set (drop k as) = {}"
    using L(5) by (simp_all add: set_take_subset set_drop_subset set_take_disj_set_drop_if_distinct)
  have "lpath (nexts ?h) (l_head L) (take k as) None"
    using L(2) lpath_split(1) [OF L(2) k _ L(5)] unfolding n by auto
  moreover have "last (take k as) = as ! (?k - 1)"
    using k ane by (cases "k < length as"; cases k) (auto simp: last_conv_nth take_Suc_conv_app_nth)
  ultimately have rC: "list_rep ?h ?c (take k as) []"
    using k ane pb unfolding list_rep_def by (simp add: zero_list_def min.commute)
  have "lpath (nexts ?h) (l_head ?L) (drop k as) None"
    using lpath_split(2) [OF L(2) k _ L(5)] unfolding n by auto
  moreover have "lpath (nexts ?h) (l_pool L) qs None"
  proof (cases "k < length as")
    case True
    then have "as ! (k - 1) \<notin> set qs" using ka L(4) by blast
    then show ?thesis using L(3) by (simp add: n)
  qed (use L(3) in \<open>simp add: n\<close>)
  moreover have "set (drop k as) \<inter> set qs = {}" using st(2) L(4) by blast
  ultimately have rL: "list_rep ?h p (drop k as) qs"
    using L(6-8) ane unfolding list_rep_def by auto
  have dat: "datas ?h cs = datas h cs" for cs
  proof (rule datas_cong_bind)
    fix a assume "a \<in> set cs"
    show "Option.bind (items ?h a) i_data = Option.bind (items h a) i_data"
      using ka by (cases "k < length as") auto
  qed
  let ?R = "R(p \<mapsto> (drop k as, qs), ?c \<mapsto> (take k as, []))"
  have Rc: "R ?c = None"
  proof (rule ccontr)
    assume "R ?c \<noteq> None"
    then obtain bs rs where "R ?c = Some (bs, rs)" by auto
    from reps [OF this] obtain Lc where "lists h ?c = Some Lc" by (auto simp: list_rep_def)
    with heap_ok_list_lt [OF ok] show False by blast
  qed
  have nod: "nodes_of R {p, ?c} = set as \<union> set qs" "nodes_of ?R {p, ?c} = set as \<union> set qs"
  proof -
    show "nodes_of R {p, ?c} = set as \<union> set qs" using Rp(1) Rc by (auto simp: nodes_of_def)
    have "set (take k as) \<union> set (drop k as) = set as" by (metis append_take_drop_id set_append)
    then show "nodes_of ?R {p, ?c} = set as \<union> set qs" using pb by (auto simp: nodes_of_def)
  qed
  have ok': "heap_ok ?h"
    using ok pb ka heap_ok_lt [OF ok] by (auto simp: heap_ok_def)
  have "store_rep ?h ?R"
  proof (rule store_rep_frame(1) [OF SR ok', of "{p, ?c}" ?R, unfolded nod])
    show "list_rep ?h q cs ts" if "q \<in> {p, ?c}" "?R q = Some (cs, ts)" for q cs ts
      using that rC rL pb by (auto split: if_splits)
    show "(set cs \<union> set ts) \<inter> (set es \<union> set us) = {}"
      if "q \<in> {p, ?c}" "r \<in> {p, ?c}" "q \<noteq> r" "?R q = Some (cs, ts)" "?R r = Some (es, us)"
      for q r cs ts es us
      using that pb st L(4) by (auto split: if_splits)
    show "items ?h a = items h a" if "a \<notin> set as \<union> set qs" for a
      using that ka by auto
  qed (use pb in auto)
  moreover have "p \<noteq> ?c" using pb by simp
  moreover have "datas ?h (drop k as) = drop k xs" "datas ?h (take k as) = take k xs"
    by (simp_all only: dat datas_take_drop Rp)
  ultimately have "view ?h (V(p \<mapsto> (drop k xs, n), ?c \<mapsto> (take k xs, 0)))"
    by (rule view_two [OF VR _ _ dat]) (simp_all add: Rp)
  with op show ?thesis by blast
qed

section \<open>Reverse\<close>

lemma reverse_loop_rep:
  assumes "lpath (nexts h) (Some a) (a # as) None" "lpath (nexts h) prv ps None"
    "set (a # as) \<inter> set ps = {}" "as \<noteq> []"
  shows "\<exists>h'. reverse_loop h prv (Some a) (Some (hd as)) = Some (Some (last as), h') \<and>
    lpath (nexts h') (Some (last as)) (rev (a # as) @ ps) None \<and>
    (\<forall>b. b \<notin> set (a # as) \<longrightarrow> items h' b = items h b) \<and>
    (\<forall>b. map_option i_data (items h' b) = map_option i_data (items h b)) \<and>
    lists h' = lists h \<and> brk h' = brk h"
  using assms
proof (induction as arbitrary: a ps prv h)
  case Nil
  then show ?case by simp
next
  case (Cons b cs)
  from Cons.prems(1) obtain c d where c: "items h a = Some c" and d: "items h b = Some d"
    and cs: "lpath (nexts h) (i_next d) cs None"
    by (auto simp only: lpath_nexts_Cons)
  then have nb: "nexts h b = Some (i_next d)" by (simp add: nexts_def)
  have dst: "distinct (a # b # cs)" using lpath_distinct [OF Cons.prems(1)] .
  let ?g = "h\<lparr>items := (items h)(a \<mapsto> c\<lparr>i_next := prv\<rparr>)\<rparr>"
  have g: "lpath (nexts ?g) (Some a) (a # ps) None" "lpath (nexts ?g) (i_next d) cs None"
    using Cons.prems dst cs by auto
  show ?case
  proof (cases "cs = []")
    case True
    then have nd: "i_next d = None" using cs by simp
    let ?f = "h\<lparr>items := (items h)(a \<mapsto> c\<lparr>i_next := prv\<rparr>, b \<mapsto> d\<lparr>i_next := Some a\<rparr>)\<rparr>"
    have "reverse_loop h prv (Some a) (Some b) = Some (Some b, ?f)"
      using c d nd dst by (simp add: reverse_loop.simps)
    moreover have "nexts ?f = (nexts h)(a \<mapsto> prv, b \<mapsto> Some a)" by (auto simp: nexts_def)
    then have "lpath (nexts ?f) (Some b) (b # a # ps) None"
      using Cons.prems dst by auto
    ultimately show ?thesis using True c d by (intro exI [of _ ?f]) auto
  next
    case False
    then have nd: "i_next d = Some (hd cs)" using lpath_head [OF cs] by simp
    have step: "reverse_loop h prv (Some a) (Some b) = reverse_loop ?g (Some a) (Some b) (Some (hd cs))"
      using c d nd dst by (subst reverse_loop.simps) simp
    have "lpath (nexts ?g) (Some b) (b # cs) None"
      using g(2) nb dst by auto
    moreover have "set (b # cs) \<inter> set (a # ps) = {}" using Cons.prems(3) dst by auto
    ultimately obtain h' where h': "reverse_loop ?g (Some a) (Some b) (Some (hd cs)) = Some (Some (last cs), h')"
      "lpath (nexts h') (Some (last cs)) (rev (b # cs) @ a # ps) None"
      "\<And>x. x \<notin> set (b # cs) \<Longrightarrow> items h' x = items ?g x"
      "\<And>x. map_option i_data (items h' x) = map_option i_data (items ?g x)"
      "lists h' = lists ?g" "brk h' = brk ?g"
      using Cons.IH [OF _ g(1)] False by blast
    show ?thesis
      using h' step False c by (intro exI [of _ h']) auto
  qed
qed

lemma list_reverse_rep:
  assumes "lpath (nexts h) p as None"
  shows "\<exists>p' h'. list_reverse h p = Some (p', h') \<and> lpath (nexts h') p' (rev as) None \<and>
    datas h' (rev as) = rev (datas h as) \<and> lists h' = lists h \<and>
    (\<forall>b. b \<notin> set as \<longrightarrow> items h' b = items h b)"
proof (cases as)
  case Nil
  with assms show ?thesis by (simp add: list_reverse_def)
next
  case (Cons a bs)
  from assms Cons obtain c where c: "p = Some a" "items h a = Some c" "lpath (nexts h) (i_next c) bs None"
    by (auto simp: nexts_def)
  show ?thesis
  proof (cases "bs = []")
    case True
    then have "list_reverse h p = Some (Some a, h)" using c by (simp add: list_reverse_def reverse_loop.simps)
    then show ?thesis using True Cons assms c by (auto simp: datas_Cons)
  next
    case False
    then have n: "i_next c = Some (hd bs)" using lpath_head [OF c(3)] by simp
    from reverse_loop_rep [of h a bs None "[]"] assms Cons c(1) False obtain h' where h':
      "reverse_loop h None (Some a) (Some (hd bs)) = Some (Some (last bs), h')"
      "lpath (nexts h') (Some (last bs)) (rev as) None"
      "\<And>b. b \<notin> set as \<Longrightarrow> items h' b = items h b"
      "\<And>b. map_option i_data (items h' b) = map_option i_data (items h b)" "lists h' = lists h"
      by auto
    have "Option.bind (items h' b) i_data = Option.bind (items h b) i_data" for b
      using h'(4) [of b] by (cases "items h' b"; cases "items h b") auto
    then have "datas h' (rev as) = rev (datas h as)" by (simp add: datas_def rev_map)
    then show ?thesis using h' c n by (auto simp: list_reverse_def)
  qed
qed

end
