(* ===== verification/SlistStack.thy ===== *)
theory SlistStack
  imports SlistMove
begin

text \<open>
  Removal at an index, and the stack interface: the macros \<open>push\<close>, \<open>pop\<close> and \<open>peek\<close> of
  \<open>src/stack.h\<close> with the laws their clients (the scanner's state stack, the parser's symbol
  and branch stacks) rely on.
\<close>

section \<open>Removal at an index\<close>

lemma lpath_remove_after:
  assumes "lpath n p as None" "Suc j < length as" "distinct as"
  shows "lpath (n(as ! j \<mapsto> (if Suc (Suc j) < length as then Some (as ! Suc (Suc j)) else None))) p
    (take (Suc j) as @ drop (Suc (Suc j)) as) None"
proof -
  let ?r = "if Suc (Suc j) < length as then Some (as ! Suc (Suc j)) else None"
  have as: "as = take j as @ as ! j # drop (Suc j) as" using assms(2) by (intro id_take_nth_drop) simp
  have d: "as ! j \<notin> set (take j as)" "as ! j \<notin> set (drop (Suc j) as)"
    using assms(3) by (subst (asm) as, simp)+
  then have d2: "as ! j \<notin> set (drop (Suc (Suc j)) as)"
    by (metis Suc_n_not_le_n in_set_dropD le_cases set_drop_subset_set_drop subsetD)
  have tl: "lpath n ?r (drop (Suc (Suc j)) as) None"
    using lpath_drop [OF assms(1), of "Suc (Suc j)"] assms(2) by simp
  have hd: "lpath n p (take j as) (Some (as ! j))"
    using assms(1) by (subst (asm) as) auto
  then show ?thesis using tl d d2 assms(2) by (simp add: take_Suc_conv_app_nth)
qed

text \<open>The chain after a removal at \<open>i\<close> is right for every index; the tail pointer is the node
  before the last of the walk.\<close>

definition removal_tail :: "addr list \<Rightarrow> nat \<Rightarrow> addr" where
  "removal_tail as i = (if Suc i < length as then last as else if i \<le> 1 then as ! 0 else as ! (i - 2))"

lemma list_remove_at_eval:
  assumes rep: "list_rep h p as qs" and ok: "heap_ok h" and i: "i < length as"
    and L: "lists h p = Some L" and it: "l_iter L = SHead p"
  shows "\<exists>h' L'. list_remove_at h (Some p) (int i) = Some (datas h as ! i, h') \<and>
    lists h' = (lists h)(p \<mapsto> L') \<and> l_tail L' = Some (removal_tail as i) \<and>
    l_size L' = int (length as) - 1 \<and> l_pool_size L' = int (length qs) + 1 \<and>
    lpath (nexts h') (l_head L') (take i as @ drop (Suc i) as) None \<and>
    lpath (nexts h') (l_pool L') (as ! i # qs) None \<and> brk h' = brk h \<and>
    (\<forall>a. a \<notin> set as \<longrightarrow> items h' a = items h a) \<and>
    (\<forall>a. a \<noteq> as ! i \<longrightarrow> map_option i_data (items h' a) = map_option i_data (items h a)) \<and>
    items h' (as ! i) = Some \<lparr>i_next = l_pool L, i_data = None\<rparr>"
proof -
  from rep L have R: "lpath (nexts h) (l_head L) as None" "lpath (nexts h) (l_pool L) qs None"
    "set as \<inter> set qs = {}" "distinct as" "l_size L = int (length as)" "l_pool_size L = int (length qs)"
    "l_tail L = (if as = [] then None else Some (last as))"
    by (auto simp: list_rep_def dest: lpath_distinct)
  have ne: "as \<noteq> []" using i by auto
  have hd: "l_head L = Some (as ! 0)" using list_rep_head [OF rep L] ne by simp
  from list_rep_next [OF rep i] obtain c where c: "items h (as ! i) = Some c"
    "i_next c = (if Suc i < length as then Some (as ! Suc i) else None)" "datas h as ! i = i_data c" by metis
  define j where "j = i - 1"
  have jm: "j = min (length as - 1) (nat (int i - 1))" using i by (auto simp: j_def)
  have w: "walk_pp h (int i) (SHead p) 0 (Some (as ! 0)) =
      Some (slot_of p as j, int j, if j = 0 then Some (as ! 0) else Some (as ! (j - 1)))"
    using walk_pp_rep [OF rep ne _ jm, of 0 "Some (as ! 0)"] by simp
  have tl: "Some (as ! i) = l_tail L \<longleftrightarrow> Suc i = length as"
    using R(4,7) ne i by (auto simp: last_conv_nth nth_eq_iff_index_eq)
  let ?tt = "if j = 0 then as ! 0 else as ! (j - 1)"
  have tt: "removal_tail as i = (if Suc i = length as then ?tt else last as)"
    using i by (auto simp: removal_tail_def j_def numeral_2_eq_2)
  have iq: "as ! i \<notin> set qs" using i R(3) by (meson disjoint_iff nth_mem)
  show ?thesis
  proof (cases "i = 0")
    case True
    let ?L0 = "L\<lparr>l_head := i_next c\<rparr>"
    let ?L1 = "if Suc i = length as then ?L0\<lparr>l_tail := Some ?tt\<rparr> else ?L0"
    let ?L2 = "if i_data c = None \<and> i_next c = None then ?L1\<lparr>l_iter_idx := -1\<rparr> else ?L1"
    let ?L3 = "?L2\<lparr>l_pool := Some (as ! i), l_pool_size := l_pool_size L + 1, l_size := l_size L - 1\<rparr>"
    let ?g = "h\<lparr>items := (items h)(as ! i \<mapsto> \<lparr>i_next = l_pool L, i_data = None\<rparr>), lists := (lists h)(p \<mapsto> ?L3)\<rparr>"
    have j0: "j = 0" using True by (simp add: j_def)
    have tl0: "Some (as ! 0) = l_tail L \<longleftrightarrow> length as = Suc 0" using tl True by auto
    have op: "list_remove_at h (Some p) (int i) = Some (datas h as ! i, ?g)"
    proof (cases "length as = Suc 0")
      case one: True
      then have "l_tail L = Some (as ! 0)" using tl0 by simp
      then show ?thesis using True one w j0 L hd c R(5) it
        by (cases "i_data c") (simp_all add: list_remove_at_def release_to_pool_eval)
    next
      case more: False
      then have "Some (as ! 0) \<noteq> l_tail L" using tl0 by simp
      then show ?thesis using True more w j0 L hd c R(5) i it
        by (simp add: list_remove_at_def release_to_pool_eval)
    qed
    have n: "nexts ?g = (nexts h)(as ! i \<mapsto> l_pool L)" by (auto simp: nexts_def)
    have "lpath (nexts h) (i_next c) (drop (Suc i) as) None"
      unfolding c(2) using lpath_drop [OF R(1), of "Suc i"] i by auto
    moreover have "as ! i \<notin> set (drop (Suc i) as)"
    proof -
      have "distinct (take i as @ as ! i # drop (Suc i) as)" using R(4) id_take_nth_drop [OF i] by simp
      then show ?thesis by simp
    qed
    ultimately have "lpath (nexts ?g) (i_next c) (take i as @ drop (Suc i) as) None"
      unfolding n using True by simp
    moreover have "lpath (nexts ?g) (Some (as ! i)) (as ! i # qs) None" unfolding n using R(2) iq by simp
    moreover have "l_tail ?L3 = Some (removal_tail as i)" using tt R(7) ne by simp
    ultimately show ?thesis using op R(5,6) i nth_mem [OF i]
      by (intro exI [of _ ?g] exI [of _ ?L3]) auto
  next
    case False
    then have ji: "i = Suc j" "j < length as" using i by (auto simp: j_def)
    from list_rep_next [OF rep ji(2)] i ji(1) obtain d where d: "items h (as ! j) = Some d"
      "i_next d = Some (as ! i)" by metis
    have ij: "as ! j \<noteq> as ! i" using R(4) i ji by (simp add: nth_eq_iff_index_eq)
    let ?L1 = "if Suc i = length as then L\<lparr>l_tail := Some ?tt\<rparr> else L"
    let ?L3 = "?L1\<lparr>l_pool := Some (as ! i), l_pool_size := l_pool_size L + 1, l_size := l_size L - 1\<rparr>"
    let ?g = "h\<lparr>items := (items h)(as ! j \<mapsto> d\<lparr>i_next := i_next c\<rparr>,
        as ! i \<mapsto> \<lparr>i_next = l_pool L, i_data = None\<rparr>), lists := (lists h)(p \<mapsto> ?L3)\<rparr>"
    have rs: "read_slot h (slot_of p as j) = Some (Some (as ! j))" using read_slot_of [OF rep, of j] ji by simp
    have op: "list_remove_at h (Some p) (int i) = Some (datas h as ! i, ?g)"
    proof (cases "Suc i = length as")
      case True
      then have t: "l_tail L = Some (as ! i)" using tl by simp
      show ?thesis
      proof (cases j)
        case 0
        then show ?thesis using t True ji w L hd c d ij rs R(5) it
          by (simp add: list_remove_at_def release_to_pool_eval del: of_nat_Suc)
      next
        case (Suc k)
        from list_rep_next [OF rep, of k] ji(2) Suc obtain e where e: "items h (as ! k) = Some e"
          "i_next e = Some (as ! Suc k)" by auto
        show ?thesis using Suc e t True ji w L hd c d ij R(5) it
          by (simp add: list_remove_at_def release_to_pool_eval del: of_nat_Suc)
      qed
    next
      case ni: False
      then have t: "Some (as ! i) \<noteq> l_tail L" using tl by simp
      show ?thesis
      proof (cases j)
        case 0
        then show ?thesis using t ni ji w L hd c d ij rs R(5) it i
          by (simp add: list_remove_at_def release_to_pool_eval del: of_nat_Suc)
      next
        case (Suc k)
        from list_rep_next [OF rep, of k] ji(2) Suc obtain e where e: "items h (as ! k) = Some e"
          "i_next e = Some (as ! Suc k)" by auto
        show ?thesis using Suc e t ni ji w L hd c d ij R(5) it i
          by (simp add: list_remove_at_def release_to_pool_eval del: of_nat_Suc)
      qed
    qed
    have n: "nexts ?g = (nexts h)(as ! j \<mapsto> i_next c, as ! i \<mapsto> l_pool L)" by (auto simp: nexts_def)
    have "lpath ((nexts h)(as ! j \<mapsto> i_next c)) (l_head L) (take i as @ drop (Suc i) as) None"
      using lpath_remove_after [OF R(1) _ R(4), of j] i unfolding c(2) ji(1) by (simp only:)
    moreover have "as ! i \<notin> set (take i as @ drop (Suc i) as)"
    proof -
      have "distinct (take i as @ as ! i # drop (Suc i) as)" using R(4) id_take_nth_drop [OF i] by simp
      then show ?thesis by simp
    qed
    ultimately have "lpath (nexts ?g) (l_head L) (take i as @ drop (Suc i) as) None"
      unfolding n by simp
    moreover have "as ! j \<notin> set qs" using ji(2) R(3) by (meson disjoint_iff nth_mem)
    then have "lpath (nexts ?g) (Some (as ! i)) (as ! i # qs) None" unfolding n using R(2) iq ij by simp
    moreover have "l_tail ?L3 = Some (removal_tail as i)" using tt R(7) ne by simp
    ultimately show ?thesis using op R(5,6) i nth_mem [OF i] nth_mem [OF ji(2)] d
      by (intro exI [of _ ?g] exI [of _ ?L3]) auto
  qed
qed

lemma removal_tail_last:
  assumes "i < length as" "Suc i < length as \<or> length as = 2"
  shows "take i as @ drop (Suc i) as \<noteq> []" "removal_tail as i = last (take i as @ drop (Suc i) as)"
proof -
  show ne: "take i as @ drop (Suc i) as \<noteq> []" using assms by auto
  show "removal_tail as i = last (take i as @ drop (Suc i) as)"
  proof (cases "Suc i < length as")
    case True
    then show ?thesis by (simp add: removal_tail_def last_append)
  next
    case False
    with assms have "length as = 2" "i = 1" by auto
    then obtain a b where "as = [a, b]" by (auto simp: length_Suc_conv numeral_2_eq_2)
    with \<open>i = 1\<close> show ?thesis by (simp add: removal_tail_def)
  qed
qed

lemma bind_map_option_cong: "map_option f x = map_option f y \<Longrightarrow> Option.bind x f = Option.bind y f"
  by (cases x; cases y) auto

lemma datas_removed:
  assumes "distinct as" "i < length as"
    "\<forall>a. a \<noteq> as ! i \<longrightarrow> map_option i_data (items h' a) = map_option i_data (items h a)"
  shows "datas h' (take i as @ drop (Suc i) as) = take i (datas h as) @ drop (Suc i) (datas h as)"
proof -
  have "distinct (take i as @ as ! i # drop (Suc i) as)" using assms id_take_nth_drop [OF assms(2)] by simp
  then have "as ! i \<notin> set (take i as @ drop (Suc i) as)" by simp
  then have "datas h' (take i as @ drop (Suc i) as) = datas h (take i as @ drop (Suc i) as)"
    using assms(3) by (intro datas_cong_bind bind_map_option_cong) metis
  then show ?thesis by (simp add: datas_take_drop)
qed

lemma list_remove_at_view:
  assumes V: "view h V" "V p = Some (xs, n)" and i: "i < length xs" "Suc i < length xs \<or> length xs = 2"
    and it: "lists h p = Some L" "l_iter L = SHead p"
  shows "\<exists>h'. list_remove_at h (Some p) (int i) = Some (xs ! i, h') \<and>
    view h' (V(p \<mapsto> (take i xs @ drop (Suc i) xs, Suc n)))"
  using V
proof (rule view_local)
  fix as qs assume a: "list_rep h p as qs" "heap_ok h" "datas h as = xs" "length qs = n"
  have len: "length as = length xs" using a(3) by (metis length_datas)
  have di: "distinct as" using a(1) by (auto simp: list_rep_def dest: lpath_distinct)
  have dj: "set as \<inter> set qs = {}" using a(1) by (auto simp: list_rep_def)
  from list_remove_at_eval [OF a(1,2) _ it, of i] i(1) len obtain h' L' where
    r: "list_remove_at h (Some p) (int i) = Some (datas h as ! i, h')"
    "lists h' = (lists h)(p \<mapsto> L')" "l_tail L' = Some (removal_tail as i)"
    "l_size L' = int (length as) - 1" "l_pool_size L' = int (length qs) + 1"
    "lpath (nexts h') (l_head L') (take i as @ drop (Suc i) as) None"
    "lpath (nexts h') (l_pool L') (as ! i # qs) None" "brk h' = brk h"
    "\<forall>a. a \<notin> set as \<longrightarrow> items h' a = items h a"
    "\<forall>a. a \<noteq> as ! i \<longrightarrow> map_option i_data (items h' a) = map_option i_data (items h a)"
    "items h' (as ! i) = Some \<lparr>i_next = l_pool L, i_data = None\<rparr>" by auto
  have ai: "as ! i \<in> set as" using i(1) len by simp
  have di2: "distinct (take i as @ as ! i # drop (Suc i) as)" using di id_take_nth_drop [of i as] i(1) len by simp
  have sub: "set (take i as @ drop (Suc i) as) \<subseteq> set as" by (auto dest: in_set_takeD in_set_dropD)
  have "set (take i as @ drop (Suc i) as) \<inter> set (as ! i # qs) = {}" using dj sub di2 by auto
  then have rep: "list_rep h' p (take i as @ drop (Suc i) as) (as ! i # qs)"
    using r(2-7) removal_tail_last [of i as] i len by (auto simp: list_rep_def)
  have "a \<notin> set as" "a \<noteq> p" if "brk h \<le> a" for a
    using that list_rep_alloc [OF a(1)] heap_ok_lt [OF a(2)] heap_ok_list_lt [OF a(2) it(1)] by (meson UnCI leD)+
  then have hp: "heap_ok h'" using a(2) r(2,8,9) by (simp add: heap_ok_def)
  have lc: "local_change h h' p (set as \<union> set qs) (set (take i as @ drop (Suc i) as) \<union> set (as ! i # qs))"
    unfolding local_change_def using r(2,8,9) sub ai hp by (simp add: subset_iff)
  have d: "datas h' (take i as @ drop (Suc i) as) = take i xs @ drop (Suc i) xs"
    using datas_removed [OF di _ r(10)] i(1) len unfolding a(3) by simp
  show "\<exists>h' as' qs'. list_remove_at h (Some p) (int i) = Some (xs ! i, h') \<and> list_rep h' p as' qs' \<and>
      datas h' as' = take i xs @ drop (Suc i) xs \<and> length qs' = Suc n \<and>
      local_change h h' p (set as \<union> set qs) (set as' \<union> set qs')"
    using r(1) rep lc d a(3,4) by (metis length_Cons)
qed

end
