(* ===== verification/ListIface.thy ===== *)
theory ListIface
  imports SlistStack SlistIter
begin

text \<open>
  The interfaces that the rest of the program uses the lists through: a store from whose
  front elements are taken (\<open>pop\<close> of \<open>src/stack.h\<close> is \<open>list_shift\<close>), a stack (\<open>push\<close> is
  \<open>list_push\<close>) and a queue (\<open>list_append\<close>). Each is a locale with the laws of the provider;
  the interpretations discharge the laws for the model of \<open>src/slist.c\<close>, in the presence
  of any number of other lists (the frame \<open>V\<close>).
\<close>

section \<open>Client operations\<close>

text \<open>Take \<open>k\<close> elements from the front.\<close>

primrec pops :: "('s \<Rightarrow> ('e option \<times> 's) option) \<Rightarrow> nat \<Rightarrow> 's \<Rightarrow> ('e option list \<times> 's) option" where
  "pops pop 0 s = Some ([], s)"
| "pops pop (Suc k) s = do { (x, s) \<leftarrow> pop s; (xs, s) \<leftarrow> pops pop k s; Some (x # xs, s) }"

section \<open>The contracts\<close>

locale front_iface =
  fixes pop :: "'s \<Rightarrow> ('e option \<times> 's) option"
    and holds :: "'s \<Rightarrow> 'e list \<Rightarrow> bool"
  assumes pop_ok: "holds s (x # xs) \<Longrightarrow> \<exists>s'. pop s = Some (Some x, s') \<and> holds s' xs"
    and pop_empty: "holds s [] \<Longrightarrow> \<exists>s'. pop s = Some (None, s') \<and> holds s' []"
begin

lemma pops_ok: "holds s xs \<Longrightarrow> k \<le> length xs \<Longrightarrow>
    \<exists>s'. pops pop k s = Some (map Some (take k xs), s') \<and> holds s' (drop k xs)"
proof (induction k arbitrary: s xs)
  case 0
  then show ?case by simp
next
  case (Suc k)
  then obtain y ys where xs: "xs = y # ys" by (cases xs) auto
  with Suc.prems pop_ok obtain t where "pop s = Some (Some y, t)" "holds t ys" by blast
  with Suc.IH [of t ys] Suc.prems xs show ?case by auto
qed

lemma drain: "holds s xs \<Longrightarrow>
    \<exists>s'. pops pop (length xs + k) s = Some (map Some xs @ replicate k None, s') \<and> holds s' []"
proof (induction xs arbitrary: s)
  case Nil
  then show ?case
  proof (induction k arbitrary: s)
    case (Suc k)
    then obtain t where "pop s = Some (None, t)" "holds t []" using pop_empty by blast
    with Suc.IH [of t] show ?case by auto
  qed simp
next
  case (Cons x xs)
  then obtain t where "pop s = Some (Some x, t)" "holds t xs" using pop_ok by blast
  with Cons.IH [of t] show ?case by auto
qed

end

locale stack_iface = front_iface +
  fixes push :: "'e \<Rightarrow> 's \<Rightarrow> 's option"
  assumes push_ok: "holds s xs \<Longrightarrow> \<exists>s'. push x s = Some s' \<and> holds s' (x # xs)"
begin

lemma push_pop: "holds s xs \<Longrightarrow> \<exists>s' s''. push x s = Some s' \<and> pop s' = Some (Some x, s'') \<and> holds s'' xs"
  using push_ok pop_ok by blast

lemma push_all: "holds s ys \<Longrightarrow> \<exists>s'. fold_opt push xs s = Some s' \<and> holds s' (rev xs @ ys)"
proof (induction xs arbitrary: s ys)
  case Nil
  then show ?case by simp
next
  case (Cons x xs)
  then obtain t where "push x s = Some t" "holds t (x # ys)" using push_ok by blast
  with Cons.IH [of t "x # ys"] show ?case by simp
qed

lemma lifo:
  assumes "holds s ys"
  shows "\<exists>s' s''. fold_opt push xs s = Some s' \<and>
    pops pop (length xs) s' = Some (map Some (rev xs), s'') \<and> holds s'' ys"
proof -
  from push_all [OF assms] obtain t where t: "fold_opt push xs s = Some t" "holds t (rev xs @ ys)" by blast
  with pops_ok [OF t(2), of "length xs"] show ?thesis by auto
qed

end

locale queue_iface = front_iface +
  fixes enq :: "'e \<Rightarrow> 's \<Rightarrow> 's option"
  assumes enq_ok: "holds s xs \<Longrightarrow> \<exists>s'. enq x s = Some s' \<and> holds s' (xs @ [x])"
begin

lemma enq_all: "holds s ys \<Longrightarrow> \<exists>s'. fold_opt enq xs s = Some s' \<and> holds s' (ys @ xs)"
proof (induction xs arbitrary: s ys)
  case Nil
  then show ?case by simp
next
  case (Cons x xs)
  then obtain t where "enq x s = Some t" "holds t (ys @ [x])" using enq_ok by blast
  with Cons.IH [of t "ys @ [x]"] show ?case by simp
qed

lemma fifo:
  assumes "holds s ys"
  shows "\<exists>s' s''. fold_opt enq xs s = Some s' \<and>
    pops pop (length ys + length xs) s' = Some (map Some (ys @ xs), s'') \<and> holds s'' []"
proof -
  from enq_all [OF assms] obtain t where t: "fold_opt enq xs s = Some t" "holds t (ys @ xs)" by blast
  with pops_ok [OF t(2), of "length ys + length xs"] show ?thesis by auto
qed

end

section \<open>The lists of \<open>src/slist.c\<close> satisfy them\<close>

definition list_pop :: "addr \<Rightarrow> 'a lheap \<Rightarrow> ('a option \<times> 'a lheap) option" where
  "list_pop p h = stack_pop h (Some p)"

definition list_push_elem :: "addr \<Rightarrow> 'a \<Rightarrow> 'a lheap \<Rightarrow> 'a lheap option" where
  "list_push_elem p x h = map_option snd (stack_push h (Some p) (Some x))"

definition list_append_elem :: "addr \<Rightarrow> 'a \<Rightarrow> 'a lheap \<Rightarrow> 'a lheap option" where
  "list_append_elem p x h = map_option snd (list_append h (Some p) (Some x))"

definition list_holds :: "'a lview \<Rightarrow> addr \<Rightarrow> 'a lheap \<Rightarrow> 'a list \<Rightarrow> bool" where
  "list_holds V p h xs \<longleftrightarrow> (\<exists>n. view h (V(p \<mapsto> (map Some xs, n))))"

interpretation lst: stack_iface "list_pop p" "list_holds V p" "list_push_elem p" for p and V
proof
  fix s :: "'a lheap" and x :: 'a and xs
  show "list_holds V p s (x # xs) \<Longrightarrow> \<exists>s'. list_pop p s = Some (Some x, s') \<and> list_holds V p s' xs"
    using list_shift_view [of s _ p "map Some (x # xs)"] by (fastforce simp: list_holds_def list_pop_def)
  show "list_holds V p s [] \<Longrightarrow> \<exists>s'. list_pop p s = Some (None, s') \<and> list_holds V p s' []"
    using list_shift_view_empty [of s _ p] by (fastforce simp: list_holds_def list_pop_def)
  show "list_holds V p s xs \<Longrightarrow> \<exists>s'. list_push_elem p x s = Some s' \<and> list_holds V p s' (x # xs)"
    using list_push_view [of s _ p "map Some xs" _ "Some x"]
    by (fastforce simp: list_holds_def list_push_elem_def)
qed

interpretation lsq: queue_iface "list_pop p" "list_holds V p" "list_append_elem p" for p and V
proof
  fix s :: "'a lheap" and x :: 'a and xs
  show "list_holds V p s xs \<Longrightarrow> \<exists>s'. list_append_elem p x s = Some s' \<and> list_holds V p s' (xs @ [x])"
    using list_append_view [of s _ p "map Some xs" _ "Some x"]
    by (fastforce simp: list_holds_def list_append_elem_def)
qed

end
