(* ===== verification/SlistProps.thy ===== *)
theory SlistProps
  imports ListIface SlistMove
begin

text \<open>
  The contract of \<open>src/slist.c\<close>: a client program of list calls computes what the same
  program computes on an array of finite sequences. The abstract state is the view of
  \<open>SlistRep\<close>: for each list header its contents and the number of pooled nodes.
\<close>

section \<open>Programs of list calls\<close>

datatype 'a lcmd =
    LAppend addr "'a option" | LPush addr "'a option" | LShift addr
  | LInsert addr "'a option" int | LGet addr int | LClear addr

datatype 'a lres = RInt int | RData "'a option" | RUnit

definition ret_int :: "(int \<times> 's) option \<Rightarrow> ('a lres \<times> 's) option" where
  "ret_int = map_option (apfst RInt)"

definition ret_data :: "('a option \<times> 's) option \<Rightarrow> ('a lres \<times> 's) option" where
  "ret_data = map_option (apfst RData)"

fun lexec :: "'a lcmd \<Rightarrow> 'a lheap \<Rightarrow> ('a lres \<times> 'a lheap) option" where
  "lexec (LAppend p x) h = ret_int (list_append h (Some p) x)"
| "lexec (LPush p x) h = ret_int (list_push h (Some p) x)"
| "lexec (LShift p) h = ret_data (list_shift h (Some p))"
| "lexec (LInsert p x i) h = ret_int (list_insert_at h (Some p) x i)"
| "lexec (LGet p i) h = ret_data (map_option (\<lambda>d. (d, h)) (list_get_at h (Some p) i))"
| "lexec (LClear p) h = map_option (\<lambda>h. (RUnit, h)) (list_clear h (Some p))"

text \<open>The specification, on one sequence and its pool size.\<close>

fun lspec :: "'a lcmd \<Rightarrow> 'a option list \<times> nat \<Rightarrow> 'a lres \<times> 'a option list \<times> nat" where
  "lspec (LAppend p x) (xs, n) = (RInt (int (length xs)), xs @ [x], n - 1)"
| "lspec (LPush p x) (xs, n) = (RInt (int (length xs) + 1), x # xs, n - 1)"
| "lspec (LShift p) (xs, n) =
     (case xs of [] \<Rightarrow> (RData None, [], n) | y # ys \<Rightarrow> (RData y, ys, Suc n))"
| "lspec (LInsert p x i) (xs, n) = (if i < 0 then (RInt (-1), xs, n) else
     (let k = min (length xs) (nat i) in (RInt (int k), take k xs @ x # drop k xs, n - 1)))"
| "lspec (LGet p i) (xs, n) =
     (RData (if 0 \<le> i \<and> i < int (length xs) then xs ! nat i else None), xs, n)"
| "lspec (LClear p) (xs, n) = (RUnit, [], n + length xs)"

fun lcmd_list :: "'a lcmd \<Rightarrow> addr" where
  "lcmd_list (LAppend p x) = p" | "lcmd_list (LPush p x) = p" | "lcmd_list (LShift p) = p"
| "lcmd_list (LInsert p x i) = p" | "lcmd_list (LGet p i) = p" | "lcmd_list (LClear p) = p"

primrec lrun :: "'a lcmd list \<Rightarrow> 'a lheap \<Rightarrow> ('a lres list \<times> 'a lheap) option" where
  "lrun [] h = Some ([], h)"
| "lrun (c # cs) h = do { (r, h) \<leftarrow> lexec c h; (rs, h) \<leftarrow> lrun cs h; Some (r # rs, h) }"

primrec lspec_run :: "'a lcmd list \<Rightarrow> 'a lview \<Rightarrow> ('a lres list \<times> 'a lview) option" where
  "lspec_run [] V = Some ([], V)"
| "lspec_run (c # cs) V = do {
     l \<leftarrow> V (lcmd_list c);
     let (r, l') = lspec c l;
     (rs, V) \<leftarrow> lspec_run cs (V(lcmd_list c \<mapsto> l'));
     Some (r # rs, V) }"

lemma view_same: "V p = Some l \<Longrightarrow> view h V \<Longrightarrow> view h (V(p \<mapsto> l))"
  by (simp add: fun_upd_idem)

lemma list_insert_at_neg: "idx < 0 \<Longrightarrow> list_insert_at h list x idx = Some (-1, h)"
  by (simp add: list_insert_at_def)

lemma lexec_view:
  assumes V: "view h V" and p: "V (lcmd_list c) = Some l" and s: "lspec c l = (r, l')"
  shows "\<exists>h'. lexec c h = Some (r, h') \<and> view h' (V(lcmd_list c \<mapsto> l'))"
proof (cases c)
  case (LAppend p x)
  then show ?thesis using list_append_view [OF V, of p "fst l" "snd l" x] p s
    by (cases l) (auto simp: ret_int_def)
next
  case (LPush p x)
  then show ?thesis using list_push_view [OF V, of p "fst l" "snd l" x] p s
    by (cases l) (auto simp: ret_int_def)
next
  case (LShift p)
  obtain xs n where l: "l = (xs, n)" by fastforce
  show ?thesis
  proof (cases xs)
    case Nil
    then show ?thesis using LShift l list_shift_view_empty [OF V, of p n] p s view_same [OF _ V]
      by (auto simp: ret_data_def)
  next
    case (Cons y ys)
    then show ?thesis using LShift l list_shift_view [OF V, of p xs n] p s
      by (auto simp: ret_data_def)
  qed
next
  case (LInsert p x i)
  obtain xs n where l: "l = (xs, n)" by fastforce
  show ?thesis
  proof (cases "i < 0")
    case True
    then show ?thesis using LInsert l p s view_same [OF _ V] list_insert_at_neg [OF True, of h "Some p" x]
      by (auto simp: ret_int_def)
  next
    case False
    then show ?thesis using LInsert l p s list_insert_at_view [OF V, of p xs n i _ x]
      by (auto simp: ret_int_def Let_def)
  qed
next
  case (LGet p i)
  then show ?thesis using list_get_at_view [OF V, of p "fst l" "snd l" i] p s view_same [OF _ V]
    by (cases l) (auto simp: ret_data_def)
next
  case (LClear p)
  then show ?thesis using list_clear_view [OF V, of p "fst l" "snd l"] p s
    by (cases l) auto
qed

lemma lrun_view: "view h V \<Longrightarrow> lspec_run cs V = Some (rs, V') \<Longrightarrow>
    \<exists>h'. lrun cs h = Some (rs, h') \<and> view h' V'"
proof (induction cs arbitrary: h V rs)
  case Nil
  then show ?case by simp
next
  case (Cons c cs)
  obtain l r l' rs' where s: "V (lcmd_list c) = Some l" "lspec c l = (r, l')"
    "lspec_run cs (V(lcmd_list c \<mapsto> l')) = Some (rs', V')" "rs = r # rs'"
    using Cons.prems(2) by (auto split: bind_splits prod.splits simp: Let_def)
  from lexec_view [OF Cons.prems(1) s(1,2)] obtain g where
    g: "lexec c h = Some (r, g)" "view g (V(lcmd_list c \<mapsto> l'))" by blast
  from Cons.IH [OF g(2) s(3)] show ?case using g(1) s(4) by auto
qed

section \<open>A concrete store for the witnesses\<close>

definition demo_heap :: "nat lheap" where
  "demo_heap = snd (new_list (snd (new_list empty_lheap)))"

definition demo_view :: "nat lview" where
  "demo_view = [0 \<mapsto> ([], 0), 1 \<mapsto> ([], 0)]"

lemma demo_heap_view: "view demo_heap demo_view"
  unfolding view_def
proof (intro exI [of _ "[0 \<mapsto> ([], []), 1 \<mapsto> ([], [])]"] conjI)
  show "store_rep demo_heap [0 \<mapsto> ([], []), 1 \<mapsto> ([], [])]"
    by (auto simp: store_rep_def demo_heap_def new_list_def malloc_list_def empty_lheap_def heap_ok_def
        list_rep_def zero_list_def numeral_2_eq_2 split: if_splits)
  show "demo_view = (\<lambda>p. map_option (\<lambda>(as, qs). (datas demo_heap as, length qs))
      ([0 \<mapsto> ([], []), 1 \<mapsto> ([], [])] p))"
    by (auto simp: demo_view_def datas_def)
qed

definition demo_node :: "nat \<Rightarrow> ptr \<Rightarrow> nat item" where
  "demo_node x p = \<lparr>i_next = p, i_data = Some x\<rparr>"

text \<open>Three nodes 2, 3, 4 in list 0, node 5 in list 1.\<close>

definition demo3 :: "nat lheap" where
  "demo3 = \<lparr>items = [2 \<mapsto> demo_node 10 (Some 3), 3 \<mapsto> demo_node 20 (Some 4), 4 \<mapsto> demo_node 30 None,
      5 \<mapsto> demo_node 40 None],
    lists = [0 \<mapsto> \<lparr>l_size = 3, l_pool_size = 0, l_iter_idx = -1, l_iter = SHead 0,
               l_head = Some 2, l_pool = None, l_tail = Some 4\<rparr>,
             1 \<mapsto> \<lparr>l_size = 1, l_pool_size = 0, l_iter_idx = -1, l_iter = SHead 1,
               l_head = Some 5, l_pool = None, l_tail = Some 5\<rparr>], brk = 6\<rparr>"

definition demo3_view :: "nat lview" where
  "demo3_view = [0 \<mapsto> ([Some 10, Some 20, Some 30], 0), 1 \<mapsto> ([Some 40], 0)]"

lemma demo3_rep: "list_rep demo3 0 [2, 3, 4] []" "list_rep demo3 (Suc 0) [5] []"
  by (auto simp: demo3_def list_rep_def nexts_def demo_node_def)

lemma demo3_view: "view demo3 demo3_view"
  unfolding view_def
proof (intro exI [of _ "[0 \<mapsto> ([2, 3, 4], []), 1 \<mapsto> ([5], [])]"] conjI)
  show "store_rep demo3 [0 \<mapsto> ([2, 3, 4], []), 1 \<mapsto> ([5], [])]"
    using demo3_rep by (auto simp: store_rep_def demo3_def heap_ok_def split: if_splits)
  show "demo3_view = (\<lambda>p. map_option (\<lambda>(as, qs). (datas demo3 as, length qs))
      ([0 \<mapsto> ([2, 3, 4], []), 1 \<mapsto> ([5], [])] p))"
    by (auto simp: demo3_view_def datas_def demo3_def demo_node_def)
qed

section \<open>Properties\<close>

text \<open>C9: every program of \<open>list_append\<close>, \<open>list_push\<close>, \<open>list_shift\<close>, \<open>list_insert_at\<close>,
  \<open>list_get_at\<close> and \<open>list_clear\<close> calls on any number of lists runs to its end without touching
  freed or \<open>NULL\<close> memory, returns what the same calls return on sequences, and leaves the lists
  holding exactly those sequences, with every removed node in the pool of its list.\<close>

theorem lists_refine_sequences:
  assumes "view h V" "lspec_run cs V = Some (rs, V')"
  shows "\<exists>h'. lrun cs h = Some (rs, h') \<and> view h' V'"
  using assms by (rule lrun_view)

theorem lists_refine_sequences_witness:
  "\<exists>h'. lrun [LAppend 0 (Some 1), LPush 0 (Some 2), LInsert 0 (Some 3) 1, LPush 1 None, LShift 0, LGet 0 1, LClear 0]
      demo_heap =
    Some ([RInt 0, RInt 2, RInt 1, RInt 1, RData (Some 2), RData (Some 1), RUnit], h') \<and>
    view h' (demo_view(0 \<mapsto> ([], 3), 1 \<mapsto> ([None], 0)))"
  by (rule lists_refine_sequences [OF demo_heap_view])
    (auto simp: demo_view_def fun_eq_iff numeral_3_eq_3)

text \<open>C23: \<open>push\<close> and \<open>pop\<close> on a list form a stack and \<open>list_append\<close> and \<open>pop\<close> a queue, whatever
  other lists exist: pushing \<open>xs\<close> and popping as many returns \<open>rev xs\<close> and restores the contents;
  appending \<open>xs\<close> and popping everything returns the contents in order of arrival.\<close>

theorem stack_and_queue:
  assumes "list_holds V p h ys"
  shows "(\<exists>h1 h2. fold_opt (list_push_elem p) xs h = Some h1 \<and>
      pops (list_pop p) (length xs) h1 = Some (map Some (rev xs), h2) \<and> list_holds V p h2 ys) \<and>
    (\<exists>h1 h2. fold_opt (list_append_elem p) xs h = Some h1 \<and>
      pops (list_pop p) (length ys + length xs) h1 = Some (map Some (ys @ xs), h2) \<and> list_holds V p h2 [])"
  using lst.lifo [OF assms] lsq.fifo [OF assms] by blast

theorem stack_and_queue_witness:
  "\<exists>h1 h2. fold_opt (list_push_elem 1) [1, 2] demo3 = Some h1 \<and>
    pops (list_pop 1) 2 h1 = Some ([Some 2, Some 1], h2) \<and> list_holds demo3_view 1 h2 [40]"
proof -
  have "demo3_view(1 \<mapsto> (map Some [40], 0)) = demo3_view"
    by (simp add: demo3_view_def fun_upd_idem)
  then have "list_holds demo3_view 1 demo3 [40]" using demo3_view by (metis list_holds_def)
  from stack_and_queue [OF this, of "[1, 2]"] show ?thesis by (auto simp: numeral_2_eq_2)
qed

text \<open>C28: \<open>list_remove_at\<close> returns the element at its index, deletes exactly that element from
  the sequence and moves its node to the pool, at every index but the last of a list whose length
  is not 2 (and with the cursor at the head).\<close>

theorem list_remove_at_removes:
  assumes "view h V" "V p = Some (xs, n)" "i < length xs" "Suc i < length xs \<or> length xs = 2"
    "lists h p = Some L" "l_iter L = SHead p"
  shows "\<exists>h'. list_remove_at h (Some p) (int i) = Some (xs ! i, h') \<and>
    view h' (V(p \<mapsto> (take i xs @ drop (Suc i) xs, Suc n)))"
  using assms by (rule list_remove_at_view)

theorem list_remove_at_removes_witness:
  "\<exists>h'. list_remove_at demo3 (Some 0) 1 = Some (Some 20, h') \<and>
    view h' (demo3_view(0 \<mapsto> ([Some 10, Some 30], 1)))"
  using list_remove_at_removes [OF demo3_view, of 0 "[Some 10, Some 20, Some 30]" 0 1]
  by (simp add: demo3_view_def demo3_def)

text \<open>C29: removing the last element of a list of three or more leaves \<open>tail\<close> at the node two
  before the removed one, not at the new last node: \<open>list_get_tail\<close> then returns the payload of
  the wrong element.\<close>

theorem list_remove_at_last_tail:
  assumes "view h V" "V p = Some (xs, n)" "2 < length xs"
    "lists h p = Some L" "l_iter L = SHead p"
  shows "\<exists>h'. list_remove_at h (Some p) (int (length xs) - 1) = Some (last xs, h') \<and>
    list_get_tail h' (Some p) = Some (xs ! (length xs - 3))"
proof -
  from view_list [OF assms(1,2)] obtain as qs where a: "list_rep h p as qs" "datas h as = xs" by blast
  have len: "length as = length xs" using a(2) by (metis length_datas)
  let ?i = "length xs - 1" and ?k = "length xs - 3"
  have dis: "distinct as" using a(1) by (auto simp: list_rep_def dest: lpath_distinct)
  then have kn: "as ! ?k \<noteq> as ! ?i" "?k < length as" "removal_tail as ?i = as ! ?k"
    using len assms(3) by (auto simp: nth_eq_iff_index_eq removal_tail_def numeral_3_eq_3)
  have ii: "?i < length as" "int ?i = int (length xs) - 1" using len assms(3) by auto
  have "xs \<noteq> []" using assms(3) by auto
  then have la: "datas h as ! ?i = last xs" unfolding a(2) by (simp add: last_conv_nth)
  from list_remove_at_eval [OF a(1) view_heap_ok [OF assms(1)] ii(1) assms(4,5)] obtain h' L' where
    r: "list_remove_at h (Some p) (int ?i) = Some (datas h as ! ?i, h')"
    "lists h' = (lists h)(p \<mapsto> L')" "l_tail L' = Some (as ! ?k)"
    "\<forall>a. a \<noteq> as ! ?i \<longrightarrow> map_option i_data (items h' a) = map_option i_data (items h a)"
    using kn(3) by auto
  from list_rep_next [OF a(1) kn(2)] obtain c where c: "items h (as ! ?k) = Some c" "datas h as ! ?k = i_data c"
    by metis
  then obtain c' where "items h' (as ! ?k) = Some c'" "i_data c' = i_data c" using r(4) kn(1) by fastforce
  then show ?thesis using r(1-3) ii la c a(2) by (auto simp: list_get_tail_def)
qed

theorem list_remove_at_last_tail_witness:
  "\<exists>h'. list_remove_at demo3 (Some 0) 2 = Some (Some 30, h') \<and> list_get_tail h' (Some 0) = Some (Some 10)"
  using list_remove_at_last_tail [OF demo3_view, of 0 "[Some 10, Some 20, Some 30]" 0]
  by (simp add: demo3_view_def demo3_def)

text \<open>C30: \<open>list_for_each(tmp, list, start, finish)\<close> on a list without \<open>NULL\<close> payloads runs its
  body on exactly the elements at indices \<open>start\<close> to \<open>finish - 1\<close>, in order, when the cursor is
  usable (fresh, past \<open>start\<close>, or left where an iteration stopped), and changes no list.\<close>

theorem list_for_each_visits:
  assumes "view h V" "V p = Some (map Some ys, n)" "k < length ys" "k \<le> finish"
    "k = 0 \<or> cursor_idx h p < 0 \<or> cursor_idx h p > int k \<or> (\<exists>i. cursor_exact h p i)"
    "fold_opt body (take (finish - k) (drop k ys)) s = Some s'"
  shows "\<exists>h'. list_for_each body h (Some p) (int k) (int finish) s = Some (s', h') \<and> view h' V"
  using assms by (rule list_for_each_view)

theorem list_for_each_visits_witness:
  "\<exists>h'. list_for_each (\<lambda>x s. Some (s @ [x])) demo3 (Some 0) 1 3 [] = Some ([20, 30], h') \<and> view h' demo3_view"
  using list_for_each_visits [OF demo3_view, of 0 "[10, 20, 30]" 0 1 3 "\<lambda>x s. Some (s @ [x])" "[]" "[20, 30]"]
  by (simp add: demo3_view_def cursor_idx_def demo3_def numeral_3_eq_3)

text \<open>C21: \<open>list_transfer\<close> with the cursor of a non-empty \<open>src\<close> at its head appends the whole of \<open>src\<close>
  to \<open>dst\<close> and empties \<open>src\<close>, keeping both pools and every other list. With the cursor behind the first
  \<open>k\<close> elements, \<open>k > 0\<close>, the size of \<open>dst\<close> counts all elements, but its chain ends after \<open>k\<close> of those
  of \<open>src\<close>: the others are lost.\<close>

theorem list_transfer_appends:
  assumes "view h V" "dst \<noteq> src" "V dst = Some (xs, n)" "V src = Some (ys, m)" "ys \<noteq> []" "cursor_slot h src k"
  shows "if k = 0 then \<exists>h'. list_transfer h (Some dst) (Some src) = Some (Some dst, h') \<and>
      view h' (V(dst \<mapsto> (xs @ ys, n), src \<mapsto> ([], m)))
    else \<exists>h' D as. list_transfer h (Some dst) (Some src) = Some (Some dst, h') \<and> lists h' dst = Some D \<and>
      lpath (nexts h') (l_head D) as None \<and> datas h' as = xs @ take k ys \<and>
      l_size D = int (length xs) + int (length ys) \<and> list_size h' (Some src) = Some 0"
proof (cases "k = 0")
  case True
  then obtain S where "lists h src = Some S" "l_iter S = SHead src" using assms(6) by (auto simp: cursor_slot_def)
  then show ?thesis using list_transfer_view [OF assms(1-5)] True by simp
next
  case False
  then show ?thesis using list_transfer_cut [OF assms(1-4) _ assms(6)] by simp
qed

definition demo3_moved :: "nat lheap" where
  "demo3_moved = demo3\<lparr>lists := (lists demo3)(0 \<mapsto> (the (lists demo3 0))\<lparr>l_iter := SNext 2, l_iter_idx := 1\<rparr>)\<rparr>"

lemma demo3_moved: "view demo3_moved demo3_view" "cursor_slot demo3_moved 0 1"
proof -
  obtain L where L: "lists demo3 0 = Some L" by (auto simp: demo3_def)
  have e: "demo3_moved = demo3\<lparr>lists := (lists demo3)(0 \<mapsto> L\<lparr>l_iter := SNext 2, l_iter_idx := 1\<rparr>)\<rparr>"
    using L by (simp add: demo3_moved_def)
  show "view demo3_moved demo3_view" unfolding e by (rule cursor_view [OF demo3_view L])
  have "list_rep demo3_moved 0 [2, 3, 4] []" unfolding e by (rule list_rep_cursor [OF demo3_rep(1) L])
  then show "cursor_slot demo3_moved 0 1" unfolding cursor_slot_def by (auto simp: e)
qed

theorem list_transfer_appends_witness:
  "(\<exists>h'. list_transfer demo3 (Some 1) (Some 0) = Some (Some 1, h') \<and>
    view h' (demo3_view(1 \<mapsto> ([Some 40, Some 10, Some 20, Some 30], 0), 0 \<mapsto> ([], 0)))) \<and>
  (\<exists>h' D as. list_transfer demo3_moved (Some 1) (Some 0) = Some (Some 1, h') \<and> lists h' 1 = Some D \<and>
    lpath (nexts h') (l_head D) as None \<and> datas h' as = [Some 40, Some 10] \<and> l_size D = 4)"
proof
  have "cursor_slot demo3 0 0" using demo3_rep(1) by (auto simp: cursor_slot_def demo3_def)
  from list_transfer_appends [OF demo3_view _ _ _ _ this, of 1 "[Some 40]" 0 "[Some 10, Some 20, Some 30]" 0]
  show "\<exists>h'. list_transfer demo3 (Some 1) (Some 0) = Some (Some 1, h') \<and>
    view h' (demo3_view(1 \<mapsto> ([Some 40, Some 10, Some 20, Some 30], 0), 0 \<mapsto> ([], 0)))" by (simp add: demo3_view_def)
next
  have e: "[Some 40] @ take 1 [Some 10, Some 20, Some 30] = [Some (40 :: nat), Some 10]" by simp
  have v: "demo3_view 1 = Some ([Some 40], 0)" "demo3_view 0 = Some ([Some 10, Some 20, Some 30], 0)"
    by (simp_all add: demo3_view_def)
  from list_transfer_appends [OF demo3_moved(1) _ v _ demo3_moved(2)]
  show "\<exists>h' D as. list_transfer demo3_moved (Some 1) (Some 0) = Some (Some 1, h') \<and> lists h' 1 = Some D \<and>
    lpath (nexts h') (l_head D) as None \<and> datas h' as = [Some 40, Some 10] \<and> l_size D = 4"
    unfolding e by simp blast
qed

text \<open>C22: \<open>list_chop\<close> cuts the first \<open>sz\<close> elements off into a new list (all of them when there are
  fewer) and leaves the rest in the old one.\<close>

theorem list_chop_splits:
  assumes "view h V" "V p = Some (xs, n)" "xs \<noteq> []" "0 < k"
  shows "\<exists>h'. list_chop h (Some p) (int k) = Some (Some (brk h), h') \<and>
    view h' (V(p \<mapsto> (drop k xs, n), brk h \<mapsto> (take k xs, 0)))"
  using assms by (rule list_chop_view)

theorem list_chop_splits_witness:
  "\<exists>h'. list_chop demo3 (Some 0) 2 = Some (Some 6, h') \<and>
    view h' (demo3_view(0 \<mapsto> ([Some 30], 0), 6 \<mapsto> ([Some 10, Some 20], 0)))"
  using list_chop_splits [OF demo3_view, of 0 "[Some 10, Some 20, Some 30]" 0 2]
  by (simp add: demo3_view_def demo3_def numeral_2_eq_2)

text \<open>C31: \<open>list_reverse\<close> on a chain of nodes returns the last node and reverses every link, so
  that the chain read from it is the old one backwards; payloads, list headers and nodes outside
  the chain are untouched.\<close>

theorem list_reverse_reverses:
  assumes "lpath (nexts h) p as None"
  shows "\<exists>p' h'. list_reverse h p = Some (p', h') \<and> lpath (nexts h') p' (rev as) None \<and>
    datas h' (rev as) = rev (datas h as) \<and> lists h' = lists h \<and>
    (\<forall>b. b \<notin> set as \<longrightarrow> items h' b = items h b)"
  using assms by (rule list_reverse_rep)

theorem list_reverse_reverses_witness:
  "\<exists>p' h'. list_reverse demo3 (Some 2) = Some (p', h') \<and> lpath (nexts h') p' [4, 3, 2] None"
  using list_reverse_reverses [of demo3 "Some 2" "[2, 3, 4]"]
  by (auto simp: demo3_def nexts_def demo_node_def)

end
