(* ===== verification/Rbtree.thy ===== *)
theory Rbtree
  imports Prelude
begin

text \<open>
  Red-black trees: \<open>src/rbtree.c\<close> and \<open>src/rbtree.h\<close>.

  The heap holds nodes with left, right and parent pointers and control blocks; a node
  points back to its control block, through which the rotations rewrite the root. Cleared
  nodes stay linked as a second tree, the pool, from which new nodes are taken. Colours are
  the C enumeration (\<open>RED\<close> is 0, the value \<open>calloc\<close> leaves). A \<open>None\<close> result is a \<open>NULL\<close>
  or dangling dereference or a loop that does not end.
\<close>

section \<open>The heap\<close>

datatype color = RED | BLACK

record 'd rbnode =
  rb_ctrl :: ptr
  rb_key :: int
  rb_left :: ptr
  rb_right :: ptr
  rb_parent :: ptr
  rb_data :: "'d option"
  rb_color :: color

record rbctrl =
  rc_count :: int
  rc_root :: ptr
  rc_pool_root :: ptr
  rc_pool_ptr :: ptr

record 'd rbheap =
  rnodes :: "addr \<Rightarrow> 'd rbnode option"
  rctrls :: "addr \<Rightarrow> rbctrl option"
  rbrk :: addr

definition rget :: "'d rbheap \<Rightarrow> ptr \<Rightarrow> 'd rbnode option" where
  "rget h p = deref (rnodes h) p"

definition rset :: "'d rbheap \<Rightarrow> ptr \<Rightarrow> ('d rbnode \<Rightarrow> 'd rbnode) \<Rightarrow> 'd rbheap option" where
  "rset h p f = do { a \<leftarrow> p; n \<leftarrow> rnodes h a; Some (h\<lparr>rnodes := (rnodes h)(a \<mapsto> f n)\<rparr>) }"

definition cget :: "'d rbheap \<Rightarrow> ptr \<Rightarrow> rbctrl option" where
  "cget h t = deref (rctrls h) t"

definition cset :: "'d rbheap \<Rightarrow> ptr \<Rightarrow> (rbctrl \<Rightarrow> rbctrl) \<Rightarrow> 'd rbheap option" where
  "cset h t f = do { a \<leftarrow> t; c \<leftarrow> rctrls h a; Some (h\<lparr>rctrls := (rctrls h)(a \<mapsto> f c)\<rparr>) }"

definition rfree :: "'d rbheap \<Rightarrow> ptr \<Rightarrow> 'd rbheap option" where
  "rfree h p = do { a \<leftarrow> p; _ \<leftarrow> rnodes h a; Some (h\<lparr>rnodes := (rnodes h)(a := None)\<rparr>) }"

definition rmalloc :: "'d rbheap \<Rightarrow> ptr \<times> 'd rbheap" where
  "rmalloc h = (Some (rbrk h), h\<lparr>rnodes := (rnodes h)(rbrk h \<mapsto>
     \<lparr>rb_ctrl = None, rb_key = 0, rb_left = None, rb_right = None, rb_parent = None, rb_data = None,
      rb_color = RED\<rparr>), rbrk := Suc (rbrk h)\<rparr>)"

definition new_rbtree :: "'d rbheap \<Rightarrow> ptr \<times> 'd rbheap" where
  "new_rbtree h = (Some (rbrk h), h\<lparr>rctrls := (rctrls h)(rbrk h \<mapsto>
     \<lparr>rc_count = 0, rc_root = None, rc_pool_root = None, rc_pool_ptr = None\<rparr>), rbrk := Suc (rbrk h)\<rparr>)"

definition rbtree_node_count :: "'d rbheap \<Rightarrow> ptr \<Rightarrow> int option" where
  "rbtree_node_count h t = (if t = None then Some 0 else do { c \<leftarrow> cget h t; Some (rc_count c) })"

section \<open>Navigation\<close>

partial_function (option) rbtree_search :: "'d rbheap \<Rightarrow> ptr \<Rightarrow> int \<Rightarrow> ptr option" where [code]:
  "rbtree_search h t key = (case t of None \<Rightarrow> Some None | Some a \<Rightarrow> do {
     n \<leftarrow> rnodes h a;
     (if rb_key n \<noteq> key then
        (if key < rb_key n then rbtree_search h (rb_left n) key else rbtree_search h (rb_right n) key)
      else Some t) })"

partial_function (option) rbtree_min :: "'d rbheap \<Rightarrow> ptr \<Rightarrow> ptr option" where [code]:
  "rbtree_min h t = (case t of None \<Rightarrow> Some None | Some a \<Rightarrow> do {
     n \<leftarrow> rnodes h a;
     (if rb_left n \<noteq> None then rbtree_min h (rb_left n) else Some t) })"

partial_function (option) rbtree_max :: "'d rbheap \<Rightarrow> ptr \<Rightarrow> ptr option" where [code]:
  "rbtree_max h t = (case t of None \<Rightarrow> Some None | Some a \<Rightarrow> do {
     n \<leftarrow> rnodes h a;
     (if rb_right n \<noteq> None then rbtree_max h (rb_right n) else Some t) })"

partial_function (option) pred_climb :: "'d rbheap \<Rightarrow> ptr \<Rightarrow> ptr \<Rightarrow> ptr option" where [code]:
  "pred_climb h t ret = (case ret of None \<Rightarrow> Some None | Some a \<Rightarrow> do {
     n \<leftarrow> rnodes h a;
     (if t \<noteq> rb_right n then pred_climb h ret (rb_parent n) else Some ret) })"

definition rbtree_predecessor :: "'d rbheap \<Rightarrow> ptr \<Rightarrow> ptr option" where
  "rbtree_predecessor h t = (if t = None then Some None else do {
     n \<leftarrow> rget h t;
     (if rb_left n \<noteq> None then rbtree_max h (rb_left n)
      else if rb_parent n = None then Some None
      else do {
        p \<leftarrow> rget h (rb_parent n);
        (if t = rb_left p then pred_climb h t (rb_parent n) else Some (rb_parent n)) }) })"

partial_function (option) succ_climb :: "'d rbheap \<Rightarrow> ptr \<Rightarrow> ptr \<Rightarrow> ptr option" where [code]:
  "succ_climb h t ret = (case ret of None \<Rightarrow> Some None | Some a \<Rightarrow> do {
     n \<leftarrow> rnodes h a;
     (if t = rb_right n then succ_climb h ret (rb_parent n) else Some ret) })"

definition rbtree_successor :: "'d rbheap \<Rightarrow> ptr \<Rightarrow> ptr option" where
  "rbtree_successor h t = (if t = None then Some None else do {
     n \<leftarrow> rget h t;
     (if rb_right n \<noteq> None then rbtree_min h (rb_right n) else succ_climb h t (rb_parent n)) })"

section \<open>The pool of cleared nodes\<close>

partial_function (option) reset_right :: "'d rbheap \<Rightarrow> ptr \<Rightarrow> ptr option" where [code]:
  "reset_right h p = (case p of None \<Rightarrow> Some None | Some a \<Rightarrow> do {
     n \<leftarrow> rnodes h a;
     (if rb_left n = None \<and> rb_right n \<noteq> None then reset_right h (rb_right n) else Some p) })"

text \<open>The second loop of \<open>reset_pool_ptr\<close> is the loop of \<open>rbtree_min\<close>.\<close>

definition reset_pool_ptr :: "'d rbheap \<Rightarrow> ptr \<Rightarrow> ptr option" where
  "reset_pool_ptr h p = do { p \<leftarrow> reset_right h p; rbtree_min h p }"

definition rbtree_clear :: "'d rbheap \<Rightarrow> ptr \<Rightarrow> 'd rbheap option" where
  "rbtree_clear h t = (if t = None then Some h else do {
     c \<leftarrow> cget h t;
     (if rc_root c = None then Some h else do {
        h \<leftarrow> (if rc_pool_root c = None then cset h t (rc_pool_root_update (\<lambda>_. rc_root c))
              else do {
                h \<leftarrow> rset h (rc_pool_ptr c) (rb_left_update (\<lambda>_. rc_root c));
                rset h (rc_root c) (rb_parent_update (\<lambda>_. rc_pool_ptr c)) });
        m \<leftarrow> rbtree_min h (rc_root c);
        m \<leftarrow> reset_pool_ptr h m;
        cset h t (\<lambda>c. c\<lparr>rc_pool_ptr := m, rc_count := 0, rc_root := None\<rparr>) }) })"

definition pool_take :: "'d rbheap \<Rightarrow> ptr \<Rightarrow> ptr \<Rightarrow> 'd rbheap option" where
  "pool_take h tree p = do {
     n \<leftarrow> rget h p;
     (if rb_parent n = None then do {
        h \<leftarrow> cset h tree (\<lambda>c. c\<lparr>rc_pool_ptr := rb_right n, rc_pool_root := rb_right n\<rparr>);
        (if rb_right n \<noteq> None then do {
           h \<leftarrow> rset h (rb_right n) (rb_parent_update (\<lambda>_. None));
           q \<leftarrow> reset_pool_ptr h (rb_right n);
           cset h tree (rc_pool_ptr_update (\<lambda>_. q)) }
         else Some h) }
      else do {
        par \<leftarrow> rget h (rb_parent n);
        (if p = rb_left par then do {
           h \<leftarrow> rset h (rb_parent n) (rb_left_update (\<lambda>_. None));
           h \<leftarrow> cset h tree (rc_pool_ptr_update (\<lambda>_. rb_parent n));
           (if rb_right par \<noteq> None then do {
              q \<leftarrow> reset_pool_ptr h (rb_right par);
              cset h tree (rc_pool_ptr_update (\<lambda>_. q)) }
            else Some h) }
         else do {
           h \<leftarrow> rset h (rb_parent n) (rb_right_update (\<lambda>_. None));
           cset h tree (rc_pool_ptr_update (\<lambda>_. rb_parent n)) }) }) }"

definition new_rbtree_node ::
    "'d rbheap \<Rightarrow> ptr \<Rightarrow> int \<Rightarrow> 'd option \<Rightarrow> bool \<Rightarrow> (ptr \<times> 'd rbheap) option" where
  "new_rbtree_node h tree key data reuse_data = do {
     c \<leftarrow> cget h tree;
     (tn, h) \<leftarrow> (if rc_pool_ptr c \<noteq> None
                 then do { h \<leftarrow> pool_take h tree (rc_pool_ptr c); Some (rc_pool_ptr c, h) }
                 else Some (rmalloc h));
     h \<leftarrow> (if \<not> reuse_data then rset h tn (rb_data_update (\<lambda>_. data)) else Some h);
     h \<leftarrow> rset h tn (\<lambda>n. n\<lparr>rb_ctrl := tree, rb_key := key, rb_left := None, rb_right := None,
            rb_parent := None\<rparr>);
     Some (tn, h) }"

section \<open>Rotations and the insertion fix-up\<close>

definition replace_child :: "'d rbheap \<Rightarrow> ptr \<Rightarrow> ptr \<Rightarrow> ptr \<Rightarrow> bool \<Rightarrow> 'd rbheap option" where
  "replace_child h par t tmp left_first = do {
     n \<leftarrow> rget h par;
     (if left_first then
        (if t = rb_left n then rset h par (rb_left_update (\<lambda>_. tmp))
         else rset h par (rb_right_update (\<lambda>_. tmp)))
      else
        (if t = rb_right n then rset h par (rb_right_update (\<lambda>_. tmp))
         else rset h par (rb_left_update (\<lambda>_. tmp)))) }"

definition left_rotate :: "'d rbheap \<Rightarrow> ptr \<Rightarrow> 'd rbheap option" where
  "left_rotate h t = (if t = None then Some h else do {
     n \<leftarrow> rget h t;
     let tmp = rb_right n;
     m \<leftarrow> rget h tmp;
     h \<leftarrow> rset h t (rb_right_update (\<lambda>_. rb_left m));
     m \<leftarrow> rget h tmp;
     h \<leftarrow> (if rb_left m \<noteq> None then rset h (rb_left m) (rb_parent_update (\<lambda>_. t)) else Some h);
     n \<leftarrow> rget h t;
     h \<leftarrow> (if rb_parent n \<noteq> None then replace_child h (rb_parent n) t tmp True
           else cset h (rb_ctrl n) (rc_root_update (\<lambda>_. tmp)));
     n \<leftarrow> rget h t;
     h \<leftarrow> rset h tmp (rb_parent_update (\<lambda>_. rb_parent n));
     h \<leftarrow> rset h tmp (rb_left_update (\<lambda>_. t));
     rset h t (rb_parent_update (\<lambda>_. tmp)) })"

definition right_rotate :: "'d rbheap \<Rightarrow> ptr \<Rightarrow> 'd rbheap option" where
  "right_rotate h t = (if t = None then Some h else do {
     n \<leftarrow> rget h t;
     let tmp = rb_left n;
     m \<leftarrow> rget h tmp;
     h \<leftarrow> rset h t (rb_left_update (\<lambda>_. rb_right m));
     m \<leftarrow> rget h tmp;
     h \<leftarrow> (if rb_right m \<noteq> None then rset h (rb_right m) (rb_parent_update (\<lambda>_. t)) else Some h);
     n \<leftarrow> rget h t;
     h \<leftarrow> (if rb_parent n \<noteq> None then replace_child h (rb_parent n) t tmp False
           else cset h (rb_ctrl n) (rc_root_update (\<lambda>_. tmp)));
     n \<leftarrow> rget h t;
     h \<leftarrow> rset h tmp (rb_parent_update (\<lambda>_. rb_parent n));
     h \<leftarrow> rset h tmp (rb_right_update (\<lambda>_. t));
     rset h t (rb_parent_update (\<lambda>_. tmp)) })"

definition paint :: "'d rbheap \<Rightarrow> ptr \<Rightarrow> color \<Rightarrow> 'd rbheap option" where
  "paint h p c = rset h p (rb_color_update (\<lambda>_. c))"

text \<open>One pass of the loop body: the new \<open>child\<close> and \<open>parent\<close>.\<close>

definition fixup_body :: "'d rbheap \<Rightarrow> ptr \<Rightarrow> ptr \<Rightarrow> (ptr \<times> ptr \<times> 'd rbheap) option" where
  "fixup_body h child parent = do {
     pn \<leftarrow> rget h parent;
     let gparent = rb_parent pn;
     g \<leftarrow> rget h gparent;
     (if parent = rb_left g then do {
        let uncle = rb_right g;
        red \<leftarrow> (if uncle = None then Some False else do { u \<leftarrow> rget h uncle; Some (rb_color u = RED) });
        (if red then do {
           h \<leftarrow> paint h parent BLACK;
           h \<leftarrow> paint h uncle BLACK;
           h \<leftarrow> paint h gparent RED;
           g \<leftarrow> rget h gparent;
           Some (gparent, rb_parent g, h) }
         else do {
           (child, parent, gparent, h) \<leftarrow> (if child = rb_right pn then do {
                let child = parent;
                h \<leftarrow> left_rotate h child;
                c \<leftarrow> rget h child;
                p \<leftarrow> rget h (rb_parent c);
                Some (child, rb_parent c, rb_parent p, h) }
              else Some (child, parent, gparent, h));
           h \<leftarrow> paint h parent BLACK;
           h \<leftarrow> paint h gparent RED;
           h \<leftarrow> right_rotate h gparent;
           Some (child, parent, h) }) }
      else do {
        let uncle = rb_left g;
        red \<leftarrow> (if uncle = None then Some False else do { u \<leftarrow> rget h uncle; Some (rb_color u = RED) });
        (if red then do {
           h \<leftarrow> paint h parent BLACK;
           h \<leftarrow> paint h uncle BLACK;
           h \<leftarrow> paint h gparent RED;
           g \<leftarrow> rget h gparent;
           Some (gparent, rb_parent g, h) }
         else do {
           (child, parent, gparent, h) \<leftarrow> (if child = rb_left pn then do {
                let child = parent;
                h \<leftarrow> right_rotate h child;
                c \<leftarrow> rget h child;
                p \<leftarrow> rget h (rb_parent c);
                Some (child, rb_parent c, rb_parent p, h) }
              else Some (child, parent, gparent, h));
           h \<leftarrow> paint h parent BLACK;
           h \<leftarrow> paint h gparent RED;
           h \<leftarrow> left_rotate h gparent;
           Some (child, parent, h) }) }) }"

partial_function (option) fixup_loop :: "'d rbheap \<Rightarrow> ptr \<Rightarrow> ptr \<Rightarrow> (ptr \<times> ptr \<times> 'd rbheap) option" where [code]:
  "fixup_loop h child parent = (case parent of None \<Rightarrow> Some (child, parent, h) | Some a \<Rightarrow> do {
     pn \<leftarrow> rnodes h a;
     (if rb_color pn = RED then do {
        (child, parent, h) \<leftarrow> fixup_body h child parent;
        fixup_loop h child parent }
      else Some (child, parent, h)) })"

definition rbtree_fixup :: "'d rbheap \<Rightarrow> ptr \<Rightarrow> 'd rbheap option" where
  "rbtree_fixup h t = do {
     n \<leftarrow> rget h t;
     (child, parent, h) \<leftarrow> fixup_loop h t (rb_parent n);
     (if parent = None then do {
        n \<leftarrow> rget h t;
        h \<leftarrow> cset h (rb_ctrl n) (rc_root_update (\<lambda>_. child));
        paint h child BLACK }
      else Some h) }"

section \<open>Insertion\<close>

text \<open>The two insertions walk with opposite comparisons; \<open>goright\<close> is the test.\<close>

partial_function (option) insert_walk ::
    "(int \<Rightarrow> int \<Rightarrow> bool) \<Rightarrow> 'd rbheap \<Rightarrow> int \<Rightarrow> ptr \<Rightarrow> ptr \<Rightarrow> ptr option" where [code]:
  "insert_walk goright h key walker prev = (case walker of None \<Rightarrow> Some prev | Some a \<Rightarrow> do {
     n \<leftarrow> rnodes h a;
     (if goright (rb_key n) key then insert_walk goright h key (rb_right n) walker
      else insert_walk goright h key (rb_left n) walker) })"

definition insert_node :: "(int \<Rightarrow> int \<Rightarrow> bool) \<Rightarrow> 'd rbheap \<Rightarrow> ptr \<Rightarrow> int \<Rightarrow> 'd option \<Rightarrow> bool \<Rightarrow>
    (ptr \<times> 'd rbheap) option" where
  "insert_node goright h t key data reuse_data = do {
     (new, h) \<leftarrow> new_rbtree_node h t key data reuse_data;
     c \<leftarrow> cget h t;
     prev \<leftarrow> insert_walk goright h key (rc_root c) None;
     h \<leftarrow> rset h new (rb_parent_update (\<lambda>_. prev));
     (if prev = None then do {
        h \<leftarrow> cset h t (rc_root_update (\<lambda>_. new));
        h \<leftarrow> paint h new BLACK;
        Some (new, h) }
      else do {
        p \<leftarrow> rget h prev;
        h \<leftarrow> (if goright (rb_key p) key then rset h prev (rb_right_update (\<lambda>_. new))
              else rset h prev (rb_left_update (\<lambda>_. new)));
        h \<leftarrow> paint h new RED;
        h \<leftarrow> rbtree_fixup h new;
        Some (new, h) }) }"

definition rbtree_insert ::
    "'d rbheap \<Rightarrow> ptr \<Rightarrow> int \<Rightarrow> 'd option \<Rightarrow> bool \<Rightarrow> (ptr \<times> 'd rbheap) option" where
  "rbtree_insert h t key data reuse_data = (if t = None then Some (None, h) else do {
     h \<leftarrow> cset h t (\<lambda>c. c\<lparr>rc_count := rc_count c + 1\<rparr>);
     insert_node (\<lambda>k key. k < key) h t key data reuse_data })"

definition rbtree_insert_reverse ::
    "'d rbheap \<Rightarrow> ptr \<Rightarrow> int \<Rightarrow> 'd option \<Rightarrow> bool \<Rightarrow> (ptr \<times> 'd rbheap) option" where
  "rbtree_insert_reverse h t key data reuse_data = (if t = None then Some (None, h)
     else insert_node (\<lambda>k key. k > key) h t key data reuse_data)"

section \<open>Freeing\<close>

text \<open>Freeing a payload is recorded: \<open>freed\<close> lists the payloads handed to \<open>free_data\<close>
  (\<open>free\<close> for the pool), in order.\<close>

definition drop_node :: "'d rbheap \<Rightarrow> ptr \<Rightarrow> bool \<Rightarrow> 'd option list \<Rightarrow> ('d option list \<times> 'd rbheap) option" where
  "drop_node h p fd freed = do {
     n \<leftarrow> rget h p;
     h \<leftarrow> rfree h p;
     Some (if fd then freed @ [rb_data n] else freed, h) }"

partial_function (option) free_pool_loop ::
    "'d rbheap \<Rightarrow> ptr \<Rightarrow> bool \<Rightarrow> 'd option list \<Rightarrow> ('d option list \<times> 'd rbheap) option" where [code]:
  "free_pool_loop h p fd freed = (if p = None then Some (freed, h) else do {
     n \<leftarrow> rget h p;
     (if rb_parent n = None then do {
        q \<leftarrow> reset_pool_ptr h (rb_right n);
        free_pool_loop h q fd freed }
      else do {
        par \<leftarrow> rget h (rb_parent n);
        (if p = rb_left par then do {
           (freed, h) \<leftarrow> drop_node h p fd freed;
           h \<leftarrow> rset h (rb_parent n) (rb_left_update (\<lambda>_. None));
           q \<leftarrow> (if rb_right par \<noteq> None then reset_pool_ptr h (rb_right par) else Some (rb_parent n));
           free_pool_loop h q fd freed }
         else do {
           (freed, h) \<leftarrow> drop_node h p fd freed;
           h \<leftarrow> rset h (rb_parent n) (rb_right_update (\<lambda>_. None));
           free_pool_loop h (rb_parent n) fd freed }) }) })"

definition rbtree_free_pool ::
    "'d rbheap \<Rightarrow> ptr \<Rightarrow> bool \<Rightarrow> 'd option list \<Rightarrow> ('d option list \<times> 'd rbheap) option" where
  "rbtree_free_pool h t fd freed = (if t = None then Some (freed, h) else do {
     c \<leftarrow> cget h t;
     (if rc_pool_root c = None then Some (freed, h) else do {
        (freed, h) \<leftarrow> free_pool_loop h (rc_pool_ptr c) fd freed;
        drop_node h (rc_pool_root c) fd freed }) })"

text \<open>The traversal of \<open>rbtree_free\<close>: leaves are freed on the way up; the root is kept for
  last.\<close>

partial_function (option) free_tree_loop ::
    "'d rbheap \<Rightarrow> ptr \<Rightarrow> ptr \<Rightarrow> bool \<Rightarrow> 'd option list \<Rightarrow> ('d option list \<times> 'd rbheap) option" where [code]:
  "free_tree_loop h root cur fd freed = (if cur = None then Some (freed, h) else do {
     r \<leftarrow> rget h root;
     (if cur = root \<and> rb_right r = None then Some (freed, h) else do {
        cur \<leftarrow> (if cur = root then rbtree_min h (rb_right r) else Some cur);
        n \<leftarrow> rget h cur;
        (if rb_left n = None \<and> rb_right n = None then do {
           h \<leftarrow> (if rb_parent n \<noteq> None then do {
                   p \<leftarrow> rget h (rb_parent n);
                   (if cur = rb_left p then rset h (rb_parent n) (rb_left_update (\<lambda>_. None))
                    else rset h (rb_parent n) (rb_right_update (\<lambda>_. None))) }
                 else Some h);
           (freed, h) \<leftarrow> drop_node h cur fd freed;
           free_tree_loop h root (rb_parent n) fd freed }
         else if rb_right n \<noteq> None then do {
           q \<leftarrow> rbtree_min h (rb_right n);
           free_tree_loop h root q fd freed }
         else free_tree_loop h root cur fd freed) }) })"

definition rbtree_free :: "'d rbheap \<Rightarrow> ptr \<Rightarrow> bool \<Rightarrow> ('d option list \<times> 'd rbheap) option" where
  "rbtree_free h t fd = (case t of None \<Rightarrow> Some ([], h) | Some a \<Rightarrow> do {
     c \<leftarrow> rctrls h a;
     (freed, h) \<leftarrow> (if rc_root c \<noteq> None then do {
          cur \<leftarrow> rbtree_min h (rc_root c);
          r \<leftarrow> rget h (rc_root c);
          cur \<leftarrow> (if cur = rc_root c then rbtree_min h (rb_right r) else Some cur);
          (freed, h) \<leftarrow> free_tree_loop h (rc_root c) cur fd [];
          (freed, h) \<leftarrow> drop_node h (rc_root c) fd freed;
          h \<leftarrow> cset h t (rc_root_update (\<lambda>_. None));
          Some (freed, h) }
        else Some ([], h));
     c \<leftarrow> rctrls h a;
     q \<leftarrow> reset_pool_ptr h (rc_pool_ptr c);
     h \<leftarrow> cset h t (rc_pool_ptr_update (\<lambda>_. q));
     (freed, h) \<leftarrow> rbtree_free_pool h t fd freed;
     Some (freed, h\<lparr>rctrls := (rctrls h)(a := None)\<rparr>) })"

section \<open>Removal\<close>

definition rbtree_transplant :: "'d rbheap \<Rightarrow> ptr \<Rightarrow> ptr \<Rightarrow> 'd rbheap option" where
  "rbtree_transplant h u v = do {
     h \<leftarrow> (if u \<noteq> None then do {
             n \<leftarrow> rget h u;
             (if rb_parent n = None then cset h (rb_ctrl n) (rc_root_update (\<lambda>_. v))
              else do {
                p \<leftarrow> rget h (rb_parent n);
                (if u = rb_left p then rset h (rb_parent n) (rb_left_update (\<lambda>_. v))
                 else rset h (rb_parent n) (rb_right_update (\<lambda>_. v))) }) }
           else Some h);
     (if v \<noteq> None then do {
        q \<leftarrow> (if u = None then Some None else do { n \<leftarrow> rget h u; Some (rb_parent n) });
        rset h v (rb_parent_update (\<lambda>_. q)) }
      else Some h) }"

definition color_of :: "'d rbheap \<Rightarrow> ptr \<Rightarrow> color option" where
  "color_of h p = do { n \<leftarrow> rget h p; Some (rb_color n) }"

partial_function (option) remove_fixup_loop :: "'d rbheap \<Rightarrow> ptr \<Rightarrow> ptr \<Rightarrow> 'd rbheap option" where [code]:
  "remove_fixup_loop h root t = (if t = root then Some h else do {
     n \<leftarrow> rget h t;
     (if rb_color n \<noteq> BLACK then Some h else do {
        let pp = rb_parent n;
        p \<leftarrow> rget h pp;
        (if t = rb_left p then do {
           c \<leftarrow> color_of h (rb_right p);
           h \<leftarrow> (if c = RED then do {
                   h \<leftarrow> paint h (rb_right p) BLACK;
                   h \<leftarrow> paint h pp RED;
                   left_rotate h pp }
                 else Some h);
           n \<leftarrow> rget h t;
           let pp = rb_parent n;
           p \<leftarrow> rget h pp;
           let tmp = rb_right p;
           s \<leftarrow> rget h tmp;
           cl \<leftarrow> color_of h (rb_left s);
           near \<leftarrow> (if cl = RED then do { cr \<leftarrow> color_of h (rb_right s); Some (cr = BLACK) } else Some False);
           (if near then do { h \<leftarrow> paint h tmp RED; remove_fixup_loop h root pp }
            else do {
              cr \<leftarrow> color_of h (rb_right s);
              (if cr = BLACK then do {
                 h \<leftarrow> paint h (rb_left s) BLACK;
                 h \<leftarrow> paint h tmp RED;
                 h \<leftarrow> right_rotate h tmp;
                 n \<leftarrow> rget h t;
                 p \<leftarrow> rget h (rb_parent n);
                 let tmp = rb_right p;
                 h \<leftarrow> paint h tmp (rb_color p);
                 h \<leftarrow> paint h (rb_parent n) BLACK;
                 s \<leftarrow> rget h tmp;
                 h \<leftarrow> paint h (rb_right s) BLACK;
                 h \<leftarrow> left_rotate h (rb_parent n);
                 n \<leftarrow> rget h t;
                 c \<leftarrow> cget h (rb_ctrl n);
                 remove_fixup_loop h root (rc_root c) }
               else remove_fixup_loop h root t) }) }
         else do {
           c \<leftarrow> color_of h (rb_left p);
           h \<leftarrow> (if c = RED then do {
                   h \<leftarrow> paint h (rb_left p) BLACK;
                   h \<leftarrow> paint h pp RED;
                   left_rotate h pp }
                 else Some h);
           n \<leftarrow> rget h t;
           let pp = rb_parent n;
           p \<leftarrow> rget h pp;
           let tmp = rb_left p;
           s \<leftarrow> rget h tmp;
           cr \<leftarrow> color_of h (rb_right s);
           near \<leftarrow> (if cr = RED then do { cl \<leftarrow> color_of h (rb_left s); Some (cl = BLACK) } else Some False);
           (if near then do { h \<leftarrow> paint h tmp RED; remove_fixup_loop h root pp }
            else do {
              cl \<leftarrow> color_of h (rb_left s);
              (if cl = BLACK then do {
                 h \<leftarrow> paint h (rb_right s) BLACK;
                 h \<leftarrow> paint h tmp RED;
                 h \<leftarrow> right_rotate h tmp;
                 n \<leftarrow> rget h t;
                 p \<leftarrow> rget h (rb_parent n);
                 let tmp = rb_left p;
                 h \<leftarrow> paint h tmp (rb_color p);
                 h \<leftarrow> paint h (rb_parent n) BLACK;
                 s \<leftarrow> rget h tmp;
                 h \<leftarrow> paint h (rb_left s) BLACK;
                 h \<leftarrow> left_rotate h (rb_parent n);
                 n \<leftarrow> rget h t;
                 c \<leftarrow> cget h (rb_ctrl n);
                 remove_fixup_loop h root (rc_root c) }
               else remove_fixup_loop h root t) }) }) }) })"

definition rbtree_remove_fixup :: "'d rbheap \<Rightarrow> ptr \<Rightarrow> 'd rbheap option" where
  "rbtree_remove_fixup h t = (if t = None then Some h else do {
     n \<leftarrow> rget h t;
     c \<leftarrow> cget h (rb_ctrl n);
     remove_fixup_loop h (rc_root c) t })"

definition rbtree_remove :: "'d rbheap \<Rightarrow> ptr \<Rightarrow> 'd rbheap option" where
  "rbtree_remove h t = (if t = None then Some h else do {
     n \<leftarrow> rget h t;
     (orig_color, tmp2, h) \<leftarrow>
       (if rb_left n = None then do {
          h \<leftarrow> rbtree_transplant h t (rb_right n);
          Some (rb_color n, rb_right n, h) }
        else if rb_right n = None then do {
          h \<leftarrow> rbtree_transplant h t (rb_left n);
          Some (rb_color n, rb_left n, h) }
        else do {
          tmp \<leftarrow> rbtree_min h (rb_right n);
          m \<leftarrow> rget h tmp;
          let tmp2 = rb_right m;
          h \<leftarrow> (if rb_parent m = t then
                  (if tmp2 \<noteq> None then rset h tmp2 (rb_parent_update (\<lambda>_. tmp)) else Some h)
                else do {
                  h \<leftarrow> rbtree_transplant h tmp tmp2;
                  h \<leftarrow> rset h tmp (rb_right_update (\<lambda>_. rb_right n));
                  rset h (rb_right n) (rb_parent_update (\<lambda>_. tmp)) });
          h \<leftarrow> rbtree_transplant h t tmp;
          h \<leftarrow> rset h tmp (rb_left_update (\<lambda>_. rb_left n));
          h \<leftarrow> rset h (rb_left n) (rb_parent_update (\<lambda>_. tmp));
          h \<leftarrow> paint h tmp (rb_color n);
          Some (rb_color m, tmp2, h) });
     (if orig_color = BLACK then rbtree_remove_fixup h tmp2 else Some h) })"

end
