(* ===== verification/RbtreeRep.thy ===== *)
theory RbtreeRep
  imports Rbtree
begin

text \<open>
  The abstraction of \<open>Rbtree\<close>: trees whose nodes carry their address, and a zipper (a list of
  frames, innermost first) for the position of a node, since the code walks up through
  parent pointers. \<open>tree\<close> and \<open>ctxt\<close> say that the heap holds a tree, or the surroundings of
  a subtree. The rotations are evaluated on them.
\<close>

section \<open>Addressed trees and frames\<close>

datatype 'd rt = E | N addr color int "'d option" "'d rt" "'d rt"

datatype 'd frame = FL addr color int "'d option" "'d rt" | FR "'d rt" addr color int "'d option"

primrec rootp :: "'d rt \<Rightarrow> ptr" where
  "rootp E = None"
| "rootp (N a c k d l r) = Some a"

primrec taddrs :: "'d rt \<Rightarrow> addr set" where
  "taddrs E = {}"
| "taddrs (N a c k d l r) = insert a (taddrs l \<union> taddrs r)"

primrec tdist :: "'d rt \<Rightarrow> bool" where
  "tdist E = True"
| "tdist (N a c k d l r) \<longleftrightarrow> a \<notin> taddrs l \<and> a \<notin> taddrs r \<and> taddrs l \<inter> taddrs r = {} \<and> tdist l \<and> tdist r"

primrec faddr :: "'d frame \<Rightarrow> addr" where
  "faddr (FL a c k d r) = a"
| "faddr (FR l a c k d) = a"

primrec fcolor :: "'d frame \<Rightarrow> color" where
  "fcolor (FL a c k d r) = c"
| "fcolor (FR l a c k d) = c"

primrec fsib :: "'d frame \<Rightarrow> 'd rt" where
  "fsib (FL a c k d r) = r"
| "fsib (FR l a c k d) = l"

definition cpar :: "'d frame list \<Rightarrow> ptr" where
  "cpar fs = (case fs of [] \<Rightarrow> None | f # _ \<Rightarrow> Some (faddr f))"

lemma cpar_simps [simp]: "cpar [] = None" "cpar (f # fs) = Some (faddr f)"
  by (simp_all add: cpar_def)

primrec caddrs :: "'d frame list \<Rightarrow> addr set" where
  "caddrs [] = {}"
| "caddrs (f # fs) = insert (faddr f) (taddrs (fsib f) \<union> caddrs fs)"

primrec cdist :: "'d frame list \<Rightarrow> bool" where
  "cdist [] = True"
| "cdist (f # fs) \<longleftrightarrow> faddr f \<notin> taddrs (fsib f) \<and> faddr f \<notin> caddrs fs \<and>
     taddrs (fsib f) \<inter> caddrs fs = {} \<and> tdist (fsib f) \<and> cdist fs"

fun plug1 :: "'d frame \<Rightarrow> 'd rt \<Rightarrow> 'd rt" where
  "plug1 (FL a c k d r) t = N a c k d t r"
| "plug1 (FR l a c k d) t = N a c k d l t"

definition plug :: "'d frame list \<Rightarrow> 'd rt \<Rightarrow> 'd rt" where
  "plug fs t = fold plug1 fs t"

lemma plug_simps [simp]: "plug [] t = t" "plug (f # fs) t = plug fs (plug1 f t)"
  by (simp_all add: plug_def)

lemma taddrs_plug1 [simp]: "taddrs (plug1 f t) = insert (faddr f) (taddrs (fsib f) \<union> taddrs t)"
  by (cases f) auto

lemma taddrs_plug [simp]: "taddrs (plug fs t) = caddrs fs \<union> taddrs t"
  by (induction fs arbitrary: t) auto

lemma tdist_plug: "tdist (plug fs t) \<longleftrightarrow> cdist fs \<and> tdist t \<and> caddrs fs \<inter> taddrs t = {}"
proof (induction fs arbitrary: t)
  case Nil
  then show ?case by simp
next
  case (Cons f fs)
  have "tdist (plug1 f t) \<longleftrightarrow> faddr f \<notin> taddrs (fsib f) \<and> faddr f \<notin> taddrs t \<and>
      taddrs (fsib f) \<inter> taddrs t = {} \<and> tdist (fsib f) \<and> tdist t"
    by (cases f) auto
  then show ?case using Cons.IH [of "plug1 f t"] by auto
qed

section \<open>Trees in the heap\<close>

type_synonym 'd rmem = "addr \<Rightarrow> 'd rbnode option"

abbreviation mknode :: "ptr \<Rightarrow> int \<Rightarrow> ptr \<Rightarrow> ptr \<Rightarrow> ptr \<Rightarrow> 'd option \<Rightarrow> color \<Rightarrow> 'd rbnode" where
  "mknode t k pl pr par d c \<equiv> \<lparr>rb_ctrl = t, rb_key = k, rb_left = pl, rb_right = pr, rb_parent = par,
     rb_data = d, rb_color = c\<rparr>"

primrec tree :: "'d rmem \<Rightarrow> ptr \<Rightarrow> ptr \<Rightarrow> 'd rt \<Rightarrow> bool" where
  "tree m t par E = True"
| "tree m t par (N a c k d l r) \<longleftrightarrow> m a = Some (mknode t k (rootp l) (rootp r) par d c) \<and>
     tree m t (Some a) l \<and> tree m t (Some a) r"

primrec ctxt :: "'d rmem \<Rightarrow> ptr \<Rightarrow> ptr \<Rightarrow> 'd frame list \<Rightarrow> bool" where
  "ctxt m t p [] = True"
| "ctxt m t p (f # fs) \<longleftrightarrow> (case f of
      FL a c k d r \<Rightarrow> m a = Some (mknode t k p (rootp r) (cpar fs) d c)
    | FR l a c k d \<Rightarrow> m a = Some (mknode t k (rootp l) p (cpar fs) d c)) \<and>
     tree m t (Some (faddr f)) (fsib f) \<and> ctxt m t (Some (faddr f)) fs"

lemma tree_upd [simp]: "a \<notin> taddrs T \<Longrightarrow> tree (m(a := v)) t par T = tree m t par T"
  by (induction T arbitrary: par) auto

lemma ctxt_upd [simp]: "a \<notin> caddrs fs \<Longrightarrow> ctxt (m(a := v)) t p fs = ctxt m t p fs"
  by (induction fs arbitrary: p) (auto split: frame.splits)

lemma tree_cong: "(\<And>a. a \<in> taddrs T \<Longrightarrow> m a = m' a) \<Longrightarrow> tree m t par T = tree m' t par T"
  by (induction T arbitrary: par) auto

lemma tree_alloc: "tree m t par T \<Longrightarrow> a \<in> taddrs T \<Longrightarrow> m a \<noteq> None"
  by (induction T arbitrary: par) auto

lemma tree_plug: "tree m t None (plug fs T) \<longleftrightarrow> ctxt m t (rootp T) fs \<and> tree m t (cpar fs) T"
proof (induction fs arbitrary: T)
  case Nil
  then show ?case by simp
next
  case (Cons f fs)
  show ?case unfolding plug_simps Cons.IH by (cases f) auto
qed

lemma rootp_taddrs: "rootp T = Some a \<Longrightarrow> a \<in> taddrs T"
  by (cases T) auto

lemma rootp_None_iff [simp]: "rootp T = None \<longleftrightarrow> T = E"
  by (cases T) auto

lemma rootp_plug: "rootp (plug fs T) = (if fs = [] then rootp T else Some (faddr (last fs)))"
proof (induction fs arbitrary: T)
  case Nil
  then show ?case by simp
next
  case (Cons f fs)
  then show ?case by (cases f) auto
qed

text \<open>Giving a subtree a new parent is one store, at its root.\<close>

definition reparent :: "'d rmem \<Rightarrow> 'd rt \<Rightarrow> ptr \<Rightarrow> 'd rmem" where
  "reparent m T par = (case rootp T of None \<Rightarrow> m | Some a \<Rightarrow>
     m(a := map_option (rb_parent_update (\<lambda>_. par)) (m a)))"

lemma tree_reparent:
  assumes "tree m t par T" "tdist T"
  shows "tree (reparent m T par') t par' T"
  using assms by (cases T) (auto simp: reparent_def)

lemma reparent_other [simp]: "a \<notin> taddrs T \<Longrightarrow> reparent m T par a = m a"
  by (cases T) (auto simp: reparent_def)

lemma reparent_child:
  assumes "ctxt m t p fs" "fs \<noteq> []"
  shows "rnodes h = m \<Longrightarrow> \<exists>n. rnodes h (faddr (hd fs)) = Some n"
  using assms by (cases fs) (auto split: frame.splits)

section \<open>The owner of a tree\<close>

text \<open>\<open>owns h t T\<close>: the control block \<open>t\<close> has root \<open>T\<close> in the heap, with distinct nodes.\<close>

definition owns :: "'d rbheap \<Rightarrow> addr \<Rightarrow> 'd rt \<Rightarrow> bool" where
  "owns h t T \<longleftrightarrow> tree (rnodes h) (Some t) None T \<and> tdist T \<and>
     (\<exists>c. rctrls h t = Some c \<and> rc_root c = rootp T)"

text \<open>What an operation on the tree may change: nodes of the tree, and the root field.\<close>

definition same_but :: "'d rbheap \<Rightarrow> 'd rbheap \<Rightarrow> addr \<Rightarrow> addr set \<Rightarrow> bool" where
  "same_but h h' t A \<longleftrightarrow> (\<forall>a. a \<notin> A \<longrightarrow> rnodes h' a = rnodes h a) \<and>
     (\<forall>u. u \<noteq> t \<longrightarrow> rctrls h' u = rctrls h u) \<and> rbrk h' = rbrk h \<and>
     (\<exists>c c'. rctrls h t = Some c \<and> rctrls h' t = Some c' \<and> c' = c\<lparr>rc_root := rc_root c'\<rparr>)"

lemma same_but_refl: "rctrls h t = Some c \<Longrightarrow> same_but h h t A"
  by (auto simp: same_but_def)

lemma same_but_trans: "same_but h h' t A \<Longrightarrow> same_but h' h'' t A \<Longrightarrow> same_but h h'' t A"
  unfolding same_but_def by (metis (no_types, lifting) option.sel rbctrl.surjective rbctrl.update_convs(2))

end
