(* ===== verification/RbtreeRot.thy ===== *)
theory RbtreeRot
  imports RbtreeRep
begin

text \<open>The rotations of \<open>src/rbtree.c\<close> evaluated on a tree in its context.\<close>

lemmas rb_prims = rget_def rset_def cget_def cset_def paint_def Let_def

lemma left_rotate_rep:
  assumes C: "ctxt (rnodes h) (Some t) (Some x) fs"
    and T: "tree (rnodes h) (Some t) (cpar fs) (N x c k d a (N y c2 k2 d2 b r))"
    and D: "tdist (plug fs (N x c k d a (N y c2 k2 d2 b r)))"
    and t: "rctrls h t = Some K"
  shows "\<exists>h'. left_rotate h (Some x) = Some h' \<and> ctxt (rnodes h') (Some t) (Some y) fs \<and>
    tree (rnodes h') (Some t) (cpar fs) (N y c2 k2 d2 (N x c k d a b) r) \<and>
    (\<forall>z. z \<notin> taddrs (plug fs (N x c k d a (N y c2 k2 d2 b r))) \<longrightarrow> rnodes h' z = rnodes h z) \<and>
    rbrk h' = rbrk h \<and>
    rctrls h' = (if fs = [] then (rctrls h)(t \<mapsto> K\<lparr>rc_root := Some y\<rparr>) else rctrls h)"
proof (cases fs)
  case Nil
  then show ?thesis using T D t
    by (cases b) (auto simp: left_rotate_def rb_prims)
next
  case (Cons f gs)
  then show ?thesis
  proof (cases f)
    case (FL fa fc fk fd fr)
    then show ?thesis using T D t C Cons
      by (cases b) (auto simp: left_rotate_def rb_prims replace_child_def tdist_plug)
  next
    case (FR fl fa fc fk fd)
    then show ?thesis using T D t C Cons
      by (cases b; cases fl) (auto simp: left_rotate_def rb_prims replace_child_def tdist_plug)
  qed
qed

lemma right_rotate_rep:
  assumes C: "ctxt (rnodes h) (Some t) (Some x) fs"
    and T: "tree (rnodes h) (Some t) (cpar fs) (N x c k d (N y c2 k2 d2 l b) a)"
    and D: "tdist (plug fs (N x c k d (N y c2 k2 d2 l b) a))"
    and t: "rctrls h t = Some K"
  shows "\<exists>h'. right_rotate h (Some x) = Some h' \<and> ctxt (rnodes h') (Some t) (Some y) fs \<and>
    tree (rnodes h') (Some t) (cpar fs) (N y c2 k2 d2 l (N x c k d b a)) \<and>
    (\<forall>z. z \<notin> taddrs (plug fs (N x c k d (N y c2 k2 d2 l b) a)) \<longrightarrow> rnodes h' z = rnodes h z) \<and>
    rbrk h' = rbrk h \<and>
    rctrls h' = (if fs = [] then (rctrls h)(t \<mapsto> K\<lparr>rc_root := Some y\<rparr>) else rctrls h)"
proof (cases fs)
  case Nil
  then show ?thesis using T D t
    by (cases b) (auto simp: right_rotate_def rb_prims)
next
  case (Cons f gs)
  then show ?thesis
  proof (cases f)
    case (FL fa fc fk fd fr)
    then show ?thesis using T D t C Cons
      by (cases b; cases fr) (auto simp: right_rotate_def rb_prims replace_child_def tdist_plug)
  next
    case (FR fl fa fc fk fd)
    then show ?thesis using T D t C Cons
      by (cases b) (auto simp: right_rotate_def rb_prims replace_child_def tdist_plug)
  qed
qed

section \<open>Operations on an owned tree\<close>

lemma ownsD:
  assumes "owns h t (plug fs T)"
  obtains K where "ctxt (rnodes h) (Some t) (rootp T) fs" "tree (rnodes h) (Some t) (cpar fs) T"
    "tdist (plug fs T)" "rctrls h t = Some K" "rc_root K = rootp (plug fs T)"
  using assms by (auto simp: owns_def tree_plug)

lemma tdist_replace:
  "tdist (plug fs T) \<Longrightarrow> tdist T' \<Longrightarrow> taddrs T' = taddrs T \<Longrightarrow> tdist (plug fs T')"
  by (simp add: tdist_plug)

lemma rootp_plug_replace: "fs \<noteq> [] \<Longrightarrow> rootp (plug fs T) = rootp (plug fs T')"
  by (simp add: rootp_plug)

lemma get_owns:
  assumes "owns h t (plug fs (N a c k d l r))"
  shows "rget h (Some a) = Some (mknode (Some t) k (rootp l) (rootp r) (cpar fs) d c)"
  using assms by (auto simp: owns_def tree_plug rb_prims)

lemma paint_owns:
  assumes O: "owns h t (plug fs (N a c k d l r))"
  shows "\<exists>h'. paint h (Some a) c' = Some h' \<and> owns h' t (plug fs (N a c' k d l r)) \<and>
    same_but h h' t (taddrs (plug fs (N a c k d l r)))"
proof -
  from O obtain K where A: "ctxt (rnodes h) (Some t) (Some a) fs" "tree (rnodes h) (Some t) (cpar fs) (N a c k d l r)"
    "tdist (plug fs (N a c k d l r))" "rctrls h t = Some K" "rc_root K = rootp (plug fs (N a c k d l r))"
    by (auto elim: ownsD)
  let ?g = "h\<lparr>rnodes := (rnodes h)(a \<mapsto> mknode (Some t) k (rootp l) (rootp r) (cpar fs) d c')\<rparr>"
  have p: "paint h (Some a) c' = Some ?g" using A(2) by (simp add: rb_prims)
  have d: "tdist (N a c k d l r)" "a \<notin> caddrs fs" using A(3) by (auto simp: tdist_plug)
  have "tree (rnodes ?g) (Some t) None (plug fs (N a c' k d l r))"
    unfolding tree_plug using A(1,2) d by simp
  moreover have "tdist (plug fs (N a c' k d l r))" using A(3) d(1) by (rule_tac tdist_replace) auto
  moreover have "rc_root K = rootp (plug fs (N a c' k d l r))" using A(5) by (simp add: rootp_plug)
  ultimately show ?thesis using p A(4) by (auto simp: owns_def same_but_def)
qed

lemma rotate_owns:
  assumes O: "owns h t (plug fs T)" and root: "rootp T' = Some y" and ad: "taddrs T' = taddrs T" and D: "tdist T'"
    and R: "\<And>K. ctxt (rnodes h) (Some t) (rootp T) fs \<Longrightarrow> tree (rnodes h) (Some t) (cpar fs) T \<Longrightarrow>
      tdist (plug fs T) \<Longrightarrow> rctrls h t = Some K \<Longrightarrow>
      \<exists>h'. op = Some h' \<and> ctxt (rnodes h') (Some t) (Some y) fs \<and> tree (rnodes h') (Some t) (cpar fs) T' \<and>
      (\<forall>z. z \<notin> taddrs (plug fs T) \<longrightarrow> rnodes h' z = rnodes h z) \<and> rbrk h' = rbrk h \<and>
      rctrls h' = (if fs = [] then (rctrls h)(t \<mapsto> K\<lparr>rc_root := Some y\<rparr>) else rctrls h)"
  shows "\<exists>h'. op = Some h' \<and> owns h' t (plug fs T') \<and> same_but h h' t (taddrs (plug fs T))"
proof -
  from O obtain K where K: "ctxt (rnodes h) (Some t) (rootp T) fs" "tree (rnodes h) (Some t) (cpar fs) T"
    "tdist (plug fs T)" "rctrls h t = Some K" "rc_root K = rootp (plug fs T)" by (auto elim: ownsD)
  from R [OF K(1-4)] obtain h' where h': "op = Some h'" "ctxt (rnodes h') (Some t) (Some y) fs"
    "tree (rnodes h') (Some t) (cpar fs) T'" "\<forall>z. z \<notin> taddrs (plug fs T) \<longrightarrow> rnodes h' z = rnodes h z"
    "rbrk h' = rbrk h"
    "rctrls h' = (if fs = [] then (rctrls h)(t \<mapsto> K\<lparr>rc_root := Some y\<rparr>) else rctrls h)" by blast
  have "tree (rnodes h') (Some t) None (plug fs T')" unfolding tree_plug using h'(2,3) root by simp
  moreover have "tdist (plug fs T')" using tdist_replace [OF K(3) D ad] .
  moreover have "\<exists>c. rctrls h' t = Some c \<and> rc_root c = rootp (plug fs T')"
    using h'(6) K(4,5) root rootp_plug_replace [of fs T T'] by (cases "fs = []") auto
  moreover have "same_but h h' t (taddrs (plug fs T))"
    unfolding same_but_def using h'(4-6) K(4) by (cases "fs = []") auto
  ultimately show ?thesis using h'(1) by (auto simp: owns_def)
qed

lemma left_rotate_owns:
  assumes O: "owns h t (plug fs (N x c k d a (N y c2 k2 d2 b r)))"
  shows "\<exists>h'. left_rotate h (Some x) = Some h' \<and> owns h' t (plug fs (N y c2 k2 d2 (N x c k d a b) r)) \<and>
    same_but h h' t (taddrs (plug fs (N x c k d a (N y c2 k2 d2 b r))))"
proof (rule rotate_owns [OF O])
  have "tdist (N x c k d a (N y c2 k2 d2 b r))" using O by (auto simp: owns_def tdist_plug)
  then show "tdist (N y c2 k2 d2 (N x c k d a b) r)" by auto
  fix K
  assume a: "ctxt (rnodes h) (Some t) (rootp (N x c k d a (N y c2 k2 d2 b r))) fs" "tree (rnodes h) (Some t) (cpar fs) (N x c k d a (N y c2 k2 d2 b r))"
    "tdist (plug fs (N x c k d a (N y c2 k2 d2 b r)))" "rctrls h t = Some K"
  show "\<exists>h'. left_rotate h (Some x) = Some h' \<and> ctxt (rnodes h') (Some t) (Some y) fs \<and>
      tree (rnodes h') (Some t) (cpar fs) (N y c2 k2 d2 (N x c k d a b) r) \<and>
      (\<forall>z. z \<notin> taddrs (plug fs (N x c k d a (N y c2 k2 d2 b r))) \<longrightarrow> rnodes h' z = rnodes h z) \<and> rbrk h' = rbrk h \<and>
      rctrls h' = (if fs = [] then (rctrls h)(t \<mapsto> K\<lparr>rc_root := Some y\<rparr>) else rctrls h)"
    by (rule left_rotate_rep [OF _ a(2-4)]) (use a(1) in simp)
qed auto

lemma right_rotate_owns:
  assumes O: "owns h t (plug fs (N x c k d (N y c2 k2 d2 l b) a))"
  shows "\<exists>h'. right_rotate h (Some x) = Some h' \<and> owns h' t (plug fs (N y c2 k2 d2 l (N x c k d b a))) \<and>
    same_but h h' t (taddrs (plug fs (N x c k d (N y c2 k2 d2 l b) a)))"
proof (rule rotate_owns [OF O])
  have "tdist (N x c k d (N y c2 k2 d2 l b) a)" using O by (auto simp: owns_def tdist_plug)
  then show "tdist (N y c2 k2 d2 l (N x c k d b a))" by auto
  fix K
  assume a: "ctxt (rnodes h) (Some t) (rootp (N x c k d (N y c2 k2 d2 l b) a)) fs" "tree (rnodes h) (Some t) (cpar fs) (N x c k d (N y c2 k2 d2 l b) a)"
    "tdist (plug fs (N x c k d (N y c2 k2 d2 l b) a))" "rctrls h t = Some K"
  show "\<exists>h'. right_rotate h (Some x) = Some h' \<and> ctxt (rnodes h') (Some t) (Some y) fs \<and>
      tree (rnodes h') (Some t) (cpar fs) (N y c2 k2 d2 l (N x c k d b a)) \<and>
      (\<forall>z. z \<notin> taddrs (plug fs (N x c k d (N y c2 k2 d2 l b) a)) \<longrightarrow> rnodes h' z = rnodes h z) \<and> rbrk h' = rbrk h \<and>
      rctrls h' = (if fs = [] then (rctrls h)(t \<mapsto> K\<lparr>rc_root := Some y\<rparr>) else rctrls h)"
    by (rule right_rotate_rep [OF _ a(2-4)]) (use a(1) in simp)
qed auto

end
