(* ===== verification/RbtreeFix.thy ===== *)
theory RbtreeFix
  imports RbtreeRot
begin

text \<open>
  The insertion fix-up. \<open>zloop\<close> is the loop of \<open>rbtree_fixup\<close> on the zipper: recolouring
  moves two frames up, a rotation ends it; its second result says that the walk passed the
  root (\<open>parent == NULL\<close>). The refinement lemma \<open>rbtree_fixup_owns\<close> says that the pointer
  code computes \<open>zfix\<close>; the rest of the theory shows what \<open>zfix\<close> preserves.
\<close>

section \<open>The fix-up on the zipper\<close>

primrec repaint :: "color \<Rightarrow> 'd rt \<Rightarrow> 'd rt" where
  "repaint c' E = E"
| "repaint c' (N a c k d l r) = N a c' k d l r"

primrec tcolor :: "'d rt \<Rightarrow> color" where
  "tcolor E = BLACK"
| "tcolor (N a c k d l r) = c"

primrec fpaint :: "color \<Rightarrow> 'd frame \<Rightarrow> 'd frame" where
  "fpaint c' (FL a c k d r) = FL a c' k d r"
| "fpaint c' (FR l a c k d) = FR l a c' k d"

primrec fsibpaint :: "color \<Rightarrow> 'd frame \<Rightarrow> 'd frame" where
  "fsibpaint c' (FL a c k d r) = FL a c k d (repaint c' r)"
| "fsibpaint c' (FR l a c k d) = FR (repaint c' l) a c k d"

definition zrecolor :: "'d frame \<Rightarrow> 'd frame \<Rightarrow> 'd rt \<Rightarrow> 'd rt" where
  "zrecolor f g T = plug1 (fpaint RED (fsibpaint BLACK g)) (plug1 (fpaint BLACK f) T)"

fun zrot :: "'d frame \<Rightarrow> 'd frame \<Rightarrow> 'd rt \<Rightarrow> 'd rt" where
  "zrot (FL p pc pk pd s) (FL g gc gk gd u) T = N p BLACK pk pd T (N g RED gk gd s u)"
| "zrot (FR s p pc pk pd) (FL g gc gk gd u) (N x xc xk xd l r) =
     N x BLACK xk xd (N p pc pk pd s l) (N g RED gk gd r u)"
| "zrot (FR s p pc pk pd) (FR u g gc gk gd) T = N p BLACK pk pd (N g RED gk gd u s) T"
| "zrot (FL p pc pk pd s) (FR u g gc gk gd) (N x xc xk xd l r) =
     N x BLACK xk xd (N g RED gk gd u l) (N p pc pk pd r s)"
| "zrot f g E = plug1 g (plug1 f E)"

fun zloop :: "'d frame list \<Rightarrow> 'd rt \<Rightarrow> 'd rt \<times> bool" where
  "zloop [] T = (T, True)"
| "zloop [f] T = (plug1 f T, False)"
| "zloop (f # g # fs) T = (if fcolor f = RED then
     (if tcolor (fsib g) = RED then zloop fs (zrecolor f g T) else (plug fs (zrot f g T), False))
   else (plug (f # g # fs) T, False))"

definition zfix :: "'d frame list \<Rightarrow> 'd rt \<Rightarrow> 'd rt" where
  "zfix fs T = (case zloop fs T of (T', b) \<Rightarrow> if b then repaint BLACK T' else T')"

section \<open>The pointer code computes it\<close>

lemma uncle_check:
  assumes "owns h t (plug (g # fs) T)"
  shows "(if rootp (fsib g) = None then Some False
    else do { u \<leftarrow> rget h (rootp (fsib g)); Some (rb_color u = RED) }) = Some (tcolor (fsib g) = RED)"
proof (cases "fsib g")
  case E
  then show ?thesis by simp
next
  case (N a c k d l r)
  have "tree (rnodes h) (Some t) (Some (faddr g)) (fsib g)"
    using assms unfolding owns_def tree_plug by simp
  then show ?thesis using N by (simp add: rb_prims)
qed

lemma same_but_rec:
  "same_but h h1 t A \<Longrightarrow> same_but h1 h2 t A \<Longrightarrow> same_but h2 h3 t A \<Longrightarrow> same_but h h3 t A"
  by (blast intro: same_but_trans)

lemma owns_distinct_parent:
  assumes "owns h t (plug (f # g # fs) T)"
  shows "faddr f \<noteq> faddr g" "rootp (fsib g) \<noteq> Some (faddr f)" "rootp T \<noteq> Some (faddr f)"
    "rootp (fsib f) \<noteq> Some (faddr g)" "T \<noteq> E \<Longrightarrow> rootp (fsib f) \<noteq> rootp T"
proof -
  have "tdist (plug (f # g # fs) T)" using assms by (simp add: owns_def)
  then have D: "cdist (f # g # fs)" "caddrs (f # g # fs) \<inter> taddrs T = {}" by (auto simp only: tdist_plug)
  show "faddr f \<noteq> faddr g" using D by simp
  show "rootp (fsib g) \<noteq> Some (faddr f)" "rootp T \<noteq> Some (faddr f)" "rootp (fsib f) \<noteq> Some (faddr g)"
    using D rootp_taddrs by fastforce+
  show "T \<noteq> E \<Longrightarrow> rootp (fsib f) \<noteq> rootp T"
    using D rootp_taddrs [of "fsib f"] rootp_taddrs [of T] by (cases T) auto
qed

lemma fixup_recolor:
  assumes O: "owns h t (plug (f # g # fs) T)" and T: "T \<noteq> E"
    and u: "tcolor (fsib g) = RED"
  shows "\<exists>h'. fixup_body h (rootp T) (Some (faddr f)) = Some (Some (faddr g), cpar fs, h') \<and>
    owns h' t (plug fs (zrecolor f g T)) \<and> same_but h h' t (taddrs (plug (f # g # fs) T))"
proof -
  note dp = owns_distinct_parent [OF O]
  note uc = uncle_check [of h t g fs "plug1 f T"]
  obtain ua uk ud ul ur where U: "fsib g = N ua RED uk ud ul ur" using u by (cases "fsib g") auto
  show ?thesis
  proof (cases g)
    case (FL ga gc gk gd gr)
    then have gr: "gr = N ua RED uk ud ul ur" using U by simp
    obtain h1 where h1: "paint h (Some (faddr f)) BLACK = Some h1"
      "owns h1 t (plug (fpaint BLACK f # g # fs) T)" "same_but h h1 t (taddrs (plug (f # g # fs) T))"
      using O paint_owns [of h t "g # fs"] by (cases f) (fastforce simp del: taddrs_plug)+
    have "owns h1 t (plug (FR (plug1 (fpaint BLACK f) T) ga gc gk gd # fs) (N ua RED uk ud ul ur))"
      using h1(2) FL gr by simp
    from paint_owns [OF this, of BLACK] obtain h2 where h2: "paint h1 (Some ua) BLACK = Some h2"
      "owns h2 t (plug fs (N ga gc gk gd (plug1 (fpaint BLACK f) T) (N ua BLACK uk ud ul ur)))"
      "same_but h1 h2 t (taddrs (plug (f # g # fs) T))" using FL gr by (cases f) (auto simp: insert_commute Un_ac)
    from paint_owns [OF h2(2), of RED] obtain h3 where h3: "paint h2 (Some ga) RED = Some h3"
      "owns h3 t (plug fs (N ga RED gk gd (plug1 (fpaint BLACK f) T) (N ua BLACK uk ud ul ur)))"
      "same_but h2 h3 t (taddrs (plug (f # g # fs) T))" using FL gr by (cases f) (auto simp: insert_commute Un_ac)
    from O FL gr have O': "owns h t (plug fs (N ga gc gk gd (plug1 f T) (N ua RED uk ud ul ur)))" by simp
    have pf: "\<exists>n. rget h (Some (faddr f)) = Some n \<and> rb_parent n = Some ga"
      using O FL get_owns [of h t "g # fs"] by (cases f) fastforce+
    have rf: "rootp (plug1 f T) = Some (faddr f)" by (cases f) auto
    show ?thesis using pf h1 h2 h3 get_owns [OF O'] get_owns [OF h3(2)] uc O U FL gr rf same_but_rec [OF h1(3) h2(3) h3(3)]
      by (auto simp: fixup_body_def zrecolor_def)
  next
    case (FR gr ga gc gk gd)
    then have gr: "gr = N ua RED uk ud ul ur" using U by simp
    obtain h1 where h1: "paint h (Some (faddr f)) BLACK = Some h1"
      "owns h1 t (plug (fpaint BLACK f # g # fs) T)" "same_but h h1 t (taddrs (plug (f # g # fs) T))"
      using O paint_owns [of h t "g # fs"] by (cases f) (fastforce simp del: taddrs_plug)+
    have "owns h1 t (plug (FL ga gc gk gd (plug1 (fpaint BLACK f) T) # fs) (N ua RED uk ud ul ur))"
      using h1(2) FR gr by simp
    from paint_owns [OF this, of BLACK] obtain h2 where h2: "paint h1 (Some ua) BLACK = Some h2"
      "owns h2 t (plug fs (N ga gc gk gd (N ua BLACK uk ud ul ur) (plug1 (fpaint BLACK f) T)))"
      "same_but h1 h2 t (taddrs (plug (f # g # fs) T))" using FR gr by (cases f) (auto simp: insert_commute Un_ac)
    from paint_owns [OF h2(2), of RED] obtain h3 where h3: "paint h2 (Some ga) RED = Some h3"
      "owns h3 t (plug fs (N ga RED gk gd (N ua BLACK uk ud ul ur) (plug1 (fpaint BLACK f) T)))"
      "same_but h2 h3 t (taddrs (plug (f # g # fs) T))" using FR gr by (cases f) (auto simp: insert_commute Un_ac)
    from O FR gr have O': "owns h t (plug fs (N ga gc gk gd (N ua RED uk ud ul ur) (plug1 f T)))" by simp
    have pf: "\<exists>n. rget h (Some (faddr f)) = Some n \<and> rb_parent n = Some ga"
      using O FR get_owns [of h t "g # fs"] by (cases f) fastforce+
    have rf: "rootp (plug1 f T) = Some (faddr f)" by (cases f) auto
    have nu: "faddr f \<noteq> ua" using dp U by simp
    show ?thesis using pf h1 h2 h3 get_owns [OF O'] get_owns [OF h3(2)] uc O U FR gr rf nu same_but_rec [OF h1(3) h2(3) h3(3)]
      by (auto simp: fixup_body_def zrecolor_def)
  qed
qed

text \<open>Rotations: parent and grandparent repainted, then one rotation at the grandparent.\<close>

lemma final_right:
  assumes O: "owns h t (plug fs (N g gc gk gd (N p pc pk pd a b) u))"
  shows "\<exists>h1 h2 h3. paint h (Some p) BLACK = Some h1 \<and> paint h1 (Some g) RED = Some h2 \<and>
    right_rotate h2 (Some g) = Some h3 \<and> owns h3 t (plug fs (N p BLACK pk pd a (N g RED gk gd b u))) \<and>
    same_but h h3 t (taddrs (plug fs (N g gc gk gd (N p pc pk pd a b) u)))"
proof -
  have "owns h t (plug (FL g gc gk gd u # fs) (N p pc pk pd a b))" using O by simp
  from paint_owns [OF this, of BLACK] obtain h1 where h1: "paint h (Some p) BLACK = Some h1"
    "owns h1 t (plug fs (N g gc gk gd (N p BLACK pk pd a b) u))"
    "same_but h h1 t (taddrs (plug fs (N g gc gk gd (N p pc pk pd a b) u)))" by (auto simp: insert_commute Un_ac)
  from paint_owns [OF h1(2), of RED] obtain h2 where h2: "paint h1 (Some g) RED = Some h2"
    "owns h2 t (plug fs (N g RED gk gd (N p BLACK pk pd a b) u))"
    "same_but h1 h2 t (taddrs (plug fs (N g gc gk gd (N p pc pk pd a b) u)))" by auto
  from right_rotate_owns [OF h2(2)] obtain h3 where h3: "right_rotate h2 (Some g) = Some h3"
    "owns h3 t (plug fs (N p BLACK pk pd a (N g RED gk gd b u)))"
    "same_but h2 h3 t (taddrs (plug fs (N g gc gk gd (N p pc pk pd a b) u)))" by auto
  show ?thesis using h1(1) h2(1) h3(1,2) same_but_rec [OF h1(3) h2(3) h3(3)] by blast
qed

lemma final_left:
  assumes O: "owns h t (plug fs (N g gc gk gd u (N p pc pk pd a b)))"
  shows "\<exists>h1 h2 h3. paint h (Some p) BLACK = Some h1 \<and> paint h1 (Some g) RED = Some h2 \<and>
    left_rotate h2 (Some g) = Some h3 \<and> owns h3 t (plug fs (N p BLACK pk pd (N g RED gk gd u a) b)) \<and>
    same_but h h3 t (taddrs (plug fs (N g gc gk gd u (N p pc pk pd a b))))"
proof -
  have "owns h t (plug (FR u g gc gk gd # fs) (N p pc pk pd a b))" using O by simp
  from paint_owns [OF this, of BLACK] obtain h1 where h1: "paint h (Some p) BLACK = Some h1"
    "owns h1 t (plug fs (N g gc gk gd u (N p BLACK pk pd a b)))"
    "same_but h h1 t (taddrs (plug fs (N g gc gk gd u (N p pc pk pd a b))))" by (auto simp: insert_commute Un_ac)
  from paint_owns [OF h1(2), of RED] obtain h2 where h2: "paint h1 (Some g) RED = Some h2"
    "owns h2 t (plug fs (N g RED gk gd u (N p BLACK pk pd a b)))"
    "same_but h1 h2 t (taddrs (plug fs (N g gc gk gd u (N p pc pk pd a b))))" by auto
  from left_rotate_owns [OF h2(2)] obtain h3 where h3: "left_rotate h2 (Some g) = Some h3"
    "owns h3 t (plug fs (N p BLACK pk pd (N g RED gk gd u a) b))"
    "same_but h2 h3 t (taddrs (plug fs (N g gc gk gd u (N p pc pk pd a b))))" by auto
  show ?thesis using h1(1) h2(1) h3(1,2) same_but_rec [OF h1(3) h2(3) h3(3)] by blast
qed

lemma fixup_rotate:
  assumes O: "owns h t (plug (f # g # fs) T)" and T: "T \<noteq> E" and u: "tcolor (fsib g) \<noteq> RED"
  shows "\<exists>h' ch pa. fixup_body h (rootp T) (Some (faddr f)) = Some (ch, Some pa, h') \<and>
    owns h' t (plug fs (zrot f g T)) \<and> same_but h h' t (taddrs (plug (f # g # fs) T)) \<and>
    (\<exists>n. rnodes h' pa = Some n \<and> rb_color n = BLACK)"
proof -
  note dp = owns_distinct_parent [OF O]
  obtain x xc xk xd xl xr where X: "T = N x xc xk xd xl xr" using T by (cases T) auto
  have uc: "\<exists>n. rget h (rootp (fsib g)) = Some n \<and> rb_color n = BLACK" if "fsib g \<noteq> E"
    using uncle_check [of h t g fs "plug1 f T"] O u that
    by (auto split: bind_splits intro: color.exhaust)
  have G: "owns h t (plug fs (plug1 g (plug1 f T)))" and P: "owns h t (plug (g # fs) (plug1 f T))"
    using O by simp_all
  show ?thesis
  proof (cases g)
    case gL: (FL ga gc gk gd gr)
    show ?thesis
    proof (cases f)
      case (FL p pc pk pd s)
      from final_right [of h t fs ga gc gk gd p pc pk pd T s gr] G gL FL obtain h1 h2 h3 where
        h: "paint h (Some p) BLACK = Some h1" "paint h1 (Some ga) RED = Some h2"
        "right_rotate h2 (Some ga) = Some h3" "owns h3 t (plug fs (N p BLACK pk pd T (N ga RED gk gd s gr)))"
        "same_but h h3 t (taddrs (plug (f # g # fs) T))" by auto
      have gg: "rget h (Some ga) = Some (mknode (Some t) gk (Some p) (rootp gr) (cpar fs) gd gc)"
        using get_owns [of h t fs ga gc gk gd "plug1 f T" gr] G gL FL by simp
      have gp: "rget h (Some p) = Some (mknode (Some t) pk (Some x) (rootp s) (Some ga) pd pc)"
        using get_owns [of h t "g # fs"] P gL FL X by simp
      have bl: "\<exists>n. rnodes h3 p = Some n \<and> rb_color n = BLACK"
        using get_owns [OF h(4)] by (simp add: rget_def)
      show ?thesis using h gg gp bl gL FL dp uc X
        by (cases "gr = E") (auto simp add: fixup_body_def Let_def simp del: taddrs_plug)
    next
      case (FR s p pc pk pd)
      have "owns h t (plug (FL ga gc gk gd gr # fs) (N p pc pk pd s (N x xc xk xd xl xr)))"
        using O gL FR X by simp
      from left_rotate_owns [OF this] obtain h0 where h0: "left_rotate h (Some p) = Some h0"
        "owns h0 t (plug (FL ga gc gk gd gr # fs) (N x xc xk xd (N p pc pk pd s xl) xr))"
        "same_but h h0 t (taddrs (plug (f # g # fs) T))" using gL FR X by (auto simp: insert_commute Un_ac)
      then have c0: "owns h0 t (plug (FL x xc xk xd xr # FL ga gc gk gd gr # fs) (N p pc pk pd s xl))" by simp
      from final_right [of h0 t fs ga gc gk gd x xc xk xd "N p pc pk pd s xl" xr gr] h0(2) obtain h1 h2 h3 where
        h: "paint h0 (Some x) BLACK = Some h1" "paint h1 (Some ga) RED = Some h2"
        "right_rotate h2 (Some ga) = Some h3"
        "owns h3 t (plug fs (N x BLACK xk xd (N p pc pk pd s xl) (N ga RED gk gd xr gr)))"
        "same_but h0 h3 t (taddrs (plug (f # g # fs) T))" using gL FR X by (auto simp: insert_commute Un_ac)
      have gg: "rget h (Some ga) = Some (mknode (Some t) gk (Some p) (rootp gr) (cpar fs) gd gc)"
        using get_owns [of h t fs ga gc gk gd "plug1 f T" gr] G gL FR by simp
      have gp: "rget h (Some p) = Some (mknode (Some t) pk (rootp s) (Some x) (Some ga) pd pc)"
        using get_owns [of h t "g # fs"] P gL FR X by simp
      have gx: "rget h0 (Some p) = Some (mknode (Some t) pk (rootp s) (rootp xl) (Some x) pd pc)"
        "rget h0 (Some x) = Some (mknode (Some t) xk (Some p) (rootp xr) (Some ga) xd xc)"
        using get_owns [OF c0] get_owns [OF h0(2)] by simp_all
      have bl: "\<exists>n. rnodes h3 x = Some n \<and> rb_color n = BLACK"
        using get_owns [OF h(4)] by (simp add: rget_def)
      show ?thesis using h h0(1) gg gp gx bl gL FR dp uc X same_but_trans [OF h0(3) h(5)]
        by (cases "gr = E") (auto simp add: fixup_body_def Let_def simp del: taddrs_plug)
    qed
  next
    case gR: (FR gr ga gc gk gd)
    have ng: "rootp gr \<noteq> Some (faddr f)" using dp(2) gR by simp
    show ?thesis
    proof (cases f)
      case (FR s p pc pk pd)
      from final_left [of h t fs ga gc gk gd gr p pc pk pd s T] G gR FR obtain h1 h2 h3 where
        h: "paint h (Some p) BLACK = Some h1" "paint h1 (Some ga) RED = Some h2"
        "left_rotate h2 (Some ga) = Some h3" "owns h3 t (plug fs (N p BLACK pk pd (N ga RED gk gd gr s) T))"
        "same_but h h3 t (taddrs (plug (f # g # fs) T))" by (auto simp: insert_commute Un_ac)
      have gg: "rget h (Some ga) = Some (mknode (Some t) gk (rootp gr) (Some p) (cpar fs) gd gc)"
        using get_owns [of h t fs ga gc gk gd gr "plug1 f T"] G gR FR by simp
      have gp: "rget h (Some p) = Some (mknode (Some t) pk (rootp s) (Some x) (Some ga) pd pc)"
        using get_owns [of h t "g # fs"] P gR FR X by simp
      have bl: "\<exists>n. rnodes h3 p = Some n \<and> rb_color n = BLACK"
        using get_owns [OF h(4)] by (simp add: rget_def)
      show ?thesis using h gg gp bl gR FR dp ng uc X
        by (cases "gr = E") (auto simp add: fixup_body_def Let_def simp del: taddrs_plug)
    next
      case (FL p pc pk pd s)
      have "owns h t (plug (FR gr ga gc gk gd # fs) (N p pc pk pd (N x xc xk xd xl xr) s))"
        using O gR FL X by simp
      from right_rotate_owns [OF this] obtain h0 where h0: "right_rotate h (Some p) = Some h0"
        "owns h0 t (plug (FR gr ga gc gk gd # fs) (N x xc xk xd xl (N p pc pk pd xr s)))"
        "same_but h h0 t (taddrs (plug (f # g # fs) T))" using gR FL X by (auto simp: insert_commute Un_ac)
      then have c0: "owns h0 t (plug (FR xl x xc xk xd # FR gr ga gc gk gd # fs) (N p pc pk pd xr s))" by simp
      from final_left [of h0 t fs ga gc gk gd gr x xc xk xd xl "N p pc pk pd xr s"] h0(2) obtain h1 h2 h3 where
        h: "paint h0 (Some x) BLACK = Some h1" "paint h1 (Some ga) RED = Some h2"
        "left_rotate h2 (Some ga) = Some h3"
        "owns h3 t (plug fs (N x BLACK xk xd (N ga RED gk gd gr xl) (N p pc pk pd xr s)))"
        "same_but h0 h3 t (taddrs (plug (f # g # fs) T))" using gR FL X by (auto simp: insert_commute Un_ac)
      have gg: "rget h (Some ga) = Some (mknode (Some t) gk (rootp gr) (Some p) (cpar fs) gd gc)"
        using get_owns [of h t fs ga gc gk gd gr "plug1 f T"] G gR FL by simp
      have gp: "rget h (Some p) = Some (mknode (Some t) pk (Some x) (rootp s) (Some ga) pd pc)"
        using get_owns [of h t "g # fs"] P gR FL X by simp
      have gx: "rget h0 (Some p) = Some (mknode (Some t) pk (rootp xr) (rootp s) (Some x) pd pc)"
        "rget h0 (Some x) = Some (mknode (Some t) xk (rootp xl) (Some p) (Some ga) xd xc)"
        using get_owns [OF c0] get_owns [OF h0(2)] by simp_all
      have bl: "\<exists>n. rnodes h3 x = Some n \<and> rb_color n = BLACK"
        using get_owns [OF h(4)] by (simp add: rget_def)
      show ?thesis using h h0(1) gg gp gx bl gR FL dp ng uc X same_but_trans [OF h0(3) h(5)]
        by (cases "gr = E") (auto simp add: fixup_body_def Let_def simp del: taddrs_plug)
    qed
  qed
qed

lemma taddrs_repaint [simp]: "taddrs (repaint c T) = taddrs T"
  by (cases T) auto

lemma tdist_repaint [simp]: "tdist (repaint c T) = tdist T"
  by (cases T) auto

lemma rootp_repaint [simp]: "rootp (repaint c T) = rootp T"
  by (cases T) auto

lemma taddrs_zrecolor: "taddrs (plug fs (zrecolor f g T)) = taddrs (plug (f # g # fs) T)"
  by (cases f; cases g) (auto simp: zrecolor_def)

lemma zrecolor_not_E: "zrecolor f g T \<noteq> E"
  by (cases f; cases g) (auto simp: zrecolor_def)

lemma rootp_zrecolor: "rootp (zrecolor f g T) = Some (faddr g)"
  by (cases f; cases g) (auto simp: zrecolor_def)

lemma frame_black:
  assumes "owns h t (plug (f # fs) T)"
  shows "\<exists>n. rnodes h (faddr f) = Some n \<and> rb_color n = fcolor f"
  using assms unfolding owns_def tree_plug by (cases f) auto

lemma tree_ctrl: "tree m t par T \<Longrightarrow> a \<in> taddrs T \<Longrightarrow> \<exists>n. m a = Some n \<and> rb_ctrl n = t"
  by (induction T arbitrary: par) auto

lemma taddrs_zrot: "taddrs (zrot f g T) = taddrs (plug1 g (plug1 f T))"
  by (induction f g T rule: zrot.induct) auto

lemma zloop_addrs: "taddrs (fst (zloop fs T)) = taddrs (plug fs T)"
proof (induction fs T rule: zloop.induct)
  case (3 f g fs T)
  then show ?case using taddrs_zrecolor [of fs f g T] by (auto simp: taddrs_zrot)
qed auto

declare fixup_loop.simps [simp del]

lemma fixup_loop_owns:
  assumes "owns h t (plug fs T)" "T \<noteq> E" "fs \<noteq> [] \<longrightarrow> fcolor (last fs) = BLACK"
  shows "\<exists>ch pa h' T' b. fixup_loop h (rootp T) (cpar fs) = Some (ch, pa, h') \<and> zloop fs T = (T', b) \<and>
    owns h' t T' \<and> (b \<longleftrightarrow> pa = None) \<and> (b \<longrightarrow> ch = rootp T') \<and> same_but h h' t (taddrs (plug fs T))"
  using assms
proof (induction fs T arbitrary: h rule: zloop.induct)
  case (1 T)
  then show ?case by (subst fixup_loop.simps) (auto simp: owns_def intro: same_but_refl)
next
  case (2 f T)
  from frame_black [OF 2(1)] obtain n where "rnodes h (faddr f) = Some n" "rb_color n = BLACK"
    using 2(3) by auto
  then show ?case using 2(1) by (subst fixup_loop.simps) (auto simp: owns_def intro: same_but_refl)
next
  case (3 f g fs T)
  from frame_black [OF 3(2)] obtain n where n: "rnodes h (faddr f) = Some n" "rb_color n = fcolor f" by auto
  show ?case
  proof (cases "fcolor f = RED")
    case False
    then show ?thesis using n 3(2)
      by (subst fixup_loop.simps) (auto simp: owns_def intro: same_but_refl)
  next
    case red: True
    show ?thesis
    proof (cases "tcolor (fsib g) = RED")
      case True
      from fixup_recolor [OF 3(2,3) True] obtain h1 where h1:
        "fixup_body h (rootp T) (Some (faddr f)) = Some (Some (faddr g), cpar fs, h1)"
        "owns h1 t (plug fs (zrecolor f g T))" "same_but h h1 t (taddrs (plug (f # g # fs) T))" by blast
      have "fs \<noteq> [] \<longrightarrow> fcolor (last fs) = BLACK" using 3(4) by (auto split: if_splits)
      from 3(1) [OF red True h1(2) zrecolor_not_E this] obtain ch pa h2 T' b where
        r: "fixup_loop h1 (Some (faddr g)) (cpar fs) = Some (ch, pa, h2)" "zloop fs (zrecolor f g T) = (T', b)"
        "owns h2 t T'" "b = (pa = None)" "b \<longrightarrow> ch = rootp T'"
        "same_but h1 h2 t (taddrs (plug fs (zrecolor f g T)))" unfolding rootp_zrecolor by blast
      have "same_but h h2 t (taddrs (plug (f # g # fs) T))"
        using same_but_trans [OF h1(3)] r(6) unfolding taddrs_zrecolor by blast
      then show ?thesis using n red True h1(1) r
        by (subst fixup_loop.simps) (auto simp del: taddrs_plug)
    next
      case False
      from fixup_rotate [OF 3(2,3) False] obtain h1 ch pa n' where h1:
        "fixup_body h (rootp T) (Some (faddr f)) = Some (ch, Some pa, h1)"
        "owns h1 t (plug fs (zrot f g T))" "same_but h h1 t (taddrs (plug (f # g # fs) T))"
        "rnodes h1 pa = Some n'" "rb_color n' = BLACK" by blast
      then have "fixup_loop h1 ch (Some pa) = Some (ch, Some pa, h1)"
        by (subst fixup_loop.simps) simp
      then show ?thesis using n red False h1
        by (subst fixup_loop.simps) (auto simp del: taddrs_plug)
    qed
  qed
qed

lemma owns_repaint_root:
  assumes O: "owns h t T" and r: "rootp T = Some a" and K: "rctrls h t = Some K"
  shows "\<exists>h'. do { h \<leftarrow> cset h (Some t) (rc_root_update (\<lambda>_. Some a)); paint h (Some a) BLACK } = Some h' \<and>
    owns h' t (repaint BLACK T) \<and> same_but h h' t (taddrs T)"
proof -
  obtain c k d l rr where T: "T = N a c k d l rr" using r by (cases T) auto
  have "rc_root K = Some a" using O K r by (auto simp: owns_def)
  then have "h\<lparr>rctrls := (rctrls h)(t \<mapsto> K\<lparr>rc_root := Some a\<rparr>)\<rparr> = h"
    using K by (cases K) (auto simp: fun_upd_idem)
  then have c: "cset h (Some t) (rc_root_update (\<lambda>_. Some a)) = Some h" using K by (simp add: cset_def)
  show ?thesis using paint_owns [of h t "[]" a c k d l rr BLACK] O c T by simp
qed

lemma rbtree_fixup_owns:
  assumes O: "owns h t (plug fs T)" and T: "rootp T = Some x" and r: "fs \<noteq> [] \<longrightarrow> fcolor (last fs) = BLACK"
  shows "\<exists>h'. rbtree_fixup h (Some x) = Some h' \<and> owns h' t (zfix fs T) \<and> same_but h h' t (taddrs (plug fs T))"
proof -
  have ne: "T \<noteq> E" using T by auto
  obtain c k d l rr where X: "T = N x c k d l rr" using T by (cases T) auto
  have g: "rget h (Some x) = Some (mknode (Some t) k (rootp l) (rootp rr) (cpar fs) d c)"
    using get_owns O X by simp
  from fixup_loop_owns [OF O ne r] obtain ch pa h1 T' b where
    f: "fixup_loop h (Some x) (cpar fs) = Some (ch, pa, h1)" "zloop fs T = (T', b)" "owns h1 t T'"
    "b \<longleftrightarrow> pa = None" "b \<longrightarrow> ch = rootp T'" "same_but h h1 t (taddrs (plug fs T))" unfolding T by blast
  show ?thesis
  proof (cases b)
    case False
    then show ?thesis using f g by (auto simp: rbtree_fixup_def zfix_def)
  next
    case True
    have ta: "taddrs T' = taddrs (plug fs T)" using zloop_addrs f(2) by (metis fst_conv)
    have "x \<in> taddrs T'" unfolding ta X by simp
    then have x: "\<exists>n. rget h1 (Some x) = Some n \<and> rb_ctrl n = Some t"
      using f(3) tree_ctrl unfolding owns_def rget_def by fastforce
    obtain a where a: "rootp T' = Some a" using \<open>x \<in> taddrs T'\<close> by (cases T') auto
    obtain K where "rctrls h1 t = Some K" using f(3) by (auto simp: owns_def)
    from owns_repaint_root [OF f(3) a this] obtain h2 where
      h2: "do { h \<leftarrow> cset h1 (Some t) (rc_root_update (\<lambda>_. Some a)); paint h (Some a) BLACK } = Some h2"
      "owns h2 t (repaint BLACK T')" "same_but h1 h2 t (taddrs (plug fs T))" unfolding ta by blast
    then show ?thesis using f g x a True same_but_trans [OF f(6) h2(3)]
      by (auto simp: rbtree_fixup_def zfix_def simp del: taddrs_plug)
  qed
qed

end
