(* ===== verification/RbtreeInv.thy ===== *)
theory RbtreeInv
  imports RbtreeFix
begin

text \<open>
  What the fix-up preserves, on the tree side: the in-order sequence of nodes, and the two
  red-black invariants. \<open>rb T n\<close> says that \<open>T\<close> has no red node with a red child and black
  height \<open>n\<close>; \<open>cok fs n\<close> that the frames are the surroundings of such a subtree in a tree
  with a black root.
\<close>

section \<open>In-order sequence\<close>

type_synonym 'd entry = "addr \<times> int \<times> 'd option"

primrec inorder :: "'d rt \<Rightarrow> 'd entry list" where
  "inorder E = []"
| "inorder (N a c k d l r) = inorder l @ (a, k, d) # inorder r"

primrec before :: "'d frame list \<Rightarrow> 'd entry list" where
  "before [] = []"
| "before (f # fs) = before fs @ (case f of FL a c k d r \<Rightarrow> [] | FR l a c k d \<Rightarrow> inorder l @ [(a, k, d)])"

primrec after :: "'d frame list \<Rightarrow> 'd entry list" where
  "after [] = []"
| "after (f # fs) = (case f of FL a c k d r \<Rightarrow> (a, k, d) # inorder r | FR l a c k d \<Rightarrow> []) @ after fs"

lemma inorder_plug: "inorder (plug fs T) = before fs @ inorder T @ after fs"
proof (induction fs arbitrary: T)
  case Nil
  then show ?case by simp
next
  case (Cons f fs)
  then show ?case by (cases f) auto
qed

lemma inorder_repaint [simp]: "inorder (repaint c T) = inorder T"
  by (cases T) auto

lemma inorder_zrecolor: "inorder (zrecolor f g T) = inorder (plug1 g (plug1 f T))"
  by (cases f; cases g) (auto simp: zrecolor_def)

lemma inorder_zrot: "inorder (zrot f g T) = inorder (plug1 g (plug1 f T))"
  by (induction f g T rule: zrot.induct) auto

lemma inorder_zloop: "inorder (fst (zloop fs T)) = inorder (plug fs T)"
  by (induction fs T rule: zloop.induct) (auto simp: inorder_plug inorder_zrecolor inorder_zrot)

lemma inorder_zfix: "inorder (zfix fs T) = inorder (plug fs T)"
  using inorder_zloop [of fs T] by (auto simp: zfix_def split: prod.split)

section \<open>Red-black invariants\<close>

fun rb :: "'d rt \<Rightarrow> nat \<Rightarrow> bool" where
  "rb E n \<longleftrightarrow> n = 0"
| "rb (N a RED k d l r) n \<longleftrightarrow> tcolor l = BLACK \<and> tcolor r = BLACK \<and> rb l n \<and> rb r n"
| "rb (N a BLACK k d l r) n \<longleftrightarrow> (\<exists>m. n = Suc m \<and> rb l m \<and> rb r m)"

fun cok :: "'d frame list \<Rightarrow> nat \<Rightarrow> bool" where
  "cok [] n \<longleftrightarrow> True"
| "cok (f # fs) n \<longleftrightarrow> rb (fsib f) n \<and> (if fcolor f = BLACK then cok fs (Suc n)
     else tcolor (fsib f) = BLACK \<and> fs \<noteq> [] \<and> fcolor (hd fs) = BLACK \<and> cok fs n)"

definition rbtree_ok :: "'d rt \<Rightarrow> bool" where
  "rbtree_ok T \<longleftrightarrow> tcolor T = BLACK \<and> (\<exists>n. rb T n)"

lemma color_not [simp]: "c \<noteq> BLACK \<longleftrightarrow> c = RED" "c \<noteq> RED \<longleftrightarrow> c = BLACK"
  by (cases c; simp)+

lemma tcolor_plug1 [simp]: "tcolor (plug1 f T) = fcolor f"
  by (cases f) auto

lemma rb_repaint: "rb T n \<Longrightarrow> \<exists>m. rb (repaint BLACK T) m"
  by (cases T; cases "tcolor T") auto

lemma rb_plug1: "rb (plug1 f T) n \<longleftrightarrow> (case fcolor f of
    RED \<Rightarrow> tcolor T = BLACK \<and> tcolor (fsib f) = BLACK \<and> rb T n \<and> rb (fsib f) n
  | BLACK \<Rightarrow> (\<exists>m. n = Suc m \<and> rb T m \<and> rb (fsib f) m))"
  by (cases f) (auto split: color.split)

lemma rb_plugD:
  "rb (plug fs T) m \<Longrightarrow> tcolor (plug fs T) = BLACK \<Longrightarrow>
    \<exists>n. rb T n \<and> cok fs n \<and> (tcolor T = RED \<longrightarrow> fs \<noteq> [] \<longrightarrow> fcolor (hd fs) = BLACK)"
proof (induction fs arbitrary: T)
  case Nil
  then show ?case by auto
next
  case (Cons f fs)
  then obtain n where n: "rb (plug1 f T) n" "cok fs n" "fcolor f = RED \<longrightarrow> fs \<noteq> [] \<longrightarrow> fcolor (hd fs) = BLACK"
    by fastforce
  show ?case
  proof (cases "fcolor f")
    case RED
    then have "fs \<noteq> []" using Cons.prems(2) by auto
    then show ?thesis using n RED by (auto simp: rb_plug1)
  next
    case BLACK
    then show ?thesis using n by (auto simp: rb_plug1)
  qed
qed

lemma rb_plugI:
  "rb T n \<Longrightarrow> cok fs n \<Longrightarrow> fs \<noteq> [] \<Longrightarrow> tcolor T = BLACK \<or> fcolor (hd fs) = BLACK \<Longrightarrow> rbtree_ok (plug fs T)"
proof (induction fs arbitrary: T n)
  case Nil
  then show ?case by simp
next
  case (Cons f fs)
  show ?case
  proof (cases "fcolor f")
    case RED
    then have "rb (plug1 f T) n" "fs \<noteq> []" "fcolor (hd fs) = BLACK" "cok fs n"
      using Cons.prems by (auto simp: rb_plug1)
    then show ?thesis using Cons.IH by simp
  next
    case BLACK
    then have r: "rb (plug1 f T) (Suc n)" "cok fs (Suc n)" using Cons.prems by (auto simp: rb_plug1)
    then show ?thesis using Cons.IH [OF r] BLACK by (cases "fs = []") (auto simp: rbtree_ok_def)
  qed
qed

lemma rb_zrecolor:
  assumes "rb T n" "tcolor T = RED" "cok (f # g # fs) n" "fcolor f = RED" "tcolor (fsib g) = RED"
  shows "rb (zrecolor f g T) (Suc n)" "tcolor (zrecolor f g T) = RED" "cok fs (Suc n)"
proof -
  have g: "fcolor g = BLACK" "rb (fsib g) n" "cok fs (Suc n)" "rb (fsib f) n" using assms by auto
  obtain a k d l r where u: "fsib g = N a RED k d l r" using assms(5) by (cases "fsib g") auto
  show "cok fs (Suc n)" by (rule g)
  show "tcolor (zrecolor f g T) = RED" by (cases g) (auto simp: zrecolor_def)
  show "rb (zrecolor f g T) (Suc n)" using g u assms(1)
    by (cases f; cases g) (auto simp: zrecolor_def)
qed

lemma rb_zrot:
  assumes "rb T n" "tcolor T = RED" "cok (f # g # fs) n" "fcolor f = RED" "tcolor (fsib g) = BLACK"
  shows "rb (zrot f g T) (Suc n)" "tcolor (zrot f g T) = BLACK" "cok fs (Suc n)"
proof -
  have g: "fcolor g = BLACK" "rb (fsib g) n" "cok fs (Suc n)" "rb (fsib f) n" "tcolor (fsib f) = BLACK"
    using assms by auto
  show "cok fs (Suc n)" by (rule g)
  show "tcolor (zrot f g T) = BLACK" using assms(2,4) by (cases f; cases g; cases T) auto
  show "rb (zrot f g T) (Suc n)" using g assms by (cases f; cases g; cases T) auto
qed

lemma rb_zfix: "rb T n \<Longrightarrow> tcolor T = RED \<Longrightarrow> cok fs n \<Longrightarrow> rbtree_ok (zfix fs T)"
proof (induction fs T arbitrary: n rule: zloop.induct)
  case (1 T)
  then show ?case using rb_repaint [of T n] by (cases T) (auto simp: zfix_def rbtree_ok_def)
next
  case (2 f T)
  then show ?case using rb_plugI [of T n "[f]"] by (auto simp: zfix_def split: if_splits)
next
  case (3 f g fs T)
  show ?case
  proof (cases "fcolor f")
    case BLACK
    then show ?thesis using rb_plugI [of T n "f # g # fs"] 3(2-4) by (auto simp: zfix_def)
  next
    case RED
    show ?thesis
    proof (cases "tcolor (fsib g)")
      case RED2: RED
      from rb_zrecolor [OF 3(2-4) RED RED2] 3(1) [OF RED RED2] show ?thesis
        using RED RED2 by (auto simp: zfix_def)
    next
      case BLACK
      note z = rb_zrot [OF 3(2-4) RED BLACK]
      show ?thesis using rb_plugI [OF z(1,3)] z RED BLACK
        by (cases "fs = []") (auto simp: zfix_def rbtree_ok_def)
    qed
  qed
qed

section \<open>Height\<close>

primrec theight :: "'d rt \<Rightarrow> nat" where
  "theight E = 0"
| "theight (N a c k d l r) = Suc (max (theight l) (theight r))"

lemma rb_size: "rb T n \<Longrightarrow> 2 ^ n \<le> length (inorder T) + 1"
proof (induction T arbitrary: n)
  case E
  then show ?case by simp
next
  case (N a c k d l r)
  show ?case
  proof (cases c)
    case RED
    then show ?thesis using N.IH(1) [of n] N.prems by simp
  next
    case BLACK
    then obtain m where m: "n = Suc m" "rb l m" "rb r m" using N.prems by auto
    then show ?thesis using N.IH(1) [OF m(2)] N.IH(2) [OF m(3)] by simp
  qed
qed

lemma rb_height: "rb T n \<Longrightarrow> theight T \<le> 2 * n + (if tcolor T = RED then 1 else 0)"
proof (induction T arbitrary: n)
  case E
  then show ?case by simp
next
  case (N a c k d l r)
  show ?case
  proof (cases c)
    case RED
    then show ?thesis using N.IH(1) [of n] N.IH(2) [of n] N.prems by auto
  next
    case BLACK
    then obtain m where m: "n = Suc m" "rb l m" "rb r m" using N.prems by auto
    then show ?thesis using N.IH(1) [OF m(2)] N.IH(2) [OF m(3)] BLACK by (auto split: if_splits)
  qed
qed

lemma rbtree_ok_height: "rbtree_ok T \<Longrightarrow> 2 ^ (theight T div 2) \<le> length (inorder T) + 1"
proof -
  assume "rbtree_ok T"
  then obtain n where n: "rb T n" "tcolor T = BLACK" by (auto simp: rbtree_ok_def)
  have "theight T div 2 \<le> n" using rb_height [OF n(1)] n(2) by simp
  then have "(2::nat) ^ (theight T div 2) \<le> 2 ^ n" by (simp add: power_increasing)
  with rb_size [OF n(1)] show ?thesis by linarith
qed

section \<open>The search path\<close>

fun zdown :: "(int \<Rightarrow> int \<Rightarrow> bool) \<Rightarrow> int \<Rightarrow> 'd rt \<Rightarrow> 'd frame list \<Rightarrow> 'd frame list" where
  "zdown goright key E fs = fs"
| "zdown goright key (N a c k d l r) fs =
     (if goright k key then zdown goright key r (FR l a c k d # fs)
      else zdown goright key l (FL a c k d r # fs))"

lemma plug_zdown: "plug (zdown goright key T fs) E = plug fs T"
  by (induction T arbitrary: fs) auto

lemma zdown_nil: "zdown goright key T fs = [] \<longleftrightarrow> T = E \<and> fs = []"
  by (induction T arbitrary: fs) auto

lemma zdown_last: "fs \<noteq> [] \<Longrightarrow> last (zdown goright key T fs) = last fs"
  by (induction T arbitrary: fs) auto

lemma last_zdown_color: "T \<noteq> E \<Longrightarrow> fcolor (last (zdown goright key T [])) = tcolor T"
  by (cases T) (auto simp: zdown_last)

lemma zdown_sorted:
  assumes "sorted (map (fst \<circ> snd) (before fs @ inorder T @ after fs))"
    "\<forall>e \<in> set (before fs). fst (snd e) < key" "\<forall>e \<in> set (after fs). key \<le> fst (snd e)"
  shows "(\<forall>e \<in> set (before (zdown (<) key T fs)). fst (snd e) < key) \<and>
    (\<forall>e \<in> set (after (zdown (<) key T fs)). key \<le> fst (snd e))"
  using assms
proof (induction T arbitrary: fs)
  case E
  then show ?case by simp
next
  case (N a c k d l r)
  show ?case
  proof (cases "k < key")
    case True
    have "\<forall>e \<in> set (before (FR l a c k d # fs)). fst (snd e) < key"
    proof -
      have "\<forall>e \<in> set (inorder l). fst (snd e) \<le> k" using N.prems(1) by (simp add: sorted_append)
      then show ?thesis using N.prems(2) True by auto
    qed
    then show ?thesis using N.IH(2) [of "FR l a c k d # fs"] N.prems True by simp
  next
    case False
    have "\<forall>e \<in> set (after (FL a c k d r # fs)). key \<le> fst (snd e)"
    proof -
      have "\<forall>e \<in> set (inorder r). k \<le> fst (snd e)" using N.prems(1) by (simp add: sorted_append)
      then show ?thesis using N.prems(3) False by auto
    qed
    then show ?thesis using N.IH(1) [of "FL a c k d r # fs"] N.prems False by simp
  qed
qed

text \<open>The tree that insertion of node \<open>x\<close> makes.\<close>

definition tinsert :: "(int \<Rightarrow> int \<Rightarrow> bool) \<Rightarrow> addr \<Rightarrow> int \<Rightarrow> 'd option \<Rightarrow> 'd rt \<Rightarrow> 'd rt" where
  "tinsert goright x key d T = (if T = E then N x BLACK key d E E
     else zfix (zdown goright key T []) (N x RED key d E E))"

lemma split_while:
  assumes "\<forall>x \<in> set xs. P x" "\<forall>y \<in> set ys. \<not> P y"
  shows "takeWhile P (xs @ ys) = xs" "dropWhile P (xs @ ys) = ys"
  using assms by (cases ys; simp add: takeWhile_append2 dropWhile_append2)+

lemma inorder_tinsert:
  assumes "sorted (map (fst \<circ> snd) (inorder T))"
  shows "inorder (tinsert (<) x key d T) =
    takeWhile (\<lambda>e. fst (snd e) < key) (inorder T) @ (x, key, d) # dropWhile (\<lambda>e. fst (snd e) < key) (inorder T)"
proof (cases "T = E")
  case True
  then show ?thesis by (simp add: tinsert_def)
next
  case False
  let ?fs = "zdown (<) key T []"
  have eq: "inorder T = before ?fs @ after ?fs"
    using inorder_plug [of ?fs E] plug_zdown [of "(<)" key T "[]"] by simp
  have "inorder (tinsert (<) x key d T) = before ?fs @ (x, key, d) # after ?fs"
    using False by (simp add: tinsert_def inorder_zfix inorder_plug)
  moreover have b: "\<forall>e \<in> set (before ?fs). fst (snd e) < key" "\<forall>e \<in> set (after ?fs). \<not> fst (snd e) < key"
    using zdown_sorted [of "[]" T key] assms by auto
  then have "takeWhile (\<lambda>e. fst (snd e) < key) (inorder T) = before ?fs"
    "dropWhile (\<lambda>e. fst (snd e) < key) (inorder T) = after ?fs"
    unfolding eq using split_while [OF b] by (simp_all only:)
  ultimately show ?thesis by simp
qed

lemma sorted_tinsert:
  assumes "sorted (map (fst \<circ> snd) (inorder T))"
  shows "sorted (map (fst \<circ> snd) (inorder (tinsert (<) x key d T)))"
proof -
  let ?P = "\<lambda>e :: 'a entry. fst (snd e) < key" and ?es = "inorder T"
  have s: "sorted (map (fst \<circ> snd) (takeWhile ?P ?es))" "sorted (map (fst \<circ> snd) (dropWhile ?P ?es))"
    using assms by (metis sorted_append takeWhile_dropWhile_id map_append)+
  have t: "\<forall>e \<in> set (takeWhile ?P ?es). fst (snd e) < key" by (auto dest: set_takeWhileD)
  have d: "\<forall>e \<in> set (dropWhile ?P ?es). key \<le> fst (snd e)"
  proof (cases "dropWhile ?P ?es")
    case Nil
    show ?thesis unfolding Nil by simp
  next
    case (Cons e es)
    then have "key \<le> fst (snd e)" using hd_dropWhile [of ?P ?es] by (simp add: not_less)
    then show ?thesis using s(2) Cons by auto
  qed
  have "x \<le> y" if "x \<in> set (map (fst \<circ> snd) (takeWhile ?P ?es))" "y \<in> set (map (fst \<circ> snd) (dropWhile ?P ?es))" for x y
    using that t d by (auto dest!: bspec)
  moreover have "x \<le> key" if "x \<in> set (map (fst \<circ> snd) (takeWhile ?P ?es))" for x
    using that t by (auto dest!: bspec)
  ultimately show ?thesis unfolding inorder_tinsert [OF assms] using s d by (simp add: sorted_append)
qed

lemma rbtree_ok_tinsert:
  assumes "rbtree_ok T"
  shows "rbtree_ok (tinsert goright x key d T)"
proof (cases "T = E")
  case True
  then show ?thesis by (simp add: tinsert_def rbtree_ok_def)
next
  case False
  from assms obtain m where "rb (plug (zdown goright key T []) E) m" "tcolor T = BLACK"
    by (auto simp: rbtree_ok_def plug_zdown)
  then obtain n where "rb (E :: 'a rt) n" "cok (zdown goright key T []) n"
    using rb_plugD [of "zdown goright key T []" E m] by (auto simp: plug_zdown)
  then show ?thesis using rb_zfix [of "N x RED key d E E" 0 "zdown goright key T []"] False
    by (auto simp: tinsert_def)
qed

end
