(* ===== verification/RbtreeOps.thy ===== *)
theory RbtreeOps
  imports RbtreeInv
begin

text \<open>
  Search, traversal, the pool and insertion on heaps that hold a live tree \<open>T\<close> and a pool
  tree \<open>P\<close> (\<open>rbt h t T P\<close>).
\<close>

section \<open>Search and traversal\<close>

primrec tsearch :: "'d rt \<Rightarrow> int \<Rightarrow> ptr" where
  "tsearch E key = None"
| "tsearch (N a c k d l r) key = (if k = key then Some a else if key < k then tsearch l key else tsearch r key)"

lemma rbtree_search_tree: "tree (rnodes h) t par T \<Longrightarrow> rbtree_search h (rootp T) key = Some (tsearch T key)"
proof (induction T arbitrary: par)
  case E
  then show ?case by (subst rbtree_search.simps) simp
next
  case (N a c k d l r)
  then show ?case by (subst rbtree_search.simps) auto
qed

definition first_addr :: "'d entry list \<Rightarrow> ptr" where
  "first_addr es = (case es of [] \<Rightarrow> None | e # _ \<Rightarrow> Some (fst e))"

lemma first_addr_simps [simp]: "first_addr [] = None" "first_addr (e # es) = Some (fst e)"
  by (simp_all add: first_addr_def)

lemma first_addr_append: "first_addr (xs @ ys) = (if xs = [] then first_addr ys else first_addr xs)"
  by (cases xs) auto

lemma inorder_Nil [simp]: "inorder T = [] \<longleftrightarrow> T = E"
  by (cases T) auto

lemma rbtree_min_tree: "tree (rnodes h) t par T \<Longrightarrow> rbtree_min h (rootp T) = Some (first_addr (inorder T))"
proof (induction T arbitrary: par)
  case E
  then show ?case by (subst rbtree_min.simps) simp
next
  case (N a c k d l r)
  show ?case
  proof (cases "l = E")
    case True
    then show ?thesis using N.prems by (subst rbtree_min.simps) simp
  next
    case False
    then show ?thesis using N by (subst rbtree_min.simps) (auto simp: first_addr_append)
  qed
qed

lemma rbtree_max_tree: "tree (rnodes h) t par T \<Longrightarrow>
    rbtree_max h (rootp T) = Some (first_addr (rev (inorder T)))"
proof (induction T arbitrary: par)
  case E
  then show ?case by (subst rbtree_max.simps) simp
next
  case (N a c k d l r)
  show ?case
  proof (cases "r = E")
    case True
    then show ?thesis using N.prems by (subst rbtree_max.simps) simp
  next
    case False
    then show ?thesis using N by (subst rbtree_max.simps) (auto simp: first_addr_append)
  qed
qed

lemma succ_climb_ctxt:
  assumes "ctxt (rnodes h) t (Some x) fs" "cdist fs" "x \<notin> caddrs fs"
  shows "succ_climb h (Some x) (cpar fs) = Some (first_addr (after fs))"
  using assms
proof (induction fs arbitrary: x)
  case Nil
  then show ?case by (subst succ_climb.simps) simp
next
  case (Cons f fs)
  show ?case
  proof (cases f)
    case (FL a c k d r)
    have "rootp r \<noteq> Some x" using Cons.prems(3) FL rootp_taddrs by fastforce
    then show ?thesis using Cons.prems FL by (subst succ_climb.simps) auto
  next
    case (FR l a c k d)
    then show ?thesis using Cons.prems Cons.IH [of a] by (subst succ_climb.simps) auto
  qed
qed

lemma rbtree_successor_tree:
  assumes O: "owns h t (plug fs (N a c k d l r))"
  shows "rbtree_successor h (Some a) = Some (first_addr (inorder r @ after fs))"
proof -
  have g: "rget h (Some a) = Some (mknode (Some t) k (rootp l) (rootp r) (cpar fs) d c)" using get_owns [OF O] .
  have D: "tdist (plug fs (N a c k d l r))" "ctxt (rnodes h) (Some t) (Some a) fs"
    "tree (rnodes h) (Some t) (Some a) r"
    using O by (auto simp: owns_def tree_plug)
  show ?thesis
  proof (cases "r = E")
    case True
    then show ?thesis using g succ_climb_ctxt [OF D(2)] D(1) by (auto simp: rbtree_successor_def tdist_plug)
  next
    case False
    then show ?thesis using g rbtree_min_tree [OF D(3)] by (auto simp: rbtree_successor_def first_addr_append)
  qed
qed

lemma taddrs_inorder: "taddrs T = fst ` set (inorder T)"
  by (induction T) auto

lemma plug_at: "a \<in> taddrs T \<Longrightarrow> \<exists>fs c k d l r. T = plug fs (N a c k d l r)"
proof (induction T)
  case E
  then show ?case by simp
next
  case (N b c k d l r)
  show ?case
  proof (cases "a = b")
    case True
    then show ?thesis by (metis plug_simps(1))
  next
    case False
    then consider "a \<in> taddrs l" | "a \<in> taddrs r" using N.prems by auto
    then show ?thesis
    proof cases
      case 1
      then obtain fs c' k' d' l' r' where "l = plug fs (N a c' k' d' l' r')" using N.IH(1) by blast
      then have "N b c k d l r = plug (fs @ [FL b c k d r]) (N a c' k' d' l' r')" by (simp add: plug_def)
      then show ?thesis by blast
    next
      case 2
      then obtain fs c' k' d' l' r' where "r = plug fs (N a c' k' d' l' r')" using N.IH(2) by blast
      then have "N b c k d l r = plug (fs @ [FR l b c k d]) (N a c' k' d' l' r')" by (simp add: plug_def)
      then show ?thesis by blast
    qed
  qed
qed

lemma distinct_inorder: "tdist T \<Longrightarrow> distinct (map fst (inorder T))"
  by (induction T) (auto simp: taddrs_inorder)

lemma split_unique:
  "xs @ u # ys = us @ v # vs \<Longrightarrow> f u = f v \<Longrightarrow> distinct (map f (us @ v # vs)) \<Longrightarrow> ys = vs"
proof (induction xs arbitrary: us)
  case Nil
  then show ?case by (cases us) auto
next
  case (Cons x xs)
  show ?case
  proof (cases us)
    case Nil
    then have "f v \<in> f ` set vs" using Cons.prems(1,2) by auto
    then show ?thesis using Cons.prems(3) Nil by auto
  next
    case (Cons w ws)
    then show ?thesis using Cons.IH [of ws] Cons.prems by auto
  qed
qed

text \<open>Following \<open>rbtree_successor\<close> from the minimum lists the tree in order.\<close>

lemma rbtree_successor_next:
  assumes O: "owns h t T" and i: "inorder T = us @ (a, k, d) # vs"
  shows "rbtree_successor h (Some a) = Some (first_addr vs)"
proof -
  have "a \<in> taddrs T" using i by (auto simp: taddrs_inorder)
  then obtain fs c k' d' l r where T: "T = plug fs (N a c k' d' l r)" using plug_at by blast
  then have e: "(before fs @ inorder l) @ (a, k', d') # (inorder r @ after fs) = us @ (a, k, d) # vs"
    using i by (simp add: inorder_plug)
  have "distinct (map fst (inorder T))" using O distinct_inorder by (auto simp: owns_def)
  then have "inorder r @ after fs = vs" using split_unique [OF e, of fst] unfolding i by simp
  then show ?thesis using rbtree_successor_tree [of h t fs a c k' d' l r] O T by simp
qed

section \<open>The pool\<close>

definition left_empty :: "'d frame list \<Rightarrow> bool" where
  "left_empty gs \<longleftrightarrow> (\<forall>g \<in> set gs. case g of FL a c k d r \<Rightarrow> True | FR l a c k d \<Rightarrow> l = E)"

definition pool_pos :: "'d rt \<Rightarrow> ptr \<Rightarrow> bool" where
  "pool_pos P q \<longleftrightarrow> (P = E \<and> q = None) \<or>
     (\<exists>gs p c k d r. P = plug gs (N p c k d E r) \<and> left_empty gs \<and> q = Some p)"

definition pool_at :: "'d rbheap \<Rightarrow> addr \<Rightarrow> 'd rt \<Rightarrow> bool" where
  "pool_at h t P \<longleftrightarrow> tree (rnodes h) (Some t) None P \<and> tdist P \<and>
     (\<exists>c. rctrls h t = Some c \<and> rc_pool_root c = rootp P \<and> pool_pos P (rc_pool_ptr c))"

definition rb_fresh :: "'d rbheap \<Rightarrow> bool" where
  "rb_fresh h \<longleftrightarrow> (\<forall>a \<ge> rbrk h. rnodes h a = None \<and> rctrls h a = None)"

definition rbt :: "'d rbheap \<Rightarrow> addr \<Rightarrow> 'd rt \<Rightarrow> 'd rt \<Rightarrow> bool" where
  "rbt h t T P \<longleftrightarrow> owns h t T \<and> pool_at h t P \<and> taddrs T \<inter> taddrs P = {} \<and> rb_fresh h"

lemma plug_append: "plug (fs @ gs) T = plug gs (plug fs T)"
  by (simp add: plug_def)

lemma left_empty_append [simp]: "left_empty (fs @ gs) \<longleftrightarrow> left_empty fs \<and> left_empty gs"
  by (auto simp: left_empty_def)

lemma left_empty_simps [simp]: "left_empty []" "left_empty (FL a c k d r # gs) = left_empty gs"
  "left_empty (FR l a c k d # gs) \<longleftrightarrow> l = E \<and> left_empty gs"
  by (auto simp: left_empty_def)

lemma min_pos: "S \<noteq> E \<Longrightarrow> \<exists>gs p c k d r. S = plug gs (N p c k d E r) \<and> left_empty gs \<and>
    first_addr (inorder S) = Some p"
proof (induction S)
  case E
  then show ?case by simp
next
  case (N a c k d l r)
  show ?case
  proof (cases "l = E")
    case True
    then show ?thesis by (metis first_addr_simps(2) fst_conv inorder.simps append_Nil left_empty_simps(1) plug_simps(1))
  next
    case False
    then obtain gs p c' k' d' r' where l: "l = plug gs (N p c' k' d' E r')" "left_empty gs"
      "first_addr (inorder l) = Some p" using N.IH(1) by blast
    then have "N a c k d l r = plug (gs @ [FL a c k d r]) (N p c' k' d' E r')" by (simp add: plug_append)
    moreover have "left_empty (gs @ [FL a c k d r])" using l(2) by simp
    moreover have "first_addr (inorder (N a c k d l r)) = Some p" using l(3) False by (simp add: first_addr_append)
    ultimately show ?thesis by blast
  qed
qed

lemma reset_pool_ptr_tree:
  assumes "tree (rnodes h) t par S" "S \<noteq> E"
  shows "\<exists>gs p c k d r. S = plug gs (N p c k d E r) \<and> left_empty gs \<and> reset_pool_ptr h (rootp S) = Some (Some p)"
  using assms
proof (induction S arbitrary: par)
  case E
  then show ?case by simp
next
  case (N a c k d l r)
  show ?case
  proof (cases "l = E \<and> r \<noteq> E")
    case True
    then obtain gs p c' k' d' r' where r: "r = plug gs (N p c' k' d' E r')" "left_empty gs"
      "reset_pool_ptr h (rootp r) = Some (Some p)" using N.IH(2) [of "Some a"] N.prems by auto
    have "reset_right h (Some a) = reset_right h (rootp r)"
      using N.prems True by (subst reset_right.simps) simp
    then have "reset_pool_ptr h (Some a) = Some (Some p)" using r(3) by (simp add: reset_pool_ptr_def)
    moreover have "N a c k d l r = plug (gs @ [FR E a c k d]) (N p c' k' d' E r')"
      using r(1) True by (simp add: plug_append)
    moreover have "left_empty (gs @ [FR E a c k d])" using r(2) by simp
    ultimately show ?thesis by (metis rootp.simps(2))
  next
    case False
    have "reset_right h (Some a) = Some (Some a)"
      using N.prems(1) False by (subst reset_right.simps) auto
    then have "reset_pool_ptr h (Some a) = rbtree_min h (Some a)" by (simp add: reset_pool_ptr_def)
    then show ?thesis using rbtree_min_tree [OF N.prems(1)] min_pos [OF N.prems(2)] by auto
  qed
qed

end
