(* ===== verification/RbtreeInsert.thy ===== *)
theory RbtreeInsert
  imports RbtreeOps
begin

text \<open>Taking a node from the pool, insertion, and clearing a tree into the pool.\<close>

section \<open>Taking a node from the pool\<close>

definition pool_step :: "'d rbheap \<Rightarrow> 'd rbheap \<Rightarrow> addr \<Rightarrow> addr \<Rightarrow> 'd rt \<Rightarrow> 'd rt \<Rightarrow> bool" where
  "pool_step h h' t p P P' \<longleftrightarrow> pool_at h' t P' \<and> taddrs P' \<subseteq> taddrs P - {p} \<and> rnodes h' p = rnodes h p \<and>
     (\<forall>z. z \<notin> taddrs P \<longrightarrow> rnodes h' z = rnodes h z) \<and> rbrk h' = rbrk h \<and>
     (\<forall>u. u \<noteq> t \<longrightarrow> rctrls h' u = rctrls h u) \<and>
     (\<exists>K K'. rctrls h t = Some K \<and> rctrls h' t = Some K' \<and> rc_root K' = rc_root K \<and> rc_count K' = rc_count K)"

lemma pool_take_root:
  assumes T: "tree (rnodes h) (Some t) None (N p c k d E r)" and D: "tdist (N p c k d E r)"
    and K: "rctrls h t = Some K"
  shows "\<exists>h' P'. pool_take h (Some t) (Some p) = Some h' \<and> pool_step h h' t p (N p c k d E r) P'"
proof (cases r)
  case E
  let ?g = "h\<lparr>rctrls := (rctrls h)(t \<mapsto> K\<lparr>rc_pool_ptr := None, rc_pool_root := None\<rparr>)\<rparr>"
  have "pool_take h (Some t) (Some p) = Some ?g" using T K E by (simp add: pool_take_def rb_prims)
  moreover have "pool_step h ?g t p (N p c k d E r) E" using K by (simp add: pool_step_def pool_at_def pool_pos_def)
  ultimately show ?thesis by blast
next
  case (N a c' k' d' l' r')
  let ?n = "mknode (Some t) k' (rootp l') (rootp r') None d' c'"
  let ?m = "(rnodes h)(a \<mapsto> ?n)"
  let ?g = "h\<lparr>rctrls := (rctrls h)(t \<mapsto> K\<lparr>rc_pool_ptr := Some a, rc_pool_root := Some a\<rparr>), rnodes := ?m\<rparr>"
  have tr: "tree (rnodes ?g) (Some t) None r" using T D N by simp
  have "r \<noteq> E" using N by simp
  from reset_pool_ptr_tree [OF tr this] obtain gs q qc qk qd qr where
    q: "r = plug gs (N q qc qk qd E qr)" "left_empty gs" "reset_pool_ptr ?g (rootp r) = Some (Some q)" by blast
  let ?f = "?g\<lparr>rctrls := (rctrls ?g)(t \<mapsto> K\<lparr>rc_pool_root := Some a, rc_pool_ptr := Some q\<rparr>)\<rparr>"
  have "pool_take h (Some t) (Some p) = Some ?f" using T K N q(3) by (simp add: pool_take_def rb_prims)
  moreover have "pool_step h ?f t p (N p c k d E r) r" unfolding pool_step_def
  proof (intro conjI)
    have "pool_pos r (Some q)" unfolding pool_pos_def using q by blast
    then show "pool_at ?f t r" using tr D N by (simp add: pool_at_def)
    show "taddrs r \<subseteq> taddrs (N p c k d E r) - {p}" using D by auto
    show "rnodes ?f p = rnodes h p" "\<forall>z. z \<notin> taddrs (N p c k d E r) \<longrightarrow> rnodes ?f z = rnodes h z"
      using D N by auto
    show "rbrk ?f = rbrk h" "\<forall>u. u \<noteq> t \<longrightarrow> rctrls ?f u = rctrls h u" by simp_all
    show "\<exists>K0 K'. rctrls h t = Some K0 \<and> rctrls ?f t = Some K' \<and> rc_root K' = rc_root K0 \<and> rc_count K' = rc_count K0"
      using K by simp
  qed
  ultimately show ?thesis by blast
qed

lemma pool_take_right:
  assumes T: "tree (rnodes h) (Some t) None (plug (FR E a ac ak ad # gs) (N p c k d E r))"
    and D: "tdist (plug (FR E a ac ak ad # gs) (N p c k d E r))" and g: "left_empty gs"
    and K: "rctrls h t = Some K" "rc_pool_root K = rootp (plug (FR E a ac ak ad # gs) (N p c k d E r))"
  shows "\<exists>h' P'. pool_take h (Some t) (Some p) = Some h' \<and>
    pool_step h h' t p (plug (FR E a ac ak ad # gs) (N p c k d E r)) P'"
proof -
  let ?P = "plug (FR E a ac ak ad # gs) (N p c k d E r)" and ?P' = "plug gs (N a ac ak ad E E)"
  let ?g = "h\<lparr>rnodes := (rnodes h)(a \<mapsto> mknode (Some t) ak None None (cpar gs) ad ac),
     rctrls := (rctrls h)(t \<mapsto> K\<lparr>rc_pool_ptr := Some a\<rparr>)\<rparr>"
  have C: "ctxt (rnodes h) (Some t) (Some a) gs" "rnodes h a = Some (mknode (Some t) ak None (Some p) (cpar gs) ad ac)"
    "rnodes h p = Some (mknode (Some t) k None (rootp r) (Some a) d c)"
    using T unfolding tree_plug by auto
  have d: "a \<notin> caddrs gs" "a \<noteq> p" "p \<notin> caddrs gs" "cdist gs" using D unfolding tdist_plug by auto
  have "pool_take h (Some t) (Some p) = Some ?g" using C K by (simp add: pool_take_def rb_prims)
  moreover have "pool_step h ?g t p ?P ?P'" unfolding pool_step_def
  proof (intro conjI)
    have "pool_pos ?P' (Some a)" unfolding pool_pos_def using g by blast
    moreover have "tree (rnodes ?g) (Some t) None ?P'" unfolding tree_plug using C d by simp
    moreover have "tdist ?P'" using d by (simp add: tdist_plug)
    moreover have "rootp ?P = rootp ?P'" by (simp add: rootp_plug)
    ultimately show "pool_at ?g t ?P'" using K by (simp add: pool_at_def)
    show "taddrs ?P' \<subseteq> taddrs ?P - {p}" using d by auto
  qed (use K d in auto)
  ultimately show ?thesis by blast
qed

lemma pool_take_left:
  assumes T: "tree (rnodes h) (Some t) None (plug (FL a ac ak ad s # gs) (N p c k d E r))"
    and D: "tdist (plug (FL a ac ak ad s # gs) (N p c k d E r))" and g: "left_empty gs"
    and K: "rctrls h t = Some K" "rc_pool_root K = rootp (plug (FL a ac ak ad s # gs) (N p c k d E r))"
  shows "\<exists>h' P'. pool_take h (Some t) (Some p) = Some h' \<and>
    pool_step h h' t p (plug (FL a ac ak ad s # gs) (N p c k d E r)) P'"
proof -
  let ?P = "plug (FL a ac ak ad s # gs) (N p c k d E r)" and ?P' = "plug gs (N a ac ak ad E s)"
  let ?m = "(rnodes h)(a \<mapsto> mknode (Some t) ak None (rootp s) (cpar gs) ad ac)"
  have C: "ctxt (rnodes h) (Some t) (Some a) gs" "tree (rnodes h) (Some t) (Some a) s"
    "rnodes h a = Some (mknode (Some t) ak (Some p) (rootp s) (cpar gs) ad ac)"
    "rnodes h p = Some (mknode (Some t) k None (rootp r) (Some a) d c)"
    using T unfolding tree_plug by auto
  have d: "a \<notin> caddrs gs" "a \<noteq> p" "p \<notin> caddrs gs" "cdist gs" "a \<notin> taddrs s" "p \<notin> taddrs s" "tdist s"
    "taddrs s \<inter> caddrs gs = {}" using D unfolding tdist_plug by auto
  have ps: "rootp s \<noteq> Some p" using d(6) rootp_taddrs by fastforce
  let ?g = "h\<lparr>rnodes := ?m, rctrls := (rctrls h)(t \<mapsto> K\<lparr>rc_pool_ptr := Some a\<rparr>)\<rparr>"
  have step: "pool_step h f t p ?P ?P'" if f: "f = ?g\<lparr>rctrls := (rctrls h)(t \<mapsto> K\<lparr>rc_pool_ptr := q\<rparr>)\<rparr>"
    and q: "pool_pos ?P' q" for q f unfolding pool_step_def
  proof (intro conjI)
    have "tree (rnodes f) (Some t) None ?P'" unfolding tree_plug f using C d by simp
    moreover have "tdist ?P'" using d by (auto simp add: tdist_plug)
    moreover have "rootp ?P = rootp ?P'" by (simp add: rootp_plug)
    ultimately show "pool_at f t ?P'" using K q by (simp add: pool_at_def f)
    show "taddrs ?P' \<subseteq> taddrs ?P - {p}" using d by auto
  qed (use K d f in auto)
  show ?thesis
  proof (cases "s = E")
    case True
    have "pool_take h (Some t) (Some p) = Some ?g" using C K True by (simp add: pool_take_def rb_prims)
    moreover have "pool_pos ?P' (Some a)" unfolding pool_pos_def using g by blast
    ultimately show ?thesis using step [of ?g "Some a"] by auto
  next
    case False
    have ts: "tree (rnodes ?g) (Some t) (Some a) s" using C d by simp
    from reset_pool_ptr_tree [OF ts False] obtain es q qc qk qd qr where
      q: "s = plug es (N q qc qk qd E qr)" "left_empty es" "reset_pool_ptr ?g (rootp s) = Some (Some q)" by blast
    have "?P' = plug (es @ FR E a ac ak ad # gs) (N q qc qk qd E qr)" using q(1) by (simp add: plug_append)
    moreover have "left_empty (es @ FR E a ac ak ad # gs)" using q(2) g by simp
    ultimately have "pool_pos ?P' (Some q)" unfolding pool_pos_def by blast
    moreover have "pool_take h (Some t) (Some p) = Some (?g\<lparr>rctrls := (rctrls h)(t \<mapsto> K\<lparr>rc_pool_ptr := Some q\<rparr>)\<rparr>)"
      using C K False q(3) by (simp add: pool_take_def rb_prims)
    ultimately show ?thesis using step by blast
  qed
qed

lemma pool_take_rep:
  assumes P: "pool_at h t P" and K: "rctrls h t = Some K" "rc_pool_ptr K = Some p"
  shows "\<exists>h' P'. pool_take h (Some t) (Some p) = Some h' \<and> pool_step h h' t p P P' \<and> p \<in> taddrs P"
proof -
  from P K obtain gs c k d r where g: "P = plug gs (N p c k d E r)" "left_empty gs"
    "tree (rnodes h) (Some t) None P" "tdist P" "rc_pool_root K = rootp P"
    by (auto simp: pool_at_def pool_pos_def)
  have p: "p \<in> taddrs P" using g(1) by simp
  show ?thesis
  proof (cases gs)
    case Nil
    then show ?thesis using pool_take_root g(1,3,4) K(1) p by fastforce
  next
    case (Cons f fs)
    show ?thesis
    proof (cases f)
      case (FL a ac ak ad s)
      then show ?thesis using pool_take_left [of h t a ac ak ad s fs p c k d r K] g K(1) p Cons by simp
    next
      case (FR l a ac ak ad)
      then show ?thesis using pool_take_right [of h t a ac ak ad fs p c k d r K] g K(1) p Cons by simp
    qed
  qed
qed

section \<open>Insertion\<close>

lemma rbtD:
  assumes "rbt h t T P"
  obtains K where "owns h t T" "pool_at h t P" "taddrs T \<inter> taddrs P = {}" "rb_fresh h" "rctrls h t = Some K"
    "rc_root K = rootp T"
  using assms by (auto simp: rbt_def owns_def)

lemma owns_cong:
  assumes "owns h t T" "\<forall>z \<in> taddrs T. rnodes h' z = rnodes h z" "rctrls h t = Some K"
    "rctrls h' t = Some K'" "rc_root K' = rc_root K"
  shows "owns h' t T"
  using assms tree_cong [of T "rnodes h" "rnodes h'" "Some t" None] by (auto simp: owns_def)

lemma pool_at_cong:
  assumes "pool_at h t P" "\<forall>z \<in> taddrs P. rnodes h' z = rnodes h z" "rctrls h t = Some K"
    "rctrls h' t = Some K'" "rc_pool_root K' = rc_pool_root K" "rc_pool_ptr K' = rc_pool_ptr K"
  shows "pool_at h' t P"
  using assms tree_cong [of P "rnodes h" "rnodes h'" "Some t" None] by (auto simp: pool_at_def)

lemma fresh_below: "rb_fresh h \<Longrightarrow> tree (rnodes h) t par T \<Longrightarrow> a \<in> taddrs T \<Longrightarrow> a < rbrk h"
  using tree_alloc unfolding rb_fresh_def by (metis linorder_not_less)

lemma new_node_rep:
  assumes R: "rbt h t T P" and K: "rctrls h t = Some K"
  shows "\<exists>x h' P' c d' K'. new_rbtree_node h (Some t) key data reuse = Some (Some x, h') \<and>
    rnodes h' x = Some (mknode (Some t) key None None None d' c) \<and> (\<not> reuse \<longrightarrow> d' = data) \<and>
    x \<notin> taddrs T \<and> x \<notin> taddrs P' \<and> rbt h' t T P' \<and> (x \<in> taddrs P \<or> P = E \<and> P' = E) \<and>
    taddrs P' \<subseteq> taddrs P \<and> rctrls h' t = Some K' \<and> rc_count K' = rc_count K"
proof -
  from R have O: "owns h t T" "pool_at h t P" "taddrs T \<inter> taddrs P = {}" "rb_fresh h" by (auto simp: rbt_def)
  have treeT: "tree (rnodes h) (Some t) None T" and treeP: "tree (rnodes h) (Some t) None P"
    using O by (auto simp: owns_def pool_at_def)
  show ?thesis
  proof (cases "rc_pool_ptr K")
    case None
    let ?x = "rbrk h"
    let ?d = "if reuse then None else data"
    let ?g = "h\<lparr>rnodes := (rnodes h)(?x \<mapsto> mknode (Some t) key None None None ?d RED), rbrk := Suc ?x\<rparr>"
    have P: "P = E" using O(2) K None by (auto simp: pool_at_def pool_pos_def)
    have x: "?x \<notin> taddrs T" using fresh_below [OF O(4) treeT] by blast
    have "new_rbtree_node h (Some t) key data reuse = Some (Some ?x, ?g)"
      using K None by (simp add: new_rbtree_node_def rmalloc_def rb_prims)
    moreover have "owns ?g t T" using x O(1) K by (auto simp: owns_def)
    moreover have "pool_at ?g t E" using O(2) K None P by (auto simp: pool_at_def)
    moreover have "rb_fresh ?g" using O(4) by (simp add: rb_fresh_def)
    ultimately show ?thesis using x K P
      by (intro exI [of _ ?x] exI [of _ ?g] exI [of _ E] exI [of _ RED] exI [of _ ?d] exI [of _ K])
        (simp add: rbt_def)
  next
    case (Some p)
    from pool_take_rep [OF O(2) K Some] obtain g P' where
      g: "pool_take h (Some t) (Some p) = Some g" "pool_step h g t p P P'" "p \<in> taddrs P" by blast
    from tree_alloc [OF treeP g(3)] obtain n where n: "rnodes h p = Some n" by blast
    let ?d = "if reuse then rb_data n else data"
    let ?h = "g\<lparr>rnodes := (rnodes g)(p \<mapsto> mknode (Some t) key None None None ?d (rb_color n))\<rparr>"
    from g(2) obtain K' where ps: "pool_at g t P'" "taddrs P' \<subseteq> taddrs P - {p}" "rnodes g p = Some n"
      "\<forall>z. z \<notin> taddrs P \<longrightarrow> rnodes g z = rnodes h z" "rbrk g = rbrk h"
      "\<forall>u. u \<noteq> t \<longrightarrow> rctrls g u = rctrls h u" "rctrls g t = Some K'" "rc_root K' = rc_root K" "rc_count K' = rc_count K"
      using K n by (auto simp: pool_step_def)
    have pb: "p < rbrk h" "\<forall>a \<in> taddrs P. a < rbrk h" using fresh_below [OF O(4) treeP] g(3) by auto
    have "rnodes g p = Some n" by (rule ps)
    then have "new_rbtree_node h (Some t) key data reuse = Some (Some p, ?h)"
      using K Some g(1) by (cases reuse; cases n) (simp_all add: new_rbtree_node_def rb_prims)
    moreover have "owns ?h t T"
      by (rule owns_cong [OF O(1) _ K, of _ K']) (use ps O(3) g(3) in auto)
    moreover have "pool_at ?h t P'"
      by (rule pool_at_cong [OF ps(1) _ ps(7)]) (use ps in auto)
    moreover have "rb_fresh ?h" unfolding rb_fresh_def
    proof (intro allI impI)
      fix a assume "rbrk ?h \<le> a"
      then have a: "rbrk h \<le> a" using ps(5) by simp
      then have "a \<notin> taddrs P" "a \<noteq> p" "a \<noteq> t" using pb O(4) K by (auto simp: rb_fresh_def)
      then show "rnodes ?h a = None \<and> rctrls ?h a = None" using ps(4,6) O(4) a by (simp add: rb_fresh_def)
    qed
    moreover have "p \<notin> taddrs T" "taddrs T \<inter> taddrs P' = {}" "p \<notin> taddrs P'" using O(3) g(3) ps(2) by auto
    ultimately show ?thesis using ps g(3)
      by (intro exI [of _ p] exI [of _ ?h] exI [of _ P'] exI [of _ "rb_color n"] exI [of _ ?d] exI [of _ K'])
        (auto simp add: rbt_def)
  qed
qed

lemma insert_walk_tree: "tree (rnodes h) t par T \<Longrightarrow>
    insert_walk goright h key (rootp T) (cpar fs) = Some (cpar (zdown goright key T fs))"
proof (induction T arbitrary: par fs)
  case E
  then show ?case by (subst insert_walk.simps) simp
next
  case (N a c k d l r)
  show ?case
    using N.prems N.IH(1) [of "Some a" "FL a c k d r # fs"] N.IH(2) [of "Some a" "FR l a c k d # fs"]
    by (subst insert_walk.simps) auto
qed

lemma zdown_top:
  assumes "zdown goright key T fs = f # gs" "T \<noteq> E"
  shows "case f of FR l a c k d \<Rightarrow> goright k key | FL a c k d r \<Rightarrow> \<not> goright k key"
  using assms
proof (induction T arbitrary: fs)
  case E
  then show ?case by simp
next
  case (N a c k d l r)
  show ?case
  proof (cases "goright k key")
    case True
    then show ?thesis using N by (cases "r = E") auto
  next
    case False
    then show ?thesis using N by (cases "l = E") auto
  qed
qed

lemma attach_rep:
  assumes O: "owns h t (plug (f # gs) E)" and x: "x \<notin> caddrs (f # gs)"
    and n: "rnodes h x = Some (mknode (Some t) key None None None d c)"
    and top: "case f of FR l a c k d \<Rightarrow> goright k key | FL a c k d r \<Rightarrow> \<not> goright k key"
  shows "\<exists>h'. do { h \<leftarrow> rset h (Some x) (rb_parent_update (\<lambda>_. Some (faddr f)));
      p \<leftarrow> rget h (Some (faddr f));
      h \<leftarrow> (if goright (rb_key p) key then rset h (Some (faddr f)) (rb_right_update (\<lambda>_. Some x))
            else rset h (Some (faddr f)) (rb_left_update (\<lambda>_. Some x)));
      paint h (Some x) RED } = Some h' \<and> owns h' t (plug (f # gs) (N x RED key d E E)) \<and>
    same_but h h' t (insert x (caddrs (f # gs)))"
proof -
  from O obtain K where A: "ctxt (rnodes h) (Some t) None (f # gs)" "cdist (f # gs)" "rctrls h t = Some K"
    "rc_root K = rootp (plug (f # gs) E)" by (auto simp: owns_def tree_plug tdist_plug simp del: plug_simps ctxt.simps cdist.simps)
  have rt: "rootp (plug (f # gs) E) = rootp (plug (f # gs) (N x RED key d E E))"
    by (simp add: rootp_plug del: plug_simps)
  have td: "tdist (plug (f # gs) (N x RED key d E E))" using A(2) x by (simp add: tdist_plug del: plug_simps)
  have nx: "faddr f \<noteq> x" using x by auto
  show ?thesis
  proof (cases f)
    case (FL a ac ak ad r)
    let ?h = "h\<lparr>rnodes := (rnodes h)(x \<mapsto> mknode (Some t) key None None (Some a) d RED,
      a \<mapsto> mknode (Some t) ak (Some x) (rootp r) (cpar gs) ad ac)\<rparr>"
    have "tree (rnodes ?h) (Some t) None (plug (f # gs) (N x RED key d E E))"
      unfolding tree_plug using A(1,2) x FL by (auto simp: fun_upd_twist)
    then have "owns ?h t (plug (f # gs) (N x RED key d E E))" using td A(3,4) rt by (simp add: owns_def del: plug_simps)
    moreover have "same_but h ?h t (insert x (caddrs (f # gs)))" using A(3) FL by (auto simp: same_but_def)
    ultimately show ?thesis using A(1) n top nx FL
      by (simp add: rb_prims fun_upd_twist del: plug_simps)
  next
    case (FR l a ac ak ad)
    let ?h = "h\<lparr>rnodes := (rnodes h)(x \<mapsto> mknode (Some t) key None None (Some a) d RED,
      a \<mapsto> mknode (Some t) ak (rootp l) (Some x) (cpar gs) ad ac)\<rparr>"
    have "tree (rnodes ?h) (Some t) None (plug (f # gs) (N x RED key d E E))"
      unfolding tree_plug using A(1,2) x FR by (auto simp: fun_upd_twist)
    then have "owns ?h t (plug (f # gs) (N x RED key d E E))" using td A(3,4) rt by (simp add: owns_def del: plug_simps)
    moreover have "same_but h ?h t (insert x (caddrs (f # gs)))" using A(3) FR by (auto simp: same_but_def)
    ultimately show ?thesis using A(1) n top nx FR
      by (simp add: rb_prims fun_upd_twist del: plug_simps)
  qed
qed

lemma rbt_same_but:
  assumes R: "rbt h t T P" and O: "owns h' t T'" and S: "same_but h h' t (insert x (taddrs T))"
    and x: "x \<notin> taddrs P" "rnodes h x \<noteq> None" and T': "taddrs T' \<subseteq> insert x (taddrs T)"
  shows "rbt h' t T' P"
proof -
  from R have A: "owns h t T" "pool_at h t P" "taddrs T \<inter> taddrs P = {}" "rb_fresh h" by (auto simp: rbt_def)
  from S obtain K K' where K: "rctrls h t = Some K" "rctrls h' t = Some K'" "K' = K\<lparr>rc_root := rc_root K'\<rparr>"
    by (auto simp: same_but_def)
  have "pool_at h' t P"
  proof (rule pool_at_cong [OF A(2) _ K(1,2)])
    show "\<forall>z \<in> taddrs P. rnodes h' z = rnodes h z" using S A(3) x by (auto simp: same_but_def)
    show "rc_pool_root K' = rc_pool_root K" using arg_cong [OF K(3), of rc_pool_root] by simp
    show "rc_pool_ptr K' = rc_pool_ptr K" using arg_cong [OF K(3), of rc_pool_ptr] by simp
  qed
  moreover have "rb_fresh h'" unfolding rb_fresh_def
  proof (intro allI impI)
    fix a assume "rbrk h' \<le> a"
    then have a: "rbrk h \<le> a" using S by (simp add: same_but_def)
    have "tree (rnodes h) (Some t) None T" using A(1) by (simp add: owns_def)
    then have "a \<notin> taddrs T" using fresh_below [OF A(4)] a by (meson leD)
    moreover have "a \<noteq> x" using a A(4) x(2) by (auto simp: rb_fresh_def)
    moreover have "a \<noteq> t" using a A(4) K by (auto simp: rb_fresh_def)
    ultimately show "rnodes h' a = None \<and> rctrls h' a = None" using a A(4) S by (auto simp: same_but_def rb_fresh_def)
  qed
  moreover have "taddrs T' \<inter> taddrs P = {}" using T' A(3) x by auto
  ultimately show ?thesis using O by (simp add: rbt_def)
qed

lemma same_but_count: "same_but h h' t A \<Longrightarrow> rctrls h t = Some K \<Longrightarrow>
    \<exists>K'. rctrls h' t = Some K' \<and> rc_count K' = rc_count K"
proof -
  assume "same_but h h' t A" "rctrls h t = Some K"
  then obtain K' where K': "rctrls h' t = Some K'" "K' = K\<lparr>rc_root := rc_root K'\<rparr>" by (auto simp: same_but_def)
  have "rc_count K' = rc_count (K\<lparr>rc_root := rc_root K'\<rparr>)" using K'(2) by (rule arg_cong)
  then show ?thesis using K'(1) by simp
qed

lemma taddrs_zfix: "taddrs (zfix fs T) = taddrs (plug fs T)"
  using zloop_addrs [of fs T] by (cases "zloop fs T") (simp add: zfix_def)

lemma insert_node_rep:
  assumes R: "rbt h t T P" and b: "T \<noteq> E \<longrightarrow> tcolor T = BLACK" and K: "rctrls h t = Some K"
  shows "\<exists>x h' P' d' K'. insert_node goright h (Some t) key data reuse = Some (Some x, h') \<and>
    rbt h' t (tinsert goright x key d' T) P' \<and> (\<not> reuse \<longrightarrow> d' = data) \<and> x \<notin> taddrs T \<and>
    (x \<in> taddrs P \<or> P = E \<and> P' = E) \<and> taddrs P' \<subseteq> taddrs P \<and>
    rctrls h' t = Some K' \<and> rc_count K' = rc_count K"
proof -
  from new_node_rep [OF R K, of key data reuse] obtain x h1 P' c d' K1 where
    n: "new_rbtree_node h (Some t) key data reuse = Some (Some x, h1)"
    "rnodes h1 x = Some (mknode (Some t) key None None None d' c)" "\<not> reuse \<longrightarrow> d' = data"
    "x \<notin> taddrs T" "x \<notin> taddrs P'" "rbt h1 t T P'" "x \<in> taddrs P \<or> P = E \<and> P' = E" "taddrs P' \<subseteq> taddrs P"
    "rctrls h1 t = Some K1" "rc_count K1 = rc_count K" by blast
  have O1: "owns h1 t T" using n(6) by (simp add: rbt_def)
  then have K1: "rc_root K1 = rootp T" using n(9) by (simp add: owns_def)
  have w: "insert_walk goright h1 key (rootp T) None = Some (cpar (zdown goright key T []))"
    using insert_walk_tree [of h1 "Some t" None T goright key "[]"] O1 by (simp add: owns_def)
  show ?thesis
  proof (cases "T = E")
    case True
    let ?m = "(rnodes h1)(x \<mapsto> mknode (Some t) key None None None d' BLACK)"
    let ?h = "h1\<lparr>rctrls := (rctrls h1)(t \<mapsto> K1\<lparr>rc_root := Some x\<rparr>), rnodes := ?m\<rparr>"
    have id: "h1\<lparr>rnodes := (rnodes h1)(x \<mapsto> mknode (Some t) key None None None d' c)\<rparr> = h1"
      using n(2) by (simp add: fun_upd_idem)
    have "insert_node goright h (Some t) key data reuse = Some (Some x, ?h)"
      using n(1,2,9) w K1 True by (simp add: insert_node_def rb_prims id)
    moreover have "rbt ?h t (tinsert goright x key d' T) P'"
    proof (rule rbt_same_but [OF n(6)])
      show "owns ?h t (tinsert goright x key d' T)" using True by (simp add: owns_def tinsert_def)
      show "same_but h1 ?h t (insert x (taddrs T))" using n(9) True by (simp add: same_but_def)
      show "taddrs (tinsert goright x key d' T) \<subseteq> insert x (taddrs T)" using True by (simp add: tinsert_def)
    qed (use n in auto)
    ultimately show ?thesis using n by auto
  next
    case False
    let ?fs = "zdown goright key T []"
    obtain f gs where fs: "?fs = f # gs" using zdown_nil [of goright key T "[]"] False by (cases ?fs) auto
    have pl: "plug (f # gs) E = T" using plug_zdown [of goright key T "[]"] fs by simp
    have ca: "caddrs (f # gs) = taddrs T" using arg_cong [OF pl, of taddrs] by (simp del: plug_simps)
    have xc: "x \<notin> caddrs (f # gs)" unfolding ca using n(4) .
    have O1': "owns h1 t (plug (f # gs) E)" unfolding pl by (rule O1)
    from attach_rep [where goright = goright, OF O1' xc n(2) zdown_top [OF fs False]] obtain h2 where
      h2: "do { h \<leftarrow> rset h1 (Some x) (rb_parent_update (\<lambda>_. Some (faddr f)));
        p \<leftarrow> rget h (Some (faddr f));
        h \<leftarrow> (if goright (rb_key p) key then rset h (Some (faddr f)) (rb_right_update (\<lambda>_. Some x))
              else rset h (Some (faddr f)) (rb_left_update (\<lambda>_. Some x)));
        paint h (Some x) RED } = Some h2"
      "owns h2 t (plug (f # gs) (N x RED key d' E E))" "same_but h1 h2 t (insert x (taddrs T))"
      unfolding ca by blast
    have "fcolor (last (f # gs)) = BLACK" using last_zdown_color [OF False, of goright key] fs b False by simp
    then have "f # gs \<noteq> [] \<longrightarrow> fcolor (last (f # gs)) = BLACK" by simp
    from rbtree_fixup_owns [OF h2(2) _ this, of x] obtain h3 where
      h3: "rbtree_fixup h2 (Some x) = Some h3" "owns h3 t (zfix (f # gs) (N x RED key d' E E))"
      "same_but h2 h3 t (taddrs (plug (f # gs) (N x RED key d' E E)))" by (auto simp del: plug_simps taddrs_plug)
    have ta: "taddrs (plug (f # gs) (N x RED key d' E E)) = insert x (taddrs T)"
      unfolding taddrs_plug ca by simp
    have ti: "tinsert goright x key d' T = zfix (f # gs) (N x RED key d' E E)" using False fs by (simp add: tinsert_def)
    have S: "same_but h1 h3 t (insert x (taddrs T))" using same_but_trans [OF h2(3)] h3(3) unfolding ta by blast
    have run: "insert_node goright h (Some t) key data reuse = Some (Some x, h3)"
    proof -
      have "Option.bind (do { h \<leftarrow> rset h1 (Some x) (rb_parent_update (\<lambda>_. Some (faddr f)));
        p \<leftarrow> rget h (Some (faddr f));
        h \<leftarrow> (if goright (rb_key p) key then rset h (Some (faddr f)) (rb_right_update (\<lambda>_. Some x))
              else rset h (Some (faddr f)) (rb_left_update (\<lambda>_. Some x)));
        paint h (Some x) RED }) (\<lambda>h. do { h \<leftarrow> rbtree_fixup h (Some x); Some (Some x, h) }) = Some (Some x, h3)"
        unfolding h2(1) using h3(1) by simp
      then show ?thesis using n(1,9) w K1 fs by (simp add: insert_node_def cget_def)
    qed
    have "rbt h3 t (tinsert goright x key d' T) P'"
    proof (rule rbt_same_but [OF n(6) _ S])
      show "owns h3 t (tinsert goright x key d' T)" unfolding ti by (rule h3(2))
      show "taddrs (tinsert goright x key d' T) \<subseteq> insert x (taddrs T)" unfolding ti taddrs_zfix ta by simp
    qed (use n in auto)
    then show ?thesis using run n same_but_count [OF S n(9)] by metis
  qed
qed

lemma rbtree_insert_rep:
  assumes R: "rbt h t T P" and b: "T \<noteq> E \<longrightarrow> tcolor T = BLACK" and K: "rctrls h t = Some K"
  shows "\<exists>x h' P' d' K'. rbtree_insert h (Some t) key data reuse = Some (Some x, h') \<and>
    rbt h' t (tinsert (<) x key d' T) P' \<and> (\<not> reuse \<longrightarrow> d' = data) \<and> x \<notin> taddrs T \<and>
    (x \<in> taddrs P \<or> P = E \<and> P' = E) \<and> taddrs P' \<subseteq> taddrs P \<and>
    rctrls h' t = Some K' \<and> rc_count K' = rc_count K + 1"
proof -
  let ?K = "K\<lparr>rc_count := rc_count K + 1\<rparr>" and ?g = "h\<lparr>rctrls := (rctrls h)(t \<mapsto> K\<lparr>rc_count := rc_count K + 1\<rparr>)\<rparr>"
  have "owns ?g t T" using R K by (auto simp: rbt_def intro: owns_cong)
  moreover have "pool_at ?g t P" using R K by (auto simp: rbt_def intro: pool_at_cong)
  moreover have "rb_fresh ?g" using R K by (auto simp: rbt_def rb_fresh_def)
  ultimately have R': "rbt ?g t T P" using R by (simp add: rbt_def)
  have "cset h (Some t) (\<lambda>c. c\<lparr>rc_count := rc_count c + 1\<rparr>) = Some ?g" using K by (simp add: cset_def)
  then have "rbtree_insert h (Some t) key data reuse = insert_node (<) ?g (Some t) key data reuse"
    by (simp add: rbtree_insert_def)
  moreover have "rctrls ?g t = Some ?K" by simp
  ultimately show ?thesis using insert_node_rep [OF R' b, of ?K "(<)" key data reuse] by simp
qed

end
