(* ===== verification/RbtreeClear.thy ===== *)
theory RbtreeClear
  imports RbtreeInsert
begin

text \<open>Clearing a tree into its pool, and the keyed-table interface.\<close>

section \<open>Clearing\<close>

lemma reset_min:
  assumes "tree (rnodes h) t par S" "S \<noteq> E"
  shows "\<exists>gs p c k d r m. S = plug gs (N p c k d E r) \<and> left_empty gs \<and>
    rbtree_min h (rootp S) = Some (Some m) \<and> reset_pool_ptr h (Some m) = Some (Some p)"
proof -
  from min_pos [OF assms(2)] obtain gs m c k d r where
    m: "S = plug gs (N m c k d E r)" "left_empty gs" "first_addr (inorder S) = Some m" by blast
  have mi: "rbtree_min h (rootp S) = Some (Some m)" using rbtree_min_tree [OF assms(1)] m(3) by simp
  have "\<exists>par'. tree (rnodes h) t par' (N m c k d E r)"
    using assms(1) unfolding m(1)
  proof (induction gs arbitrary: par rule: rev_induct)
    case Nil
    then show ?case by auto
  next
    case (snoc f gs)
    then show ?case by (cases f) (auto simp: plug_append)
  qed
  then obtain par' where "tree (rnodes h) t par' (N m c k d E r)" by blast
  from reset_pool_ptr_tree [OF this] obtain es p c' k' d' r' where
    p: "N m c k d E r = plug es (N p c' k' d' E r')" "left_empty es" "reset_pool_ptr h (Some m) = Some (Some p)"
    by auto
  have "S = plug (es @ gs) (N p c' k' d' E r')" using m(1) p(1) by (simp add: plug_append)
  moreover have "left_empty (es @ gs)" using p(2) m(2) by simp
  ultimately show ?thesis using mi p(3) by blast
qed

lemma rbtree_clear_rep:
  assumes R: "rbt h t T P" and K: "rctrls h t = Some K"
  shows "\<exists>h' P' K'. rbtree_clear h (Some t) = Some h' \<and> rbt h' t E P' \<and> taddrs P' = taddrs T \<union> taddrs P \<and>
    rctrls h' t = Some K' \<and> rc_count K' = (if T = E then rc_count K else 0)"
proof (cases "T = E")
  case True
  then have "rc_root K = None" using R K by (auto simp: rbt_def owns_def)
  then have "rbtree_clear h (Some t) = Some h" using K by (simp add: rbtree_clear_def cget_def)
  then show ?thesis using R K True by auto
next
  case False
  from R have A: "tree (rnodes h) (Some t) None T" "tdist T" "tree (rnodes h) (Some t) None P" "tdist P"
    "taddrs T \<inter> taddrs P = {}" "rb_fresh h" "rc_root K = rootp T" "rc_pool_root K = rootp P"
    "pool_pos P (rc_pool_ptr K)" using K by (auto simp: rbt_def owns_def pool_at_def)
  obtain a ac ak ad al ar where T: "T = N a ac ak ad al ar" using False by (cases T) auto
  show ?thesis
  proof (cases "P = E")
    case True
    let ?g = "h\<lparr>rctrls := (rctrls h)(t \<mapsto> K\<lparr>rc_pool_root := Some a\<rparr>)\<rparr>"
    have "tree (rnodes ?g) (Some t) None T" using A(1) by simp
    from reset_min [OF this False] obtain gs p c k d r m where
      p: "T = plug gs (N p c k d E r)" "left_empty gs" "rbtree_min ?g (Some a) = Some (Some m)"
      "reset_pool_ptr ?g (Some m) = Some (Some p)" using T by auto
    let ?h = "h\<lparr>rctrls := (rctrls h)(t \<mapsto> K\<lparr>rc_pool_root := Some a, rc_pool_ptr := Some p, rc_count := 0, rc_root := None\<rparr>)\<rparr>"
    have "rbtree_clear h (Some t) = Some ?h"
      using K A(7,8) True T p(3,4) by (simp add: rbtree_clear_def rb_prims)
    moreover have "pool_pos T (Some p)" unfolding pool_pos_def using p(1,2) by blast
    then have "rbt ?h t E T" using A T K by (auto simp: rbt_def owns_def pool_at_def rb_fresh_def)
    ultimately show ?thesis using False True by auto
  next
    case pool: False
    with A(9) obtain gs p c k d r where P: "P = plug gs (N p c k d E r)" "left_empty gs" "rc_pool_ptr K = Some p"
      by (auto simp: pool_pos_def)
    let ?P = "plug gs (N p c k d T r)"
    let ?m = "(rnodes h)(p \<mapsto> mknode (Some t) k (Some a) (rootp r) (cpar gs) d c,
      a \<mapsto> mknode (Some t) ak (rootp al) (rootp ar) (Some p) ad ac)"
    let ?g = "h\<lparr>rnodes := ?m\<rparr>"
    have np: "rnodes h p = Some (mknode (Some t) k None (rootp r) (cpar gs) d c)"
      "ctxt (rnodes h) (Some t) (Some p) gs" "tree (rnodes h) (Some t) (Some p) r"
      using A(3) unfolding P(1) tree_plug by auto
    have dp: "p \<notin> caddrs gs" "p \<notin> taddrs r" "cdist gs" "tdist r" "caddrs gs \<inter> taddrs r = {}"
      using A(4) unfolding P(1) tdist_plug by auto
    have dT: "taddrs T \<inter> caddrs gs = {}" "p \<notin> taddrs T" "taddrs T \<inter> taddrs r = {}"
      using A(5) unfolding P(1) by auto
    have ap: "a \<noteq> p" "a \<notin> caddrs gs" "a \<notin> taddrs r" "a \<notin> taddrs al" "a \<notin> taddrs ar" "p \<notin> taddrs al" "p \<notin> taddrs ar"
      using dT T A(2) by auto
    have tT: "tree ?m (Some t) (Some p) T" using A(1) T ap by simp
    have tree': "tree ?m (Some t) None ?P" unfolding tree_plug using np dp ap tT T by simp
    have dist': "tdist ?P" using dp dT A(2) by (auto simp: tdist_plug)
    have "tree (rnodes ?g) (Some t) (Some p) T" using tT by simp
    from reset_min [OF this False] obtain es q c' k' d' r' m where
      q: "T = plug es (N q c' k' d' E r')" "left_empty es" "rbtree_min ?g (Some a) = Some (Some m)"
      "reset_pool_ptr ?g (Some m) = Some (Some q)" using T by auto
    let ?h = "?g\<lparr>rctrls := (rctrls h)(t \<mapsto> K\<lparr>rc_pool_ptr := Some q, rc_count := 0, rc_root := None\<rparr>)\<rparr>"
    have "?P = plug (es @ FL p c k d r # gs) (N q c' k' d' E r')" using q(1) by (simp add: plug_append)
    moreover have "left_empty (es @ FL p c k d r # gs)" using q(2) P(2) by simp
    ultimately have "pool_pos ?P (Some q)" unfolding pool_pos_def by blast
    then have pa: "pool_at ?h t ?P" using tree' dist' A(8) P(1) by (simp add: pool_at_def rootp_plug)
    have fr: "rb_fresh ?h" unfolding rb_fresh_def
    proof (intro allI impI)
      fix z assume "rbrk ?h \<le> z"
      then have z: "rbrk h \<le> z" by simp
      have "z \<noteq> p" "z \<noteq> a" "z \<noteq> t"
        using z fresh_below [OF A(6) A(3), of p] fresh_below [OF A(6) A(1), of a] P(1) T K A(6)
        by (auto simp: rb_fresh_def)
      then show "rnodes ?h z = None \<and> rctrls ?h z = None" using z A(6) by (simp add: rb_fresh_def)
    qed
    have "rbtree_clear h (Some t) = Some ?h"
      using K A(7,8) pool T P np(1) q(3,4) A(1) ap by (simp add: rbtree_clear_def rb_prims)
    moreover have "rbt ?h t E ?P" using pa fr by (simp add: rbt_def owns_def)
    moreover have "taddrs ?P = taddrs T \<union> taddrs P" unfolding P(1) by auto
    ultimately show ?thesis using False by auto
  qed
qed

end
