(* ===== verification/RbtreeTable.thy ===== *)
theory RbtreeTable
  imports RbtreeClear
begin

text \<open>
  The keyed-table interface through which the string matchers use the trees: find a key's
  value, and set it (insert when the search fails, else overwrite the payload, the idiom of
  \<open>compute_bad_char\<close> in \<open>src/boyer_moore.c\<close>). The locale \<open>keyed_table\<close> holds the contract; the
  interpretation shows that the red-black trees satisfy it.
\<close>

section \<open>The contract\<close>

locale keyed_table =
  fixes find :: "int \<Rightarrow> 's \<Rightarrow> 'v option option"
    and put :: "int \<Rightarrow> 'v \<Rightarrow> 's \<Rightarrow> 's option"
    and holds :: "'s \<Rightarrow> (int \<Rightarrow> 'v option) \<Rightarrow> bool"
  assumes find_ok: "holds s m \<Longrightarrow> find k s = Some (m k)"
    and put_ok: "holds s m \<Longrightarrow> \<exists>s'. put k v s = Some s' \<and> holds s' (m(k \<mapsto> v))"
begin

lemma put_all: "holds s m \<Longrightarrow> \<exists>s'. fold_opt (\<lambda>(k, v). put k v) kvs s = Some s' \<and> holds s' (m ++ map_of (rev kvs))"
proof (induction kvs arbitrary: s m)
  case Nil
  then show ?case by simp
next
  case (Cons kv kvs)
  obtain k v where kv: "kv = (k, v)" by fastforce
  from put_ok [OF Cons.prems] obtain t where t: "put k v s = Some t" "holds t (m(k \<mapsto> v))" by blast
  have "m(k \<mapsto> v) ++ map_of (rev kvs) = m ++ map_of (rev (kv # kvs))"
    by (auto simp: kv map_add_def fun_eq_iff split: option.splits)
  moreover obtain s' where s': "fold_opt (\<lambda>(k, v). put k v) kvs t = Some s'"
    "holds s' (m(k \<mapsto> v) ++ map_of (rev kvs))" using Cons.IH [OF t(2)] by blast
  ultimately have "holds s' (m ++ map_of (rev (kv # kvs)))" by (simp only:)
  moreover have "fold_opt (\<lambda>(k, v). put k v) (kv # kvs) s = Some s'" using t(1) s'(1) kv by simp
  ultimately show ?case by blast
qed

lemma find_after_put:
  assumes "holds s m"
  shows "\<exists>s'. put k v s = Some s' \<and> find j s' = Some (if j = k then Some v else m j)"
proof -
  from put_ok [OF assms] obtain s' where "put k v s = Some s'" "holds s' (m(k \<mapsto> v))" by blast
  then show ?thesis using find_ok by fastforce
qed

end

section \<open>The trees\<close>

definition rb_find :: "addr \<Rightarrow> int \<Rightarrow> 'v rbheap \<Rightarrow> 'v option option" where
  "rb_find t key h = do {
     c \<leftarrow> cget h (Some t);
     r \<leftarrow> rbtree_search h (rc_root c) key;
     (case r of None \<Rightarrow> Some None | Some a \<Rightarrow> do { n \<leftarrow> rnodes h a; d \<leftarrow> rb_data n; Some (Some d) }) }"

definition rb_put :: "addr \<Rightarrow> int \<Rightarrow> 'v \<Rightarrow> 'v rbheap \<Rightarrow> 'v rbheap option" where
  "rb_put t key v h = do {
     c \<leftarrow> cget h (Some t);
     record \<leftarrow> rbtree_search h (rc_root c) key;
     (if record = None then do {
        (_, h) \<leftarrow> rbtree_insert h (Some t) key (Some v) False;
        Some h }
      else rset h record (rb_data_update (\<lambda>_. Some v))) }"

definition tkeys :: "'d rt \<Rightarrow> int list" where
  "tkeys T = map (fst \<circ> snd) (inorder T)"

definition tmap :: "'d rt \<Rightarrow> int \<Rightarrow> 'd option" where
  "tmap T k = (case map_of (map snd (inorder T)) k of None \<Rightarrow> None | Some d \<Rightarrow> d)"

definition rb_holds :: "addr \<Rightarrow> 'v rbheap \<Rightarrow> (int \<Rightarrow> 'v option) \<Rightarrow> bool" where
  "rb_holds t h m \<longleftrightarrow> (\<exists>T. rbt h t T E \<and> rbtree_ok T \<and> sorted_wrt (<) (tkeys T) \<and>
     (\<forall>e \<in> set (inorder T). snd (snd e) \<noteq> None) \<and> m = tmap T)"

lemma tsearch_None: "sorted (tkeys T) \<Longrightarrow> tsearch T key = None \<longleftrightarrow> key \<notin> set (tkeys T)"
proof (induction T)
  case E
  then show ?case by (simp add: tkeys_def)
next
  case (N a c k d l r)
  have s: "sorted (tkeys l)" "sorted (tkeys r)" "\<forall>x \<in> set (tkeys l). x \<le> k" "\<forall>x \<in> set (tkeys r). k \<le> x"
    using N.prems by (auto simp: tkeys_def sorted_append)
  have e: "set (tkeys (N a c k d l r)) = insert k (set (tkeys l) \<union> set (tkeys r))" by (auto simp: tkeys_def)
  show ?case using N.IH s unfolding e by (auto dest: bspec)
qed

lemma tsearch_Some: "tsearch T key = Some a \<Longrightarrow> \<exists>fs c d l r. T = plug fs (N a c key d l r)"
proof (induction T)
  case E
  then show ?case by simp
next
  case (N b c k d l r)
  consider "k = key" | "k \<noteq> key" "key < k" | "k \<noteq> key" "\<not> key < k" by blast
  then show ?case
  proof cases
    case 1
    then show ?thesis using N.prems by (metis option.inject plug_simps(1) tsearch.simps(2))
  next
    case 2
    then obtain fs c' d' l' r' where "l = plug fs (N a c' key d' l' r')" using N by auto
    then have "N b c k d l r = plug (fs @ [FL b c k d r]) (N a c' key d' l' r')" by (simp add: plug_append)
    then show ?thesis by blast
  next
    case 3
    then obtain fs c' d' l' r' where "r = plug fs (N a c' key d' l' r')" using N by auto
    then have "N b c k d l r = plug (fs @ [FR l b c k d]) (N a c' key d' l' r')" by (simp add: plug_append)
    then show ?thesis by blast
  qed
qed

lemma tmap_plug:
  assumes "distinct (tkeys (plug fs (N a c k d l r)))"
  shows "tmap (plug fs (N a c k d l r)) k = d"
proof -
  have "map_of (map snd (inorder (plug fs (N a c k d l r)))) k = Some d"
    using assms by (intro map_of_is_SomeI) (auto simp: tkeys_def inorder_plug comp_def)
  then show ?thesis by (simp add: tmap_def)
qed

lemma set_data_owns:
  assumes O: "owns h t (plug fs (N a c k d l r))"
  shows "\<exists>h'. rset h (Some a) (rb_data_update (\<lambda>_. d')) = Some h' \<and> owns h' t (plug fs (N a c k d' l r)) \<and>
    same_but h h' t (taddrs (plug fs (N a c k d l r)))"
proof -
  from O obtain K where A: "ctxt (rnodes h) (Some t) (Some a) fs" "tree (rnodes h) (Some t) (cpar fs) (N a c k d l r)"
    "tdist (plug fs (N a c k d l r))" "rctrls h t = Some K" "rc_root K = rootp (plug fs (N a c k d l r))"
    by (auto elim: ownsD)
  let ?g = "h\<lparr>rnodes := (rnodes h)(a \<mapsto> mknode (Some t) k (rootp l) (rootp r) (cpar fs) d' c)\<rparr>"
  have p: "rset h (Some a) (rb_data_update (\<lambda>_. d')) = Some ?g" using A(2) by (simp add: rb_prims)
  have d: "tdist (N a c k d l r)" "a \<notin> caddrs fs" using A(3) by (auto simp: tdist_plug)
  have "tree (rnodes ?g) (Some t) None (plug fs (N a c k d' l r))"
    unfolding tree_plug using A(1,2) d by simp
  moreover have "tdist (plug fs (N a c k d' l r))" using A(3) d(1) by (rule_tac tdist_replace) auto
  moreover have "rc_root K = rootp (plug fs (N a c k d' l r))" using A(5) by (simp add: rootp_plug)
  ultimately show ?thesis using p A(4) by (auto simp: owns_def same_but_def)
qed

lemma cok_data: "rbtree_ok (plug fs (N a c k d l r)) = rbtree_ok (plug fs (N a c k d' l r))"
proof -
  have "rb (plug fs T) n = rb (plug fs T') n \<and> tcolor (plug fs T) = tcolor (plug fs T')"
    if "tcolor T = tcolor T'" "\<And>n. rb T n = rb T' n" for T T' :: "'a rt" and n
    using that
  proof (induction fs arbitrary: T T')
    case Nil
    then show ?case by simp
  next
    case (Cons f fs)
    show ?case unfolding plug_simps
      by (rule Cons.IH) (use Cons.prems in \<open>auto simp: rb_plug1 split: color.split\<close>)
  qed
  moreover have "rb (N a c k d l r) n = rb (N a c k d' l r) n" for n by (cases c) auto
  ultimately have "\<And>n. rb (plug fs (N a c k d l r)) n = rb (plug fs (N a c k d' l r)) n \<and>
      tcolor (plug fs (N a c k d l r)) = tcolor (plug fs (N a c k d' l r))" by simp
  then show ?thesis by (simp add: rbtree_ok_def)
qed

lemma rb_find_holds:
  assumes "rb_holds t h m"
  shows "rb_find t key h = Some (m key)"
proof -
  from assms obtain T where T: "rbt h t T E" "sorted_wrt (<) (tkeys T)" "m = tmap T"
    "\<forall>e \<in> set (inorder T). snd (snd e) \<noteq> None" by (auto simp: rb_holds_def)
  then have O: "owns h t T" by (simp add: rbt_def)
  then obtain K where K: "rctrls h t = Some K" "rc_root K = rootp T" "tree (rnodes h) (Some t) None T"
    by (auto simp: owns_def)
  have sd: "sorted (tkeys T)" "distinct (tkeys T)" using T(2) by (auto simp: strict_sorted_iff)
  show ?thesis
  proof (cases "tsearch T key")
    case None
    then have "key \<notin> set (tkeys T)" using tsearch_None [OF sd(1)] by blast
    then have "map_of (map snd (inorder T)) key = None"
      by (auto simp: map_of_eq_None_iff tkeys_def image_image comp_def)
    then show ?thesis using None K rbtree_search_tree [OF K(3)] T(3) by (simp add: rb_find_def cget_def tmap_def)
  next
    case (Some a)
    then obtain fs c d l r where p: "T = plug fs (N a c key d l r)" using tsearch_Some by blast
    then have "rnodes h a = Some (mknode (Some t) key (rootp l) (rootp r) (cpar fs) d c)"
      using get_owns [of h t fs a c key d l r] O by (simp add: rget_def)
    moreover have "d \<noteq> None" using T(4) p by (simp add: inorder_plug)
    ultimately show ?thesis using Some K rbtree_search_tree [OF K(3)] T(3) tmap_plug [of fs a c key d l r] sd(2) p
      by (auto simp add: rb_find_def cget_def)
  qed
qed

lemma tmap_insert:
  assumes "sorted (tkeys T)" "key \<notin> set (tkeys T)"
  shows "tmap (tinsert (<) x key d T) = (\<lambda>k. if k = key then d else tmap T k)"
proof
  fix k
  let ?P = "\<lambda>e :: 'a entry. fst (snd e) < key"
  have e: "inorder (tinsert (<) x key d T) = takeWhile ?P (inorder T) @ (x, key, d) # dropWhile ?P (inorder T)"
    using inorder_tinsert [of T x key d] assms(1) by (simp add: tkeys_def)
  have s: "map snd (inorder T) = map snd (takeWhile ?P (inorder T)) @ map snd (dropWhile ?P (inorder T))"
    by (metis map_append takeWhile_dropWhile_id)
  have "key \<notin> fst ` set (map snd (takeWhile ?P (inorder T)))"
    using assms(2) by (auto simp: tkeys_def dest!: set_takeWhileD)
  then have "map_of (map snd (takeWhile ?P (inorder T))) key = None" by (simp only: map_of_eq_None_iff not_False_eq_True)
  then show "tmap (tinsert (<) x key d T) k = (if k = key then d else tmap T k)"
    unfolding tmap_def e s by (auto simp: map_add_def split: option.split)
qed

lemma rb_put_holds:
  assumes H: "rb_holds t h m"
  shows "\<exists>h'. rb_put t key v h = Some h' \<and> rb_holds t h' (m(key \<mapsto> v))"
proof -
  from H obtain T where T: "rbt h t T E" "rbtree_ok T" "sorted_wrt (<) (tkeys T)"
    "\<forall>e \<in> set (inorder T). snd (snd e) \<noteq> None" "m = tmap T" by (auto simp: rb_holds_def)
  then have O: "owns h t T" by (simp add: rbt_def)
  then obtain K where K: "rctrls h t = Some K" "rc_root K = rootp T" "tree (rnodes h) (Some t) None T"
    by (auto simp: owns_def)
  have sd: "sorted (tkeys T)" "distinct (tkeys T)" using T(3) by (auto simp: strict_sorted_iff)
  show ?thesis
  proof (cases "tsearch T key")
    case None
    then have nk: "key \<notin> set (tkeys T)" using tsearch_None [OF sd(1)] by blast
    have "T \<noteq> E \<longrightarrow> tcolor T = BLACK" using T(2) by (simp add: rbtree_ok_def)
    from rbtree_insert_rep [OF T(1) this K(1), of key "Some v" False] obtain x h' P' d' where
      r: "rbtree_insert h (Some t) key (Some v) False = Some (Some x, h')"
      "rbt h' t (tinsert (<) x key d' T) P'" "d' = Some v" "taddrs P' \<subseteq> taddrs (E :: 'a rt)" by blast
    then have P': "P' = E" by (cases P') auto
    let ?T = "tinsert (<) x key (Some v) T" and ?P = "\<lambda>e :: 'a entry. fst (snd e) < key"
    have io: "inorder ?T = takeWhile ?P (inorder T) @ (x, key, Some v) # dropWhile ?P (inorder T)"
      using inorder_tinsert [of T x key "Some v"] sd(1) by (simp add: tkeys_def)
    have se: "set (inorder ?T) = insert (x, key, Some v) (set (inorder T))"
      unfolding io by (metis Un_insert_right list.simps(15) set_append takeWhile_dropWhile_id)
    let ?us = "map (fst \<circ> snd) (takeWhile ?P (inorder T))" and ?ws = "map (fst \<circ> snd) (dropWhile ?P (inorder T))"
    have tk: "tkeys T = ?us @ ?ws" unfolding tkeys_def by (metis map_append takeWhile_dropWhile_id)
    have "distinct (?us @ key # ?ws)" using nk sd(2) unfolding tk by auto
    then have "distinct (tkeys ?T)" unfolding tkeys_def io by simp
    moreover have "sorted (tkeys ?T)" using sorted_tinsert [of T x key "Some v"] sd(1) by (simp add: tkeys_def)
    ultimately have "sorted_wrt (<) (tkeys ?T)" by (simp add: strict_sorted_iff)
    moreover have "m(key \<mapsto> v) = tmap ?T" using tmap_insert [OF sd(1) nk, of x "Some v"] T(5) by (auto simp: fun_eq_iff)
    moreover have "\<forall>e \<in> set (inorder ?T). snd (snd e) \<noteq> None" using T(4) se by auto
    ultimately have "rb_holds t h' (m(key \<mapsto> v))"
      using r(2,3) P' rbtree_ok_tinsert [OF T(2), of "(<)" x key "Some v"] unfolding rb_holds_def by blast
    then show ?thesis using r(1) None K rbtree_search_tree [OF K(3)] by (simp add: rb_put_def cget_def)
  next
    case (Some a)
    then obtain fs c d l r where p: "T = plug fs (N a c key d l r)" using tsearch_Some by blast
    let ?T = "plug fs (N a c key (Some v) l r)"
    from set_data_owns [of h t fs a c key d l r "Some v"] O p obtain h' where
      h': "rset h (Some a) (rb_data_update (\<lambda>_. Some v)) = Some h'" "owns h' t ?T" "same_but h h' t (taddrs T)" by blast
    have "same_but h h' t (insert a (taddrs T))" using h'(3) p by (simp add: insert_absorb)
    moreover have "rnodes h a \<noteq> None" using K(3) p tree_alloc by fastforce
    moreover have "taddrs ?T \<subseteq> insert a (taddrs T)" using p by auto
    ultimately have "rbt h' t ?T E" using rbt_same_but [OF T(1) h'(2)] by simp
    moreover have "tkeys ?T = tkeys T" using p by (simp add: tkeys_def inorder_plug)
    moreover have "rbtree_ok ?T" using T(2) p cok_data by blast
    moreover have "\<forall>e \<in> set (inorder ?T). snd (snd e) \<noteq> None" using T(4) p by (auto simp: inorder_plug)
    moreover have "m(key \<mapsto> v) = tmap ?T"
    proof
      fix k
      show "(m(key \<mapsto> v)) k = tmap ?T k"
      proof (cases "k = key")
        case True
        then show ?thesis using tmap_plug [of fs a c key "Some v" l r] sd(2) \<open>tkeys ?T = tkeys T\<close> by simp
      next
        case False
        then have "map_of (map snd (inorder T)) k = map_of (map snd (inorder ?T)) k"
          using p by (simp add: inorder_plug map_add_def split: option.split)
        then show ?thesis using T(5) False by (simp add: tmap_def)
      qed
    qed
    ultimately have "rb_holds t h' (m(key \<mapsto> v))" using T(3) unfolding rb_holds_def by metis
    then show ?thesis using h'(1) Some K rbtree_search_tree [OF K(3)] by (simp add: rb_put_def cget_def)
  qed
qed

interpretation rbtab: keyed_table "rb_find t" "rb_put t" "rb_holds t" for t
  by unfold_locales (auto intro: rb_find_holds rb_put_holds)

text \<open>A new tree is an empty table.\<close>

definition empty_rbheap :: "'d rbheap" where
  "empty_rbheap = \<lparr>rnodes = (\<lambda>_. None), rctrls = (\<lambda>_. None), rbrk = 0\<rparr>"

lemma new_rbtree_holds: "\<exists>h. new_rbtree empty_rbheap = (Some 0, h) \<and> rbt h 0 E E \<and> rb_holds 0 h (\<lambda>_. None)"
proof -
  have "rbt (snd (new_rbtree empty_rbheap)) 0 E E"
    by (simp add: rbt_def new_rbtree_def empty_rbheap_def owns_def pool_at_def pool_pos_def rb_fresh_def)
  moreover have "rb_holds 0 (snd (new_rbtree (empty_rbheap :: 'a rbheap))) (\<lambda>_. None)"
    unfolding rb_holds_def using calculation
    by (intro exI [of _ E]) (simp add: rbtree_ok_def tkeys_def tmap_def fun_eq_iff)
  ultimately show ?thesis by (simp add: new_rbtree_def empty_rbheap_def)
qed

end
