(* ===== verification/RbtreeProps.thy ===== *)
theory RbtreeProps
  imports RbtreeTable
begin

text \<open>
  The promises of \<open>src/rbtree.c\<close>: a well-formed tree (\<open>rb_tree\<close>: a red-black search tree
  owned by its control block, with its pool and node count) stays one under insertion and
  clearing, and insertion sequences sort their keys in logarithmic height.
\<close>

definition rb_tree :: "'d rbheap \<Rightarrow> addr \<Rightarrow> 'd rt \<Rightarrow> 'd rt \<Rightarrow> bool" where
  "rb_tree h t T P \<longleftrightarrow> rbt h t T P \<and> rbtree_ok T \<and> sorted (tkeys T) \<and>
     (\<exists>K. rctrls h t = Some K \<and> rc_count K = int (length (inorder T)))"

lemma tkeys_tinsert:
  assumes "sorted (tkeys T)"
  shows "tkeys (tinsert (<) x key d T) = takeWhile (\<lambda>k. k < key) (tkeys T) @ key # dropWhile (\<lambda>k. k < key) (tkeys T)"
  using inorder_tinsert [of T x key d] assms by (simp add: tkeys_def takeWhile_map dropWhile_map comp_def)

lemma insort_split: "sorted ks \<Longrightarrow> takeWhile (\<lambda>k. k < key) ks @ key # dropWhile (\<lambda>k. k < key) ks = insort key (ks :: int list)"
  by (induction ks) auto

lemma rb_tree_insert:
  assumes R: "rb_tree h t T P"
  shows "\<exists>x h' P' d. rbtree_insert h (Some t) key data reuse = Some (Some x, h') \<and>
    rb_tree h' t (tinsert (<) x key d T) P' \<and> (\<not> reuse \<longrightarrow> d = data) \<and> x \<notin> taddrs T \<and>
    (if P = E then P' = E else x \<in> taddrs P) \<and> taddrs P' \<subseteq> taddrs P"
proof -
  from R obtain K where A: "rbt h t T P" "rbtree_ok T" "sorted (tkeys T)" "rctrls h t = Some K"
    "rc_count K = int (length (inorder T))" by (auto simp: rb_tree_def)
  have "T \<noteq> E \<longrightarrow> tcolor T = BLACK" using A(2) by (simp add: rbtree_ok_def)
  from rbtree_insert_rep [OF A(1) this A(4), of key data reuse] obtain x h' P' d K' where
    r: "rbtree_insert h (Some t) key data reuse = Some (Some x, h')"
    "rbt h' t (tinsert (<) x key d T) P'" "\<not> reuse \<longrightarrow> d = data" "x \<notin> taddrs T"
    "x \<in> taddrs P \<or> P = E \<and> P' = E" "taddrs P' \<subseteq> taddrs P" "rctrls h' t = Some K'" "rc_count K' = rc_count K + 1"
    by blast
  have "length (inorder (tinsert (<) x key d T)) = Suc (length (inorder T))"
    using arg_cong [OF tkeys_tinsert [OF A(3), of x key d], of length]
    by (simp add: tkeys_def) (metis (no_types, lifting) add_Suc_right length_append takeWhile_dropWhile_id length_map)
  then have "rb_tree h' t (tinsert (<) x key d T) P'"
    using r(2,7,8) A(2,3,5) rbtree_ok_tinsert [of T "(<)" x key d] sorted_tinsert [of T x key d]
    by (simp add: rb_tree_def tkeys_def)
  then show ?thesis using r by auto
qed

text \<open>The entries of a tree, without the addresses, and insertion in front of the entries with the
  same key.\<close>

definition entries :: "'d rt \<Rightarrow> (int \<times> 'd option) list" where
  "entries T = map snd (inorder T)"

lemma tkeys_entries: "tkeys T = map fst (entries T)"
  by (simp add: tkeys_def entries_def)

lemma insort_key_split: "sorted (map fst xs) \<Longrightarrow>
    takeWhile (\<lambda>e. fst e < k) xs @ (k, d) # dropWhile (\<lambda>e. fst e < k) xs = insort_key fst (k :: int, d) xs"
  by (induction xs) auto

lemma entries_tinsert:
  assumes "sorted (tkeys T)"
  shows "entries (tinsert (<) x key d T) = insort_key fst (key, d) (entries T)"
proof -
  have "inorder (tinsert (<) x key d T) = takeWhile (\<lambda>e. fst (snd e) < key) (inorder T) @ (x, key, d) #
      dropWhile (\<lambda>e. fst (snd e) < key) (inorder T)"
    using inorder_tinsert [of T x key d] assms by (simp add: tkeys_def)
  then show ?thesis using insort_key_split [of "entries T" key d] assms
    by (simp add: tkeys_entries) (simp add: entries_def takeWhile_map dropWhile_map comp_def)
qed

lemma rb_tree_inserts: "rb_tree h t T E \<Longrightarrow>
    \<exists>h' T'. fold_opt (\<lambda>(k, d) h. map_option snd (rbtree_insert h (Some t) k (Some d) False)) kvs h = Some h' \<and>
      rb_tree h' t T' E \<and> entries T' = fold (insort_key fst) (map (\<lambda>(k, d). (k, Some d)) kvs) (entries T)"
proof (induction kvs arbitrary: h T)
  case Nil
  then show ?case by auto
next
  case (Cons kv kvs)
  obtain k d where kv: "kv = (k, d)" by fastforce
  from rb_tree_insert [OF Cons.prems, of k "Some d" False] obtain x g where
    g: "rbtree_insert h (Some t) k (Some d) False = Some (Some x, g)" "rb_tree g t (tinsert (<) x k (Some d) T) E"
    by auto
  have "entries (tinsert (<) x k (Some d) T) = insort_key fst (k, Some d) (entries T)"
    using entries_tinsert Cons.prems by (metis rb_tree_def)
  then show ?case using Cons.IH [OF g(2)] g(1) kv by auto
qed

lemma new_rb_tree: "rb_tree (snd (new_rbtree empty_rbheap)) 0 E E"
  by (simp add: rb_tree_def rbt_def new_rbtree_def empty_rbheap_def owns_def pool_at_def pool_pos_def rb_fresh_def
      rbtree_ok_def tkeys_def)

text \<open>The traversal that \<open>mpat_next_match\<close> makes: the minimum, then successors.\<close>

partial_function (option) rb_enum :: "'d rbheap \<Rightarrow> ptr \<Rightarrow> addr list option" where [code]:
  "rb_enum h p = (case p of None \<Rightarrow> Some [] | Some a \<Rightarrow> do {
     q \<leftarrow> rbtree_successor h p; as \<leftarrow> rb_enum h q; Some (a # as) })"

lemma rb_enum_suffix: "owns h t T \<Longrightarrow> inorder T = us @ vs \<Longrightarrow> rb_enum h (first_addr vs) = Some (map fst vs)"
proof (induction vs arbitrary: us)
  case Nil
  then show ?case by (subst rb_enum.simps) simp
next
  case (Cons v vs)
  obtain a k d where v: "v = (a, k, d)" by (metis prod_cases3)
  have "rbtree_successor h (Some a) = Some (first_addr vs)"
    using rbtree_successor_next [OF Cons.prems(1)] Cons.prems(2) v by blast
  moreover have "rb_enum h (first_addr vs) = Some (map fst vs)"
    using Cons.IH [OF Cons.prems(1), of "us @ [v]"] Cons.prems(2) by simp
  ultimately show ?case using v by (subst rb_enum.simps) simp
qed

section \<open>A concrete tree for the witnesses\<close>

definition rb_demo :: "nat rbheap" where
  "rb_demo = \<lparr>rnodes = [1 \<mapsto> mknode (Some 0) 5 (Some 2) (Some 3) None (Some 50) BLACK,
      2 \<mapsto> mknode (Some 0) 2 None None (Some 1) (Some 20) RED,
      3 \<mapsto> mknode (Some 0) 9 None None (Some 1) (Some 90) RED],
    rctrls = [0 \<mapsto> \<lparr>rc_count = 3, rc_root = Some 1, rc_pool_root = None, rc_pool_ptr = None\<rparr>], rbrk = 4\<rparr>"

definition rb_demo_tree :: "nat rt" where
  "rb_demo_tree = N 1 BLACK 5 (Some 50) (N 2 RED 2 (Some 20) E E) (N 3 RED 9 (Some 90) E E)"

lemma rb_demo_ok: "rb_tree rb_demo 0 rb_demo_tree E"
  by (auto simp: rb_tree_def rbt_def owns_def pool_at_def pool_pos_def rb_fresh_def rbtree_ok_def tkeys_def
      rb_demo_def rb_demo_tree_def)

section \<open>Properties\<close>

text \<open>C8: \<open>rbtree_insert\<close> on a well-formed red-black tree returns without touching dangling
  memory, the new node keeps the colour and black-height invariants, the parent pointers and the
  key order, goes in front of the nodes with the same key, comes from the pool exactly when the
  pool is not empty, and is counted.\<close>

theorem rbtree_insert_correct:
  assumes "rb_tree h t T P"
  shows "\<exists>x h' T' P' d. rbtree_insert h (Some t) key data reuse = Some (Some x, h') \<and>
    rb_tree h' t T' P' \<and>
    inorder T' = takeWhile (\<lambda>e. fst (snd e) < key) (inorder T) @ (x, key, d) #
      dropWhile (\<lambda>e. fst (snd e) < key) (inorder T) \<and>
    (\<not> reuse \<longrightarrow> d = data) \<and> x \<notin> taddrs T \<and> (if P = E then P' = E else x \<in> taddrs P) \<and> taddrs P' \<subseteq> taddrs P"
proof -
  have "sorted (map (fst \<circ> snd) (inorder T))" using assms by (simp add: rb_tree_def tkeys_def)
  from inorder_tinsert [OF this] rb_tree_insert [OF assms, of key data reuse] show ?thesis by metis
qed

theorem rbtree_insert_correct_witness:
  "\<exists>x h' T'. rbtree_insert rb_demo (Some 0) 7 (Some 70) False = Some (Some x, h') \<and>
    rb_tree h' 0 T' E \<and> inorder T' = [(2, 2, Some 20), (1, 5, Some 50), (x, 7, Some 70), (3, 9, Some 90)]"
  using rbtree_insert_correct [OF rb_demo_ok, of 7 "Some 70" False] by (simp add: rb_demo_tree_def) blast

text \<open>C12: inserting any sequence of keys and data into a new tree succeeds and leaves in the heap,
  below the control block, a well-formed red-black tree \<open>T\<close> (and an empty pool) whose in-order walk gives exactly the inserted entries, sorted by key, of equal keys the last one
  first; the node count is their number, a search from the root finds exactly the keys that were
  inserted, and the height of this tree is at most twice the binary logarithm of their number (plus
  one).\<close>

theorem rbtree_inserts_sort:
  fixes kvs :: "(int \<times> 'd) list"
  shows "\<exists>h (T :: 'd rt). fold_opt (\<lambda>(k, d) h. map_option snd (rbtree_insert h (Some 0) k (Some d) False)) kvs
      (snd (new_rbtree empty_rbheap)) = Some h \<and> rb_tree h 0 T E \<and>
    map snd (inorder T) = sort_key fst (rev (map (\<lambda>(k, d). (k, Some d)) kvs)) \<and>
    rbtree_node_count h (Some 0) = Some (int (length kvs)) \<and>
    (\<forall>key. rbtree_search h (rootp T) key = Some None \<longleftrightarrow> key \<notin> fst ` set kvs) \<and>
    2 ^ (theight T div 2) \<le> length kvs + 1"
proof -
  let ?kvs = "map (\<lambda>(k, d). (k, Some d)) kvs"
  from rb_tree_inserts [OF new_rb_tree, of kvs] obtain h T where
    h: "fold_opt (\<lambda>(k, d) h. map_option snd (rbtree_insert h (Some 0) k (Some d) False)) kvs
      (snd (new_rbtree empty_rbheap)) = Some h" "rb_tree h 0 T E" "entries T = fold (insort_key fst) ?kvs []"
    by (auto simp: entries_def)
  have s: "entries T = sort_key fst (rev ?kvs)" using h(3) by (simp add: sort_key_def foldr_conv_fold)
  have len: "length (inorder T) = length kvs" using arg_cong [OF s, of length] by (simp add: entries_def)
  have ks: "set (tkeys T) = fst ` set kvs" using s by (simp add: tkeys_entries image_image case_prod_beta)
  have tr: "tree (rnodes h) (Some 0) None T" using h(2) by (auto simp: rb_tree_def rbt_def owns_def)
  show ?thesis
  proof (intro exI [of _ h] exI [of _ T] conjI allI)
    show "map snd (inorder T) = sort_key fst (rev ?kvs)" using s by (simp add: entries_def)
    show "rbtree_search h (rootp T) key = Some None \<longleftrightarrow> key \<notin> fst ` set kvs" for key
      using rbtree_search_tree [OF tr] tsearch_None [of T key] ks h(2) by (simp add: rb_tree_def)
    show "rbtree_node_count h (Some 0) = Some (int (length kvs))"
      using h(2) len by (auto simp: rb_tree_def rbtree_node_count_def cget_def)
    show "2 ^ (theight T div 2) \<le> length kvs + 1"
      using rbtree_ok_height [of T] h(2) len by (simp add: rb_tree_def)
  qed (rule h(1), rule h(2))
qed

text \<open>C15: starting at \<open>rbtree_min\<close> and following \<open>rbtree_successor\<close> visits every node of the tree
  exactly once, in key order, and ends; \<open>rbtree_max\<close> is the last of them.\<close>

theorem rbtree_traversal:
  assumes "rb_tree h t T P"
  shows "do { m \<leftarrow> rbtree_min h (rootp T); rb_enum h m } = Some (map fst (inorder T)) \<and>
    sorted (map (fst \<circ> snd) (inorder T)) \<and> distinct (map fst (inorder T)) \<and>
    rbtree_max h (rootp T) = Some (if T = E then None else Some (fst (last (inorder T))))"
proof -
  have O: "owns h t T" "tree (rnodes h) (Some t) None T" using assms by (auto simp: rb_tree_def rbt_def owns_def)
  have "do { m \<leftarrow> rbtree_min h (rootp T); rb_enum h m } = Some (map fst (inorder T))"
    using rbtree_min_tree [OF O(2)] rb_enum_suffix [OF O(1), of "[]"] by simp
  moreover have "distinct (map fst (inorder T))" using O(1) distinct_inorder by (auto simp: owns_def)
  moreover have "first_addr (rev es) = (if es = [] then None else Some (fst (last es)))" for es :: "'a entry list"
    by (cases es rule: rev_cases) auto
  then have "first_addr (rev (inorder T)) = (if T = E then None else Some (fst (last (inorder T))))" by simp
  ultimately show ?thesis using assms rbtree_max_tree [OF O(2)] by (simp add: rb_tree_def tkeys_def)
qed

theorem rbtree_traversal_witness:
  "do { m \<leftarrow> rbtree_min rb_demo (Some 1); rb_enum rb_demo m } = Some [2, 1, 3]"
  using rbtree_traversal [OF rb_demo_ok] by (simp add: rb_demo_tree_def)

text \<open>C13: \<open>rbtree_clear\<close> empties the tree, sets the count to 0 and moves every node to the pool
  (behind the nodes already there), keeping the pool well-formed, so that later insertions take
  their nodes from it.\<close>

theorem rbtree_clear_pools:
  assumes "rb_tree h t T P"
  shows "\<exists>h' P'. rbtree_clear h (Some t) = Some h' \<and> rb_tree h' t E P' \<and> taddrs P' = taddrs T \<union> taddrs P"
proof -
  from assms obtain K where A: "rbt h t T P" "rctrls h t = Some K" "rc_count K = int (length (inorder T))"
    by (auto simp: rb_tree_def)
  from rbtree_clear_rep [OF A(1,2)] A(3) show ?thesis
    by (auto simp: rb_tree_def rbtree_ok_def tkeys_def split: if_splits)
qed

theorem rbtree_clear_pools_witness:
  "\<exists>h' P'. rbtree_clear rb_demo (Some 0) = Some h' \<and> rb_tree h' 0 E P' \<and> taddrs P' = {1, 2, 3}"
  using rbtree_clear_pools [OF rb_demo_ok] by (simp add: rb_demo_tree_def insert_commute)

text \<open>C14: the trees are a keyed table: after any sequence of search-or-insert updates on a new
  tree, looking a key up returns the value of its last update, or nothing.\<close>

theorem rbtree_table:
  fixes kvs :: "(int \<times> 'v) list"
  shows "\<exists>h. fold_opt (\<lambda>(k, v). rb_put 0 k v) kvs (snd (new_rbtree empty_rbheap)) = Some h \<and>
    rb_find 0 key h = Some (map_of (rev kvs) key)"
proof -
  obtain h0 :: "'v rbheap" where h0: "snd (new_rbtree empty_rbheap) = h0" "rb_holds 0 h0 (\<lambda>_. None)"
    using new_rbtree_holds by (metis snd_conv)
  from rbtab.put_all [OF h0(2), of kvs] obtain h where
    h: "fold_opt (\<lambda>(k, v). rb_put 0 k v) kvs h0 = Some h" "rb_holds 0 h ((\<lambda>_. None) ++ map_of (rev kvs))" by blast
  have "rb_find 0 key h = Some (((\<lambda>_. None) ++ map_of (rev kvs)) key)" by (rule rbtab.find_ok [OF h(2)])
  then show ?thesis unfolding h0(1) using h(1) by (simp add: map_add_def split: option.splits)
qed

end
