(* ===== verification/Ring.thy ===== *)
theory Ring
  imports Prelude
begin

text \<open>
  Circular doubly linked lists: \<open>dring n p as\<close> says that the nodes \<open>as\<close> form a ring under the
  link functions \<open>n\<close> and \<open>p\<close>. The match records of \<open>src/match_record.c\<close> and the free slots of
  \<open>src/nfa_alloc.c\<close> are kept in such rings.
\<close>

type_synonym links = "addr \<Rightarrow> ptr option"

definition dring :: "links \<Rightarrow> links \<Rightarrow> addr list \<Rightarrow> bool" where
  "dring n p as \<longleftrightarrow> distinct as \<and> (as \<noteq> [] \<longrightarrow> lpath n (Some (hd as)) as (Some (hd as)) \<and>
     lpath p (Some (last as)) (rev as) (Some (last as)))"

definition hdp :: "addr list \<Rightarrow> ptr" where
  "hdp as = (case as of [] \<Rightarrow> None | a # _ \<Rightarrow> Some a)"

lemma hdp_simps [simp]: "hdp [] = None" "hdp (a # as) = Some a"
  by (simp_all add: hdp_def)

lemma hdp_hd: "as \<noteq> [] \<Longrightarrow> hdp as = Some (hd as)"
  by (cases as) auto

lemma dring_Nil [simp]: "dring n p []"
  by (simp add: dring_def)

lemma dring_alloc: "dring n p as \<Longrightarrow> a \<in> set as \<Longrightarrow> n a \<noteq> None"
  using lpath_alloc [of n "Some (hd as)" as "Some (hd as)" a] by (cases as) (auto simp: dring_def)

lemma dring_cong: "(\<And>a. a \<in> set as \<Longrightarrow> n' a = n a \<and> p' a = p a) \<Longrightarrow> dring n' p' as = dring n p as"
  using lpath_cong [of as n' n "Some (hd as)" "Some (hd as)"]
    lpath_cong [of "rev as" p' p "Some (last as)" "Some (last as)"]
  by (auto simp: dring_def)

lemma dring_ends:
  assumes "dring n p as" "as \<noteq> []"
  shows "p (hd as) = Some (Some (last as))" "n (last as) = Some (Some (hd as))"
    "n (hd as) = Some (Some (if tl as = [] then hd as else hd (tl as)))"
proof -
  have l: "lpath n (Some (hd as)) as (Some (hd as))" "lpath p (Some (last as)) (rev as) (Some (last as))"
    using assms by (auto simp: dring_def)
  have "p (last (rev as)) = Some (Some (last as))"
    using lpath_nth [OF l(2), of "length as - 1"] assms(2) by (simp add: last_conv_nth)
  then show "p (hd as) = Some (Some (last as))" using assms(2) by (simp add: last_rev)
  show "n (last as) = Some (Some (hd as))"
    using lpath_nth [OF l(1), of "length as - 1"] assms(2) by (simp add: last_conv_nth)
  show "n (hd as) = Some (Some (if tl as = [] then hd as else hd (tl as)))"
    using l(1) assms(2) by (cases as; cases "tl as") auto
qed

text \<open>Link changes at the ends of a ring.\<close>

lemma dring_snoc:
  assumes R: "dring n p as" "as \<noteq> []" and x: "x \<notin> set as"
    and n: "n' = n(x \<mapsto> Some (hd as), last as \<mapsto> Some x)" and p: "p' = p(x \<mapsto> Some (last as), hd as \<mapsto> Some x)"
  shows "dring n' p' (as @ [x])"
proof -
  have l: "lpath n (Some (hd as)) as (Some (hd as))" "lpath p (Some (last as)) (rev as) (Some (last as))"
    "distinct as" using R by (auto simp: dring_def)
  have d: "last as \<noteq> x" "hd as \<noteq> x" using x R(2) by auto
  have "lpath n' (Some (hd as)) as (Some x)"
    using lpath_snoc_upd [OF _ l(3) R(2), of "n(x \<mapsto> Some (hd as))" "Some (hd as)" "Some (hd as)" "Some x"] l(1) x n by simp
  moreover have "lpath p' (Some (last as)) (rev as) (Some x)"
    using lpath_snoc_upd [of "p(x \<mapsto> Some (last as))" "Some (last as)" "rev as" "Some (last as)" "Some x"]
      l(2,3) R(2) x p by (simp add: last_rev)
  ultimately show ?thesis using l(3) x n p d R(2) by (simp add: dring_def)
qed

text \<open>Taking the first node; the last node may have pointed anywhere.\<close>

lemma dring_take:
  assumes l: "lpath n (Some a) (a # as) q" "lpath p (Some (last as)) (rev as) (Some a)" "distinct as" and ne: "as \<noteq> []"
    and n: "n' = n(last as \<mapsto> Some (hd as))" and p: "p' = p(hd as \<mapsto> Some (last as))"
  shows "dring n' p' as"
proof -
  have "lpath n (Some (hd as)) as q" using l(1) ne by (auto dest: lpath_head)
  from lpath_snoc_upd [OF this l(3) ne, of "Some (hd as)"]
    lpath_snoc_upd [OF l(2), of "Some (last as)"] l(3) ne n p show ?thesis by (simp add: dring_def last_rev)
qed

lemma dring_tail:
  assumes R: "dring n p (a # as)" "as \<noteq> []"
    and n: "n' = n(last as \<mapsto> Some (hd as))" and p: "p' = p(hd as \<mapsto> Some (last as))"
  shows "dring n' p' as"
proof -
  have l: "lpath n (Some a) (a # as) (Some a)" "lpath p (Some (last as)) (rev as) (Some a)" "distinct as"
    using R by (auto simp: dring_def lpath_head dest: lpath_head)
  show ?thesis by (rule dring_take [OF l R(2) n p])
qed

lemma dring_splice:
  assumes A: "dring n p as" "as \<noteq> []" and B: "dring n p bs" "bs \<noteq> []" and d: "set as \<inter> set bs = {}"
    and n: "n' = n(last as \<mapsto> Some (hd bs), last bs \<mapsto> Some (hd as))"
    and p: "p' = p(hd as \<mapsto> Some (last bs), hd bs \<mapsto> Some (last as))"
  shows "dring n' p' (bs @ as)"
proof -
  have l: "lpath n (Some (hd as)) as (Some (hd as))" "lpath p (Some (last as)) (rev as) (Some (last as))"
    "distinct as" "lpath n (Some (hd bs)) bs (Some (hd bs))"
    "lpath p (Some (last bs)) (rev bs) (Some (last bs))" "distinct bs"
    using A B by (auto simp: dring_def)
  have e: "last as \<in> set as" "hd as \<in> set as" "last bs \<in> set bs" "hd bs \<in> set bs" using A(2) B(2) by auto
  then have ne: "last as \<notin> set bs" "last bs \<notin> set as" "hd as \<notin> set bs" "hd bs \<notin> set as" using d by auto
  have n1: "lpath n' (Some (hd as)) as (Some (hd bs))"
    unfolding n using lpath_snoc_upd [OF l(1,3) A(2), of "Some (hd bs)"] ne by simp
  have n2: "lpath n' (Some (hd bs)) bs (Some (hd as))"
    unfolding n using lpath_snoc_upd [OF _ l(6) B(2), of "n(last as \<mapsto> Some (hd bs))" "Some (hd bs)" "Some (hd bs)" "Some (hd as)"] l(4) ne by simp
  have p1: "lpath p' (Some (last as)) (rev as) (Some (last bs))"
    unfolding p using lpath_snoc_upd [OF l(2), of "Some (last bs)"] l(3) A(2) ne by (simp add: last_rev)
  have p2: "lpath p' (Some (last bs)) (rev bs) (Some (last as))"
    unfolding p using lpath_snoc_upd [of "p(hd as \<mapsto> Some (last bs))" "Some (last bs)" "rev bs" "Some (last bs)" "Some (last as)"]
      l(5,6) B(2) ne by (simp add: last_rev)
  show ?thesis using n1 n2 p1 p2 l(3,6) A(2) B(2) d by (auto simp: dring_def)
qed

text \<open>Inserting behind the first node.\<close>

lemma dring_insert:
  assumes R: "dring n p (f # fs)" and x: "x \<notin> set (f # fs)"
    and n: "n' = n(x \<mapsto> Some (hd (fs @ [f])), f \<mapsto> Some x)" and p: "p' = p(x \<mapsto> Some f, hd (fs @ [f]) \<mapsto> Some x)"
  shows "dring n' p' (f # x # fs)"
proof -
  have l: "lpath n (Some f) (f # fs) (Some f)" "lpath p (Some (last (f # fs))) (rev fs @ [f]) (Some (last (f # fs)))"
    "distinct (f # fs)" using R by (auto simp: dring_def)
  show ?thesis
  proof (cases fs)
    case Nil
    then show ?thesis using x n p by (simp add: dring_def)
  next
    case (Cons g gs)
    have r: "lpath n (Some g) fs (Some f)" using l(1) Cons by auto
    then have n1: "lpath n' (Some g) fs (Some f)" using l(3) x n by simp
    have q: "lpath p (Some (last fs)) (rev fs) (Some f)" "p f = Some (Some (last fs))"
      using l(2) Cons by auto
    have "lpath (p(g \<mapsto> Some x)) (Some (last fs)) (rev fs) (Some x)"
      using lpath_snoc_upd [OF q(1), of "Some x"] l(3) Cons by simp
    moreover have "p' = (p(g \<mapsto> Some x))(x \<mapsto> Some f)" using p x Cons by (auto simp: fun_upd_twist)
    ultimately have p1: "lpath p' (Some (last fs)) (rev fs) (Some x)" using x by simp
    have "p' f = Some (Some (last fs))" "p' x = Some (Some f)" using p q(2) x l(3) Cons by auto
    then show ?thesis using n1 p1 l(3) x n Cons by (simp add: dring_def)
  qed
qed

lemma dring_rotate:
  assumes R: "dring n p (a # as)"
  shows "dring n p (as @ [a])"
proof (cases as)
  case Nil
  then show ?thesis using R by simp
next
  case (Cons b bs)
  have l: "lpath n (Some a) (a # as) (Some a)" "lpath p (Some (last as)) (rev as @ [a]) (Some (last as))" "distinct (a # as)"
    using R Cons by (auto simp: dring_def)
  have "lpath n (Some b) as (Some a)" "n a = Some (Some b)" using l(1) Cons by auto
  moreover have "lpath p (Some (last as)) (rev as) (Some a)" "p a = Some (Some (last as))" using l(2) by auto
  ultimately show ?thesis using l(3) Cons by (simp add: dring_def)
qed

end
