(* ===== verification/MatchRecord.thy ===== *)
theory MatchRecord
  imports Ring
begin

text \<open>
  Match records: \<open>src/match_record.c\<close> and \<open>src/match_record.h\<close>. A record object keeps two
  circular doubly linked lists, the matches and a pool of released records. Positions in the
  input buffer are addresses; \<open>malloc\<close> is taken to succeed, and its block is filled before it
  is read.
\<close>

section \<open>The store\<close>

record mrec =
  m_beg :: ptr
  m_end :: ptr
  m_next :: ptr
  m_prev :: ptr

record mobj =
  mo_head :: ptr
  mo_count :: int
  mo_pool :: ptr

record mstore =
  mrecs :: "addr \<Rightarrow> mrec option"
  mobjs :: "addr \<Rightarrow> mobj option"
  mbrk :: addr

definition mrget :: "mstore \<Rightarrow> ptr \<Rightarrow> mrec option" where
  "mrget m p = deref (mrecs m) p"

definition mrset :: "mstore \<Rightarrow> ptr \<Rightarrow> (mrec \<Rightarrow> mrec) \<Rightarrow> mstore option" where
  "mrset m p f = do { a \<leftarrow> p; r \<leftarrow> mrecs m a; Some (m\<lparr>mrecs := (mrecs m)(a \<mapsto> f r)\<rparr>) }"

definition oget :: "mstore \<Rightarrow> ptr \<Rightarrow> mobj option" where
  "oget m p = deref (mobjs m) p"

definition oset :: "mstore \<Rightarrow> ptr \<Rightarrow> (mobj \<Rightarrow> mobj) \<Rightarrow> mstore option" where
  "oset m p f = do { a \<leftarrow> p; r \<leftarrow> mobjs m a; Some (m\<lparr>mobjs := (mobjs m)(a \<mapsto> f r)\<rparr>) }"

definition mfree :: "mstore \<Rightarrow> ptr \<Rightarrow> mstore option" where
  "mfree m p = do { a \<leftarrow> p; _ \<leftarrow> mrecs m a; Some (m\<lparr>mrecs := (mrecs m)(a := None)\<rparr>) }"

definition mmalloc :: "mstore \<Rightarrow> ptr \<times> mstore" where
  "mmalloc m = (Some (mbrk m), m\<lparr>mrecs := (mrecs m)(mbrk m \<mapsto>
     \<lparr>m_beg = None, m_end = None, m_next = None, m_prev = None\<rparr>), mbrk := Suc (mbrk m)\<rparr>)"

section \<open>Operations\<close>

definition new_match_record_obj :: "mstore \<Rightarrow> ptr \<times> mstore" where
  "new_match_record_obj m = (Some (mbrk m), m\<lparr>mobjs := (mobjs m)(mbrk m \<mapsto>
     \<lparr>mo_head = None, mo_count = 0, mo_pool = None\<rparr>), mbrk := Suc (mbrk m)\<rparr>)"

definition match_record_count :: "mstore \<Rightarrow> ptr \<Rightarrow> int option" where
  "match_record_count m obj = (if obj = None then Some 0 else do { r \<leftarrow> oget m obj; Some (mo_count r) })"

definition mr_take :: "mstore \<Rightarrow> ptr \<Rightarrow> (ptr \<times> mstore) option" where
  "mr_take m obj = do {
     r \<leftarrow> oget m obj;
     (if mo_pool r = None then Some (mmalloc m)
      else do {
        p \<leftarrow> mrget m (mo_pool r);
        m \<leftarrow> (if m_next p = mo_pool r then oset m obj (mo_pool_update (\<lambda>_. None))
              else do {
                m \<leftarrow> mrset m (m_prev p) (m_next_update (\<lambda>_. m_next p));
                p \<leftarrow> mrget m (mo_pool r);
                m \<leftarrow> mrset m (m_next p) (m_prev_update (\<lambda>_. m_prev p));
                p \<leftarrow> mrget m (mo_pool r);
                oset m obj (mo_pool_update (\<lambda>_. m_next p)) });
        Some (mo_pool r, m) }) }"

definition new_match_record :: "mstore \<Rightarrow> ptr \<Rightarrow> ptr \<Rightarrow> ptr \<Rightarrow> mstore option" where
  "new_match_record m obj beg fin = (if obj = None \<or> beg = None \<or> fin = None then Some m else do {
     (new_match, m) \<leftarrow> mr_take m obj;
     r \<leftarrow> oget m obj;
     m \<leftarrow> (if mo_head r = None then do {
             m \<leftarrow> mrset m new_match (m_next_update (\<lambda>_. new_match));
             m \<leftarrow> mrset m new_match (m_prev_update (\<lambda>_. new_match));
             oset m obj (mo_head_update (\<lambda>_. new_match)) }
           else do {
             m \<leftarrow> mrset m new_match (m_next_update (\<lambda>_. mo_head r));
             h \<leftarrow> mrget m (mo_head r);
             m \<leftarrow> mrset m new_match (m_prev_update (\<lambda>_. m_prev h));
             h \<leftarrow> mrget m (mo_head r);
             m \<leftarrow> mrset m (m_prev h) (m_next_update (\<lambda>_. new_match));
             mrset m (mo_head r) (m_prev_update (\<lambda>_. new_match)) });
     m \<leftarrow> mrset m new_match (\<lambda>n. n\<lparr>m_beg := beg, m_end := fin\<rparr>);
     oset m obj (\<lambda>r. r\<lparr>mo_count := mo_count r + 1\<rparr>) })"

definition match_record_clear :: "mstore \<Rightarrow> ptr \<Rightarrow> mstore option" where
  "match_record_clear m obj = (if obj = None then Some m else do {
     r \<leftarrow> oget m obj;
     let head = mo_head r;
     let pool = mo_pool r;
     (if head = None then Some m else do {
        m \<leftarrow> (if pool = None then oset m obj (mo_pool_update (\<lambda>_. head))
              else do {
                h \<leftarrow> mrget m head;
                p \<leftarrow> mrget m pool;
                (if m_next h = head then do {
                   m \<leftarrow> mrset m head (m_prev_update (\<lambda>_. m_prev p));
                   p \<leftarrow> mrget m pool;
                   m \<leftarrow> mrset m (m_prev p) (m_next_update (\<lambda>_. head));
                   m \<leftarrow> mrset m head (m_next_update (\<lambda>_. pool));
                   mrset m pool (m_prev_update (\<lambda>_. head)) }
                 else do {
                   let tmp = m_prev h;
                   m \<leftarrow> mrset m (m_prev h) (m_next_update (\<lambda>_. pool));
                   p \<leftarrow> mrget m pool;
                   m \<leftarrow> mrset m (m_prev p) (m_next_update (\<lambda>_. head));
                   p \<leftarrow> mrget m pool;
                   m \<leftarrow> mrset m head (m_prev_update (\<lambda>_. m_prev p));
                   mrset m pool (m_prev_update (\<lambda>_. tmp)) }) });
        oset m obj (\<lambda>r. r\<lparr>mo_head := None, mo_count := 0\<rparr>) }) })"

partial_function (option) mr_free_loop :: "mstore \<Rightarrow> ptr \<Rightarrow> ptr \<Rightarrow> ptr \<Rightarrow> mstore option" where [code]:
  "mr_free_loop m obj pool lst = (if pool \<noteq> lst then do {
     m \<leftarrow> mrset m pool (m_prev_update (\<lambda>_. None));
     p \<leftarrow> mrget m pool;
     let pool = m_next p;
     m \<leftarrow> oset m obj (mo_pool_update (\<lambda>_. pool));
     q \<leftarrow> mrget m pool;
     m \<leftarrow> mrset m (m_prev q) (m_next_update (\<lambda>_. None));
     q \<leftarrow> mrget m pool;
     m \<leftarrow> mfree m (m_prev q);
     mr_free_loop m obj pool lst }
   else do {
     m \<leftarrow> mrset m pool (m_prev_update (\<lambda>_. None));
     m \<leftarrow> mrset m pool (m_next_update (\<lambda>_. None));
     m \<leftarrow> mfree m pool;
     oset m obj (mo_pool_update (\<lambda>_. None)) })"

text \<open>\<open>match_record_free\<close> also sets the caller's pointer to \<open>NULL\<close>, the second result.\<close>

definition match_record_free :: "mstore \<Rightarrow> ptr \<Rightarrow> (mstore \<times> ptr) option" where
  "match_record_free m obj = (case obj of None \<Rightarrow> Some (m, obj) | Some o' \<Rightarrow> do {
     m \<leftarrow> match_record_clear m obj;
     r \<leftarrow> oget m obj;
     m \<leftarrow> (if mo_pool r \<noteq> None then do {
             p \<leftarrow> mrget m (mo_pool r);
             mr_free_loop m obj (mo_pool r) (m_prev p) }
           else Some m);
     Some (m\<lparr>mobjs := (mobjs m)(o' := None)\<rparr>, None) })"

section \<open>Rings\<close>

definition mnext :: "mstore \<Rightarrow> addr \<Rightarrow> ptr option" where
  "mnext m a = map_option m_next (mrecs m a)"

definition mprev :: "mstore \<Rightarrow> addr \<Rightarrow> ptr option" where
  "mprev m a = map_option m_prev (mrecs m a)"

abbreviation ring :: "mstore \<Rightarrow> addr list \<Rightarrow> bool" where
  "ring m \<equiv> dring (mnext m) (mprev m)"

definition spans :: "mstore \<Rightarrow> addr list \<Rightarrow> (ptr \<times> ptr) list" where
  "spans m as = map (\<lambda>a. case mrecs m a of None \<Rightarrow> (None, None) | Some r \<Rightarrow> (m_beg r, m_end r)) as"

definition mr_fresh :: "mstore \<Rightarrow> bool" where
  "mr_fresh m \<longleftrightarrow> (\<forall>a \<ge> mbrk m. mrecs m a = None \<and> mobjs m a = None)"

definition mr_rep :: "mstore \<Rightarrow> addr \<Rightarrow> addr list \<Rightarrow> addr list \<Rightarrow> bool" where
  "mr_rep m ob as ps \<longleftrightarrow> ring m as \<and> ring m ps \<and> set as \<inter> set ps = {} \<and> mr_fresh m \<and>
     mobjs m ob = Some \<lparr>mo_head = hdp as, mo_count = int (length as), mo_pool = hdp ps\<rparr>"

lemmas mr_prims = mrget_def mrset_def oget_def oset_def mfree_def

lemma ring_alloc: "ring m as \<Longrightarrow> a \<in> set as \<Longrightarrow> \<exists>r. mrecs m a = Some r"
  using dring_alloc [of "mnext m" "mprev m" as a] by (auto simp: mnext_def)

lemma ring_ends:
  assumes "ring m as" "as \<noteq> []"
  shows "\<exists>r. mrecs m (hd as) = Some r \<and> m_prev r = Some (last as)"
    "\<exists>r. mrecs m (last as) = Some r \<and> m_next r = Some (hd as)"
    "\<exists>r. mrecs m (hd as) = Some r \<and> m_next r = Some (if tl as = [] then hd as else hd (tl as))"
  using dring_ends [OF assms] by (auto simp: mprev_def mnext_def)

end
