(* ===== verification/MatchRecordOps.thy ===== *)
theory MatchRecordOps
  imports MatchRecord
begin

text \<open>
  The operations of \<open>src/match_record.c\<close> on rings, the contract of a match sink, and the
  properties.
\<close>

definition vals :: "mstore \<Rightarrow> addr \<Rightarrow> ptr \<times> ptr" where
  "vals m a = (case mrecs m a of None \<Rightarrow> (None, None) | Some r \<Rightarrow> (m_beg r, m_end r))"

lemma upd_alloc: "\<exists>r. m a = Some r \<Longrightarrow> \<exists>r. (m(b \<mapsto> v)) a = Some r"
  by simp

lemma spans_vals: "spans m as = map (vals m) as"
  by (simp add: spans_def vals_def)

lemma mr_repD:
  assumes "mr_rep m ob as ps"
  shows "ring m as" "ring m ps" "set as \<inter> set ps = {}" "mr_fresh m"
    "mobjs m ob = Some \<lparr>mo_head = hdp as, mo_count = int (length as), mo_pool = hdp ps\<rparr>"
  using assms by (auto simp: mr_rep_def)

lemma mr_take_rep:
  assumes R: "mr_rep m ob as ps"
  shows "\<exists>x m'. mr_take m (Some ob) = Some (Some x, m') \<and> x \<notin> set as \<and> x \<notin> set (tl ps) \<and>
    mrecs m' x \<noteq> None \<and> mr_rep m' ob as (tl ps) \<and> (\<forall>a \<in> set as. vals m' a = vals m a) \<and> (ps \<noteq> [] \<longrightarrow> x = hd ps) \<and>
    dom (mrecs m') = insert x (dom (mrecs m))"
proof (cases ps)
  case Nil
  let ?x = "mbrk m"
  let ?m = "m\<lparr>mrecs := (mrecs m)(?x \<mapsto> \<lparr>m_beg = None, m_end = None, m_next = None, m_prev = None\<rparr>), mbrk := Suc ?x\<rparr>"
  note r = mr_repD [OF R]
  have "mrecs m ?x = None" using r(4) by (simp add: mr_fresh_def)
  then have x: "?x \<notin> set as" using ring_alloc [OF r(1), of ?x] by auto
  have "ring ?m as = ring m as" using x by (intro dring_cong) (auto simp: mnext_def mprev_def)
  moreover have "ring ?m []" by (simp add: dring_def)
  moreover have "mr_fresh ?m" using r(4) by (simp add: mr_fresh_def)
  ultimately have "mr_rep ?m ob as []" using r Nil by (simp add: mr_rep_def)
  moreover have "mr_take m (Some ob) = Some (Some ?x, ?m)"
    using r(5) Nil by (simp add: mr_take_def mmalloc_def mr_prims)
  moreover have "vals ?m a = vals m a" if "a \<in> set as" for a using that x by (auto simp: vals_def)
  ultimately show ?thesis using x Nil by (intro exI [of _ ?x] exI [of _ ?m]) simp
next
  case (Cons p qs)
  note r = mr_repD [OF R]
  have pa: "p \<notin> set as" "p \<notin> set qs" using r(2,3) Cons by (auto simp: dring_def)
  from ring_ends [OF r(2)] Cons obtain pr where
    pr: "mrecs m p = Some pr" "m_prev pr = Some (last ps)" "m_next pr = Some (if qs = [] then p else hd qs)" by auto
  show ?thesis
  proof (cases "qs = []")
    case True
    let ?o = "\<lparr>mo_head = hdp as, mo_count = int (length as), mo_pool = None\<rparr>"
    let ?m = "m\<lparr>mobjs := (mobjs m)(ob \<mapsto> ?o)\<rparr>"
    have "ring ?m as = ring m as" by (intro dring_cong) (auto simp: mnext_def mprev_def)
    moreover have "ring ?m []" by (simp add: dring_def)
    moreover have "mr_fresh ?m" using r(4,5) by (auto simp: mr_fresh_def)
    ultimately have "mr_rep ?m ob as []" using r True by (simp add: mr_rep_def)
    moreover have "mr_take m (Some ob) = Some (Some p, ?m)"
      using r(5) Cons True pr by (simp add: mr_take_def mr_prims)
    ultimately show ?thesis using pa pr Cons True
      by (intro exI [of _ p] exI [of _ ?m]) (auto simp add: vals_def)
  next
    case False
    have lq: "last ps = last qs" using Cons False by simp
    have rq: "ring m (p # qs)" using r(2) Cons by simp
    have in_q: "last qs \<in> set qs" "hd qs \<in> set qs" using False by auto
    have out: "last qs \<notin> set as" "hd qs \<notin> set as" "last qs \<noteq> p" "hd qs \<noteq> p"
      using in_q r(3) pa Cons by auto
    obtain lr where lr: "mrecs m (last qs) = Some lr" using ring_alloc [OF rq] in_q by auto
    let ?lr = "lr\<lparr>m_next := Some (hd qs)\<rparr>"
    let ?m1 = "(mrecs m)(last qs \<mapsto> ?lr)"
    obtain hr where hr: "?m1 (hd qs) = Some hr"
      using upd_alloc ring_alloc [OF rq] in_q(2) by (metis list.set_intros(2))
    let ?m2 = "?m1(hd qs \<mapsto> hr\<lparr>m_prev := Some (last qs)\<rparr>)"
    let ?o = "\<lparr>mo_head = hdp as, mo_count = int (length as), mo_pool = Some (hd qs)\<rparr>"
    let ?m = "m\<lparr>mrecs := ?m2, mobjs := (mobjs m)(ob \<mapsto> ?o)\<rparr>"
    have take: "mr_take m (Some ob) = Some (Some p, ?m)"
      using r(5) Cons False pr lr hr lq out by (simp add: mr_take_def mr_prims del: fun_upd_apply) (simp add: mr_prims)
    have nx: "mnext ?m = (mnext m)(last qs \<mapsto> Some (hd qs))" and pv: "mprev ?m = (mprev m)(hd qs \<mapsto> Some (last qs))"
      using lr hr by (auto simp: mnext_def mprev_def fun_eq_iff split: if_splits)
    have "ring ?m qs" by (rule dring_tail [OF rq False nx pv])
    moreover have "ring ?m as = ring m as" using out by (intro dring_cong) (auto simp: nx pv)
    moreover have "mr_fresh ?m" using r(4,5) lr hr by (auto simp: mr_fresh_def split: if_splits)
    ultimately have "mr_rep ?m ob as qs" using r Cons False by (simp add: mr_rep_def hdp_hd)
    moreover have "vals ?m a = vals m a" if "a \<in> set as" for a using that out by (auto simp: vals_def)
    moreover have "mrecs ?m p \<noteq> None" using pr(1) out by auto
    moreover have "dom (mrecs ?m) = insert p (dom (mrecs m))" using pr(1) lr hr by (auto split: if_splits)
    ultimately show ?thesis using take pa Cons by (intro exI [of _ p] exI [of _ ?m]) simp
  qed
qed

lemma new_match_record_rep:
  assumes R: "mr_rep m ob as ps"
  shows "\<exists>x m'. new_match_record m (Some ob) (Some b) (Some e) = Some m' \<and> mr_rep m' ob (as @ [x]) (tl ps) \<and>
    spans m' (as @ [x]) = spans m as @ [(Some b, Some e)] \<and> (ps \<noteq> [] \<longrightarrow> x = hd ps) \<and>
    dom (mrecs m') = insert x (dom (mrecs m))"
proof -
  from mr_take_rep [OF R] obtain x g where g: "mr_take m (Some ob) = Some (Some x, g)" "x \<notin> set as"
    "x \<notin> set (tl ps)" "mrecs g x \<noteq> None" "mr_rep g ob as (tl ps)" "\<forall>a \<in> set as. vals g a = vals m a"
    "ps \<noteq> [] \<longrightarrow> x = hd ps" "dom (mrecs g) = insert x (dom (mrecs m))" by blast
  note r = mr_repD [OF g(5)]
  obtain xr where xr: "mrecs g x = Some xr" using g(4) by blast
  let ?o = "\<lparr>mo_head = hdp (as @ [x]), mo_count = int (length as) + 1, mo_pool = hdp (tl ps)\<rparr>"
  have fr: "mr_fresh h" if "mbrk h = mbrk g" "\<And>a. mrecs g a = None \<Longrightarrow> mrecs h a = None"
    "\<And>a. mobjs g a = None \<Longrightarrow> mobjs h a = None" for h
    using r(4) that by (simp add: mr_fresh_def)
  show ?thesis
  proof (cases "as = []")
    case True
    let ?m = "g\<lparr>mrecs := (mrecs g)(x \<mapsto> \<lparr>m_beg = Some b, m_end = Some e, m_next = Some x, m_prev = Some x\<rparr>),
      mobjs := (mobjs g)(ob \<mapsto> ?o)\<rparr>"
    have "new_match_record m (Some ob) (Some b) (Some e) = Some ?m"
      using g(1) r(5) xr True by (cases xr) (simp add: new_match_record_def mr_prims)
    moreover have "ring ?m [x]" by (simp add: dring_def mnext_def mprev_def)
    moreover have "ring ?m (tl ps) = ring g (tl ps)" using g(3) by (intro dring_cong) (auto simp: mnext_def mprev_def)
    moreover have "mr_fresh ?m" using xr r(5) by (intro fr) auto
    ultimately have "mr_rep ?m ob (as @ [x]) (tl ps)" using r g(3) True by (simp add: mr_rep_def)
    then show ?thesis using \<open>new_match_record m (Some ob) (Some b) (Some e) = Some ?m\<close> g(7,8) True
      by (intro exI [of _ x] exI [of _ ?m]) (simp add: spans_vals vals_def)
  next
    case False
    have ends: "last as \<in> set as" "hd as \<in> set as" "last as \<noteq> x" "hd as \<noteq> x" using False g(2) by auto
    from ring_ends [OF r(1) False] obtain hr where hr: "mrecs g (hd as) = Some hr" "m_prev hr = Some (last as)" by blast
    let ?x = "\<lparr>m_beg = Some b, m_end = Some e, m_next = Some (hd as), m_prev = Some (last as)\<rparr>"
    let ?x1 = "xr\<lparr>m_next := Some (hd as), m_prev := Some (last as)\<rparr>"
    obtain lr where lr: "mrecs g (last as) = Some lr" using ring_alloc [OF r(1)] ends by auto
    let ?m1 = "(mrecs g)(last as \<mapsto> lr\<lparr>m_next := Some x\<rparr>)"
    obtain hr' where hr': "?m1 (hd as) = Some hr'" using upd_alloc hr(1) by metis
    let ?m2 = "?m1(hd as \<mapsto> hr'\<lparr>m_prev := Some x\<rparr>)"
    let ?m = "g\<lparr>mrecs := ?m2(x \<mapsto> ?x), mobjs := (mobjs g)(ob \<mapsto> ?o)\<rparr>"
    have op: "new_match_record m (Some ob) (Some b) (Some e) = Some ?m"
      using g(1) r(5) xr hr lr hr' ends False
      by (cases xr) (simp add: new_match_record_def mr_prims hdp_hd fun_upd_twist split: if_splits)
    have nx: "mnext ?m = (mnext g)(x \<mapsto> Some (hd as), last as \<mapsto> Some x)"
      and pv: "mprev ?m = (mprev g)(x \<mapsto> Some (last as), hd as \<mapsto> Some x)"
      using lr hr' ends by (auto simp: mnext_def mprev_def fun_eq_iff split: if_splits)
    have "ring ?m (as @ [x])" by (rule dring_snoc [OF r(1) False g(2) nx pv])
    moreover have "last as \<notin> set (tl ps)" "hd as \<notin> set (tl ps)" using ends r(3) by auto
    then have "ring ?m (tl ps) = ring g (tl ps)" using g(3) by (intro dring_cong) (auto simp: nx pv)
    moreover have "mr_fresh ?m" using xr lr hr' r(5) by (intro fr) (auto split: if_splits)
    ultimately have "mr_rep ?m ob (as @ [x]) (tl ps)" using r g(3) by (simp add: mr_rep_def)
    moreover have "vals ?m a = vals m a" if "a \<in> set as" for a
      using that g(2,6) lr hr' by (auto simp: vals_def split: if_splits)
    then have "spans ?m as = spans m as" by (simp add: spans_vals)
    moreover have "dom (mrecs ?m) = insert x (dom (mrecs m))" using g(8) xr lr hr' by (auto split: if_splits)
    ultimately show ?thesis using op g(7) by (intro exI [of _ x] exI [of _ ?m]) (simp add: spans_vals vals_def)
  qed
qed

lemma match_record_clear_rep:
  assumes R: "mr_rep m ob as ps"
  shows "\<exists>m'. match_record_clear m (Some ob) = Some m' \<and> mr_rep m' ob [] (if as = [] then ps else ps @ as) \<and>
    dom (mrecs m') = dom (mrecs m)"
proof (cases "as = []")
  case True
  note r = mr_repD [OF R]
  then show ?thesis using True R by (simp add: match_record_clear_def mr_prims)
next
  case False
  note r = mr_repD [OF R]
  from ring_ends [OF r(1) False] obtain hr where hr: "mrecs m (hd as) = Some hr" "m_prev hr = Some (last as)"
    "m_next hr = Some (if tl as = [] then hd as else hd (tl as))" by auto
  show ?thesis
  proof (cases "ps = []")
    case True
    let ?m = "m\<lparr>mobjs := (mobjs m)(ob \<mapsto> \<lparr>mo_head = None, mo_count = 0, mo_pool = Some (hd as)\<rparr>)\<rparr>"
    have "match_record_clear m (Some ob) = Some ?m"
      using r(5) True False by (simp add: match_record_clear_def mr_prims hdp_hd)
    moreover have "ring ?m as = ring m as" by (intro dring_cong) (auto simp: mnext_def mprev_def)
    moreover have "ring ?m []" by (simp add: dring_def)
    moreover have "mr_fresh ?m" using r(4,5) by (auto simp: mr_fresh_def)
    ultimately have "mr_rep ?m ob [] (ps @ as)" using r True False by (simp add: mr_rep_def hdp_hd)
    then show ?thesis using \<open>match_record_clear m (Some ob) = Some ?m\<close> False by auto
  next
    case pool: False
    from ring_ends [OF r(2) pool] obtain pr where pr: "mrecs m (hd ps) = Some pr" "m_prev pr = Some (last ps)" by auto
    have e: "last as \<in> set as" "hd as \<in> set as" "last ps \<in> set ps" "hd ps \<in> set ps" using False pool by auto
    then have ne: "last as \<notin> set ps" "last ps \<notin> set as" "hd as \<notin> set ps" "hd ps \<notin> set as"
      "last as \<noteq> last ps" "last as \<noteq> hd ps" "hd as \<noteq> last ps" "hd as \<noteq> hd ps" using r(3) by auto
    obtain lr where lr: "mrecs m (last as) = Some lr" using ring_alloc [OF r(1)] e by auto
    obtain qr where qr: "mrecs m (last ps) = Some qr" using ring_alloc [OF r(2)] e by auto
    let ?o = "\<lparr>mo_head = None, mo_count = 0, mo_pool = Some (hd ps)\<rparr>"
    have fin: ?thesis if op: "match_record_clear m (Some ob) = Some m'"
      and nx: "mnext m' = (mnext m)(last as \<mapsto> Some (hd ps), last ps \<mapsto> Some (hd as))"
      and pv: "mprev m' = (mprev m)(hd as \<mapsto> Some (last ps), hd ps \<mapsto> Some (last as))"
      and o: "mobjs m' = (mobjs m)(ob \<mapsto> ?o)" and b: "mbrk m' = mbrk m"
      and f: "dom (mrecs m') = dom (mrecs m)" for m'
    proof -
      have f': "\<And>a. mrecs m a = None \<Longrightarrow> mrecs m' a = None" using f by (metis domIff)
      have "ring m' (ps @ as)" by (rule dring_splice [OF r(1) False r(2) pool r(3) nx pv])
      moreover have "ring m' []" by (simp add: dring_def)
      moreover have "mr_fresh m'" using r(4,5) o b f' by (auto simp: mr_fresh_def)
      ultimately have "mr_rep m' ob [] (ps @ as)" using o pool by (simp add: mr_rep_def hdp_hd)
      then show ?thesis using op False f by auto
    qed
    show ?thesis
    proof (cases "tl as = []")
      case True
      then have la: "last as = hd as" using False by (cases as) auto
      let ?m1 = "(mrecs m)(last ps \<mapsto> qr\<lparr>m_next := Some (hd as)\<rparr>)"
      obtain pr' where pr': "?m1 (hd ps) = Some pr'" using upd_alloc pr(1) by metis
      let ?m = "m\<lparr>mrecs := ?m1(hd as \<mapsto> hr\<lparr>m_prev := Some (last ps), m_next := Some (hd ps)\<rparr>,
        hd ps \<mapsto> pr'\<lparr>m_prev := Some (hd as)\<rparr>), mobjs := (mobjs m)(ob \<mapsto> ?o)\<rparr>"
      have "match_record_clear m (Some ob) = Some ?m"
        using r(5) False pool hr pr qr pr' ne True
        by (simp add: match_record_clear_def mr_prims hdp_hd Let_def fun_upd_twist split: if_splits)
      then show ?thesis by (rule fin)
        (use la hr pr pr' qr ne in \<open>auto simp: mnext_def mprev_def fun_eq_iff split: if_splits\<close>)
    next
      case more: False
      then have nh: "hd (tl as) \<noteq> hd as" using r(1) False by (cases as; cases "tl as") (auto simp: dring_def)
      let ?m1 = "(mrecs m)(last as \<mapsto> lr\<lparr>m_next := Some (hd ps)\<rparr>, last ps \<mapsto> qr\<lparr>m_next := Some (hd as)\<rparr>)"
      obtain hr' pr' where hp: "?m1 (hd as) = Some hr'" "?m1 (hd ps) = Some pr'"
        using upd_alloc hr(1) pr(1) by metis
      have pp: "m_prev pr' = Some (last ps)" using hp pr qr ne by (auto split: if_splits)
      let ?m = "m\<lparr>mrecs := ?m1(hd as \<mapsto> hr'\<lparr>m_prev := Some (last ps)\<rparr>, hd ps \<mapsto> pr'\<lparr>m_prev := Some (last as)\<rparr>),
        mobjs := (mobjs m)(ob \<mapsto> ?o)\<rparr>"
      have "match_record_clear m (Some ob) = Some ?m"
        using r(5) False pool hr pr qr lr hp pp ne more nh
        by (simp add: match_record_clear_def mr_prims hdp_hd Let_def fun_upd_twist split: if_splits)
      then show ?thesis by (rule fin)
        (use lr hp qr ne in \<open>auto simp: mnext_def mprev_def fun_eq_iff split: if_splits\<close>)
    qed
  qed
qed

end
