(* ===== verification/MatchSink.thy ===== *)
theory MatchSink
  imports MatchRecordOps
begin

text \<open>
  Freeing the records, the contract \<open>match_sink\<close> that the string matchers rely on (record a
  span, forget all spans, count them), its interpretation on the rings, and the properties of
  \<open>src/match_record.c\<close>.
\<close>

declare mr_free_loop.simps [simp del]

lemma mr_free_loop_rep:
  assumes "lpath (mnext m) (Some p) (p # bs) q" "lpath (mprev m) (Some (last (p # bs))) (rev (p # bs)) r"
    "distinct (p # bs)" "mobjs m ob = Some o1"
  shows "\<exists>m'. mr_free_loop m (Some ob) (Some p) (Some (last (p # bs))) = Some m' \<and>
    (\<forall>a \<in> set (p # bs). mrecs m' a = None) \<and> (\<forall>a. a \<notin> set (p # bs) \<longrightarrow> mrecs m' a = mrecs m a) \<and>
    mobjs m' = (mobjs m)(ob \<mapsto> o1\<lparr>mo_pool := None\<rparr>)"
  using assms
proof (induction bs arbitrary: m p o1 r)
  case Nil
  then obtain pr where "mrecs m p = Some pr" by (auto simp: mnext_def)
  then show ?case using Nil by (subst mr_free_loop.simps) (auto simp: mr_prims)
next
  case (Cons b bs)
  obtain pr where pr: "mrecs m p = Some pr" "m_next pr = Some b"
    using Cons.prems(1) by (auto simp: mnext_def)
  have nb: "lpath (mnext m) (Some b) (b # bs) q" using Cons.prems(1) by auto
  have pv: "lpath (mprev m) (Some (last (b # bs))) (rev (b # bs)) (Some p)"
    using Cons.prems(2) by (auto simp: lpath_head)
  have "mprev m b = Some (Some p)"
    using lpath_nth [OF pv, of "length bs"] by (simp add: nth_append)
  then obtain br where br: "mrecs m b = Some br" "m_prev br = Some p" by (auto simp: mprev_def)
  have d: "p \<noteq> b" "p \<notin> set (b # bs)" "p \<noteq> last (b # bs)"
    using Cons.prems(3) last_in_set [of "b # bs"] by auto
  let ?o = "o1\<lparr>mo_pool := Some b\<rparr>"
  let ?g = "m\<lparr>mobjs := (mobjs m)(ob \<mapsto> ?o), mrecs := (mrecs m)(p := None)\<rparr>"
  have "mr_free_loop m (Some ob) (Some p) (Some (last (p # b # bs))) =
      mr_free_loop ?g (Some ob) (Some b) (Some (last (b # bs)))"
    using pr br d Cons.prems(4) by (subst mr_free_loop.simps) (simp add: mr_prims Let_def del: last.simps add: last_ConsR)
  moreover have n1: "lpath (mnext ?g) (Some b) (b # bs) q"
  proof -
    have "lpath (mnext ?g) (Some b) (b # bs) q = lpath (mnext m) (Some b) (b # bs) q"
      by (rule lpath_cong) (use d in \<open>auto simp: mnext_def\<close>)
    then show ?thesis using nb by (simp only:)
  qed
  have n2: "lpath (mprev ?g) (Some (last (b # bs))) (rev (b # bs)) (Some p)"
  proof -
    have "lpath (mprev ?g) (Some (last (b # bs))) (rev (b # bs)) (Some p) =
        lpath (mprev m) (Some (last (b # bs))) (rev (b # bs)) (Some p)"
      by (rule lpath_cong) (use d in \<open>auto simp: mprev_def\<close>)
    then show ?thesis using pv by (simp only:)
  qed
  have n3: "distinct (b # bs)" "mobjs ?g ob = Some ?o" using Cons.prems(3) by auto
  from Cons.IH [OF n1 n2 n3] obtain m' where "mr_free_loop ?g (Some ob) (Some b) (Some (last (b # bs))) = Some m'"
    "\<forall>a \<in> set (b # bs). mrecs m' a = None" "\<forall>a. a \<notin> set (b # bs) \<longrightarrow> mrecs m' a = mrecs ?g a"
    "mobjs m' = (mobjs ?g)(ob \<mapsto> ?o\<lparr>mo_pool := None\<rparr>)" by blast
  ultimately have "mr_free_loop m (Some ob) (Some p) (Some (last (p # b # bs))) = Some m' \<and>
    (\<forall>a \<in> set (p # b # bs). mrecs m' a = None) \<and> (\<forall>a. a \<notin> set (p # b # bs) \<longrightarrow> mrecs m' a = mrecs m a) \<and>
    mobjs m' = (mobjs m)(ob \<mapsto> o1\<lparr>mo_pool := None\<rparr>)" using d by auto
  then show ?case by blast
qed

lemma match_record_free_rep:
  assumes R: "mr_rep m ob as ps" and all: "dom (mrecs m) = set as \<union> set ps"
  shows "\<exists>m'. match_record_free m (Some ob) = Some (m', None) \<and> dom (mrecs m') = {} \<and> mobjs m' ob = None"
proof -
  let ?qs = "if as = [] then ps else ps @ as"
  from match_record_clear_rep [OF R] obtain g where g: "match_record_clear m (Some ob) = Some g"
    "mr_rep g ob [] ?qs" "dom (mrecs g) = dom (mrecs m)" by blast
  note r = mr_repD [OF g(2)]
  have sq: "dom (mrecs g) = set ?qs" using g(3) all by auto
  show ?thesis
  proof (cases "?qs = []")
    case True
    have "match_record_free m (Some ob) = Some (g\<lparr>mobjs := (mobjs g)(ob := None)\<rparr>, None)"
      using g(1) r(5) unfolding True by (simp add: match_record_free_def mr_prims)
    then show ?thesis using sq True by auto
  next
    case False
    then obtain p bs where qs: "?qs = p # bs" by (cases ?qs) auto
    from r(2) False have l: "lpath (mnext g) (Some p) (p # bs) (Some p)"
      "lpath (mprev g) (Some (last (p # bs))) (rev (p # bs)) (Some (last (p # bs)))" "distinct (p # bs)"
      unfolding dring_def qs by auto
    from mr_free_loop_rep [OF l r(5)] obtain m' where m':
      "mr_free_loop g (Some ob) (Some p) (Some (last (p # bs))) = Some m'"
      "\<forall>a \<in> set (p # bs). mrecs m' a = None" "\<forall>a. a \<notin> set (p # bs) \<longrightarrow> mrecs m' a = mrecs g a" by blast
    from ring_ends(1) [OF r(2) False] obtain pr where "mrecs g p = Some pr" "m_prev pr = Some (last (p # bs))"
      unfolding qs by auto
    then have "match_record_free m (Some ob) = Some (m'\<lparr>mobjs := (mobjs m')(ob := None)\<rparr>, None)"
      using g(1) r(5) m'(1) unfolding qs by (simp add: match_record_free_def mr_prims)
    moreover have "mrecs m' a = None" for a using m'(2,3) sq unfolding qs by (cases "a \<in> set (p # bs)") auto
    ultimately show ?thesis by auto
  qed
qed

section \<open>The sink contract\<close>

locale match_sink =
  fixes record_span :: "addr \<Rightarrow> addr \<Rightarrow> 's \<Rightarrow> 's option"
    and forget :: "'s \<Rightarrow> 's option"
    and number :: "'s \<Rightarrow> int option"
    and holds :: "'s \<Rightarrow> (addr \<times> addr) list \<Rightarrow> bool"
  assumes record_ok: "holds s xs \<Longrightarrow> \<exists>s'. record_span b e s = Some s' \<and> holds s' (xs @ [(b, e)])"
    and forget_ok: "holds s xs \<Longrightarrow> \<exists>s'. forget s = Some s' \<and> holds s' []"
    and number_ok: "holds s xs \<Longrightarrow> number s = Some (int (length xs))"
begin

lemma record_all: "holds s xs \<Longrightarrow>
    \<exists>s'. fold_opt (\<lambda>(b, e). record_span b e) ys s = Some s' \<and> holds s' (xs @ ys) \<and>
      number s' = Some (int (length xs + length ys))"
proof (induction ys arbitrary: s xs)
  case Nil
  then show ?case using number_ok by auto
next
  case (Cons y ys)
  obtain b e where y: "y = (b, e)" by fastforce
  from record_ok [OF Cons.prems] obtain t where "record_span b e s = Some t" "holds t (xs @ [(b, e)])" by blast
  with Cons.IH [of t "xs @ [(b, e)]"] y show ?case by auto
qed

lemma record_after_forget:
  assumes "holds s xs"
  shows "\<exists>s'. do { s \<leftarrow> forget s; fold_opt (\<lambda>(b, e). record_span b e) ys s } = Some s' \<and> holds s' ys"
proof -
  from forget_ok [OF assms] obtain t where t: "forget s = Some t" "holds t []" by blast
  from record_all [OF t(2), of ys] t(1) show ?thesis by auto
qed

end

section \<open>The rings satisfy it\<close>

definition mr_record :: "addr \<Rightarrow> addr \<Rightarrow> addr \<Rightarrow> mstore \<Rightarrow> mstore option" where
  "mr_record ob b e m = new_match_record m (Some ob) (Some b) (Some e)"

definition mr_forget :: "addr \<Rightarrow> mstore \<Rightarrow> mstore option" where
  "mr_forget ob m = match_record_clear m (Some ob)"

definition mr_number :: "addr \<Rightarrow> mstore \<Rightarrow> int option" where
  "mr_number ob m = match_record_count m (Some ob)"

definition mr_holds :: "addr \<Rightarrow> mstore \<Rightarrow> (addr \<times> addr) list \<Rightarrow> bool" where
  "mr_holds ob m xs \<longleftrightarrow> (\<exists>as ps. mr_rep m ob as ps \<and> dom (mrecs m) = set as \<union> set ps \<and>
     spans m as = map (\<lambda>(b, e). (Some b, Some e)) xs)"

lemma mr_holds_record: "mr_holds ob m xs \<Longrightarrow> \<exists>m'. mr_record ob b e m = Some m' \<and> mr_holds ob m' (xs @ [(b, e)])"
proof -
  assume "mr_holds ob m xs"
  then obtain as ps where a: "mr_rep m ob as ps" "dom (mrecs m) = set as \<union> set ps"
    "spans m as = map (\<lambda>(b, e). (Some b, Some e)) xs" by (auto simp: mr_holds_def)
  from new_match_record_rep [OF a(1), of b e] obtain x m' where
    r: "new_match_record m (Some ob) (Some b) (Some e) = Some m'" "mr_rep m' ob (as @ [x]) (tl ps)"
    "spans m' (as @ [x]) = spans m as @ [(Some b, Some e)]" "ps \<noteq> [] \<longrightarrow> x = hd ps"
    "dom (mrecs m') = insert x (dom (mrecs m))" by blast
  have "dom (mrecs m') = set (as @ [x]) \<union> set (tl ps)" using r(4,5) a(2) by (cases ps) auto
  moreover have "spans m' (as @ [x]) = map (\<lambda>(b, e). (Some b, Some e)) (xs @ [(b, e)])" using r(3) a(3) by simp
  ultimately show ?thesis using r(1,2) unfolding mr_record_def mr_holds_def by blast
qed

lemma mr_holds_forget: "mr_holds ob m xs \<Longrightarrow> \<exists>m'. mr_forget ob m = Some m' \<and> mr_holds ob m' []"
proof -
  assume "mr_holds ob m xs"
  then obtain as ps where a: "mr_rep m ob as ps" "dom (mrecs m) = set as \<union> set ps" by (auto simp: mr_holds_def)
  let ?qs = "if as = [] then ps else ps @ as"
  from match_record_clear_rep [OF a(1)] obtain m' where
    m': "match_record_clear m (Some ob) = Some m'" "mr_rep m' ob [] ?qs" "dom (mrecs m') = dom (mrecs m)" by blast
  have "dom (mrecs m') = set [] \<union> set ?qs" using m'(3) a(2) by auto
  moreover have "spans m' [] = map (\<lambda>(b, e). (Some b, Some e)) []" by (simp add: spans_def)
  ultimately show ?thesis using m'(1,2) unfolding mr_forget_def mr_holds_def by blast
qed

lemma mr_holds_number: "mr_holds ob m xs \<Longrightarrow> mr_number ob m = Some (int (length xs))"
proof -
  assume "mr_holds ob m xs"
  then obtain as ps where a: "mr_rep m ob as ps" "spans m as = map (\<lambda>(b, e). (Some b, Some e)) xs"
    by (auto simp: mr_holds_def)
  have "length as = length xs" using arg_cong [OF a(2), of length] by (simp add: spans_def)
  then show ?thesis using mr_repD(5) [OF a(1)] by (simp add: mr_number_def match_record_count_def mr_prims)
qed

interpretation mrs: match_sink "mr_record ob" "mr_forget ob" "mr_number ob" "mr_holds ob" for ob
  using mr_holds_record mr_holds_forget mr_holds_number by unfold_locales auto

definition empty_mstore :: mstore where
  "empty_mstore = \<lparr>mrecs = (\<lambda>_. None), mobjs = (\<lambda>_. None), mbrk = 0\<rparr>"

lemma new_obj_holds: "mr_holds 0 (snd (new_match_record_obj empty_mstore)) []"
proof -
  have "mr_rep (snd (new_match_record_obj empty_mstore)) 0 [] []"
    by (simp add: mr_rep_def dring_def new_match_record_obj_def empty_mstore_def mr_fresh_def)
  then show ?thesis unfolding mr_holds_def
    by (intro exI [of _ "[]"]) (simp add: spans_def new_match_record_obj_def empty_mstore_def)
qed

section \<open>Properties\<close>

text \<open>C16: recording spans on a new record object, clearing it and recording again keeps exactly
  the spans recorded since the clear, in order, with their number in \<open>match_count\<close>; nothing
  dangling is touched, whichever records come from the pool.\<close>

theorem match_records_keep_spans:
  "\<exists>m m'. fold_opt (\<lambda>(b, e). mr_record 0 b e) xs (snd (new_match_record_obj empty_mstore)) = Some m \<and>
    mr_holds 0 m xs \<and> mr_number 0 m = Some (int (length xs)) \<and>
    do { m \<leftarrow> mr_forget 0 m; fold_opt (\<lambda>(b, e). mr_record 0 b e) ys m } = Some m' \<and> mr_holds 0 m' ys \<and>
    mr_number 0 m' = Some (int (length ys))"
proof -
  from mrs.record_all [OF new_obj_holds, of xs] obtain m where
    m: "fold_opt (\<lambda>(b, e). mr_record 0 b e) xs (snd (new_match_record_obj empty_mstore)) = Some m"
    "mr_holds 0 m xs" by auto
  from mrs.record_after_forget [OF m(2), of ys] obtain m' where
    "do { m \<leftarrow> mr_forget 0 m; fold_opt (\<lambda>(b, e). mr_record 0 b e) ys m } = Some m'" "mr_holds 0 m' ys" by blast
  then show ?thesis using m mrs.number_ok by blast
qed

text \<open>C32: \<open>match_record_free\<close> ends and releases every record, live and pooled, exactly once and
  the object itself: no leak, no double free, and the caller's pointer is \<open>NULL\<close>.\<close>

theorem match_record_free_releases_all:
  assumes "mr_holds ob m xs"
  shows "\<exists>m'. match_record_free m (Some ob) = Some (m', None) \<and> dom (mrecs m') = {} \<and> mobjs m' ob = None"
  using assms match_record_free_rep unfolding mr_holds_def by blast

theorem match_record_free_releases_all_witness:
  "\<exists>m'. match_record_free (snd (new_match_record_obj empty_mstore)) (Some 0) = Some (m', None) \<and> dom (mrecs m') = {}"
  using match_record_free_releases_all [OF new_obj_holds] by blast

end
