(* ===== verification/BoyerMoore.thy ===== *)
theory BoyerMoore
  imports RbtreeTable MatchSink
begin

text \<open>
  Boyer-Moore search: \<open>src/boyer_moore.c\<close>.

  \<open>char\<close> is signed on the platform (\<open>sint\<close>); \<open>bm_get_char_shift\<close> takes an \<open>unsigned char\<close>
  (\<open>uint\<close>). The suffix lengths are kept in a \<open>char\<close> array, so they wrap at 128; an element is
  \<open>None\<close> until it is written. The bad-character table is the red-black tree with control block
  0 of its own heap; \<open>rb_put\<close> is the body of the loop of \<open>compute_bad_char\<close>. Input positions
  are addresses of a byte memory; reading outside it is \<open>None\<close>.
\<close>

section \<open>The object\<close>

record bmobj =
  bm_pattern :: "byte list"
  bm_good_suffix :: "int list"
  bm_bad_char :: "int rbheap"
  bm_pattern_len :: int
  bm_matches :: mstore
  bm_iter :: "addr option"

text \<open>\<open>bm_iter\<close> is \<open>Some a\<close> for the pointer \<open>&(a->next)\<close>. The match object is number 0 of
  its store. \<open>new_bm_obj\<close> zeroes the other fields.\<close>

definition new_bm_obj :: bmobj where
  "new_bm_obj = \<lparr>bm_pattern = [], bm_good_suffix = [], bm_bad_char = snd (new_rbtree empty_rbheap),
     bm_pattern_len = 0, bm_matches = snd (new_match_record_obj empty_mstore), bm_iter = None\<rparr>"

definition bm_match_count :: "bmobj option \<Rightarrow> int option" where
  "bm_match_count ob = (case ob of None \<Rightarrow> Some 0 | Some b \<Rightarrow> match_record_count (bm_matches b) (Some 0))"

section \<open>Arrays\<close>

definition arr_get :: "'a list \<Rightarrow> int \<Rightarrow> 'a option" where
  "arr_get xs i = (if 0 \<le> i \<and> i < int (length xs) then Some (xs ! nat i) else None)"

definition arr_set :: "'a list \<Rightarrow> int \<Rightarrow> 'a \<Rightarrow> 'a list option" where
  "arr_set xs i v = (if 0 \<le> i \<and> i < int (length xs) then Some (xs[nat i := v]) else None)"

text \<open>Signed \<open>char\<close> elements.\<close>

definition char_get :: "byte option list \<Rightarrow> int \<Rightarrow> int option" where
  "char_get xs i = do { c \<leftarrow> arr_get xs i; b \<leftarrow> c; Some (sint b) }"

definition char_set :: "byte option list \<Rightarrow> int \<Rightarrow> int \<Rightarrow> byte option list option" where
  "char_set xs i v = arr_set xs i (Some (word_of_int v))"

section \<open>The tables\<close>

function suffix_match :: "byte list \<Rightarrow> int \<Rightarrow> int \<Rightarrow> int \<Rightarrow> int option" where
  "suffix_match pattern m f g = (if g \<ge> 0 then do {
       a \<leftarrow> arr_get pattern g;
       b \<leftarrow> arr_get pattern (g + m - 1 - f);
       (if a = b then suffix_match pattern m f (g - 1) else Some g) }
     else Some g)"
  by pat_completeness auto
termination by (relation "measure (\<lambda>(p, m, f, g). nat (g + 1))") auto

declare suffix_match.simps [simp del]

function suffix_loop :: "byte list \<Rightarrow> int \<Rightarrow> byte option list \<Rightarrow> int \<Rightarrow> int \<Rightarrow> int \<Rightarrow> byte option list option" where
  "suffix_loop pattern m suff f g i = (if i \<ge> 0 then do {
       s \<leftarrow> (if i > g then do { s \<leftarrow> char_get suff (i + m - 1 - f); Some (if s < i - g then Some s else None) }
            else Some None);
       (case s of
          Some s \<Rightarrow> do { suff \<leftarrow> char_set suff i s; suffix_loop pattern m suff f g (i - 1) }
        | None \<Rightarrow> do {
            let g = (if i < g then i else g);
            let f = i;
            g \<leftarrow> suffix_match pattern m f g;
            suff \<leftarrow> char_set suff i (f - g);
            suffix_loop pattern m suff f g (i - 1) }) }
     else Some suff)"
  by pat_completeness auto
termination by (relation "measure (\<lambda>(p, m, s, f, g, i). nat (i + 1))") auto

declare suffix_loop.simps [simp del]

definition compute_suffix :: "byte list \<Rightarrow> byte option list \<Rightarrow> int \<Rightarrow> byte option list option" where
  "compute_suffix pattern suff m = do {
     suff \<leftarrow> char_set suff (m - 1) m;
     suffix_loop pattern m suff (m - 2) (m - 1) (m - 2) }"

text \<open>The inner loop of the first pass of \<open>compute_good_suffix\<close>: from \<open>j\<close> up to \<open>m - 1 - i\<close>.\<close>

function border_fill :: "int \<Rightarrow> int \<Rightarrow> int list \<Rightarrow> int \<Rightarrow> (int \<times> int list) option" where
  "border_fill m i gs j = (if j < m - 1 - i then do {
       v \<leftarrow> arr_get gs j;
       gs \<leftarrow> (if v = m then arr_set gs j (m - 1 - i) else Some gs);
       border_fill m i gs (j + 1) }
     else Some (j, gs))"
  by pat_completeness auto
termination by (relation "measure (\<lambda>(m, i, gs, j). nat (m - 1 - i - j))") auto

declare border_fill.simps [simp del]

function border_loop :: "int \<Rightarrow> byte option list \<Rightarrow> int list \<Rightarrow> int \<Rightarrow> int \<Rightarrow> int list option" where
  "border_loop m suffix gs j i = (if i \<ge> 0 then do {
       s \<leftarrow> char_get suffix i;
       (j, gs) \<leftarrow> (if s = i + 1 then border_fill m i gs j else Some (j, gs));
       border_loop m suffix gs j (i - 1) }
     else Some gs)"
  by pat_completeness auto
termination by (relation "measure (\<lambda>(m, s, gs, j, i). nat (i + 1))") auto

declare border_loop.simps [simp del]

function shift_loop :: "int \<Rightarrow> byte option list \<Rightarrow> int list \<Rightarrow> int \<Rightarrow> int list option" where
  "shift_loop m suffix gs i = (if i \<le> m - 2 then do {
       s \<leftarrow> char_get suffix i;
       gs \<leftarrow> arr_set gs (m - 1 - s) (m - 1 - i);
       shift_loop m suffix gs (i + 1) }
     else Some gs)"
  by pat_completeness auto
termination by (relation "measure (\<lambda>(m, s, gs, i). nat (m - 1 - i))") auto

declare shift_loop.simps [simp del]

definition compute_good_suffix :: "bmobj \<Rightarrow> bmobj option" where
  "compute_good_suffix ob = do {
     let m = bm_pattern_len ob;
     suffix \<leftarrow> compute_suffix (bm_pattern ob) (replicate (nat m) None) m;
     let gs = map (\<lambda>_. m) (bm_good_suffix ob);
     gs \<leftarrow> border_loop m suffix gs 0 (m - 1);
     gs \<leftarrow> shift_loop m suffix gs 0;
     Some (ob\<lparr>bm_good_suffix := gs\<rparr>) }"

function bad_char_loop :: "byte list \<Rightarrow> int \<Rightarrow> int \<Rightarrow> int rbheap \<Rightarrow> int rbheap option" where
  "bad_char_loop pattern m i tab = (if i < m - 1 then do {
       c \<leftarrow> arr_get pattern i;
       tab \<leftarrow> rb_put 0 (sint c) (m - i - 1) tab;
       bad_char_loop pattern m (i + 1) tab }
     else Some tab)"
  by pat_completeness auto
termination by (relation "measure (\<lambda>(p, m, i, t). nat (m - 1 - i))") auto

declare bad_char_loop.simps [simp del]

definition compute_bad_char :: "bmobj \<Rightarrow> bmobj option" where
  "compute_bad_char ob = do {
     tab \<leftarrow> bad_char_loop (bm_pattern ob) (bm_pattern_len ob) 0 (bm_bad_char ob);
     Some (ob\<lparr>bm_bad_char := tab\<rparr>) }"

definition bm_init_obj :: "bmobj option \<Rightarrow> byte list option \<Rightarrow> int \<Rightarrow> bmobj option option" where
  "bm_init_obj ob pattern pattern_len = (case (ob, pattern) of
     (Some ob, Some pattern) \<Rightarrow> do {
        let ob = ob\<lparr>bm_pattern := pattern, bm_good_suffix := replicate (nat pattern_len) pattern_len,
          bm_pattern_len := pattern_len\<rparr>;
        ob \<leftarrow> compute_bad_char ob;
        ob \<leftarrow> compute_good_suffix ob;
        Some (Some ob) }
   | _ \<Rightarrow> Some ob)"

definition bm_get_char_shift :: "bmobj \<Rightarrow> byte \<Rightarrow> int option" where
  "bm_get_char_shift ob c = do {
     shift \<leftarrow> rb_find 0 (uint c) (bm_bad_char ob);
     Some (case shift of None \<Rightarrow> bm_pattern_len ob | Some s \<Rightarrow> s) }"

section \<open>The search\<close>

function compare_back :: "byte list \<Rightarrow> (addr \<Rightarrow> byte option) \<Rightarrow> addr \<Rightarrow> int \<Rightarrow> int \<Rightarrow> int option" where
  "compare_back pattern mem input j i = (if i \<ge> 0 then do {
       a \<leftarrow> arr_get pattern i;
       b \<leftarrow> (if i + j \<ge> 0 then mem (input + nat (i + j)) else None);
       (if a = b then compare_back pattern mem input j (i - 1) else Some i) }
     else Some i)"
  by pat_completeness auto
termination by (relation "measure (\<lambda>(p, m, inp, j, i). nat (i + 1))") auto

declare compare_back.simps [simp del]

definition bm_shift :: "bmobj \<Rightarrow> byte \<Rightarrow> int \<Rightarrow> int option" where
  "bm_shift ob c i = do {
     let m = bm_pattern_len ob;
     bad_char_shift \<leftarrow> bm_get_char_shift ob c;
     let bad_char_shift = bad_char_shift - m + i + 1;
     (if bad_char_shift = m then Some bad_char_shift
      else do {
        good_suffix_shift \<leftarrow> arr_get (bm_good_suffix ob) i;
        Some (if good_suffix_shift \<ge> bad_char_shift then good_suffix_shift else bad_char_shift) }) }"

text \<open>One iteration of the loop of \<open>bm_search\<close>: the new \<open>j\<close> and the match store.\<close>

definition bm_step :: "bmobj \<Rightarrow> (addr \<Rightarrow> byte option) \<Rightarrow> addr \<Rightarrow> mstore \<Rightarrow> int \<Rightarrow> (int \<times> mstore) option" where
  "bm_step ob mem input ms j = do {
     let m = bm_pattern_len ob;
     i \<leftarrow> compare_back (bm_pattern ob) mem input j (m - 1);
     (if i < 0 then do {
        ms \<leftarrow> new_match_record ms (Some 0) (Some (input + nat j)) (Some (input + nat (j + m - 1)));
        s \<leftarrow> arr_get (bm_good_suffix ob) 0;
        Some (j + s, ms) }
      else do {
        c \<leftarrow> mem (input + nat (i + j));
        s \<leftarrow> bm_shift ob c i;
        Some (j + s, ms) }) }"

partial_function (option) bm_loop ::
    "bmobj \<Rightarrow> (addr \<Rightarrow> byte option) \<Rightarrow> addr \<Rightarrow> int \<Rightarrow> mstore \<Rightarrow> int \<Rightarrow> mstore option" where [code]:
  "bm_loop ob mem input input_len ms j = (if j \<le> input_len - bm_pattern_len ob then do {
       (j, ms) \<leftarrow> bm_step ob mem input ms j;
       bm_loop ob mem input input_len ms j }
     else Some ms)"

definition bm_search :: "(addr \<Rightarrow> byte option) \<Rightarrow> bmobj option \<Rightarrow> ptr \<Rightarrow> ptr \<Rightarrow> bmobj option option" where
  "bm_search mem ob input input_end = (case (ob, input, input_end) of
     (Some ob, Some input, Some input_end) \<Rightarrow> do {
        ms \<leftarrow> bm_loop ob mem input (int input_end - int input + 1) (bm_matches ob) 0;
        Some (Some (ob\<lparr>bm_matches := ms\<rparr>)) }
   | _ \<Rightarrow> Some ob)"

section \<open>Reading the matches\<close>

definition bm_next_match :: "bmobj option \<Rightarrow> (ptr \<times> bmobj option) option" where
  "bm_next_match ob = (case ob of None \<Rightarrow> Some (None, ob) | Some b \<Rightarrow> do {
     o0 \<leftarrow> oget (bm_matches b) (Some 0);
     (if mo_head o0 \<noteq> None then
        (case bm_iter b of
           None \<Rightarrow> do {
             h \<leftarrow> mo_head o0;
             _ \<leftarrow> mrecs (bm_matches b) h;
             Some (mo_head o0, Some (b\<lparr>bm_iter := Some h\<rparr>)) }
         | Some a \<Rightarrow> do {
             r \<leftarrow> mrecs (bm_matches b) a;
             (if m_next r = mo_head o0 then Some (None, Some (b\<lparr>bm_iter := None\<rparr>))
              else do {
                n \<leftarrow> m_next r;
                _ \<leftarrow> mrecs (bm_matches b) n;
                Some (Some n, Some (b\<lparr>bm_iter := Some n\<rparr>)) }) })
      else Some (None, ob)) })"

definition bm_clear_matches :: "bmobj option \<Rightarrow> bmobj option option" where
  "bm_clear_matches ob = (case ob of None \<Rightarrow> Some None | Some b \<Rightarrow> do {
     ms \<leftarrow> match_record_clear (bm_matches b) (Some 0);
     Some (Some (b\<lparr>bm_matches := ms, bm_iter := None\<rparr>)) })"

text \<open>\<open>bm_obj_free\<close>: what is left of the tree heap and the match store.\<close>

definition bm_obj_free :: "bmobj option \<Rightarrow> (int option list \<times> int rbheap \<times> mstore) option option" where
  "bm_obj_free ob = (case ob of None \<Rightarrow> Some None | Some b \<Rightarrow> do {
     (freed, tab) \<leftarrow> rbtree_free (bm_bad_char b) (Some 0) True;
     (ms, _) \<leftarrow> match_record_free (bm_matches b) (Some 0);
     Some (Some (freed, tab, ms)) })"

end
