(* ===== verification/BmSuffix.thy ===== *)
theory BmSuffix
  imports BoyerMoore
begin

text \<open>
  The suffix-length table of \<open>compute_suffix\<close>: for patterns of 1 to 127 bytes entry \<open>i\<close> is
  the length of the longest common suffix of the pattern and its prefix ending at \<open>i\<close>.
\<close>

section \<open>Arrays\<close>

definition pat :: "byte list \<Rightarrow> int \<Rightarrow> byte" where
  "pat p x = p ! nat x"

lemma arr_get_pat: "0 \<le> x \<Longrightarrow> x < int (length p) \<Longrightarrow> arr_get p x = Some (pat p x)"
  by (simp add: arr_get_def pat_def)

lemma sint_char: "-128 \<le> v \<Longrightarrow> v < 128 \<Longrightarrow> sint (word_of_int v :: byte) = v"
  by (simp add: signed_of_int signed_take_bit_int_eq_self)

lemma arr_set_Some: "0 \<le> i \<Longrightarrow> i < int (length xs) \<Longrightarrow> arr_set xs i v = Some (xs[nat i := v])"
  by (simp add: arr_set_def)

lemma arr_get_upd:
  assumes "0 \<le> i" "i < int (length xs)"
  shows "arr_get (xs[nat i := v]) x = (if x = i then Some v else arr_get xs x)"
  using assms by (auto simp: arr_get_def nth_list_update)

lemma char_set_Some:
  assumes "0 \<le> i" "i < int (length xs)" "-128 \<le> v" "v < 128"
  shows "\<exists>ys. char_set xs i v = Some ys \<and> length ys = length xs \<and>
    (\<forall>x. char_get ys x = (if x = i then Some v else char_get xs x))"
  using assms by (auto simp: char_set_def char_get_def arr_set_Some arr_get_upd sint_char)

section \<open>Suffix lengths\<close>

definition is_suff :: "byte list \<Rightarrow> int \<Rightarrow> int \<Rightarrow> bool" where
  "is_suff p i k \<longleftrightarrow> 0 \<le> k \<and> k \<le> i + 1 \<and>
     (\<forall>t. 0 \<le> t \<and> t < k \<longrightarrow> pat p (i - t) = pat p (int (length p) - 1 - t)) \<and>
     (k = i + 1 \<or> pat p (i - k) \<noteq> pat p (int (length p) - 1 - k))"

lemma is_suff_unique:
  assumes "is_suff p i k" "is_suff p i k'"
  shows "k = k'"
proof (rule ccontr)
  assume "k \<noteq> k'"
  then consider "k < k'" | "k' < k" by linarith
  then show False using assms by cases (auto simp: is_suff_def)
qed

lemma suffix_match_spec:
  assumes "-1 \<le> g" "g \<le> f" "f \<le> int (length p) - 1"
  shows "\<exists>g'. suffix_match p (int (length p)) f g = Some g' \<and> -1 \<le> g' \<and> g' \<le> g \<and>
    (\<forall>x. g' < x \<and> x \<le> g \<longrightarrow> pat p x = pat p (x + int (length p) - 1 - f)) \<and>
    (g' = -1 \<or> pat p g' \<noteq> pat p (g' + int (length p) - 1 - f))"
  using assms
proof (induction "nat (g + 1)" arbitrary: g)
  case 0
  then show ?case by (subst suffix_match.simps) auto
next
  case (Suc n)
  then have g: "0 \<le> g" "arr_get p g = Some (pat p g)"
    "arr_get p (g + int (length p) - 1 - f) = Some (pat p (g + int (length p) - 1 - f))"
    by (auto intro!: arr_get_pat)
  show ?case
  proof (cases "pat p g = pat p (g + int (length p) - 1 - f)")
    case False
    then show ?thesis using g Suc.prems by (subst suffix_match.simps) auto
  next
    case True
    have "n = nat (g - 1 + 1)" "-1 \<le> g - 1" "g - 1 \<le> f" using Suc.hyps(2) g(1) Suc.prems by auto
    from Suc.hyps(1) [OF this Suc.prems(3)] obtain g' where
      g': "suffix_match p (int (length p)) f (g - 1) = Some g'" "-1 \<le> g'" "g' \<le> g - 1"
      "\<forall>x. g' < x \<and> x \<le> g - 1 \<longrightarrow> pat p x = pat p (x + int (length p) - 1 - f)"
      "g' = -1 \<or> pat p g' \<noteq> pat p (g' + int (length p) - 1 - f)" by blast
    have "suffix_match p (int (length p)) f g = Some g'" using g g'(1) True by (subst suffix_match.simps) simp
    moreover have "pat p x = pat p (x + int (length p) - 1 - f)" if "g' < x" "x \<le> g" for x
      using that g'(4) True by (cases "x = g") auto
    ultimately show ?thesis using g' by (intro exI [of _ g']) auto
  qed
qed

definition suff_ok :: "byte list \<Rightarrow> byte option list \<Rightarrow> int \<Rightarrow> bool" where
  "suff_ok p S i \<longleftrightarrow> length S = length p \<and>
     (\<forall>x. i < x \<and> x \<le> int (length p) - 1 \<longrightarrow> (\<exists>k. char_get S x = Some k \<and> is_suff p x k))"

definition window :: "byte list \<Rightarrow> int \<Rightarrow> int \<Rightarrow> int \<Rightarrow> bool" where
  "window p f g i \<longleftrightarrow> g < i \<longrightarrow> (-1 \<le> g \<and> i < f \<and> f \<le> int (length p) - 2 \<and>
     (\<forall>x. g < x \<and> x \<le> f \<longrightarrow> pat p x = pat p (x + int (length p) - 1 - f)))"

lemma suff_ok_step:
  assumes S: "suff_ok p S i" and i: "0 \<le> i" "i < int (length p)" and k: "is_suff p i k"
    and len: "length p \<le> 127"
  shows "\<exists>S'. char_set S i k = Some S' \<and> suff_ok p S' (i - 1)"
proof -
  have "-128 \<le> k" "k < 128" using k i len by (auto simp: is_suff_def)
  with char_set_Some [of i S k] i S obtain S' where
    "char_set S i k = Some S'" "length S' = length S" "\<forall>x. char_get S' x = (if x = i then Some k else char_get S x)"
    by (auto simp: suff_ok_def)
  moreover have "suff_ok p S' (i - 1)" unfolding suff_ok_def
  proof (intro conjI allI impI)
    show "length S' = length p" using calculation(2) S by (simp add: suff_ok_def)
    fix x assume "i - 1 < x \<and> x \<le> int (length p) - 1"
    then show "\<exists>k. char_get S' x = Some k \<and> is_suff p x k"
      using calculation(3) k S by (cases "x = i") (auto simp: suff_ok_def)
  qed
  ultimately show ?thesis by blast
qed

lemma is_suff_copy:
  assumes w: "\<forall>x. g < x \<and> x \<le> f \<longrightarrow> pat p x = pat p (x + int (length p) - 1 - f)"
    and r: "g < i" "i < f" "f \<le> int (length p) - 2" "-1 \<le> g"
    and s: "is_suff p (i + int (length p) - 1 - f) s" "s < i - g"
  shows "is_suff p i s"
proof -
  let ?m = "int (length p)"
  have "pat p (i - t) = pat p (i + ?m - 1 - f - t)" if "0 \<le> t" "t \<le> s" for t
    using w [rule_format, of "i - t"] that r s(2) by (simp add: algebra_simps)
  then show ?thesis using s r by (auto simp: is_suff_def)
qed

lemma is_suff_window:
  assumes "-1 \<le> g" "g \<le> i" "i < int (length p)"
    and w: "\<forall>x. g < x \<and> x \<le> i \<longrightarrow> pat p x = pat p (x + int (length p) - 1 - i)"
    and e: "g = -1 \<or> pat p g \<noteq> pat p (g + int (length p) - 1 - i)"
  shows "is_suff p i (i - g)"
  unfolding is_suff_def
proof (intro conjI allI impI)
  fix t assume "0 \<le> t \<and> t < i - g"
  then show "pat p (i - t) = pat p (int (length p) - 1 - t)" using w [rule_format, of "i - t"] by (simp add: algebra_simps)
next
  show "i - g = i + 1 \<or> pat p (i - (i - g)) \<noteq> pat p (int (length p) - 1 - (i - g))"
    using e by (auto simp: algebra_simps)
qed (use assms in auto)

lemma suffix_loop_spec:
  assumes "suff_ok p S i" "window p f g i" "-1 \<le> i" "i \<le> int (length p) - 2" "length p \<le> 127"
  shows "\<exists>S'. suffix_loop p (int (length p)) S f g i = Some S' \<and> suff_ok p S' (-1)"
  using assms
proof (induction "nat (i + 1)" arbitrary: S f g i)
  case 0
  then have "i = -1" by simp
  then show ?case using 0 by (subst suffix_loop.simps) simp
next
  case (Suc n)
  let ?m = "int (length p)"
  have i: "0 \<le> i" "n = nat (i - 1 + 1)" "i < ?m" using Suc.hyps(2) Suc.prems by auto
  have other: "\<exists>S'. do { let g = (if i < g then i else g); let f = i; g \<leftarrow> suffix_match p ?m f g;
        suff \<leftarrow> char_set S i (f - g); suffix_loop p ?m suff f g (i - 1) } = Some S' \<and> suff_ok p S' (-1)"
    if w: "-1 \<le> min i g" "\<forall>x. min i g < x \<and> x \<le> i \<longrightarrow> pat p x = pat p (x + ?m - 1 - i)"
  proof -
    from suffix_match_spec [of "min i g" i p] w(1) i obtain g' where
      g': "suffix_match p ?m i (min i g) = Some g'" "-1 \<le> g'" "g' \<le> min i g"
      "\<forall>x. g' < x \<and> x \<le> min i g \<longrightarrow> pat p x = pat p (x + ?m - 1 - i)"
      "g' = -1 \<or> pat p g' \<noteq> pat p (g' + ?m - 1 - i)" by auto
    have w': "\<forall>x. g' < x \<and> x \<le> i \<longrightarrow> pat p x = pat p (x + ?m - 1 - i)"
      using g'(4) w(2) by (meson linorder_not_le)
    have "is_suff p i (i - g')" using is_suff_window [OF g'(2) _ i(3) w' g'(5)] g'(3) by simp
    from suff_ok_step [OF Suc.prems(1) i(1,3) this Suc.prems(5)] obtain S1 where
      S1: "char_set S i (i - g') = Some S1" "suff_ok p S1 (i - 1)" by blast
    have "window p i g' (i - 1)" unfolding window_def using g'(2) w' Suc.prems(4) by simp
    from Suc.hyps(1) [OF i(2) S1(2) this] Suc.prems i(1) obtain S' where
      "suffix_loop p ?m S1 i g' (i - 1) = Some S'" "suff_ok p S' (-1)" by auto
    moreover have "(if i < g then i else g) = min i g" by simp
    ultimately show ?thesis using g'(1) S1(1) by (simp add: Let_def min_def split: if_splits)
  qed
  show ?case
  proof (cases "g < i")
    case False
    then have "\<forall>x. min i g < x \<and> x \<le> i \<longrightarrow> pat p x = pat p (x + ?m - 1 - i)" by auto
    from other [OF _ this] show ?thesis using False i by (subst suffix_loop.simps) simp
  next
    case True
    then have w: "-1 \<le> g" "i < f" "f \<le> ?m - 2" "\<forall>x. g < x \<and> x \<le> f \<longrightarrow> pat p x = pat p (x + ?m - 1 - f)"
      using Suc.prems(2) by (auto simp: window_def)
    let ?q = "i + ?m - 1 - f"
    have q: "i < ?q" "?q \<le> ?m - 1" using w by auto
    then obtain s where s: "char_get S ?q = Some s" "is_suff p ?q s" using Suc.prems(1) unfolding suff_ok_def by blast
    show ?thesis
    proof (cases "s < i - g")
      case less: True
      have "is_suff p i s" by (rule is_suff_copy [OF w(4) True w(2,3,1) s(2) less])
      from suff_ok_step [OF Suc.prems(1) i(1,3) this Suc.prems(5)] obtain S1 where
        S1: "char_set S i s = Some S1" "suff_ok p S1 (i - 1)" by blast
      have "window p f g (i - 1)" unfolding window_def using w by auto
      from Suc.hyps(1) [OF i(2) S1(2) this] Suc.prems i(1) obtain S' where
        "suffix_loop p ?m S1 f g (i - 1) = Some S'" "suff_ok p S' (-1)" by auto
      then show ?thesis using i(1) True s(1) less S1(1) by (subst suffix_loop.simps) simp
    next
      case ge: False
      have "pat p x = pat p (x + ?m - 1 - i)" if x: "g < x" "x \<le> i" for x
      proof -
        have "pat p x = pat p (?q - (i - x))" using w(4) [rule_format, of x] x w(2) by (simp add: algebra_simps)
        also have "\<dots> = pat p (?m - 1 - (i - x))"
        proof -
          have "\<forall>t. 0 \<le> t \<and> t < s \<longrightarrow> pat p (?q - t) = pat p (?m - 1 - t)" using s(2) by (simp add: is_suff_def)
          moreover have "0 \<le> i - x \<and> i - x < s" using x ge by auto
          ultimately show ?thesis by blast
        qed
        finally show ?thesis by (simp add: algebra_simps)
      qed
      then have "\<forall>x. min i g < x \<and> x \<le> i \<longrightarrow> pat p x = pat p (x + ?m - 1 - i)" using True by auto
      from other [OF _ this] show ?thesis using i(1) True s(1) ge w(1) by (subst suffix_loop.simps) simp
    qed
  qed
qed

lemma compute_suffix_spec:
  assumes m: "p \<noteq> []" "length p \<le> 127" and S: "length S = length p"
  shows "\<exists>S'. compute_suffix p S (int (length p)) = Some S' \<and> suff_ok p S' (-1)"
proof -
  let ?m = "int (length p)"
  have m0: "0 < ?m" using m(1) by simp
  have full: "is_suff p (?m - 1) ?m" by (auto simp: is_suff_def)
  have "suff_ok p S (?m - 1)" using S by (auto simp: suff_ok_def)
  from suff_ok_step [OF this _ _ full m(2)] m0 obtain S1 where
    S1: "char_set S (?m - 1) ?m = Some S1" "suff_ok p S1 (?m - 1 - 1)" by auto
  have "window p (?m - 2) (?m - 1) (?m - 2)" by (simp add: window_def)
  from suffix_loop_spec [OF _ this _ _ m(2)] S1(2) m0 obtain S' where
    "suffix_loop p ?m S1 (?m - 2) (?m - 1) (?m - 2) = Some S'" "suff_ok p S' (-1)" by auto
  then show ?thesis using S1(1) by (simp add: compute_suffix_def)
qed

end
