(* ===== verification/BmTables.thy ===== *)
theory BmTables
  imports BmSuffix
begin

text \<open>
  The shift tables. \<open>good_ok\<close> is what the search needs of the good-suffix table: no shift
  smaller than the entry at the mismatch position can align the pattern with the input, given
  what was compared. \<open>bad_ok\<close> is the same for the bad-character table.
\<close>

definition ent :: "int list \<Rightarrow> int \<Rightarrow> int" where
  "ent gs k = gs ! nat k"

lemma arr_get_ent: "0 \<le> x \<Longrightarrow> x < int (length gs) \<Longrightarrow> arr_get gs x = Some (ent gs x)"
  by (simp add: arr_get_def ent_def)

lemma arr_set_ent:
  assumes "0 \<le> x" "x < int (length gs)"
  shows "\<exists>gs'. arr_set gs x v = Some gs' \<and> length gs' = length gs \<and>
    (\<forall>k. 0 \<le> k \<and> k < int (length gs) \<longrightarrow> ent gs' k = (if k = x then v else ent gs k))"
  using assms by (auto simp: arr_set_def ent_def nth_list_update)

definition period :: "byte list \<Rightarrow> int \<Rightarrow> bool" where
  "period p d \<longleftrightarrow> (\<forall>k. d \<le> k \<and> k < int (length p) \<longrightarrow> pat p (k - d) = pat p k)"

lemma border_iff:
  assumes "is_suff p i s" "0 \<le> i" "i < int (length p)"
  shows "s = i + 1 \<longleftrightarrow> period p (int (length p) - 1 - i)"
proof
  let ?m = "int (length p)"
  assume s: "s = i + 1"
  show "period p (?m - 1 - i)" unfolding period_def
  proof (intro allI impI)
    fix k assume k: "?m - 1 - i \<le> k \<and> k < ?m"
    have "pat p (i - (?m - 1 - k)) = pat p (?m - 1 - (?m - 1 - k))"
      using assms(1) k s unfolding is_suff_def by (elim conjE allE [of _ "?m - 1 - k"]) auto
    then show "pat p (k - (?m - 1 - i)) = pat p k" by (simp add: algebra_simps)
  qed
next
  let ?m = "int (length p)"
  assume d: "period p (?m - 1 - i)"
  have "is_suff p i (i + 1)" unfolding is_suff_def
  proof (intro conjI allI impI)
    fix t assume t: "0 \<le> t \<and> t < i + 1"
    have "pat p (?m - 1 - t - (?m - 1 - i)) = pat p (?m - 1 - t)"
      using d [unfolded period_def, rule_format, of "?m - 1 - t"] t by simp
    then show "pat p (i - t) = pat p (?m - 1 - t)" by (simp add: algebra_simps)
  qed (use assms in auto)
  then show "s = i + 1" using is_suff_unique assms(1) by blast
qed

section \<open>The first pass\<close>

lemma border_fill_spec:
  assumes "0 \<le> j" "0 \<le> i" "i < m" "int (length gs) = m"
  shows "\<exists>gs'. border_fill m i gs j = Some (max j (m - 1 - i), gs') \<and> length gs' = length gs \<and>
    (\<forall>k. 0 \<le> k \<and> k < m \<longrightarrow> ent gs' k = (if j \<le> k \<and> k < m - 1 - i \<and> ent gs k = m then m - 1 - i else ent gs k))"
  using assms
proof (induction "nat (m - 1 - i - j)" arbitrary: j gs)
  case 0
  then show ?case by (subst border_fill.simps) auto
next
  case (Suc n)
  then have j: "j < m - 1 - i" "n = nat (m - 1 - i - (j + 1))" by auto
  have "\<exists>gs1. do { v \<leftarrow> arr_get gs j; if v = m then arr_set gs j (m - 1 - i) else Some gs } = Some gs1 \<and>
      length gs1 = length gs \<and>
      (\<forall>k. 0 \<le> k \<and> k < m \<longrightarrow> ent gs1 k = (if k = j \<and> ent gs j = m then m - 1 - i else ent gs k))"
    using arr_get_ent [of j gs] arr_set_ent [of j gs "m - 1 - i"] Suc.prems j(1) by auto
  then obtain gs1 where gs1: "do { v \<leftarrow> arr_get gs j; if v = m then arr_set gs j (m - 1 - i) else Some gs } = Some gs1"
    "length gs1 = length gs"
    "\<forall>k. 0 \<le> k \<and> k < m \<longrightarrow> ent gs1 k = (if k = j \<and> ent gs j = m then m - 1 - i else ent gs k)" by blast
  from Suc.hyps(1) [OF j(2), of gs1] Suc.prems gs1(2) obtain gs' where
    gs': "border_fill m i gs1 (j + 1) = Some (max (j + 1) (m - 1 - i), gs')" "length gs' = length gs1"
    "\<forall>k. 0 \<le> k \<and> k < m \<longrightarrow>
      ent gs' k = (if j + 1 \<le> k \<and> k < m - 1 - i \<and> ent gs1 k = m then m - 1 - i else ent gs1 k)" by auto
  have "border_fill m i gs j = Some (max j (m - 1 - i), gs')"
    using gs1(1) gs'(1) j(1) by (subst border_fill.simps) (auto split: bind_splits simp: max_def)
  moreover have "ent gs' k = (if j \<le> k \<and> k < m - 1 - i \<and> ent gs k = m then m - 1 - i else ent gs k)"
    if "0 \<le> k \<and> k < m" for k
    using gs'(3) [rule_format, OF that] gs1(3) [rule_format, OF that] j(1) Suc.prems(2) by (cases "k = j") auto
  ultimately show ?case using gs'(2) gs1(2) by auto
qed

definition border_inv :: "byte list \<Rightarrow> int \<Rightarrow> int \<Rightarrow> int list \<Rightarrow> bool" where
  "border_inv p D j gs \<longleftrightarrow> (let m = int (length p) in int (length gs) = m \<and> 0 \<le> j \<and>
     (\<forall>k. 0 \<le> k \<and> k < m \<longrightarrow> k < ent gs k \<and> ent gs k \<le> m) \<and>
     (\<forall>k d. 0 \<le> k \<and> k < d \<and> d < D \<and> d < m \<and> period p d \<longrightarrow> ent gs k \<le> d) \<and>
     (\<forall>k. j \<le> k \<and> k < m \<longrightarrow> ent gs k = m) \<and>
     (\<forall>k. 0 \<le> k \<and> k < j \<and> k < m \<longrightarrow> ent gs k < D))"

lemma border_step:
  assumes I: "border_inv p (m - 1 - i) j gs" and i: "0 \<le> i" "i < m" and m: "m = int (length p)"
    and P: "period p (m - 1 - i)"
  shows "\<exists>gs'. border_fill m i gs j = Some (max j (m - 1 - i), gs') \<and> border_inv p (m - i) (max j (m - 1 - i)) gs'"
proof -
  let ?D = "m - 1 - i"
  from I m have A: "int (length gs) = m" "0 \<le> j" "\<And>k. 0 \<le> k \<Longrightarrow> k < m \<Longrightarrow> k < ent gs k \<and> ent gs k \<le> m"
    "\<And>k d. 0 \<le> k \<Longrightarrow> k < d \<Longrightarrow> d < ?D \<Longrightarrow> d < m \<Longrightarrow> period p d \<Longrightarrow> ent gs k \<le> d"
    "\<And>k. j \<le> k \<Longrightarrow> k < m \<Longrightarrow> ent gs k = m" "\<And>k. 0 \<le> k \<Longrightarrow> k < j \<Longrightarrow> k < m \<Longrightarrow> ent gs k < ?D"
    by (auto simp: border_inv_def Let_def)
  from border_fill_spec [OF A(2) i A(1)] obtain gs' where
    g: "border_fill m i gs j = Some (max j ?D, gs')" "length gs' = length gs"
    "\<And>k. 0 \<le> k \<Longrightarrow> k < m \<Longrightarrow> ent gs' k = (if j \<le> k \<and> k < ?D \<and> ent gs k = m then ?D else ent gs k)" by blast
  have "border_inv p (m - i) (max j ?D) gs'" unfolding border_inv_def Let_def m [symmetric]
  proof (intro conjI allI impI)
    show "int (length gs') = m" "0 \<le> max j ?D" using g(2) A(1,2) by auto
    fix k assume "0 \<le> k \<and> k < m"
    then show "k < ent gs' k" "ent gs' k \<le> m" using g(3) [of k] A(3) [of k] i by auto
  next
    fix k d assume kd: "0 \<le> k \<and> k < d \<and> d < m - i \<and> d < m \<and> period p d"
    then have km: "0 \<le> k" "k < m" by auto
    show "ent gs' k \<le> d"
    proof (cases "d = ?D")
      case True
      then show ?thesis using g(3) [OF km] A(5) [of k] A(6) [of k] kd by (cases "j \<le> k") auto
    next
      case False
      then have "ent gs k \<le> d" using A(4) [of k d] kd by auto
      then show ?thesis using g(3) [OF km] kd A(3) [OF km] by auto
    qed
  next
    fix k assume "max j ?D \<le> k \<and> k < m"
    then show "ent gs' k = m" using g(3) [of k] A(5) [of k] A(2) by auto
  next
    fix k assume k: "0 \<le> k \<and> k < max j ?D \<and> k < m"
    then show "ent gs' k < m - i" using g(3) [of k] A(5) [of k] A(6) [of k] by (cases "j \<le> k") auto
  qed
  then show ?thesis using g(1) by blast
qed

lemma border_loop_spec:
  assumes S: "suff_ok p S (-1)" and m: "m = int (length p)"
    and I: "border_inv p (m - 1 - i) j gs" "-1 \<le> i" "i < m"
  shows "\<exists>gs' j'. border_loop m S gs j i = Some gs' \<and> border_inv p m j' gs'"
  using I
proof (induction "nat (i + 1)" arbitrary: i j gs)
  case 0
  then have "i = -1" by simp
  then show ?case using 0 by (subst border_loop.simps) auto
next
  case (Suc n)
  then have i: "0 \<le> i" "n = nat (i - 1 + 1)" by auto
  have "-1 < i \<and> i \<le> int (length p) - 1" using i(1) Suc.prems(3) m by simp
  with S obtain s where s: "char_get S i = Some s" "is_suff p i s" unfolding suff_ok_def by blast
  show ?case
  proof (cases "s = i + 1")
    case True
    then have "period p (m - 1 - i)" using border_iff [OF s(2) i(1)] Suc.prems(3) m by simp
    from border_step [OF Suc.prems(1) i(1) Suc.prems(3) m this] obtain gs1 where
      g: "border_fill m i gs j = Some (max j (m - 1 - i), gs1)" "border_inv p (m - 1 - (i - 1)) (max j (m - 1 - i)) gs1"
      by auto
    from Suc.hyps(1) [OF i(2) g(2)] Suc.prems i(1) obtain gs' j' where
      "border_loop m S gs1 (max j (m - 1 - i)) (i - 1) = Some gs'" "border_inv p m j' gs'" by auto
    then show ?thesis using g(1) s True i(1) by (subst border_loop.simps) auto
  next
    case False
    then have np: "\<not> period p (m - 1 - i)" using border_iff [OF s(2) i(1)] Suc.prems(3) m by simp
    have "border_inv p (m - 1 - (i - 1)) j gs" unfolding border_inv_def Let_def m [symmetric]
    proof (intro conjI allI impI)
      fix k d assume kd: "0 \<le> k \<and> k < d \<and> d < m - 1 - (i - 1) \<and> d < m \<and> period p d"
      then have "d \<noteq> m - 1 - i" using np by auto
      then show "ent gs k \<le> d" using Suc.prems(1) kd m by (auto simp: border_inv_def Let_def)
    next
      fix k assume "0 \<le> k \<and> k < j \<and> k < m"
      then have "ent gs k < m - 1 - i" using Suc.prems(1) m by (simp add: border_inv_def Let_def)
      then show "ent gs k < m - 1 - (i - 1)" by simp
    qed (use Suc.prems(1) m in \<open>auto simp: border_inv_def Let_def\<close>)
    from Suc.hyps(1) [OF i(2) this] Suc.prems i(1) obtain gs' j' where
      "border_loop m S gs j (i - 1) = Some gs'" "border_inv p m j' gs'" by auto
    then show ?thesis using s False i(1) by (subst border_loop.simps) auto
  qed
qed

section \<open>The second pass\<close>

definition shift_inv :: "byte list \<Rightarrow> int \<Rightarrow> int list \<Rightarrow> bool" where
  "shift_inv p i gs \<longleftrightarrow> (let m = int (length p) in int (length gs) = m \<and>
     (\<forall>k. 0 \<le> k \<and> k < m \<longrightarrow> 1 \<le> ent gs k \<and> ent gs k \<le> m) \<and>
     (\<forall>k d. 0 \<le> k \<and> k < d \<and> d < m \<and> period p d \<longrightarrow> ent gs k \<le> d) \<and>
     (\<forall>i' s. 0 \<le> i' \<and> i' < i \<and> is_suff p i' s \<longrightarrow> ent gs (m - 1 - s) \<le> m - 1 - i'))"

lemma shift_loop_spec:
  assumes S: "suff_ok p S (-1)" and m: "m = int (length p)"
    and I: "shift_inv p i gs" "0 \<le> i" "i \<le> m - 1"
  shows "\<exists>gs'. shift_loop m S gs i = Some gs' \<and> shift_inv p (m - 1) gs'"
  using I
proof (induction "nat (m - 1 - i)" arbitrary: i gs)
  case 0
  then have "i = m - 1" by simp
  then show ?case using 0 by (subst shift_loop.simps) auto
next
  case (Suc n)
  then have i: "i \<le> m - 2" "n = nat (m - 1 - (i + 1))" by auto
  have "-1 < i \<and> i \<le> int (length p) - 1" using i(1) Suc.prems(2) m by simp
  with S obtain s where s: "char_get S i = Some s" "is_suff p i s" unfolding suff_ok_def by blast
  then have sb: "0 \<le> s" "s \<le> i + 1" by (auto simp: is_suff_def)
  from Suc.prems(1) m have A: "int (length gs) = m" "\<And>k. 0 \<le> k \<Longrightarrow> k < m \<Longrightarrow> 1 \<le> ent gs k \<and> ent gs k \<le> m"
    "\<And>k d. 0 \<le> k \<Longrightarrow> k < d \<Longrightarrow> d < m \<Longrightarrow> period p d \<Longrightarrow> ent gs k \<le> d"
    "\<And>i' s. 0 \<le> i' \<Longrightarrow> i' < i \<Longrightarrow> is_suff p i' s \<Longrightarrow> ent gs (m - 1 - s) \<le> m - 1 - i'"
    by (auto simp: shift_inv_def Let_def)
  have k0: "0 \<le> m - 1 - s" "m - 1 - s < int (length gs)" using sb i(1) A(1) by auto
  from arr_set_ent [OF k0, of "m - 1 - i"] obtain gs1 where
    g: "arr_set gs (m - 1 - s) (m - 1 - i) = Some gs1" "length gs1 = length gs"
    "\<And>k. 0 \<le> k \<Longrightarrow> k < m \<Longrightarrow> ent gs1 k = (if k = m - 1 - s then m - 1 - i else ent gs k)" using A(1) by auto
  have "shift_inv p (i + 1) gs1" unfolding shift_inv_def Let_def m [symmetric]
  proof (intro conjI allI impI)
    show "int (length gs1) = m" using g(2) A(1) by simp
    fix k assume "0 \<le> k \<and> k < m"
    then show "1 \<le> ent gs1 k" "ent gs1 k \<le> m" using g(3) [of k] A(2) [of k] i(1) Suc.prems(2) by auto
  next
    fix k d assume "0 \<le> k \<and> k < d \<and> d < m \<and> period p d"
    then show "ent gs1 k \<le> d" using g(3) [of k] A(3) [of k d] sb by auto
  next
    fix i' s' assume i': "0 \<le> i' \<and> i' < i + 1 \<and> is_suff p i' s'"
    then have s': "0 \<le> s'" "s' \<le> i' + 1" by (auto simp: is_suff_def)
    then have k: "0 \<le> m - 1 - s'" "m - 1 - s' < m" using i' i(1) by auto
    show "ent gs1 (m - 1 - s') \<le> m - 1 - i'"
    proof (cases "i' = i")
      case True
      then have "s' = s" using i' s(2) is_suff_unique by blast
      then show ?thesis using g(3) [OF k] True by simp
    next
      case False
      then show ?thesis using g(3) [OF k] A(4) [of i' s'] i' by auto
    qed
  qed
  from Suc.hyps(1) [OF i(2) this] Suc.prems i(1) obtain gs' where
    "shift_loop m S gs1 (i + 1) = Some gs'" "shift_inv p (m - 1) gs'" by auto
  then show ?case using s(1) g(1) i(1) by (subst shift_loop.simps) auto
qed

definition good_ok :: "byte list \<Rightarrow> int list \<Rightarrow> bool" where
  "good_ok p gs \<longleftrightarrow> (let m = int (length p) in int (length gs) = m \<and>
     (\<forall>k. 0 \<le> k \<and> k < m \<longrightarrow> 1 \<le> ent gs k \<and> ent gs k \<le> m) \<and>
     (\<forall>k d. 0 \<le> k \<and> k < m \<and> 1 \<le> d \<and> d < ent gs k \<longrightarrow>
        \<not> ((\<forall>x. k < x \<and> x < m \<and> d \<le> x \<longrightarrow> pat p (x - d) = pat p x) \<and> (d \<le> k \<longrightarrow> pat p (k - d) \<noteq> pat p k))))"

lemma shift_inv_good:
  assumes I: "shift_inv p (int (length p) - 1) gs"
  shows "good_ok p gs"
proof -
  let ?m = "int (length p)"
  from I have A: "int (length gs) = ?m" "\<And>k. 0 \<le> k \<Longrightarrow> k < ?m \<Longrightarrow> 1 \<le> ent gs k \<and> ent gs k \<le> ?m"
    "\<And>k d. 0 \<le> k \<Longrightarrow> k < d \<Longrightarrow> d < ?m \<Longrightarrow> period p d \<Longrightarrow> ent gs k \<le> d"
    "\<And>i' s. 0 \<le> i' \<Longrightarrow> i' < ?m - 1 \<Longrightarrow> is_suff p i' s \<Longrightarrow> ent gs (?m - 1 - s) \<le> ?m - 1 - i'"
    by (auto simp: shift_inv_def Let_def)
  have "ent gs k \<le> d" if k: "0 \<le> k" "k < ?m" "1 \<le> d" "d < ?m"
    and cs: "\<forall>x. k < x \<and> x < ?m \<and> d \<le> x \<longrightarrow> pat p (x - d) = pat p x" and co: "d \<le> k \<longrightarrow> pat p (k - d) \<noteq> pat p k" for k d
  proof (cases "d \<le> k")
    case True
    let ?i = "?m - 1 - d" and ?s = "?m - 1 - k"
    have "is_suff p ?i ?s" unfolding is_suff_def
    proof (intro conjI allI impI)
      fix t assume "0 \<le> t \<and> t < ?s"
      then show "pat p (?i - t) = pat p (?m - 1 - t)" using cs [rule_format, of "?m - 1 - t"] True by (simp add: algebra_simps)
    next
      show "?s = ?i + 1 \<or> pat p (?i - ?s) \<noteq> pat p (?m - 1 - ?s)" using co True by (simp add: algebra_simps)
    qed (use k True in auto)
    then have "ent gs (?m - 1 - ?s) \<le> ?m - 1 - ?i" using A(4) [of ?i ?s] k by auto
    then show ?thesis by simp
  next
    case False
    have "period p d" unfolding period_def using cs False by auto
    then show ?thesis using A(3) [of k d] k False by auto
  qed
  then show ?thesis unfolding good_ok_def Let_def using A(1,2) by (meson linorder_not_le order_less_le_trans)
qed

lemma compute_good_suffix_spec:
  assumes p: "bm_pattern ob = p" "p \<noteq> []" "length p \<le> 127" and l: "bm_pattern_len ob = int (length p)"
    and g: "length (bm_good_suffix ob) = length p"
  shows "\<exists>gs. compute_good_suffix ob = Some (ob\<lparr>bm_good_suffix := gs\<rparr>) \<and> good_ok p gs"
proof -
  let ?m = "int (length p)" and ?g0 = "map (\<lambda>_. int (length p)) (bm_good_suffix ob)"
  from compute_suffix_spec [OF p(2,3), of "replicate (length p) None"] obtain S where
    S: "compute_suffix p (replicate (length p) None) ?m = Some S" "suff_ok p S (-1)" by auto
  have e0: "ent ?g0 k = ?m" if "0 \<le> k" "k < ?m" for k using that g by (simp add: ent_def nat_less_iff)
  have "border_inv p (?m - 1 - (?m - 1)) 0 ?g0" unfolding border_inv_def Let_def using e0 g by auto
  from border_loop_spec [OF S(2) refl this] p(2) obtain gs1 j where
    g1: "border_loop ?m S ?g0 0 (?m - 1) = Some gs1" "border_inv p ?m j gs1" by auto
  have A: "int (length gs1) = ?m" "\<And>k. 0 \<le> k \<Longrightarrow> k < ?m \<Longrightarrow> k < ent gs1 k \<and> ent gs1 k \<le> ?m"
    "\<And>k d. 0 \<le> k \<Longrightarrow> k < d \<Longrightarrow> d < ?m \<Longrightarrow> period p d \<Longrightarrow> ent gs1 k \<le> d"
    using g1(2) by (auto simp: border_inv_def Let_def)
  have "1 \<le> ent gs1 k \<and> ent gs1 k \<le> ?m" if "0 \<le> k" "k < ?m" for k using A(2) [OF that] that by auto
  then have "shift_inv p 0 gs1" using A(1,3) by (simp add: shift_inv_def)
  from shift_loop_spec [OF S(2) refl this] p(2) obtain gs where
    gs: "shift_loop ?m S gs1 0 = Some gs" "shift_inv p (?m - 1) gs" by (auto simp: Suc_leI)
  show ?thesis using S(1) g1(1) gs(1) shift_inv_good [OF gs(2)] p(1) l
    by (auto simp: compute_good_suffix_def Let_def)
qed

section \<open>The bad-character table\<close>

definition bad_map :: "byte list \<Rightarrow> int \<Rightarrow> int \<Rightarrow> int option" where
  "bad_map p n c = (let is = filter (\<lambda>i. sint (pat p (int i)) = c) [0..<nat n] in
     if is = [] then None else Some (int (length p) - 1 - int (last is)))"

lemma bad_map_Suc:
  assumes "0 \<le> i"
  shows "bad_map p (i + 1) = (bad_map p i)(sint (pat p i) \<mapsto> int (length p) - i - 1)"
proof
  fix c
  have n: "nat (i + 1) = Suc (nat i)" "int (nat i) = i" using assms by simp_all
  then have f: "filter (\<lambda>j. sint (pat p (int j)) = c) [0..<nat (i + 1)] =
      filter (\<lambda>j. sint (pat p (int j)) = c) [0..<nat i] @ (if sint (pat p i) = c then [nat i] else [])" by simp
  show "bad_map p (i + 1) c = ((bad_map p i)(sint (pat p i) \<mapsto> int (length p) - i - 1)) c"
    unfolding bad_map_def Let_def f using n(2) by simp
qed

lemma bad_char_loop_spec:
  assumes "rb_holds 0 tab (bad_map p i)" "0 \<le> i" "i \<le> int (length p) - 1"
  shows "\<exists>tab'. bad_char_loop p (int (length p)) i tab = Some tab' \<and> rb_holds 0 tab' (bad_map p (int (length p) - 1))"
  using assms
proof (induction "nat (int (length p) - 1 - i)" arbitrary: i tab)
  case 0
  then have "i = int (length p) - 1" by simp
  then show ?case using 0 by (subst bad_char_loop.simps) auto
next
  case (Suc n)
  let ?m = "int (length p)"
  have i: "i < ?m - 1" "n = nat (?m - 1 - (i + 1))" using Suc.hyps(2) by auto
  from rbtab.put_ok [OF Suc.prems(1), of "sint (pat p i)" "?m - i - 1"] obtain tab1 where
    t: "rb_put 0 (sint (pat p i)) (?m - i - 1) tab = Some tab1" "rb_holds 0 tab1 (bad_map p (i + 1))"
    using bad_map_Suc [OF Suc.prems(2), of p] by auto
  from Suc.hyps(1) [OF i(2) t(2)] Suc.prems i(1) obtain tab' where
    "bad_char_loop p ?m (i + 1) tab1 = Some tab'" "rb_holds 0 tab' (bad_map p (?m - 1))" by auto
  then show ?case using t(1) i(1) arr_get_pat [of i p] Suc.prems(2) by (subst bad_char_loop.simps) auto
qed

definition bad_shift :: "byte list \<Rightarrow> byte \<Rightarrow> int" where
  "bad_shift p c = (case bad_map p (int (length p) - 1) (uint c) of None \<Rightarrow> int (length p) | Some s \<Rightarrow> s)"

lemma sint_uint_ascii: "c < 128 \<Longrightarrow> sint (c :: byte) = uint c"
proof -
  assume "c < 128"
  then have u: "uint c < 128" by (simp add: word_less_def)
  have "0 \<le> uint c" by simp
  then have "signed_take_bit 7 (uint c) = uint c"
    by (intro signed_take_bit_int_eq_self) (use u in \<open>auto intro: order_trans [of _ 0]\<close>)
  then show ?thesis by (simp add: sint_uint)
qed

text \<open>No shift below the table's can bring an equal character under the mismatch.\<close>

lemma bad_shift_safe:
  assumes "\<forall>b \<in> set p. b < 128" "0 \<le> i" "i < int (length p)" "1 \<le> d" "d < bad_shift p c - int (length p) + i + 1"
  shows "d \<le> i \<and> pat p (i - d) \<noteq> c"
proof -
  let ?m = "int (length p)"
  let ?is = "filter (\<lambda>j. sint (pat p (int j)) = uint c) [0..<nat (?m - 1)]"
  have asc: "sint (pat p x) = uint (pat p x)" if "0 \<le> x" "x < ?m" for x
  proof -
    have "pat p x \<in> set p" using that by (auto simp: pat_def)
    then show ?thesis using assms(1) sint_uint_ascii by blast
  qed
  show ?thesis
  proof (cases "?is = []")
    case True
    then have s: "bad_shift p c = ?m" by (simp add: bad_shift_def bad_map_def Let_def)
    then have d: "d \<le> i" using assms(5) by simp
    have "nat (i - d) \<in> set [0..<nat (?m - 1)]" using assms d by auto
    then have "sint (pat p (int (nat (i - d)))) \<noteq> uint c" using True unfolding filter_empty_conv by blast
    then have "sint (pat p (i - d)) \<noteq> uint c" using d by simp
    then have "pat p (i - d) \<noteq> c" using asc [of "i - d"] assms d by auto
    then show ?thesis using d by simp
  next
    case False
    let ?l = "int (last ?is)"
    have s: "bad_shift p c = ?m - 1 - ?l" using False by (simp add: bad_shift_def bad_map_def Let_def)
    then have d: "d < i - ?l" using assms(5) by simp
    then have di: "d \<le> i" by simp
    have "pat p (i - d) \<noteq> c"
    proof
      assume eq: "pat p (i - d) = c"
      have "nat (i - d) \<in> set ?is" using eq asc [of "i - d"] assms di by auto
      then obtain us vs where uv: "?is = us @ nat (i - d) # vs" by (meson split_list)
      have "sorted ?is" by (simp add: sorted_wrt_filter)
      then have "nat (i - d) \<le> last ?is" unfolding uv by (cases vs rule: rev_cases) (auto simp: sorted_append)
      then show False using d di by simp
    qed
    then show ?thesis using di by simp
  qed
qed

end
