(* ===== verification/BmSearch.thy ===== *)
theory BmSearch
  imports BmTables
begin

text \<open>
  Correctness of the search: every shift is at least 1 and skips no occurrence, so the loop
  ends and records exactly the occurrences of the pattern, in order.
\<close>

definition txat :: "byte list \<Rightarrow> int \<Rightarrow> byte" where
  "txat T x = T ! nat x"

definition holds_text :: "(addr \<Rightarrow> byte option) \<Rightarrow> addr \<Rightarrow> byte list \<Rightarrow> bool" where
  "holds_text mem a T \<longleftrightarrow> (\<forall>k < length T. mem (a + k) = Some (T ! k))"

definition occurs :: "byte list \<Rightarrow> byte list \<Rightarrow> int \<Rightarrow> bool" where
  "occurs p T j \<longleftrightarrow> 0 \<le> j \<and> j + int (length p) \<le> int (length T) \<and>
     (\<forall>x. 0 \<le> x \<and> x < int (length p) \<longrightarrow> txat T (j + x) = pat p x)"

text \<open>The occurrences as the positions where the pattern is a factor of the text.\<close>

definition occurrences :: "byte list \<Rightarrow> byte list \<Rightarrow> nat list" where
  "occurrences p T = filter (\<lambda>j. take (length p) (drop j T) = p) [0..<Suc (length T) - length p]"

lemma occurs_take:
  assumes "j + length p \<le> length T"
  shows "occurs p T (int j) \<longleftrightarrow> take (length p) (drop j T) = p"
proof -
  have "take (length p) (drop j T) = p \<longleftrightarrow> (\<forall>x < length p. T ! (j + x) = p ! x)"
    using assms by (auto simp: list_eq_iff_nth_eq)
  also have "\<dots> \<longleftrightarrow> (\<forall>x. 0 \<le> x \<and> x < int (length p) \<longrightarrow> txat T (int j + x) = pat p x)"
  proof
    assume a: "\<forall>x < length p. T ! (j + x) = p ! x"
    show "\<forall>x. 0 \<le> x \<and> x < int (length p) \<longrightarrow> txat T (int j + x) = pat p x"
      using a by (auto simp: txat_def pat_def nat_add_distrib)
  next
    assume a: "\<forall>x. 0 \<le> x \<and> x < int (length p) \<longrightarrow> txat T (int j + x) = pat p x"
    show "\<forall>x < length p. T ! (j + x) = p ! x"
    proof (intro allI impI)
      fix x assume "x < length p"
      then show "T ! (j + x) = p ! x"
        using a [rule_format, of "int x"] by (simp add: txat_def pat_def nat_add_distrib)
    qed
  qed
  finally show ?thesis using assms by (auto simp: occurs_def)
qed

lemma mem_txat:
  assumes "holds_text mem a T" "0 \<le> x" "x < int (length T)"
  shows "mem (a + nat x) = Some (txat T x)"
  using assms by (simp add: holds_text_def txat_def nat_less_iff)

lemma compare_back_spec:
  assumes M: "holds_text mem a T" and j: "0 \<le> j" "j + int (length p) \<le> int (length T)"
    and i: "-1 \<le> i" "i < int (length p)"
  shows "\<exists>i'. compare_back p mem a j i = Some i' \<and> -1 \<le> i' \<and> i' \<le> i \<and>
    (\<forall>x. i' < x \<and> x \<le> i \<longrightarrow> pat p x = txat T (j + x)) \<and> (i' = -1 \<or> pat p i' \<noteq> txat T (j + i'))"
  using i
proof (induction "nat (i + 1)" arbitrary: i)
  case 0
  then show ?case by (subst compare_back.simps) auto
next
  case (Suc n)
  then have i: "0 \<le> i" "n = nat (i - 1 + 1)" "-1 \<le> i - 1" "i - 1 < int (length p)" by auto
  have r: "arr_get p i = Some (pat p i)" "mem (a + nat (i + j)) = Some (txat T (j + i))"
    using arr_get_pat [of i p] mem_txat [OF M, of "j + i"] i(1) Suc.prems(2) j by (auto simp: add.commute)
  show ?case
  proof (cases "pat p i = txat T (j + i)")
    case False
    then show ?thesis using r i(1) j(1) by (subst compare_back.simps) auto
  next
    case True
    from Suc.hyps(1) [OF i(2-4)] obtain i' where i': "compare_back p mem a j (i - 1) = Some i'" "-1 \<le> i'"
      "i' \<le> i - 1" "\<forall>x. i' < x \<and> x \<le> i - 1 \<longrightarrow> pat p x = txat T (j + x)" "i' = -1 \<or> pat p i' \<noteq> txat T (j + i')" by blast
    have "compare_back p mem a j i = Some i'" using r i(1) j(1) True i'(1) by (subst compare_back.simps) simp
    moreover have "pat p x = txat T (j + x)" if "i' < x" "x \<le> i" for x
      using that i'(4) True by (cases "x = i") auto
    ultimately show ?thesis using i' by (intro exI [of _ i']) auto
  qed
qed

section \<open>A prepared object\<close>

definition bm_ready :: "byte list \<Rightarrow> bmobj \<Rightarrow> bool" where
  "bm_ready p ob \<longleftrightarrow> p \<noteq> [] \<and> (\<forall>b \<in> set p. b < 128) \<and> bm_pattern ob = p \<and> bm_pattern_len ob = int (length p) \<and>
     good_ok p (bm_good_suffix ob) \<and> rb_holds 0 (bm_bad_char ob) (bad_map p (int (length p) - 1))"

lemma good_okD:
  assumes "good_ok p gs" "0 \<le> k" "k < int (length p)"
  shows "arr_get gs k = Some (ent gs k)" "1 \<le> ent gs k" "ent gs k \<le> int (length p)"
  using assms arr_get_ent [of k gs] by (auto simp: good_ok_def Let_def)

lemma good_skip:
  assumes G: "good_ok p gs" and k: "0 \<le> k" "k < int (length p)" and d: "1 \<le> d" "d < ent gs k"
    and m: "\<forall>x. k < x \<and> x < int (length p) \<longrightarrow> pat p x = txat T (j + x)"
    and e: "k = 0 \<or> pat p k \<noteq> txat T (j + k)"
  shows "\<not> occurs p T (j + d)"
proof
  assume O: "occurs p T (j + d)"
  let ?m = "int (length p)"
  have o: "txat T (j + x) = pat p (x - d)" if "d \<le> x" "x < ?m" for x
    using O that d by (auto simp: occurs_def dest: spec [of _ "x - d"])
  have "\<forall>x. k < x \<and> x < ?m \<and> d \<le> x \<longrightarrow> pat p (x - d) = pat p x" using o m by auto
  moreover have "d \<le> k \<longrightarrow> pat p (k - d) \<noteq> pat p k" using o [of k] e k d by auto
  moreover have "(\<exists>x. k < x \<and> x < ?m \<and> d \<le> x \<and> pat p (x - d) \<noteq> pat p x) \<or> (d \<le> k \<and> pat p (k - d) = pat p k)"
    using G k d unfolding good_ok_def Let_def by blast
  ultimately show False by blast
qed

lemma bm_shift_spec:
  assumes R: "bm_ready p ob" and i: "0 \<le> i" "i < int (length p)" and c: "c = txat T (j + i)"
    and m: "\<forall>x. i < x \<and> x < int (length p) \<longrightarrow> pat p x = txat T (j + x)" and e: "pat p i \<noteq> c"
  shows "\<exists>s. bm_shift ob c i = Some s \<and> 1 \<le> s \<and> (\<forall>d. 1 \<le> d \<and> d < s \<longrightarrow> \<not> occurs p T (j + d))"
proof -
  let ?m = "int (length p)"
  let ?b = "bad_shift p c - ?m + i + 1" and ?g = "ent (bm_good_suffix ob) i"
  have A: "\<forall>b \<in> set p. b < 128" "bm_pattern_len ob = ?m" "good_ok p (bm_good_suffix ob)" "0 < ?m"
    "rb_holds 0 (bm_bad_char ob) (bad_map p (?m - 1))" using R i by (auto simp: bm_ready_def)
  have get: "bm_get_char_shift ob c = Some (bad_shift p c)"
    using rbtab.find_ok [OF A(5), of "uint c"] A(2) by (simp add: bm_get_char_shift_def bad_shift_def cong: option.case_cong)
  have bad: "\<not> occurs p T (j + d)" if "1 \<le> d" "d < ?b" for d
  proof -
    have "d \<le> i \<and> pat p (i - d) \<noteq> c" using bad_shift_safe [OF A(1) i that] .
    then show ?thesis using c i that by (auto simp: occurs_def intro!: exI [of _ "i - d"])
  qed
  have good: "\<not> occurs p T (j + d)" if "1 \<le> d" "d < ?g" for d
    using good_skip [OF A(3) i that m] e c by blast
  note g = good_okD [OF A(3) i]
  show ?thesis
  proof (cases "?b = ?m")
    case True
    then have "bm_shift ob c i = Some ?m" using get A(2) by (simp add: bm_shift_def Let_def)
    moreover have "1 \<le> ?m" using A(4) by linarith
    ultimately show ?thesis using bad unfolding True by (intro exI [of _ ?m]) blast
  next
    case False
    then have "bm_shift ob c i = Some (max ?g ?b)" using get A(2) g(1) by (simp add: bm_shift_def Let_def max_def)
    then show ?thesis using bad good g(2) by (intro exI [of _ "max ?g ?b"]) (auto simp: less_max_iff_disj)
  qed
qed

lemma bm_step_spec:
  assumes R: "bm_ready p ob" and M: "holds_text mem a T" and j: "0 \<le> j" "j + int (length p) \<le> int (length T)"
    and H: "mr_holds 0 ms xs"
  shows "\<exists>s ms'. bm_step ob mem a ms j = Some (j + s, ms') \<and> 1 \<le> s \<and>
    mr_holds 0 ms' (xs @ (if occurs p T j then [(a + nat j, a + nat (j + int (length p) - 1))] else [])) \<and>
    (\<forall>d. 1 \<le> d \<and> d < s \<longrightarrow> \<not> occurs p T (j + d))"
proof -
  let ?m = "int (length p)"
  have A: "bm_pattern ob = p" "bm_pattern_len ob = ?m" "good_ok p (bm_good_suffix ob)" "0 < ?m"
    using R by (auto simp: bm_ready_def)
  from compare_back_spec [OF M j, of "?m - 1"] A(4) obtain i where
    i: "compare_back p mem a j (?m - 1) = Some i" "-1 \<le> i" "i \<le> ?m - 1"
    "\<forall>x. i < x \<and> x \<le> ?m - 1 \<longrightarrow> pat p x = txat T (j + x)" "i = -1 \<or> pat p i \<noteq> txat T (j + i)" by auto
  show ?thesis
  proof (cases "i = -1")
    case True
    have occ: "occurs p T j" using i(4) j True by (auto simp: occurs_def)
    from mrs.record_ok [OF H, of "a + nat j" "a + nat (j + ?m - 1)"] obtain ms' where
      ms: "new_match_record ms (Some 0) (Some (a + nat j)) (Some (a + nat (j + ?m - 1))) = Some ms'"
      "mr_holds 0 ms' (xs @ [(a + nat j, a + nat (j + ?m - 1))])" by (auto simp: mr_record_def)
    note g = good_okD [OF A(3) order_refl A(4)]
    have "bm_step ob mem a ms j = Some (j + ent (bm_good_suffix ob) 0, ms')"
      using i(1) True ms(1) g(1) A by (simp add: bm_step_def Let_def)
    moreover have "\<not> occurs p T (j + d)" if "1 \<le> d" "d < ent (bm_good_suffix ob) 0" for d
      using good_skip [OF A(3) order_refl A(4) that, of T j] i(4) True by auto
    ultimately show ?thesis using occ ms(2) g(2) by auto
  next
    case False
    then have i0: "0 \<le> i" "i < ?m" "pat p i \<noteq> txat T (j + i)" using i by auto
    have nocc: "\<not> occurs p T j" using i0 by (auto simp: occurs_def)
    have c: "mem (a + nat (i + j)) = Some (txat T (j + i))"
      using mem_txat [OF M, of "j + i"] i0 j by (simp add: add.commute)
    from bm_shift_spec [OF R i0(1,2) refl, of T j] i(4) i0(3) obtain s where
      s: "bm_shift ob (txat T (j + i)) i = Some s" "1 \<le> s" "\<forall>d. 1 \<le> d \<and> d < s \<longrightarrow> \<not> occurs p T (j + d)" by auto
    have "bm_step ob mem a ms j = Some (j + s, ms)"
      using i(1) i0 c s(1) A by (simp add: bm_step_def Let_def)
    then show ?thesis using s nocc H by auto
  qed
qed

section \<open>The loop\<close>

definition span_of :: "addr \<Rightarrow> nat \<Rightarrow> nat \<Rightarrow> addr \<times> addr" where
  "span_of a m j = (a + j, a + (j + m - 1))"

definition occ_from :: "byte list \<Rightarrow> byte list \<Rightarrow> int \<Rightarrow> nat list" where
  "occ_from p T j = filter (\<lambda>j. occurs p T (int j)) [nat j..<Suc (length T) - length p]"

lemma occ_from_skip:
  assumes "0 \<le> j" "j + int (length p) \<le> int (length T)" "1 \<le> s" "\<forall>d. 1 \<le> d \<and> d < s \<longrightarrow> \<not> occurs p T (j + d)"
  shows "occ_from p T j = (if occurs p T j then [nat j] else []) @ occ_from p T (j + s)"
proof -
  let ?e = "Suc (length T) - length p"
  have je: "nat j < ?e" using assms(1,2) by linarith
  define mid where "mid = min (nat (j + s)) ?e"
  have mid: "Suc (nat j) \<le> mid" "mid \<le> ?e" using je assms(1,3) by (auto simp: mid_def)
  have "[nat j..<?e] = nat j # [Suc (nat j)..<?e]" using je by (simp add: upt_conv_Cons)
  moreover have "[Suc (nat j)..<?e] = [Suc (nat j)..<mid] @ [mid..<?e]"
    using upt_add_eq_append [OF mid(1), of "?e - mid"] mid by simp
  moreover have "[mid..<?e] = [nat (j + s)..<?e]" by (auto simp: mid_def min_def)
  ultimately have split: "[nat j..<?e] = nat j # [Suc (nat j)..<mid] @ [nat (j + s)..<?e]" by simp
  have "filter (\<lambda>j. occurs p T (int j)) [Suc (nat j)..<mid] = []"
  proof -
    have "\<not> occurs p T (int x)" if "x \<in> set [Suc (nat j)..<mid]" for x
    proof -
      have "1 \<le> int x - j" "int x - j < s" using that assms(1) by (auto simp: mid_def)
      then show ?thesis using assms(4) by (metis add.commute diff_add_cancel)
    qed
    then show ?thesis by (simp add: filter_empty_conv)
  qed
  then show ?thesis unfolding occ_from_def split using assms(1) by simp
qed

lemma bm_loop_spec:
  assumes R: "bm_ready p ob" and M: "holds_text mem a T" and "0 \<le> j" "mr_holds 0 ms xs"
  shows "\<exists>ms'. bm_loop ob mem a (int (length T)) ms j = Some ms' \<and>
    mr_holds 0 ms' (xs @ map (span_of a (length p)) (occ_from p T j))"
  using assms(3,4)
proof (induction "nat (int (length T) - int (length p) - j + 1)" arbitrary: j ms xs rule: less_induct)
  case less
  have len: "bm_pattern_len ob = int (length p)" "p \<noteq> []" using R by (auto simp: bm_ready_def)
  show ?case
  proof (cases "j \<le> int (length T) - int (length p)")
    case False
    have "occ_from p T j = []" using False less.prems(1) by (auto simp: occ_from_def)
    then show ?thesis using False len less.prems(2) by (subst bm_loop.simps) simp
  next
    case True
    then have jj: "j + int (length p) \<le> int (length T)" by simp
    from bm_step_spec [OF R M less.prems(1) jj less.prems(2)] obtain s ms1 where
      s: "bm_step ob mem a ms j = Some (j + s, ms1)" "1 \<le> s"
      "mr_holds 0 ms1 (xs @ (if occurs p T j then [(a + nat j, a + nat (j + int (length p) - 1))] else []))"
      "\<forall>d. 1 \<le> d \<and> d < s \<longrightarrow> \<not> occurs p T (j + d)" by blast
    have sp: "(a + nat j, a + nat (j + int (length p) - 1)) = span_of a (length p) (nat j)"
      using less.prems(1) len(2) by (simp add: span_of_def nat_add_distrib nat_diff_distrib)
    have "nat (int (length T) - int (length p) - (j + s) + 1) < nat (int (length T) - int (length p) - j + 1)"
      using s(2) True by auto
    from less.hyps [OF this _ s(3)] less.prems(1) s(2) obtain ms' where
      r: "bm_loop ob mem a (int (length T)) ms1 (j + s) = Some ms'"
      "mr_holds 0 ms' ((xs @ (if occurs p T j then [(a + nat j, a + nat (j + int (length p) - 1))] else [])) @
        map (span_of a (length p)) (occ_from p T (j + s)))" by auto
    have "bm_loop ob mem a (int (length T)) ms j = Some ms'"
      using True len(1) s(1) r(1) by (subst bm_loop.simps) simp
    then show ?thesis using r(2) occ_from_skip [OF less.prems(1) jj s(2,4)] sp by (auto split: if_splits)
  qed
qed

end
