(* ===== verification/BmProps.thy ===== *)
theory BmProps
  imports BmSearch
begin

text \<open>
  The properties of \<open>src/boyer_moore.c\<close>: initialisation builds correct tables, the search
  records exactly the occurrences, and iterating returns them in order.
\<close>

definition bm_state :: "byte list \<Rightarrow> bmobj \<Rightarrow> (addr \<times> addr) list \<Rightarrow> bool" where
  "bm_state p ob xs \<longleftrightarrow> bm_ready p ob \<and> mr_holds 0 (bm_matches ob) xs \<and> bm_iter ob = None"

lemma bm_init_ready:
  assumes p: "p \<noteq> []" "length p \<le> 127" "\<forall>b \<in> set p. b < 128"
  shows "\<exists>ob. bm_init_obj (Some new_bm_obj) (Some p) (int (length p)) = Some (Some ob) \<and> bm_state p ob []"
proof -
  let ?m = "int (length p)"
  let ?o = "new_bm_obj\<lparr>bm_pattern := p, bm_good_suffix := replicate (length p) ?m, bm_pattern_len := ?m\<rparr>"
  obtain h where h: "new_rbtree (empty_rbheap :: int rbheap) = (Some 0, h)" "rb_holds 0 h (\<lambda>_. None)"
    using new_rbtree_holds by blast
  have e: "bad_map p 0 = (\<lambda>_. None)" by (simp add: bad_map_def fun_eq_iff)
  have "(0::int) \<le> ?m - 1" using p(1) by (cases p) auto
  from bad_char_loop_spec [of h p 0] h(2) this e obtain tab where
    t: "bad_char_loop p ?m 0 h = Some tab" "rb_holds 0 tab (bad_map p (?m - 1))" by auto
  let ?o1 = "?o\<lparr>bm_bad_char := tab\<rparr>"
  have c: "compute_bad_char ?o = Some ?o1" using t(1) h(1) by (simp add: compute_bad_char_def new_bm_obj_def)
  have pr: "bm_pattern ?o1 = p" "bm_pattern_len ?o1 = ?m" "length (bm_good_suffix ?o1) = length p" by simp_all
  from compute_good_suffix_spec [OF pr(1) p(1,2) pr(2,3)] obtain gs where
    g: "compute_good_suffix ?o1 = Some (?o1\<lparr>bm_good_suffix := gs\<rparr>)" "good_ok p gs" by blast
  have "bm_init_obj (Some new_bm_obj) (Some p) ?m = Some (Some (?o1\<lparr>bm_good_suffix := gs\<rparr>))"
    using c g(1) by (simp add: bm_init_obj_def Let_def)
  moreover have "bm_state p (?o1\<lparr>bm_good_suffix := gs\<rparr>) []"
    using p g(2) t(2) new_obj_holds by (simp add: bm_state_def bm_ready_def new_bm_obj_def)
  ultimately show ?thesis by blast
qed

lemma occ_from_all: "p \<noteq> [] \<Longrightarrow> occ_from p T 0 = occurrences p T"
  unfolding occ_from_def occurrences_def
  by (intro filter_cong) (auto simp: occurs_take)

lemma bm_search_spec:
  assumes S: "bm_state p ob xs" and M: "holds_text mem a T" and T: "T \<noteq> []"
  shows "\<exists>ob'. bm_search mem (Some ob) (Some a) (Some (a + (length T - 1))) = Some (Some ob') \<and>
    bm_state p ob' (xs @ map (span_of a (length p)) (occurrences p T))"
proof -
  have R: "bm_ready p ob" "mr_holds 0 (bm_matches ob) xs" "bm_iter ob = None" "p \<noteq> []"
    using S by (auto simp: bm_state_def bm_ready_def)
  have l: "int (a + (length T - 1)) - int a + 1 = int (length T)" using T by (cases T) auto
  from bm_loop_spec [OF R(1) M order_refl R(2)] obtain ms where
    ms: "bm_loop ob mem a (int (length T)) (bm_matches ob) 0 = Some ms"
    "mr_holds 0 ms (xs @ map (span_of a (length p)) (occurrences p T))" using occ_from_all [OF R(4)] by auto
  have "bm_search mem (Some ob) (Some a) (Some (a + (length T - 1))) = Some (Some (ob\<lparr>bm_matches := ms\<rparr>))"
    using ms(1) unfolding bm_search_def option.case prod.case l by simp
  moreover have "bm_state p (ob\<lparr>bm_matches := ms\<rparr>) (xs @ map (span_of a (length p)) (occurrences p T))"
    using R(1,3) ms(2) by (simp add: bm_state_def bm_ready_def)
  ultimately show ?thesis by blast
qed

lemma bm_clear_spec:
  assumes "bm_ready p ob" "mr_holds 0 (bm_matches ob) xs"
  shows "\<exists>ob'. bm_clear_matches (Some ob) = Some (Some ob') \<and> bm_state p ob' []"
proof -
  from mrs.forget_ok [OF assms(2)] obtain m where
    m: "match_record_clear (bm_matches ob) (Some 0) = Some m" "mr_holds 0 m []" by (auto simp: mr_forget_def)
  then show ?thesis using assms(1) by (simp add: bm_clear_matches_def bm_state_def bm_ready_def)
qed

lemma bm_ready_iter: "bm_ready p ob \<Longrightarrow> bm_ready p (ob\<lparr>bm_iter := i\<rparr>)"
  by (simp add: bm_ready_def)

section \<open>Iterating over the matches\<close>

text \<open>The cursor after \<open>i\<close> of the matches \<open>as\<close> were handed out.\<close>

definition iter_at :: "addr list \<Rightarrow> nat \<Rightarrow> ptr" where
  "iter_at as i = (if i = 0 then None else Some (as ! (i - 1)))"

lemma bm_next_match_spec:
  assumes R: "mr_rep (bm_matches b) 0 as ps" and i: "i \<le> length as" and it: "bm_iter b = iter_at as i"
  shows "bm_next_match (Some b) = (if i = length as then Some (None, Some (b\<lparr>bm_iter := None\<rparr>))
    else Some (Some (as ! i), Some (b\<lparr>bm_iter := iter_at as (Suc i)\<rparr>)))"
proof (cases "as = []")
  case True
  then show ?thesis using mr_repD(5) [OF R] it i by (simp add: bm_next_match_def oget_def iter_at_def)
next
  case ne: False
  note r = mr_repD [OF R]
  have l: "lpath (mnext (bm_matches b)) (Some (hd as)) as (Some (hd as))" "distinct as" using r(1) ne by (auto simp: dring_def)
  have o0: "oget (bm_matches b) (Some 0) = Some \<lparr>mo_head = Some (hd as), mo_count = int (length as), mo_pool = hdp ps\<rparr>"
    using r(5) hdp_hd [OF ne] by (simp add: oget_def)
  have al: "mrecs (bm_matches b) (as ! j) \<noteq> None" if "j < length as" for j
    using ring_alloc [OF r(1), of "as ! j"] that by auto
  show ?thesis
  proof (cases i)
    case 0
    then show ?thesis using o0 it ne al [of 0] by (auto simp: bm_next_match_def iter_at_def hd_conv_nth)
  next
    case (Suc j)
    then have j: "j < length as" and it': "bm_iter b = Some (as ! j)" using i it by (simp_all add: iter_at_def)
    have n: "mnext (bm_matches b) (as ! j) = Some (if Suc j < length as then Some (as ! Suc j) else Some (hd as))"
      using lpath_nth [OF l(1) j] by simp
    then obtain rr where rr: "mrecs (bm_matches b) (as ! j) = Some rr"
      "m_next rr = (if Suc j < length as then Some (as ! Suc j) else Some (hd as))" by (auto simp: mnext_def)
    show ?thesis
    proof (cases "i = length as")
      case True
      then show ?thesis using rr o0 it' ne Suc by (simp add: bm_next_match_def)
    next
      case False
      then have s: "Suc j < length as" using i Suc by simp
      have "as ! Suc j \<noteq> hd as" using l(2) s ne by (simp add: hd_conv_nth nth_eq_iff_index_eq)
      then show ?thesis using rr o0 it' s Suc al [of "Suc j"] by (auto simp: bm_next_match_def iter_at_def)
    qed
  qed
qed

text \<open>A number of calls of \<open>bm_next_match\<close>, with what the caller reads from each returned record.\<close>

fun bm_nexts :: "nat \<Rightarrow> bmobj option \<Rightarrow> ((ptr \<times> ptr) option list \<times> bmobj option) option" where
  "bm_nexts 0 ob = Some ([], ob)"
| "bm_nexts (Suc k) ob = do {
     (p, ob) \<leftarrow> bm_next_match ob;
     x \<leftarrow> (case p of None \<Rightarrow> Some None | Some a \<Rightarrow> do {
        b \<leftarrow> ob;
        r \<leftarrow> mrecs (bm_matches b) a;
        Some (Some (m_beg r, m_end r)) });
     (xs, ob) \<leftarrow> bm_nexts k ob;
     Some (x # xs, ob) }"

text \<open>What the calls should return for \<open>n\<close> matches: the matches in order, then nothing once, then again
  from the first.\<close>

definition handed_out :: "'a list \<Rightarrow> nat \<Rightarrow> 'a option" where
  "handed_out xs j = (let i = j mod Suc (length xs) in if i < length xs then Some (xs ! i) else None)"

lemma spans_nth: "i < length as \<Longrightarrow> mrecs m (as ! i) = Some r \<Longrightarrow> spans m as ! i = (m_beg r, m_end r)"
  by (simp add: spans_def)

lemma bm_nexts_spec:
  assumes "mr_rep (bm_matches b) 0 as ps" "i \<le> length as" "bm_iter b = iter_at as i"
  shows "\<exists>b'. bm_nexts k (Some b) = Some (map (\<lambda>j. handed_out (spans (bm_matches b) as) (i + j)) [0..<k], Some b') \<and>
    b' = b\<lparr>bm_iter := bm_iter b'\<rparr>"
  using assms
proof (induction k arbitrary: b i)
  case (Suc k)
  have ls: "length (spans (bm_matches b) as) = length as" by (simp add: spans_def)
  have sh: "map (\<lambda>j. f (n + j)) [0..<Suc k] = f n # map (\<lambda>j. f (Suc n + j)) [0..<k]"
    for f :: "nat \<Rightarrow> (ptr \<times> ptr) option" and n
    by (simp add: upt_conv_Cons map_Suc_upt [symmetric] del: upt_Suc)
  show ?case
  proof (cases "i = length as")
    case True
    let ?b = "b\<lparr>bm_iter := None\<rparr>"
    have p: "mr_rep (bm_matches ?b) 0 as ps" "0 \<le> length as" "bm_iter ?b = iter_at as 0" using Suc.prems by (simp_all add: iter_at_def)
    from Suc.IH [OF p] obtain b' where
      b': "bm_nexts k (Some ?b) = Some (map (\<lambda>j. handed_out (spans (bm_matches b) as) (0 + j)) [0..<k], Some b')"
        "b' = ?b\<lparr>bm_iter := bm_iter b'\<rparr>" by auto
    have "handed_out (spans (bm_matches b) as) (Suc i + j) = handed_out (spans (bm_matches b) as) (0 + j)" for j
      using ls True mod_add_self1 [of "Suc (length as)" j] by (simp add: handed_out_def)
    moreover have "handed_out (spans (bm_matches b) as) i = None" using ls True by (simp add: handed_out_def)
    ultimately show ?thesis using b' bm_next_match_spec [OF Suc.prems] True by (auto simp: sh simp del: upt_Suc)
  next
    case False
    then have i: "i < length as" using Suc.prems(2) by simp
    let ?b = "b\<lparr>bm_iter := iter_at as (Suc i)\<rparr>"
    have p: "mr_rep (bm_matches ?b) 0 as ps" "Suc i \<le> length as" "bm_iter ?b = iter_at as (Suc i)" using Suc.prems i by simp_all
    from Suc.IH [OF p] obtain b' where
      b': "bm_nexts k (Some ?b) = Some (map (\<lambda>j. handed_out (spans (bm_matches b) as) (Suc i + j)) [0..<k], Some b')"
        "b' = ?b\<lparr>bm_iter := bm_iter b'\<rparr>" by auto
    obtain r where r: "mrecs (bm_matches b) (as ! i) = Some r"
      using ring_alloc [OF mr_repD(1) [OF Suc.prems(1)], of "as ! i"] i by auto
    have "handed_out (spans (bm_matches b) as) i = Some (m_beg r, m_end r)"
      using ls i spans_nth [OF i r] by (simp add: handed_out_def)
    then show ?thesis using b' bm_next_match_spec [OF Suc.prems] False r by (auto simp: sh simp del: upt_Suc)
  qed
qed auto

text \<open>A client's session: search a text, take some of the matches (the iteration may be anywhere, also
  past its end), clear, and go on with the next text.\<close>

fun bm_session :: "(nat \<Rightarrow> byte option) \<Rightarrow> bmobj option \<Rightarrow> (addr \<times> byte list \<times> nat) list \<Rightarrow>
    ((ptr \<times> ptr) option list list \<times> bmobj option) option" where
  "bm_session mem ob [] = Some ([], ob)"
| "bm_session mem ob ((a, T, k) # rounds) = do {
     ob \<leftarrow> bm_search mem ob (Some a) (Some (a + (length T - 1)));
     (xs, ob) \<leftarrow> bm_nexts k ob;
     ob \<leftarrow> bm_clear_matches ob;
     (yss, ob) \<leftarrow> bm_session mem ob rounds;
     Some (xs # yss, ob) }"

definition found_in :: "byte list \<Rightarrow> addr \<Rightarrow> byte list \<Rightarrow> (ptr \<times> ptr) list" where
  "found_in p a T = map (\<lambda>j. (Some (a + j), Some (a + (j + length p - 1)))) (occurrences p T)"

lemma bm_session_spec:
  assumes "bm_state p ob []" "\<forall>(a, T, k) \<in> set rounds. T \<noteq> [] \<and> holds_text mem a T"
  shows "\<exists>ob'. bm_session mem (Some ob) rounds =
    Some (map (\<lambda>(a, T, k). map (handed_out (found_in p a T)) [0..<k]) rounds, Some ob') \<and> bm_state p ob' []"
  using assms
proof (induction rounds arbitrary: ob)
  case (Cons r rounds)
  obtain a T k where r: "r = (a, T, k)" by (metis prod_cases3)
  have T: "T \<noteq> []" "holds_text mem a T" using Cons.prems(2) r by auto
  from bm_search_spec [OF Cons.prems(1) T(2,1)] obtain o1 where
    o1: "bm_search mem (Some ob) (Some a) (Some (a + (length T - 1))) = Some (Some o1)"
    "bm_ready p o1" "mr_holds 0 (bm_matches o1) (map (span_of a (length p)) (occurrences p T))" "bm_iter o1 = None"
    by (auto simp: bm_state_def)
  from o1(3) obtain as ps where R: "mr_rep (bm_matches o1) 0 as ps"
    "spans (bm_matches o1) as = map (\<lambda>(b, e). (Some b, Some e)) (map (span_of a (length p)) (occurrences p T))"
    by (auto simp: mr_holds_def)
  have sp: "spans (bm_matches o1) as = found_in p a T" using R(2) by (simp add: found_in_def span_of_def)
  have it: "bm_iter o1 = iter_at as 0" using o1(4) by (simp add: iter_at_def)
  from bm_nexts_spec [OF R(1) _ it, of k] obtain o2 where
    o2: "bm_nexts k (Some o1) = Some (map (handed_out (found_in p a T)) [0..<k], Some o2)" "o2 = o1\<lparr>bm_iter := bm_iter o2\<rparr>"
    unfolding sp by auto
  have m: "bm_matches o2 = bm_matches o1" using arg_cong [OF o2(2), of bm_matches] by simp
  have m2: "bm_ready p o2" by (subst o2(2)) (rule bm_ready_iter [OF o1(2)])
  then have "mr_holds 0 (bm_matches o2) (map (span_of a (length p)) (occurrences p T))" using o1(3) m by simp
  from bm_clear_spec [OF m2 this] obtain o3 where
    o3: "bm_clear_matches (Some o2) = Some (Some o3)" "bm_state p o3 []" by blast
  have "\<forall>(a, T, k) \<in> set rounds. T \<noteq> [] \<and> holds_text mem a T" using Cons.prems(2) by simp
  from Cons.IH [OF o3(2) this] obtain ob' where
    "bm_session mem (Some o3) rounds = Some (map (\<lambda>(a, T, k). map (handed_out (found_in p a T)) [0..<k]) rounds, Some ob')"
    "bm_state p ob' []" by blast
  then show ?case using o1(1) o2(1) o3(1) r by simp
qed simp

section \<open>Properties\<close>

text \<open>C4: for a pattern of 1 to 127 bytes below 128, initialising a new object and searching a
  non-empty text never reads outside the pattern, the tables or the text, ends, and records
  exactly the occurrences of the pattern, overlapping ones included, from left to right, each
  with the addresses of its first and last byte; \<open>bm_match_count\<close> is their number.\<close>

theorem bm_search_finds_occurrences:
  assumes "p \<noteq> []" "length p \<le> 127" "\<forall>b \<in> set p. b < 128" "T \<noteq> []" "holds_text mem a T"
  shows "\<exists>ob ob'. bm_init_obj (Some new_bm_obj) (Some p) (int (length p)) = Some (Some ob) \<and>
    bm_search mem (Some ob) (Some a) (Some (a + (length T - 1))) = Some (Some ob') \<and>
    mr_holds 0 (bm_matches ob') (map (span_of a (length p)) (occurrences p T)) \<and>
    bm_match_count (Some ob') = Some (int (length (occurrences p T)))"
proof -
  from bm_init_ready [OF assms(1-3)] obtain ob where
    ob: "bm_init_obj (Some new_bm_obj) (Some p) (int (length p)) = Some (Some ob)" "bm_state p ob []" by blast
  from bm_search_spec [OF ob(2) assms(5,4)] obtain ob' where
    r: "bm_search mem (Some ob) (Some a) (Some (a + (length T - 1))) = Some (Some ob')"
    "mr_holds 0 (bm_matches ob') (map (span_of a (length p)) (occurrences p T))" by (auto simp: bm_state_def)
  have "bm_match_count (Some ob') = Some (int (length (occurrences p T)))"
    using mrs.number_ok [OF r(2)] by (simp add: bm_match_count_def mr_number_def)
  then show ?thesis using ob(1) r by blast
qed

theorem bm_search_finds_occurrences_witness:
  "\<exists>ob ob'. bm_init_obj (Some new_bm_obj) (Some [97, 97]) 2 = Some (Some ob) \<and>
    bm_search (\<lambda>x. if x < 5 then Some ([98, 97, 97, 97, 98] ! x) else None) (Some ob) (Some 0) (Some 4) = Some (Some ob') \<and>
    mr_holds 0 (bm_matches ob') [(1, 2), (2, 3)]"
proof -
  let ?mem = "\<lambda>x. if x < 5 then Some ([98, 97, 97, 97, 98] ! x) else None"
  have h: "holds_text ?mem 0 [98, 97, 97, 97, 98]" by (simp add: holds_text_def)
  have o2: "occurrences [97, 97] [98, 97, 97, 97, 98] = [1, 2]" by code_simp
  have p: "[97, 97] \<noteq> ([] :: byte list)" "length [97, 97 :: byte] \<le> 127" "\<forall>b \<in> set [97, 97 :: byte]. b < 128"
    "[98, 97, 97, 97, 98] \<noteq> ([] :: byte list)" by simp_all
  have s: "map (span_of 0 (length [97, 97 :: byte])) [1, 2] = [(1, 2), (2, 3)]" by code_simp
  have l: "int (length [97, 97 :: byte]) = 2" "0 + (length [98, 97, 97, 97, 98 :: byte] - 1) = 4" by simp_all
  show ?thesis using bm_search_finds_occurrences [OF p h] unfolding o2 s l by blast
qed

text \<open>C17: an object initialised for a pattern of 1 to 127 bytes below 128 serves any session: for each
  text in turn it is searched, \<open>bm_next_match\<close> is called any number of times, and the matches are
  cleared, wherever the iteration stands. No round sees anything of the ones before it: its calls
  return the occurrences in its own text from left to right, each with its first and last address, then
  \<open>NULL\<close>, then the first occurrence again and so on.\<close>

theorem bm_reuse_and_iterate:
  assumes "p \<noteq> []" "length p \<le> 127" "\<forall>b \<in> set p. b < 128"
    and "\<forall>(a, T, k) \<in> set rounds. T \<noteq> [] \<and> holds_text mem a T"
  shows "\<exists>ob ob'. bm_init_obj (Some new_bm_obj) (Some p) (int (length p)) = Some (Some ob) \<and>
    bm_session mem (Some ob) rounds = Some (map (\<lambda>(a, T, k). map (handed_out (found_in p a T)) [0..<k]) rounds, ob')"
proof -
  from bm_init_ready [OF assms(1-3)] obtain ob where
    "bm_init_obj (Some new_bm_obj) (Some p) (int (length p)) = Some (Some ob)" "bm_state p ob []" by blast
  then show ?thesis using bm_session_spec [OF _ assms(4)] by blast
qed

theorem bm_reuse_and_iterate_witness:
  "\<exists>ob ob'. bm_init_obj (Some new_bm_obj) (Some [97]) 1 = Some (Some ob) \<and>
    bm_session (\<lambda>x. if x < 3 then Some ([97, 98, 97] ! x) else None) (Some ob) [(0, [97, 98, 97], 1), (1, [98, 97], 3)] =
    Some ([[Some (Some 0, Some 0)], [Some (Some 2, Some 2), None, Some (Some 2, Some 2)]], ob')"
proof -
  let ?mem = "\<lambda>x. if x < 3 then Some ([97, 98, 97] ! x) else None"
  let ?rounds = "[(0, [97, 98, 97], 1), (1, [98, 97], 3)] :: (addr \<times> byte list \<times> nat) list"
  have h: "\<forall>(a, T, k) \<in> set ?rounds. T \<noteq> [] \<and> holds_text ?mem a T"
    by (simp add: holds_text_def less_Suc_eq numeral_eq_Suc)
  have p: "[97] \<noteq> ([] :: byte list)" "length [97 :: byte] \<le> 127" "\<forall>b \<in> set [97 :: byte]. b < 128" by simp_all
  have s: "map (\<lambda>(a, T, k). map (handed_out (found_in [97] a T)) [0..<k]) ?rounds =
    [[Some (Some 0, Some 0)], [Some (Some 2, Some 2), None, Some (Some 2, Some 2)]]" by code_simp
  have l: "int (length [97 :: byte]) = 1" by simp
  show ?thesis using bm_reuse_and_iterate [OF p h] unfolding s l .
qed

end
