(* ===== verification/Mpat.thy ===== *)
theory Mpat
  imports RbtreeTable Slist
begin

text \<open>
  Multi-pattern search: \<open>src/mpat.c\<close> and \<open>src/mpat.h\<close>.

  The three red-black trees of an object live in heaps of their own, each with control block 0: the
  payloads of \<open>hash\<close> are lists of prefix patterns, those of \<open>shift\<close> numbers, those of
  \<open>match_list\<close> match records. A prefix pattern is a block of its own; \<open>mp_base n\<close> is the address of
  the characters of the \<open>n\<close>-th block that \<open>malloc\<close> returned, which the comparison of pointers into
  different blocks depends on. Strings are byte lists that end with a null byte, and an access beyond
  it is an error; \<open>char\<close> is signed, a shift of a negative number multiplies. The text is read by a
  function \<open>rd\<close> from addresses.
\<close>

section \<open>The object\<close>

record prefix_pattern =
  pp_key :: int
  pp_pattern :: "byte list"

record mpat =
  mp_hash :: "addr rbheap"
  mp_shift :: "int rbheap"
  mp_match :: "(int \<times> int) rbheap"
  mp_lists :: "addr lheap"
  mp_pps :: "prefix_pattern list"
  mp_base :: "nat \<Rightarrow> int"
  mp_m :: int
  mp_B :: int
  mp_default_shift :: int
  mp_min_key :: int
  mp_max_key :: int
  mp_cur :: ptr

definition str_at :: "byte list \<Rightarrow> int \<Rightarrow> int option" where
  "str_at s i = (if 0 \<le> i \<and> i < int (length s) then Some (sint (s ! nat i)) else None)"

fun str_len :: "byte list \<Rightarrow> nat option" where
  "str_len [] = None"
| "str_len (b # bs) = (if b = 0 then Some 0 else map_option Suc (str_len bs))"

definition suffix_hash :: "(int \<Rightarrow> int option) \<Rightarrow> int \<Rightarrow> int option" where
  "suffix_hash rd p = do { a \<leftarrow> rd p; b \<leftarrow> rd (p - 1); Some (a * 32 + b) }"

definition prefix_hash :: "(int \<Rightarrow> int option) \<Rightarrow> int \<Rightarrow> int \<Rightarrow> int option" where
  "prefix_hash rd p m = do { a \<leftarrow> rd (p - m + 1); b \<leftarrow> rd (p - m + 2); Some (a * 256 + b) }"

definition new_mpat :: "(nat \<Rightarrow> int) \<Rightarrow> mpat" where
  "new_mpat base = \<lparr>mp_hash = snd (new_rbtree empty_rbheap), mp_shift = snd (new_rbtree empty_rbheap),
     mp_match = snd (new_rbtree empty_rbheap), mp_lists = empty_lheap, mp_pps = [], mp_base = base,
     mp_m = 0, mp_B = 0, mp_default_shift = 0, mp_min_key = 0, mp_max_key = 0, mp_cur = None\<rparr>"

section \<open>The tables\<close>

definition insert_hash_record :: "mpat \<Rightarrow> int \<Rightarrow> byte list \<Rightarrow> int \<Rightarrow> mpat option" where
  "insert_hash_record ob key pattern pfh = do {
     pattern_len \<leftarrow> str_len pattern;
     c \<leftarrow> cget (mp_hash ob) (Some 0);
     hr \<leftarrow> rbtree_search (mp_hash ob) (rc_root c) key;
     (hr, ob) \<leftarrow> (if hr = None then do {
          let (pattern_list, lh) = new_list (mp_lists ob);
          (hr, th) \<leftarrow> rbtree_insert (mp_hash ob) (Some 0) key (Some pattern_list) False;
          Some (hr, ob\<lparr>mp_hash := th, mp_lists := lh\<rparr>) }
        else Some (hr, ob));
     let pfxp = length (mp_pps ob);
     let ob = ob\<lparr>mp_pps := mp_pps ob @ [\<lparr>pp_key = pfh, pp_pattern = take pattern_len pattern @ [0]\<rparr>]\<rparr>;
     n \<leftarrow> rget (mp_hash ob) hr;
     l \<leftarrow> rb_data n;
     (_, lh) \<leftarrow> list_append (mp_lists ob) (Some l) (Some pfxp);
     Some (ob\<lparr>mp_lists := lh\<rparr>) }"

definition insert_shift_record :: "int rbheap \<Rightarrow> int \<Rightarrow> int \<Rightarrow> int rbheap option" where
  "insert_shift_record s key shift = do {
     c \<leftarrow> cget s (Some 0);
     sr \<leftarrow> rbtree_search s (rc_root c) key;
     (if sr = None then do { (_, s) \<leftarrow> rbtree_insert s (Some 0) key (Some shift) False; Some s }
      else do {
        n \<leftarrow> rget s sr;
        current_shift \<leftarrow> rb_data n;
        (if current_shift > shift then rset s sr (rb_data_update (\<lambda>_. Some shift)) else Some s) }) }"

text \<open>The result of the walk is the smallest length, starting from the largest \<open>size_t\<close>.\<close>

partial_function (option) min_len_loop ::
    "(byte list) lheap \<Rightarrow> ptr \<Rightarrow> int \<Rightarrow> (int \<times> (byte list) lheap) option" where [code]:
  "min_len_loop ph patterns m = do {
     (pattern, ph) \<leftarrow> list_get_next ph patterns;
     (case pattern of None \<Rightarrow> Some (m, ph)
      | Some s \<Rightarrow> do {
          len \<leftarrow> str_len s;
          min_len_loop ph patterns (if int len < m then int len else m) }) }"

definition preprocess_patterns :: "mpat \<Rightarrow> (byte list) lheap \<Rightarrow> ptr \<Rightarrow> (bool \<times> mpat \<times> (byte list) lheap) option" where
  "preprocess_patterns ob ph patterns = (if patterns = None then Some (False, ob, ph) else do {
     (_, ph) \<leftarrow> list_set_iterator ph patterns 0;
     (m, ph) \<leftarrow> min_len_loop ph patterns (2 ^ 64 - 1);
     (if m < 3 then Some (False, ob, ph)
      else do {
        let ob = ob\<lparr>mp_m := signed_take_bit 31 m, mp_B := 2\<rparr>;
        Some (True, ob\<lparr>mp_default_shift := mp_m ob - mp_B ob + 1\<rparr>, ph) }) })"

text \<open>\<open>p\<close> is the index of the end of the pattern in \<open>pattern\<close>, \<open>tmp\<close> the running index.\<close>

function hash_substrings_loop :: "int rbheap \<Rightarrow> byte list \<Rightarrow> int \<Rightarrow> int \<Rightarrow> int \<Rightarrow> int rbheap option" where
  "hash_substrings_loop s pattern p m tmp = (if tmp > p - m + 1 then do {
       k \<leftarrow> suffix_hash (str_at pattern) tmp;
       s \<leftarrow> insert_shift_record s k (p - tmp);
       hash_substrings_loop s pattern p m (tmp - 1) }
     else Some s)"
  by pat_completeness auto
termination by (relation "measure (\<lambda>(s, pat, p, m, t). nat (t - (p - m + 1)))") auto

declare hash_substrings_loop.simps [simp del]

definition hash_substrings :: "int rbheap \<Rightarrow> byte list \<Rightarrow> int \<Rightarrow> int \<Rightarrow> int \<Rightarrow> int rbheap option" where
  "hash_substrings s pattern p m B = hash_substrings_loop s pattern p m (p - B + 1)"

partial_function (option) mpat_init_loop :: "mpat \<Rightarrow> (byte list) lheap \<Rightarrow> ptr \<Rightarrow> (mpat \<times> (byte list) lheap) option" where [code]:
  "mpat_init_loop ob ph patterns = do {
     (pattern, ph) \<leftarrow> list_get_next ph patterns;
     (case pattern of None \<Rightarrow> Some (ob, ph)
      | Some s \<Rightarrow> do {
          sh \<leftarrow> suffix_hash (str_at s) (mp_m ob - 1);
          pfh \<leftarrow> prefix_hash (str_at s) (mp_m ob - 1) (mp_m ob);
          ob \<leftarrow> insert_hash_record ob sh s pfh;
          sft \<leftarrow> insert_shift_record (mp_shift ob) sh 0;
          sft \<leftarrow> hash_substrings sft s (mp_m ob - 1) (mp_m ob) (mp_B ob);
          mpat_init_loop (ob\<lparr>mp_shift := sft\<rparr>) ph patterns }) }"

definition mpat_init :: "mpat \<Rightarrow> (byte list) lheap \<Rightarrow> ptr \<Rightarrow> (bool \<times> mpat \<times> (byte list) lheap) option" where
  "mpat_init ob ph patterns = (if patterns = None then Some (False, ob, ph) else do {
     (ok, ob, ph) \<leftarrow> preprocess_patterns ob ph patterns;
     (if \<not> ok then Some (False, ob, ph) else do {
        (_, ph) \<leftarrow> list_set_iterator ph patterns 0;
        (ob, ph) \<leftarrow> mpat_init_loop ob ph patterns;
        c \<leftarrow> cget (mp_shift ob) (Some 0);
        mn \<leftarrow> rbtree_min (mp_shift ob) (rc_root c);
        mx \<leftarrow> rbtree_max (mp_shift ob) (rc_root c);
        a \<leftarrow> rget (mp_shift ob) mn;
        b \<leftarrow> rget (mp_shift ob) mx;
        Some (True, ob\<lparr>mp_min_key := rb_key a, mp_max_key := rb_key b\<rparr>, ph) }) })"

section \<open>Searching\<close>

definition get_shift :: "mpat \<Rightarrow> int \<Rightarrow> int option" where
  "get_shift ob k = (if mp_min_key ob > k \<or> mp_max_key ob < k then Some (mp_default_shift ob) else do {
     c \<leftarrow> cget (mp_shift ob) (Some 0);
     sr \<leftarrow> rbtree_search (mp_shift ob) (rc_root c) k;
     (if sr \<noteq> None then do { n \<leftarrow> rget (mp_shift ob) sr; rb_data n } else Some (mp_default_shift ob)) })"

definition get_hash_patterns :: "mpat \<Rightarrow> int \<Rightarrow> ptr option" where
  "get_hash_patterns ob k = do {
     c \<leftarrow> cget (mp_hash ob) (Some 0);
     hr \<leftarrow> rbtree_search (mp_hash ob) (rc_root c) k;
     (if hr \<noteq> None then do { n \<leftarrow> rget (mp_hash ob) hr; Some (rb_data n) } else Some None) }"

text \<open>A new record and a reused one hold the same fields afterwards.\<close>

definition record_match :: "(int \<times> int) rbheap \<Rightarrow> int \<Rightarrow> int \<Rightarrow> (int \<times> int) rbheap option" where
  "record_match ml b e = do {
     (node, ml) \<leftarrow> rbtree_insert ml (Some 0) b None True;
     n \<leftarrow> rget ml node;
     (if rb_data n = None then rset ml node (rb_data_update (\<lambda>_. Some (b, e)))
      else do { _ \<leftarrow> rb_data n; rset ml node (rb_data_update (\<lambda>_. Some (b, e))) }) }"

text \<open>\<open>while((*pat_ptr != 0) && *(pat_ptr++) == *(prefix++))\<close>, \<open>pat_ptr\<close> as an index.\<close>

function compare_loop :: "(int \<Rightarrow> int option) \<Rightarrow> byte list \<Rightarrow> int \<Rightarrow> int \<Rightarrow> (int \<times> int) option" where
  "compare_loop rd pattern pat_ptr prefix = (if 0 \<le> pat_ptr \<and> pat_ptr < int (length pattern) then do {
       a \<leftarrow> str_at pattern pat_ptr;
       (if a \<noteq> 0 then do {
          b \<leftarrow> rd prefix;
          (if a = b then compare_loop rd pattern (pat_ptr + 1) (prefix + 1) else Some (pat_ptr + 1, prefix + 1)) }
        else Some (pat_ptr, prefix)) }
     else None)"
  by pat_completeness auto
termination by (relation "measure (\<lambda>(rd, pattern, i, p). nat (int (length pattern) - i))") auto

declare compare_loop.simps [simp del]

text \<open>The loop over the patterns of one suffix hash; \<open>prev\<close> is \<open>prev_pat_ptr\<close>, 0 for \<open>NULL\<close>.\<close>

partial_function (option) candidates_loop ::
    "(int \<Rightarrow> int option) \<Rightarrow> int \<Rightarrow> int \<Rightarrow> ptr \<Rightarrow> mpat \<Rightarrow> int \<Rightarrow> mpat option" where [code]:
  "candidates_loop rd tmp_ptr pfh patterns ob prev = do {
     (hr, lh) \<leftarrow> list_get_next (mp_lists ob) patterns;
     let ob = ob\<lparr>mp_lists := lh\<rparr>;
     (case hr of None \<Rightarrow> Some ob
      | Some k \<Rightarrow> do {
          _ \<leftarrow> ensure (k < length (mp_pps ob));
          let pp = mp_pps ob ! k;
          let subtxt_begin = tmp_ptr - mp_m ob + 1;
          (if pp_key pp = pfh then do {
             (pat_ptr, prefix) \<leftarrow> compare_loop rd (pp_pattern pp) (mp_B ob - 1) (subtxt_begin + mp_B ob - 1);
             z \<leftarrow> str_at (pp_pattern pp) pat_ptr;
             (if z = 0 then do {
                ml \<leftarrow> record_match (mp_match ob) subtxt_begin (prefix - 2);
                candidates_loop rd tmp_ptr pfh patterns (ob\<lparr>mp_match := ml\<rparr>) prev }
              else if mp_base ob k + pat_ptr < prev then Some ob
              else candidates_loop rd tmp_ptr pfh patterns ob (mp_base ob k + pat_ptr)) }
           else candidates_loop rd tmp_ptr pfh patterns ob prev) }) }"

partial_function (option) mpat_search_loop :: "(int \<Rightarrow> int option) \<Rightarrow> int \<Rightarrow> mpat \<Rightarrow> int \<Rightarrow> mpat option" where [code]:
  "mpat_search_loop rd text_end ob p = (if p \<le> text_end then do {
       sh \<leftarrow> suffix_hash rd p;
       shift \<leftarrow> get_shift ob sh;
       (shift, ob) \<leftarrow> (if shift = 0 then do {
            pfh \<leftarrow> prefix_hash rd p (mp_m ob);
            patterns \<leftarrow> get_hash_patterns ob sh;
            (_, lh) \<leftarrow> list_set_iterator (mp_lists ob) patterns 0;
            ob \<leftarrow> candidates_loop rd p pfh patterns (ob\<lparr>mp_lists := lh\<rparr>) 0;
            Some (1, ob) }
          else Some (shift, ob));
       mpat_search_loop rd text_end ob (p + shift) }
     else Some ob)"

definition mpat_search :: "(int \<Rightarrow> int option) \<Rightarrow> mpat option \<Rightarrow> int \<Rightarrow> int \<Rightarrow> mpat option option" where
  "mpat_search rd ob text text_end = (case ob of None \<Rightarrow> Some None | Some o' \<Rightarrow>
     if text = 0 then Some ob
     else if text_end - text < mp_m o' then Some ob
     else map_option Some (mpat_search_loop rd text_end o' (text + mp_m o' - 1)))"

section \<open>Reading and releasing\<close>

definition match_root :: "mpat \<Rightarrow> ptr option" where
  "match_root ob = do { c \<leftarrow> cget (mp_match ob) (Some 0); Some (rc_root c) }"

definition mpat_match_count :: "mpat option \<Rightarrow> int option" where
  "mpat_match_count ob = (case ob of None \<Rightarrow> Some 0 | Some o' \<Rightarrow> do {
     r \<leftarrow> match_root o';
     (if r = None then Some 0 else rbtree_node_count (mp_match o') (Some 0)) })"

definition mpat_next_match :: "mpat option \<Rightarrow> ((int \<times> int) option \<times> mpat option) option" where
  "mpat_next_match ob = (case ob of None \<Rightarrow> Some (None, None) | Some o' \<Rightarrow> do {
     r \<leftarrow> match_root o';
     (if r = None then Some (None, ob) else do {
        cur \<leftarrow> (if mp_cur o' = None then rbtree_min (mp_match o') r else rbtree_successor (mp_match o') (mp_cur o'));
        let o' = o'\<lparr>mp_cur := cur\<rparr>;
        (if cur = None then Some (None, Some o')
         else do { n \<leftarrow> rget (mp_match o') cur; Some (rb_data n, Some o') }) }) })"

definition mpat_clear_matches :: "mpat option \<Rightarrow> mpat option option" where
  "mpat_clear_matches ob = (case ob of None \<Rightarrow> Some None | Some o' \<Rightarrow> do {
     r \<leftarrow> match_root o';
     (if r = None then Some ob else do {
        let o' = o'\<lparr>mp_cur := None\<rparr>;
        ml \<leftarrow> rbtree_clear (mp_match o') (Some 0);
        Some (Some (o'\<lparr>mp_match := ml\<rparr>)) }) })"

text \<open>\<open>free_hash\<close> walks the tree bottom up; when the walk stands on the root and there is a right
  subtree, it goes there, else it ends.\<close>

partial_function (option) free_hash_loop :: "addr rbheap \<Rightarrow> addr lheap \<Rightarrow> ptr \<Rightarrow> ptr \<Rightarrow> (addr rbheap \<times> addr lheap) option" where [code]:
  "free_hash_loop h lh root cur = (if cur = None then Some (h, lh) else do {
     r \<leftarrow> rget h root;
     (stop, cur) \<leftarrow> (if cur = root then
          (if rb_right r \<noteq> None then do { q \<leftarrow> rbtree_min h (rb_right r); Some (False, q) } else Some (True, cur))
        else Some (False, cur));
     (if stop then Some (h, lh) else do {
        n \<leftarrow> rget h cur;
        (if rb_left n = None \<and> rb_right n = None then do {
           let nxt = rb_parent n;
           h \<leftarrow> (if nxt \<noteq> None then do {
                   p \<leftarrow> rget h nxt;
                   (if cur = rb_left p then rset h nxt (rb_left_update (\<lambda>_. None)) else rset h nxt (rb_right_update (\<lambda>_. None))) }
                 else Some h);
           (_, lh) \<leftarrow> list_free lh (rb_data n) True;
           h \<leftarrow> rfree h cur;
           free_hash_loop h lh root nxt }
         else if rb_right n \<noteq> None then do {
           q \<leftarrow> rbtree_min h (rb_right n);
           free_hash_loop h lh root q }
         else free_hash_loop h lh root cur) }) })"

definition free_hash :: "addr rbheap \<Rightarrow> addr lheap \<Rightarrow> (addr rbheap \<times> addr lheap) option" where
  "free_hash h lh = do {
     c \<leftarrow> cget h (Some 0);
     cur \<leftarrow> rbtree_min h (rc_root c);
     (h, lh) \<leftarrow> (if rc_root c \<noteq> None then do {
          r \<leftarrow> rget h (rc_root c);
          cur \<leftarrow> (if cur = rc_root c then rbtree_min h (rb_right r) else Some cur);
          (h, lh) \<leftarrow> free_hash_loop h lh (rc_root c) cur;
          r \<leftarrow> rget h (rc_root c);
          (_, lh) \<leftarrow> list_free lh (rb_data r) True;
          h \<leftarrow> rfree h (rc_root c);
          Some (h, lh) }
        else Some (h, lh));
     Some (h\<lparr>rctrls := (rctrls h)(0 := None)\<rparr>, lh) }"

text \<open>What is left of the four heaps.\<close>

definition mpat_obj_free :: "mpat option \<Rightarrow> (addr rbheap \<times> addr lheap \<times> int rbheap \<times> (int \<times> int) rbheap) option option" where
  "mpat_obj_free ob = (case ob of None \<Rightarrow> Some None | Some o' \<Rightarrow> do {
     (hh, lh) \<leftarrow> free_hash (mp_hash o') (mp_lists o');
     (_, sh) \<leftarrow> rbtree_free (mp_shift o') (Some 0) True;
     (_, ml) \<leftarrow> rbtree_free (mp_match o') (Some 0) True;
     Some (Some (hh, lh, sh, ml)) })"

end
