(* ===== verification/MpatTables.thy ===== *)
theory MpatTables
  imports Mpat SlistIter RbtreeProps
begin

text \<open>
  The tables of the multi-pattern search: what \<open>mpat_init\<close> leaves in the \<open>shift\<close> and \<open>hash\<close> trees.

  The shift table holds, for the hash of two adjacent characters, the smallest distance to the end of
  the window at which some pattern has such a pair (\<open>mintab\<close>); the hash table holds, for the hash
  at the end of the window, the list of the patterns with that hash, in the order in which they
  were given (\<open>hash_rep\<close>).
\<close>

section \<open>Strings\<close>

definition cstr :: "byte list \<Rightarrow> byte list \<Rightarrow> bool" where
  "cstr s w \<longleftrightarrow> (\<exists>r. s = w @ 0 # r) \<and> 0 \<notin> set w"

lemma str_len_cstr: "cstr s w \<Longrightarrow> str_len s = Some (length w)"
proof (induction w arbitrary: s)
  case (Cons b w)
  then obtain r where s: "s = b # w @ 0 # r" "b \<noteq> 0" by (auto simp: cstr_def)
  have "str_len (w @ 0 # r) = Some (length w)" using Cons by (auto simp: cstr_def)
  then show ?case using s by simp
qed (auto simp: cstr_def)

lemma str_at_cstr: "cstr s w \<Longrightarrow> 0 \<le> i \<Longrightarrow> i < int (length w) \<Longrightarrow> str_at s i = Some (sint (w ! nat i))"
  by (auto simp: cstr_def str_at_def nth_append nat_less_iff)

text \<open>The hashes of a pattern: of the pair that ends at index \<open>q\<close>, and of its first two characters.\<close>

definition shash :: "byte list \<Rightarrow> nat \<Rightarrow> int" where
  "shash w q = sint (w ! q) * 32 + sint (w ! (q - 1))"

definition phash :: "byte list \<Rightarrow> int" where
  "phash w = sint (w ! 0) * 256 + sint (w ! 1)"

lemma suffix_hash_cstr: "cstr s w \<Longrightarrow> 1 \<le> q \<Longrightarrow> q < length w \<Longrightarrow> suffix_hash (str_at s) (int q) = Some (shash w q)"
  using str_at_cstr [of s w "int q"] str_at_cstr [of s w "int q - 1"]
  by (simp add: suffix_hash_def shash_def nat_diff_distrib)

lemma prefix_hash_cstr: "cstr s w \<Longrightarrow> 2 \<le> length w \<Longrightarrow> prefix_hash (str_at s) (m - 1) m = Some (phash w)"
  using str_at_cstr [of s w 0] str_at_cstr [of s w 1]
  by (cases "w = []") (simp_all add: prefix_hash_def phash_def)

section \<open>Nodes of the trees\<close>

lemma owns_node: "owns h t T \<Longrightarrow> (a, k, d) \<in> set (inorder T) \<Longrightarrow>
    \<exists>n. rget h (Some a) = Some n \<and> rb_key n = k \<and> rb_data n = d"
proof -
  assume O: "owns h t T" and i: "(a, k, d) \<in> set (inorder T)"
  then have "a \<in> taddrs T" by (force simp: taddrs_inorder)
  then obtain fs c k' d' l r where T: "T = plug fs (N a c k' d' l r)" using plug_at by blast
  have "(a, k', d') \<in> set (inorder T)" by (simp add: T inorder_plug)
  moreover have "distinct (map fst (inorder T))" using O distinct_inorder by (auto simp: owns_def)
  ultimately have "(k', d') = (k, d)" using i eq_key_imp_eq_value by metis
  then show ?thesis using get_owns [of h t fs a c k' d' l r] O T by auto
qed

lemma rb_insert_new:
  assumes H: "rb_holds t h m" and k: "m k = None"
  shows "\<exists>a h' n. rbtree_insert h (Some t) k (Some v) False = Some (Some a, h') \<and> rb_holds t h' (m(k \<mapsto> v)) \<and>
    rget h' (Some a) = Some n \<and> rb_data n = Some v"
proof -
  from H obtain T where T: "rbt h t T E" "rbtree_ok T" "sorted_wrt (<) (tkeys T)" by (auto simp: rb_holds_def)
  then obtain K where K: "rctrls h t = Some K" "rc_root K = rootp T" by (auto simp: rbt_def owns_def)
  have "T \<noteq> E \<longrightarrow> tcolor T = BLACK" using T(2) by (simp add: rbtree_ok_def)
  from rbtree_insert_rep [OF T(1) this K(1), of k "Some v" False] obtain x h' P' where
    r: "rbtree_insert h (Some t) k (Some v) False = Some (Some x, h')" "rbt h' t (tinsert (<) x k (Some v) T) P'" by blast
  have "sorted (map (fst \<circ> snd) (inorder T))" using T(3) by (simp add: tkeys_def strict_sorted_iff)
  then have i: "(x, k, Some v) \<in> set (inorder (tinsert (<) x k (Some v) T))" by (simp add: inorder_tinsert)
  have "owns h' t (tinsert (<) x k (Some v) T)" using r(2) by (simp add: rbt_def)
  from owns_node [OF this i] obtain n where n: "rget h' (Some x) = Some n" "rb_data n = Some v" by blast
  have f: "rb_find t k h = Some None" using rb_find_holds [OF H] k by simp
  have "rbtree_search h (rc_root K) k = Some None"
    using f K by (auto simp: rb_find_def cget_def split: option.splits Option.bind_splits)
  then have "rb_put t k v h = Some h'" using r(1) K by (simp add: rb_put_def cget_def)
  then have "rb_holds t h' (m(k \<mapsto> v))" using rb_put_holds [OF H, of k v] by simp
  then show ?thesis using r(1) n by blast
qed

lemma rb_search_holds:
  assumes H: "rb_holds t h m"
  shows "\<exists>K r. cget h (Some t) = Some K \<and> rbtree_search h (rc_root K) k = Some r \<and>
    (case m k of None \<Rightarrow> r = None | Some v \<Rightarrow> \<exists>a n. r = Some a \<and> rget h (Some a) = Some n \<and> rb_data n = Some v)"
proof -
  from H obtain T where "rbt h t T E" by (auto simp: rb_holds_def)
  then obtain K where K: "rctrls h t = Some K" by (auto simp: rbt_def owns_def)
  have "rb_find t k h = Some (m k)" by (rule rb_find_holds [OF H])
  then show ?thesis using K
    by (auto simp: rb_find_def cget_def rget_def split: option.splits Option.bind_splits)
qed

lemma rb_extremes:
  assumes H: "rb_holds t h m" and ne: "m k0 \<noteq> None"
  shows "\<exists>K a b na nb. cget h (Some t) = Some K \<and> rbtree_min h (rc_root K) = Some (Some a) \<and> rget h (Some a) = Some na \<and>
    rbtree_max h (rc_root K) = Some (Some b) \<and> rget h (Some b) = Some nb \<and>
    (\<forall>k. m k \<noteq> None \<longrightarrow> rb_key na \<le> k \<and> k \<le> rb_key nb)"
proof -
  from H obtain T where T: "rbt h t T E" "sorted_wrt (<) (tkeys T)" "m = tmap T" by (auto simp: rb_holds_def)
  then have O: "owns h t T" by (simp add: rbt_def)
  then obtain K where K: "rctrls h t = Some K" "rc_root K = rootp T" "tree (rnodes h) (Some t) None T" by (auto simp: owns_def)
  have "T \<noteq> E" using ne T(3) by (auto simp: tmap_def)
  then obtain e es where es: "inorder T = e # es" by (cases "inorder T") auto
  obtain fs f where fs: "inorder T = fs @ [f]" using es by (metis append_butlast_last_id list.distinct(1))
  obtain a ka da where e: "e = (a, ka, da)" by (metis prod_cases3)
  obtain b kb db where f: "f = (b, kb, db)" by (metis prod_cases3)
  obtain na where na: "rget h (Some a) = Some na" "rb_key na = ka" using owns_node [OF O, of a ka da] es e by auto
  obtain nb where nb: "rget h (Some b) = Some nb" "rb_key nb = kb" using owns_node [OF O, of b kb db] fs f by auto
  have s: "sorted (tkeys T)" using T(2) by (simp add: strict_sorted_iff)
  have k1: "\<forall>x \<in> set (tkeys T). ka \<le> x" using s es e by (auto simp: tkeys_def)
  have k2: "\<forall>x \<in> set (tkeys T). x \<le> kb" using s fs f by (auto simp: tkeys_def sorted_append)
  have "k \<in> set (tkeys T)" if "m k \<noteq> None" for k
    using that T(3) by (auto simp: tmap_def tkeys_def split: option.splits dest!: map_of_SomeD) force
  moreover have "rbtree_min h (rc_root K) = Some (Some a)" using rbtree_min_tree [OF K(3)] K(2) es e by simp
  moreover have "rbtree_max h (rc_root K) = Some (Some b)" using rbtree_max_tree [OF K(3)] K(2) fs f by simp
  ultimately show ?thesis using K(1) na nb k1 k2 by (simp add: cget_def)
qed

section \<open>The shift table\<close>

definition upd_min :: "(int \<Rightarrow> int option) \<Rightarrow> int \<Rightarrow> int \<Rightarrow> int \<Rightarrow> int option" where
  "upd_min sm k v = sm(k \<mapsto> (case sm k of None \<Rightarrow> v | Some u \<Rightarrow> if u > v then v else u))"

text \<open>The smallest value of each key of a relation.\<close>

definition mintab :: "(int \<times> int) set \<Rightarrow> (int \<Rightarrow> int option) \<Rightarrow> bool" where
  "mintab A sm \<longleftrightarrow> (\<forall>k. (sm k = None \<longleftrightarrow> (\<forall>v. (k, v) \<notin> A)) \<and>
     (\<forall>s. sm k = Some s \<longrightarrow> (k, s) \<in> A \<and> (\<forall>v. (k, v) \<in> A \<longrightarrow> s \<le> v)))"

lemma mintab_upd: "mintab A sm \<Longrightarrow> mintab (insert (k, v) A) (upd_min sm k v)"
  unfolding mintab_def
proof (intro allI)
  fix j
  assume A: "\<forall>k. (sm k = None \<longleftrightarrow> (\<forall>v. (k, v) \<notin> A)) \<and> (\<forall>s. sm k = Some s \<longrightarrow> (k, s) \<in> A \<and> (\<forall>v. (k, v) \<in> A \<longrightarrow> s \<le> v))"
  show "(upd_min sm k v j = None \<longleftrightarrow> (\<forall>u. (j, u) \<notin> insert (k, v) A)) \<and>
      (\<forall>s. upd_min sm k v j = Some s \<longrightarrow> (j, s) \<in> insert (k, v) A \<and> (\<forall>u. (j, u) \<in> insert (k, v) A \<longrightarrow> s \<le> u))"
  proof (cases "j = k")
    case True
    then show ?thesis using spec [OF A, of k] by (cases "sm k") (auto simp: upd_min_def)
  next
    case False
    then show ?thesis using spec [OF A, of j] by (simp add: upd_min_def)
  qed
qed

lemma insert_shift_record_holds:
  assumes H: "rb_holds 0 s sm"
  shows "\<exists>s'. insert_shift_record s k v = Some s' \<and> rb_holds 0 s' (upd_min sm k v)"
proof -
  obtain K r where K: "cget s (Some 0) = Some K" "rbtree_search s (rc_root K) k = Some r"
    "case sm k of None \<Rightarrow> r = None | Some v \<Rightarrow> \<exists>a n. r = Some a \<and> rget s (Some a) = Some n \<and> rb_data n = Some v"
    using rb_search_holds [OF H, of k] by blast
  show ?thesis
  proof (cases "sm k")
    case None
    then obtain a h' where "rbtree_insert s (Some 0) k (Some v) False = Some (Some a, h')" "rb_holds 0 h' (sm(k \<mapsto> v))"
      using rb_insert_new [OF H] by blast
    then show ?thesis using None K by (simp add: insert_shift_record_def upd_min_def)
  next
    case (Some u)
    with K(3) obtain a n where n: "r = Some a" "rget s (Some a) = Some n" "rb_data n = Some u" by auto
    obtain s' where s': "rb_put 0 k v s = Some s'" "rb_holds 0 s' (sm(k \<mapsto> v))" using rb_put_holds [OF H] by blast
    then have "rset s r (rb_data_update (\<lambda>_. Some v)) = Some s'" using K n by (simp add: rb_put_def)
    moreover have "sm(k \<mapsto> u) = sm" using Some by auto
    ultimately show ?thesis using H s' Some K n by (simp add: insert_shift_record_def upd_min_def)
  qed
qed

definition shift_pairs :: "nat \<Rightarrow> nat \<Rightarrow> byte list \<Rightarrow> (int \<times> int) set" where
  "shift_pairs m j w = {(shash w q, int m - 1 - int q) | q. 1 \<le> q \<and> q \<le> j}"

lemma shift_pairs_Suc: "shift_pairs m (Suc j) w = insert (shash w (Suc j), int m - 1 - int (Suc j)) (shift_pairs m j w)"
  by (auto simp: shift_pairs_def le_Suc_eq)

lemma shift_pairs_0: "shift_pairs m 0 w = {}"
  by (auto simp: shift_pairs_def)

lemma hash_substrings_loop_holds:
  assumes c: "cstr p w" and j: "j < length w"
  shows "rb_holds 0 s sm \<Longrightarrow> mintab A sm \<Longrightarrow>
    \<exists>s' sm'. hash_substrings_loop s p (int m - 1) (int m) (int j) = Some s' \<and> rb_holds 0 s' sm' \<and> mintab (A \<union> shift_pairs m j w) sm'"
  using j
proof (induction j arbitrary: s sm A)
  case 0
  then show ?case by (subst hash_substrings_loop.simps) (auto simp: shift_pairs_0)
next
  case (Suc j)
  obtain s1 where s1: "insert_shift_record s (shash w (Suc j)) (int m - 1 - int (Suc j)) = Some s1"
    "rb_holds 0 s1 (upd_min sm (shash w (Suc j)) (int m - 1 - int (Suc j)))"
    using insert_shift_record_holds [OF Suc.prems(1)] by blast
  have "suffix_hash (str_at p) (int (Suc j)) = Some (shash w (Suc j))" using suffix_hash_cstr [OF c, of "Suc j"] Suc.prems(3) by simp
  then have run: "hash_substrings_loop s p (int m - 1) (int m) (int (Suc j)) = hash_substrings_loop s1 p (int m - 1) (int m) (int j)"
    using s1 by (subst hash_substrings_loop.simps) (simp add: algebra_simps)
  have "mintab (insert (shash w (Suc j), int m - 1 - int (Suc j)) A) (upd_min sm (shash w (Suc j)) (int m - 1 - int (Suc j)))"
    by (rule mintab_upd [OF Suc.prems(2)])
  from Suc.IH [OF s1(2) this] Suc.prems(3) run show ?case by (simp add: shift_pairs_Suc)
qed

section \<open>The hash table\<close>

definition hash_idxs :: "nat \<Rightarrow> byte list list \<Rightarrow> int \<Rightarrow> nat list" where
  "hash_idxs m ws k = filter (\<lambda>i. shash (ws ! i) (m - 1) = k) [0..<length ws]"

lemma hash_idxs_snoc: "hash_idxs m (ws @ [w]) k = hash_idxs m ws k @ (if shash w (m - 1) = k then [length ws] else [])"
proof -
  have "filter (\<lambda>i. shash ((ws @ [w]) ! i) (m - 1) = k) [0..<length ws] = filter (\<lambda>i. shash (ws ! i) (m - 1) = k) [0..<length ws]"
    by (rule filter_cong) (auto simp: nth_append)
  then show ?thesis by (simp add: hash_idxs_def)
qed

definition pp_of :: "byte list \<Rightarrow> prefix_pattern" where
  "pp_of w = \<lparr>pp_key = phash w, pp_pattern = w @ [0]\<rparr>"

definition bucket_lists :: "(int \<Rightarrow> addr option) \<Rightarrow> nat lview \<Rightarrow> (int \<Rightarrow> nat list) \<Rightarrow> bool" where
  "bucket_lists hm V f \<longleftrightarrow> (\<forall>k. hm k = None \<longrightarrow> f k = []) \<and>
     (\<forall>k l. hm k = Some l \<longrightarrow> (\<exists>n. V l = Some (map Some (f k), n))) \<and>
     (\<forall>k j l. hm k = Some l \<longrightarrow> hm j = Some l \<longrightarrow> k = j)"

lemma bucket_None: "bucket_lists hm V f \<Longrightarrow> hm k = None \<Longrightarrow> f k = []"
  by (simp add: bucket_lists_def)

lemma bucket_Some: "bucket_lists hm V f \<Longrightarrow> hm k = Some l \<Longrightarrow> \<exists>n. V l = Some (map Some (f k), n)"
  by (simp add: bucket_lists_def)

definition hash_rep :: "nat \<Rightarrow> mpat \<Rightarrow> byte list list \<Rightarrow> bool" where
  "hash_rep m ob ws \<longleftrightarrow> (\<exists>hm V. rb_holds 0 (mp_hash ob) hm \<and> view (mp_lists ob) V \<and> bucket_lists hm V (hash_idxs m ws)) \<and>
     mp_pps ob = map pp_of ws"

lemma insert_hash_record_rep:
  assumes H: "hash_rep m ob ws" and c: "cstr p w"
  shows "\<exists>ob'. insert_hash_record ob (shash w (m - 1)) p (phash w) = Some ob' \<and> hash_rep m ob' (ws @ [w]) \<and>
    (\<exists>th lh pps. ob' = ob\<lparr>mp_hash := th, mp_lists := lh, mp_pps := pps\<rparr>)"
proof -
  let ?k = "shash w (m - 1)"
  from H obtain hm V where R: "rb_holds 0 (mp_hash ob) hm" "view (mp_lists ob) V" "bucket_lists hm V (hash_idxs m ws)"
    and pps: "mp_pps ob = map pp_of ws" by (auto simp: hash_rep_def)
  obtain K r where K: "cget (mp_hash ob) (Some 0) = Some K" "rbtree_search (mp_hash ob) (rc_root K) ?k = Some r"
    "case hm ?k of None \<Rightarrow> r = None | Some v \<Rightarrow> \<exists>a n. r = Some a \<and> rget (mp_hash ob) (Some a) = Some n \<and> rb_data n = Some v"
    using rb_search_holds [OF R(1), of ?k] by blast
  have len: "str_len p = Some (length w)" using str_len_cstr [OF c] .
  have tk: "take (length w) p = w" using c by (auto simp: cstr_def)
  have new: "\<lparr>pp_key = phash w, pp_pattern = take (length w) p @ [0]\<rparr> = pp_of w" by (simp add: pp_of_def tk)
  obtain hr th lh hm' V' l n where st: "(if r = None then do {
          let (pattern_list, lh) = new_list (mp_lists ob);
          (hr, th) \<leftarrow> rbtree_insert (mp_hash ob) (Some 0) ?k (Some pattern_list) False;
          Some (hr, ob\<lparr>mp_hash := th, mp_lists := lh\<rparr>) }
        else Some (r, ob)) = Some (hr, ob\<lparr>mp_hash := th, mp_lists := lh\<rparr>)"
    "rb_holds 0 th hm'" "view lh V'" "bucket_lists hm' V' (hash_idxs m ws)" "hm' ?k = Some l"
    "\<exists>nd. rget th hr = Some nd \<and> rb_data nd = Some l" "V' l = Some (map Some (hash_idxs m ws ?k), n)"
  proof (cases "hm ?k")
    case None
    obtain q lh where q: "new_list (mp_lists ob) = (q, lh)" "view lh (V(q \<mapsto> ([], 0)))" "V q = None"
      using new_list_view [OF R(2)] by blast
    obtain a th nd where a: "rbtree_insert (mp_hash ob) (Some 0) ?k (Some q) False = Some (Some a, th)"
      "rb_holds 0 th (hm(?k \<mapsto> q))" "rget th (Some a) = Some nd" "rb_data nd = Some q"
      using rb_insert_new [OF R(1) None] by blast
    have nq: "hm k \<noteq> Some q" for k using bucket_Some [OF R(3), of k q] q(3) by auto
    have e: "hash_idxs m ws ?k = []" by (rule bucket_None [OF R(3) None])
    have "bucket_lists (hm(?k \<mapsto> q)) (V(q \<mapsto> ([], 0))) (hash_idxs m ws)"
      using R(3) nq e by (auto simp: bucket_lists_def)
    with q a e None K(3) show ?thesis by (intro that [of "Some a" lh th "hm(?k \<mapsto> q)" "V(q \<mapsto> ([], 0))" q 0]) auto
  next
    case (Some l)
    then obtain n where "V l = Some (map Some (hash_idxs m ws ?k), n)" using bucket_Some [OF R(3)] by blast
    with Some R K(3) show ?thesis by (intro that [of r "mp_lists ob" "mp_hash ob" hm V l n]) auto
  qed
  from st(6) obtain nd where nd: "rget th hr = Some nd" "rb_data nd = Some l" by blast
  from list_append_view [OF st(3,7), of "Some (length ws)"] obtain lh' where
    lh': "list_append lh (Some l) (Some (length ws)) = Some (int (length (map Some (hash_idxs m ws ?k))), lh')"
    "view lh' (V'(l \<mapsto> (map Some (hash_idxs m ws ?k) @ [Some (length ws)], n - 1)))" by blast
  define ob' where "ob' = ob\<lparr>mp_hash := th, mp_lists := lh', mp_pps := map pp_of (ws @ [w])\<rparr>"
  have run: "insert_hash_record ob ?k p (phash w) = Some ob'"
    unfolding insert_hash_record_def len option.simps bind.bind_lunit K(1, 2) st(1)
    using nd lh'(1) pps new by (simp add: ob'_def Let_def)
  have "bucket_lists hm' (V'(l \<mapsto> (map Some (hash_idxs m ws ?k) @ [Some (length ws)], n - 1))) (hash_idxs m (ws @ [w]))"
    unfolding bucket_lists_def
  proof (intro conjI allI)
    show "hm' k = None \<longrightarrow> hash_idxs m (ws @ [w]) k = []" for k
      using st(5) bucket_None [OF st(4), of k] by (auto simp: hash_idxs_snoc)
    show "hm' k = Some l' \<longrightarrow> (\<exists>n'. (V'(l \<mapsto> (map Some (hash_idxs m ws ?k) @ [Some (length ws)], n - 1))) l' =
        Some (map Some (hash_idxs m (ws @ [w]) k), n'))" for k l'
      using st(4, 5) bucket_Some [OF st(4), of k l'] by (cases "k = ?k") (auto simp: bucket_lists_def hash_idxs_snoc)
  qed (use st(4) in \<open>auto simp: bucket_lists_def\<close>)
  then have "hash_rep m ob' (ws @ [w])" using st(2) lh'(2) by (auto simp: hash_rep_def ob'_def)
  then show ?thesis using run ob'_def by blast
qed

section \<open>Initialisation\<close>

text \<open>The list of patterns: strings, none longer than an \<open>int\<close> can count.\<close>

definition pattern_list :: "(byte list) lheap \<Rightarrow> addr \<Rightarrow> byte list list \<Rightarrow> bool" where
  "pattern_list ph p ws \<longleftrightarrow> (\<exists>P strs n. view ph P \<and> P p = Some (map Some strs, n) \<and> list_all2 cstr strs ws)"

definition min_len :: "byte list list \<Rightarrow> nat" where
  "min_len ws = Min (length ` set ws)"

lemma min_len_le: "w \<in> set ws \<Longrightarrow> min_len ws \<le> length w"
  by (simp add: min_len_def)

lemma min_len_loop_eval:
  assumes "view ph P" "P p = Some (map Some strs, n)" "list_all2 cstr strs ws" "cursor_at ph p i" "i \<le> length ws"
  shows "\<exists>ph'. min_len_loop ph (Some p) m = Some (fold (\<lambda>w m. if int (length w) < m then int (length w) else m) (drop i ws) m, ph') \<and> view ph' P"
  using assms
proof (induction "length ws - i" arbitrary: i ph m)
  case 0
  then have "i = length (map Some strs)" by (simp add: list_all2_lengthD)
  with 0 list_get_next_end [OF 0(2, 3)] show ?case
    by (subst min_len_loop.simps) (simp add: list_all2_lengthD)
next
  case (Suc d)
  then have i: "i < length strs" "i < length ws" by (auto simp: list_all2_lengthD)
  obtain ph1 where g: "list_get_next ph (Some p) = Some (Some (strs ! i), ph1)" "view ph1 P" "cursor_at ph1 p (Suc i)"
    using list_get_next_rep [OF Suc(3, 4, 6)] i by auto
  have c: "cstr (strs ! i) (ws ! i)" using Suc(5) i list_all2_nthD by blast
  have d: "drop i ws = ws ! i # drop (Suc i) ws" using i by (simp add: Cons_nth_drop_Suc)
  have "d = length ws - Suc i" "Suc i \<le> length ws" using Suc(2) i by auto
  from Suc(1) [OF this(1) g(2) Suc(4, 5) g(3) this(2), of "if int (length (ws ! i)) < m then int (length (ws ! i)) else m"]
  show ?case using g(1) str_len_cstr [OF c] d by (subst min_len_loop.simps) (auto simp: Let_def)
qed

lemma fold_min: "fold (\<lambda>w m. if int (length w) < m then int (length w) else m) ws m = Min (insert m ((\<lambda>w. int (length w)) ` set ws))"
proof (induction ws arbitrary: m)
  case (Cons w ws)
  have "Min (insert m (insert (int (length w)) ((\<lambda>w. int (length w)) ` set ws))) =
      Min (insert (min (int (length w)) m) ((\<lambda>w. int (length w)) ` set ws))"
    by (cases "ws = []") (auto simp: min_def Min_insert2 intro!: antisym)
  then show ?case using Cons by (auto simp: min_def)
qed simp

lemma min_len_int: "ws \<noteq> [] \<Longrightarrow> Min ((\<lambda>w. int (length w)) ` set ws) = int (min_len ws)"
  unfolding min_len_def by (subst mono_Min_commute [of int]) (auto simp: mono_def image_image)

lemma preprocess_patterns_eval:
  assumes pl: "pattern_list ph p ws" and ne: "ws \<noteq> []" and len: "int (min_len ws) < 2 ^ 31"
  shows "\<exists>ph'. preprocess_patterns ob ph (Some p) = Some (3 \<le> min_len ws,
      if 3 \<le> min_len ws then ob\<lparr>mp_m := int (min_len ws), mp_B := 2, mp_default_shift := int (min_len ws) - 1\<rparr> else ob, ph') \<and>
    pattern_list ph' p ws"
proof -
  from pl obtain P strs n where P: "view ph P" "P p = Some (map Some strs, n)" "list_all2 cstr strs ws"
    by (auto simp: pattern_list_def)
  have "strs \<noteq> []" using P(3) ne by auto
  then obtain ph1 where s: "list_set_iterator ph (Some p) 0 = Some (1, ph1)" "view ph1 P" "cursor_at ph1 p 0"
    using list_set_iterator_0 [OF P(1, 2)] by auto
  obtain ph2 where l: "min_len_loop ph1 (Some p) (2 ^ 64 - 1) = Some (int (min_len ws), ph2)" "view ph2 P"
  proof -
    obtain ph2 where l: "min_len_loop ph1 (Some p) (2 ^ 64 - 1) =
        Some (fold (\<lambda>w m. if int (length w) < m then int (length w) else m) ws (2 ^ 64 - 1), ph2)" "view ph2 P"
      using min_len_loop_eval [OF s(2) P(2, 3) s(3), of "2 ^ 64 - 1"] by auto
    have "Min (insert (2 ^ 64 - 1) ((\<lambda>w. int (length w)) ` set ws)) = min (2 ^ 64 - 1) (int (min_len ws))"
      using ne min_len_int [OF ne] by simp
    also have "\<dots> = int (min_len ws)" using len by simp
    finally show ?thesis using that l fold_min by metis
  qed
  have sg: "signed_take_bit 31 (int (min_len ws)) = int (min_len ws)"
    using len by (intro signed_take_bit_int_eq_self) auto
  have "pattern_list ph2 p ws" using l(2) P(2, 3) by (auto simp: pattern_list_def)
  then show ?thesis using s(1) l(1) sg by (simp add: preprocess_patterns_def Let_def)
qed

definition tables_rep :: "nat \<Rightarrow> mpat \<Rightarrow> byte list list \<Rightarrow> bool" where
  "tables_rep m ob ws \<longleftrightarrow> mp_m ob = int m \<and> mp_B ob = 2 \<and> mp_default_shift ob = int m - 1 \<and> hash_rep m ob ws \<and>
     (\<exists>sm. rb_holds 0 (mp_shift ob) sm \<and> mintab (\<Union>w \<in> set ws. shift_pairs m (m - 1) w) sm)"

lemma mpat_init_loop_eval:
  assumes "view ph P" "P p = Some (map Some strs, n)" "list_all2 cstr strs ws" "cursor_at ph p i" "i \<le> length ws"
    "tables_rep m ob (take i ws)" "2 \<le> m" "\<forall>w \<in> set ws. m \<le> length w"
  shows "\<exists>ob' ph' th lh pps sh. mpat_init_loop ob ph (Some p) = Some (ob', ph') \<and> view ph' P \<and> tables_rep m ob' ws \<and>
    ob' = ob\<lparr>mp_hash := th, mp_lists := lh, mp_pps := pps, mp_shift := sh\<rparr>"
  using assms
proof (induction "length ws - i" arbitrary: i ph ob)
  case 0
  then have "i = length (map Some strs)" "take i ws = ws" by (auto simp: list_all2_lengthD)
  with 0 list_get_next_end [OF 0(2, 3)] show ?case
    by (subst mpat_init_loop.simps)
      (auto simp: list_all2_lengthD intro!: exI [of _ "mp_hash ob"] exI [of _ "mp_lists ob"] exI [of _ "mp_pps ob"] exI [of _ "mp_shift ob"])
next
  case (Suc d)
  then have i: "i < length strs" "i < length ws" by (auto simp: list_all2_lengthD)
  let ?w = "ws ! i" and ?s = "strs ! i"
  obtain ph1 where g: "list_get_next ph (Some p) = Some (Some ?s, ph1)" "view ph1 P" "cursor_at ph1 p (Suc i)"
    using list_get_next_rep [OF Suc(3, 4, 6)] i by auto
  have c: "cstr ?s ?w" using Suc(5) i list_all2_nthD by blast
  have tk: "take (Suc i) ws = take i ws @ [?w]" using i by (simp add: take_Suc_conv_app_nth)
  have m: "2 \<le> m" "m \<le> length ?w" using Suc(9, 10) i by auto
  from Suc(8) obtain sm where t: "mp_m ob = int m" "mp_B ob = 2" "mp_default_shift ob = int m - 1" "hash_rep m ob (take i ws)"
    "rb_holds 0 (mp_shift ob) sm" "mintab (\<Union>w \<in> set (take i ws). shift_pairs m (m - 1) w) sm" by (auto simp: tables_rep_def)
  obtain ob1 th lh pps where ob1: "insert_hash_record ob (shash ?w (m - 1)) ?s (phash ?w) = Some ob1"
    "hash_rep m ob1 (take (Suc i) ws)" "ob1 = ob\<lparr>mp_hash := th, mp_lists := lh, mp_pps := pps\<rparr>"
    using insert_hash_record_rep [OF t(4) c] tk by auto
  obtain s1 where s1: "insert_shift_record (mp_shift ob) (shash ?w (m - 1)) 0 = Some s1" "rb_holds 0 s1 (upd_min sm (shash ?w (m - 1)) 0)"
    using insert_shift_record_holds [OF t(5)] by blast
  obtain s2 sm2 where s2: "hash_substrings_loop s1 ?s (int m - 1) (int m) (int (m - 2)) = Some s2" "rb_holds 0 s2 sm2"
    "mintab (insert (shash ?w (m - 1), 0) (\<Union>w \<in> set (take i ws). shift_pairs m (m - 1) w) \<union> shift_pairs m (m - 2) ?w) sm2"
  proof -
    have "m - 2 < length ?w" using m by simp
    from hash_substrings_loop_holds [where m = m, OF c this s1(2) mintab_upd [OF t(6)]] that show ?thesis by blast
  qed
  have e: "Suc (m - 2) = m - 1" "int m - 1 - int (m - 1) = 0" using m by auto
  have "insert (shash ?w (m - 1), 0) (\<Union>w \<in> set (take i ws). shift_pairs m (m - 1) w) \<union> shift_pairs m (m - 2) ?w =
      (\<Union>w \<in> set (take (Suc i) ws). shift_pairs m (m - 1) w)"
    using shift_pairs_Suc [of m "m - 2" ?w] unfolding e tk by auto
  then have mt: "mintab (\<Union>w \<in> set (take (Suc i) ws). shift_pairs m (m - 1) w) sm2" using s2(3) by simp
  define ob2 where "ob2 = ob1\<lparr>mp_shift := s2\<rparr>"
  have tr: "tables_rep m ob2 (take (Suc i) ws)"
    using t(1-3) ob1(2) mt s2(2) by (auto simp: tables_rep_def ob2_def ob1(3) hash_rep_def)
  have h1: "suffix_hash (str_at ?s) (int m - 1) = Some (shash ?w (m - 1))"
    using suffix_hash_cstr [OF c, of "m - 1"] m by (simp add: of_nat_diff)
  have h2: "prefix_hash (str_at ?s) (int m - 1) (int m) = Some (phash ?w)" using prefix_hash_cstr [OF c] m by simp
  have h3: "hash_substrings s1 ?s (int m - 1) (int m) 2 = Some s2" using s2(1) m by (simp add: hash_substrings_def of_nat_diff)
  have run: "mpat_init_loop ob ph (Some p) = mpat_init_loop ob2 ph1 (Some p)"
    using g(1) t(1, 2) h1 h2 h3 ob1(1) s1(1) by (subst mpat_init_loop.simps) (simp add: ob2_def ob1(3))
  have "d = length ws - Suc i" "Suc i \<le> length ws" using Suc(2) i by auto
  from Suc(1) [OF this(1) g(2) Suc(4, 5) g(3) this(2) tr Suc(9, 10)] run show ?case
    by (auto simp: ob2_def ob1(3))
qed

text \<open>The state after initialisation.\<close>

definition mpat_ready :: "nat \<Rightarrow> mpat \<Rightarrow> byte list list \<Rightarrow> bool" where
  "mpat_ready m ob ws \<longleftrightarrow> mp_m ob = int m \<and> mp_B ob = 2 \<and> mp_default_shift ob = int m - 1 \<and> hash_rep m ob ws \<and>
     (\<exists>sm. rb_holds 0 (mp_shift ob) sm \<and> mintab (\<Union>w \<in> set ws. shift_pairs m (m - 1) w) sm \<and>
        (\<forall>k. sm k \<noteq> None \<longrightarrow> mp_min_key ob \<le> k \<and> k \<le> mp_max_key ob))"

lemma new_rb_holds: "rb_holds 0 (snd (new_rbtree empty_rbheap)) (\<lambda>_. None)"
  using new_rbtree_holds by (metis snd_conv)

lemma new_mpat_tables: "tables_rep m (new_mpat base\<lparr>mp_m := int m, mp_B := 2, mp_default_shift := int m - 1\<rparr>) []"
proof -
  have "view empty_lheap (\<lambda>_. None)"
    by (auto simp: view_def store_rep_def heap_ok_def empty_lheap_def intro!: exI [of _ "\<lambda>_. None"])
  then show ?thesis
    by (auto simp: tables_rep_def hash_rep_def new_mpat_def mintab_def bucket_lists_def hash_idxs_def new_rb_holds
        intro!: exI [of _ "\<lambda>_. None"])
qed

lemma mpat_init_ready:
  assumes pl: "pattern_list ph p ws" and ne: "ws \<noteq> []" and len: "int (min_len ws) < 2 ^ 31"
  shows "\<exists>ob ph'. mpat_init (new_mpat base) ph (Some p) = Some (3 \<le> min_len ws, ob, ph') \<and> pattern_list ph' p ws \<and>
    mp_match ob = mp_match (new_mpat base) \<and> mp_base ob = base \<and> mp_cur ob = None \<and>
    (3 \<le> min_len ws \<longrightarrow> mpat_ready (min_len ws) ob ws)"
proof -
  let ?m = "min_len ws" and ?ob = "new_mpat base"
  obtain ph1 where pp: "preprocess_patterns ?ob ph (Some p) = Some (3 \<le> ?m,
      if 3 \<le> ?m then ?ob\<lparr>mp_m := int ?m, mp_B := 2, mp_default_shift := int ?m - 1\<rparr> else ?ob, ph1)" "pattern_list ph1 p ws"
    using preprocess_patterns_eval [OF assms] by blast
  show ?thesis
  proof (cases "3 \<le> ?m")
    case False
    then show ?thesis using pp by (auto simp: mpat_init_def new_mpat_def)
  next
    case True
    define ob0 where "ob0 = ?ob\<lparr>mp_m := int ?m, mp_B := 2, mp_default_shift := int ?m - 1\<rparr>"
    from pp(2) obtain P strs n where P: "view ph1 P" "P p = Some (map Some strs, n)" "list_all2 cstr strs ws"
      by (auto simp: pattern_list_def)
    have "strs \<noteq> []" using P(3) ne by auto
    then obtain ph2 where s: "list_set_iterator ph1 (Some p) 0 = Some (1, ph2)" "view ph2 P" "cursor_at ph2 p 0"
      using list_set_iterator_0 [OF P(1, 2)] by auto
    have t0: "tables_rep ?m ob0 (take 0 ws)" using new_mpat_tables by (simp add: ob0_def)
    obtain ob1 ph3 th lh pps sh where l: "mpat_init_loop ob0 ph2 (Some p) = Some (ob1, ph3)" "view ph3 P" "tables_rep ?m ob1 ws"
      "ob1 = ob0\<lparr>mp_hash := th, mp_lists := lh, mp_pps := pps, mp_shift := sh\<rparr>"
      using mpat_init_loop_eval [OF s(2) P(2, 3) s(3) _ t0] True min_len_le by auto
    from l(3) obtain sm where sm: "rb_holds 0 (mp_shift ob1) sm" "mintab (\<Union>w \<in> set ws. shift_pairs ?m (?m - 1) w) sm"
      by (auto simp: tables_rep_def)
    have "(shash (hd ws) 1, int ?m - 1 - int 1) \<in> shift_pairs ?m (?m - 1) (hd ws)"
      using True unfolding shift_pairs_def by (intro CollectI exI [of _ 1]) auto
    then have "sm (shash (hd ws) 1) \<noteq> None"
      using sm(2) ne unfolding mintab_def by (metis UN_I list.set_sel(1))
    from rb_extremes [OF sm(1) this] obtain K a b na nb where x: "cget (mp_shift ob1) (Some 0) = Some K"
      "rbtree_min (mp_shift ob1) (rc_root K) = Some (Some a)" "rget (mp_shift ob1) (Some a) = Some na"
      "rbtree_max (mp_shift ob1) (rc_root K) = Some (Some b)" "rget (mp_shift ob1) (Some b) = Some nb"
      "\<forall>k. sm k \<noteq> None \<longrightarrow> rb_key na \<le> k \<and> k \<le> rb_key nb" by blast
    define ob2 where "ob2 = ob1\<lparr>mp_min_key := rb_key na, mp_max_key := rb_key nb\<rparr>"
    have "mpat_init ?ob ph (Some p) = Some (True, ob2, ph3)"
      using pp(1) True s(1) l(1) x(1-5) by (simp add: mpat_init_def ob0_def [symmetric] ob2_def)
    moreover have "mpat_ready ?m ob2 ws"
      using l(3) sm x(6) by (auto simp: mpat_ready_def tables_rep_def ob2_def hash_rep_def)
    moreover have "pattern_list ph3 p ws" using l(2) P(2, 3) by (auto simp: pattern_list_def)
    ultimately show ?thesis using True by (simp add: ob2_def l(4) ob0_def new_mpat_def)
  qed
qed

end
