(* ===== verification/MpatSearch.thy ===== *)
theory MpatSearch
  imports MpatTables
begin

text \<open>
  The multi-pattern search proper: the list of matches, the comparison with the patterns of a bucket,
  and the loop over the text.
\<close>

section \<open>The list of matches\<close>

text \<open>The tree of matches as the sequence of its records: sorted by the start, later records of one start first.\<close>

definition match_tab :: "(int \<times> int) rbheap \<Rightarrow> (int \<times> int) list \<Rightarrow> bool" where
  "match_tab ml es \<longleftrightarrow> (\<exists>T P. rb_tree ml 0 T P \<and> map snd (inorder T) = map (\<lambda>(b, e). (b, Some (b, e))) es)"

definition insert_match :: "int \<times> int \<Rightarrow> (int \<times> int) list \<Rightarrow> (int \<times> int) list" where
  "insert_match x es = takeWhile (\<lambda>y. fst y < fst x) es @ x # dropWhile (\<lambda>y. fst y < fst x) es"

lemma takeWhile_via: "map f xs = map g ys \<Longrightarrow> (\<And>x. P x \<longleftrightarrow> P' (f x)) \<Longrightarrow> (\<And>y. Q y \<longleftrightarrow> P' (g y)) \<Longrightarrow>
    map f (takeWhile P xs) = map g (takeWhile Q ys) \<and> map f (dropWhile P xs) = map g (dropWhile Q ys)"
proof (induction xs arbitrary: ys)
  case (Cons x xs)
  then obtain y ys' where ys: "ys = y # ys'" "f x = g y" "map f xs = map g ys'" by (cases ys) auto
  then show ?case using Cons.IH [OF ys(3) Cons.prems(2, 3)] Cons.prems(2, 3) by auto
qed auto

lemma record_match_tab:
  assumes "match_tab ml es"
  shows "\<exists>ml'. record_match ml b e = Some ml' \<and> match_tab ml' (insert_match (b, e) es)"
proof -
  from assms obtain T P where R: "rb_tree ml 0 T P" and es: "map snd (inorder T) = map (\<lambda>(b, e). (b, Some (b, e))) es"
    by (auto simp: match_tab_def)
  from rb_tree_insert [OF R, of b None True] obtain x h1 P' d where
    i: "rbtree_insert ml (Some 0) b None True = Some (Some x, h1)" "rb_tree h1 0 (tinsert (<) x b d T) P'" by blast
  have so: "sorted (map (fst \<circ> snd) (inorder T))" using R by (simp add: rb_tree_def tkeys_def)
  have io: "inorder (tinsert (<) x b d T) =
      takeWhile (\<lambda>e. fst (snd e) < b) (inorder T) @ (x, b, d) # dropWhile (\<lambda>e. fst (snd e) < b) (inorder T)"
    by (rule inorder_tinsert [OF so])
  let ?T = "tinsert (<) x b d T"
  have O: "owns h1 0 ?T" and rt: "rbt h1 0 ?T P'" using i(2) by (auto simp: rb_tree_def rbt_def)
  have "(x, b, d) \<in> set (inorder ?T)" by (simp add: io)
  then obtain n where n: "rget h1 (Some x) = Some n" "rb_data n = d" using owns_node [OF O] by blast
  have "x \<in> taddrs ?T" by (force simp: taddrs_inorder io)
  then obtain fs c k' d' l r where T: "?T = plug fs (N x c k' d' l r)" using plug_at by blast
  have di: "distinct (map fst (inorder ?T))" using O distinct_inorder by (auto simp: owns_def)
  have "(before fs @ inorder l) @ (x, k', d') # (inorder r @ after fs) =
      takeWhile (\<lambda>e. fst (snd e) < b) (inorder T) @ (x, b, d) # dropWhile (\<lambda>e. fst (snd e) < b) (inorder T)"
    using io T by (simp add: inorder_plug)
  moreover have "distinct (map fst ((before fs @ inorder l) @ (x, k', d') # (inorder r @ after fs)))"
    using di by (simp add: T inorder_plug)
  moreover have "(k', d') = (b, d)"
    using calculation by (metis (no_types, lifting) eq_key_imp_eq_value in_set_conv_decomp)
  ultimately have sp: "before fs @ inorder l = takeWhile (\<lambda>e. fst (snd e) < b) (inorder T)"
    "inorder r @ after fs = dropWhile (\<lambda>e. fst (snd e) < b) (inorder T)" "k' = b" "d' = d"
    using split_unique [of "before fs @ inorder l" "(x, k', d')" "inorder r @ after fs" _ "(x, b, d)" _ fst]
    by auto
  obtain h2 where h2: "rset h1 (Some x) (rb_data_update (\<lambda>_. Some (b, e))) = Some h2"
    "owns h2 0 (plug fs (N x c b (Some (b, e)) l r))" "same_but h1 h2 0 (taddrs (plug fs (N x c b d l r)))"
    using set_data_owns [of h1 0 fs x c b d l r "Some (b, e)"] O T sp(3, 4) by auto
  let ?T2 = "plug fs (N x c b (Some (b, e)) l r)"
  have ta: "taddrs ?T2 = taddrs ?T" by (simp add: T)
  have "rbt h2 0 ?T2 P'"
  proof (rule rbt_same_but [OF rt h2(2)])
    show "same_but h1 h2 0 (insert x (taddrs ?T))" using h2(3) T sp(3, 4) by (simp add: insert_absorb)
    show "x \<notin> taddrs P'" using rt \<open>x \<in> taddrs ?T\<close> by (auto simp: rbt_def)
    show "rnodes h1 x \<noteq> None" using n by (simp add: rget_def)
    show "taddrs ?T2 \<subseteq> insert x (taddrs ?T)" using ta by auto
  qed
  moreover have "rbtree_ok ?T2" using i(2) cok_data [of fs x c b d l r "Some (b, e)"] T sp(3, 4) by (simp add: rb_tree_def)
  moreover have "tkeys ?T2 = tkeys ?T" "length (inorder ?T2) = length (inorder ?T)" using T sp(3) by (simp_all add: tkeys_def inorder_plug)
  moreover obtain K where "rctrls h1 0 = Some K" "rc_count K = int (length (inorder ?T))" using i(2) by (auto simp: rb_tree_def)
  moreover obtain K' where "rctrls h2 0 = Some K'" "rc_count K' = rc_count K"
    using h2(3) calculation(5) by (auto simp: same_but_def) (metis rbctrl.select_convs(1) rbctrl.surjective rbctrl.update_convs(2))
  ultimately have rb: "rb_tree h2 0 ?T2 P'" using i(2) by (simp add: rb_tree_def)
  have es2: "map snd (inorder ?T2) = map (\<lambda>(b, e). (b, Some (b, e))) (insert_match (b, e) es)"
  proof -
    have w: "map snd (takeWhile (\<lambda>e. fst (snd e) < b) (inorder T)) = map (\<lambda>(b, e). (b, Some (b, e))) (takeWhile (\<lambda>y. fst y < b) es) \<and>
        map snd (dropWhile (\<lambda>e. fst (snd e) < b) (inorder T)) = map (\<lambda>(b, e). (b, Some (b, e))) (dropWhile (\<lambda>y. fst y < b) es)"
      by (rule takeWhile_via [OF es, where P' = "\<lambda>x. fst x < b"]) auto
    have "map snd (inorder ?T2) = map snd (before fs @ inorder l) @ (b, Some (b, e)) # map snd (inorder r @ after fs)"
      by (simp add: inorder_plug)
    then show ?thesis unfolding sp(1, 2) using w by (simp add: insert_match_def)
  qed
  have "record_match ml b e = Some h2" using i(1) n h2(1) by (cases d) (simp_all add: record_match_def)
  then show ?thesis using rb es2 by (auto simp: match_tab_def)
qed

section \<open>Comparing with one pattern\<close>

text \<open>The text: readable bytes whose last one, at the end given to the search, occurs in no pattern.\<close>

definition text_mem :: "(int \<Rightarrow> int option) \<Rightarrow> int \<Rightarrow> byte list \<Rightarrow> bool" where
  "text_mem rd t txts \<longleftrightarrow> (\<forall>i<length txts. rd (t + int i) = Some (sint (txts ! i)))"

lemma text_mem_at: "text_mem rd t xs \<Longrightarrow> i < length xs \<Longrightarrow> rd (t + int i) = Some (sint (xs ! i))"
  by (simp add: text_mem_def)

lemma str_at_null: "i \<le> length w \<Longrightarrow> str_at (w @ [0]) (int i) = Some (if i < length w then sint (w ! i) else 0)"
  by (auto simp: str_at_def nth_append)

lemma compare_loop_eval:
  assumes T: "text_mem rd t xs" and last: "last xs \<notin> set w" and z: "0 \<notin> set w"
  shows "i + a < length xs \<Longrightarrow> a \<le> length w \<Longrightarrow>
    \<exists>b. compare_loop rd (w @ [0]) (int a) (t + int i + int a) = Some (int b, t + int i + int b) \<and> a \<le> b \<and> b \<le> length w \<and>
      (b = length w \<longleftrightarrow> (\<forall>j. a \<le> j \<and> j < length w - 1 \<longrightarrow> i + j < length xs \<and> xs ! (i + j) = w ! j))"
proof (induction "length w - a" arbitrary: a)
  case 0
  then show ?case by (subst compare_loop.simps) (auto simp: str_at_null)
next
  case (Suc d)
  then have a: "a < length w" by simp
  have wa: "sint (w ! a) \<noteq> 0" using z a by (metis nth_mem sint_0 sint_byte_eq)
  have rd: "rd (t + int i + int a) = Some (sint (xs ! (i + a)))" using text_mem_at [OF T Suc.prems(1)] by (simp add: add.assoc)
  show ?case
  proof (cases "w ! a = xs ! (i + a)")
    case True
    then have "xs ! (i + a) \<noteq> last xs" using last a by (metis nth_mem)
    moreover have "last xs = xs ! (length xs - 1)" using Suc.prems(1) by (intro last_conv_nth) auto
    ultimately have "i + a \<noteq> length xs - 1" by metis
    then have lt: "i + Suc a < length xs" using Suc.prems(1) by simp
    have d: "d = length w - Suc a" "Suc a \<le> length w" using Suc.hyps(2) a by auto
    from Suc.hyps(1) [OF d(1) lt d(2)] obtain b where
      b: "compare_loop rd (w @ [0]) (int (Suc a)) (t + int i + int (Suc a)) = Some (int b, t + int i + int b)" "Suc a \<le> b" "b \<le> length w"
      "b = length w \<longleftrightarrow> (\<forall>j. Suc a \<le> j \<and> j < length w - 1 \<longrightarrow> i + j < length xs \<and> xs ! (i + j) = w ! j)" by blast
    have "compare_loop rd (w @ [0]) (int a) (t + int i + int a) = compare_loop rd (w @ [0]) (int (Suc a)) (t + int i + int (Suc a))"
      using a wa rd True by (subst compare_loop.simps) (simp add: str_at_null algebra_simps)
    moreover have "(\<forall>j. Suc a \<le> j \<and> j < length w - 1 \<longrightarrow> i + j < length xs \<and> xs ! (i + j) = w ! j) \<longleftrightarrow>
        (\<forall>j. a \<le> j \<and> j < length w - 1 \<longrightarrow> i + j < length xs \<and> xs ! (i + j) = w ! j)"
      using True Suc.prems(1) by (metis Suc_leI le_neq_implies_less Suc_leD)
    ultimately show ?thesis using b by auto
  next
    case False
    then have "compare_loop rd (w @ [0]) (int a) (t + int i + int a) = Some (int (Suc a), t + int i + int (Suc a))"
      using a wa rd by (subst compare_loop.simps) (simp add: str_at_null sint_byte_eq algebra_simps)
    moreover have "Suc a = length w \<longleftrightarrow> (\<forall>j. a \<le> j \<and> j < length w - 1 \<longrightarrow> i + j < length xs \<and> xs ! (i + j) = w ! j)"
    proof
      assume "\<forall>j. a \<le> j \<and> j < length w - 1 \<longrightarrow> i + j < length xs \<and> xs ! (i + j) = w ! j"
      then have "\<not> a < length w - 1" using False by (metis order_refl)
      then show "Suc a = length w" using a by simp
    qed auto
    ultimately show ?thesis using a by (intro exI [of _ "Suc a"]) simp
  qed
qed

section \<open>What is reported\<close>

text \<open>A pattern is reported at index \<open>i\<close> when the text agrees with all of it, its last character aside unless the pattern
  is of the minimal length.\<close>

definition near :: "nat \<Rightarrow> byte list \<Rightarrow> nat \<Rightarrow> byte list \<Rightarrow> bool" where
  "near m xs i w \<longleftrightarrow> (let k = max m (length w - 1) in i + k \<le> length xs \<and> take k (drop i xs) = take k w)"

definition hits_at :: "nat \<Rightarrow> byte list list \<Rightarrow> byte list \<Rightarrow> int \<Rightarrow> nat \<Rightarrow> (int \<times> int) list" where
  "hits_at m ws xs t i = map (\<lambda>w. (t + int i, t + int i + int (length w) - 2)) (filter (near m xs i) ws)"

lemma near_nth: "3 \<le> m \<Longrightarrow> m \<le> length w \<Longrightarrow>
   near m xs i w \<longleftrightarrow> (\<forall>j < max m (length w - 1). i + j < length xs \<and> xs ! (i + j) = w ! j)"
proof -
  assume m: "3 \<le> m" "m \<le> length w"
  define k where "k = max m (length w - 1)"
  have k: "0 < k" "k \<le> length w" using m by (auto simp: k_def)
  have "(i + k \<le> length xs \<and> take k (drop i xs) = take k w) \<longleftrightarrow> (\<forall>j < k. i + j < length xs \<and> xs ! (i + j) = w ! j)"
  proof
    assume A: "i + k \<le> length xs \<and> take k (drop i xs) = take k w"
    show "\<forall>j < k. i + j < length xs \<and> xs ! (i + j) = w ! j"
    proof (intro allI impI)
      fix j
      assume "j < k"
      have "i \<le> length xs" using A by simp
      then have "xs ! (i + j) = take k (drop i xs) ! j" using \<open>j < k\<close> by simp
      also have "\<dots> = take k w ! j" using A by (simp only:)
      finally show "i + j < length xs \<and> xs ! (i + j) = w ! j" using A \<open>j < k\<close> by simp
    qed
  next
    assume A: "\<forall>j < k. i + j < length xs \<and> xs ! (i + j) = w ! j"
    then have "i + (k - 1) < length xs" using k by (metis diff_less zero_less_one)
    then have "i + k \<le> length xs" using k by simp
    then show "i + k \<le> length xs \<and> take k (drop i xs) = take k w" using A k by (auto intro: nth_equalityI)
  qed
  then show ?thesis by (simp add: near_def k_def Let_def)
qed

lemma sint_byte: "- 128 \<le> sint (a :: byte)" "sint (a :: byte) < 128"
  using sint_greater_eq [of a] sint_less [of a] by simp_all

lemma hash256: "sint (a :: byte) * 256 + sint (b :: byte) = sint (c :: byte) * 256 + sint (d :: byte) \<Longrightarrow> a = c \<and> b = d"
proof -
  assume e: "sint a * 256 + sint b = sint c * 256 + sint d"
  note r = sint_byte [of b] sint_byte [of d]
  have "sint a = sint c"
  proof (rule ccontr)
    assume "sint a \<noteq> sint c"
    then have "sint a < sint c \<or> sint c < sint a" by linarith
    then show False using e r by linarith
  qed
  with e show ?thesis by (simp add: sint_byte_eq)
qed

lemma shash_last: "shash w (m - 1) = sint (w ! (m - 1)) * 32 + sint (w ! (m - 2))"
  by (simp add: shash_def numeral_2_eq_2)

lemma near_iff:
  assumes m: "3 \<le> m" "m \<le> length w" "i + m \<le> length xs"
  shows "near m xs i w \<longleftrightarrow> phash w = sint (xs ! i) * 256 + sint (xs ! (i + 1)) \<and>
    shash w (m - 1) = sint (xs ! (i + (m - 1))) * 32 + sint (xs ! (i + (m - 2))) \<and>
    (\<forall>j. 1 \<le> j \<and> j < length w - 1 \<longrightarrow> i + j < length xs \<and> xs ! (i + j) = w ! j)"
    (is "_ \<longleftrightarrow> ?p \<and> ?s \<and> ?c")
proof
  assume "near m xs i w"
  then have A: "j < max m (length w - 1) \<Longrightarrow> i + j < length xs \<and> xs ! (i + j) = w ! j" for j using near_nth [OF m(1, 2)] by blast
  have "xs ! i = w ! 0" "xs ! (i + 1) = w ! 1" "xs ! (i + (m - 1)) = w ! (m - 1)" "xs ! (i + (m - 2)) = w ! (m - 2)"
    using A [of 0] A [of 1] A [of "m - 1"] A [of "m - 2"] m by auto
  then show "?p \<and> ?s \<and> ?c" using A unfolding phash_def shash_last by auto
next
  assume B: "?p \<and> ?s \<and> ?c"
  have p: "w ! 0 = xs ! i \<and> w ! 1 = xs ! (i + 1)" using B hash256 [of "w ! 0" "w ! 1" "xs ! i" "xs ! (i + 1)"] by (simp add: phash_def)
  have "1 \<le> m - 2" "m - 2 < length w - 1" using m by auto
  then have q: "w ! (m - 2) = xs ! (i + (m - 2))" using B by auto
  have l: "w ! (m - 1) = xs ! (i + (m - 1))" using B q unfolding shash_last by (simp add: sint_byte_eq)
  show "near m xs i w" unfolding near_nth [OF m(1, 2)]
  proof (intro allI impI)
    fix j
    assume j: "j < max m (length w - 1)"
    show "i + j < length xs \<and> xs ! (i + j) = w ! j"
    proof (cases "1 \<le> j \<and> j < length w - 1")
      case True
      then show ?thesis using B by blast
    next
      case False
      then have "j = 0 \<or> j = m - 1" using j m by auto
      then show ?thesis using p l m by auto
    qed
  qed
qed

section \<open>One bucket\<close>

text \<open>The blocks of the patterns lie at ascending addresses, one behind the other.\<close>

definition blocks_ascend :: "(nat \<Rightarrow> int) \<Rightarrow> byte list list \<Rightarrow> bool" where
  "blocks_ascend base ws \<longleftrightarrow> (\<forall>k < length ws. 0 \<le> base k) \<and>
     (\<forall>k < length ws. \<forall>j < k. base j + int (length (ws ! j)) \<le> base k)"

definition words_ok :: "nat \<Rightarrow> byte list list \<Rightarrow> byte list \<Rightarrow> bool" where
  "words_ok m ws xs \<longleftrightarrow> 3 \<le> m \<and> (\<forall>w \<in> set ws. m \<le> length w \<and> 0 \<notin> set w \<and> last xs \<notin> set w)"

lemma candidates_loop_eval:
  assumes T: "text_mem rd t xs" and W: "words_ok m ws xs"
    and i: "i + m \<le> length xs" and h: "\<forall>k \<in> set ks. k < length ws \<and> shash (ws ! k) (m - 1) =
        sint (xs ! (i + (m - 1))) * 32 + sint (xs ! (i + (m - 2)))" and ks: "sorted_wrt (<) ks"
    and V: "V l = Some (map Some ks, n)"
  shows "view (mp_lists ob) V \<Longrightarrow> cursor_at (mp_lists ob) l c \<Longrightarrow> c \<le> length ks \<Longrightarrow>
    mp_pps ob = map pp_of ws \<Longrightarrow> mp_m ob = int m \<Longrightarrow> mp_B ob = 2 \<Longrightarrow> blocks_ascend (mp_base ob) ws \<Longrightarrow>
    match_tab (mp_match ob) es \<Longrightarrow> \<forall>k \<in> set (drop c ks). prev \<le> mp_base ob k \<Longrightarrow>
    \<exists>lh ml. candidates_loop rd (t + int i + int m - 1) (sint (xs ! i) * 256 + sint (xs ! (i + 1))) (Some l) ob prev =
        Some (ob\<lparr>mp_lists := lh, mp_match := ml\<rparr>) \<and> view lh V \<and>
      match_tab ml (fold insert_match (map (\<lambda>k. (t + int i, t + int i + int (length (ws ! k)) - 2)) (filter (\<lambda>k. near m xs i (ws ! k)) (drop c ks))) es)"
proof (induction "length ks - c" arbitrary: c ob es prev)
  case 0
  then have "c = length (map Some ks)" by simp
  with 0 V list_get_next_end [OF 0(2) V] show ?case
    by (subst candidates_loop.simps) (auto intro!: exI [of _ "mp_lists ob"] exI [of _ "mp_match ob"])
next
  case (Suc d)
  then have c: "c < length ks" by simp
  let ?k = "ks ! c"
  let ?w = "ws ! ?k"
  have dr: "drop c ks = ?k # drop (Suc c) ks" using c by (simp add: Cons_nth_drop_Suc)
  have k: "?k < length ws" "shash ?w (m - 1) = sint (xs ! (i + (m - 1))) * 32 + sint (xs ! (i + (m - 2)))"
    using h c by auto
  have w: "3 \<le> m" "m \<le> length ?w" "0 \<notin> set ?w" "last xs \<notin> set ?w" using W k(1) by (auto simp: words_ok_def)
  obtain lh where g: "list_get_next (mp_lists ob) (Some l) = Some (Some ?k, lh)" "view lh V" "cursor_at lh l (Suc c)"
    using list_get_next_rep [OF Suc(3) V Suc(4)] c by auto
  define ob1 where "ob1 = ob\<lparr>mp_lists := lh\<rparr>"
  have pp: "mp_pps ob ! ?k = pp_of ?w" using Suc(6) k(1) by simp
  have d: "d = length ks - Suc c" "Suc c \<le> length ks" using Suc(2) c by auto
  have later: "mp_base ob ?k + int b \<le> mp_base ob k'" if "k' \<in> set (drop (Suc c) ks)" "b \<le> length ?w" for k' b
  proof -
    have "?k < k'" using ks that(1) dr by (metis append_take_drop_id list.set_intros(1) sorted_wrt.simps(2) sorted_wrt_append)
    moreover have "k' < length ws" using h that(1) by (meson in_set_dropD)
    ultimately have "mp_base ob ?k + int (length ?w) \<le> mp_base ob k'" using Suc(9) k(1) by (auto simp: blocks_ascend_def)
    then show ?thesis using that(2) by linarith
  qed
  have prev_later: "\<forall>k' \<in> set (drop (Suc c) ks). prev \<le> mp_base ob k'" using Suc(11) dr by simp
  have IH: "\<exists>lh ml. candidates_loop rd (t + int i + int m - 1) (sint (xs ! i) * 256 + sint (xs ! (i + 1))) (Some l) (ob1\<lparr>mp_match := ml'\<rparr>) prev' =
        Some (ob\<lparr>mp_lists := lh, mp_match := ml\<rparr>) \<and> view lh V \<and>
      match_tab ml (fold insert_match (map (\<lambda>k. (t + int i, t + int i + int (length (ws ! k)) - 2)) (filter (\<lambda>k. near m xs i (ws ! k)) (drop (Suc c) ks))) es')"
    if "match_tab ml' es'" "\<forall>k' \<in> set (drop (Suc c) ks). prev' \<le> mp_base ob k'" for ml' es' prev'
    using Suc(1) [OF d(1), of "ob1\<lparr>mp_match := ml'\<rparr>" es' prev'] d(2) g Suc(6-9) that by (simp add: ob1_def)
  have ob1: "ob1\<lparr>mp_match := mp_match ob\<rparr> = ob1" by (simp add: ob1_def)
  show ?case
  proof (cases "phash ?w = sint (xs ! i) * 256 + sint (xs ! (i + 1))")
    case False
    then have nn: "\<not> near m xs i ?w" using near_iff [OF w(1, 2) i] by blast
    have "candidates_loop rd (t + int i + int m - 1) (sint (xs ! i) * 256 + sint (xs ! (i + 1))) (Some l) ob prev =
        candidates_loop rd (t + int i + int m - 1) (sint (xs ! i) * 256 + sint (xs ! (i + 1))) (Some l) ob1 prev"
      using g(1) pp k(1) False Suc(6) by (subst candidates_loop.simps) (simp add: ob1_def pp_of_def Let_def ensure_def)
    then show ?thesis using IH [OF Suc(10) prev_later] nn dr ob1 by simp
  next
    case True
    have "i + 1 < length xs" using i w by simp
    from compare_loop_eval [OF T w(4, 3) this] w obtain b where
      b: "compare_loop rd (?w @ [0]) 1 (t + int i + 1) = Some (int b, t + int i + int b)" "1 \<le> b" "b \<le> length ?w"
        "b = length ?w \<longleftrightarrow> (\<forall>j. 1 \<le> j \<and> j < length ?w - 1 \<longrightarrow> i + j < length xs \<and> xs ! (i + j) = ?w ! j)" by auto
    have b1: "compare_loop rd (?w @ [0]) 1 (1 + (t + int i)) = Some (int b, t + int i + int b)" using b(1) by (simp add: add.commute)
    have nr: "near m xs i ?w \<longleftrightarrow> b = length ?w" using near_iff [OF w(1, 2) i] True k(2) b(4) by simp
    have z: "str_at (?w @ [0]) (int b) = Some (if b < length ?w then sint (?w ! b) else 0)" by (rule str_at_null [OF b(3)])
    have zb: "b < length ?w \<Longrightarrow> sint (?w ! b) \<noteq> 0" using w(3) by (metis nth_mem sint_0 sint_byte_eq)
    have ad: "t + int i + int m - 1 - mp_m ob + 1 = t + int i" using Suc(7) by simp
    show ?thesis
    proof (cases "b = length ?w")
      case full: True
      obtain ml where ml: "record_match (mp_match ob) (t + int i) (t + int i + int b - 2) = Some ml"
        "match_tab ml (insert_match (t + int i, t + int i + int b - 2) es)" using record_match_tab [OF Suc(10)] by blast
      have "candidates_loop rd (t + int i + int m - 1) (sint (xs ! i) * 256 + sint (xs ! (i + 1))) (Some l) ob prev =
          candidates_loop rd (t + int i + int m - 1) (sint (xs ! i) * 256 + sint (xs ! (i + 1))) (Some l) (ob1\<lparr>mp_match := ml\<rparr>) prev"
        using g(1) pp k(1) True full Suc(6-8) b(1) b1 z ml(1)
        by (subst candidates_loop.simps) (simp add: ob1_def pp_of_def Let_def ensure_def)
      then show ?thesis using IH [OF ml(2) prev_later] nr full dr by simp
    next
      case part: False
      have nb: "\<not> mp_base ob ?k + int b < prev" using Suc(11) dr by simp
      have "candidates_loop rd (t + int i + int m - 1) (sint (xs ! i) * 256 + sint (xs ! (i + 1))) (Some l) ob prev =
          candidates_loop rd (t + int i + int m - 1) (sint (xs ! i) * 256 + sint (xs ! (i + 1))) (Some l) ob1 (mp_base ob ?k + int b)"
        using g(1) pp k(1) True part Suc(6-8) b(1, 3) b1 z zb nb
        by (subst candidates_loop.simps) (simp add: ob1_def pp_of_def Let_def ensure_def)
      moreover have "\<forall>k' \<in> set (drop (Suc c) ks). mp_base ob ?k + int b \<le> mp_base ob k'" using later b(3) by blast
      ultimately show ?thesis using IH [OF Suc(10)] nr part dr ob1 by simp
    qed
  qed
qed

section \<open>The loop over the text\<close>

lemma get_shift_eval:
  assumes R: "mpat_ready m ob ws" and m: "3 \<le> m"
  shows "\<exists>s. get_shift ob h = Some s \<and> 0 \<le> s \<and> s \<le> int m - 1 \<and> (s = 0 \<longrightarrow> (\<exists>w \<in> set ws. shash w (m - 1) = h)) \<and>
    (\<forall>w \<in> set ws. \<forall>q. 1 \<le> q \<and> q \<le> m - 1 \<and> shash w q = h \<longrightarrow> s \<le> int m - 1 - int q)"
proof -
  from R obtain sm where sm: "rb_holds 0 (mp_shift ob) sm" "mintab (\<Union>w \<in> set ws. shift_pairs m (m - 1) w) sm"
    "\<forall>k. sm k \<noteq> None \<longrightarrow> mp_min_key ob \<le> k \<and> k \<le> mp_max_key ob" "mp_default_shift ob = int m - 1"
    by (auto simp: mpat_ready_def)
  obtain K r where K: "cget (mp_shift ob) (Some 0) = Some K" "rbtree_search (mp_shift ob) (rc_root K) h = Some r"
    "case sm h of None \<Rightarrow> r = None | Some v \<Rightarrow> \<exists>a n. r = Some a \<and> rget (mp_shift ob) (Some a) = Some n \<and> rb_data n = Some v"
    using rb_search_holds [OF sm(1), of h] by blast
  have pairs: "(h, int m - 1 - int q) \<in> (\<Union>w \<in> set ws. shift_pairs m (m - 1) w)"
    if "w \<in> set ws" "1 \<le> q" "q \<le> m - 1" "shash w q = h" for w q
    using that by (auto simp: shift_pairs_def)
  show ?thesis
  proof (cases "sm h")
    case None
    then have "get_shift ob h = Some (int m - 1)" using K sm(4) by (auto simp: get_shift_def)
    moreover have "\<not> (\<exists>w \<in> set ws. \<exists>q. 1 \<le> q \<and> q \<le> m - 1 \<and> shash w q = h)"
      using sm(2) None pairs unfolding mintab_def by metis
    ultimately show ?thesis using m by auto
  next
    case (Some s)
    have in_range: "mp_min_key ob \<le> h" "h \<le> mp_max_key ob" using sm(3) Some by auto
    from Some sm(2) have s: "(h, s) \<in> (\<Union>w \<in> set ws. shift_pairs m (m - 1) w)"
      "\<forall>v. (h, v) \<in> (\<Union>w \<in> set ws. shift_pairs m (m - 1) w) \<longrightarrow> s \<le> v" unfolding mintab_def by blast+
    then obtain w q where w: "w \<in> set ws" "h = shash w q" "s = int m - 1 - int q" "1 \<le> q" "q \<le> m - 1"
      by (auto simp: shift_pairs_def)
    have "get_shift ob h = Some s" using K in_range Some by (auto simp: get_shift_def)
    moreover have "0 \<le> s \<and> s \<le> int m - 1" using w by auto
    moreover have "s = 0 \<longrightarrow> (\<exists>w \<in> set ws. shash w (m - 1) = h)"
    proof
      assume "s = 0"
      then have "q = m - 1" using w by simp
      then show "\<exists>w \<in> set ws. shash w (m - 1) = h" using w by auto
    qed
    ultimately show ?thesis using pairs s(2) by blast
  qed
qed

text \<open>No pattern can be reported inside a shift.\<close>

lemma shift_sound:
  assumes "words_ok m ws xs" "i + m \<le> length xs" and w: "w \<in> set ws"
    and s: "s \<le> int m - 1" "\<forall>q. 1 \<le> q \<and> q \<le> m - 1 \<and> shash w q = sint (xs ! (i + (m - 1))) * 32 + sint (xs ! (i + (m - 2))) \<longrightarrow> s \<le> int m - 1 - int q"
    and d: "int d < s"
  shows "\<not> near m xs (i + d) w"
proof
  have m: "3 \<le> m" "m \<le> length w" using assms(1) w by (auto simp: words_ok_def)
  assume "near m xs (i + d) w"
  then have A: "j < m \<Longrightarrow> xs ! (i + d + j) = w ! j" for j using near_nth [OF m] by (simp add: less_max_iff_disj)
  define q where "q = m - 1 - d"
  have q: "1 \<le> q" "q \<le> m - 1" "int m - 1 - int q = int d" using s(1) d m by (auto simp: q_def)
  have "i + d + q = i + (m - 1)" "i + d + (q - 1) = i + (m - 2)" using q by (auto simp: q_def)
  then have "shash w q = sint (xs ! (i + (m - 1))) * 32 + sint (xs ! (i + (m - 2)))"
    using A [of q] A [of "q - 1"] q m by (simp add: shash_def)
  then show False using s(2) q d by force
qed

lemma sentinel_no_hit: "words_ok m ws xs \<Longrightarrow> w \<in> set ws \<Longrightarrow> near m xs j w \<Longrightarrow> j + m < length xs"
proof -
  assume A: "words_ok m ws xs" "w \<in> set ws" "near m xs j w"
  then have m: "3 \<le> m" "m \<le> length w" "last xs \<notin> set w" by (auto simp: words_ok_def)
  have "m - 1 < max m (length w - 1)" using m by auto
  then have "j + (m - 1) < length xs" "xs ! (j + (m - 1)) = w ! (m - 1)" using A(3) unfolding near_nth [OF m(1, 2)] by blast+
  moreover have "w ! (m - 1) \<in> set w" using m by auto
  ultimately have "j + (m - 1) \<noteq> length xs - 1" using m(3) last_conv_nth [of xs] by (cases "xs = []") auto
  with \<open>j + (m - 1) < length xs\<close> show ?thesis using m by linarith
qed

definition hits_from :: "nat \<Rightarrow> byte list list \<Rightarrow> byte list \<Rightarrow> int \<Rightarrow> nat \<Rightarrow> (int \<times> int) list" where
  "hits_from m ws xs t i = concat (map (hits_at m ws xs t) [i..<length xs])"

lemma hits_from_Suc: "i < length xs \<Longrightarrow> hits_from m ws xs t i = hits_at m ws xs t i @ hits_from m ws xs t (Suc i)"
  by (simp add: hits_from_def upt_rec [of i])

lemma hits_none: "\<forall>w \<in> set ws. \<not> near m xs i w \<Longrightarrow> hits_at m ws xs t i = []"
  by (simp add: hits_at_def)

lemma hits_from_skip: "\<forall>d < k. hits_at m ws xs t (i + d) = [] \<Longrightarrow> hits_from m ws xs t i = hits_from m ws xs t (i + k)"
proof (induction k)
  case (Suc k)
  then have "hits_from m ws xs t i = hits_from m ws xs t (i + k)" "hits_at m ws xs t (i + k) = []" by auto
  then show ?case using hits_from_Suc [of "i + k" xs m ws t] by (cases "i + k < length xs") (auto simp: hits_from_def)
qed simp

lemma hits_bucket:
  assumes W: "words_ok m ws xs" and i: "i + m \<le> length xs"
  shows "map (\<lambda>k. (t + int i, t + int i + int (length (ws ! k)) - 2)) (filter (\<lambda>k. near m xs i (ws ! k))
      (hash_idxs m ws (sint (xs ! (i + (m - 1))) * 32 + sint (xs ! (i + (m - 2)))))) = hits_at m ws xs t i"
proof -
  let ?P = "\<lambda>w. shash w (m - 1) = sint (xs ! (i + (m - 1))) * 32 + sint (xs ! (i + (m - 2)))"
  have "near m xs i w \<Longrightarrow> ?P w" if "w \<in> set ws" for w
    using near_iff [of m w i xs] W that i by (auto simp: words_ok_def)
  then have "filter (\<lambda>k. near m xs i (ws ! k)) (filter (\<lambda>k. ?P (ws ! k)) [0..<length ws]) = filter (\<lambda>k. near m xs i (ws ! k)) [0..<length ws]"
    unfolding filter_filter by (intro filter_cong) auto
  moreover have "filter (near m xs i) ws = map ((!) ws) (filter (\<lambda>k. near m xs i (ws ! k)) [0..<length ws])"
    using filter_map [of "near m xs i" "(!) ws" "[0..<length ws]"] by (simp add: map_nth comp_def)
  ultimately show ?thesis by (simp add: hash_idxs_def hits_at_def)
qed

lemma mpat_search_loop_eval:
  assumes T: "text_mem rd t xs" and W: "words_ok m ws xs"
  shows "mpat_ready m ob ws \<Longrightarrow> blocks_ascend (mp_base ob) ws \<Longrightarrow> match_tab (mp_match ob) es \<Longrightarrow>
    \<exists>lh ml. mpat_search_loop rd (t + int (length xs) - 1) ob (t + int i + int m - 1) = Some (ob\<lparr>mp_lists := lh, mp_match := ml\<rparr>) \<and>
      mpat_ready m (ob\<lparr>mp_lists := lh, mp_match := ml\<rparr>) ws \<and> match_tab ml (fold insert_match (hits_from m ws xs t i) es)"
proof (induction "length xs - i" arbitrary: i ob es rule: less_induct)
  case less
  have m: "3 \<le> m" using W by (simp add: words_ok_def)
  show ?case
  proof (cases "i + m \<le> length xs")
    case False
    have "hits_at m ws xs t (i + d) = []" for d
      using sentinel_no_hit [OF W] False by (intro hits_none) (metis add.assoc add.commute le_add1 less_imp_le order_trans)
    then have "hits_from m ws xs t i = hits_from m ws xs t (i + length xs)" by (intro hits_from_skip) simp
    also have "\<dots> = []" by (simp add: hits_from_def)
    finally show ?thesis using False less.prems
      by (subst mpat_search_loop.simps) (auto intro!: exI [of _ "mp_lists ob"] exI [of _ "mp_match ob"])
  next
    case True
    define h where "h = sint (xs ! (i + (m - 1))) * 32 + sint (xs ! (i + (m - 2)))"
    have p: "t + int i + int m - 1 \<le> t + int (length xs) - 1" using True by simp
    have "i + (m - 1) < length xs" "i + (m - 2) < length xs" using True m by auto
    then have "rd (t + int i + int m - 1) = Some (sint (xs ! (i + (m - 1))))" "rd (t + int i + int m - 1 - 1) = Some (sint (xs ! (i + (m - 2))))"
      using text_mem_at [OF T, of "i + (m - 1)"] text_mem_at [OF T, of "i + (m - 2)"] m
      by (simp_all add: of_nat_diff algebra_simps)
    then have sh: "suffix_hash rd (t + int i + int m - 1) = Some h" by (simp add: suffix_hash_def h_def)
    obtain s where s: "get_shift ob h = Some s" "0 \<le> s" "s \<le> int m - 1" "s = 0 \<longrightarrow> (\<exists>w \<in> set ws. shash w (m - 1) = h)"
      "\<forall>w \<in> set ws. \<forall>q. 1 \<le> q \<and> q \<le> m - 1 \<and> shash w q = h \<longrightarrow> s \<le> int m - 1 - int q"
      using get_shift_eval [OF less.prems(1) m] by blast
    show ?thesis
    proof (cases "s = 0")
      case False
      define k where "k = nat s"
      have k: "0 < k" "s = int k" using False s(2) by (auto simp: k_def)
      have "hits_at m ws xs t (i + d) = []" if "d < k" for d
        using shift_sound [OF W True _ s(3)] s(5) that k by (intro hits_none) (auto simp: h_def)
      then have hf: "hits_from m ws xs t i = hits_from m ws xs t (i + k)" by (intro hits_from_skip) simp
      have run: "mpat_search_loop rd (t + int (length xs) - 1) ob (t + int i + int m - 1) =
          mpat_search_loop rd (t + int (length xs) - 1) ob (t + int (i + k) + int m - 1)"
        using p sh s(1) False k(2) by (subst mpat_search_loop.simps) (simp add: algebra_simps)
      have "length xs - (i + k) < length xs - i" using k True m by auto
      from less.hyps [OF this less.prems] show ?thesis unfolding run hf .
    next
      case z: True
      from less.prems(1) obtain hm V where hr: "rb_holds 0 (mp_hash ob) hm" "view (mp_lists ob) V" "bucket_lists hm V (hash_idxs m ws)"
        and pps: "mp_pps ob = map pp_of ws" and mm: "mp_m ob = int m" "mp_B ob = 2" by (auto simp: mpat_ready_def hash_rep_def)
      from z s(4) obtain w where w: "w \<in> set ws" "shash w (m - 1) = h" by blast
      then obtain k where "k < length ws" "ws ! k = w" by (metis in_set_conv_nth)
      then have ne: "hash_idxs m ws h \<noteq> []" using w(2) by (auto simp: hash_idxs_def filter_empty_conv intro!: bexI [of _ k])
      then obtain l where l: "hm h = Some l" using bucket_None [OF hr(3), of h] by blast
      then obtain n where V: "V l = Some (map Some (hash_idxs m ws h), n)" using bucket_Some [OF hr(3)] by blast
      have gp: "get_hash_patterns ob h = Some (Some l)"
        using rb_search_holds [OF hr(1), of h] l by (auto simp: get_hash_patterns_def)
      have "rd (t + int i) = Some (sint (xs ! i))" "rd (t + int i + 1) = Some (sint (xs ! (i + 1)))"
        using text_mem_at [OF T, of i] text_mem_at [OF T, of "i + 1"] True m by (simp_all add: algebra_simps)
      then have ph: "prefix_hash rd (t + int i + int m - 1) (int m) = Some (sint (xs ! i) * 256 + sint (xs ! (i + 1)))"
        by (simp add: prefix_hash_def algebra_simps)
      obtain lh0 where lh0: "list_set_iterator (mp_lists ob) (Some l) 0 = Some (1, lh0)" "view lh0 V" "cursor_at lh0 l 0"
        using list_set_iterator_0 [OF hr(2) V] ne by auto
      have hk: "\<forall>k \<in> set (hash_idxs m ws h). k < length ws \<and> shash (ws ! k) (m - 1) = sint (xs ! (i + (m - 1))) * 32 + sint (xs ! (i + (m - 2)))"
        by (simp add: hash_idxs_def h_def)
      have srt: "sorted_wrt (<) (hash_idxs m ws h)" unfolding hash_idxs_def by (intro sorted_wrt_filter) simp
      have base0: "\<forall>k \<in> set (drop 0 (hash_idxs m ws h)). 0 \<le> mp_base ob k" using less.prems(2) by (auto simp: blocks_ascend_def hash_idxs_def)
      obtain lh ml where c: "candidates_loop rd (t + int i + int m - 1) (sint (xs ! i) * 256 + sint (xs ! (i + 1))) (Some l) (ob\<lparr>mp_lists := lh0\<rparr>) 0 =
          Some (ob\<lparr>mp_lists := lh, mp_match := ml\<rparr>)" "view lh V" "match_tab ml (fold insert_match (hits_at m ws xs t i) es)"
        using candidates_loop_eval [where V = V and ks = "hash_idxs m ws h" and l = l and n = n and i = i and ob = "ob\<lparr>mp_lists := lh0\<rparr>"
            and c = 0 and es = es and prev = 0, OF T W True hk srt V] lh0 pps mm less.prems(2, 3) base0
          hits_bucket [OF W True, of t, folded h_def] by auto
      define ob2 where "ob2 = ob\<lparr>mp_lists := lh, mp_match := ml\<rparr>"
      have ready: "mpat_ready m ob2 ws" using less.prems(1) hr c(2) by (auto simp: mpat_ready_def hash_rep_def ob2_def)
      have run: "mpat_search_loop rd (t + int (length xs) - 1) ob (t + int i + int m - 1) =
          mpat_search_loop rd (t + int (length xs) - 1) ob2 (t + int (Suc i) + int m - 1)"
        using p sh s(1) z ph gp lh0(1) c(1) mm(1) by (subst mpat_search_loop.simps) (simp add: ob2_def algebra_simps)
      have "length xs - Suc i < length xs - i" "i < length xs" using True m by auto
      from less.hyps [OF this(1) ready, of "fold insert_match (hits_at m ws xs t i) es"] less.prems(2) c(3) hits_from_Suc [OF this(2)]
      show ?thesis unfolding run by (auto simp: ob2_def)
    qed
  qed
qed

end
