(* ===== verification/MpatProps.thy ===== *)
theory MpatProps
  imports MpatSearch
begin

text \<open>
  The promises of \<open>src/mpat.c\<close>: initialising an object with a list of patterns and searching a text records
  the occurrences, which can be counted and iterated over, and the object can be cleared and used again.
\<close>

section \<open>The matches in order\<close>





section \<open>Reading the matches\<close>







section \<open>One search\<close>








section \<open>Properties\<close>







section \<open>A concrete search for the witnesses\<close>











end
