(* ===== verification/Bits.thy ===== *)
theory Bits
  imports Prelude "HOL-Library.Signed_Division"
begin

text \<open>
  Bit arrays and control flags: \<open>src/bits.h\<close>, the flag macros of \<open>src/misc.h\<close>, the capture
  group map of \<open>src/cgrps.h\<close>. The block type is \<open>uint64_t\<close> (\<open>BITS_PER_BLOCK\<close> = 64, x86-64). A
  shift by a negative amount or by 64 and more is undefined in C, an index outside the array
  is an error: both are \<open>None\<close>. C's division truncates (\<open>sdiv\<close>).
\<close>

unbundle bit_operations_syntax

type_synonym block = "64 word"
type_synonym u32 = "32 word"

definition BITS_PER_BLOCK :: int where "BITS_PER_BLOCK = 64"
definition SIZE_OF_LOCALE :: int where "SIZE_OF_LOCALE = 128"
definition SIZE_OF_RANGE :: int where "SIZE_OF_RANGE = SIZE_OF_LOCALE sdiv BITS_PER_BLOCK"

section \<open>Shifts and array cells\<close>

definition shl_c :: "block \<Rightarrow> int \<Rightarrow> block option" where
  "shl_c x n = (if 0 \<le> n \<and> n < 64 then Some (push_bit (nat n) x) else None)"

definition shr_c :: "block \<Rightarrow> int \<Rightarrow> block option" where
  "shr_c x n = (if 0 \<le> n \<and> n < 64 then Some (drop_bit (nat n) x) else None)"

definition cell_get :: "block list \<Rightarrow> int \<Rightarrow> block option" where
  "cell_get a i = (if 0 \<le> i \<and> i < int (length a) then Some (a ! nat i) else None)"

definition cell_upd :: "block list \<Rightarrow> int \<Rightarrow> (block \<Rightarrow> block) \<Rightarrow> block list option" where
  "cell_upd a i f = (if 0 \<le> i \<and> i < int (length a) then Some (a[nat i := f (a ! nat i)]) else None)"

section \<open>The macros of bits.h\<close>

definition set_high_bit :: "int \<Rightarrow> block option" where
  "set_high_bit w = shl_c 1 (w - 1)"

definition set_all_bits :: block where
  "set_all_bits = NOT 0"

definition get_bit_array_idx :: "int \<Rightarrow> int \<Rightarrow> int" where
  "get_bit_array_idx v w = (v - 1) sdiv w"

definition get_bit_array_bucket :: "block list \<Rightarrow> int \<Rightarrow> int \<Rightarrow> block option" where
  "get_bit_array_bucket a w v = cell_get a (get_bit_array_idx v w)"

definition set_bit_c :: "int \<Rightarrow> int \<Rightarrow> block option" where
  "set_bit_c w i = do { h \<leftarrow> set_high_bit w; shr_c h (w - (i smod w)) }"

definition set_bit_array :: "block list \<Rightarrow> int \<Rightarrow> int \<Rightarrow> block list option" where
  "set_bit_array a w v = do { b \<leftarrow> set_bit_c w v; cell_upd a (get_bit_array_idx v w) (\<lambda>x. x OR b) }"

definition check_bit_array :: "block list \<Rightarrow> int \<Rightarrow> int \<Rightarrow> block option" where
  "check_bit_array a w v = do { x \<leftarrow> get_bit_array_bucket a w v; b \<leftarrow> set_bit_c w v; Some (x AND b) }"

definition clear_bit_array :: "block list \<Rightarrow> int \<Rightarrow> int \<Rightarrow> block list option" where
  "clear_bit_array a w v = do {
     b \<leftarrow> set_bit_c w v;
     cell_upd a (get_bit_array_idx v w) (\<lambda>x. x AND (set_all_bits XOR b)) }"

definition z_get_bit_array_idx :: "int \<Rightarrow> int \<Rightarrow> int" where
  "z_get_bit_array_idx v w = v sdiv w"

definition z_set_bit :: "int \<Rightarrow> int \<Rightarrow> block option" where
  "z_set_bit w v = shl_c 1 (v - z_get_bit_array_idx v w * w)"

definition z_clear_bit_array :: "block list \<Rightarrow> int \<Rightarrow> int \<Rightarrow> block list option" where
  "z_clear_bit_array a w v = do {
     b \<leftarrow> z_set_bit w v;
     cell_upd a (z_get_bit_array_idx v w) (\<lambda>x. x AND (set_all_bits XOR b)) }"

definition z_set_bit_array :: "block list \<Rightarrow> int \<Rightarrow> int \<Rightarrow> block list option" where
  "z_set_bit_array a w v = do { b \<leftarrow> z_set_bit w v; cell_upd a (z_get_bit_array_idx v w) (\<lambda>x. x OR b) }"

section \<open>The capture group map\<close>

definition CGRP_MAX :: int where "CGRP_MAX = 9"

definition CGRP_MAP_SIZE :: int where
  "CGRP_MAP_SIZE = (if CGRP_MAX sdiv BITS_PER_BLOCK = 0 then 1 else CGRP_MAX sdiv BITS_PER_BLOCK)"

definition mark_closure_map_backref :: "block list \<Rightarrow> int \<Rightarrow> block list option" where
  "mark_closure_map_backref cgrp i =
     (if i > 0 \<and> i \<le> CGRP_MAX then set_bit_array cgrp BITS_PER_BLOCK i else Some cgrp)"

definition cgrp_has_backref :: "block list \<Rightarrow> int \<Rightarrow> block option" where
  "cgrp_has_backref cgrp i =
     (if i > 0 \<and> i \<le> CGRP_MAX then check_bit_array cgrp BITS_PER_BLOCK i else Some 0)"

section \<open>The control flags\<close>

definition EOL_FLAG :: u32 where "EOL_FLAG = 0x1"
definition BOL_FLAG :: u32 where "BOL_FLAG = 0x2"
definition UNPUT_FLAG :: u32 where "UNPUT_FLAG = 0x4"
definition AT_EOL_FLAG :: u32 where "AT_EOL_FLAG = 0x8"
definition AT_BOL_FLAG :: u32 where "AT_BOL_FLAG = 0x10"
definition ESCP_SEQ_FLAG :: u32 where "ESCP_SEQ_FLAG = 0x20"
definition MGLOBAL_FLAG :: u32 where "MGLOBAL_FLAG = 0x40"
definition SHOW_LINENO_FLAG :: u32 where "SHOW_LINENO_FLAG = 0x80"
definition SHOW_FILE_NAME_FLAG :: u32 where "SHOW_FILE_NAME_FLAG = 0x100"
definition IGNORE_CASE_FLAG :: u32 where "IGNORE_CASE_FLAG = 0x200"
definition SILENT_MATCH_FLAG :: u32 where "SILENT_MATCH_FLAG = 0x400"
definition INVERT_MATCH_FLAG :: u32 where "INVERT_MATCH_FLAG = 0x800"
definition SHOW_MATCH_LINE_FLAG :: u32 where "SHOW_MATCH_LINE_FLAG = 0x1000"

text \<open>The \<open>SET_*\<close> and \<open>CLEAR_*\<close> macros, with the flag as the first argument, and
  \<open>PARSE_ESCP_SEQ\<close> as the test for \<open>ESCP_SEQ_FLAG\<close>.\<close>

definition set_flag :: "u32 \<Rightarrow> u32 \<Rightarrow> u32" where
  "set_flag f m = m OR f"

definition clear_flag :: "u32 \<Rightarrow> u32 \<Rightarrow> u32" where
  "clear_flag f m = m AND NOT f"

definition has_flag :: "u32 \<Rightarrow> u32 \<Rightarrow> bool" where
  "has_flag f m \<longleftrightarrow> m AND f \<noteq> 0"

definition flag_masks :: "u32 list" where
  "flag_masks = [EOL_FLAG, BOL_FLAG, UNPUT_FLAG, AT_EOL_FLAG, AT_BOL_FLAG, ESCP_SEQ_FLAG, MGLOBAL_FLAG,
     SHOW_LINENO_FLAG, SHOW_FILE_NAME_FLAG, IGNORE_CASE_FLAG, SILENT_MATCH_FLAG, INVERT_MATCH_FLAG, SHOW_MATCH_LINE_FLAG]"

lemma flag_masks_bits: "flag_masks = map (\<lambda>k. push_bit k 1) [0..<13]"
  by code_simp

section \<open>What the operations do\<close>

lemma idx_nonneg: "0 \<le> v \<Longrightarrow> v sdiv 64 = v div (64::int)" "0 \<le> v \<Longrightarrow> v smod 64 = v mod (64::int)"
  by (cases "v = 0"; simp add: signed_divide_int_def signed_modulo_int_def)+

text \<open>Bit \<open>v\<close> of a bit array.\<close>

definition abit :: "block list \<Rightarrow> nat \<Rightarrow> bool" where
  "abit a v \<longleftrightarrow> v < 64 * length a \<and> bit (a ! (v div 64)) (v mod 64)"

lemma bit_one_shift: "bit ((2 :: block) ^ n) k \<longleftrightarrow> k = n \<and> n < 64"
  by (auto simp: bit_exp_iff)

lemma abit_upd:
  assumes "v < 64 * length a" "\<And>k. k < 64 \<Longrightarrow> bit (f (a ! (v div 64))) k = (if k = v mod 64 then b else bit (a ! (v div 64)) k)"
  shows "abit (a[v div 64 := f (a ! (v div 64))]) w = (if w = v then b else abit a w)"
proof (cases "w div 64 = v div 64")
  case True
  have "v div 64 < length a" using assms(1) by (simp add: less_mult_imp_div_less mult.commute)
  moreover have "w = v \<longleftrightarrow> w mod 64 = v mod 64" using True by (metis div_mult_mod_eq)
  moreover have "w mod 64 < 64" by simp
  moreover have "w < 64 * length a" using True calculation(1) by (metis div_less_iff_less_mult mult.commute zero_less_numeral)
  ultimately show ?thesis using assms True by (auto simp: abit_def)
next
  case False
  then show ?thesis by (auto simp: abit_def)
qed

lemma z_idx: "z_get_bit_array_idx (int v) BITS_PER_BLOCK = int (v div 64)"
  by (simp add: z_get_bit_array_idx_def BITS_PER_BLOCK_def idx_nonneg zdiv_int)

lemma z_set_bit_nat: "z_set_bit BITS_PER_BLOCK (int v) = Some (push_bit (v mod 64) 1)"
proof -
  have "int v - int (v div 64) * 64 = int (v mod 64)" by (simp add: minus_div_mult_eq_mod zdiv_int zmod_int)
  then show ?thesis unfolding z_set_bit_def z_idx shl_c_def by (simp add: BITS_PER_BLOCK_def)
qed

lemma z_set_bit_array_ok:
  assumes "v < 64 * length a"
  shows "\<exists>a'. z_set_bit_array a BITS_PER_BLOCK (int v) = Some a' \<and> length a' = length a \<and>
    (\<forall>w. abit a' w = (w = v \<or> abit a w))"
proof -
  let ?f = "\<lambda>x :: block. x OR push_bit (v mod 64) 1"
  have l: "v div 64 < length a" using assms by (simp add: less_mult_imp_div_less mult.commute)
  have "abit (a[v div 64 := ?f (a ! (v div 64))]) w = (if w = v then True else abit a w)" for w
    by (rule abit_upd [OF assms]) (auto simp: bit_or_iff bit_one_shift)
  then show ?thesis using l by (auto simp: z_set_bit_array_def z_set_bit_nat z_idx cell_upd_def)
qed

lemma z_clear_bit_array_ok:
  assumes "v < 64 * length a"
  shows "\<exists>a'. z_clear_bit_array a BITS_PER_BLOCK (int v) = Some a' \<and> length a' = length a \<and>
    (\<forall>w. abit a' w = (w \<noteq> v \<and> abit a w))"
proof -
  let ?f = "\<lambda>x :: block. x AND (set_all_bits XOR push_bit (v mod 64) 1)"
  have l: "v div 64 < length a" using assms by (simp add: less_mult_imp_div_less mult.commute)
  have "abit (a[v div 64 := ?f (a ! (v div 64))]) w = (if w = v then False else abit a w)" for w
    by (rule abit_upd [OF assms]) (auto simp: bit_and_iff bit_xor_iff bit_not_iff set_all_bits_def bit_one_shift)
  then show ?thesis using l by (auto simp: z_clear_bit_array_def z_set_bit_nat z_idx cell_upd_def)
qed

lemma set_bit_c_nat:
  assumes "0 < v" "v mod 64 \<noteq> 0"
  shows "set_bit_c BITS_PER_BLOCK (int v) = Some (push_bit (v mod 64 - 1) 1)"
proof -
  have h: "set_high_bit 64 = Some (push_bit 63 1)" by (simp add: set_high_bit_def shl_c_def)
  have m: "int v smod 64 = int (v mod 64)" by (simp add: idx_nonneg zmod_int)
  have r: "0 \<le> 64 - int (v mod 64)" "64 - int (v mod 64) < 64" using assms(2) by (auto simp: of_nat_less_iff [of _ 64, simplified])
  have n: "nat (64 - int (v mod 64)) = 64 - v mod 64" by simp
  have "drop_bit (64 - v mod 64) (push_bit 63 (1 :: block)) = push_bit (v mod 64 - 1) 1"
  proof (rule bit_eqI)
    fix k assume "possible_bit TYPE(block) k"
    have "v mod 64 < 64" by simp
    then show "bit (drop_bit (64 - v mod 64) (push_bit 63 (1 :: block))) k = bit (push_bit (v mod 64 - 1) (1 :: block)) k"
      using assms(2) by (simp only: bit_drop_bit_eq push_bit_of_1 bit_one_shift comp_def) auto
  qed
  then have "drop_bit (nat (64 - int (v mod 64))) (push_bit 63 (1 :: block)) = push_bit (v mod 64 - 1) 1" unfolding n .
  then show ?thesis using h m r unfolding set_bit_c_def BITS_PER_BLOCK_def shr_c_def by simp
qed

lemma set_bit_c_undefined: "0 < v \<Longrightarrow> v mod 64 = 0 \<Longrightarrow> set_bit_c BITS_PER_BLOCK (int v) = None"
proof -
  assume "0 < v" "v mod 64 = 0"
  moreover have "int v smod 64 = int (v mod 64)" by (simp add: idx_nonneg zmod_int)
  ultimately have "int v smod 64 = 0" by simp
  then show ?thesis by (simp add: set_bit_c_def BITS_PER_BLOCK_def shr_c_def set_high_bit_def shl_c_def)
qed

end
