(* ===== verification/Scanner.thy ===== *)
theory Scanner
  imports Bits ListIface
begin

text \<open>
  Tokens and the scanner: \<open>src/token.c\<close>, \<open>src/token.h\<close>, \<open>src/scanner.c\<close> and \<open>src/scanner.h\<close>.

  A scanner owns its buffer: \<open>bytes\<close> is the allocated block, at address \<open>buffer\<close>; positions are
  addresses (integers, 0 for \<open>NULL\<close>), and an access outside the block is \<open>None\<close>. A \<open>char\<close> read
  becomes an \<open>int\<close> with its sign. \<open>realloc\<close> is taken to grow the block in place. The flags are
  shared through a pointer, so the operations take and return them; the function-local
  \<open>static int seen_newline\<close> of \<open>regex_scan\<close> is a parameter and a result.
\<close>

section \<open>Tokens\<close>

datatype symbol_type =
  ALPHA | ASCIIDIGIT | BACKREFERENCE | CIRCUMFLEX | CLOSEBRACE | CLOSEBRACKET | CLOSEPAREN | COLON | DOT
  | DOLLAR | EQUAL | HYPHEN | KLEENE | NEWLINE | OPENBRACE | OPENBRACKET | OPENPAREN | PIPE | PLUS | QMARK
  | WORD_BOUNDARY | NOT_WORD_BOUNDARY | AT_WORD_BEGIN | AT_WORD_END | WORD_CONSTITUENT
  | NOT_WORD_CONSTITUENT | WHITESPACE | NOT_WHITESPACE | EOF_SYM

record token =
  t_value :: u32
  t_type :: symbol_type
  t_length :: u32

definition new_token :: token where
  "new_token = \<lparr>t_value = 0, t_type = ALPHA, t_length = 0\<rparr>"

definition update_token :: "token \<Rightarrow> int \<Rightarrow> symbol_type \<Rightarrow> token" where
  "update_token t c ty = t\<lparr>t_type := ty, t_value := word_of_int c\<rparr>"

section \<open>The scanner\<close>

record scanner =
  line_no :: int
  eol_symbol :: int
  line_len :: int
  buf_len :: int
  filename :: "string option"
  buffer :: int
  bytes :: "byte list"
  readhead :: int
  str_begin :: int
  last_newline :: int
  curtoken :: "token option"

definition EOF_c :: int where "EOF_c = -1"

definition ch :: "char \<Rightarrow> int" where "ch c = of_char c"

definition char_at :: "scanner \<Rightarrow> int \<Rightarrow> int option" where
  "char_at s a = (if buffer s \<le> a \<and> a < buffer s + int (length (bytes s))
     then Some (sint (bytes s ! nat (a - buffer s))) else None)"

definition char_put :: "scanner \<Rightarrow> int \<Rightarrow> int \<Rightarrow> scanner option" where
  "char_put s a c = (if buffer s \<le> a \<and> a < buffer s + int (length (bytes s))
     then Some (s\<lparr>bytes := (bytes s)[nat (a - buffer s) := word_of_int c]\<rparr>) else None)"

definition get_buffer_end :: "scanner option \<Rightarrow> int" where
  "get_buffer_end s = (case s of None \<Rightarrow> 0 | Some s \<Rightarrow> buffer s + line_len s)"

definition get_buffer_length :: "scanner option \<Rightarrow> int" where
  "get_buffer_length s = (case s of None \<Rightarrow> 0 | Some s \<Rightarrow> buf_len s)"

definition get_buffer_start :: "scanner option \<Rightarrow> int" where
  "get_buffer_start s = (case s of None \<Rightarrow> 0 | Some s \<Rightarrow> buffer s)"

definition get_filename :: "scanner option \<Rightarrow> string option" where
  "get_filename s = (case s of None \<Rightarrow> None | Some s \<Rightarrow> filename s)"

definition get_line_no :: "scanner option \<Rightarrow> int" where
  "get_line_no s = (case s of None \<Rightarrow> 0 | Some s \<Rightarrow> line_no s)"

definition update_flags :: "u32 \<Rightarrow> scanner \<Rightarrow> u32 option" where
  "update_flags cf s = (if buffer s \<noteq> 0 then do {
     let cf = (if readhead s = buffer s \<or> readhead s - last_newline s = 1
       then set_flag AT_BOL_FLAG cf else clear_flag AT_BOL_FLAG cf);
     c \<leftarrow> char_at s (readhead s);
     Some (if c = eol_symbol s \<or> c = ch (CHR 0x0A) then set_flag AT_EOL_FLAG cf else clear_flag AT_EOL_FLAG cf) }
   else Some cf)"

definition reset_scanner :: "u32 \<Rightarrow> scanner \<Rightarrow> string option \<Rightarrow> (u32 \<times> scanner) option" where
  "reset_scanner cf s fname = do {
     let s = s\<lparr>last_newline := 0\<rparr>;
     c \<leftarrow> char_at s (buffer s + line_len s - 1);
     s \<leftarrow> (if c = ch (CHR 0x0A) then char_put s (buffer s + line_len s - 1) (eol_symbol s)
           else do {
             let s = (if buf_len s < line_len s + 2
               then s\<lparr>bytes := take (nat (buf_len s + 1)) (bytes s @ [0]), buf_len := buf_len s + 1\<rparr> else s);
             s \<leftarrow> char_put s (buffer s + line_len s) (eol_symbol s);
             s \<leftarrow> char_put s (buffer s + line_len s + 1) 0;
             Some (s\<lparr>line_len := line_len s + 1\<rparr>) });
     let s = s\<lparr>readhead := buffer s, str_begin := buffer s\<rparr>;
     let cf = set_flag ESCP_SEQ_FLAG cf;
     cf \<leftarrow> update_flags cf s;
     Some (cf, s\<lparr>filename := fname\<rparr>) }"

definition init_scanner ::
    "string option \<Rightarrow> int \<Rightarrow> byte list \<Rightarrow> int \<Rightarrow> int \<Rightarrow> u32 \<Rightarrow> (u32 \<times> scanner) option" where
  "init_scanner fname buf bs buffer_len len cf = do {
     let s = \<lparr>line_no = 0, eol_symbol = 0, line_len = 0, buf_len = 0, filename = None, buffer = buf, bytes = bs,
       readhead = 0, str_begin = 0, last_newline = 0, curtoken = Some new_token\<rparr>;
     s \<leftarrow> char_put s (buf + buffer_len - 1) 0;
     let s = s\<lparr>filename := fname, buf_len := buffer_len, line_len := len,
       eol_symbol := (if EOF_c < -1 then -1 else -2)\<rparr>;
     reset_scanner cf s fname }"

definition get_cur_pos :: "scanner option \<Rightarrow> int" where
  "get_cur_pos s = (case s of None \<Rightarrow> 0
     | Some s \<Rightarrow> if readhead s > str_begin s then readhead s - 1 else readhead s)"

definition unput :: "scanner option \<Rightarrow> scanner option option" where
  "unput s = (case s of None \<Rightarrow> Some None | Some s \<Rightarrow>
     (if readhead s - str_begin s > 0 then do {
        let s = s\<lparr>readhead := readhead s - 1\<rparr>;
        c \<leftarrow> char_at s (readhead s);
        Some (Some (if c = ch (CHR 0x0A) then s\<lparr>line_no := line_no s - 1\<rparr> else s)) }
      else Some (Some s)))"

text \<open>\<open>int offset = pos - s->buffer\<close>: the difference of the two addresses is narrowed to 32 bits, also when
  \<open>pos\<close> is not a position of the buffer (\<open>reset_thread\<close> passes the address of a string literal).\<close>

definition restart_from :: "u32 \<Rightarrow> scanner \<Rightarrow> int \<Rightarrow> (u32 \<times> scanner) option" where
  "restart_from cf s pos = do {
     let offset = sint (word_of_int (pos - buffer s) :: 32 word);
     (if offset \<ge> 0 \<and> offset < line_len s then do {
        let s = s\<lparr>readhead := pos, str_begin := pos\<rparr>;
        cf \<leftarrow> update_flags cf s;
        Some (cf, s) }
      else Some (set_flag AT_EOL_FLAG cf, s\<lparr>readhead := buffer s + line_len s\<rparr>)) }"

definition next_char :: "u32 \<Rightarrow> scanner option \<Rightarrow> (int \<times> u32 \<times> scanner option) option" where
  "next_char cf s = (case s of None \<Rightarrow> Some (EOF_c, cf, None) | Some s \<Rightarrow> do {
     nc \<leftarrow> char_at s (readhead s);
     (if nc \<noteq> 0 then do {
        cf \<leftarrow> update_flags cf s;
        Some (nc, cf, Some (s\<lparr>readhead := readhead s + 1\<rparr>)) }
      else Some (nc, cf, Some s)) })"

definition get_scanner_readhead :: "scanner option \<Rightarrow> int" where
  "get_scanner_readhead s = (case s of None \<Rightarrow> 0 | Some s \<Rightarrow> readhead s)"

section \<open>Scanning a token\<close>

definition is_digit_c :: "int \<Rightarrow> bool" where
  "is_digit_c c \<longleftrightarrow> ch (CHR ''0'') \<le> c \<and> c \<le> ch (CHR ''9'')"

text \<open>The one-character cases of the switch of \<open>regex_scan\<close>: the value and type of the token.\<close>

definition char_token :: "int \<Rightarrow> int \<times> symbol_type" where
  "char_token c = (
     if is_digit_c c then (c, ASCIIDIGIT)
     else if c = ch (CHR 0x0A) \<or> c = EOF_c then (0, EOF_SYM)
     else if c = ch (CHR ''$'') then (c, DOLLAR)
     else if c = ch (CHR ''^'') then (c, CIRCUMFLEX)
     else if c = ch (CHR ''.'') then (c, DOT)
     else if c = ch (CHR ''*'') then (c, KLEENE)
     else if c = ch (CHR ''+'') then (c, PLUS)
     else if c = ch (CHR '':'') then (c, COLON)
     else if c = ch (CHR ''|'') then (c, PIPE)
     else if c = ch (CHR ''?'') then (c, QMARK)
     else if c = ch (CHR ''('') then (c, OPENPAREN)
     else if c = ch (CHR '')'') then (c, CLOSEPAREN)
     else if c = ch (CHR ''-'') then (c, HYPHEN)
     else if c = ch (CHR ''['') then (c, OPENBRACKET)
     else if c = ch (CHR '']'') then (c, CLOSEBRACKET)
     else if c = ch (CHR ''{'') then (c, OPENBRACE)
     else if c = ch (CHR ''}'') then (c, CLOSEBRACE)
     else (c, ALPHA))"

definition set_token :: "int \<times> symbol_type \<Rightarrow> scanner \<Rightarrow> scanner option" where
  "set_token v s = do { t \<leftarrow> curtoken s; Some (s\<lparr>curtoken := Some (update_token t (fst v) (snd v))\<rparr>) }"

text \<open>Every case of the switch sets \<open>ret\<close> to 1, so the body of the loop runs at most once. The
  results are the \<open>static\<close> flag, the control flags and the scanner, whose \<open>curtoken\<close> the function
  returns.\<close>

definition regex_scan :: "bool \<Rightarrow> u32 \<Rightarrow> scanner \<Rightarrow> (bool \<times> u32 \<times> scanner) option" where
  "regex_scan seen_newline cf s = (if seen_newline then do {
       s \<leftarrow> set_token (0, EOF_SYM) s;
       Some (seen_newline, cf, s) }
     else do {
       (c, cf, so) \<leftarrow> next_char cf (Some s);
       s \<leftarrow> so;
       (c, seen_newline, cf, s) \<leftarrow>
         (if c = 0 then Some (c, seen_newline, cf, s)
          else if c = ch (CHR 0x5C) then
            (if has_flag ESCP_SEQ_FLAG cf then do {
               (c, cf, so) \<leftarrow> next_char cf (Some s);
               s \<leftarrow> so;
               (if c \<noteq> eol_symbol s then do {
                  s \<leftarrow> (if is_digit_c c then set_token (c - ch (CHR ''0''), BACKREFERENCE) s
                        else set_token (c, ALPHA) s);
                  Some (c, seen_newline, cf, s) }
                else do { so \<leftarrow> unput (Some s); s \<leftarrow> so; Some (c, seen_newline, cf, s) }) }
             else do { s \<leftarrow> set_token (c, ALPHA) s; Some (c, seen_newline, cf, s) })
          else do {
            s \<leftarrow> set_token (char_token c) s;
            Some (c, seen_newline \<or> c = ch (CHR 0x0A), cf, s) });
       s \<leftarrow> (if c = eol_symbol s then set_token (0, EOF_SYM) s else Some s);
       Some (seen_newline, cf, s) })"

section \<open>The stack of scanners\<close>

text \<open>\<open>g_state_stack\<close> is a list of scanner addresses; \<open>gs\<close> is its address. The results are the
  returned value, the new \<open>*old_state\<close> and the heap of lists.\<close>

definition scanner_push_state :: "addr \<Rightarrow> addr lheap \<Rightarrow> ptr \<Rightarrow> ptr \<Rightarrow> (int \<times> ptr \<times> addr lheap) option" where
  "scanner_push_state gs h old_state new_state =
     (if old_state \<noteq> None then do {
        (ret, h) \<leftarrow> stack_push h (Some gs) old_state;
        Some (ret, new_state, h) }
      else Some (0, new_state, h))"

definition scanner_pop_state :: "addr \<Rightarrow> addr lheap \<Rightarrow> ptr \<Rightarrow> (ptr \<times> ptr \<times> addr lheap) option" where
  "scanner_pop_state gs h s =
     (if s \<noteq> None then do {
        (prev_state, h) \<leftarrow> stack_pop h (Some gs);
        Some (s, prev_state, h) }
      else Some (s, s, h))"

definition free_scanner :: "(addr \<Rightarrow> scanner option) \<Rightarrow> ptr \<Rightarrow> (addr \<Rightarrow> scanner option) option" where
  "free_scanner m s = (case s of None \<Rightarrow> Some m | Some a \<Rightarrow> do { _ \<leftarrow> m a; Some (m(a := None)) })"

end
