(* ===== verification/NfaHeap.thy ===== *)
theory NfaHeap
  imports Bits Slist
begin

text \<open>
  The data of the automata, \<open>src/nfa.h\<close>, and their allocator, \<open>src/nfa_alloc.c\<close>.

  A pool is an array of slots; a slot holds one automaton node, and the address of a slot stands
  for the address of its node (\<open>offsetof\<close> converts one into the other). \<open>&pool[i]\<close> is
  \<open>pool + i\<close>; each block is followed by one unused address, so that the pointer one past its end
  points to nothing. The union of a node is its first eight bytes, of which \<open>ulow\<close> says what was
  written last, and the next four, shared by \<open>literal\<close> and \<open>split_idx\<close> (\<open>n_lit\<close>). The header of
  the list \<open>reachable\<close> of a node is in \<open>reach\<close>, under the address of the node.
\<close>

section \<open>Nodes\<close>

definition NFA_ANY :: u32 where "NFA_ANY = 0x1"
definition NFA_LITERAL :: u32 where "NFA_LITERAL = 0x2"
definition NFA_RANGE :: u32 where "NFA_RANGE = 0x4"
definition NFA_SPLIT :: u32 where "NFA_SPLIT = 0x8"
definition NFA_EPSILON :: u32 where "NFA_EPSILON = 0x10"
definition NFA_ACCEPTING :: u32 where "NFA_ACCEPTING = 0x20"
definition NFA_BOL_ANCHOR :: u32 where "NFA_BOL_ANCHOR = 0x40"
definition NFA_EOL_ANCHOR :: u32 where "NFA_EOL_ANCHOR = 0x80"
definition NFA_INTERVAL :: u32 where "NFA_INTERVAL = 0x200"
definition NFA_BACKREFERENCE :: u32 where "NFA_BACKREFERENCE = 0x400"
definition NFA_CAPTUREGRP_END :: u32 where "NFA_CAPTUREGRP_END = 0x800"
definition NFA_CAPTUREGRP_BEGIN :: u32 where "NFA_CAPTUREGRP_BEGIN = 0x1000"
definition NFA_TREE :: u32 where "NFA_TREE = 0x2000"
definition NFA_PROGRESS :: u32 where "NFA_PROGRESS = 0x4000"

lemmas nfa_types = NFA_ANY_def NFA_LITERAL_def NFA_RANGE_def NFA_SPLIT_def NFA_EPSILON_def NFA_ACCEPTING_def
  NFA_BOL_ANCHOR_def NFA_EOL_ANCHOR_def NFA_INTERVAL_def NFA_BACKREFERENCE_def NFA_CAPTUREGRP_END_def
  NFA_CAPTUREGRP_BEGIN_def NFA_TREE_def NFA_PROGRESS_def

definition DONE :: u32 where "DONE = 0x01"
definition CYCLE :: u32 where "CYCLE = 0x02"
definition VISITED :: u32 where "VISITED = 0x04"
definition ACCEPTS :: u32 where "ACCEPTS = 0x08"

datatype ulow = UZero | UReps u32 u32 | URange ptr | UBranches ptr

record nfa =
  n_ctrl :: ptr
  n_parent :: ptr
  n_out1 :: ptr
  n_out2 :: ptr
  n_flags :: u32
  n_id :: u32
  n_type :: u32
  n_low :: ulow
  n_lit :: u32

definition zero_nfa :: nfa where
  "zero_nfa = \<lparr>n_ctrl = None, n_parent = None, n_out1 = None, n_out2 = None, n_flags = 0, n_id = 0,
     n_type = 0, n_low = UZero, n_lit = 0\<rparr>"

definition low_range :: "ulow \<Rightarrow> ptr option" where
  "low_range u = (case u of UZero \<Rightarrow> Some None | URange p \<Rightarrow> Some p | _ \<Rightarrow> None)"

definition low_branches :: "ulow \<Rightarrow> ptr option" where
  "low_branches u = (case u of UZero \<Rightarrow> Some None | UBranches p \<Rightarrow> Some p | _ \<Rightarrow> None)"

definition low_reps :: "ulow \<Rightarrow> (u32 \<times> u32) option" where
  "low_reps u = (case u of UZero \<Rightarrow> Some (0, 0) | UReps a b \<Rightarrow> Some (a, b) | _ \<Rightarrow> None)"

section \<open>The heap of the automata\<close>

record nslot =
  sl_free :: bool
  sl_next :: ptr
  sl_prev :: ptr
  sl_nfa :: nfa

record nalloc =
  al_free :: ptr
  al_pool :: ptr
  al_next :: ptr
  al_prev :: ptr
  al_size :: int

record nctrl =
  c_id :: ptr
  c_next_seq :: u32
  c_next_interval :: u32
  c_free_range :: ptr
  c_alloc :: ptr

record nheap =
  slots :: "addr \<Rightarrow> nslot option"
  allocs :: "addr \<Rightarrow> nalloc option"
  ctrls :: "addr \<Rightarrow> nctrl option"
  ranges :: "addr \<Rightarrow> block list option"
  reach :: "addr lheap"
  nbrk :: addr

definition empty_nheap :: nheap where
  "empty_nheap = \<lparr>slots = (\<lambda>_. None), allocs = (\<lambda>_. None), ctrls = (\<lambda>_. None), ranges = (\<lambda>_. None),
     reach = empty_lheap, nbrk = 0\<rparr>"

definition sget :: "nheap \<Rightarrow> ptr \<Rightarrow> nslot option" where
  "sget h p = deref (slots h) p"

definition sset :: "nheap \<Rightarrow> ptr \<Rightarrow> (nslot \<Rightarrow> nslot) \<Rightarrow> nheap option" where
  "sset h p f = do { a \<leftarrow> p; s \<leftarrow> slots h a; Some (h\<lparr>slots := (slots h)(a \<mapsto> f s)\<rparr>) }"

definition alget :: "nheap \<Rightarrow> ptr \<Rightarrow> nalloc option" where
  "alget h p = deref (allocs h) p"

definition alset :: "nheap \<Rightarrow> ptr \<Rightarrow> (nalloc \<Rightarrow> nalloc) \<Rightarrow> nheap option" where
  "alset h p f = do { a \<leftarrow> p; s \<leftarrow> allocs h a; Some (h\<lparr>allocs := (allocs h)(a \<mapsto> f s)\<rparr>) }"

definition ctget :: "nheap \<Rightarrow> ptr \<Rightarrow> nctrl option" where
  "ctget h p = deref (ctrls h) p"

definition ctset :: "nheap \<Rightarrow> ptr \<Rightarrow> (nctrl \<Rightarrow> nctrl) \<Rightarrow> nheap option" where
  "ctset h p f = do { a \<leftarrow> p; s \<leftarrow> ctrls h a; Some (h\<lparr>ctrls := (ctrls h)(a \<mapsto> f s)\<rparr>) }"

definition nget :: "nheap \<Rightarrow> ptr \<Rightarrow> nfa option" where
  "nget h p = do { s \<leftarrow> sget h p; Some (sl_nfa s) }"

definition nset :: "nheap \<Rightarrow> ptr \<Rightarrow> (nfa \<Rightarrow> nfa) \<Rightarrow> nheap option" where
  "nset h p f = sset h p (\<lambda>s. s\<lparr>sl_nfa := f (sl_nfa s)\<rparr>)"

lemmas nh_prims = sget_def sset_def alget_def alset_def ctget_def ctset_def nget_def nset_def

definition zero_slot :: nslot where
  "zero_slot = \<lparr>sl_free = False, sl_next = None, sl_prev = None, sl_nfa = zero_nfa\<rparr>"

definition calloc_alloc :: "nheap \<Rightarrow> addr \<times> nheap" where
  "calloc_alloc h = (nbrk h, h\<lparr>allocs := (allocs h)(nbrk h \<mapsto>
     \<lparr>al_free = None, al_pool = None, al_next = None, al_prev = None, al_size = 0\<rparr>), nbrk := nbrk h + 1\<rparr>)"

definition calloc_pool :: "nheap \<Rightarrow> nat \<Rightarrow> addr \<times> nheap" where
  "calloc_pool h n = (let b = nbrk h in
     (b, h\<lparr>slots := (\<lambda>a. if b \<le> a \<and> a < b + n then Some zero_slot else slots h a),
        reach := (reach h)\<lparr>lists := (\<lambda>a. if b \<le> a \<and> a < b + n then Some zero_list else lists (reach h) a),
          brk := max (brk (reach h)) (b + n)\<rparr>, nbrk := b + n + 1\<rparr>))"

section \<open>The allocator\<close>

function init_loop :: "nheap \<Rightarrow> addr \<Rightarrow> ptr \<Rightarrow> nat \<Rightarrow> nat \<Rightarrow> (ptr \<times> nheap) option" where
  "init_loop h pool prev i num = (if i < num - 1 then do {
       h \<leftarrow> sset h (Some (pool + i)) (sl_free_update (\<lambda>_. True));
       h \<leftarrow> sset h (Some (pool + i)) (sl_next_update (\<lambda>_. Some (pool + (i + 1))));
       h \<leftarrow> sset h (Some (pool + i)) (sl_prev_update (\<lambda>_. prev));
       init_loop h pool (Some (pool + i)) (i + 1) num }
     else Some (prev, h))"
  by pat_completeness auto
termination by (relation "measure (\<lambda>(h, p, v, i, n). n - i)") auto

declare init_loop.simps [simp del]

text \<open>\<open>calloc(num, sizeof(NFAlloc))\<close> allocates \<open>num\<close> headers, of which only the first is used.\<close>

definition nfa_alloc_init :: "nheap \<Rightarrow> ptr \<Rightarrow> int \<Rightarrow> nheap option" where
  "nfa_alloc_init h ctrl num = (if ctrl = None \<or> num < 1 then Some h else do {
     _ \<leftarrow> ctget h ctrl;
     let (al, h) = calloc_alloc h;
     h \<leftarrow> ctset h ctrl (c_alloc_update (\<lambda>_. Some al));
     let (pool, h) = calloc_pool h (nat num);
     h \<leftarrow> alset h (Some al) (al_pool_update (\<lambda>_. Some pool));
     h \<leftarrow> alset h (Some al) (al_size_update (\<lambda>_. num));
     h \<leftarrow> sset h (Some pool) (sl_free_update (\<lambda>_. True));
     h \<leftarrow> (if num = 1 then do {
             h \<leftarrow> sset h (Some pool) (sl_free_update (\<lambda>_. True));
             h \<leftarrow> sset h (Some pool) (sl_next_update (\<lambda>_. Some pool));
             sset h (Some pool) (sl_prev_update (\<lambda>_. Some pool)) }
           else do {
             h \<leftarrow> sset h (Some pool) (sl_free_update (\<lambda>_. True));
             h \<leftarrow> sset h (Some pool) (sl_next_update (\<lambda>_. Some (pool + 1)));
             h \<leftarrow> sset h (Some pool) (sl_prev_update (\<lambda>_. Some (pool + (nat num - 1))));
             (prev, h) \<leftarrow> init_loop h pool (Some pool) 1 (nat num);
             h \<leftarrow> sset h (Some (pool + (nat num - 1))) (sl_free_update (\<lambda>_. True));
             h \<leftarrow> sset h (Some (pool + (nat num - 1))) (sl_next_update (\<lambda>_. Some pool));
             sset h (Some (pool + (nat num - 1))) (sl_prev_update (\<lambda>_. prev)) });
     h \<leftarrow> alset h (Some al) (al_free_update (\<lambda>_. Some pool));
     h \<leftarrow> alset h (Some al) (al_next_update (\<lambda>_. Some al));
     alset h (Some al) (al_prev_update (\<lambda>_. Some al)) })"

definition nfa_dealloc :: "nheap \<Rightarrow> ptr \<Rightarrow> ptr \<Rightarrow> nheap option" where
  "nfa_dealloc h alloc nfa = (if alloc = None \<or> nfa = None then Some h else do {
     let released = nfa;
     h \<leftarrow> sset h released (sl_free_update (\<lambda>_. True));
     A \<leftarrow> alget h alloc;
     (if al_free A = None then do {
        h \<leftarrow> alset h alloc (al_free_update (\<lambda>_. released));
        h \<leftarrow> sset h released (sl_next_update (\<lambda>_. released));
        sset h released (sl_prev_update (\<lambda>_. released)) }
      else do {
        h \<leftarrow> sset h released (sl_prev_update (\<lambda>_. al_free A));
        f \<leftarrow> sget h (al_free A);
        h \<leftarrow> sset h released (sl_next_update (\<lambda>_. sl_next f));
        f \<leftarrow> sget h (al_free A);
        h \<leftarrow> sset h (sl_next f) (sl_prev_update (\<lambda>_. released));
        sset h (al_free A) (sl_next_update (\<lambda>_. released)) }) })"

function expand_loop :: "nheap \<Rightarrow> addr \<Rightarrow> ptr \<Rightarrow> nat \<Rightarrow> nat \<Rightarrow> nheap option" where
  "expand_loop h pool prev i n = (if i < n then do {
       h \<leftarrow> sset h (Some (pool + i)) (sl_free_update (\<lambda>_. True));
       h \<leftarrow> sset h (Some (pool + i)) (sl_next_update (\<lambda>_. Some (pool + (i + 1))));
       h \<leftarrow> sset h (Some (pool + i)) (sl_prev_update (\<lambda>_. prev));
       expand_loop h pool (Some (pool + i)) (i + 1) n }
     else Some h)"
  by pat_completeness auto
termination by (relation "measure (\<lambda>(h, p, v, i, n). n - i)") auto

declare expand_loop.simps [simp del]

text \<open>The result is the new \<open>*alloc\<close> and the heap; \<open>calloc\<close> is taken to succeed.\<close>

definition nfa_alloc_expand :: "nheap \<Rightarrow> ptr \<Rightarrow> (ptr \<times> nheap) option" where
  "nfa_alloc_expand h alloc = do {
     A \<leftarrow> alget h alloc;
     let size = nat (al_size A);
     let (na, h) = calloc_alloc h;
     h \<leftarrow> alset h (Some na) (al_prev_update (\<lambda>_. alloc));
     h \<leftarrow> alset h (Some na) (al_next_update (\<lambda>_. al_next A));
     h \<leftarrow> alset h (al_next A) (al_prev_update (\<lambda>_. Some na));
     h \<leftarrow> alset h alloc (al_next_update (\<lambda>_. Some na));
     let alloc = Some na;
     let (pool, h) = calloc_pool h (2 * size);
     h \<leftarrow> alset h alloc (al_pool_update (\<lambda>_. Some pool));
     h \<leftarrow> sset h (Some (pool + size)) (sl_free_update (\<lambda>_. True));
     h \<leftarrow> (if 2 * size - size = 1 then do {
             h \<leftarrow> sset h (Some (pool + size)) (sl_prev_update (\<lambda>_. Some (pool + size)));
             sset h (Some (pool + size)) (sl_next_update (\<lambda>_. Some (pool + size))) }
           else do {
             h \<leftarrow> sset h (Some (pool + size)) (sl_prev_update (\<lambda>_. Some (pool + (2 * size - 1))));
             h \<leftarrow> sset h (Some (pool + size)) (sl_next_update (\<lambda>_. Some (pool + (size + 1))));
             expand_loop h pool (Some (pool + size)) (size + 1) (2 * size) });
     h \<leftarrow> alset h alloc (al_free_update (\<lambda>_. Some (pool + size)));
     h \<leftarrow> alset h alloc (al_size_update (\<lambda>_. 2 * int size));
     Some (alloc, h) }"

text \<open>The results are the node, the new \<open>*alloc\<close> and the heap.\<close>

definition nfa_alloc :: "nheap \<Rightarrow> ptr \<Rightarrow> (ptr \<times> ptr \<times> nheap) option" where
  "nfa_alloc h alloc = (if alloc = None then Some (None, alloc, h) else do {
     A \<leftarrow> alget h alloc;
     (alloc, h) \<leftarrow> (if al_free A = None then nfa_alloc_expand h alloc else Some (alloc, h));
     A \<leftarrow> alget h alloc;
     let ret = al_free A;
     h \<leftarrow> sset h ret (sl_free_update (\<lambda>_. False));
     f \<leftarrow> sget h ret;
     h \<leftarrow> (if sl_prev f = ret then alset h alloc (al_free_update (\<lambda>_. None))
           else do {
             h \<leftarrow> sset h (sl_next f) (sl_prev_update (\<lambda>_. sl_prev f));
             f \<leftarrow> sget h ret;
             h \<leftarrow> sset h (sl_prev f) (sl_next_update (\<lambda>_. sl_next f));
             f \<leftarrow> sget h ret;
             alset h alloc (al_free_update (\<lambda>_. sl_next f)) });
     Some (ret, alloc, h) })"

section \<open>Releasing everything\<close>

definition free_range :: "nheap \<Rightarrow> ptr \<Rightarrow> nheap option" where
  "free_range h p = (case p of None \<Rightarrow> Some h | Some a \<Rightarrow> do { _ \<leftarrow> ranges h a; Some (h\<lparr>ranges := (ranges h)(a := None)\<rparr>) })"

text \<open>The loop of \<open>nfa_free_pool\<close>; \<open>lh\<close> is the heap of the lists of branches.\<close>

primrec free_slots :: "nheap \<Rightarrow> addr lheap \<Rightarrow> addr list \<Rightarrow> (nheap \<times> addr lheap) option" where
  "free_slots h lh [] = Some (h, lh)"
| "free_slots h lh (a # as) = do {
     s \<leftarrow> slots h a;
     let nfa = sl_nfa s;
     (h, lh) \<leftarrow> (if \<not> sl_free s then
         (if n_type nfa = NFA_RANGE then do { r \<leftarrow> low_range (n_low nfa); h \<leftarrow> free_range h r; Some (h, lh) }
          else if n_type nfa = NFA_TREE then do {
            b \<leftarrow> low_branches (n_low nfa);
            (_, lh) \<leftarrow> list_free lh b False;
            Some (h, lh) }
          else Some (h, lh))
       else Some (h, lh));
     (_, rh) \<leftarrow> list_free_items (reach h) (Some a) False;
     free_slots (h\<lparr>reach := rh\<rparr>) lh as }"

definition nfa_free_pool :: "nheap \<Rightarrow> addr lheap \<Rightarrow> ptr \<Rightarrow> int \<Rightarrow> (nheap \<times> addr lheap) option" where
  "nfa_free_pool h lh pool sz = (case pool of None \<Rightarrow> Some (h, lh) | Some b \<Rightarrow>
     if sz \<le> 0 then Some (h, lh) else do {
       (h, lh) \<leftarrow> free_slots h lh [b..<b + nat sz];
       Some (h\<lparr>slots := (\<lambda>a. if b \<le> a \<and> a < b + nat sz then None else slots h a),
         reach := (reach h)\<lparr>lists := (\<lambda>a. if b \<le> a \<and> a < b + nat sz then None else lists (reach h) a)\<rparr>\<rparr>, lh) })"

definition free_alloc :: "nheap \<Rightarrow> ptr \<Rightarrow> nheap option" where
  "free_alloc h p = do { a \<leftarrow> p; _ \<leftarrow> allocs h a; Some (h\<lparr>allocs := (allocs h)(a := None)\<rparr>) }"

partial_function (option) free_alloc_loop ::
    "nheap \<Rightarrow> addr lheap \<Rightarrow> ptr \<Rightarrow> ptr \<Rightarrow> (ptr \<times> nheap \<times> addr lheap) option" where [code]:
  "free_alloc_loop h lh alloc lst = (if alloc \<noteq> lst then do {
       h \<leftarrow> alset h alloc (al_prev_update (\<lambda>_. None));
       A \<leftarrow> alget h alloc;
       (h, lh) \<leftarrow> nfa_free_pool h lh (al_pool A) (al_size A);
       h \<leftarrow> alset h alloc (al_pool_update (\<lambda>_. None));
       A \<leftarrow> alget h alloc;
       let alloc = al_next A;
       A \<leftarrow> alget h alloc;
       h \<leftarrow> alset h (al_prev A) (al_next_update (\<lambda>_. None));
       A \<leftarrow> alget h alloc;
       h \<leftarrow> free_alloc h (al_prev A);
       free_alloc_loop h lh alloc lst }
     else Some (alloc, h, lh))"

definition nfa_free_alloc :: "nheap \<Rightarrow> addr lheap \<Rightarrow> ptr \<Rightarrow> (ptr \<times> nheap \<times> addr lheap) option" where
  "nfa_free_alloc h lh alloc = (if alloc = None then Some (alloc, h, lh) else do {
     A \<leftarrow> alget h alloc;
     (alloc, h, lh) \<leftarrow> free_alloc_loop h lh alloc (al_prev A);
     A \<leftarrow> alget h alloc;
     (h, lh) \<leftarrow> nfa_free_pool h lh (al_pool A) (al_size A);
     h \<leftarrow> alset h alloc (al_pool_update (\<lambda>_. None));
     h \<leftarrow> free_alloc h alloc;
     Some (None, h, lh) })"

end
