(* ===== verification/NfaAllocOps.thy ===== *)
theory NfaAllocOps
  imports NfaHeap Ring
begin

text \<open>
  The allocator of \<open>src/nfa_alloc.c\<close>: \<open>alloc_ok h al L F As\<close> says that \<open>al\<close> is the current
  allocation header, \<open>L\<close> a set of slots in use, \<open>F\<close> the ring of free slots of \<open>al\<close>, and \<open>As\<close> the
  ring of all headers, from \<open>al\<close> on.
\<close>

definition snext :: "nheap \<Rightarrow> links" where
  "snext h a = map_option sl_next (slots h a)"

definition sprev :: "nheap \<Rightarrow> links" where
  "sprev h a = map_option sl_prev (slots h a)"

definition sfree :: "nheap \<Rightarrow> addr \<Rightarrow> bool option" where
  "sfree h a = map_option sl_free (slots h a)"

definition nfa_at :: "nheap \<Rightarrow> addr \<Rightarrow> nfa option" where
  "nfa_at h a = map_option sl_nfa (slots h a)"

definition anext :: "nheap \<Rightarrow> links" where
  "anext h a = map_option al_next (allocs h a)"

definition aprev :: "nheap \<Rightarrow> links" where
  "aprev h a = map_option al_prev (allocs h a)"

definition alloc_ok :: "nheap \<Rightarrow> addr \<Rightarrow> addr set \<Rightarrow> addr list \<Rightarrow> addr list \<Rightarrow> bool" where
  "alloc_ok h al L F As \<longleftrightarrow>
     (\<exists>A. allocs h al = Some A \<and> al_free A = hdp F \<and> 1 \<le> al_size A) \<and>
     dring (snext h) (sprev h) F \<and> (\<forall>x \<in> set F. sfree h x = Some True) \<and> (\<forall>x \<in> L. sfree h x = Some False) \<and>
     As \<noteq> [] \<and> hd As = al \<and> dring (anext h) (aprev h) As \<and>
     (\<forall>a \<ge> nbrk h. slots h a = None \<and> allocs h a = None)"

text \<open>What the allocator leaves alone: the nodes, and everything outside the pools.\<close>

definition same_nodes :: "nheap \<Rightarrow> nheap \<Rightarrow> bool" where
  "same_nodes h h' \<longleftrightarrow> (\<forall>a. slots h a \<noteq> None \<longrightarrow> nfa_at h' a = nfa_at h a) \<and> ctrls h' = ctrls h \<and> ranges h' = ranges h \<and>
     (\<forall>a. slots h a \<noteq> None \<longrightarrow> lists (reach h') a = lists (reach h) a) \<and> items (reach h') = items (reach h)"

lemma same_nodes_refl: "same_nodes h h"
  by (simp add: same_nodes_def)

lemma same_nodes_trans:
  assumes "same_nodes h g" "same_nodes g k" "\<forall>a. slots h a \<noteq> None \<longrightarrow> slots g a \<noteq> None"
  shows "same_nodes h k"
  using assms by (simp add: same_nodes_def)

lemma link_upd:
  "snext (h\<lparr>slots := (slots h)(a \<mapsto> s)\<rparr>) = (snext h)(a \<mapsto> sl_next s)"
  "sprev (h\<lparr>slots := (slots h)(a \<mapsto> s)\<rparr>) = (sprev h)(a \<mapsto> sl_prev s)"
  "sfree (h\<lparr>slots := (slots h)(a \<mapsto> s)\<rparr>) = (sfree h)(a \<mapsto> sl_free s)"
  "nfa_at (h\<lparr>slots := (slots h)(a \<mapsto> s)\<rparr>) = (nfa_at h)(a \<mapsto> sl_nfa s)"
  by (auto simp: snext_def sprev_def sfree_def nfa_at_def)

text \<open>A slot update as a change of its four components.\<close>

lemma sset_ok:
  assumes "slots h a = Some s"
  shows "sset h (Some a) f = Some (h\<lparr>slots := (slots h)(a \<mapsto> f s)\<rparr>)"
  using assms by (simp add: sset_def)

section \<open>Releasing a slot\<close>

lemma nfa_dealloc_ok:
  assumes A: "alloc_ok h al L F As" and x: "x \<in> L"
  shows "\<exists>h'. nfa_dealloc h (Some al) (Some x) = Some h' \<and>
    alloc_ok h' al (L - {x}) (if F = [] then [x] else hd F # x # tl F) As \<and>
    same_nodes h h' \<and> nbrk h' = nbrk h \<and> dom (slots h') = dom (slots h)"
proof -
  from A obtain K where K: "allocs h al = Some K" "al_free K = hdp F" "1 \<le> al_size K" by (auto simp: alloc_ok_def)
  have B: "dring (snext h) (sprev h) F" "\<forall>x \<in> set F. sfree h x = Some True" "\<forall>x \<in> L. sfree h x = Some False"
    "As \<noteq> [] \<and> hd As = al \<and> dring (anext h) (aprev h) As" "\<forall>a \<ge> nbrk h. slots h a = None \<and> allocs h a = None"
    using A by (auto simp: alloc_ok_def)
  obtain s where s: "slots h x = Some s" "sl_free s = False" using B(3) x by (auto simp: sfree_def)
  have xF: "x \<notin> set F" using B(2,3) x by auto
  show ?thesis
  proof (cases F)
    case Nil
    let ?s = "s\<lparr>sl_free := True, sl_next := Some x, sl_prev := Some x\<rparr>"
    let ?h = "h\<lparr>allocs := (allocs h)(al \<mapsto> K\<lparr>al_free := Some x\<rparr>), slots := (slots h)(x \<mapsto> ?s)\<rparr>"
    have "nfa_dealloc h (Some al) (Some x) = Some ?h"
      using K s Nil by (simp add: nfa_dealloc_def nh_prims Let_def)
    moreover have "dring (anext ?h) (aprev ?h) As = dring (anext h) (aprev h) As"
      using K by (intro dring_cong) (auto simp: anext_def aprev_def)
    moreover have "dring (snext ?h) (sprev ?h) [x]" by (simp add: dring_def snext_def sprev_def)
    ultimately show ?thesis using B(3-5) K Nil s
      by (auto simp: alloc_ok_def same_nodes_def sfree_def nfa_at_def)
  next
    case (Cons f fs)
    let ?g = "hd (fs @ [f])"
    have nf: "snext h f = Some (Some ?g)" using dring_ends(3) [OF B(1)] Cons by (cases fs) auto
    have gF: "?g \<in> set F" using Cons by (cases fs) auto
    obtain u v where u: "slots h f = Some u" "sl_next u = Some ?g" and v: "slots h ?g = Some v"
      using nf B(2) gF by (auto simp: snext_def sfree_def)
    have ne: "x \<noteq> f" "x \<noteq> ?g" using xF gF Cons by auto
    let ?s = "s\<lparr>sl_free := True, sl_prev := Some f, sl_next := Some ?g\<rparr>"
    let ?h1 = "h\<lparr>slots := (slots h)(x \<mapsto> ?s)\<rparr>"
    let ?h2 = "?h1\<lparr>slots := (slots ?h1)(?g \<mapsto> v\<lparr>sl_prev := Some x\<rparr>)\<rparr>"
    obtain u' where u': "slots ?h2 f = Some u'" "u' = (if f = ?g then v\<lparr>sl_prev := Some x\<rparr> else u)" using u ne by auto
    let ?h3 = "?h2\<lparr>slots := (slots ?h2)(f \<mapsto> u'\<lparr>sl_next := Some x\<rparr>)\<rparr>"
    have e: "nfa_dealloc h (Some al) (Some x) = Some ?h3"
      using K s u v u' ne Cons by (simp add: nfa_dealloc_def nh_prims Let_def)
    have vu: "f = ?g \<Longrightarrow> u = v" using u v by simp
    have n: "snext ?h3 = (snext h)(x \<mapsto> Some ?g, f \<mapsto> Some x)"
      using u v u' vu ne by (auto simp: snext_def fun_eq_iff)
    have p: "sprev ?h3 = (sprev h)(x \<mapsto> Some f, ?g \<mapsto> Some x)"
      using u v u' vu ne by (auto simp: sprev_def fun_eq_iff)
    have fr: "sfree ?h3 = (sfree h)(x \<mapsto> True)" "nfa_at ?h3 = nfa_at h"
      using u v u' vu ne s by (auto simp: sfree_def nfa_at_def fun_eq_iff)
    have "dring (snext ?h3) (sprev ?h3) (f # x # fs)"
      by (rule dring_insert [OF _ _ n p]) (use B(1) xF Cons in auto)
    moreover have "dom (slots ?h3) = dom (slots h)" using s u v u' by auto
    moreover have "\<forall>a \<ge> nbrk h. slots ?h3 a = None" using B(5) s u v by (metis domIff calculation(2))
    moreover have "anext ?h3 = anext h" "aprev ?h3 = aprev h" by (auto simp: anext_def aprev_def)
    ultimately have "alloc_ok ?h3 al (L - {x}) (f # x # fs) As"
      using B K Cons fr(1) unfolding alloc_ok_def by auto
    moreover have "same_nodes h ?h3" unfolding same_nodes_def using fr(2) by simp
    ultimately show ?thesis using e Cons \<open>dom (slots ?h3) = dom (slots h)\<close> by (intro exI [of _ ?h3]) simp
  qed
qed

section \<open>Taking a slot\<close>

text \<open>The end of \<open>nfa_alloc\<close>, on a free list whose last link may still dangle.\<close>

definition take_free :: "nheap \<Rightarrow> ptr \<Rightarrow> (ptr \<times> ptr \<times> nheap) option" where
  "take_free h alloc = do {
     A \<leftarrow> alget h alloc;
     let ret = al_free A;
     h \<leftarrow> sset h ret (sl_free_update (\<lambda>_. False));
     f \<leftarrow> sget h ret;
     h \<leftarrow> (if sl_prev f = ret then alset h alloc (al_free_update (\<lambda>_. None))
           else do {
             h \<leftarrow> sset h (sl_next f) (sl_prev_update (\<lambda>_. sl_prev f));
             f \<leftarrow> sget h ret;
             h \<leftarrow> sset h (sl_prev f) (sl_next_update (\<lambda>_. sl_next f));
             f \<leftarrow> sget h ret;
             alset h alloc (al_free_update (\<lambda>_. sl_next f)) });
     Some (ret, alloc, h) }"

lemma nfa_alloc_take: "nfa_alloc h alloc = (if alloc = None then Some (None, alloc, h) else do {
     A \<leftarrow> alget h alloc;
     (alloc, h) \<leftarrow> (if al_free A = None then nfa_alloc_expand h alloc else Some (alloc, h));
     take_free h alloc })"
  by (simp add: nfa_alloc_def take_free_def)

text \<open>\<open>open_ring\<close>: a ring whose last \<open>next\<close> may be anything.\<close>

definition open_ring :: "links \<Rightarrow> links \<Rightarrow> addr list \<Rightarrow> bool" where
  "open_ring n p as \<longleftrightarrow> distinct as \<and> (as \<noteq> [] \<longrightarrow> (\<exists>q. lpath n (Some (hd as)) as q) \<and>
     lpath p (Some (last as)) (rev as) (Some (last as)))"

lemma dring_open: "dring n p as \<Longrightarrow> open_ring n p as"
  by (auto simp: dring_def open_ring_def)

lemma take_free_ok:
  assumes K: "allocs h al = Some K" "al_free K = Some f" "1 \<le> al_size K"
    and R: "open_ring (snext h) (sprev h) (f # fs)" "\<forall>x \<in> set (f # fs). sfree h x = Some True" "\<forall>x \<in> L. sfree h x = Some False"
    and A: "As \<noteq> []" "hd As = al" "dring (anext h) (aprev h) As" "\<forall>a \<ge> nbrk h. slots h a = None \<and> allocs h a = None"
  shows "\<exists>h'. take_free h (Some al) = Some (Some f, Some al, h') \<and> alloc_ok h' al (insert f L) fs As \<and>
    same_nodes h h' \<and> nbrk h' = nbrk h \<and> dom (slots h') = dom (slots h)"
proof -
  obtain u where u: "slots h f = Some u" "sl_free u" using R(2) by (auto simp: sfree_def)
  have d: "distinct (f # fs)" using R(1) by (simp add: open_ring_def)
  have pf: "sprev h f = Some (Some (last (f # fs)))"
    using R(1) lpath_nth [of "sprev h" "Some (last (f # fs))" "rev (f # fs)" "Some (last (f # fs))" "length fs"]
    by (simp add: open_ring_def nth_append)
  then have up: "sl_prev u = Some (last (f # fs))" using u by (simp add: sprev_def)
  show ?thesis
  proof (cases fs)
    case Nil
    let ?h = "h\<lparr>slots := (slots h)(f \<mapsto> u\<lparr>sl_free := False\<rparr>), allocs := (allocs h)(al \<mapsto> K\<lparr>al_free := None\<rparr>)\<rparr>"
    have "take_free h (Some al) = Some (Some f, Some al, ?h)"
      using K u up Nil by (simp add: take_free_def nh_prims)
    moreover have "dring (anext ?h) (aprev ?h) As = dring (anext h) (aprev h) As"
      using K by (intro dring_cong) (auto simp: anext_def aprev_def)
    ultimately show ?thesis using A R(3) K Nil u
      by (auto simp: alloc_ok_def same_nodes_def sfree_def nfa_at_def)
  next
    case (Cons g gs)
    obtain q where q: "lpath (snext h) (Some f) (f # fs) q" using R(1) by (auto simp: open_ring_def)
    have rl: "rev (f # fs) = rev fs @ [f]" "last (f # fs) = last fs" using Cons by auto
    have pv: "lpath (sprev h) (Some (last fs)) (rev fs) (Some f)"
      using R(1) unfolding open_ring_def rl by (auto dest: lpath_head)
    have un: "sl_next u = Some g" using q Cons u by (auto simp: snext_def)
    have ul: "sl_prev u = Some (last fs)" using up Cons by simp
    have gl: "g \<in> set fs" "last fs \<in> set fs" "f \<noteq> g" "f \<noteq> last fs" using Cons d last_in_set [of fs] by auto
    have sm: "\<forall>x \<in> set fs. \<exists>z. slots h x = Some z" using R(2) by (auto simp: sfree_def)
    obtain v w where v: "slots h g = Some v" and w: "slots h (last fs) = Some w"
      using sm gl(1,2) by blast
    have vw: "g = last fs \<Longrightarrow> v = w" using v w by simp
    let ?h1 = "h\<lparr>slots := (slots h)(f \<mapsto> u\<lparr>sl_free := False\<rparr>)\<rparr>"
    let ?h2 = "?h1\<lparr>slots := (slots ?h1)(g \<mapsto> v\<lparr>sl_prev := Some (last fs)\<rparr>)\<rparr>"
    obtain w' where w': "slots ?h2 (last fs) = Some w'" "w' = (if g = last fs then v\<lparr>sl_prev := Some (last fs)\<rparr> else w)"
      using w gl by auto
    let ?h3 = "?h2\<lparr>slots := (slots ?h2)(last fs \<mapsto> w'\<lparr>sl_next := Some g\<rparr>)\<rparr>"
    let ?h4 = "?h3\<lparr>allocs := (allocs h)(al \<mapsto> K\<lparr>al_free := Some g\<rparr>)\<rparr>"
    have ns: "sl_prev u \<noteq> Some f" using ul gl by simp
    have e: "take_free h (Some al) = Some (Some f, Some al, ?h4)"
      using K u v w' gl un ul ns by (simp add: take_free_def nh_prims)
    have n: "snext ?h4 = (snext h)(last fs \<mapsto> Some (hd fs))"
      using u v w w' vw gl Cons by (auto simp: snext_def fun_eq_iff)
    have p: "sprev ?h4 = (sprev h)(hd fs \<mapsto> Some (last fs))"
      using u v w w' vw gl Cons by (auto simp: sprev_def fun_eq_iff)
    have fr: "sfree ?h4 = (sfree h)(f \<mapsto> False)" "nfa_at ?h4 = nfa_at h"
      using u v w w' vw gl by (auto simp: sfree_def nfa_at_def fun_eq_iff)
    have "dring (snext ?h4) (sprev ?h4) fs"
      by (rule dring_take [OF q pv _ _ n p]) (use d Cons in auto)
    moreover have dm: "dom (slots ?h4) = dom (slots h)" using u v w' w by auto
    moreover have "dring (anext ?h4) (aprev ?h4) As = dring (anext h) (aprev h) As"
      using K by (intro dring_cong) (auto simp: anext_def aprev_def)
    moreover have "\<forall>a \<ge> nbrk h. slots ?h4 a = None" using A(4) dm by (metis domIff)
    moreover have "\<forall>x \<in> set fs. sfree ?h4 x = Some True" unfolding fr(1) using R(2) d by auto
    moreover have "\<forall>x \<in> insert f L. sfree ?h4 x = Some False" unfolding fr(1) using R(3) by auto
    moreover have "\<forall>a \<ge> nbrk h. allocs ?h4 a = None" using A(4) K by auto
    ultimately have "alloc_ok ?h4 al (insert f L) fs As"
      using A K Cons unfolding alloc_ok_def by auto
    moreover have "same_nodes h ?h4" unfolding same_nodes_def fr(2) by simp
    ultimately show ?thesis using e dm by (intro exI [of _ ?h4]) simp
  qed
qed

section \<open>A new pool\<close>

text \<open>The links that the loop of \<open>nfa_alloc_expand\<close> writes.\<close>

lemma expand_loop_ok:
  assumes "\<forall>j. i \<le> j \<and> j < n \<longrightarrow> slots h (pool + j) \<noteq> None"
  shows "\<exists>h'. expand_loop h pool pv i n = Some h' \<and>
    (\<forall>a. slots h' a = (if pool + i \<le> a \<and> a < pool + n
       then map_option (\<lambda>s. s\<lparr>sl_free := True, sl_next := Some (a + 1), sl_prev := (if a = pool + i then pv else Some (a - 1))\<rparr>) (slots h a)
       else slots h a)) \<and>
    allocs h' = allocs h \<and> ctrls h' = ctrls h \<and> ranges h' = ranges h \<and> reach h' = reach h \<and> nbrk h' = nbrk h"
  using assms
proof (induction "n - i" arbitrary: i h pv)
  case 0
  then show ?case by (subst expand_loop.simps) auto
next
  case (Suc k)
  have i: "i < n" "k = n - Suc i" using Suc.hyps(2) by auto
  obtain s where s: "slots h (pool + i) = Some s" using Suc.prems i(1) by blast
  let ?s = "s\<lparr>sl_free := True, sl_next := Some (pool + (i + 1)), sl_prev := pv\<rparr>"
  let ?h = "h\<lparr>slots := (slots h)(pool + i \<mapsto> ?s)\<rparr>"
  have "\<forall>j. Suc i \<le> j \<and> j < n \<longrightarrow> slots ?h (pool + j) \<noteq> None" using Suc.prems by auto
  from Suc.hyps(1) [OF i(2) this, of "Some (pool + i)"] obtain h' where
    h': "expand_loop ?h pool (Some (pool + i)) (Suc i) n = Some h'"
    "\<forall>a. slots h' a = (if pool + Suc i \<le> a \<and> a < pool + n
       then map_option (\<lambda>s. s\<lparr>sl_free := True, sl_next := Some (a + 1), sl_prev := (if a = pool + Suc i then Some (pool + i) else Some (a - 1))\<rparr>) (slots ?h a)
       else slots ?h a)"
    "allocs h' = allocs ?h" "ctrls h' = ctrls ?h" "ranges h' = ranges ?h" "reach h' = reach ?h" "nbrk h' = nbrk ?h" by blast
  have "expand_loop h pool pv i n = Some h'"
    using i s h'(1) by (subst expand_loop.simps) (simp add: sset_def)
  moreover have "slots h' a = (if pool + i \<le> a \<and> a < pool + n
       then map_option (\<lambda>s. s\<lparr>sl_free := True, sl_next := Some (a + 1), sl_prev := (if a = pool + i then pv else Some (a - 1))\<rparr>) (slots h a)
       else slots h a)" for a
  proof (cases "a = pool + i")
    case True
    then show ?thesis using h'(2) s i by simp
  next
    case False
    then show ?thesis using h'(2) by auto
  qed
  ultimately show ?case using h'(3-7) by auto
qed

lemma lpath_upt:
  assumes "b < e" "\<forall>a. b \<le> a \<and> a < e \<longrightarrow> n a = Some (Some (Suc a))"
  shows "lpath n (Some b) [b..<e] (Some e)"
  using assms
proof (induction "e - b" arbitrary: b)
  case (Suc k)
  have "[b..<e] = b # [Suc b..<e]" using Suc.prems(1) by (simp add: upt_conv_Cons)
  then show ?case using Suc by (cases "Suc b = e") auto
qed simp

lemma lpath_rev_upt:
  assumes "b < e" "\<forall>a. b < a \<and> a < e \<longrightarrow> p a = Some (Some (a - 1))" "p b = Some q"
  shows "lpath p (Some (e - 1)) (rev [b..<e]) q"
  using assms
proof (induction "e - b" arbitrary: e)
  case (Suc k)
  then obtain e' where e: "e = Suc e'" by (cases e) auto
  show ?case
  proof (cases "b = e'")
    case True
    then show ?thesis using e Suc.prems by simp
  next
    case False
    then have "b < e'" "k = e' - b" using e Suc.hyps(2) Suc.prems(1) by auto
    with Suc.hyps(1) Suc.prems e have "lpath p (Some (e' - 1)) (rev [b..<e']) q" by auto
    then show ?thesis using e \<open>b < e'\<close> Suc.prems(2) by auto
  qed
qed simp

text \<open>The slots after an expansion: \<open>p\<close> is the new pool and \<open>m\<close> half its size.\<close>

definition expanded :: "(addr \<Rightarrow> nslot option) \<Rightarrow> addr \<Rightarrow> nat \<Rightarrow> addr \<Rightarrow> nslot option" where
  "expanded S p m a = (if p + m \<le> a \<and> a < p + 2 * m then Some (zero_slot\<lparr>sl_free := True,
       sl_next := Some (if m = 1 then a else a + 1), sl_prev := Some (if a = p + m then p + (2 * m - 1) else a - 1)\<rparr>)
     else if p \<le> a \<and> a < p + 2 * m then Some zero_slot else S a)"

lemma expand_slots:
  assumes K: "allocs h al = Some K" "al_size K = int m" "1 \<le> m" "al_next K = Some b" "allocs h b = Some Kb"
    and nb: "nbrk h \<noteq> al" "nbrk h \<noteq> b"
  shows "\<exists>h'. nfa_alloc_expand h (Some al) = Some (Some (nbrk h), h') \<and> slots h' = expanded (slots h) (Suc (nbrk h)) m \<and>
    allocs h' = ((allocs h)(nbrk h \<mapsto> \<lparr>al_free = Some (Suc (nbrk h) + m), al_pool = Some (Suc (nbrk h)), al_next = Some b,
        al_prev = Some al, al_size = 2 * int m\<rparr>, b \<mapsto> Kb\<lparr>al_prev := Some (nbrk h)\<rparr>,
      al \<mapsto> (if b = al then Kb\<lparr>al_prev := Some (nbrk h)\<rparr> else K)\<lparr>al_next := Some (nbrk h)\<rparr>)) \<and>
    ctrls h' = ctrls h \<and> ranges h' = ranges h \<and> nbrk h' = Suc (nbrk h) + 2 * m + 1 \<and> items (reach h') = items (reach h) \<and>
    lists (reach h') = (\<lambda>a. if Suc (nbrk h) \<le> a \<and> a < Suc (nbrk h) + 2 * m then Some zero_list else lists (reach h) a)"
proof -
  let ?na = "nbrk h" and ?p = "Suc (nbrk h)"
  let ?Z = "\<lparr>al_free = None, al_pool = None, al_next = None, al_prev = None, al_size = 0\<rparr>"
  let ?Kc = "if b = al then Kb\<lparr>al_prev := Some ?na\<rparr> else K"
  let ?N = "?Z\<lparr>al_prev := Some al, al_next := Some b\<rparr>"
  let ?m3 = "(allocs h)(?na \<mapsto> ?N, b \<mapsto> Kb\<lparr>al_prev := Some ?na\<rparr>, al \<mapsto> ?Kc\<lparr>al_next := Some ?na\<rparr>)"
  let ?g = "h\<lparr>allocs := ?m3, nbrk := ?p\<rparr>"
  have g: "do { h \<leftarrow> alset (snd (calloc_alloc h)) (Some ?na) (al_prev_update (\<lambda>_. Some al));
       h \<leftarrow> alset h (Some ?na) (al_next_update (\<lambda>_. Some b));
       h \<leftarrow> alset h (Some b) (al_prev_update (\<lambda>_. Some ?na));
       alset h (Some al) (al_next_update (\<lambda>_. Some ?na)) } = Some ?g"
    using K nb by (auto simp: calloc_alloc_def alset_def)
  let ?S = "\<lambda>a. if ?p \<le> a \<and> a < ?p + 2 * m then Some zero_slot else slots h a"
  obtain g2 where g2: "calloc_pool ?g (2 * m) = (?p, g2)" "slots g2 = ?S" "allocs g2 = ?m3" "ctrls g2 = ctrls h"
    "ranges g2 = ranges h" "nbrk g2 = ?p + 2 * m + 1" "items (reach g2) = items (reach h)"
    "lists (reach g2) = (\<lambda>a. if ?p \<le> a \<and> a < ?p + 2 * m then Some zero_list else lists (reach h) a)"
    by (simp add: calloc_pool_def Let_def cong: if_cong)
  let ?m4 = "?m3(?na \<mapsto> ?N\<lparr>al_pool := Some ?p\<rparr>)"
  let ?g3 = "g2\<lparr>allocs := ?m4, slots := ?S(?p + m \<mapsto> zero_slot\<lparr>sl_free := True\<rparr>)\<rparr>"
  have n3: "?m3 ?na = Some ?N" using nb by auto
  have pm: "?S (?p + m) = Some zero_slot" using K(3) by simp
  have g3: "do { h \<leftarrow> alset g2 (Some ?na) (al_pool_update (\<lambda>_. Some ?p));
       sset h (Some (?p + m)) (sl_free_update (\<lambda>_. True)) } = Some ?g3"
    using n3 K(3) by (auto simp: alset_def sset_def g2(2,3) simp del: fun_upd_apply)
  obtain g4 where g4: "(if 2 * m - m = 1 then do {
             h \<leftarrow> sset ?g3 (Some (?p + m)) (sl_prev_update (\<lambda>_. Some (?p + m)));
             sset h (Some (?p + m)) (sl_next_update (\<lambda>_. Some (?p + m))) }
           else do {
             h \<leftarrow> sset ?g3 (Some (?p + m)) (sl_prev_update (\<lambda>_. Some (?p + (2 * m - 1))));
             h \<leftarrow> sset h (Some (?p + m)) (sl_next_update (\<lambda>_. Some (?p + (m + 1))));
             expand_loop h ?p (Some (?p + m)) (m + 1) (2 * m) }) = Some g4"
    "slots g4 = expanded (slots h) ?p m" "allocs g4 = ?m4" "ctrls g4 = ctrls h" "ranges g4 = ranges h"
    "reach g4 = reach g2" "nbrk g4 = nbrk g2"
  proof (cases "m = 1")
    case True
    let ?g4 = "?g3\<lparr>slots := ?S(?p + m \<mapsto> zero_slot\<lparr>sl_free := True, sl_prev := Some (?p + m), sl_next := Some (?p + m)\<rparr>)\<rparr>"
    have "slots ?g4 = expanded (slots h) ?p m" using True by (auto simp: expanded_def fun_eq_iff)
    then show ?thesis using that [of ?g4] True g2(4-7) by (simp add: sset_def)
  next
    case False
    let ?z = "zero_slot\<lparr>sl_free := True, sl_prev := Some (?p + (2 * m - 1)), sl_next := Some (?p + (m + 1))\<rparr>"
    let ?h = "?g3\<lparr>slots := ?S(?p + m \<mapsto> ?z)\<rparr>"
    have s: "do { h \<leftarrow> sset ?g3 (Some (?p + m)) (sl_prev_update (\<lambda>_. Some (?p + (2 * m - 1))));
             sset h (Some (?p + m)) (sl_next_update (\<lambda>_. Some (?p + (m + 1)))) } = Some ?h" by (simp add: sset_def)
    have "\<forall>j. m + 1 \<le> j \<and> j < 2 * m \<longrightarrow> slots ?h (?p + j) \<noteq> None" by auto
    from expand_loop_ok [OF this, of "Some (?p + m)"] obtain g4 where
      g4: "expand_loop ?h ?p (Some (?p + m)) (m + 1) (2 * m) = Some g4"
      "\<forall>a. slots g4 a = (if ?p + (m + 1) \<le> a \<and> a < ?p + 2 * m
       then map_option (\<lambda>s. s\<lparr>sl_free := True, sl_next := Some (a + 1), sl_prev := (if a = ?p + (m + 1) then Some (?p + m) else Some (a - 1))\<rparr>) (slots ?h a)
       else slots ?h a)" "allocs g4 = allocs ?h" "ctrls g4 = ctrls ?h" "ranges g4 = ranges ?h" "reach g4 = reach ?h" "nbrk g4 = nbrk ?h" by blast
    have "slots g4 a = expanded (slots h) ?p m a" for a
    proof -
      consider "a = ?p + m" | "?p + (m + 1) \<le> a \<and> a < ?p + 2 * m" | "a \<noteq> ?p + m" "\<not> (?p + (m + 1) \<le> a \<and> a < ?p + 2 * m)" by blast
      then show ?thesis unfolding g4(2) [rule_format] expanded_def using False K(3) by cases auto
    qed
    then have "slots g4 = expanded (slots h) ?p m" by (rule ext)
    moreover have "2 * m - m \<noteq> 1" using False by simp
    ultimately show ?thesis using that [of g4] s g4 g2(4-7) False by (auto split: Option.bind_splits)
  qed
  let ?N2 = "?N\<lparr>al_pool := Some ?p, al_free := Some (?p + m), al_size := 2 * int m\<rparr>"
  let ?h' = "g4\<lparr>allocs := ?m4(?na \<mapsto> ?N2)\<rparr>"
  have f: "do { h \<leftarrow> alset g4 (Some ?na) (al_free_update (\<lambda>_. Some (?p + m)));
      alset h (Some ?na) (al_size_update (\<lambda>_. 2 * int m)) } = Some ?h'" using g4(3) by (simp add: alset_def)
  have e: "nfa_alloc_expand h (Some al) = Some (Some ?na, ?h')"
  proof -
    have "nfa_alloc_expand h (Some al) = do {
      h \<leftarrow> do { h \<leftarrow> alset (snd (calloc_alloc h)) (Some ?na) (al_prev_update (\<lambda>_. Some al));
        h \<leftarrow> alset h (Some ?na) (al_next_update (\<lambda>_. Some b));
        h \<leftarrow> alset h (Some b) (al_prev_update (\<lambda>_. Some ?na));
        alset h (Some al) (al_next_update (\<lambda>_. Some ?na)) };
      case calloc_pool h (2 * m) of (pool, h) \<Rightarrow> do {
        h \<leftarrow> do { h \<leftarrow> alset h (Some ?na) (al_pool_update (\<lambda>_. Some pool));
          sset h (Some (pool + m)) (sl_free_update (\<lambda>_. True)) };
        h \<leftarrow> (if 2 * m - m = 1 then do {
             h \<leftarrow> sset h (Some (pool + m)) (sl_prev_update (\<lambda>_. Some (pool + m)));
             sset h (Some (pool + m)) (sl_next_update (\<lambda>_. Some (pool + m))) }
           else do {
             h \<leftarrow> sset h (Some (pool + m)) (sl_prev_update (\<lambda>_. Some (pool + (2 * m - 1))));
             h \<leftarrow> sset h (Some (pool + m)) (sl_next_update (\<lambda>_. Some (pool + (m + 1))));
             expand_loop h pool (Some (pool + m)) (m + 1) (2 * m) });
        h \<leftarrow> do { h \<leftarrow> alset h (Some ?na) (al_free_update (\<lambda>_. Some (pool + m)));
          alset h (Some ?na) (al_size_update (\<lambda>_. 2 * int m)) };
        Some (Some ?na, h) } }"
      using K unfolding nfa_alloc_expand_def alget_def Let_def calloc_alloc_def bind_assoc
      by (simp only: bind.bind_lunit prod.case snd_conv nat_int)
    then show ?thesis by (simp only: g g2(1) g3 g4(1) f prod.case bind.bind_lunit)
  qed
  have "?m4(?na \<mapsto> ?N2) = (allocs h)(?na \<mapsto> \<lparr>al_free = Some (?p + m), al_pool = Some ?p, al_next = Some b,
        al_prev = Some al, al_size = 2 * int m\<rparr>, b \<mapsto> Kb\<lparr>al_prev := Some ?na\<rparr>, al \<mapsto> ?Kc\<lparr>al_next := Some ?na\<rparr>)"
    using nb by (auto simp: fun_eq_iff)
  then show ?thesis using e g4 g2(6-8) by (intro exI [of _ ?h']) simp
qed

lemma expand_ok:
  assumes A: "alloc_ok h al L [] As"
  shows "\<exists>na K f fs h'. nfa_alloc_expand h (Some al) = Some (Some na, h') \<and> allocs h' na = Some K \<and> al_free K = Some f \<and>
    1 \<le> al_size K \<and> open_ring (snext h') (sprev h') (f # fs) \<and> (\<forall>x \<in> set (f # fs). sfree h' x = Some True) \<and>
    (\<forall>x \<in> L. sfree h' x = Some False) \<and> dring (anext h') (aprev h') (na # tl As @ [al]) \<and>
    (\<forall>a \<ge> nbrk h'. slots h' a = None \<and> allocs h' a = None) \<and> same_nodes h h' \<and>
    dom (slots h) \<subseteq> dom (slots h') \<and> set (f # fs) \<inter> dom (slots h) = {}"
proof -
  from A obtain K where K: "allocs h al = Some K" "1 \<le> al_size K" by (auto simp: alloc_ok_def)
  have B: "\<forall>x \<in> L. sfree h x = Some False" "As \<noteq> []" "hd As = al" "dring (anext h) (aprev h) As"
    "\<forall>a \<ge> nbrk h. slots h a = None \<and> allocs h a = None" using A by (auto simp: alloc_ok_def)
  obtain as where As: "As = al # as" using B(2,3) by (cases As) auto
  define m where "m = nat (al_size K)"
  have m: "al_size K = int m" "1 \<le> m" using K(2) by (simp_all add: m_def)
  let ?na = "nbrk h" and ?p = "Suc (nbrk h)"
  let ?b = "hd (as @ [al])"
  have sA: "\<exists>k. allocs h x = Some k" if "x \<in> set As" for x using dring_alloc [OF B(4) that] by (auto simp: anext_def)
  have na: "?na \<notin> set As" using sA B(5) by fastforce
  have R: "dring (anext h) (aprev h) (al # as)" using B(4) As by simp
  have kn: "al_next K = Some ?b" using dring_ends(3) [OF R] K(1) by (cases as) (auto simp: anext_def)
  have bA: "?b \<in> set As" using As by (cases as) auto
  then obtain Kb where Kb: "allocs h ?b = Some Kb" using sA by blast
  have nb: "?na \<noteq> al" "?na \<noteq> ?b" using na bA As by auto
  have bK: "?b = al \<Longrightarrow> Kb = K" using K(1) Kb by simp
  let ?N = "\<lparr>al_free = Some (?p + m), al_pool = Some ?p, al_next = Some ?b, al_prev = Some al, al_size = 2 * int m\<rparr>"
  obtain h' where h': "nfa_alloc_expand h (Some al) = Some (Some ?na, h')" "slots h' = expanded (slots h) ?p m"
    "allocs h' = (allocs h)(?na \<mapsto> ?N, ?b \<mapsto> Kb\<lparr>al_prev := Some ?na\<rparr>,
      al \<mapsto> (if ?b = al then Kb\<lparr>al_prev := Some ?na\<rparr> else K)\<lparr>al_next := Some ?na\<rparr>)"
    "ctrls h' = ctrls h" "ranges h' = ranges h" "nbrk h' = ?p + 2 * m + 1" "items (reach h') = items (reach h)"
    "lists (reach h') = (\<lambda>a. if ?p \<le> a \<and> a < ?p + 2 * m then Some zero_list else lists (reach h) a)"
    using expand_slots [OF K(1) m(1,2) kn Kb nb] by blast
  have old: "slots h' a = slots h a" if "slots h a \<noteq> None" for a
  proof -
    have "a < ?na" using that B(5) by (meson not_le)
    then show ?thesis by (simp add: h'(2) expanded_def)
  qed
  have n: "anext h' = (anext h)(?na \<mapsto> Some ?b, al \<mapsto> Some ?na)" and p: "aprev h' = (aprev h)(?na \<mapsto> Some al, ?b \<mapsto> Some ?na)"
    using nb bK K(1) Kb by (auto simp: anext_def aprev_def h'(3) fun_eq_iff)
  have R': "dring (anext h') (aprev h') (al # ?na # as)"
    by (rule dring_insert [OF R _ n p]) (use na As in auto)
  have fl: "[?p + m..<?p + 2 * m] = (?p + m) # [?p + Suc m..<?p + 2 * m]" using m(2) by (simp add: upt_conv_Cons)
  have "dring (anext h') (aprev h') (?na # as @ [al])" using dring_rotate [OF R'] by simp
  moreover have "open_ring (snext h') (sprev h') [?p + m..<?p + 2 * m]"
  proof -
    have e: "[?p + m..<?p + 2 * m] \<noteq> []" "last [?p + m..<?p + 2 * m] = ?p + 2 * m - 1" "hd [?p + m..<?p + 2 * m] = ?p + m"
      using m(2) unfolding fl by (simp_all add: fl [symmetric] del: upt_Suc)
    have "lpath (sprev h') (Some (?p + 2 * m - 1)) (rev [?p + m..<?p + 2 * m]) (Some (?p + 2 * m - 1))"
      by (rule lpath_rev_upt) (use m(2) in \<open>auto simp: sprev_def h'(2) expanded_def\<close>)
    moreover have "\<exists>q. lpath (snext h') (Some (?p + m)) [?p + m..<?p + 2 * m] q"
    proof (cases "m = 1")
      case True
      then show ?thesis by (auto simp: snext_def h'(2) expanded_def)
    next
      case False
      have "lpath (snext h') (Some (?p + m)) [?p + m..<?p + 2 * m] (Some (?p + 2 * m))"
        by (rule lpath_upt) (use m(2) False in \<open>auto simp: snext_def h'(2) expanded_def\<close>)
      then show ?thesis by blast
    qed
    ultimately show ?thesis unfolding open_ring_def e by simp
  qed
  moreover have "\<forall>x \<in> set [?p + m..<?p + 2 * m]. sfree h' x = Some True" by (auto simp: sfree_def h'(2) expanded_def)
  moreover have "\<forall>x \<in> L. sfree h' x = Some False"
    using B(1) old by (auto simp: sfree_def)
  moreover have "\<forall>a \<ge> nbrk h'. slots h' a = None \<and> allocs h' a = None"
  proof (intro allI impI)
    fix a assume a: "nbrk h' \<le> a"
    then have "\<not> a < ?p + 2 * m" "?na < a" using h'(6) by auto
    moreover have "al < ?na" "?b < ?na" using K(1) Kb B(5) by (metis not_le option.distinct(1))+
    ultimately show "slots h' a = None \<and> allocs h' a = None" using B(5) by (simp add: h'(2,3) expanded_def)
  qed
  moreover have "same_nodes h h'"
  proof -
    have "lists (reach h') a = lists (reach h) a" if "slots h a \<noteq> None" for a
    proof -
      have "a < ?na" using that B(5) by (meson not_le)
      then show ?thesis by (simp add: h'(8))
    qed
    then show ?thesis using old h'(4,5,7) by (auto simp: same_nodes_def nfa_at_def)
  qed
  moreover have "dom (slots h) \<subseteq> dom (slots h')" using old by fastforce
  moreover have "set [?p + m..<?p + 2 * m] \<inter> dom (slots h) = {}"
  proof -
    have "slots h x = None" if "?p \<le> x" for x using B(5) that by simp
    then show ?thesis by auto
  qed
  moreover have "allocs h' ?na = Some ?N" using nb by (simp add: h'(3))
  moreover have "1 \<le> al_size ?N" using m(2) by simp
  ultimately show ?thesis using h'(1) As unfolding fl
    by (intro exI [of _ ?na] exI [of _ ?N] exI [of _ "?p + m"] exI [of _ "[?p + Suc m..<?p + 2 * m]"] exI [of _ h']) simp
qed

lemma nfa_alloc_ok:
  assumes A: "alloc_ok h al L F As"
  shows "\<exists>x al' F' As' h'. nfa_alloc h (Some al) = Some (Some x, Some al', h') \<and> alloc_ok h' al' (insert x L) F' As' \<and> x \<notin> L \<and>
    same_nodes h h' \<and> dom (slots h) \<subseteq> dom (slots h') \<and> (F \<noteq> [] \<longrightarrow> x = hd F \<and> F' = tl F \<and> al' = al \<and> As' = As) \<and>
    (F = [] \<longrightarrow> slots h x = None)"
proof -
  from A obtain K where K: "allocs h al = Some K" "al_free K = hdp F" "1 \<le> al_size K" by (auto simp: alloc_ok_def)
  have B: "dring (snext h) (sprev h) F" "\<forall>x \<in> set F. sfree h x = Some True" "\<forall>x \<in> L. sfree h x = Some False"
    "As \<noteq> []" "hd As = al" "dring (anext h) (aprev h) As" "\<forall>a \<ge> nbrk h. slots h a = None \<and> allocs h a = None"
    using A by (auto simp: alloc_ok_def)
  show ?thesis
  proof (cases F)
    case (Cons f fs)
    have kf: "al_free K = Some f" using K(2) Cons by simp
    have r: "open_ring (snext h) (sprev h) (f # fs)" "\<forall>x \<in> set (f # fs). sfree h x = Some True"
      using dring_open [OF B(1)] B(2) Cons by auto
    from take_free_ok [OF K(1) kf K(3) r B(3-7)] obtain h' where
      h': "take_free h (Some al) = Some (Some f, Some al, h')" "alloc_ok h' al (insert f L) fs As" "same_nodes h h'"
      "dom (slots h') = dom (slots h)" by blast
    have "f \<notin> L" using r(2) B(3) by auto
    then show ?thesis using h' K(1) kf Cons by (auto simp: nfa_alloc_take alget_def)
  next
    case Nil
    then have A0: "alloc_ok h al L [] As" using A by simp
    from expand_ok [OF A0] obtain na Kn f fs g where
      g: "nfa_alloc_expand h (Some al) = Some (Some na, g)" "allocs g na = Some Kn" "al_free Kn = Some f" "1 \<le> al_size Kn"
      "open_ring (snext g) (sprev g) (f # fs)" "\<forall>x \<in> set (f # fs). sfree g x = Some True" "\<forall>x \<in> L. sfree g x = Some False"
      "dring (anext g) (aprev g) (na # tl As @ [al])" "\<forall>a \<ge> nbrk g. slots g a = None \<and> allocs g a = None"
      "same_nodes h g" "dom (slots h) \<subseteq> dom (slots g)" "set (f # fs) \<inter> dom (slots h) = {}" by blast
    have r: "na # tl As @ [al] \<noteq> []" "hd (na # tl As @ [al]) = na" by simp_all
    from take_free_ok [OF g(2-7) r g(8,9)] obtain h' where
      h': "take_free g (Some na) = Some (Some f, Some na, h')" "alloc_ok h' na (insert f L) fs (na # tl As @ [al])"
      "same_nodes g h'" "dom (slots h') = dom (slots g)" by blast
    have "f \<notin> L" using g(6,7) by auto
    moreover have "slots h f = None" using g(12) by auto
    moreover have "same_nodes h h'" by (rule same_nodes_trans [OF g(10) h'(3)]) (use g(11) in auto)
    moreover have "nfa_alloc h (Some al) = Some (Some f, Some na, h')"
      using K g(1) h'(1) Nil by (simp add: nfa_alloc_take alget_def)
    ultimately show ?thesis using h'(2,4) g(11) Nil by blast
  qed
qed

end
