(* ===== verification/CharRange.thy ===== *)
theory CharRange
  imports Bits
begin

text \<open>
  Bracket expressions: the range bitmap of \<open>src/nfa.c\<close> (\<open>update_range_nfa\<close>,
  \<open>update_range_w_collation\<close>, the initial bitmap of \<open>new_range_nfa\<close>), its test in
  \<open>src/recognizer.c\<close> (\<open>is_literal_in_range\<close>) and the class table of \<open>src/collations.c\<close>. The loop
  variable of \<open>update_range_nfa\<close> is an \<open>int\<close> (\<open>sint\<close>) compared with an \<open>unsigned int\<close>.
\<close>

section \<open>The code\<close>

partial_function (option) range_loop :: "bool \<Rightarrow> u32 \<Rightarrow> u32 \<Rightarrow> block list \<Rightarrow> block list option" where [code]:
  "range_loop negate i high r = (if i \<le> high then do {
       r \<leftarrow> (if negate then z_clear_bit_array r BITS_PER_BLOCK (sint i)
             else z_set_bit_array r BITS_PER_BLOCK (sint i));
       range_loop negate (i + 1) high r }
     else Some r)"

definition update_range_nfa :: "u32 \<Rightarrow> u32 \<Rightarrow> block list \<Rightarrow> bool \<Rightarrow> block list option" where
  "update_range_nfa low high r negate = range_loop negate low high r"

definition fresh_range :: "bool \<Rightarrow> block list" where
  "fresh_range negate = replicate (nat SIZE_OF_RANGE) (if negate then NOT 0 else 0)"

definition is_literal_in_range :: "block list \<Rightarrow> u32 \<Rightarrow> bool option" where
  "is_literal_in_range r c = (if uint c < SIZE_OF_LOCALE then do {
       mask \<leftarrow> z_set_bit BITS_PER_BLOCK (uint c);
       b \<leftarrow> cell_get r (z_get_bit_array_idx (uint c) BITS_PER_BLOCK);
       Some (b AND mask \<noteq> 0) }
     else Some False)"

record named_collation =
  coll_name :: "byte list"
  coll_name_len :: int
  coll_range_num :: nat
  coll_ranges :: "(int \<times> int) list"

text \<open>A string literal, with its terminator.\<close>

definition cstr :: "string \<Rightarrow> byte list" where
  "cstr s = map (\<lambda>c. word_of_nat (of_char c)) s @ [0]"

definition coll :: "string \<Rightarrow> int \<Rightarrow> nat \<Rightarrow> (int \<times> int) list \<Rightarrow> named_collation" where
  "coll s l n rs = \<lparr>coll_name = cstr s, coll_name_len = l, coll_range_num = n, coll_ranges = rs\<rparr>"

definition collations :: "named_collation list" where
  "collations = [
     coll ''alnum'' 5 3 [(65, 90), (97, 122), (48, 57)],
     coll ''alpha'' 5 2 [(65, 90), (97, 122)],
     coll ''blank'' 5 2 [(32, 32), (11, 11)],
     coll ''cntrl'' 5 2 [(0, 31), (127, 127)],
     coll ''digit'' 5 1 [(48, 57)],
     coll ''graph'' 5 1 [(33, 126)],
     coll ''lower'' 5 1 [(97, 122)],
     coll ''print'' 5 1 [(32, 126)],
     coll ''punct'' 5 4 [(33, 47), (58, 64), (91, 96), (123, 126)],
     coll ''space'' 5 2 [(9, 13), (2, 32)],
     coll ''upper'' 5 1 [(65, 90)],
     coll ''xdigit'' 6 2 [(65, 78), (97, 102)]]"

text \<open>\<open>strncmp(a, b, n) == 0\<close>; reading past either array is an error.\<close>

fun strncmp_eq :: "nat \<Rightarrow> byte list \<Rightarrow> byte list \<Rightarrow> bool option" where
  "strncmp_eq 0 _ _ = Some True"
| "strncmp_eq (Suc n) (a # as) (b # bs) =
     (if a \<noteq> b then Some False else if a = 0 then Some True else strncmp_eq n as bs)"
| "strncmp_eq (Suc n) _ _ = None"

primrec coll_loop :: "byte list \<Rightarrow> nat \<Rightarrow> bool \<Rightarrow> named_collation list \<Rightarrow> block list \<Rightarrow> (bool \<times> block list) option" where
  "coll_loop s n negate [] r = Some (False, r)"
| "coll_loop s n negate (c # cs) r = do {
     eq \<leftarrow> strncmp_eq n s (coll_name c);
     (if eq then do {
        r \<leftarrow> fold_opt (\<lambda>(low, high) r. update_range_nfa (word_of_int low) (word_of_int high) r negate)
               (take (coll_range_num c) (coll_ranges c)) r;
        Some (True, r) }
      else coll_loop s n negate cs r) }"

definition update_range_w_collation :: "byte list \<Rightarrow> nat \<Rightarrow> block list \<Rightarrow> bool \<Rightarrow> (bool \<times> block list) option" where
  "update_range_w_collation collation_string name_len r negate = coll_loop collation_string name_len negate collations r"

section \<open>Ranges\<close>

lemma uint_less_128: "uint (x :: u32) < 128 \<longleftrightarrow> unat x < 128"
proof -
  have "int (unat x) = uint x" by simp
  then show ?thesis by linarith
qed

lemma sint_small: "unat (i :: u32) < 128 \<Longrightarrow> sint i = int (unat i)"
proof -
  assume u: "unat i < 128"
  then have "uint i < 2 ^ 31" using uint_less_128 [of i] by simp
  moreover have "- (2 ^ 31) \<le> uint i" by (rule order_trans [OF _ uint_ge_0]) simp
  ultimately have "signed_take_bit 31 (uint i) = uint i" by (intro signed_take_bit_int_eq_self)
  then show ?thesis by (simp add: sint_uint)
qed

lemma out_of_locale:
  assumes "128 \<le> unat (i :: u32)" "length r = 2"
  shows "z_set_bit_array r BITS_PER_BLOCK (sint i) = None" "z_clear_bit_array r BITS_PER_BLOCK (sint i) = None"
proof -
  let ?x = "sint i"
  have nz: "\<not> (0 \<le> ?x \<and> ?x < 128)"
  proof
    assume a: "0 \<le> ?x \<and> ?x < 128"
    have "uint (word_of_int ?x :: u32) = ?x mod 2 ^ 32" by (simp only: uint_word_of_int) simp
    moreover have "(word_of_int ?x :: u32) = i" by simp
    ultimately have "uint i = ?x mod 2 ^ 32" by (simp only:)
    moreover have "?x mod 2 ^ 32 = ?x" using a by (intro mod_pos_pos_trivial) auto
    ultimately have "uint i < 128" using a by simp
    then show False using uint_less_128 [of i] assms(1) by simp
  qed
  have "z_set_bit BITS_PER_BLOCK ?x = None \<or> \<not> (0 \<le> z_get_bit_array_idx ?x BITS_PER_BLOCK \<and> z_get_bit_array_idx ?x BITS_PER_BLOCK < 2)"
  proof (cases "0 \<le> ?x")
    case True
    then have "128 \<le> ?x" using nz by linarith
    then have "2 \<le> ?x div 64" by linarith
    then show ?thesis using True by (simp add: z_get_bit_array_idx_def BITS_PER_BLOCK_def idx_nonneg)
  next
    case False
    then have e: "?x sdiv 64 = - ((- ?x) div 64)" by (simp add: signed_divide_int_def)
    show ?thesis
    proof (cases "(- ?x) div 64 = 0")
      case True
      then show ?thesis using False e by (simp add: z_set_bit_def z_get_bit_array_idx_def BITS_PER_BLOCK_def shl_c_def)
    next
      case f: False
      have "0 \<le> (- ?x) div 64" using False by (intro pos_imp_zdiv_nonneg_iff [THEN iffD2]) auto
      with f have "0 < (- ?x) div 64" by linarith
      then show ?thesis using e by (simp add: z_get_bit_array_idx_def BITS_PER_BLOCK_def)
    qed
  qed
  then show "z_set_bit_array r BITS_PER_BLOCK ?x = None" "z_clear_bit_array r BITS_PER_BLOCK ?x = None"
    using assms(2) by (auto simp: z_set_bit_array_def z_clear_bit_array_def cell_upd_def split: bind_splits)
qed

lemma range_loop_spec:
  assumes "length r = 2" "low \<le> high"
  shows "if unat high < 128 then \<exists>r'. range_loop negate low high r = Some r' \<and> length r' = 2 \<and>
      (\<forall>w. abit r' w = (if unat low \<le> w \<and> w \<le> unat high then \<not> negate \<and> True else abit r w))
    else range_loop negate low high r = None"
  using assms
proof (induction "unat high - unat low" arbitrary: low r)
  case (0)
  then have e: "low = high" by (simp add: word_unat_eq_iff word_le_nat_alt)
  show ?case
  proof (cases "unat high < 128")
    case False
    then show ?thesis using out_of_locale [of high r] 0 e by (subst range_loop.simps) simp
  next
    case True
    then have "unat high < 64 * length r" using 0 by simp
    from z_set_bit_array_ok [OF this] z_clear_bit_array_ok [OF this] obtain a b where
      ab: "z_set_bit_array r BITS_PER_BLOCK (int (unat high)) = Some a" "length a = 2" "\<forall>w. abit a w = (w = unat high \<or> abit r w)"
      "z_clear_bit_array r BITS_PER_BLOCK (int (unat high)) = Some b" "length b = 2" "\<forall>w. abit b w = (w \<noteq> unat high \<and> abit r w)"
      using 0(2) by auto
    have "\<not> high + 1 \<le> high"
    proof -
      have "unat (high + 1) = unat high + 1" using True by (simp add: unat_word_ariths)
      then show ?thesis by (simp add: word_le_nat_alt)
    qed
    then have st: "range_loop negate (high + 1) high x = Some x" for x by (subst range_loop.simps) simp
    show ?thesis using True ab st e sint_small [OF True] by (subst range_loop.simps) auto
  qed
next
  case (Suc n)
  have lt: "unat low < unat high" using Suc.hyps(2) by simp
  have s1: "unat (low + 1) = unat low + 1"
    using lt unsigned_less [of high, where 'a = nat] by (simp add: unat_word_ariths)
  have h: "n = unat high - unat (low + 1)" "low + 1 \<le> high" using Suc.hyps(2) s1 lt by (simp_all add: word_le_nat_alt)
  show ?case
  proof (cases "unat low < 128")
    case False
    then show ?thesis using out_of_locale [of low r] Suc.prems lt by (subst range_loop.simps) simp
  next
    case True
    then have "unat low < 64 * length r" using Suc.prems by simp
    from z_set_bit_array_ok [OF this] z_clear_bit_array_ok [OF this] obtain a where
      a: "(if negate then z_clear_bit_array r BITS_PER_BLOCK (sint low) else z_set_bit_array r BITS_PER_BLOCK (sint low)) = Some a"
      "length a = 2" "\<forall>w. abit a w = (if w = unat low then \<not> negate else abit r w)"
      using Suc.prems(1) sint_small [OF True] by (cases negate) auto
    have st: "range_loop negate low high r = range_loop negate (low + 1) high a"
      by (simp only: range_loop.simps [of negate low] a(1) Suc.prems(2) if_True bind.bind_lunit)
    have w: "(if unat (low + 1) \<le> w \<and> w \<le> unat high then \<not> negate \<and> True else abit a w) =
        (if unat low \<le> w \<and> w \<le> unat high then \<not> negate \<and> True else abit r w)" for w
      using a(3) s1 lt by (cases "w = unat low") auto
    show ?thesis using Suc.hyps(1) [OF h(1) a(2) h(2)] unfolding st w .
  qed
qed

definition covers :: "(u32 \<times> u32) list \<Rightarrow> nat \<Rightarrow> bool" where
  "covers rs c \<longleftrightarrow> (\<exists>(low, high) \<in> set rs. unat low \<le> c \<and> c \<le> unat high)"

lemma update_ranges_spec:
  assumes "length r = 2" "\<forall>(low, high) \<in> set rs. low \<le> high"
  shows "if \<forall>(low, high) \<in> set rs. unat high < 128
    then \<exists>r'. fold_opt (\<lambda>(low, high) r. update_range_nfa low high r negate) rs r = Some r' \<and> length r' = 2 \<and>
      (\<forall>w. abit r' w = (if covers rs w then \<not> negate else abit r w))
    else fold_opt (\<lambda>(low, high) r. update_range_nfa low high r negate) rs r = None"
  using assms
proof (induction rs arbitrary: r)
  case Nil
  then show ?case by (simp add: covers_def)
next
  case (Cons x rs)
  obtain low high where x: "x = (low, high)" by fastforce
  have c: "covers (x # rs) w \<longleftrightarrow> unat low \<le> w \<and> w \<le> unat high \<or> covers rs w" for w by (simp add: covers_def x)
  have lh: "low \<le> high" using Cons.prems(2) x by simp
  show ?case
  proof (cases "unat high < 128")
    case False
    then show ?thesis using range_loop_spec [OF Cons.prems(1) lh, of negate] x by (auto simp: update_range_nfa_def)
  next
    case True
    from range_loop_spec [OF Cons.prems(1) lh, of negate] True obtain r1 where
      r1: "update_range_nfa low high r negate = Some r1" "length r1 = 2"
      "\<forall>w. abit r1 w = (if unat low \<le> w \<and> w \<le> unat high then \<not> negate else abit r w)" by (auto simp: update_range_nfa_def)
    have "\<forall>(low, high) \<in> set rs. low \<le> high" using Cons.prems(2) by simp
    note ih = Cons.IH [OF r1(2) this]
    show ?thesis
    proof (cases "\<forall>(low, high) \<in> set rs. unat high < 128")
      case False
      then show ?thesis using ih r1(1) x by auto
    next
      case t: True
      then obtain r' where "fold_opt (\<lambda>(low, high) r. update_range_nfa low high r negate) rs r1 = Some r'" "length r' = 2"
        "\<forall>w. abit r' w = (if covers rs w then \<not> negate else abit r1 w)" using ih by auto
      then show ?thesis using t True r1 x unfolding c by auto
    qed
  qed
qed

lemma fresh_abit: "abit (fresh_range negate) w \<longleftrightarrow> negate \<and> w < 128"
proof -
  have l: "fresh_range negate = [if negate then NOT 0 else 0, if negate then NOT 0 else 0]"
    by (simp add: fresh_range_def SIZE_OF_RANGE_def SIZE_OF_LOCALE_def BITS_PER_BLOCK_def signed_divide_int_def numeral_2_eq_2)
  have "w div 64 = 0 \<or> w div 64 = 1" if "w < 128" using that by linarith
  moreover have "w mod 64 < 64" by simp
  ultimately show ?thesis unfolding l abit_def by (auto simp: bit_not_iff)
qed

lemma literal_abit: "length r = 2 \<Longrightarrow> is_literal_in_range r c = Some (unat c < 128 \<and> abit r (unat c))"
proof -
  assume r: "length r = 2"
  have u: "uint c = int (unat c)" by simp
  show ?thesis
  proof (cases "unat c < 128")
    case False
    then have "\<not> uint c < 128" using uint_less_128 by simp
    then show ?thesis using False by (simp add: is_literal_in_range_def SIZE_OF_LOCALE_def)
  next
    case True
    then have lt: "uint c < 128" using uint_less_128 by simp
    have l: "unat c div 64 < 2" using True by linarith
    have "(b AND 2 ^ (unat c mod 64) \<noteq> 0) = bit b (unat c mod 64)" for b :: block
      by (simp only: and_exp_eq_0_iff_not_bit not_not)
    note n = \<open>unat c < 128\<close>
    then show ?thesis using True lt l r unfolding is_literal_in_range_def SIZE_OF_LOCALE_def u z_set_bit_nat z_idx cell_get_def
      by (simp add: abit_def n [THEN eqTrueI] and_exp_eq_0_iff_not_bit del: unsigned_less)
  qed
qed

section \<open>Classes\<close>

definition class_ranges :: "named_collation \<Rightarrow> (u32 \<times> u32) list" where
  "class_ranges c = map (\<lambda>(low, high). (word_of_int low, word_of_int high)) (take (coll_range_num c) (coll_ranges c))"

definition class_names :: "string list" where
  "class_names = [''alnum'', ''alpha'', ''blank'', ''cntrl'', ''digit'', ''graph'', ''lower'', ''print'', ''punct'',
     ''space'', ''upper'', ''xdigit'']"

text \<open>The classes of the POSIX locale, on ASCII codes.\<close>

definition between :: "nat \<Rightarrow> nat \<Rightarrow> nat \<Rightarrow> bool" where
  "between a b c \<longleftrightarrow> a \<le> c \<and> c \<le> b"

definition posix_class :: "string \<Rightarrow> nat \<Rightarrow> bool" where
  "posix_class s c = (
     let upper = between 65 90 c; lower = between 97 122 c; digit = between 48 57 c; graph = between 33 126 c in
     if s = ''upper'' then upper else if s = ''lower'' then lower else if s = ''digit'' then digit
     else if s = ''alpha'' then upper \<or> lower else if s = ''alnum'' then upper \<or> lower \<or> digit
     else if s = ''blank'' then c = 32 \<or> c = 9 else if s = ''cntrl'' then c < 32 \<or> c = 127
     else if s = ''graph'' then graph else if s = ''print'' then graph \<or> c = 32
     else if s = ''punct'' then graph \<and> \<not> (upper \<or> lower \<or> digit)
     else if s = ''space'' then c = 32 \<or> between 9 13 c
     else if s = ''xdigit'' then digit \<or> between 65 70 c \<or> between 97 102 c else False)"

lemma class_ranges_ok: "\<forall>c \<in> set collations. \<forall>(low, high) \<in> set (class_ranges c). low \<le> high \<and> unat high < 128"
  by code_simp

lemma class_lookup:
  "map (\<lambda>s. map (\<lambda>c. strncmp_eq (length s) (butlast (cstr s) @ [b]) (coll_name c) = Some True) collations) class_names =
     map (\<lambda>i. map (\<lambda>j. i = j) [0..<12]) [0..<12]"
  by code_simp

end
