(* ===== verification/Nfa.thy ===== *)
theory Nfa
  imports NfaAllocOps CharRange
begin

text \<open>
  Building automata: \<open>src/nfa.c\<close>. \<open>h\<close> is the heap of the automata, \<open>lh\<close> the heap of the lists of
  branches and of the parser's stacks, whose payloads are addresses of nodes or of lists. The
  constructors return the accepting node of the new automaton, whose \<open>parent\<close> is its start.
\<close>

section \<open>Control block, nodes, marks\<close>

definition new_nfa_ctrl :: "nheap \<Rightarrow> addr lheap \<Rightarrow> ptr \<times> nheap \<times> addr lheap" where
  "new_nfa_ctrl h lh = (let c = nbrk h; (fr, lh) = new_list lh in
     (Some c, h\<lparr>ctrls := (ctrls h)(c \<mapsto> \<lparr>c_id = Some c, c_next_seq = 1, c_next_interval = 0, c_free_range = Some fr,
        c_alloc = None\<rparr>), nbrk := nbrk h + 1\<rparr>, lh))"

definition mark_interval_nfa :: "nheap \<Rightarrow> ptr \<Rightarrow> nheap option" where
  "mark_interval_nfa h p = do {
     n \<leftarrow> nget h p;
     (if n_id n = 0 then do {
        c \<leftarrow> ctget h (n_ctrl n);
        h \<leftarrow> nset h p (n_id_update (\<lambda>_. c_next_interval c));
        ctset h (n_ctrl n) (\<lambda>c. c\<lparr>c_next_interval := c_next_interval c + 1\<rparr>) }
      else Some h) }"

definition mark_nfa :: "nheap \<Rightarrow> ptr \<Rightarrow> nheap option" where
  "mark_nfa h p = do {
     n \<leftarrow> nget h p;
     (if n_id n = 0 then do {
        c \<leftarrow> ctget h (n_ctrl n);
        h \<leftarrow> nset h p (n_id_update (\<lambda>_. c_next_seq c));
        ctset h (n_ctrl n) (\<lambda>c. c\<lparr>c_next_seq := c_next_seq c + 1\<rparr>) }
      else Some h) }"

definition new_nfa :: "nheap \<Rightarrow> ptr \<Rightarrow> u32 \<Rightarrow> (ptr \<times> nheap) option" where
  "new_nfa h ctrl ty = (if ctrl = None then Some (None, h) else do {
     c \<leftarrow> ctget h ctrl;
     (if c_alloc c = None then Some (None, h) else do {
        (nfa, al, h) \<leftarrow> nfa_alloc h (c_alloc c);
        h \<leftarrow> ctset h ctrl (c_alloc_update (\<lambda>_. al));
        h \<leftarrow> nset h nfa (n_id_update (\<lambda>_. 0));
        h \<leftarrow> nset h nfa (n_ctrl_update (\<lambda>_. ctrl));
        h \<leftarrow> nset h nfa (n_type_update (\<lambda>_. ty));
        h \<leftarrow> nset h nfa (\<lambda>n. n\<lparr>n_parent := None, n_out1 := None, n_out2 := None\<rparr>);
        Some (nfa, h) }) })"

section \<open>Ranges\<close>

text \<open>The functions of the theory \<open>CharRange\<close>, on the bitmap of a node.\<close>

definition node_range :: "nheap \<Rightarrow> ptr \<Rightarrow> (addr \<times> block list) option" where
  "node_range h p = do { n \<leftarrow> nget h p; r \<leftarrow> low_range (n_low n); a \<leftarrow> r; bm \<leftarrow> ranges h a; Some (a, bm) }"

definition update_range_node :: "nheap \<Rightarrow> u32 \<Rightarrow> u32 \<Rightarrow> ptr \<Rightarrow> bool \<Rightarrow> nheap option" where
  "update_range_node h low high range_nfa negate = do {
     (a, bm) \<leftarrow> node_range h range_nfa;
     bm \<leftarrow> update_range_nfa low high bm negate;
     Some (h\<lparr>ranges := (ranges h)(a \<mapsto> bm)\<rparr>) }"

definition update_range_node_w_collation ::
    "nheap \<Rightarrow> byte list \<Rightarrow> nat \<Rightarrow> ptr \<Rightarrow> bool \<Rightarrow> (bool \<times> nheap) option" where
  "update_range_node_w_collation h name len range_nfa negate = do {
     (a, bm) \<leftarrow> node_range h range_nfa;
     (ret, bm) \<leftarrow> update_range_w_collation name len bm negate;
     Some (ret, h\<lparr>ranges := (ranges h)(a \<mapsto> bm)\<rparr>) }"

definition new_range_nfa :: "nheap \<Rightarrow> ptr \<Rightarrow> bool \<Rightarrow> (ptr \<times> nheap) option" where
  "new_range_nfa h ctrl negate = do {
     (start, h) \<leftarrow> new_nfa h ctrl NFA_RANGE;
     (accept, h) \<leftarrow> new_nfa h ctrl NFA_ACCEPTING;
     h \<leftarrow> mark_nfa h start;
     let r = nbrk h;
     let h = h\<lparr>ranges := (ranges h)(r \<mapsto> fresh_range negate), nbrk := nbrk h + 1\<rparr>;
     h \<leftarrow> nset h start (n_low_update (\<lambda>_. URange (Some r)));
     h \<leftarrow> nset h accept (n_parent_update (\<lambda>_. start));
     h \<leftarrow> nset h start (\<lambda>n. n\<lparr>n_out1 := accept, n_out2 := accept\<rparr>);
     Some (accept, h) }"

section \<open>Literals and back-references\<close>

definition new_literal_nfa :: "nheap \<Rightarrow> ptr \<Rightarrow> u32 \<Rightarrow> u32 \<Rightarrow> (ptr \<times> nheap) option" where
  "new_literal_nfa h ctrl literal ty = do {
     (accept, h) \<leftarrow> new_nfa h ctrl NFA_ACCEPTING;
     (start, h) \<leftarrow> new_nfa h ctrl ty;
     h \<leftarrow> mark_nfa h start;
     h \<leftarrow> nset h start (n_lit_update (\<lambda>_. literal));
     h \<leftarrow> nset h start (\<lambda>n. n\<lparr>n_out1 := accept, n_out2 := accept\<rparr>);
     h \<leftarrow> nset h accept (n_parent_update (\<lambda>_. start));
     Some (accept, h) }"

definition new_backreference_nfa :: "nheap \<Rightarrow> ptr \<Rightarrow> u32 \<Rightarrow> (ptr \<times> nheap) option" where
  "new_backreference_nfa h ctrl capture_group_id = do {
     (start, h) \<leftarrow> new_nfa h ctrl NFA_BACKREFERENCE;
     (accept, h) \<leftarrow> new_nfa h ctrl NFA_ACCEPTING;
     h \<leftarrow> nset h start (n_id_update (\<lambda>_. capture_group_id));
     h \<leftarrow> nset h start (\<lambda>n. n\<lparr>n_out1 := accept, n_out2 := accept\<rparr>);
     h \<leftarrow> nset h accept (n_parent_update (\<lambda>_. start));
     Some (accept, h) }"

section \<open>Concatenation\<close>

text \<open>\<open>*prev = *(next->parent)\<close> copies the whole node, with its list header.\<close>

definition copy_node :: "nheap \<Rightarrow> ptr \<Rightarrow> ptr \<Rightarrow> nheap option" where
  "copy_node h dst src = do {
     n \<leftarrow> nget h src;
     d \<leftarrow> dst;
     s \<leftarrow> src;
     h \<leftarrow> nset h dst (\<lambda>_. n);
     l \<leftarrow> lists (reach h) s;
     Some (h\<lparr>reach := (reach h)\<lparr>lists := (lists (reach h))(d \<mapsto> l)\<rparr>\<rparr>) }"

definition concatenate_nfa :: "nheap \<Rightarrow> ptr \<Rightarrow> ptr \<Rightarrow> (ptr \<times> nheap) option" where
  "concatenate_nfa h prev next_nfa = (if next_nfa = None then Some (prev, h)
     else if prev = None then Some (next_nfa, h) else do {
       n \<leftarrow> nget h next_nfa;
       let discard_node = n_parent n;
       p \<leftarrow> nget h prev;
       let tmp = n_parent p;
       h \<leftarrow> copy_node h prev discard_node;
       h \<leftarrow> nset h next_nfa (n_parent_update (\<lambda>_. tmp));
       h \<leftarrow> nset h discard_node (\<lambda>n. n\<lparr>n_parent := None, n_out1 := None, n_out2 := None\<rparr>);
       h \<leftarrow> nset h discard_node (n_lit_update (\<lambda>_. 0));
       h \<leftarrow> nset h discard_node (n_parent_update (\<lambda>_. discard_node));
       d \<leftarrow> nget h discard_node;
       c \<leftarrow> ctget h (n_ctrl d);
       h \<leftarrow> nfa_dealloc h (c_alloc c) discard_node;
       Some (next_nfa, h) })"

text \<open>The characters of \<open>src\<close> are signed and become unsigned; reading past its end is an error.\<close>

primrec lliteral_loop :: "nheap \<Rightarrow> ptr \<Rightarrow> byte list \<Rightarrow> ptr \<Rightarrow> (ptr \<times> nheap) option" where
  "lliteral_loop h ctrl [] left = Some (left, h)"
| "lliteral_loop h ctrl (c # cs) left = do {
     (right, h) \<leftarrow> new_literal_nfa h ctrl (word_of_int (sint c)) NFA_LITERAL;
     (left, h) \<leftarrow> concatenate_nfa h left right;
     lliteral_loop h ctrl cs left }"

definition new_lliteral_nfa :: "nheap \<Rightarrow> ptr \<Rightarrow> byte list \<Rightarrow> nat \<Rightarrow> (ptr \<times> nheap) option" where
  "new_lliteral_nfa h ctrl src len = (if length src < max 1 len then None else do {
     (left, h) \<leftarrow> new_literal_nfa h ctrl (word_of_int (sint (hd src))) NFA_LITERAL;
     lliteral_loop h ctrl (tl (take (max 1 len) src)) left })"

section \<open>Repetition\<close>

text \<open>The loop that skips epsilon nodes.\<close>

partial_function (option) tighten :: "nheap \<Rightarrow> ptr \<Rightarrow> ptr option" where [code]:
  "tighten h target = do {
     n \<leftarrow> nget h target;
     (if n_type n = NFA_EPSILON then
        (if n_out2 n = None then Some None else tighten h (n_out2 n))
      else Some target) }"

definition new_kleene_nfa :: "nheap \<Rightarrow> ptr \<Rightarrow> (ptr \<times> nheap) option" where
  "new_kleene_nfa h body = do {
     b \<leftarrow> nget h body;
     (start, h) \<leftarrow> new_nfa h (n_ctrl b) NFA_SPLIT;
     (accept, h) \<leftarrow> new_nfa h (n_ctrl b) NFA_ACCEPTING;
     b \<leftarrow> nget h body;
     bp \<leftarrow> nget h (n_parent b);
     h \<leftarrow> nset h start (n_id_update (\<lambda>_. n_id bp));
     h \<leftarrow> nset h start (n_lit_update (\<lambda>_. word_of_int 63));
     h \<leftarrow> nset h start (n_out1_update (\<lambda>_. accept));
     h \<leftarrow> nset h start (n_out2_update (\<lambda>_. n_parent b));
     h \<leftarrow> nset h body (n_type_update (\<lambda>_. NFA_SPLIT));
     h \<leftarrow> nset h body (n_lit_update (\<lambda>_. word_of_int 42));
     h \<leftarrow> nset h body (n_out2_update (\<lambda>_. accept));
     target \<leftarrow> tighten h (n_parent b);
     h \<leftarrow> nset h body (n_out1_update (\<lambda>_. target));
     h \<leftarrow> nset h accept (n_parent_update (\<lambda>_. start));
     Some (accept, h) }"

definition new_qmark_nfa :: "nheap \<Rightarrow> ptr \<Rightarrow> (ptr \<times> nheap) option" where
  "new_qmark_nfa h body = do {
     b \<leftarrow> nget h body;
     (start, h) \<leftarrow> new_nfa h (n_ctrl b) NFA_SPLIT;
     (accept, h) \<leftarrow> new_nfa h (n_ctrl b) NFA_ACCEPTING;
     b \<leftarrow> nget h body;
     bp \<leftarrow> nget h (n_parent b);
     h \<leftarrow> nset h start (n_id_update (\<lambda>_. n_id bp));
     h \<leftarrow> nset h start (n_out1_update (\<lambda>_. accept));
     h \<leftarrow> nset h start (n_out2_update (\<lambda>_. n_parent b));
     h \<leftarrow> nset h start (n_lit_update (\<lambda>_. word_of_int 63));
     h \<leftarrow> nset h body (n_type_update (\<lambda>_. NFA_EPSILON));
     h \<leftarrow> nset h body (n_out1_update (\<lambda>_. accept));
     h \<leftarrow> nset h body (n_out2_update (\<lambda>_. accept));
     h \<leftarrow> nset h accept (n_parent_update (\<lambda>_. start));
     Some (accept, h) }"

definition new_posclosure_nfa :: "nheap \<Rightarrow> ptr \<Rightarrow> (ptr \<times> nheap) option" where
  "new_posclosure_nfa h body = do {
     b \<leftarrow> nget h body;
     (start, h) \<leftarrow> new_nfa h (n_ctrl b) NFA_EPSILON;
     (accept, h) \<leftarrow> new_nfa h (n_ctrl b) NFA_ACCEPTING;
     b \<leftarrow> nget h body;
     bp \<leftarrow> nget h (n_parent b);
     h \<leftarrow> nset h start (n_id_update (\<lambda>_. n_id bp));
     h \<leftarrow> nset h start (\<lambda>n. n\<lparr>n_out1 := n_parent b, n_out2 := n_parent b\<rparr>);
     h \<leftarrow> nset h body (n_type_update (\<lambda>_. NFA_SPLIT));
     h \<leftarrow> nset h body (n_lit_update (\<lambda>_. word_of_int 43));
     target \<leftarrow> tighten h (n_parent b);
     h \<leftarrow> nset h body (n_out1_update (\<lambda>_. target));
     h \<leftarrow> nset h body (n_out2_update (\<lambda>_. accept));
     h \<leftarrow> nset h accept (n_parent_update (\<lambda>_. start));
     Some (accept, h) }"

text \<open>The results are the accepting node, \<open>*t_reachable\<close>, \<open>*ret_interval\<close> and the heap.\<close>

definition new_interval_nfa :: "nheap \<Rightarrow> ptr \<Rightarrow> u32 \<Rightarrow> u32 \<Rightarrow> (ptr \<times> ptr \<times> ptr \<times> nheap) option" where
  "new_interval_nfa h target min_rep max_rep = do {
     t \<leftarrow> nget h target;
     (start, h) \<leftarrow> new_nfa h (n_ctrl t) NFA_EPSILON;
     (accept, h) \<leftarrow> new_nfa h (n_ctrl t) NFA_ACCEPTING;
     (new_interval, h) \<leftarrow> new_nfa h (n_ctrl t) NFA_INTERVAL;
     t \<leftarrow> nget h target;
     (min_rep, h) \<leftarrow> (if min_rep = 0 then do {
          h \<leftarrow> nset h start (n_type_update (\<lambda>_. NFA_SPLIT));
          h \<leftarrow> nset h start (n_lit_update (\<lambda>_. word_of_int 63));
          h \<leftarrow> nset h start (n_out1_update (\<lambda>_. n_parent t));
          h \<leftarrow> nset h start (n_out2_update (\<lambda>_. accept));
          Some (min_rep + 1, h) }
        else do {
          h \<leftarrow> nset h start (\<lambda>n. n\<lparr>n_out1 := n_parent t, n_out2 := n_parent t\<rparr>);
          Some (min_rep, h) });
     tp \<leftarrow> nget h (n_parent t);
     h \<leftarrow> nset h start (n_id_update (\<lambda>_. n_id tp));
     h \<leftarrow> nset h target (n_type_update (\<lambda>_. NFA_EPSILON));
     h \<leftarrow> nset h target (n_out2_update (\<lambda>_. new_interval));
     h \<leftarrow> mark_interval_nfa h new_interval;
     h \<leftarrow> nset h new_interval (n_low_update (\<lambda>_. UReps min_rep max_rep));
     h \<leftarrow> nset h new_interval (n_lit_update (\<lambda>_. 0));
     tmp \<leftarrow> tighten h (n_parent t);
     h \<leftarrow> nset h new_interval (n_out1_update (\<lambda>_. tmp));
     h \<leftarrow> nset h new_interval (n_out2_update (\<lambda>_. accept));
     h \<leftarrow> nset h accept (n_parent_update (\<lambda>_. start));
     Some (accept, tmp, new_interval, h) }"

section \<open>Alternation\<close>

definition is_nfa_tree :: "addr option \<Rightarrow> ptr \<Rightarrow> nheap \<Rightarrow> (addr option \<times> nheap) option" where
  "is_nfa_tree arg arg2 h = (if arg = None then Some (None, h) else do {
     n \<leftarrow> nget h arg;
     (if n_parent n \<noteq> None then do {
        p \<leftarrow> nget h (n_parent n);
        (if n_type p = NFA_TREE then do {
           h \<leftarrow> (if arg2 \<noteq> None then do {
                   h \<leftarrow> nset h arg (n_type_update (\<lambda>_. NFA_EPSILON));
                   nset h arg (n_out2_update (\<lambda>_. arg2)) }
                 else Some h);
           p \<leftarrow> nget h (n_parent n);
           ret \<leftarrow> low_branches (n_low p);
           c \<leftarrow> ctget h (n_ctrl n);
           h \<leftarrow> nfa_dealloc h (c_alloc c) (n_parent n);
           Some (ret, h) }
         else Some (None, h)) }
      else Some (None, h)) })"

primrec branch_loop :: "nat \<Rightarrow> nheap \<Rightarrow> addr lheap \<Rightarrow> ptr \<Rightarrow> ptr \<Rightarrow> (nheap \<times> addr lheap) option" where
  "branch_loop 0 h lh terminator li = Some (h, lh)"
| "branch_loop (Suc k) h lh terminator li = (if li = None then Some (h, lh) else do {
     c \<leftarrow> deref (items lh) li;
     h \<leftarrow> nset h (i_data c) (n_type_update (\<lambda>_. NFA_EPSILON));
     t \<leftarrow> nget h terminator;
     h \<leftarrow> nset h (i_data c) (n_out2_update (\<lambda>_. n_parent t));
     d \<leftarrow> nget h (i_data c);
     lh \<leftarrow> upd_item lh li (i_data_update (\<lambda>_. n_parent d));
     branch_loop k h lh terminator (i_next c) })"

partial_function (option) subtree_loop :: "addr lheap \<Rightarrow> ptr \<Rightarrow> ptr \<Rightarrow> addr lheap option" where [code]:
  "subtree_loop lh branches tmp = do {
     (sub_tree, lh) \<leftarrow> list_get_next lh tmp;
     (case sub_tree of None \<Rightarrow> Some lh
      | Some st \<Rightarrow> do {
          (_, lh) \<leftarrow> list_transfer lh branches (Some st);
          (_, lh) \<leftarrow> list_free lh (Some st) False;
          subtree_loop lh branches tmp }) }"

definition new_alternation_nfa ::
    "nheap \<Rightarrow> addr lheap \<Rightarrow> ptr \<Rightarrow> ptr \<Rightarrow> nat \<Rightarrow> ptr \<Rightarrow> (ptr \<times> nheap \<times> addr lheap) option" where
  "new_alternation_nfa h lh ctrl branches_list num_branches terminator = (if num_branches < 2 then do {
       (x, lh) \<leftarrow> stack_pop lh branches_list;
       Some (x, h, lh) }
     else do {
       (start, h) \<leftarrow> new_nfa h ctrl NFA_TREE;
       (terminator, h) \<leftarrow> (if terminator = None then do {
            (t, h) \<leftarrow> new_nfa h ctrl NFA_ACCEPTING;
            h \<leftarrow> nset h t (n_parent_update (\<lambda>_. t));
            Some (t, h) }
          else Some (terminator, h));
       (branches, lh) \<leftarrow> list_chop lh branches_list (int num_branches);
       h \<leftarrow> nset h start (n_low_update (\<lambda>_. UBranches branches));
       let (tmp, lh) = new_list lh;
       t \<leftarrow> nget h terminator;
       (_, lh, h) \<leftarrow> list_transfer_on_match is_nfa_tree (n_parent t) lh (Some tmp) branches h;
       b \<leftarrow> deref (lists lh) branches;
       (h, lh) \<leftarrow> branch_loop num_branches h lh terminator (l_head b);
       (_, lh) \<leftarrow> list_set_iterator lh (Some tmp) 0;
       lh \<leftarrow> subtree_loop lh branches (Some tmp);
       (_, lh) \<leftarrow> list_free lh (Some tmp) False;
       h \<leftarrow> nset h terminator (n_parent_update (\<lambda>_. start));
       Some (terminator, h, lh) })"

section \<open>Comparison and release\<close>

definition nfa_compare_equal :: "ptr \<Rightarrow> ptr \<Rightarrow> ptr" where
  "nfa_compare_equal nfa1 nfa2 = (if nfa1 = None \<or> nfa2 = None then None
     else if nfa1 = nfa2 then nfa1 else None)"

definition free_nfa :: "nheap \<Rightarrow> addr lheap \<Rightarrow> ptr \<Rightarrow> (ptr \<times> nheap \<times> addr lheap) option" where
  "free_nfa h lh ctrl = (case ctrl of None \<Rightarrow> Some (None, h, lh) | Some c \<Rightarrow> do {
     C \<leftarrow> ctrls h c;
     (al, h, lh) \<leftarrow> nfa_free_alloc h lh (c_alloc C);
     h \<leftarrow> ctset h ctrl (c_alloc_update (\<lambda>_. al));
     (_, lh) \<leftarrow> list_free lh (c_free_range C) True;
     Some (None, h\<lparr>ctrls := (ctrls h)(c := None)\<rparr>, lh) })"

end
