(* ===== verification/ParserData.thy ===== *)
theory ParserData
  imports Scanner Nfa
begin

text \<open>
  The state of the parser, \<open>src/regex_parser.h\<close>.

  The lists of automata nodes (the symbol stack, the branch stack, the branches of alternations)
  live in \<open>ps_lists\<close>, the patterns extracted for the keyword search in \<open>ps_pats\<close>. Scanners are
  addressed, because the parser exchanges its scanner for a temporary one while it looks for
  back-references; \<open>ps_gs\<close> is the address of the stack of scanners in \<open>ps_glists\<close>. The control
  flags are shared through a pointer by the scanner and the parser, so there is one copy. The
  \<open>static\<close> variables of the functions are the last fields.
\<close>

record cgrecord =
  cg_next_id :: u32
  cg_end :: int

record parser =
  ps_scanners :: "addr \<Rightarrow> scanner option"
  ps_scanner :: ptr
  ps_gs :: addr
  ps_glists :: "addr lheap"
  ps_nfa :: nheap
  ps_lists :: "addr lheap"
  ps_pats :: "(byte list) lheap"
  ps_symbol_stack :: ptr
  ps_branch_stack :: ptr
  ps_synth_patterns :: ptr
  ps_lookahead :: token
  ps_nfa_ctrl :: ptr
  ps_flags :: u32
  ps_paren_stack :: "int list option"
  ps_prev_interval :: ptr
  ps_prev_interval_head :: ptr
  ps_paren_count :: int
  ps_subtree_branch_count :: int
  ps_cgrp_count :: int
  ps_current_cgrp :: int
  ps_in_new_cgrp :: int
  ps_paren_idx :: int
  ps_in_alternation :: int
  ps_tree_count :: int
  ps_branch :: int
  ps_lowest_id_on_branch :: int
  ps_interval_count :: int
  ps_total_nfa_ids :: int
  ps_capgrp_record :: "cgrecord list"
  ps_cgrp_map :: "block list"
  ps_seen_newline :: bool
  ps_matching_list_len :: int
  ps_charclass :: "u32 list"
  ps_charclass_used :: nat
  ps_recursion :: int
  ps_print :: bool
  ps_base :: "nat \<Rightarrow> int"

definition parser_scanner :: "parser \<Rightarrow> scanner option" where
  "parser_scanner p = deref (ps_scanners p) (ps_scanner p)"

definition with_scanner :: "parser \<Rightarrow> (scanner \<Rightarrow> scanner) \<Rightarrow> parser option" where
  "with_scanner p f = do {
     a \<leftarrow> ps_scanner p;
     s \<leftarrow> ps_scanners p a;
     Some (p\<lparr>ps_scanners := (ps_scanners p)(a \<mapsto> f s)\<rparr>) }"

section \<open>Access to the parts\<close>

definition pn_get :: "parser \<Rightarrow> ptr \<Rightarrow> nfa option" where
  "pn_get p x = nget (ps_nfa p) x"

definition pn_set :: "parser \<Rightarrow> ptr \<Rightarrow> (nfa \<Rightarrow> nfa) \<Rightarrow> parser option" where
  "pn_set p x f = do { h \<leftarrow> nset (ps_nfa p) x f; Some (p\<lparr>ps_nfa := h\<rparr>) }"

text \<open>An operation on the lists of reachable nodes, on the other lists of nodes, on the patterns.\<close>

definition pr_op :: "parser \<Rightarrow> (addr lheap \<Rightarrow> ('v \<times> addr lheap) option) \<Rightarrow> ('v \<times> parser) option" where
  "pr_op p f = do {
     (v, lh) \<leftarrow> f (reach (ps_nfa p));
     Some (v, p\<lparr>ps_nfa := (ps_nfa p)\<lparr>reach := lh\<rparr>\<rparr>) }"

definition pl_op :: "parser \<Rightarrow> (addr lheap \<Rightarrow> ('v \<times> addr lheap) option) \<Rightarrow> ('v \<times> parser) option" where
  "pl_op p f = do { (v, lh) \<leftarrow> f (ps_lists p); Some (v, p\<lparr>ps_lists := lh\<rparr>) }"

definition pp_op :: "parser \<Rightarrow> ((byte list) lheap \<Rightarrow> ('v \<times> (byte list) lheap) option) \<Rightarrow> ('v \<times> parser) option" where
  "pp_op p f = do { (v, lh) \<leftarrow> f (ps_pats p); Some (v, p\<lparr>ps_pats := lh\<rparr>) }"

end
