(* ===== verification/Compile.thy ===== *)
theory Compile
  imports ParserData BoyerMoore Mpat "HOL-Library.Signed_Division"
begin

text \<open>
  The compilation of the automaton, \<open>src/compile.c\<close>: the lists of reachable nodes, and the
  patterns for the keyword search.

  \<open>collect_adjacencies_helper\<close> and \<open>synthesize_pattern\<close> recurse over the graph: each is the
  iteration of its body on a bound of the depth of the calls. The parameters \<open>outn\<close> and
  \<open>adj_intvls_list\<close> are never read. The static counter \<open>recursion\<close> and flag \<open>print\<close> are fields
  of the state.
\<close>

section \<open>Flags\<close>

definition set_nfa_flag :: "u32 \<Rightarrow> parser \<Rightarrow> ptr \<Rightarrow> parser option" where
  "set_nfa_flag f p x = pn_set p x (\<lambda>n. n\<lparr>n_flags := n_flags n OR f\<rparr>)"

definition clear_nfa_flag :: "u32 \<Rightarrow> parser \<Rightarrow> ptr \<Rightarrow> parser option" where
  "clear_nfa_flag f p x = pn_set p x (\<lambda>n. n\<lparr>n_flags := n_flags n AND NOT f\<rparr>)"

definition check_nfa_flag :: "u32 \<Rightarrow> nfa \<Rightarrow> bool" where
  "check_nfa_flag f n \<longleftrightarrow> n_flags n AND f \<noteq> 0"

section \<open>Reachable nodes\<close>

type_synonym collect_fun = "ptr \<Rightarrow> ptr \<Rightarrow> ptr \<Rightarrow> parser \<Rightarrow> parser option"

text \<open>The comparison for \<open>list_search\<close>, and the appending of a node that is not in the list.\<close>

definition compare_ptr :: "addr option \<Rightarrow> ptr \<Rightarrow> addr option" where
  "compare_ptr a b = (if a = b then a else None)"

definition add_reachable :: "ptr \<Rightarrow> ptr \<Rightarrow> parser \<Rightarrow> parser option" where
  "add_reachable current visiting p = do {
     found \<leftarrow> list_search (reach (ps_nfa p)) current visiting (Some compare_ptr);
     (if found = None then do { (_, p) \<leftarrow> pr_op p (\<lambda>lh. list_append lh current visiting); Some p } else Some p) }"

definition deeper :: "collect_fun \<Rightarrow> collect_fun" where
  "deeper rec current visiting forbidden p = do {
     p \<leftarrow> rec current visiting forbidden (p\<lparr>ps_recursion := ps_recursion p + 1\<rparr>);
     Some (p\<lparr>ps_recursion := ps_recursion p - 1\<rparr>) }"

partial_function (option) tree_loop :: "(ptr \<Rightarrow> parser \<Rightarrow> parser option) \<Rightarrow> ptr \<Rightarrow> int \<Rightarrow> parser \<Rightarrow> parser option" where [code]:
  "tree_loop body visiting i p = do {
     n \<leftarrow> pn_get p visiting;
     branches \<leftarrow> low_branches (n_low n);
     k \<leftarrow> list_size (ps_lists p) branches;
     (if i < k then do {
        branch \<leftarrow> list_get_at (ps_lists p) branches i;
        p \<leftarrow> body branch p;
        tree_loop body visiting (i + 1) p }
      else Some p) }"

definition collect_node :: "collect_fun \<Rightarrow> collect_fun" where
  "collect_node rec current visiting forbidden p = do {
     n \<leftarrow> pn_get p visiting;
     (if n_type n = NFA_TREE then do {
        p \<leftarrow> set_nfa_flag VISITED p visiting;
        p \<leftarrow> tree_loop (\<lambda>branch. deeper rec current branch forbidden) visiting 0 p;
        clear_nfa_flag VISITED p visiting }
      else if n_type n = NFA_SPLIT then do {
        c \<leftarrow> pn_get p current;
        (if n_type c = NFA_INTERVAL then do {
           p \<leftarrow> rec current (n_out1 n) (n_out1 c) p;
           n \<leftarrow> pn_get p visiting;
           rec current (n_out2 n) forbidden p }
         else do {
           p \<leftarrow> set_nfa_flag VISITED p visiting;
           p \<leftarrow> rec current (n_out1 n) forbidden (p\<lparr>ps_recursion := ps_recursion p + 1\<rparr>);
           n \<leftarrow> pn_get p visiting;
           p \<leftarrow> rec current (n_out2 n) forbidden p;
           clear_nfa_flag VISITED (p\<lparr>ps_recursion := ps_recursion p - 1\<rparr>) visiting }) }
      else if current = visiting \<and> ps_recursion p = 0 then deeper rec current (n_out2 n) forbidden p
      else add_reachable current visiting p) }"

definition collect_body :: "collect_fun \<Rightarrow> collect_fun" where
  "collect_body rec current visiting forbidden p = (if visiting = forbidden then set_nfa_flag CYCLE p current
     else do {
       n \<leftarrow> pn_get p visiting;
       p \<leftarrow> (if n_type n = NFA_EPSILON then do {
               p \<leftarrow> set_nfa_flag VISITED p visiting;
               p \<leftarrow> deeper rec current (n_out2 n) forbidden p;
               clear_nfa_flag VISITED p visiting }
             else if check_nfa_flag VISITED n then
               (if n_type n = NFA_TREE \<or> n_type n = NFA_SPLIT then Some p else add_reachable current visiting p)
             else collect_node rec current visiting forbidden p);
       n \<leftarrow> pn_get p visiting;
       (if n_type n = NFA_ACCEPTING then set_nfa_flag ACCEPTS p current else Some p) })"

primrec collect_adjacencies_helper :: "nat \<Rightarrow> collect_fun" where
  "collect_adjacencies_helper 0 current visiting forbidden p = None"
| "collect_adjacencies_helper (Suc k) current visiting forbidden p =
     collect_body (collect_adjacencies_helper k) current visiting forbidden p"

section \<open>Patterns\<close>

text \<open>\<open>strndup\<close>: the bytes up to a null byte, at most \<open>n\<close>, and a null byte.\<close>

definition strndup :: "byte list \<Rightarrow> int \<Rightarrow> byte list" where
  "strndup s n = takeWhile (\<lambda>b. b \<noteq> 0) (take (nat n) s) @ [0]"

type_synonym synth_fun = "byte list \<Rightarrow> ptr \<Rightarrow> int \<Rightarrow> parser \<Rightarrow> (int \<times> byte list \<times> parser) option"

partial_function (option) synth_branches ::
    "(byte list \<Rightarrow> ptr \<Rightarrow> parser \<Rightarrow> (int \<times> byte list \<times> parser) option) \<Rightarrow> ptr \<Rightarrow> int \<Rightarrow> byte list \<Rightarrow> parser \<Rightarrow>
     (int \<times> byte list \<times> parser) option" where [code]:
  "synth_branches body l ret root p = do {
     (tmp, p) \<leftarrow> pl_op p (\<lambda>lh. list_get_next lh l);
     (case tmp of None \<Rightarrow> Some (ret, root, p)
      | Some t \<Rightarrow> do {
          (ret, root, p) \<leftarrow> body root (Some t) p;
          synth_branches body l ret root p }) }"

definition synth_node :: "synth_fun \<Rightarrow> byte list \<Rightarrow> nfa \<Rightarrow> int \<Rightarrow> parser \<Rightarrow> (int \<times> int \<times> byte list \<times> parser) option" where
  "synth_node rec root n i p = (
     if n_type n = NFA_LITERAL then do {
       root \<leftarrow> arr_set root i (ucast (n_lit n));
       (ret, root, p) \<leftarrow> rec root (n_out2 n) (i + 1) (p\<lparr>ps_print := True\<rparr>);
       Some (ret, i + 1, root, p) }
     else if n_type n = NFA_EPSILON \<or> n_type n = NFA_CAPTUREGRP_BEGIN \<or> n_type n = NFA_CAPTUREGRP_END then do {
       (ret, root, p) \<leftarrow> rec root (n_out2 n) i p;
       Some (ret, i, root, p) }
     else if n_type n = NFA_TREE then do {
       l \<leftarrow> low_branches (n_low n);
       (_, p) \<leftarrow> pl_op p (\<lambda>lh. list_set_iterator lh l 0);
       (ret, root, p) \<leftarrow> synth_branches (\<lambda>root t. rec root t i) l 0 root p;
       Some (ret, i, root, p) }
     else if n_type n = NFA_SPLIT then
       (if n_lit n = 63 then do {
          (_, root, p) \<leftarrow> rec root (n_out1 n) i p;
          (ret, root, p) \<leftarrow> rec root (n_out2 n) i p;
          Some (ret, i, root, p) }
        else Some (0, i, root, p))
     else Some (0, i, root, p\<lparr>ps_print := True\<rparr>))"

definition synth_body :: "synth_fun \<Rightarrow> synth_fun" where
  "synth_body rec root nfa i p = do {
     n \<leftarrow> pn_get p nfa;
     (ret, i, root, p) \<leftarrow> synth_node rec root n i p;
     (if ret \<noteq> -1 then do {
        p \<leftarrow> (if ps_print p then do {
                (_, p) \<leftarrow> pp_op p (\<lambda>ph. list_append ph (ps_synth_patterns p) (Some (strndup root i)));
                Some (p\<lparr>ps_print := False\<rparr>) }
              else Some p);
        root \<leftarrow> arr_set root i 0;
        Some (if i = 0 then 0 else i - 1, root, p) }
      else Some (ret, root, p)) }"

primrec synthesize_pattern :: "nat \<Rightarrow> synth_fun" where
  "synthesize_pattern 0 root nfa i p = None"
| "synthesize_pattern (Suc k) root nfa i p = synth_body (synthesize_pattern k) root nfa i p"

partial_function (option) mpat_tables_loop :: "nat \<Rightarrow> ptr \<Rightarrow> byte list \<Rightarrow> parser \<Rightarrow> parser option" where [code]:
  "mpat_tables_loop k start root p = do {
     (nfa, p) \<leftarrow> pr_op p (\<lambda>lh. list_get_next lh start);
     (case nfa of None \<Rightarrow> Some p
      | Some a \<Rightarrow> do {
          n \<leftarrow> pn_get p (Some a);
          (if n_type n = NFA_LITERAL then do {
             (_, root, p) \<leftarrow> synthesize_pattern k root (Some a) 0 p;
             mpat_tables_loop k start root p }
           else if n_type n = NFA_ACCEPTING then mpat_tables_loop k start root p
           else Some p) }) }"

definition compute_mpat_tables :: "nat \<Rightarrow> parser \<Rightarrow> ptr \<Rightarrow> parser option" where
  "compute_mpat_tables k p start = (if start = None then Some p else do {
     s \<leftarrow> parser_scanner p;
     len \<leftarrow> str_len (bytes s);
     (_, p) \<leftarrow> pr_op p (\<lambda>lh. list_set_iterator lh start 0);
     mpat_tables_loop k start (replicate len 0) p })"

section \<open>All nodes\<close>

text \<open>The three ways to fill the list of a node. \<open>tmp\<close> is the list that keeps what is reachable
  through the body of an interval.\<close>

definition collect_interval :: "nat \<Rightarrow> ptr \<Rightarrow> ptr \<Rightarrow> parser \<Rightarrow> parser option" where
  "collect_interval k tmp visiting p = do {
     n \<leftarrow> pn_get p visiting;
     p \<leftarrow> collect_adjacencies_helper k visiting (n_out1 n) None p;
     sz \<leftarrow> list_size (reach (ps_nfa p)) visiting;
     p \<leftarrow> pn_set p visiting (n_lit_update (\<lambda>_. word_of_int sz));
     (_, p) \<leftarrow> pr_op p (\<lambda>lh. map_option (Pair ()) (list_clear lh tmp));
     (_, p) \<leftarrow> pr_op p (\<lambda>lh. list_transfer lh tmp visiting);
     n \<leftarrow> pn_get p visiting;
     p \<leftarrow> collect_adjacencies_helper k visiting (n_out2 n) None p;
     (_, p) \<leftarrow> pr_op p (\<lambda>lh. list_transfer lh tmp visiting);
     (_, p) \<leftarrow> pr_op p (\<lambda>lh. list_transfer lh visiting tmp);
     Some p }"

definition collect_visiting :: "nat \<Rightarrow> ptr \<Rightarrow> ptr \<Rightarrow> parser \<Rightarrow> parser option" where
  "collect_visiting k tmp visiting p = do {
     p \<leftarrow> set_nfa_flag VISITED p visiting;
     n \<leftarrow> pn_get p visiting;
     p \<leftarrow> (if n_type n = NFA_INTERVAL then collect_interval k tmp visiting p
           else if n_type n = NFA_SPLIT then do {
             p \<leftarrow> collect_adjacencies_helper k visiting (n_out1 n) None p;
             n \<leftarrow> pn_get p visiting;
             collect_adjacencies_helper k visiting (n_out2 n) None p }
           else collect_adjacencies_helper k visiting (n_out2 n) None p);
     p \<leftarrow> clear_nfa_flag VISITED p visiting;
     (_, p) \<leftarrow> pl_op p (\<lambda>lh. list_append lh (ps_branch_stack p) visiting);
     Some p }"

partial_function (option) visit_loop :: "nat \<Rightarrow> ptr \<Rightarrow> ptr \<Rightarrow> int \<Rightarrow> parser \<Rightarrow> parser option" where [code]:
  "visit_loop k tmp current j p = do {
     sz \<leftarrow> list_size (reach (ps_nfa p)) current;
     (if j < sz then do {
        visiting \<leftarrow> list_get_at (reach (ps_nfa p)) current j;
        n \<leftarrow> pn_get p visiting;
        (if check_nfa_flag DONE n then visit_loop k tmp current (j + 1) p
         else do {
           p \<leftarrow> set_nfa_flag DONE p visiting;
           p \<leftarrow> (if current \<noteq> visiting \<and> n_type n \<noteq> NFA_ACCEPTING then collect_visiting k tmp visiting p else Some p);
           visit_loop k tmp current (j + 1) p }) }
      else Some p) }"

text \<open>The loop over the nodes to expand, which grows while it runs; its list is the branch stack.\<close>

partial_function (option) collect_loop :: "nat \<Rightarrow> ptr \<Rightarrow> int \<Rightarrow> int \<Rightarrow> parser \<Rightarrow> parser option" where [code]:
  "collect_loop k tmp total_collectables i p = do {
     (current, p) \<leftarrow> pl_op p (\<lambda>lh. list_get_next lh (ps_branch_stack p));
     (case current of None \<Rightarrow> Some p
      | Some c \<Rightarrow> do {
          l \<leftarrow> deref (lists (ps_lists p)) (ps_branch_stack p);
          sz \<leftarrow> list_size (ps_lists p) (ps_branch_stack p);
          (if l_iter_idx l \<le> sz then
             (if i > total_collectables then Some p else do {
                p \<leftarrow> visit_loop k tmp (Some c) 0 p;
                collect_loop k tmp total_collectables (i + 1) p })
           else Some p) }) }"

text \<open>The header of the list \<open>tmp\<close> gets an address that no node has.\<close>

definition new_temp_list :: "parser \<Rightarrow> addr \<times> parser" where
  "new_temp_list p = (let h = ps_nfa p; a = nbrk h in
     (a, p\<lparr>ps_nfa := h\<lparr>reach := (reach h)\<lparr>lists := (lists (reach h))(a \<mapsto> zero_list\<lparr>l_iter_idx := -1, l_iter := SHead a\<rparr>),
       brk := max (brk (reach h)) (a + 1)\<rparr>,
       nbrk := nbrk h + 1\<rparr>\<rparr>))"

definition collect_adjacencies :: "nat \<Rightarrow> parser \<Rightarrow> ptr \<Rightarrow> int \<Rightarrow> parser option" where
  "collect_adjacencies k p start total_collectables = (if start = None then Some p else do {
     let (tmp, p) = new_temp_list p;
     p \<leftarrow> collect_adjacencies_helper k start start None p;
     (_, p) \<leftarrow> pl_op p (\<lambda>lh. list_append lh (ps_branch_stack p) start);
     p \<leftarrow> compute_mpat_tables k p start;
     (_, p) \<leftarrow> pl_op p (\<lambda>lh. list_set_iterator lh (ps_branch_stack p) 0);
     p \<leftarrow> collect_loop k (Some tmp) total_collectables 0 p;
     (_, p) \<leftarrow> pr_op p (\<lambda>lh. map_option (Pair ()) (free_list lh (Some tmp)));
     Some p })"

definition compile_regex :: "nat \<Rightarrow> parser \<Rightarrow> parser option" where
  "compile_regex k p = do {
     t \<leftarrow> stack_peek (ps_lists p) (ps_symbol_stack p);
     n \<leftarrow> pn_get p t;
     collect_adjacencies k p (n_parent n) (ps_total_nfa_ids p + ps_interval_count p) }"

end
