(* ===== verification/NfaGraph.thy ===== *)
theory NfaGraph
  imports Prelude
begin

text \<open>
  Automata as labelled graphs, without a heap: the runs of a graph, and the effect on the
  language of a fragment of the four ways in which \<open>src/nfa.c\<close> combines fragments. An edge carries
  the set of characters it consumes, or nothing. A fragment has a set of nodes, a start that no
  edge leads to and an end that no edge leaves.
\<close>

type_synonym ('a, 'c) graph = "'a \<Rightarrow> ('c set option \<times> 'a) set"

inductive run :: "('a, 'c) graph \<Rightarrow> 'a \<Rightarrow> 'c list \<Rightarrow> 'a \<Rightarrow> bool" for G where
  run_refl: "run G x [] x"
| run_eps: "(None, y) \<in> G x \<Longrightarrow> run G y w z \<Longrightarrow> run G x w z"
| run_char: "(Some P, y) \<in> G x \<Longrightarrow> c \<in> P \<Longrightarrow> run G y w z \<Longrightarrow> run G x (c # w) z"

inductive_cases run_cases: "run G x w z"

lemma run_trans: "run G x u y \<Longrightarrow> run G y v z \<Longrightarrow> run G x (u @ v) z"
  by (induction rule: run.induct) (auto intro: run.intros)

lemma run_stuck: "G x = {} \<Longrightarrow> run G x w z \<longleftrightarrow> w = [] \<and> z = x"
  by (auto elim: run_cases intro: run_refl)

lemma run_one_eps: "G x = {(None, y)} \<Longrightarrow> x \<noteq> z \<Longrightarrow> run G x w z \<longleftrightarrow> run G y w z"
  by (auto elim: run_cases intro: run_eps)

lemma run_two_eps: "G x = {(None, y), (None, y')} \<Longrightarrow> x \<noteq> z \<Longrightarrow> run G x w z \<longleftrightarrow> run G y w z \<or> run G y' w z"
  by (auto elim: run_cases intro: run_eps)

text \<open>Runs stay in a set that edges do not leave, and only depend on the edges there.\<close>

definition closed :: "('a, 'c) graph \<Rightarrow> 'a set \<Rightarrow> bool" where
  "closed G N \<longleftrightarrow> (\<forall>x \<in> N. snd ` G x \<subseteq> N)"

lemma closedD: "closed G N \<Longrightarrow> x \<in> N \<Longrightarrow> (l, y) \<in> G x \<Longrightarrow> y \<in> N"
  by (force simp: closed_def)

lemma run_closed: "run G x w z \<Longrightarrow> closed G N \<Longrightarrow> x \<in> N \<Longrightarrow> z \<in> N"
  by (induction rule: run.induct) (auto dest: closedD)

lemma run_mono: "run G x w z \<Longrightarrow> closed G N \<Longrightarrow> x \<in> N \<Longrightarrow> \<forall>y \<in> N. G y \<subseteq> H y \<Longrightarrow> run H x w z"
  by (induction rule: run.induct) (auto dest: closedD intro: run.intros)

lemma run_cong:
  assumes "closed G N" "x \<in> N" "\<forall>y \<in> N. H y = G y"
  shows "run H x w z \<longleftrightarrow> run G x w z"
proof -
  have "closed H N" using assms(1,3) by (simp add: closed_def)
  then show ?thesis using run_mono [of H x w z N G] run_mono [of G x w z N H] assms by auto
qed

text \<open>A run to a node without edges only uses the edges of the other nodes.\<close>

lemma run_to_end:
  assumes "run G x w a" "closed G N" "x \<in> N" "G a = {}" "\<forall>y \<in> N - {a}. G y \<subseteq> H y"
  shows "run H x w a"
  using assms
proof (induction rule: run.induct)
  case (run_refl x)
  show ?case by (rule run.run_refl)
next
  case (run_eps y x w z)
  have e: "x \<in> N - {z}" using run_eps.hyps(1) run_eps.prems by auto
  have "y \<in> N" by (rule closedD [OF run_eps.prems(1,2) run_eps.hyps(1)])
  moreover have "(None, y) \<in> H x" using e run_eps.hyps(1) run_eps.prems(4) by blast
  ultimately show ?case using run_eps.IH run_eps.prems by (blast intro: run.run_eps)
next
  case (run_char P y x c w z)
  have e: "x \<in> N - {z}" using run_char.hyps(1) run_char.prems by auto
  have "y \<in> N" by (rule closedD [OF run_char.prems(1,2) run_char.hyps(1)])
  moreover have "(Some P, y) \<in> H x" using e run_char.hyps(1) run_char.prems(4) by blast
  ultimately show ?case using run_char.IH run_char.hyps(2) run_char.prems by (blast intro: run.run_char)
qed

section \<open>Fragments\<close>

definition frag :: "('a, 'c) graph \<Rightarrow> 'a set \<Rightarrow> 'a \<Rightarrow> 'a \<Rightarrow> bool" where
  "frag G N s a \<longleftrightarrow> s \<in> N \<and> a \<in> N \<and> s \<noteq> a \<and> G a = {} \<and> (\<forall>x \<in> N. snd ` G x \<subseteq> N - {s})"

definition flang :: "('a, 'c) graph \<Rightarrow> 'a \<Rightarrow> 'a \<Rightarrow> 'c list set" where
  "flang G s a = {w. run G s w a}"

lemma frag_closed: "frag G N s a \<Longrightarrow> closed G N"
  by (auto simp: frag_def closed_def)

lemma fragD: "frag G N s a \<Longrightarrow> x \<in> N \<Longrightarrow> (l, y) \<in> G x \<Longrightarrow> y \<in> N \<and> y \<noteq> s"
  by (force simp: frag_def)

lemma frag_ends: "frag G N s a \<Longrightarrow> s \<in> N \<and> a \<in> N \<and> s \<noteq> a \<and> G a = {}"
  by (simp add: frag_def)

lemma frag_cong:
  assumes "frag G N s a" "\<forall>x \<in> N. H x = G x"
  shows "frag H N s a" "flang H s a = flang G s a"
proof -
  have g: "H a = G a" "s \<in> N" using assms by (auto simp: frag_def)
  show "frag H N s a" using assms(1) unfolding frag_def g(1) using assms(2) by simp
  show "flang H s a = flang G s a" unfolding flang_def run_cong [OF frag_closed [OF assms(1)] g(2) assms(2)] ..
qed

text \<open>One edge.\<close>

lemma frag_edge:
  assumes "s \<noteq> a" "G s = {(Some P, a)}" "G a = {}"
  shows "frag G {s, a} s a" "flang G s a = {[c] | c. c \<in> P}"
proof -
  show "frag G {s, a} s a" using assms by (auto simp: frag_def)
  have "run G s w a \<longleftrightarrow> (\<exists>c. c \<in> P \<and> w = [c])" for w
  proof
    assume "run G s w a"
    then show "\<exists>c. c \<in> P \<and> w = [c]"
    proof (cases rule: run.cases)
      case (run_char Q y c v)
      then show ?thesis using assms run_stuck [of G a v a] by auto
    qed (use assms in auto)
  next
    assume "\<exists>c. c \<in> P \<and> w = [c]"
    then show "run G s w a" using assms(2) by (auto intro: run_char run_refl)
  qed
  then show "flang G s a = {[c] | c. c \<in> P}" by (auto simp: flang_def)
qed

section \<open>Concatenation\<close>

text \<open>The end of the first fragment takes over the edges of the start of the second.\<close>

definition conc :: "'c list set \<Rightarrow> 'c list set \<Rightarrow> 'c list set" where
  "conc A B = {u @ v | u v. u \<in> A \<and> v \<in> B}"

lemma conc_run_split:
  assumes "run H x w z" "frag G N1 s1 a1" "frag G N2 s2 a2" "N1 \<inter> N2 = {}" "z = a2"
    "\<forall>y \<in> N1 - {a1}. H y = G y" "\<forall>y \<in> N2 - {s2}. H y = G y" "H a1 = G s2"
  shows "(x \<in> N1 \<longrightarrow> (\<exists>u v. w = u @ v \<and> run G x u a1 \<and> run G s2 v a2)) \<and> (x \<in> N2 - {s2} \<longrightarrow> run G x w a2)"
  using assms
proof (induction rule: run.induct)
  case (run_refl x)
  then show ?case using frag_ends [of G N2 s2 a2] by (auto intro: run.run_refl)
next
  case (run_eps y x w z)
  show ?case
  proof (intro conjI impI)
    assume x: "x \<in> N1"
    show "\<exists>u v. w = u @ v \<and> run G x u a1 \<and> run G s2 v a2"
    proof (cases "x = a1")
      case True
      then have e: "(None, y) \<in> G s2" using run_eps by simp
      then have "y \<in> N2 - {s2}" using fragD [of G N2 s2 a2 s2] frag_ends run_eps.prems(2) by fastforce
      then have "run G y w a2" using run_eps by blast
      then show ?thesis using e True by (intro exI [of _ "[]"] exI [of _ w]) (auto intro: run.intros)
    next
      case False
      then have e: "(None, y) \<in> G x" using x run_eps by simp
      then have "y \<in> N1" using fragD run_eps.prems(1) x by fastforce
      then show ?thesis using run_eps e by (blast intro: run.run_eps)
    qed
  next
    assume x: "x \<in> N2 - {s2}"
    then have e: "(None, y) \<in> G x" using run_eps by simp
    then have "y \<in> N2 - {s2}" using fragD [of G N2 s2 a2 x] run_eps.prems(2) x by fastforce
    then show "run G x w a2" using run_eps e by (blast intro: run.run_eps)
  qed
next
  case (run_char P y x c w z)
  show ?case
  proof (intro conjI impI)
    assume x: "x \<in> N1"
    show "\<exists>u v. c # w = u @ v \<and> run G x u a1 \<and> run G s2 v a2"
    proof (cases "x = a1")
      case True
      then have e: "(Some P, y) \<in> G s2" using run_char by simp
      then have "y \<in> N2 - {s2}" using fragD [of G N2 s2 a2 s2] frag_ends run_char.prems(2) by fastforce
      then have "run G y w a2" using run_char by blast
      then show ?thesis using e True run_char.hyps(2) by (intro exI [of _ "[]"] exI [of _ "c # w"]) (auto intro: run.intros)
    next
      case False
      then have e: "(Some P, y) \<in> G x" using x run_char by simp
      then have "y \<in> N1" using fragD run_char.prems(1) x by fastforce
      then obtain u v where "w = u @ v" "run G y u a1" "run G s2 v a2" using run_char by blast
      then show ?thesis using e run_char.hyps(2) by (intro exI [of _ "c # u"] exI [of _ v]) (auto intro: run.run_char)
    qed
  next
    assume x: "x \<in> N2 - {s2}"
    then have e: "(Some P, y) \<in> G x" using run_char by simp
    then have "y \<in> N2 - {s2}" using fragD [of G N2 s2 a2 x] run_char.prems(2) x by fastforce
    then show "run G x (c # w) a2" using run_char e by (blast intro: run.run_char)
  qed
qed

lemma frag_conc:
  assumes F: "frag G N1 s1 a1" "frag G N2 s2 a2" and d: "N1 \<inter> N2 = {}"
    and H: "\<forall>y \<in> N1 - {a1}. H y = G y" "\<forall>y \<in> N2 - {s2}. H y = G y" "H a1 = G s2"
  shows "frag H (N1 \<union> N2 - {s2}) s1 a2" "flang H s1 a2 = conc (flang G s1 a1) (flang G s2 a2)"
proof -
  note e1 = frag_ends [OF F(1)] and e2 = frag_ends [OF F(2)]
  have s1: "s1 \<in> N1 - {a1}" "s1 \<notin> N2" "a2 \<in> N2 - {s2}" "a2 \<notin> N1" using e1 e2 d by auto
  have 1: "snd ` H x \<subseteq> N1 \<union> N2 - {s2} - {s1}" if xin: "x \<in> N1 \<union> N2 - {s2}" for x
  proof -
    consider "x \<in> N1 - {a1}" | "x = a1" | "x \<in> N2 - {s2}" using xin by auto
    then show ?thesis
    proof cases
      case 1
      then have "snd ` G x \<subseteq> N1 - {s1}" using F(1) by (simp add: frag_def)
      moreover have "H x = G x" using 1 H by blast
      ultimately show ?thesis using d e2 by auto
    next
      case 2
      have "snd ` G s2 \<subseteq> N2 - {s2}" using F(2) by (simp add: frag_def)
      then show ?thesis using 2 H(3) d e1 by auto
    next
      case 3
      then have "snd ` G x \<subseteq> N2 - {s2}" using F(2) by (simp add: frag_def)
      moreover have "H x = G x" using 3 H by blast
      ultimately show ?thesis using d e1 by auto
    qed
  qed
  have "H a2 = {}" using H(2) s1 e2 by blast
  then show "frag H (N1 \<union> N2 - {s2}) s1 a2" using 1 e1 e2 s1 d unfolding frag_def by auto
  have "run H s1 (u @ v) a2" if u: "run G s1 u a1" and v: "run G s2 v a2" for u v
  proof -
    have "run H s1 u a1" by (rule run_to_end [OF u frag_closed [OF F(1)]]) (use e1 H in auto)
    moreover have "run H a1 v a2"
    proof -
      have c: "closed G (N2 - {s2})" using F(2) by (auto simp: frag_def closed_def)
      have m: "run H y v' a2" if "run G y v' a2" "y \<in> N2 - {s2}" for y v'
        by (rule run_mono [OF that(1) c that(2)]) (use H in blast)
      from v show ?thesis
      proof (cases rule: run.cases)
        case run_refl
        then show ?thesis using e2 by simp
      next
        case (run_eps y)
        then have "y \<in> N2 - {s2}" using fragD [OF F(2)] e2 by blast
        then show ?thesis using run_eps m H(3) by (auto intro: run.run_eps)
      next
        case (run_char P y c w)
        then have "y \<in> N2 - {s2}" using fragD [OF F(2)] e2 by blast
        then show ?thesis using run_char m H(3) by (auto intro: run.run_char)
      qed
    qed
    ultimately show ?thesis by (rule run_trans)
  qed
  moreover have "\<exists>u v. w = u @ v \<and> run G s1 u a1 \<and> run G s2 v a2" if "run H s1 w a2" for w
    using conc_run_split [OF that F d refl H] e1 by blast
  ultimately show "flang H s1 a2 = conc (flang G s1 a1) (flang G s2 a2)" by (auto simp: flang_def conc_def)
qed

section \<open>Repetition\<close>

definition kstar :: "'c list set \<Rightarrow> 'c list set" where
  "kstar A = {concat ws | ws. set ws \<subseteq> A}"

lemma kstar_nil: "[] \<in> kstar A"
  by (auto simp: kstar_def intro: exI [of _ "[]"])

lemma kstar_step: "u \<in> A \<Longrightarrow> v \<in> kstar A \<Longrightarrow> u @ v \<in> kstar A"
proof -
  assume u: "u \<in> A" and "v \<in> kstar A"
  then obtain ws where "v = concat ws" "set ws \<subseteq> A" by (auto simp: kstar_def)
  then show "u @ v \<in> kstar A" using u unfolding kstar_def by (intro CollectI exI [of _ "u # ws"]) simp
qed

text \<open>The end \<open>a\<close> of a fragment gets an edge back to \<open>t\<close>, from where the fragment has the same
  language as from its start, and one to a new end.\<close>

lemma loop_run_split:
  assumes "run H x w z" "frag G N s a" "z \<notin> N" "\<forall>y \<in> N - {a}. H y = G y" "H a = {(None, t), (None, z)}" "H z = {}"
    "t \<in> N" "\<forall>w. run G t w a \<longleftrightarrow> run G s w a"
  shows "x \<in> N \<longrightarrow> (\<exists>u v. w = u @ v \<and> run G x u a \<and> v \<in> kstar (flang G s a))"
  using assms
proof (induction rule: run.induct)
  case (run_refl x)
  then show ?case by blast
next
  case (run_eps y x w z)
  note ends = frag_ends [OF run_eps.prems(1)]
  show ?case
  proof
    assume x: "x \<in> N"
    show "\<exists>u v. w = u @ v \<and> run G x u a \<and> v \<in> kstar (flang G s a)"
    proof (cases "x = a")
      case True
      then consider "y = t" | "y = z" using run_eps by auto
      then show ?thesis
      proof cases
        case 1
        then obtain u v where "w = u @ v" "run G t u a" "v \<in> kstar (flang G s a)" using run_eps by blast
        then have "w \<in> kstar (flang G s a)" using run_eps.prems(7) kstar_step [of u "flang G s a" v] by (simp add: flang_def)
        then show ?thesis using True by (intro exI [of _ "[]"] exI [of _ w]) (auto intro: run.run_refl)
      next
        case 2
        then have "w = []" using run_eps.hyps(2) run_stuck [of H z w z] run_eps.prems by auto
        then show ?thesis using True by (intro exI [of _ "[]"]) (auto intro: run.run_refl kstar_nil)
      qed
    next
      case False
      then have e: "(None, y) \<in> G x" using x run_eps by simp
      then have "y \<in> N" using fragD run_eps.prems(1) x by fastforce
      then show ?thesis using run_eps e by (blast intro: run.run_eps)
    qed
  qed
next
  case (run_char P y x c w z)
  show ?case
  proof
    assume x: "x \<in> N"
    have ne: "x \<noteq> a" using run_char by auto
    then have e: "(Some P, y) \<in> G x" using x run_char by simp
    then have "y \<in> N" using fragD run_char.prems(1) x by fastforce
    then obtain u v where "w = u @ v" "run G y u a" "v \<in> kstar (flang G s a)" using run_char by blast
    then show "\<exists>u v. c # w = u @ v \<and> run G x u a \<and> v \<in> kstar (flang G s a)"
      using e run_char.hyps(2) by (intro exI [of _ "c # u"] exI [of _ v]) (auto intro: run.run_char)
  qed
qed

lemma loop_run:
  assumes F: "frag G N s a" and z: "z \<notin> N" and H: "\<forall>y \<in> N - {a}. H y = G y" "H a = {(None, t), (None, z)}" "H z = {}"
    and t: "t \<in> N" "\<forall>w. run G t w a \<longleftrightarrow> run G s w a"
  shows "run H a w z \<longleftrightarrow> w \<in> kstar (flang G s a)"
    "run H s w z \<longleftrightarrow> w \<in> conc (flang G s a) (kstar (flang G s a))"
proof -
  note ends = frag_ends [OF F]
  have pass: "run H x u a" if "run G x u a" "x \<in> N" for x u
    by (rule run_to_end [OF that(1) frag_closed [OF F] that(2)]) (use ends H in auto)
  have again: "run H a (concat ws) z" if "set ws \<subseteq> flang G s a" for ws
    using that
  proof (induction ws)
    case Nil
    then show ?case using H(2) by (auto intro: run.intros)
  next
    case (Cons u ws)
    then have "run G t u a" using t(2) by (simp add: flang_def)
    from run_trans [OF pass [OF this t(1)]] Cons have "run H t (u @ concat ws) z" by simp
    then show ?case using H(2) by (auto intro: run_eps)
  qed
  note split = loop_run_split [OF _ F z H t, THEN mp]
  show 1: "run H a w z \<longleftrightarrow> w \<in> kstar (flang G s a)"
  proof
    assume "run H a w z"
    from split [OF this] ends obtain u v where "w = u @ v" "run G a u a" "v \<in> kstar (flang G s a)" by blast
    then show "w \<in> kstar (flang G s a)" using run_stuck [of G a] ends by auto
  qed (auto simp: kstar_def intro: again)
  show "run H s w z \<longleftrightarrow> w \<in> conc (flang G s a) (kstar (flang G s a))"
  proof
    assume "run H s w z"
    from split [OF this] ends show "w \<in> conc (flang G s a) (kstar (flang G s a))" by (auto simp: conc_def flang_def)
  next
    assume "w \<in> conc (flang G s a) (kstar (flang G s a))"
    then obtain u v where "w = u @ v" "run G s u a" "v \<in> kstar (flang G s a)" by (auto simp: conc_def flang_def)
    then show "run H s w z" using pass [of s u] again ends by (auto simp: kstar_def intro: run_trans)
  qed
qed

text \<open>The three closures: a new start \<open>b\<close> and a new end \<open>z\<close> around the fragment.\<close>

lemma frag_wrap:
  assumes F: "frag G N s a" and b: "b \<notin> N" "z \<notin> N" "b \<noteq> z" and H: "\<forall>y \<in> N - {a}. H y = G y" "H z = {}"
    and E: "snd ` H a \<subseteq> insert z N" "snd ` H b \<subseteq> insert z N"
  shows "frag H (insert b (insert z N)) b z"
proof -
  have "snd ` H y \<subseteq> insert z N" if "y \<in> N - {a}" for y
  proof -
    have "H y = G y" using H(1) that by blast
    moreover have "snd ` G y \<subseteq> N" using F that by (force simp: frag_def)
    ultimately show ?thesis by auto
  qed
  then have "snd ` H y \<subseteq> insert z N" if "y \<in> insert b (insert z N)" for y using that H(2) E by (cases "y \<in> N - {a}") auto
  then show ?thesis using b H(2) unfolding frag_def by blast
qed

lemma frag_star:
  assumes F: "frag G N s a" and b: "b \<notin> N" "z \<notin> N" "b \<noteq> z" and H: "\<forall>y \<in> N - {a}. H y = G y" "H a = {(None, t), (None, z)}" "H z = {}"
    and B: "H b = {(None, z), (None, s)}" and t: "t \<in> N" "\<forall>w. run G t w a \<longleftrightarrow> run G s w a"
  shows "frag H (insert b (insert z N)) b z" "flang H b z = kstar (flang G s a)"
proof -
  note ends = frag_ends [OF F]
  show "frag H (insert b (insert z N)) b z" by (rule frag_wrap [OF F b H(1,3)]) (use H B t ends in auto)
  have "run H b w z \<longleftrightarrow> w = [] \<or> w \<in> conc (flang G s a) (kstar (flang G s a))" for w
    using run_two_eps [of H b z s z w] B b(3) run_stuck [of H z w z] H(3) loop_run(2) [OF F b(2) H t, of w] by auto
  moreover have "w = [] \<or> w \<in> conc (flang G s a) (kstar (flang G s a)) \<longleftrightarrow> w \<in> kstar (flang G s a)" for w
  proof -
    have "w \<in> conc (flang G s a) (kstar (flang G s a))" if "w \<in> kstar (flang G s a)" "w \<noteq> []"
    proof -
      from that(1) obtain ws where ws: "w = concat ws" "set ws \<subseteq> flang G s a" by (auto simp: kstar_def)
      with that(2) obtain u us where "ws = u # us" by (cases ws) auto
      then show ?thesis using ws by (auto simp: conc_def kstar_def)
    qed
    then show ?thesis by (auto simp: conc_def intro: kstar_nil kstar_step)
  qed
  ultimately show "flang H b z = kstar (flang G s a)" by (simp add: flang_def)
qed

lemma frag_plus:
  assumes F: "frag G N s a" and b: "b \<notin> N" "z \<notin> N" "b \<noteq> z" and H: "\<forall>y \<in> N - {a}. H y = G y" "H a = {(None, t), (None, z)}" "H z = {}"
    and B: "H b = {(None, s)}" and t: "t \<in> N" "\<forall>w. run G t w a \<longleftrightarrow> run G s w a"
  shows "frag H (insert b (insert z N)) b z" "flang H b z = conc (flang G s a) (kstar (flang G s a))"
proof -
  note ends = frag_ends [OF F]
  show "frag H (insert b (insert z N)) b z" by (rule frag_wrap [OF F b H(1,3)]) (use H B t ends in auto)
  show "flang H b z = conc (flang G s a) (kstar (flang G s a))"
    unfolding flang_def [of H] run_one_eps [of H, OF B b(3)] using loop_run(2) [OF F b(2) H t] by auto
qed

lemma exit_run_split:
  assumes "run H x w z" "frag G N s a" "z \<notin> N" "\<forall>y \<in> N - {a}. H y = G y" "H a = {(None, z)}" "H z = {}"
  shows "x \<in> N \<longrightarrow> run G x w a"
  using assms
proof (induction rule: run.induct)
  case (run_refl x)
  then show ?case by blast
next
  case (run_eps y x w z)
  show ?case
  proof
    assume x: "x \<in> N"
    show "run G x w a"
    proof (cases "x = a")
      case True
      then have "y = z" using run_eps by auto
      then have "w = []" using run_eps.hyps(2) run_stuck [of H z w z] run_eps.prems by auto
      then show ?thesis using True by (auto intro: run.run_refl)
    next
      case False
      then have e: "(None, y) \<in> G x" using x run_eps by simp
      then have "y \<in> N" using fragD run_eps.prems(1) x by fastforce
      then show ?thesis using run_eps e by (blast intro: run.run_eps)
    qed
  qed
next
  case (run_char P y x c w z)
  show ?case
  proof
    assume x: "x \<in> N"
    have "x \<noteq> a" using run_char by auto
    then have e: "(Some P, y) \<in> G x" using x run_char by simp
    then have "y \<in> N" using fragD run_char.prems(1) x by fastforce
    then show "run G x (c # w) a" using run_char e by (blast intro: run.run_char)
  qed
qed

lemma frag_opt:
  assumes F: "frag G N s a" and b: "b \<notin> N" "z \<notin> N" "b \<noteq> z" and H: "\<forall>y \<in> N - {a}. H y = G y" "H a = {(None, z)}" "H z = {}"
    and B: "H b = {(None, z), (None, s)}"
  shows "frag H (insert b (insert z N)) b z" "flang H b z = insert [] (flang G s a)"
proof -
  note ends = frag_ends [OF F]
  show "frag H (insert b (insert z N)) b z" by (rule frag_wrap [OF F b H(1,3)]) (use H B ends in auto)
  have az: "a \<noteq> z" "s \<noteq> z" using ends b by auto
  have "run H s w z \<longleftrightarrow> run G s w a" for w
  proof
    assume "run G s w a"
    then have "run H s w a" by (rule run_to_end [OF _ frag_closed [OF F]]) (use ends H in auto)
    moreover have "run H a [] z" by (rule run_eps [of z]) (simp_all add: H(2) run_refl)
    ultimately show "run H s w z" using run_trans [of H s w a "[]" z] by simp
  next
    assume "run H s w z"
    then show "run G s w a" using exit_run_split [OF _ F b(2) H] ends by blast
  qed
  then show "flang H b z = insert [] (flang G s a)"
    unfolding flang_def using run_two_eps [of H b z s z] B b(3) run_stuck [of H z _ z] H(3) by auto
qed

end
