(* ===== verification/ClosureGraph.thy ===== *)
theory ClosureGraph
  imports Compile SlistIter NfaGraph
begin

text \<open>
  The collecting of reachable nodes (\<open>collect_adjacencies_helper\<close> of \<open>src/compile.c\<close>): the graph it
  walks, and the state it changes.

  A node that passes control on without reading is an epsilon node, a split, or a tree (whose
  successors are its list of branches); every other node is a leaf of the walk. The flag \<open>VISITED\<close>
  marks the splits and trees on the path from the start of the walk.
\<close>

section \<open>Lists\<close>

lemma list_size_view: "view h V \<Longrightarrow> V p = Some (xs, n) \<Longrightarrow> list_size h (Some p) = Some (int (length xs))"
proof -
  assume "view h V" "V p = Some (xs, n)"
  from view_list [OF this] obtain as qs where "list_rep h p as qs" "datas h as = xs" by blast
  then show ?thesis by (auto simp: list_size_def list_rep_def)
qed

lemma search_walk_rep:
  assumes rep: "list_rep h p as qs" and d: "datas h as = map Some xs"
  shows "i < length as \<Longrightarrow> search_walk compare_ptr h (Some v) (Some (as ! i)) = Some (if v \<in> set (drop i xs) then Some v else None)"
proof (induction "length as - i" arbitrary: i)
  case (Suc k)
  from list_rep_next [OF rep Suc.prems] obtain c where c: "items h (as ! i) = Some c"
    "i_next c = (if Suc i < length as then Some (as ! Suc i) else None)" "datas h as ! i = i_data c" by metis
  have len: "length xs = length as" using arg_cong [OF d, of length] by simp
  then have x: "i_data c = Some (xs ! i)" using c(3) d Suc.prems by simp
  have dr: "drop i xs = xs ! i # drop (Suc i) xs" using Suc.prems len by (simp add: Cons_nth_drop_Suc)
  show ?case
  proof (cases "Suc i < length as \<and> xs ! i \<noteq> v")
    case True
    then have "search_walk compare_ptr h (Some v) (Some (as ! i)) = search_walk compare_ptr h (Some v) (Some (as ! Suc i))"
      using c x by (subst search_walk.simps) (simp add: compare_ptr_def)
    then show ?thesis using Suc.hyps(1) [of "Suc i"] Suc.hyps(2) True dr by auto
  next
    case False
    then have "drop (Suc i) xs = [] \<or> xs ! i = v" using len by auto
    then show ?thesis using c x False dr by (subst search_walk.simps) (auto simp: compare_ptr_def Let_def)
  qed
qed simp

lemma list_search_view:
  assumes V: "view h V" "V p = Some (map Some xs, n)"
  shows "list_search h (Some p) (Some v) (Some compare_ptr) = Some (if v \<in> set xs then Some v else None)"
proof -
  from view_list [OF V] obtain as qs where rep: "list_rep h p as qs" and d: "datas h as = map Some xs" by blast
  then obtain L where L: "lists h p = Some L" by (auto simp: list_rep_def)
  have hd: "l_head L = (if as = [] then None else Some (as ! 0))" by (rule list_rep_head [OF rep L])
  have len: "length xs = length as" using arg_cong [OF d, of length] by simp
  show ?thesis
  proof (cases "as = []")
    case True
    then show ?thesis using L hd len by (simp add: list_search_def)
  next
    case False
    then show ?thesis using L hd search_walk_rep [OF rep d, of 0 v] by (simp add: list_search_def)
  qed
qed

section \<open>The graph\<close>

text \<open>The successors of a node that does not read; \<open>B\<close> holds the lists of branches.\<close>

definition nsuccs :: "nheap \<Rightarrow> addr lview \<Rightarrow> addr \<Rightarrow> ptr list" where
  "nsuccs h B x = (case nfa_at h x of None \<Rightarrow> [] | Some n \<Rightarrow>
     if n_type n = NFA_EPSILON then [n_out2 n]
     else if n_type n = NFA_SPLIT then [n_out1 n, n_out2 n]
     else if n_type n = NFA_TREE then (case n_low n of UBranches (Some b) \<Rightarrow> (case B b of Some (bs, _) \<Rightarrow> bs | None \<Rightarrow> []) | _ \<Rightarrow> [])
     else [])"

definition ntype :: "nheap \<Rightarrow> addr \<Rightarrow> u32" where
  "ntype h x = (case nfa_at h x of None \<Rightarrow> 0 | Some n \<Rightarrow> n_type n)"

definition branching :: "nheap \<Rightarrow> addr \<Rightarrow> bool" where
  "branching h x \<longleftrightarrow> ntype h x = NFA_SPLIT \<or> ntype h x = NFA_TREE"

definition leaf :: "nheap \<Rightarrow> addr \<Rightarrow> bool" where
  "leaf h x \<longleftrightarrow> ntype h x \<noteq> NFA_EPSILON \<and> \<not> branching h x"

text \<open>A finite closed part of the graph in which following epsilon nodes ends.\<close>

definition walk_node :: "nheap \<Rightarrow> addr lview \<Rightarrow> addr set \<Rightarrow> (addr \<Rightarrow> nat) \<Rightarrow> addr \<Rightarrow> nfa \<Rightarrow> bool" where
  "walk_node h B M rk x n \<longleftrightarrow> nfa_at h x = Some n \<and>
     (n_type n \<noteq> NFA_ACCEPTING \<longrightarrow> (\<forall>y. n_out2 n = Some y \<longrightarrow> y \<in> M)) \<and> (\<forall>y. Some y \<in> set (nsuccs h B x) \<longrightarrow> y \<in> M) \<and>
     (n_type n = NFA_EPSILON \<longrightarrow> (\<forall>y. n_out2 n = Some y \<longrightarrow> rk y < rk x)) \<and>
     (n_type n = NFA_TREE \<longrightarrow> (\<exists>b bs k. n_low n = UBranches (Some b) \<and> B b = Some (bs, k)))"

definition walkable :: "nheap \<Rightarrow> addr lview \<Rightarrow> addr set \<Rightarrow> (addr \<Rightarrow> nat) \<Rightarrow> bool" where
  "walkable h B M rk \<longleftrightarrow> finite M \<and> (\<forall>x \<in> M. \<exists>n. walk_node h B M rk x n)"

lemma walkableE:
  assumes "walkable h B M rk" "x \<in> M"
  obtains n where "walk_node h B M rk x n"
  using assms by (auto simp: walkable_def)

text \<open>One step of the walk that does not leave a node of \<open>P\<close>.\<close>

definition walk_step :: "nheap \<Rightarrow> addr lview \<Rightarrow> addr set \<Rightarrow> (addr \<times> addr) set" where
  "walk_step h B P = {(x, y). x \<notin> P \<and> Some y \<in> set (nsuccs h B x)}"

definition reaches :: "nheap \<Rightarrow> addr lview \<Rightarrow> addr set \<Rightarrow> ptr \<Rightarrow> addr set" where
  "reaches h B P p = {y. leaf h y \<and> (\<exists>x. p = Some x \<and> (x, y) \<in> (walk_step h B P)\<^sup>*)}"

lemma reaches_None [simp]: "reaches h B P None = {}"
  by (simp add: reaches_def)

lemma leaf_succs: "leaf h x \<Longrightarrow> nsuccs h B x = []"
  by (auto simp: leaf_def branching_def nsuccs_def ntype_def split: option.splits)

lemma leaf_stuck: "leaf h x \<Longrightarrow> (x, y) \<in> (walk_step h B P)\<^sup>* \<longleftrightarrow> y = x"
  by (auto simp: walk_step_def leaf_succs elim: converse_rtranclE)

lemma reaches_leaf: "leaf h x \<Longrightarrow> reaches h B P (Some x) = {x}"
  by (auto simp: reaches_def leaf_stuck)

lemma reaches_visited: "x \<in> P \<Longrightarrow> \<not> leaf h x \<Longrightarrow> reaches h B P (Some x) = {}"
  by (auto simp: reaches_def walk_step_def elim: converse_rtranclE)

lemma reaches_step:
  assumes "\<not> leaf h x" "x \<notin> P"
  shows "reaches h B P (Some x) = (\<Union>p \<in> set (nsuccs h B x). reaches h B P p)"
proof -
  have "y \<in> reaches h B P (Some x) \<longleftrightarrow> (\<exists>p \<in> set (nsuccs h B x). y \<in> reaches h B P p)" for y
  proof
    assume "y \<in> reaches h B P (Some x)"
    then have y: "leaf h y" "(x, y) \<in> (walk_step h B P)\<^sup>*" by (auto simp: reaches_def)
    then have "x \<noteq> y" using assms by auto
    with y(2) obtain z where z: "(x, z) \<in> walk_step h B P" "(z, y) \<in> (walk_step h B P)\<^sup>*" by (meson converse_rtranclE)
    then show "\<exists>p \<in> set (nsuccs h B x). y \<in> reaches h B P p"
      using y(1) by (intro bexI [of _ "Some z"]) (auto simp: reaches_def walk_step_def)
  next
    assume "\<exists>p \<in> set (nsuccs h B x). y \<in> reaches h B P p"
    then obtain z where z: "Some z \<in> set (nsuccs h B x)" "leaf h y" "(z, y) \<in> (walk_step h B P)\<^sup>*" by (auto simp: reaches_def)
    then have "(x, z) \<in> walk_step h B P" using assms by (simp add: walk_step_def)
    then show "y \<in> reaches h B P (Some x)" using z by (auto simp: reaches_def intro: converse_rtrancl_into_rtrancl)
  qed
  then show ?thesis by blast
qed

text \<open>A walk that comes back to \<open>x\<close> can be cut.\<close>

lemma walk_cut: "(z, y) \<in> (walk_step h B P)\<^sup>* \<Longrightarrow>
    (z, y) \<in> (walk_step h B (insert x P))\<^sup>* \<or> (\<exists>w. (x, w) \<in> walk_step h B P \<and> (w, y) \<in> (walk_step h B (insert x P))\<^sup>*)"
proof (induction rule: converse_rtrancl_induct)
  case (step z z')
  show ?case
  proof (cases "(z', y) \<in> (walk_step h B (insert x P))\<^sup>*")
    case True
    show ?thesis
    proof (cases "z = x")
      case False
      then have "(z, z') \<in> walk_step h B (insert x P)" using step(1) by (auto simp: walk_step_def)
      then show ?thesis using True by (meson converse_rtrancl_into_rtrancl)
    qed (use step(1) True in blast)
  qed (use step(3) in blast)
qed simp

lemma reaches_branch:
  assumes "\<not> leaf h x" "x \<notin> P"
  shows "reaches h B P (Some x) = (\<Union>p \<in> set (nsuccs h B x). reaches h B (insert x P) p)"
proof -
  have mono: "reaches h B (insert x P) p \<subseteq> reaches h B P p" for p
  proof -
    have "walk_step h B (insert x P) \<subseteq> walk_step h B P" by (auto simp: walk_step_def)
    then show ?thesis unfolding reaches_def using rtrancl_mono by blast
  qed
  have "y \<in> (\<Union>p \<in> set (nsuccs h B x). reaches h B (insert x P) p)" if y: "y \<in> reaches h B P (Some x)" for y
  proof -
    obtain z where z: "Some z \<in> set (nsuccs h B x)" "leaf h y" "(z, y) \<in> (walk_step h B P)\<^sup>*"
      using y unfolding reaches_step [OF assms] by (auto simp: reaches_def)
    from walk_cut [OF z(3), of x] obtain w where "Some w \<in> set (nsuccs h B x)" "(w, y) \<in> (walk_step h B (insert x P))\<^sup>*"
      using z(1) by (auto simp: walk_step_def)
    then show ?thesis using z(2) by (auto simp: reaches_def intro!: bexI [of _ "Some w"])
  qed
  moreover have "(\<Union>p \<in> set (nsuccs h B x). reaches h B (insert x P) p) \<subseteq> reaches h B P (Some x)"
    unfolding reaches_step [OF assms] using mono by blast
  ultimately show ?thesis by blast
qed

section \<open>The state\<close>

text \<open>The heap with other flags and other lists of reachable nodes, and the parser with such a heap.\<close>

definition with_flags :: "(addr \<Rightarrow> u32) \<Rightarrow> nheap \<Rightarrow> nheap" where
  "with_flags fl h = h\<lparr>slots := (\<lambda>a. map_option (\<lambda>s. s\<lparr>sl_nfa := (sl_nfa s)\<lparr>n_flags := fl a\<rparr>\<rparr>) (slots h a))\<rparr>"

definition walk_state :: "parser \<Rightarrow> (addr \<Rightarrow> u32) \<Rightarrow> addr lheap \<Rightarrow> int \<Rightarrow> parser" where
  "walk_state p fl R r = p\<lparr>ps_nfa := (with_flags fl (ps_nfa p))\<lparr>reach := R\<rparr>, ps_recursion := r\<rparr>"

lemma walk_state_simps [simp]:
  "ps_recursion (walk_state p fl R r) = r" "ps_lists (walk_state p fl R r) = ps_lists p"
  "reach (ps_nfa (walk_state p fl R r)) = R" "(walk_state p fl R r)\<lparr>ps_recursion := r'\<rparr> = walk_state p fl R r'"
  by (simp_all add: walk_state_def)

lemma pn_get_walk [simp]: "pn_get (walk_state p fl R r) (Some x) = map_option (\<lambda>n. n\<lparr>n_flags := fl x\<rparr>) (nfa_at (ps_nfa p) x)"
  by (cases "slots (ps_nfa p) x") (simp_all add: walk_state_def with_flags_def pn_get_def nget_def sget_def nfa_at_def)

lemma pn_get_walk_None [simp]: "pn_get p None = None"
  by (simp add: pn_get_def nget_def sget_def)

lemma pr_op_walk [simp]: "pr_op (walk_state p fl R r) f = map_option (\<lambda>(v, R'). (v, walk_state p fl R' r)) (f R)"
  by (auto simp: pr_op_def walk_state_def split: option.splits Option.bind_splits)

lemma set_flag_walk:
  assumes "nfa_at (ps_nfa p) x \<noteq> None"
  shows "set_nfa_flag f (walk_state p fl R r) (Some x) = Some (walk_state p (fl(x := fl x OR f)) R r)"
    "clear_nfa_flag f (walk_state p fl R r) (Some x) = Some (walk_state p (fl(x := fl x AND NOT f)) R r)"
proof -
  from assms obtain s where s: "slots (ps_nfa p) x = Some s" by (auto simp: nfa_at_def)
  have e: "(\<lambda>a. map_option (\<lambda>s. s\<lparr>sl_nfa := (sl_nfa s)\<lparr>n_flags := fl a\<rparr>\<rparr>) (slots (ps_nfa p) a))
      (x \<mapsto> s\<lparr>sl_nfa := (sl_nfa s)\<lparr>n_flags := g\<rparr>\<rparr>) =
    (\<lambda>a. map_option (\<lambda>s. s\<lparr>sl_nfa := (sl_nfa s)\<lparr>n_flags := (fl(x := g)) a\<rparr>\<rparr>) (slots (ps_nfa p) a))" for g
    using s by auto
  show "set_nfa_flag f (walk_state p fl R r) (Some x) = Some (walk_state p (fl(x := fl x OR f)) R r)"
    "clear_nfa_flag f (walk_state p fl R r) (Some x) = Some (walk_state p (fl(x := fl x AND NOT f)) R r)"
    using s by (simp_all add: set_nfa_flag_def clear_nfa_flag_def pn_set_def nset_def sset_def walk_state_def with_flags_def e)
qed

lemma bit_flags: "bit VISITED i \<longleftrightarrow> i = 2" "bit ACCEPTS i \<longleftrightarrow> i = 3" "bit CYCLE i \<longleftrightarrow> i = 1" "bit DONE i \<longleftrightarrow> i = 0"
proof -
  have e: "VISITED = 2 ^ 2" "ACCEPTS = 2 ^ 3" "CYCLE = 2 ^ 1" "DONE = 2 ^ 0" by (simp_all add: VISITED_def ACCEPTS_def CYCLE_def DONE_def)
  show "bit VISITED i \<longleftrightarrow> i = 2" "bit ACCEPTS i \<longleftrightarrow> i = 3" "bit CYCLE i \<longleftrightarrow> i = 1" "bit DONE i \<longleftrightarrow> i = 0"
    unfolding e bit_exp_iff by auto
qed

lemma check_flag_bit: "w AND f \<noteq> 0 \<longleftrightarrow> (\<exists>i. bit (w :: u32) i \<and> bit f i)"
proof -
  have "i < 32" if "bit w i" for i using bit_imp_le_length [OF that] by simp
  then show ?thesis by (auto simp: bit_eq_iff bit_and_iff)
qed

lemma check_visited: "check_nfa_flag VISITED n \<longleftrightarrow> bit (n_flags n) 2" "check_nfa_flag DONE n \<longleftrightarrow> bit (n_flags n) 0"
  by (simp_all add: check_nfa_flag_def check_flag_bit bit_flags)

end
