(* ===== verification/ClosureCollect.thy ===== *)
theory ClosureCollect
  imports ClosureGraph
begin

text \<open>
  \<open>collect_adjacencies_helper\<close> collects exactly the leaves that the walk from a node reaches, once
  each, and ends.
\<close>

section \<open>What a walk changes\<close>

text \<open>All flags stay but for \<open>ACCEPTS\<close> and \<open>CYCLE\<close> of the collecting node, and \<open>VISITED\<close> of epsilon nodes.\<close>

definition flags_kept :: "nheap \<Rightarrow> addr \<Rightarrow> (addr \<Rightarrow> u32) \<Rightarrow> (addr \<Rightarrow> u32) \<Rightarrow> bool" where
  "flags_kept h cur fl fl' \<longleftrightarrow> (\<forall>a i. bit (fl' a) i = bit (fl a) i \<or> (a = cur \<and> (i = 3 \<or> i = 1)) \<or> (ntype h a = NFA_EPSILON \<and> i = 2))"

lemma flags_kept_refl: "flags_kept h cur fl fl"
  by (simp add: flags_kept_def)

lemma flags_kept_trans: "flags_kept h cur fl fl' \<Longrightarrow> flags_kept h cur fl' fl'' \<Longrightarrow> flags_kept h cur fl fl''"
  unfolding flags_kept_def by metis

lemma flags_keptD: "flags_kept h cur fl fl' \<Longrightarrow> ntype h a \<noteq> NFA_EPSILON \<Longrightarrow> bit (fl' a) 2 = bit (fl a) 2"
  unfolding flags_kept_def by (metis num.distinct(1) numeral_eq_iff numeral_eq_one_iff semiring_norm(85,88))

text \<open>The walk below \<open>p\<close>: to the list \<open>xs\<close> of \<open>cur\<close> the new leaves are appended.\<close>

definition collected :: "addr set \<Rightarrow> addr list \<Rightarrow> addr list \<Rightarrow> bool" where
  "collected Y xs xs' \<longleftrightarrow> (\<exists>ys. xs' = xs @ ys \<and> distinct ys \<and> set ys = Y - set xs)"

lemma collected_empty: "collected {} xs xs"
  by (simp add: collected_def)

lemma collected_set: "collected Y xs xs' \<Longrightarrow> set xs' = set xs \<union> Y"
proof -
  assume "collected Y xs xs'"
  then obtain ys where "xs' = xs @ ys" "set ys = Y - set xs" by (auto simp: collected_def)
  then have "set xs' = set xs \<union> (Y - set xs)" by simp
  then show ?thesis by blast
qed

lemma collected_trans: "collected Y xs xs' \<Longrightarrow> collected Z xs' xs'' \<Longrightarrow> collected (Y \<union> Z) xs xs''"
  unfolding collected_def
proof (elim exE conjE)
  fix ys zs
  assume "xs' = xs @ ys" "distinct ys" "set ys = Y - set xs" "xs'' = xs' @ zs" "distinct zs" "set zs = Z - set xs'"
  then show "\<exists>us. xs'' = xs @ us \<and> distinct us \<and> set us = Y \<union> Z - set xs" by (intro exI [of _ "ys @ zs"]) auto
qed

definition accepts_in :: "nheap \<Rightarrow> addr set \<Rightarrow> bool" where
  "accepts_in h Y \<longleftrightarrow> (\<exists>y \<in> Y. ntype h y = NFA_ACCEPTING)"

lemma accepts_in_simps [simp]: "\<not> accepts_in h {}" "accepts_in h (Y \<union> Z) \<longleftrightarrow> accepts_in h Y \<or> accepts_in h Z"
  by (auto simp: accepts_in_def)

text \<open>The result of a walk that reaches the leaves \<open>Y\<close>.\<close>

definition walk_result :: "parser \<Rightarrow> addr lview \<Rightarrow> addr \<Rightarrow> addr set \<Rightarrow> (addr \<Rightarrow> u32) \<Rightarrow> addr list \<Rightarrow> int \<Rightarrow> parser option \<Rightarrow> bool" where
  "walk_result p V cur Y fl xs r res \<longleftrightarrow> (\<exists>fl' R' xs' n. res = Some (walk_state p fl' R' r) \<and>
     view R' (V(cur \<mapsto> (map Some xs', n))) \<and> collected Y xs xs' \<and>
     flags_kept (ps_nfa p) cur fl fl' \<and> (bit (fl' cur) 3 \<longleftrightarrow> bit (fl cur) 3 \<or> accepts_in (ps_nfa p) Y))"

lemma walk_resultE:
  assumes "walk_result p V cur Y fl xs r res"
  obtains fl' R' xs' n where "res = Some (walk_state p fl' R' r)" "view R' (V(cur \<mapsto> (map Some xs', n)))" "collected Y xs xs'"
    "flags_kept (ps_nfa p) cur fl fl'" "bit (fl' cur) 3 \<longleftrightarrow> bit (fl cur) 3 \<or> accepts_in (ps_nfa p) Y"
  using assms unfolding walk_result_def by blast

lemma walk_resultI: "view R' (V(cur \<mapsto> (map Some xs', n))) \<Longrightarrow> collected Y xs xs' \<Longrightarrow>
    flags_kept (ps_nfa p) cur fl fl' \<Longrightarrow> (bit (fl' cur) 3 \<longleftrightarrow> bit (fl cur) 3 \<or> accepts_in (ps_nfa p) Y) \<Longrightarrow>
    walk_result p V cur Y fl xs r (Some (walk_state p fl' R' r))"
  unfolding walk_result_def by blast

text \<open>Two walks, one after the other; a change of the recursion counter between them does not matter.\<close>

lemma walk_result_then:
  assumes 1: "walk_result p V cur Y fl xs r res"
    and 2: "\<And>fl' R' xs' n. view R' (V(cur \<mapsto> (map Some xs', n))) \<Longrightarrow> flags_kept (ps_nfa p) cur fl fl' \<Longrightarrow>
      walk_result p V cur Z fl' xs' r' (f (walk_state p fl' R' r))"
  shows "walk_result p V cur (Y \<union> Z) fl xs r' (Option.bind res f)"
proof -
  from 1 obtain fl1 R1 xs1 n1 where a: "res = Some (walk_state p fl1 R1 r)" "view R1 (V(cur \<mapsto> (map Some xs1, n1)))" "collected Y xs xs1"
    "flags_kept (ps_nfa p) cur fl fl1" "bit (fl1 cur) 3 \<longleftrightarrow> bit (fl cur) 3 \<or> accepts_in (ps_nfa p) Y" by (rule walk_resultE)
  from 2 [OF a(2, 4)] obtain fl2 R2 xs2 n2 where b: "f (walk_state p fl1 R1 r) = Some (walk_state p fl2 R2 r')"
    "view R2 (V(cur \<mapsto> (map Some xs2, n2)))" "collected Z xs1 xs2"
    "flags_kept (ps_nfa p) cur fl1 fl2" "bit (fl2 cur) 3 \<longleftrightarrow> bit (fl1 cur) 3 \<or> accepts_in (ps_nfa p) Z" by (rule walk_resultE)
  have "walk_result p V cur (Y \<union> Z) fl xs r' (Some (walk_state p fl2 R2 r'))"
    by (rule walk_resultI [OF b(2) collected_trans [OF a(3) b(3)] flags_kept_trans [OF a(4) b(4)]]) (use a(5) b(5) in auto)
  then show ?thesis using a(1) b(1) by simp
qed

lemma add_reachable_walk:
  assumes V: "view R (V(cur \<mapsto> (map Some xs, n)))"
  shows "\<exists>R' xs' n'. add_reachable (Some cur) (Some y) (walk_state p fl R r) = Some (walk_state p fl R' r) \<and>
    view R' (V(cur \<mapsto> (map Some xs', n'))) \<and> collected {y} xs xs'"
proof (cases "y \<in> set xs")
  case True
  then show ?thesis using list_search_view [OF V, of cur xs n y] V by (auto simp: add_reachable_def collected_def)
next
  case False
  obtain R' where R': "list_append R (Some cur) (Some y) = Some (int (length xs), R')" "view R' (V(cur \<mapsto> (map Some (xs @ [y]), n - 1)))"
    using list_append_view [OF V, of cur "map Some xs" n "Some y"] by auto
  then have "add_reachable (Some cur) (Some y) (walk_state p fl R r) = Some (walk_state p fl R' r)"
    using False list_search_view [OF V, of cur xs n y] by (simp add: add_reachable_def)
  moreover have "collected {y} xs (xs @ [y])" using False by (auto simp: collected_def)
  ultimately show ?thesis using R'(2) by blast
qed

section \<open>The walk\<close>

definition walk_fuel :: "nheap \<Rightarrow> addr set \<Rightarrow> (addr \<Rightarrow> nat) \<Rightarrow> nat \<Rightarrow> addr set \<Rightarrow> ptr \<Rightarrow> nat" where
  "walk_fuel h M rk b P p = card {x \<in> M. branching h x \<and> x \<notin> P} * (b + 2) + (case p of None \<Rightarrow> 0 | Some x \<Rightarrow> rk x + 1) + 1"

text \<open>What holds of every call: the collecting node is either marked as visited or no leaf, so that it is
  collected like any other leaf.\<close>

definition walk_inv :: "parser \<Rightarrow> addr lview \<Rightarrow> addr set \<Rightarrow> (addr \<Rightarrow> nat) \<Rightarrow> nat \<Rightarrow> addr \<Rightarrow> bool" where
  "walk_inv p B M rk b cur \<longleftrightarrow> walkable (ps_nfa p) B M rk \<and> (\<forall>x \<in> M. rk x \<le> b) \<and> view (ps_lists p) B \<and>
     nfa_at (ps_nfa p) cur \<noteq> None \<and> ntype (ps_nfa p) cur \<noteq> NFA_INTERVAL"

definition marks :: "nheap \<Rightarrow> addr set \<Rightarrow> addr \<Rightarrow> addr set \<Rightarrow> (addr \<Rightarrow> u32) \<Rightarrow> bool" where
  "marks h M cur P fl \<longleftrightarrow> (\<forall>x \<in> M. branching h x \<longrightarrow> (bit (fl x) 2 \<longleftrightarrow> x \<in> P)) \<and> (leaf h cur \<longrightarrow> bit (fl cur) 2) \<and> (\<forall>x \<in> P. branching h x)"

lemma marks_kept: "marks h M cur P fl \<Longrightarrow> flags_kept h cur fl fl' \<Longrightarrow> marks h M cur P fl'"
proof -
  assume m: "marks h M cur P fl" and k: "flags_kept h cur fl fl'"
  have "bit (fl' x) 2 = bit (fl x) 2" if "branching h x \<or> leaf h x" for x
    using that by (intro flags_keptD [OF k]) (auto simp: branching_def leaf_def nfa_types)
  then show ?thesis using m by (auto simp: marks_def)
qed

lemma walk_none:
  assumes "view R (V(cur \<mapsto> (map Some xs, n)))" "nfa_at (ps_nfa p) cur \<noteq> None"
  shows "walk_result p V cur {} fl xs r (collect_body rec (Some cur) None None (walk_state p fl R r))"
proof -
  have "collect_body rec (Some cur) None None (walk_state p fl R r) = Some (walk_state p (fl(cur := fl cur OR CYCLE)) R r)"
    using assms(2) by (simp add: collect_body_def set_flag_walk)
  moreover have "walk_result p V cur {} fl xs r (Some (walk_state p (fl(cur := fl cur OR CYCLE)) R r))"
    by (rule walk_resultI [OF assms(1) collected_empty]) (auto simp: flags_kept_def bit_or_iff bit_flags)
  ultimately show ?thesis by simp
qed

lemma bit_clear: "bit (w AND NOT f) i \<longleftrightarrow> bit (w :: u32) i \<and> \<not> bit f i"
  by (auto simp: bit_and_iff bit_not_iff dest: bit_imp_possible_bit)

text \<open>The mark on a node is set before its successors are walked and cleared afterwards.\<close>

lemma walk_result_marked:
  assumes 1: "walk_result p V cur Y (fl(x := fl x OR VISITED)) xs r' res"
    and x: "ntype (ps_nfa p) x = NFA_EPSILON \<or> \<not> bit (fl x) 2"
    and f: "\<And>fl' R'. f (walk_state p fl' R' r') = Some (walk_state p (fl'(x := fl' x AND NOT VISITED)) R' r)"
  shows "walk_result p V cur Y fl xs r (Option.bind res f)"
proof -
  let ?m = "fl(x := fl x OR VISITED)"
  from 1 obtain fl1 R1 xs1 n1 where a: "res = Some (walk_state p fl1 R1 r')" "view R1 (V(cur \<mapsto> (map Some xs1, n1)))" "collected Y xs xs1"
    "flags_kept (ps_nfa p) cur ?m fl1" "bit (fl1 cur) 3 \<longleftrightarrow> bit (?m cur) 3 \<or> accepts_in (ps_nfa p) Y" by (rule walk_resultE)
  have k: "flags_kept (ps_nfa p) cur fl (fl1(x := fl1 x AND NOT VISITED))"
    unfolding flags_kept_def
  proof (intro allI)
    fix a i
    have "bit (fl1 a) i = bit (?m a) i \<or> (a = cur \<and> (i = 3 \<or> i = 1)) \<or> (ntype (ps_nfa p) a = NFA_EPSILON \<and> i = 2)"
      using a(4) by (simp add: flags_kept_def)
    then show "bit ((fl1(x := fl1 x AND NOT VISITED)) a) i = bit (fl a) i \<or> (a = cur \<and> (i = 3 \<or> i = 1)) \<or> (ntype (ps_nfa p) a = NFA_EPSILON \<and> i = 2)"
      using x by (cases "a = x"; cases "i = 2") (simp_all add: bit_clear bit_or_iff bit_flags, blast+)
  qed
  have "walk_result p V cur Y fl xs r (Some (walk_state p (fl1(x := fl1 x AND NOT VISITED)) R1 r))"
    by (rule walk_resultI [OF a(2, 3) k]) (use a(5) in \<open>auto simp: bit_clear bit_or_iff bit_flags\<close>)
  then show ?thesis using a(1) f by simp
qed

lemma marks_insert: "marks h M cur P fl \<Longrightarrow> branching h x \<Longrightarrow> marks h M cur (insert x P) (fl(x := fl x OR VISITED))"
  by (auto simp: marks_def bit_or_iff bit_flags)

lemma marks_epsilon: "marks h M cur P fl \<Longrightarrow> ntype h x = NFA_EPSILON \<Longrightarrow> marks h M cur P (fl(x := fl x OR VISITED))"
  by (auto simp: marks_def bit_or_iff bit_flags branching_def leaf_def nfa_types)

text \<open>A call of the helper that does its work.\<close>

definition walks :: "parser \<Rightarrow> addr lview \<Rightarrow> addr set \<Rightarrow> addr lview \<Rightarrow> addr \<Rightarrow> addr set \<Rightarrow> ptr \<Rightarrow> collect_fun \<Rightarrow> bool" where
  "walks p B M V cur P q rec \<longleftrightarrow> (\<forall>fl R xs n r. marks (ps_nfa p) M cur P fl \<longrightarrow> view R (V(cur \<mapsto> (map Some xs, n))) \<longrightarrow>
     walk_result p V cur (reaches (ps_nfa p) B P q) fl xs r (rec (Some cur) q None (walk_state p fl R r)))"

lemma walksD: "walks p B M V cur P q rec \<Longrightarrow> marks (ps_nfa p) M cur P fl \<Longrightarrow> view R (V(cur \<mapsto> (map Some xs, n))) \<Longrightarrow>
    walk_result p V cur (reaches (ps_nfa p) B P q) fl xs r (rec (Some cur) q None (walk_state p fl R r))"
  unfolding walks_def by blast

lemma walk_result_recursion: "walk_result p V cur Y fl xs r res \<Longrightarrow> (\<And>fl' R'. f (walk_state p fl' R' r) = Some (walk_state p fl' R' r')) \<Longrightarrow>
    walk_result p V cur Y fl xs r' (Option.bind res f)"
  by (erule walk_resultE) (simp add: walk_resultI)

lemma walks_deeper: "walks p B M V cur P q rec \<Longrightarrow> walks p B M V cur P q (deeper rec)"
  unfolding walks_def
proof (intro allI impI)
  fix fl R xs n r
  assume W: "\<forall>fl R xs n r. marks (ps_nfa p) M cur P fl \<longrightarrow> view R (V(cur \<mapsto> (map Some xs, n))) \<longrightarrow>
     walk_result p V cur (reaches (ps_nfa p) B P q) fl xs r (rec (Some cur) q None (walk_state p fl R r))"
    and A: "marks (ps_nfa p) M cur P fl" "view R (V(cur \<mapsto> (map Some xs, n)))"
  then have "walk_result p V cur (reaches (ps_nfa p) B P q) fl xs (r + 1) (rec (Some cur) q None (walk_state p fl R (r + 1)))" by blast
  then show "walk_result p V cur (reaches (ps_nfa p) B P q) fl xs r (deeper rec (Some cur) q None (walk_state p fl R r))"
    unfolding deeper_def by (simp add: walk_result_recursion)
qed

lemma tree_loop_walk:
  assumes x: "nfa_at (ps_nfa p) x = Some n" "n_low n = UBranches (Some bl)" and B: "view (ps_lists p) B" "B bl = Some (bs, nb)"
    and rec: "\<forall>q \<in> set bs. walks p B M V cur P q rec"
  shows "i \<le> length bs \<Longrightarrow> marks (ps_nfa p) M cur P fl \<Longrightarrow> view R (V(cur \<mapsto> (map Some xs, m))) \<Longrightarrow>
    walk_result p V cur (\<Union>q \<in> set (drop i bs). reaches (ps_nfa p) B P q) fl xs r
      (tree_loop (\<lambda>branch. deeper rec (Some cur) branch None) (Some x) (int i) (walk_state p fl R r))"
proof (induction "length bs - i" arbitrary: i fl R xs m)
  case 0
  have "tree_loop (\<lambda>branch. deeper rec (Some cur) branch None) (Some x) (int i) (walk_state p fl R r) = Some (walk_state p fl R r)"
    using 0(1, 2) x list_size_view [OF B] by (subst tree_loop.simps) (simp add: low_branches_def)
  moreover have "walk_result p V cur {} fl xs r (Some (walk_state p fl R r))"
    by (rule walk_resultI [OF 0(4) collected_empty flags_kept_refl]) simp
  ultimately show ?case using 0(1) by simp
next
  case (Suc d)
  then have i: "i < length bs" by simp
  have g: "list_get_at (ps_lists p) (Some bl) (int i) = Some (bs ! i)" using list_get_at_view [OF B, of "int i"] i by simp
  have run: "tree_loop (\<lambda>branch. deeper rec (Some cur) branch None) (Some x) (int i) (walk_state p fl R r) =
      Option.bind (deeper rec (Some cur) (bs ! i) None (walk_state p fl R r)) (tree_loop (\<lambda>branch. deeper rec (Some cur) branch None) (Some x) (int (Suc i)))"
    using i x list_size_view [OF B] g by (subst tree_loop.simps) (simp add: low_branches_def add.commute)
  have w: "walks p B M V cur P (bs ! i) (deeper rec)" using rec i by (intro walks_deeper) simp
  have "drop i bs = bs ! i # drop (Suc i) bs" using i by (simp add: Cons_nth_drop_Suc)
  then have u: "(\<Union>q \<in> set (drop i bs). reaches (ps_nfa p) B P q) =
      reaches (ps_nfa p) B P (bs ! i) \<union> (\<Union>q \<in> set (drop (Suc i) bs). reaches (ps_nfa p) B P q)" by simp
  show ?case unfolding run u
  proof (rule walk_result_then [OF walksD [OF w Suc(4, 5)]])
    fix fl' R' xs' n'
    assume v: "view R' (V(cur \<mapsto> (map Some xs', n')))" and k: "flags_kept (ps_nfa p) cur fl fl'"
    show "walk_result p V cur (\<Union>q \<in> set (drop (Suc i) bs). reaches (ps_nfa p) B P q) fl' xs' r
        (tree_loop (\<lambda>branch. deeper rec (Some cur) branch None) (Some x) (int (Suc i)) (walk_state p fl' R' r))"
      using Suc(1) [of "Suc i" fl' R' xs' n'] Suc(2) i v marks_kept [OF Suc(4) k] by simp
  qed
qed

text \<open>The end of a call for a node that was marked.\<close>

definition leaving :: "addr \<Rightarrow> addr \<Rightarrow> parser \<Rightarrow> parser option" where
  "leaving x cur = (\<lambda>p. do { p \<leftarrow> clear_nfa_flag VISITED p (Some x); n \<leftarrow> pn_get p (Some x);
     (if n_type n = NFA_ACCEPTING then set_nfa_flag ACCEPTS p (Some cur) else Some p) })"

lemma leaving_walk: "nfa_at (ps_nfa p) x = Some n \<Longrightarrow> n_type n \<noteq> NFA_ACCEPTING \<Longrightarrow>
    leaving x cur (walk_state p fl R r) = Some (walk_state p (fl(x := fl x AND NOT VISITED)) R r)"
  by (simp add: leaving_def set_flag_walk)

text \<open>The four kinds of nodes.\<close>

lemma walk_epsilon:
  assumes x: "nfa_at (ps_nfa p) x = Some n" "n_type n = NFA_EPSILON"
    and rec: "walks p B M V cur P (n_out2 n) rec"
  shows "walks p B M V cur P (Some x) (collect_body rec)"
  unfolding walks_def
proof (intro allI impI)
  fix fl R xs m r
  assume A: "marks (ps_nfa p) M cur P fl" "view R (V(cur \<mapsto> (map Some xs, m)))"
  have t: "ntype (ps_nfa p) x = NFA_EPSILON" using x by (simp add: ntype_def)
  have l: "\<not> leaf (ps_nfa p) x" "nsuccs (ps_nfa p) B x = [n_out2 n]" using x t by (simp_all add: leaf_def nsuccs_def)
  have x': "nfa_at (ps_nfa p) x \<noteq> None" using x by simp
  have u: "reaches (ps_nfa p) B P (Some x) = reaches (ps_nfa p) B P (n_out2 n)"
  proof -
    have "x \<notin> P" using A(1) t by (auto simp: marks_def branching_def nfa_types)
    from reaches_step [OF l(1) this, of B] show ?thesis by (simp add: l(2))
  qed
  have run: "collect_body rec (Some cur) (Some x) None (walk_state p fl R r) =
      Option.bind (deeper rec (Some cur) (n_out2 n) None (walk_state p (fl(x := fl x OR VISITED)) R r)) (leaving x cur)"
    using x by (simp add: collect_body_def set_flag_walk [OF x'] leaving_def Option.bind_assoc)
  show "walk_result p V cur (reaches (ps_nfa p) B P (Some x)) fl xs r (collect_body rec (Some cur) (Some x) None (walk_state p fl R r))"
    unfolding run u
  proof (rule walk_result_marked [OF walksD [OF walks_deeper [OF rec] marks_epsilon [OF A(1) t] A(2)]])
    show "leaving x cur (walk_state p fl' R' r) = Some (walk_state p (fl'(x := fl' x AND NOT VISITED)) R' r)" for fl' R'
      using x by (intro leaving_walk) (auto simp: nfa_types)
  qed (use t in simp)
qed

lemma walk_leaf:
  assumes x: "nfa_at (ps_nfa p) x = Some n" "leaf (ps_nfa p) x" and cur: "nfa_at (ps_nfa p) cur \<noteq> None"
  shows "walks p B M V cur P (Some x) (collect_body rec)"
  unfolding walks_def
proof (intro allI impI)
  fix fl R xs m r
  assume A: "marks (ps_nfa p) M cur P fl" and V: "view R (V(cur \<mapsto> (map Some xs, m)))"
  have t: "n_type n \<noteq> NFA_EPSILON" "n_type n \<noteq> NFA_SPLIT" "n_type n \<noteq> NFA_TREE" using x by (auto simp: leaf_def branching_def ntype_def)
  have ne: "bit (fl x) 2 \<or> cur \<noteq> x" using A x(2) by (auto simp: marks_def)
  from add_reachable_walk [OF V] obtain R' xs' n' where a: "add_reachable (Some cur) (Some x) (walk_state p fl R r) = Some (walk_state p fl R' r)"
    "view R' (V(cur \<mapsto> (map Some xs', n')))" "collected {x} xs xs'" by blast
  define fl' where "fl' = (if n_type n = NFA_ACCEPTING then fl(cur := fl cur OR ACCEPTS) else fl)"
  have "collect_body rec (Some cur) (Some x) None (walk_state p fl R r) = Some (walk_state p fl' R' r)"
    using x t ne a(1) by (auto simp: collect_body_def collect_node_def check_visited set_flag_walk [OF cur] fl'_def)
  moreover have "walk_result p V cur {x} fl xs r (Some (walk_state p fl' R' r))"
  proof (rule walk_resultI [OF a(2, 3)])
    show "flags_kept (ps_nfa p) cur fl fl'" by (auto simp: flags_kept_def fl'_def bit_or_iff bit_flags)
    show "bit (fl' cur) 3 \<longleftrightarrow> bit (fl cur) 3 \<or> accepts_in (ps_nfa p) {x}"
      using x by (auto simp: accepts_in_def fl'_def bit_or_iff bit_flags ntype_def)
  qed
  ultimately show "walk_result p V cur (reaches (ps_nfa p) B P (Some x)) fl xs r (collect_body rec (Some cur) (Some x) None (walk_state p fl R r))"
    by (simp add: reaches_leaf [OF x(2)])
qed

lemma walk_visited:
  assumes x: "nfa_at (ps_nfa p) x = Some n" "branching (ps_nfa p) x" "x \<in> M" "x \<in> P"
  shows "walks p B M V cur P (Some x) (collect_body rec)"
  unfolding walks_def
proof (intro allI impI)
  fix fl R xs m r
  assume A: "marks (ps_nfa p) M cur P fl" and V: "view R (V(cur \<mapsto> (map Some xs, m)))"
  have t: "n_type n = NFA_SPLIT \<or> n_type n = NFA_TREE" "\<not> leaf (ps_nfa p) x" using x by (auto simp: leaf_def branching_def ntype_def)
  have b: "bit (fl x) 2" using A x by (auto simp: marks_def)
  have "collect_body rec (Some cur) (Some x) None (walk_state p fl R r) = Some (walk_state p fl R r)"
    using x t b by (auto simp: collect_body_def check_visited nfa_types)
  moreover have "walk_result p V cur {} fl xs r (Some (walk_state p fl R r))"
    by (rule walk_resultI [OF V collected_empty flags_kept_refl]) simp
  ultimately show "walk_result p V cur (reaches (ps_nfa p) B P (Some x)) fl xs r (collect_body rec (Some cur) (Some x) None (walk_state p fl R r))"
    using reaches_visited [OF x(4) t(2)] by simp
qed

lemma walk_tree:
  assumes x: "nfa_at (ps_nfa p) x = Some n" "n_type n = NFA_TREE" "n_low n = UBranches (Some bl)" "x \<in> M" "x \<notin> P"
    and B: "view (ps_lists p) B" "B bl = Some (bs, nb)"
    and rec: "\<forall>q \<in> set bs. walks p B M V cur (insert x P) q rec"
  shows "walks p B M V cur P (Some x) (collect_body rec)"
  unfolding walks_def
proof (intro allI impI)
  fix fl R xs m r
  assume A: "marks (ps_nfa p) M cur P fl" and V: "view R (V(cur \<mapsto> (map Some xs, m)))"
  have t: "branching (ps_nfa p) x" "\<not> leaf (ps_nfa p) x" "nsuccs (ps_nfa p) B x = bs"
    using x B by (auto simp: leaf_def branching_def ntype_def nsuccs_def nfa_types)
  have nv: "\<not> bit (fl x) 2" using A x t by (auto simp: marks_def)
  have x': "nfa_at (ps_nfa p) x \<noteq> None" using x by simp
  have run: "collect_body rec (Some cur) (Some x) None (walk_state p fl R r) =
      Option.bind (tree_loop (\<lambda>branch. deeper rec (Some cur) branch None) (Some x) (int 0) (walk_state p (fl(x := fl x OR VISITED)) R r)) (leaving x cur)"
    using x nv by (simp add: collect_body_def collect_node_def check_visited set_flag_walk [OF x'] leaving_def Option.bind_assoc nfa_types)
  have m': "marks (ps_nfa p) M cur (insert x P) (fl(x := fl x OR VISITED))" by (rule marks_insert [OF A t(1)])
  have w: "walk_result p V cur (\<Union>q \<in> set bs. reaches (ps_nfa p) B (insert x P) q) (fl(x := fl x OR VISITED)) xs r
      (tree_loop (\<lambda>branch. deeper rec (Some cur) branch None) (Some x) (int 0) (walk_state p (fl(x := fl x OR VISITED)) R r))"
    using tree_loop_walk [OF x(1, 3) B rec _ m' V, of 0] by simp
  show "walk_result p V cur (reaches (ps_nfa p) B P (Some x)) fl xs r (collect_body rec (Some cur) (Some x) None (walk_state p fl R r))"
    unfolding run reaches_branch [OF t(2) x(5)] t(3)
  proof (rule walk_result_marked [OF w])
    show "leaving x cur (walk_state p fl' R' r) = Some (walk_state p (fl'(x := fl' x AND NOT VISITED)) R' r)" for fl' R'
      using x by (intro leaving_walk) (auto simp: nfa_types)
  qed (use nv in simp)
qed

lemma walk_split:
  assumes x: "nfa_at (ps_nfa p) x = Some n" "n_type n = NFA_SPLIT" "x \<in> M" "x \<notin> P"
    and cur: "nfa_at (ps_nfa p) cur \<noteq> None" "ntype (ps_nfa p) cur \<noteq> NFA_INTERVAL"
    and rec: "walks p B M V cur (insert x P) (n_out1 n) rec" "walks p B M V cur (insert x P) (n_out2 n) rec"
  shows "walks p B M V cur P (Some x) (collect_body rec)"
  unfolding walks_def
proof (intro allI impI)
  fix fl R xs m r
  assume A: "marks (ps_nfa p) M cur P fl" and V: "view R (V(cur \<mapsto> (map Some xs, m)))"
  have t: "branching (ps_nfa p) x" "\<not> leaf (ps_nfa p) x" "nsuccs (ps_nfa p) B x = [n_out1 n, n_out2 n]"
    using x by (auto simp: leaf_def branching_def ntype_def nsuccs_def nfa_types)
  have nv: "\<not> bit (fl x) 2" using A x t by (auto simp: marks_def)
  have x': "nfa_at (ps_nfa p) x \<noteq> None" using x by simp
  obtain c where c: "nfa_at (ps_nfa p) cur = Some c" "n_type c \<noteq> NFA_INTERVAL" using cur by (auto simp: ntype_def)
  define second where "second = (\<lambda>p. do { n \<leftarrow> pn_get p (Some x); rec (Some cur) (n_out2 n) None p })"
  define g where "g = (\<lambda>p. leaving x cur (p\<lparr>ps_recursion := ps_recursion p - 1\<rparr>))"
  have run: "collect_body rec (Some cur) (Some x) None (walk_state p fl R r) =
      Option.bind (Option.bind (rec (Some cur) (n_out1 n) None (walk_state p (fl(x := fl x OR VISITED)) R (r + 1))) second) g"
    using x nv c by (simp add: collect_body_def collect_node_def check_visited set_flag_walk [OF x'] leaving_def Option.bind_assoc nfa_types second_def g_def)
  have m': "marks (ps_nfa p) M cur (insert x P) (fl(x := fl x OR VISITED))" by (rule marks_insert [OF A t(1)])
  have w: "walk_result p V cur (reaches (ps_nfa p) B (insert x P) (n_out1 n) \<union> reaches (ps_nfa p) B (insert x P) (n_out2 n))
      (fl(x := fl x OR VISITED)) xs (r + 1)
      (Option.bind (rec (Some cur) (n_out1 n) None (walk_state p (fl(x := fl x OR VISITED)) R (r + 1))) second)"
  proof (rule walk_result_then [OF walksD [OF rec(1) m' V]])
    fix fl' R' xs' n'
    assume v: "view R' (V(cur \<mapsto> (map Some xs', n')))" and k: "flags_kept (ps_nfa p) cur (fl(x := fl x OR VISITED)) fl'"
    show "walk_result p V cur (reaches (ps_nfa p) B (insert x P) (n_out2 n)) fl' xs' (r + 1) (second (walk_state p fl' R' (r + 1)))"
      using walksD [OF rec(2) marks_kept [OF m' k] v] x by (simp add: second_def)
  qed
  show "walk_result p V cur (reaches (ps_nfa p) B P (Some x)) fl xs r (collect_body rec (Some cur) (Some x) None (walk_state p fl R r))"
    unfolding run reaches_branch [OF t(2) x(4)] t(3)
  proof (rule walk_result_marked)
    show "walk_result p V cur (\<Union>q \<in> set [n_out1 n, n_out2 n]. reaches (ps_nfa p) B (insert x P) q)
      (fl(x := fl x OR VISITED)) xs (r + 1)
      (Option.bind (rec (Some cur) (n_out1 n) None (walk_state p (fl(x := fl x OR VISITED)) R (r + 1))) second)" using w by simp
    show "g (walk_state p fl' R' (r + 1)) = Some (walk_state p (fl'(x := fl' x AND NOT VISITED)) R' r)" for fl' R'
      using leaving_walk [OF x(1), of cur fl' R' r] x(2) by (simp add: g_def nfa_types)
  qed (use nv in simp)
qed

section \<open>Enough calls\<close>

lemma fewer_open:
  assumes "finite M" "x \<in> M" "branching h x" "x \<notin> P"
  shows "card {y \<in> M. branching h y \<and> y \<notin> insert x P} < card {y \<in> M. branching h y \<and> y \<notin> P}"
proof (rule psubset_card_mono)
  show "{y \<in> M. branching h y \<and> y \<notin> insert x P} \<subset> {y \<in> M. branching h y \<and> y \<notin> P}" using assms by blast
qed (use assms in simp)

lemma walk_fuel_branch:
  assumes "finite M" "\<forall>x \<in> M. rk x \<le> b" "x \<in> M" "branching h x" "x \<notin> P" "walk_fuel h M rk b P (Some x) \<le> Suc k"
    and "\<forall>y. q = Some y \<longrightarrow> y \<in> M"
  shows "walk_fuel h M rk b (insert x P) q \<le> k"
proof -
  obtain c where c: "card {y \<in> M. branching h y \<and> y \<notin> insert x P} = c" by blast
  from fewer_open [OF assms(1, 3, 4, 5)] obtain d where "card {y \<in> M. branching h y \<and> y \<notin> P} = Suc (c + d)"
    unfolding c by (metis less_imp_Suc_add)
  moreover have "(case q of None \<Rightarrow> 0 | Some y \<Rightarrow> rk y + 1) \<le> b + 1" using assms(2, 7) by (auto split: option.split)
  ultimately show ?thesis using assms(6) c by (simp add: walk_fuel_def algebra_simps)
qed

lemma helper_walks:
  assumes inv: "walk_inv p B M rk b cur"
  shows "\<forall>x. q = Some x \<longrightarrow> x \<in> M \<Longrightarrow> walk_fuel (ps_nfa p) M rk b P q \<le> k \<Longrightarrow>
    walks p B M V cur P q (collect_adjacencies_helper k)"
proof (induction k arbitrary: P q)
  case 0
  then show ?case by (simp add: walk_fuel_def)
next
  case (Suc k)
  from inv have W: "walkable (ps_nfa p) B M rk" "\<forall>x \<in> M. rk x \<le> b" and Bv: "view (ps_lists p) B"
    and cur: "nfa_at (ps_nfa p) cur \<noteq> None" "ntype (ps_nfa p) cur \<noteq> NFA_INTERVAL" by (auto simp: walk_inv_def)
  have body: "collect_adjacencies_helper (Suc k) = collect_body (collect_adjacencies_helper k)" by (intro ext) simp
  show ?case
  proof (cases q)
    case None
    show ?thesis unfolding body None walks_def using walk_none cur(1) by simp
  next
    case (Some x)
    then have xM: "x \<in> M" using Suc.prems(1) by simp
    from walkableE [OF W(1) xM] obtain n where "walk_node (ps_nfa p) B M rk x n" .
    then have n: "nfa_at (ps_nfa p) x = Some n" "\<forall>y. Some y \<in> set (nsuccs (ps_nfa p) B x) \<longrightarrow> y \<in> M"
      "n_type n = NFA_EPSILON \<longrightarrow> (\<forall>y. n_out2 n = Some y \<longrightarrow> rk y < rk x)"
      "n_type n = NFA_TREE \<longrightarrow> (\<exists>b bs k. n_low n = UBranches (Some b) \<and> B b = Some (bs, k))"
      by (simp_all add: walk_node_def)
    have fin: "finite M" using W(1) by (simp add: walkable_def)
    have t: "ntype (ps_nfa p) x = n_type n" using n(1) by (simp add: ntype_def)
    have deep: "walks p B M V cur (insert x P) q' (collect_adjacencies_helper k)"
      if "branching (ps_nfa p) x" "x \<notin> P" "q' \<in> set (nsuccs (ps_nfa p) B x)" for q'
    proof (rule Suc.IH)
      show "\<forall>y. q' = Some y \<longrightarrow> y \<in> M" using that(3) n(2) by auto
      then show "walk_fuel (ps_nfa p) M rk b (insert x P) q' \<le> k"
        using walk_fuel_branch [OF fin W(2) xM that(1, 2)] Suc.prems(2) Some by blast
    qed
    consider "n_type n = NFA_EPSILON" | "branching (ps_nfa p) x" "x \<in> P" | "n_type n = NFA_TREE" "x \<notin> P"
      | "n_type n = NFA_SPLIT" "x \<notin> P" | "leaf (ps_nfa p) x" using t by (auto simp: branching_def leaf_def)
    then show ?thesis unfolding body Some
    proof cases
      case 1
      then have "nsuccs (ps_nfa p) B x = [n_out2 n]" using n(1) by (simp add: nsuccs_def)
      then have "walks p B M V cur P (n_out2 n) (collect_adjacencies_helper k)"
        using Suc.IH [of "n_out2 n" P] Suc.prems(2) n(2, 3) 1 Some by (cases "n_out2 n") (auto simp: walk_fuel_def)
      then show "walks p B M V cur P (Some x) (collect_body (collect_adjacencies_helper k))" by (rule walk_epsilon [OF n(1) 1])
    next
      case 2
      then show "walks p B M V cur P (Some x) (collect_body (collect_adjacencies_helper k))" using walk_visited [OF n(1) _ xM] by blast
    next
      case 3
      then obtain bl bs nb where bl: "n_low n = UBranches (Some bl)" "B bl = Some (bs, nb)" using n(4) by blast
      then have "nsuccs (ps_nfa p) B x = bs" "branching (ps_nfa p) x" using n(1) 3 t by (simp_all add: nsuccs_def branching_def nfa_types)
      then show "walks p B M V cur P (Some x) (collect_body (collect_adjacencies_helper k))"
        using walk_tree [OF n(1) 3(1) bl(1) xM 3(2) Bv bl(2)] deep 3(2) by simp
    next
      case 4
      then have "nsuccs (ps_nfa p) B x = [n_out1 n, n_out2 n]" "branching (ps_nfa p) x" using n(1) t by (simp_all add: nsuccs_def branching_def nfa_types)
      then show "walks p B M V cur P (Some x) (collect_body (collect_adjacencies_helper k))"
        using walk_split [OF n(1) 4(1) xM 4(2) cur] deep 4(2) by simp
    next
      case 5
      show "walks p B M V cur P (Some x) (collect_body (collect_adjacencies_helper k))" by (rule walk_leaf [OF n(1) 5 cur(1)])
    qed
  qed
qed

end
