(* ===== verification/ClosureAll.thy ===== *)
theory ClosureAll
  imports ClosureCollect
begin

text \<open>
  The two nested loops of \<open>collect_adjacencies\<close>: every node that reads and can be reached from the
  start gets the list of the nodes that can follow it.
\<close>

section \<open>The state of the loops\<close>

definition coll_state :: "parser \<Rightarrow> addr lheap \<Rightarrow> (addr \<Rightarrow> u32) \<Rightarrow> addr lheap \<Rightarrow> int \<Rightarrow> parser" where
  "coll_state p S fl R r = walk_state (p\<lparr>ps_lists := S\<rparr>) fl R r"

lemma coll_state_simps [simp]:
  "ps_lists (coll_state p S fl R r) = S" "reach (ps_nfa (coll_state p S fl R r)) = R"
  "ps_branch_stack (coll_state p S fl R r) = ps_branch_stack p"
  "pl_op (coll_state p S fl R r) f = map_option (\<lambda>(v, S'). (v, coll_state p S' fl R r)) (f S)"
  by (auto simp: coll_state_def walk_state_def pl_op_def split: option.splits Option.bind_splits)

lemma pn_get_coll [simp]: "pn_get (coll_state p S fl R r) (Some x) = map_option (\<lambda>n. n\<lparr>n_flags := fl x\<rparr>) (nfa_at (ps_nfa p) x)"
  using pn_get_walk [of "p\<lparr>ps_lists := S\<rparr>" fl R r x] by (simp add: coll_state_def)

lemma set_flag_coll:
  assumes "nfa_at (ps_nfa p) x \<noteq> None"
  shows "set_nfa_flag f (coll_state p S fl R r) (Some x) = Some (coll_state p S (fl(x := fl x OR f)) R r)"
    "clear_nfa_flag f (coll_state p S fl R r) (Some x) = Some (coll_state p S (fl(x := fl x AND NOT f)) R r)"
  using set_flag_walk [of "p\<lparr>ps_lists := S\<rparr>" x] assms by (simp_all add: coll_state_def)

text \<open>The nodes that can follow \<open>x\<close>: after a node that reads the walk goes on at \<open>out2\<close>; the start does
  not read.\<close>

definition follow :: "nheap \<Rightarrow> addr lview \<Rightarrow> addr \<Rightarrow> addr set" where
  "follow h B x = (case nfa_at h x of None \<Rightarrow> {} | Some n \<Rightarrow> reaches h B {} (if leaf h x then n_out2 n else Some x))"

text \<open>The graph, its branch lists and the list of nodes to expand, which is none of those.\<close>

definition coll_ctx :: "parser \<Rightarrow> addr lview \<Rightarrow> addr set \<Rightarrow> (addr \<Rightarrow> nat) \<Rightarrow> nat \<Rightarrow> addr \<Rightarrow> bool" where
  "coll_ctx p B M rk b stk \<longleftrightarrow> walkable (ps_nfa p) B M rk \<and> (\<forall>x \<in> M. rk x \<le> b) \<and> ps_branch_stack p = Some stk \<and>
     (\<forall>x \<in> M. ntype (ps_nfa p) x \<noteq> NFA_INTERVAL) \<and>
     (\<forall>x \<in> M. \<forall>n. nfa_at (ps_nfa p) x = Some n \<longrightarrow> n_type n = NFA_TREE \<longrightarrow> n_low n \<noteq> UBranches (Some stk))"

text \<open>The list and the flag of an expanded node.\<close>

definition filled :: "nheap \<Rightarrow> addr lview \<Rightarrow> (addr \<Rightarrow> u32) \<Rightarrow> addr lview \<Rightarrow> addr \<Rightarrow> bool" where
  "filled h B fl V x \<longleftrightarrow> (\<exists>xs n. V x = Some (map Some xs, n) \<and> distinct xs \<and> set xs = follow h B x) \<and>
     (bit (fl x) 3 \<longleftrightarrow> accepts_in h (follow h B x))"

text \<open>Nodes that are not expanded yet.\<close>

definition fresh :: "(addr \<Rightarrow> u32) \<Rightarrow> addr lview \<Rightarrow> addr \<Rightarrow> bool" where
  "fresh fl V x \<longleftrightarrow> \<not> bit (fl x) 0 \<and> \<not> bit (fl x) 3 \<and> (\<exists>n. V x = Some ([], n))"

definition inner :: "nheap \<Rightarrow> addr set \<Rightarrow> addr set" where
  "inner h M = {x \<in> M. leaf h x \<and> ntype h x \<noteq> NFA_ACCEPTING}"

definition closing :: "nheap \<Rightarrow> addr lview \<Rightarrow> addr set \<Rightarrow> addr \<Rightarrow> addr list \<Rightarrow> (addr \<Rightarrow> u32) \<Rightarrow> addr lview \<Rightarrow> bool" where
  "closing h B M start ys fl V \<longleftrightarrow> (\<forall>x \<in> M. branching h x \<longrightarrow> \<not> bit (fl x) 2) \<and> distinct ys \<and> set ys \<subseteq> inner h M \<and>
     (\<forall>x \<in> set ys. bit (fl x) 0 \<and> filled h B fl V x) \<and> (\<forall>x \<in> inner h M - set ys. fresh fl V x) \<and> filled h B fl V start"

section \<open>The graph without the changing list\<close>

lemma nsuccs_stack:
  assumes "coll_ctx p B M rk b stk" "x \<in> M"
  shows "nsuccs (ps_nfa p) (B(stk \<mapsto> e)) x = nsuccs (ps_nfa p) B x"
proof (cases "nfa_at (ps_nfa p) x")
  case (Some n)
  then have "n_type n = NFA_TREE \<longrightarrow> n_low n \<noteq> UBranches (Some stk)" using assms by (simp add: coll_ctx_def)
  with Some show ?thesis by (cases "n_low n") (auto simp: nsuccs_def split: option.split)
qed (simp add: nsuccs_def)

lemma reaches_cong:
  assumes W: "walkable h B M rk" and e: "\<And>x. x \<in> M \<Longrightarrow> nsuccs h B' x = nsuccs h B x" and q: "\<And>x. q = Some x \<Longrightarrow> x \<in> M"
  shows "reaches h B' P q = reaches h B P q"
proof -
  have succ: "y \<in> M" if "x \<in> M" "Some y \<in> set (nsuccs h B x)" for x y
  proof -
    from walkableE [OF W that(1)] obtain n where "walk_node h B M rk x n" .
    then show ?thesis using that(2) by (simp add: walk_node_def)
  qed
  have 1: "(x, y) \<in> (walk_step h B P)\<^sup>* \<and> y \<in> M" if "(x, y) \<in> (walk_step h B' P)\<^sup>*" "x \<in> M" for x y
    using that
  proof (induction rule: rtrancl_induct)
    case (step y z)
    then have "(y, z) \<in> walk_step h B P" "y \<in> M" using e by (auto simp: walk_step_def)
    then show ?case using step succ by (auto simp: walk_step_def intro: rtrancl_into_rtrancl)
  qed simp
  have 2: "(x, y) \<in> (walk_step h B' P)\<^sup>* \<and> y \<in> M" if "(x, y) \<in> (walk_step h B P)\<^sup>*" "x \<in> M" for x y
    using that
  proof (induction rule: rtrancl_induct)
    case (step y z)
    then have "(y, z) \<in> walk_step h B' P" "y \<in> M" using e by (auto simp: walk_step_def)
    moreover have "z \<in> M" using step(2) calculation(2) succ by (auto simp: walk_step_def)
    ultimately show ?case using step(3) [OF step(4)] by (blast intro: rtrancl_into_rtrancl)
  qed simp
  show ?thesis using 1 2 q unfolding reaches_def by blast
qed

lemma reaches_stack:
  assumes "coll_ctx p B M rk b stk" "\<And>x. q = Some x \<Longrightarrow> x \<in> M"
  shows "reaches (ps_nfa p) (B(stk \<mapsto> e)) P q = reaches (ps_nfa p) B P q"
proof (rule reaches_cong)
  show "walkable (ps_nfa p) B M rk" using assms(1) by (simp add: coll_ctx_def)
qed (use nsuccs_stack [OF assms(1)] assms(2) in auto)

lemma walkable_stack:
  assumes c: "coll_ctx p B M rk b stk"
  shows "walkable (ps_nfa p) (B(stk \<mapsto> e)) M rk"
  unfolding walkable_def
proof (intro conjI ballI)
  show "finite M" using c by (simp add: coll_ctx_def walkable_def)
  fix x assume x: "x \<in> M"
  have W: "walkable (ps_nfa p) B M rk" using c by (simp add: coll_ctx_def)
  from walkableE [OF W x] obtain n where w: "walk_node (ps_nfa p) B M rk x n" .
  then have n: "nfa_at (ps_nfa p) x = Some n" "n_type n = NFA_TREE \<longrightarrow> (\<exists>b bs k. n_low n = UBranches (Some b) \<and> B b = Some (bs, k))"
    by (simp_all add: walk_node_def)
  have "n_type n = NFA_TREE \<longrightarrow> (\<exists>b bs k. n_low n = UBranches (Some b) \<and> (B(stk \<mapsto> e)) b = Some (bs, k))"
  proof
    assume t: "n_type n = NFA_TREE"
    with n(2) obtain l bs k where l: "n_low n = UBranches (Some l)" "B l = Some (bs, k)" by blast
    have "l \<noteq> stk" using c x n(1) t l(1) by (auto simp: coll_ctx_def)
    with l show "\<exists>b bs k. n_low n = UBranches (Some b) \<and> (B(stk \<mapsto> e)) b = Some (bs, k)" by auto
  qed
  then have "walk_node (ps_nfa p) (B(stk \<mapsto> e)) M rk x n" using w unfolding walk_node_def nsuccs_stack [OF c x] by blast
  then show "\<exists>n. walk_node (ps_nfa p) (B(stk \<mapsto> e)) M rk x n" ..
qed

text \<open>A walk stays in the part.\<close>

lemma walk_in:
  assumes "walkable h B M rk" "\<And>x. p = Some x \<Longrightarrow> x \<in> M"
  shows "reaches h B P p \<subseteq> M"
proof -
  have "y \<in> M" if "(x, y) \<in> (walk_step h B P)\<^sup>*" "x \<in> M" for x y
    using that
  proof (induction rule: rtrancl_induct)
    case (step y z)
    then have y: "y \<in> M" "Some z \<in> set (nsuccs h B y)" by (auto simp: walk_step_def)
    from walkableE [OF assms(1) y(1)] obtain n where "walk_node h B M rk y n" .
    then show ?case using y(2) by (simp add: walk_node_def)
  qed
  then show ?thesis using assms(2) by (auto simp: reaches_def)
qed

lemma follow_in: "walkable h B M rk \<Longrightarrow> x \<in> M \<Longrightarrow> ntype h x \<noteq> NFA_ACCEPTING \<Longrightarrow> follow h B x \<subseteq> M"
proof -
  assume w: "walkable h B M rk" "x \<in> M" and t: "ntype h x \<noteq> NFA_ACCEPTING"
  from walkableE [OF w] obtain n where "walk_node h B M rk x n" .
  then have n: "nfa_at h x = Some n" "\<forall>y. n_out2 n = Some y \<longrightarrow> y \<in> M" using t by (auto simp: walk_node_def ntype_def)
  show ?thesis using n walk_in [OF w(1), of "n_out2 n" "{}"] walk_in [OF w(1), of "Some x" "{}"] w(2) by (simp add: follow_def)
qed

lemma follow_leaf: "y \<in> follow h B x \<Longrightarrow> leaf h y"
  by (auto simp: follow_def reaches_def split: option.splits)

section \<open>One node\<close>

text \<open>The changes that a step makes to the flags: only \<open>DONE\<close> and \<open>ACCEPTS\<close> of \<open>v\<close> change on nodes that matter.\<close>

definition expands :: "nheap \<Rightarrow> addr \<Rightarrow> (addr \<Rightarrow> u32) \<Rightarrow> (addr \<Rightarrow> u32) \<Rightarrow> bool" where
  "expands h v fl fl' \<longleftrightarrow> bit (fl' v) 0 \<and> (\<forall>a. a \<noteq> v \<longrightarrow> ntype h a \<noteq> NFA_EPSILON \<longrightarrow> (\<forall>i. bit (fl' a) i = bit (fl a) i)) \<and>
     (\<forall>a. a \<noteq> v \<longrightarrow> bit (fl' a) 0 = bit (fl a) 0 \<and> bit (fl' a) 3 = bit (fl a) 3)"

lemma collect_visiting_step:
  assumes ctx: "coll_ctx p B M rk b stk" and v: "v \<in> inner (ps_nfa p) M"
    and S: "view S (B(stk \<mapsto> (map Some st, ns)))" "cursor_at S stk i" "i \<le> length st" "st \<noteq> []"
    and R: "view R V" "fresh fl V v" and br: "\<forall>x \<in> M. branching (ps_nfa p) x \<longrightarrow> \<not> bit (fl x) 2"
    and k: "card {x \<in> M. branching (ps_nfa p) x} * (b + 2) + b + 2 \<le> k"
  shows "\<exists>S' fl' R' xs' n' ns'. collect_visiting k tmp (Some v) (coll_state p S (fl(v := fl v OR DONE)) R r) = Some (coll_state p S' fl' R' r) \<and>
     view S' (B(stk \<mapsto> (map Some (st @ [v]), ns'))) \<and> cursor_at S' stk i \<and> view R' (V(v \<mapsto> (map Some xs', n'))) \<and>
     expands (ps_nfa p) v fl fl' \<and> filled (ps_nfa p) B fl' (V(v \<mapsto> (map Some xs', n'))) v"
proof -
  let ?h = "ps_nfa p" let ?B = "B(stk \<mapsto> (map Some st, ns))" let ?f = "(fl(v := fl v OR DONE))(v := (fl v OR DONE) OR VISITED)"
  let ?q = "p\<lparr>ps_lists := S\<rparr>"
  from v have vM: "v \<in> M" "leaf ?h v" by (auto simp: inner_def)
  from ctx have W: "walkable ?h B M rk" and rk: "\<forall>x \<in> M. rk x \<le> b" and stk: "ps_branch_stack p = Some stk"
    and ni: "ntype ?h v \<noteq> NFA_INTERVAL" using vM by (auto simp: coll_ctx_def)
  from walkableE [OF W vM(1)] obtain n where "walk_node ?h B M rk v n" .
  then have n: "nfa_at ?h v = Some n" "\<forall>y. n_out2 n = Some y \<longrightarrow> y \<in> M" using v by (auto simp: walk_node_def inner_def ntype_def)
  then have t: "n_type n \<noteq> NFA_INTERVAL" "n_type n \<noteq> NFA_SPLIT" "ntype ?h v \<noteq> NFA_EPSILON"
    using ni vM by (auto simp: ntype_def leaf_def branching_def)
  have nv: "nfa_at ?h v \<noteq> None" using n(1) by simp
  have inv: "walk_inv ?q ?B M rk b v"
    using walkable_stack [OF ctx] rk S(1) nv ni by (simp add: walk_inv_def)
  have "(case n_out2 n of None \<Rightarrow> 0 | Some x \<Rightarrow> rk x + 1) \<le> b + 1" using rk n(2) by (auto split: option.split)
  then have fuel: "walk_fuel (ps_nfa ?q) M rk b {} (n_out2 n) \<le> k" using k by (simp add: walk_fuel_def)
  have W2: "walks ?q ?B M V v {} (n_out2 n) (collect_adjacencies_helper k)" using helper_walks [OF inv _ fuel] n(2) by simp
  have m: "marks (ps_nfa ?q) M v {} ?f" using br vM by (auto simp: marks_def bit_or_iff bit_flags leaf_def)
  from R(2) obtain nn where nn: "V v = Some ([], nn)" "\<not> bit (fl v) 3" by (auto simp: fresh_def)
  have Vv: "view R (V(v \<mapsto> (map Some [], nn)))" using R(1) nn(1) by (simp add: fun_upd_idem)
  have wr: "walk_result ?q V v (reaches ?h ?B {} (n_out2 n)) ?f [] r (collect_adjacencies_helper k (Some v) (n_out2 n) None (walk_state ?q ?f R r))"
    using walksD [OF W2 m Vv, of r] by simp
  obtain fl1 R1 xs1 n1 where w:
    "collect_adjacencies_helper k (Some v) (n_out2 n) None (walk_state ?q ?f R r) = Some (walk_state ?q fl1 R1 r)"
    "view R1 (V(v \<mapsto> (map Some xs1, n1)))" "collected (reaches ?h ?B {} (n_out2 n)) [] xs1" "flags_kept ?h v ?f fl1"
    "bit (fl1 v) 3 \<longleftrightarrow> bit (?f v) 3 \<or> accepts_in ?h (reaches ?h ?B {} (n_out2 n))"
    by (rule walk_resultE [OF wr]) (rule that, simp_all)
  let ?g = "fl1(v := fl1 v AND NOT VISITED)"
  have fo: "reaches ?h ?B {} (n_out2 n) = follow ?h B v" using n vM(2) reaches_stack [OF ctx, of "n_out2 n"] by (simp add: follow_def)
  obtain S' where S': "list_append S (Some stk) (Some v) = Some (int (length st), S')" "view S' (B(stk \<mapsto> (map Some (st @ [v]), ns - 1)))"
    "cursor_at S' stk i" using list_append_cursor [OF S(1) _ S(2), of "map Some st" ns "Some v"] S(3, 4) by auto
  have run: "collect_visiting k tmp (Some v) (coll_state p S (fl(v := fl v OR DONE)) R r) = Some (coll_state p S' ?g R1 r)"
    using n(1) t w(1) S'(1) stk by (simp add: collect_visiting_def set_flag_coll [OF nv] coll_state_def [symmetric])
  have ex: "expands ?h v fl ?g"
    unfolding expands_def
  proof (intro conjI allI impI)
    have k4: "bit (fl1 a) i = bit (?f a) i \<or> (a = v \<and> (i = 3 \<or> i = 1)) \<or> (ntype ?h a = NFA_EPSILON \<and> i = 2)" for a i
      using w(4) by (simp add: flags_kept_def)
    show "bit (?g v) 0" using k4 [of v 0] by (simp add: bit_clear bit_flags bit_or_iff)
    show "bit (?g a) i = bit (fl a) i" if "a \<noteq> v" "ntype ?h a \<noteq> NFA_EPSILON" for a i using k4 [of a i] that by simp
    show "bit (?g a) 0 = bit (fl a) 0" "bit (?g a) 3 = bit (fl a) 3" if "a \<noteq> v" for a using k4 [of a 0] k4 [of a 3] that by simp_all
  qed
  have "filled ?h B ?g (V(v \<mapsto> (map Some xs1, n1))) v"
    using w(3, 5) nn(2) by (auto simp: filled_def fo collected_def bit_clear bit_or_iff bit_flags)
  then show ?thesis using run S'(2, 3) w(2) ex by blast
qed

section \<open>The invariant of the loops\<close>

lemma filled_cong: "filled h B fl V x \<Longrightarrow> V' x = V x \<Longrightarrow> bit (fl' x) 3 = bit (fl x) 3 \<Longrightarrow> filled h B fl' V' x"
  by (simp add: filled_def)

lemma fresh_cong: "fresh fl V x \<Longrightarrow> V' x = V x \<Longrightarrow> bit (fl' x) 0 = bit (fl x) 0 \<Longrightarrow> bit (fl' x) 3 = bit (fl x) 3 \<Longrightarrow> fresh fl' V' x"
  by (simp add: fresh_def)

lemma closing_frame:
  assumes c: "closing h B M start ys fl V" and v: "leaf h v" "\<not> leaf h start"
    and a: "\<And>a. a \<noteq> v \<Longrightarrow> bit (fl' a) 0 = bit (fl a) 0 \<and> bit (fl' a) 3 = bit (fl a) 3"
    and b: "\<And>a. branching h a \<Longrightarrow> bit (fl' a) 2 = bit (fl a) 2"
    and V: "\<And>a. a \<noteq> v \<Longrightarrow> V' a = V a"
    and v1: "v \<notin> inner h M \<and> zs = [] \<or> v \<in> inner h M - set ys \<and> zs = [v] \<and> bit (fl' v) 0 \<and> filled h B fl' V' v"
  shows "closing h B M start (ys @ zs) fl' V'"
  unfolding closing_def
proof (intro conjI ballI impI)
  have sub: "set ys \<subseteq> inner h M" and dist: "distinct ys" using c by (simp_all add: closing_def)
  show "\<not> bit (fl' x) 2" if "x \<in> M" "branching h x" for x using c b that by (auto simp: closing_def)
  show "distinct (ys @ zs)" "set (ys @ zs) \<subseteq> inner h M" using dist sub v1 by auto
  show "bit (fl' x) 0" "filled h B fl' V' x" if x: "x \<in> set (ys @ zs)" for x
  proof -
    have "bit (fl' x) 0 \<and> filled h B fl' V' x"
    proof (cases "x = v")
      case True
      then show ?thesis using v1 sub x by auto
    next
      case False
      then have "x \<in> set ys" using x v1 by auto
      then have "bit (fl x) 0" "filled h B fl V x" using c by (simp_all add: closing_def)
      then show ?thesis using a [OF False] V [OF False] filled_cong by blast
    qed
    then show "bit (fl' x) 0" "filled h B fl' V' x" by simp_all
  qed
  show "fresh fl' V' x" if x: "x \<in> inner h M - set (ys @ zs)" for x
  proof -
    have "x \<noteq> v" "x \<in> inner h M - set ys" using x v1 by auto
    moreover from this have "fresh fl V x" using c by (simp add: closing_def)
    ultimately show ?thesis using a [of x] V [of x] fresh_cong by blast
  qed
  have "start \<noteq> v" using v by blast
  moreover have "filled h B fl V start" using c by (simp add: closing_def)
  ultimately show "filled h B fl' V' start" using a [of start] V [of start] filled_cong by blast
qed

lemma closing_expand:
  assumes "closing h B M start ys fl V" "\<not> leaf h start" "v \<in> inner h M - set ys" "expands h v fl fl'" "filled h B fl' (V(v \<mapsto> e)) v"
  shows "closing h B M start (ys @ [v]) fl' (V(v \<mapsto> e))"
proof (rule closing_frame [OF assms(1) _ assms(2)])
  show "leaf h v" using assms(3) by (simp add: inner_def)
  show "bit (fl' a) 0 = bit (fl a) 0 \<and> bit (fl' a) 3 = bit (fl a) 3" if "a \<noteq> v" for a using assms(4) that by (simp add: expands_def)
  show "bit (fl' a) 2 = bit (fl a) 2" if "branching h a" for a
  proof -
    have "a \<noteq> v" "ntype h a \<noteq> NFA_EPSILON" using that assms(3) by (auto simp: inner_def leaf_def branching_def nfa_types)
    then show ?thesis using assms(4) by (simp add: expands_def)
  qed
qed (use assms in \<open>auto simp: expands_def\<close>)

lemma closing_done:
  assumes "closing h B M start ys fl V" "\<not> leaf h start" "leaf h v" "v \<notin> inner h M"
  shows "closing h B M start ys (fl(v := fl v OR DONE)) V"
proof -
  have "closing h B M start (ys @ []) (fl(v := fl v OR DONE)) V"
  proof (rule closing_frame [OF assms(1, 3, 2)])
    show "bit ((fl(v := fl v OR DONE)) a) 0 = bit (fl a) 0 \<and> bit ((fl(v := fl v OR DONE)) a) 3 = bit (fl a) 3" if "a \<noteq> v" for a
      using that by simp
    show "bit ((fl(v := fl v OR DONE)) a) 2 = bit (fl a) 2" for a by (simp add: bit_or_iff bit_flags)
  qed (use assms in simp_all)
  then show ?thesis by simp
qed

section \<open>The inner loop\<close>

definition outside :: "addr set \<Rightarrow> addr lview \<Rightarrow> addr lview \<Rightarrow> bool" where
  "outside M V V' \<longleftrightarrow> (\<forall>x. x \<notin> M \<longrightarrow> V' x = V x)"

definition visited_all :: "parser \<Rightarrow> addr lview \<Rightarrow> addr set \<Rightarrow> addr \<Rightarrow> addr \<Rightarrow> addr list \<Rightarrow> (addr \<Rightarrow> u32) \<Rightarrow> nat \<Rightarrow> addr set \<Rightarrow>
    (addr lview \<Rightarrow> bool) \<Rightarrow> int \<Rightarrow> parser option \<Rightarrow> bool" where
  "visited_all p B M stk start ys fl i X Q r res \<longleftrightarrow> (\<exists>S' fl' R' V' zs ns'. res = Some (coll_state p S' fl' R' r) \<and>
     closing (ps_nfa p) B M start (ys @ zs) fl' V' \<and> view R' V' \<and> Q V' \<and>
     view S' (B(stk \<mapsto> (map Some (start # ys @ zs), ns'))) \<and> cursor_at S' stk i \<and>
     (\<forall>x \<in> X. bit (fl' x) 0) \<and> (\<forall>x. bit (fl x) 0 \<longrightarrow> bit (fl' x) 0))"

lemma visited_all_more:
  assumes "visited_all p B M stk start (ys @ zs) fl' i X Q r res" "\<forall>x. bit (fl x) 0 \<longrightarrow> bit (fl' x) 0" "bit (fl' v) 0"
  shows "visited_all p B M stk start ys fl i (insert v X) Q r res"
proof -
  from assms(1) obtain S' fl2 R' V' us ns' where u: "res = Some (coll_state p S' fl2 R' r)"
    "closing (ps_nfa p) B M start ((ys @ zs) @ us) fl2 V'" "view R' V'" "Q V'"
    "view S' (B(stk \<mapsto> (map Some (start # (ys @ zs) @ us), ns')))" "cursor_at S' stk i"
    "\<forall>x \<in> X. bit (fl2 x) 0" "\<forall>x. bit (fl' x) 0 \<longrightarrow> bit (fl2 x) 0" unfolding visited_all_def by (elim exE conjE) (rule that)
  show ?thesis unfolding visited_all_def
    by (rule exI [of _ S'], rule exI [of _ fl2], rule exI [of _ R'], rule exI [of _ V'], rule exI [of _ "zs @ us"], rule exI [of _ ns'])
      (use u assms(2, 3) in simp)
qed

lemma visit_loop_closes:
  assumes ctx: "coll_ctx p B M rk b stk" and start: "\<not> leaf (ps_nfa p) start"
    and k: "card {x \<in> M. branching (ps_nfa p) x} * (b + 2) + b + 2 \<le> k"
    and cs: "set cs \<subseteq> M" "\<forall>x \<in> set cs. leaf (ps_nfa p) x"
  shows "j \<le> length cs \<Longrightarrow> closing (ps_nfa p) B M start ys fl V \<Longrightarrow> view R V \<Longrightarrow> V c = Some (map Some cs, m) \<and> outside M V0 V \<Longrightarrow>
    c \<in> set (start # ys) \<Longrightarrow> view S (B(stk \<mapsto> (map Some (start # ys), ns))) \<Longrightarrow> cursor_at S stk i \<Longrightarrow> i \<le> length (start # ys) \<Longrightarrow>
    visited_all p B M stk start ys fl i (set (drop j cs)) (\<lambda>V'. V' c = Some (map Some cs, m) \<and> outside M V0 V') r
      (visit_loop k tmp (Some c) (int j) (coll_state p S fl R r))"
proof (induction "length cs - j" arbitrary: j ys fl V R S ns)
  case 0
  have run: "visit_loop k tmp (Some c) (int j) (coll_state p S fl R r) = Some (coll_state p S fl R r)"
    using list_size_view [OF 0(4) conjunct1 [OF 0(5)]] 0(1, 2) by (subst visit_loop.simps) simp
  show ?case unfolding visited_all_def run
    by (rule exI [of _ S], rule exI [of _ fl], rule exI [of _ R], rule exI [of _ V], rule exI [of _ "[]"], rule exI [of _ ns])
      (use 0 in \<open>simp del: fun_upd_apply\<close>)
next
  case (Suc d)
  let ?h = "ps_nfa p" let ?v = "cs ! j"
  have j: "j < length cs" using Suc(2) by simp
  then have v: "?v \<in> M" "leaf ?h ?v" using cs by auto
  have dr: "drop j cs = ?v # drop (Suc j) cs" using j by (simp add: Cons_nth_drop_Suc)
  have W: "walkable ?h B M rk" using ctx by (simp add: coll_ctx_def)
  from walkableE [OF W v(1)] obtain n where "walk_node ?h B M rk ?v n" .
  then have n: "nfa_at ?h ?v = Some n" by (simp add: walk_node_def)
  then have n': "nfa_at ?h ?v \<noteq> None" by simp
  have g: "list_get_at R (Some c) (int j) = Some (Some ?v)" using list_get_at_view [OF Suc(5) conjunct1 [OF Suc(6)], of "int j"] j by simp
  have sz: "list_size R (Some c) = Some (int (length cs))" using list_size_view [OF Suc(5) conjunct1 [OF Suc(6)]] by simp
  define more where "more = (\<lambda>p. visit_loop k tmp (Some c) (int j + 1) p)"
  have run: "visit_loop k tmp (Some c) (int j) (coll_state p S fl R r) = (if bit (fl ?v) 0 then more (coll_state p S fl R r)
      else Option.bind (if c \<noteq> ?v \<and> n_type n \<noteq> NFA_ACCEPTING then collect_visiting k tmp (Some ?v) (coll_state p S (fl(?v := fl ?v OR DONE)) R r)
        else Some (coll_state p S (fl(?v := fl ?v OR DONE)) R r)) more)"
    using j n g sz by (subst visit_loop.simps) (simp add: check_visited set_flag_coll [OF n'] more_def)
  have IH: "visited_all p B M stk start ys' fl' i (set (drop (Suc j) cs)) (\<lambda>V'. V' c = Some (map Some cs, m) \<and> outside M V0 V') r (more (coll_state p S' fl' R' r))"
    if "closing ?h B M start ys' fl' V'" "view R' V'" "V' c = Some (map Some cs, m) \<and> outside M V0 V'" "set ys \<subseteq> set ys'"
      "view S' (B(stk \<mapsto> (map Some (start # ys'), ns')))" "cursor_at S' stk i" "length ys \<le> length ys'" for ys' fl' V' R' S' ns'
    using Suc(1) [of "Suc j" ys' fl' V' R' S' ns'] Suc(2) j that Suc(7, 10) by (auto simp: more_def add.commute)
  show ?case
  proof (cases "bit (fl ?v) 0")
    case True
    from IH [OF Suc(4, 5, 6) order_refl Suc(8, 9) order_refl]
    have "visited_all p B M stk start (ys @ []) fl i (set (drop (Suc j) cs)) (\<lambda>V'. V' c = Some (map Some cs, m) \<and> outside M V0 V') r (more (coll_state p S fl R r))" by simp
    from visited_all_more [OF this, of fl ?v] show ?thesis using True unfolding run dr by simp
  next
    case False
    have ne: "c \<noteq> ?v"
    proof
      assume e: "c = ?v"
      then have "c \<noteq> start" using v start by blast
      then show False using Suc(4, 7) e False by (auto simp: closing_def)
    qed
    show ?thesis
    proof (cases "n_type n = NFA_ACCEPTING")
      case True
      let ?fl = "fl(?v := fl ?v OR DONE)"
      have "?v \<notin> inner ?h M" using True n by (simp add: inner_def ntype_def)
      from IH [OF closing_done [OF Suc(4) start v(2) this] Suc(5, 6) order_refl Suc(8, 9) order_refl]
      have "visited_all p B M stk start (ys @ []) ?fl i (set (drop (Suc j) cs)) (\<lambda>V'. V' c = Some (map Some cs, m) \<and> outside M V0 V') r (more (coll_state p S ?fl R r))" by simp
      from visited_all_more [OF this, of fl ?v] show ?thesis using False True unfolding run dr by (simp add: bit_or_iff bit_flags)
    next
      case acc: False
      have vi: "?v \<in> inner ?h M" using acc n v by (simp add: inner_def ntype_def)
      moreover have "?v \<notin> set ys" using Suc(4) False by (auto simp: closing_def)
      ultimately have vi': "?v \<in> inner ?h M - set ys" by simp
      then have fr: "fresh fl V ?v" and br: "\<forall>x \<in> M. branching ?h x \<longrightarrow> \<not> bit (fl x) 2" using Suc(4) by (simp_all add: closing_def)
      from collect_visiting_step [OF ctx vi Suc(8, 9, 10) _ Suc(5) fr br k, of tmp r] obtain S' fl' R' xs' n' ns' where
        s: "collect_visiting k tmp (Some ?v) (coll_state p S (fl(?v := fl ?v OR DONE)) R r) = Some (coll_state p S' fl' R' r)"
        "view S' (B(stk \<mapsto> (map Some ((start # ys) @ [?v]), ns')))" "cursor_at S' stk i" "view R' (V(?v \<mapsto> (map Some xs', n')))"
        "expands ?h ?v fl fl'" "filled ?h B fl' (V(?v \<mapsto> (map Some xs', n'))) ?v" by blast
      have "(V(?v \<mapsto> (map Some xs', n'))) c = Some (map Some cs, m) \<and> outside M V0 (V(?v \<mapsto> (map Some xs', n')))"
        using ne Suc(6) v(1) by (simp add: outside_def)
      from IH [OF closing_expand [OF Suc(4) start vi' s(5, 6)] s(4) this _ _ s(3)] s(2)
      have "visited_all p B M stk start (ys @ [?v]) fl' i (set (drop (Suc j) cs)) (\<lambda>V'. V' c = Some (map Some cs, m) \<and> outside M V0 V') r (more (coll_state p S' fl' R' r))" by auto
      moreover have "bit (fl' x) 0" if "bit (fl x) 0" for x using s(5) that by (cases "x = ?v") (simp_all add: expands_def)
      moreover have "bit (fl' ?v) 0" using s(5) by (simp add: expands_def)
      ultimately have "visited_all p B M stk start ys fl i (insert ?v (set (drop (Suc j) cs))) (\<lambda>V'. V' c = Some (map Some cs, m) \<and> outside M V0 V') r (more (coll_state p S' fl' R' r))"
        by (intro visited_all_more) simp_all
      then show ?thesis using False acc ne s(1) unfolding run dr by simp
    qed
  qed
qed

section \<open>The outer loop\<close>

lemma closing_filled: "closing h B M start ys fl V \<Longrightarrow> c \<in> set (start # ys) \<Longrightarrow> filled h B fl V c"
  by (auto simp: closing_def)

lemma closing_length: "closing h B M start ys fl V \<Longrightarrow> finite M \<Longrightarrow> length ys \<le> card (inner h M)"
proof -
  assume c: "closing h B M start ys fl V" and f: "finite M"
  have "card (set ys) \<le> card (inner h M)" using c f by (intro card_mono) (auto simp: closing_def inner_def)
  then show ?thesis using c by (simp add: closing_def distinct_card)
qed

lemma collect_loop_closes:
  assumes ctx: "coll_ctx p B M rk b stk" and start: "\<not> leaf (ps_nfa p) start" "start \<in> M"
    and k: "card {x \<in> M. branching (ps_nfa p) x} * (b + 2) + b + 2 \<le> k"
    and total: "int (card (inner (ps_nfa p) M)) \<le> tot"
  shows "closing (ps_nfa p) B M start ys fl V \<Longrightarrow> view R V \<Longrightarrow> view S (B(stk \<mapsto> (map Some (start # ys), ns))) \<Longrightarrow>
    cursor_at S stk i \<Longrightarrow> i \<le> length (start # ys) \<Longrightarrow> \<forall>x \<in> set (take i (start # ys)). \<forall>y \<in> follow (ps_nfa p) B x. bit (fl y) 0 \<Longrightarrow>
    outside M V0 V \<Longrightarrow> \<exists>S' fl' R' V' ys'. collect_loop k tmp tot (int i) (coll_state p S fl R r) = Some (coll_state p S' fl' R' r) \<and>
      closing (ps_nfa p) B M start ys' fl' V' \<and> view R' V' \<and> outside M V0 V' \<and> (\<forall>x \<in> set (start # ys'). \<forall>y \<in> follow (ps_nfa p) B x. bit (fl' y) 0)"
proof (induction "Suc (card (inner (ps_nfa p) M)) - i" arbitrary: i ys fl V R S ns rule: less_induct)
  case less
  let ?h = "ps_nfa p" let ?st = "start # ys"
  have W: "walkable ?h B M rk" and stk: "ps_branch_stack p = Some stk" using ctx by (simp_all add: coll_ctx_def)
  have fin: "finite M" using W by (simp add: walkable_def)
  have st: "(B(stk \<mapsto> (map Some ?st, ns))) stk = Some (map Some ?st, ns)" by simp
  show ?case
  proof (cases "i = length ?st")
    case True
    have "list_get_next S (Some stk) = Some (None, S)" using list_get_next_end [OF less(4) st] less(5) True by simp
    then have "collect_loop k tmp tot (int i) (coll_state p S fl R r) = Some (coll_state p S fl R r)"
      using stk by (subst collect_loop.simps) simp
    then show ?thesis using less(2, 3, 7, 8) True by (intro exI conjI) simp_all
  next
    case False
    then have i: "i < length ?st" using less(6) by simp
    let ?c = "?st ! i"
    have c: "?c \<in> set ?st" using i by (rule nth_mem)
    have lt: "i \<le> card (inner ?h M)" using closing_length [OF less(2) fin] i by simp
    from list_get_next_rep [OF less(4) st less(5)] i obtain S1 where S1: "list_get_next S (Some stk) = Some (Some ?c, S1)"
      "view S1 (B(stk \<mapsto> (map Some ?st, ns)))" "cursor_at S1 stk (Suc i)" by (auto simp del: list.map nth_Cons_Suc fun_upd_apply)
    from cursor_at_list [OF S1(3)] obtain L where L: "lists S1 stk = Some L" "l_iter_idx L = int (Suc i)" by blast
    have sz: "list_size S1 (Some stk) = Some (int (length ?st))" using list_size_view [OF S1(2) st] by simp
    have run: "collect_loop k tmp tot (int i) (coll_state p S fl R r) =
        Option.bind (visit_loop k tmp (Some ?c) (int 0) (coll_state p S1 fl R r)) (collect_loop k tmp tot (int (Suc i)))"
      using S1(1) L sz i lt total stk by (subst collect_loop.simps) (simp add: add.commute)
    from closing_filled [OF less(2) c] obtain cs m where cs: "V ?c = Some (map Some cs, m)" "set cs = follow ?h B ?c"
      by (auto simp: filled_def)
    have cM: "?c \<in> M" using c start(2) less(2) by (auto simp: closing_def inner_def)
    have "ntype ?h ?c \<noteq> NFA_ACCEPTING"
    proof (cases "?c = start")
      case True
      then show ?thesis using start(1) by (auto simp: leaf_def branching_def nfa_types)
    next
      case False
      then show ?thesis using c less(2) by (auto simp: closing_def inner_def)
    qed
    then have csM: "set cs \<subseteq> M" "\<forall>x \<in> set cs. leaf ?h x" using follow_in [OF W cM] follow_leaf cs(2) by auto
    from visit_loop_closes [OF ctx start(1) k csM _ less(2, 3) conjI [OF cs(1) less(8)] c S1(2, 3), of 0 r tmp] i
    obtain S' fl' R' V' zs ns' where v: "visit_loop k tmp (Some ?c) (int 0) (coll_state p S1 fl R r) = Some (coll_state p S' fl' R' r)"
      "closing ?h B M start (ys @ zs) fl' V'" "view R' V'" "view S' (B(stk \<mapsto> (map Some (start # ys @ zs), ns')))" "cursor_at S' stk (Suc i)"
      "\<forall>x \<in> follow ?h B ?c. bit (fl' x) 0" "\<forall>x. bit (fl x) 0 \<longrightarrow> bit (fl' x) 0" "outside M V0 V'"
      by (auto simp: visited_all_def cs(2))
    have "take (Suc i) (?st @ zs) = take (Suc i) ?st" using i by simp
    also have "\<dots> = take i ?st @ [?c]" by (rule take_Suc_conv_app_nth [OF i])
    finally have "take (Suc i) (start # ys @ zs) = take i ?st @ [?c]" by simp
    then have pr: "\<forall>x \<in> set (take (Suc i) (start # ys @ zs)). \<forall>y \<in> follow ?h B x. bit (fl' y) 0" using less(7) v(6, 7) by auto
    have "Suc (card (inner ?h M)) - Suc i < Suc (card (inner ?h M)) - i" using lt by simp
    from less(1) [OF this v(2, 3, 4, 5) _ pr v(8)] i
    show ?thesis unfolding run v(1) by simp
  qed
qed

end
