(* ===== verification/ClosureMpat.thy ===== *)
theory ClosureMpat
  imports Compile SlistIter
begin

text \<open>
  Between the two phases of \<open>collect_adjacencies\<close> the code makes the patterns for the keyword search
  (\<open>compute_mpat_tables\<close>). Whenever that returns, it has left the automaton alone and has moved at
  most the cursors of lists, so what the lists hold is still the same.
\<close>

section \<open>Moving cursors\<close>

definition cursors_moved :: "'a lheap \<Rightarrow> 'a lheap \<Rightarrow> bool" where
  "cursors_moved h h' \<longleftrightarrow> items h' = items h \<and> brk h' = brk h \<and>
     (\<forall>p. (lists h p = None \<and> lists h' p = None) \<or>
        (\<exists>L it i. lists h p = Some L \<and> lists h' p = Some (L\<lparr>l_iter := it, l_iter_idx := i\<rparr>)))"

lemma cursors_moved_refl: "cursors_moved h h"
proof -
  have "(lists h p = None \<and> lists h p = None) \<or> (\<exists>L it i. lists h p = Some L \<and> lists h p = Some (L\<lparr>l_iter := it, l_iter_idx := i\<rparr>))" for p
  proof (cases "lists h p")
    case (Some L)
    then have "lists h p = Some (L\<lparr>l_iter := l_iter L, l_iter_idx := l_iter_idx L\<rparr>)" by simp
    with Some show ?thesis by blast
  qed simp
  then show ?thesis by (simp add: cursors_moved_def)
qed

lemma cursors_moved_trans: "cursors_moved h g \<Longrightarrow> cursors_moved g k \<Longrightarrow> cursors_moved h k"
  unfolding cursors_moved_def
proof (elim conjE, intro conjI allI)
  fix p
  assume 1: "\<forall>p. (lists h p = None \<and> lists g p = None) \<or> (\<exists>L it i. lists h p = Some L \<and> lists g p = Some (L\<lparr>l_iter := it, l_iter_idx := i\<rparr>))"
    and 2: "\<forall>p. (lists g p = None \<and> lists k p = None) \<or> (\<exists>L it i. lists g p = Some L \<and> lists k p = Some (L\<lparr>l_iter := it, l_iter_idx := i\<rparr>))"
  show "(lists h p = None \<and> lists k p = None) \<or> (\<exists>L it i. lists h p = Some L \<and> lists k p = Some (L\<lparr>l_iter := it, l_iter_idx := i\<rparr>))"
  proof (cases "lists h p")
    case None
    then show ?thesis using spec [OF 1, of p] spec [OF 2, of p] by simp
  next
    case (Some L)
    then obtain it i where g: "lists g p = Some (L\<lparr>l_iter := it, l_iter_idx := i\<rparr>)" using spec [OF 1, of p] by auto
    then obtain it' i' where "lists k p = Some (L\<lparr>l_iter := it', l_iter_idx := i'\<rparr>)" using spec [OF 2, of p] by auto
    with Some show ?thesis by blast
  qed
qed simp_all

lemma cursor_set: "lists h a = Some L \<Longrightarrow> cursors_moved h (h\<lparr>lists := (lists h)(a \<mapsto> L\<lparr>l_iter := it, l_iter_idx := i\<rparr>)\<rparr>)"
  using cursors_moved_refl [of h] unfolding cursors_moved_def by auto

lemma list_get_next_moved: "list_get_next h p = Some (v, h') \<Longrightarrow> cursors_moved h h'"
  by (auto simp: list_get_next_def bind_eq_Some_conv cursors_moved_refl cursor_set split: if_splits)

lemma list_set_iterator_moved: "list_set_iterator h p i = Some (v, h') \<Longrightarrow> cursors_moved h h'"
  by (auto simp: list_set_iterator_def bind_eq_Some_conv cursors_moved_refl cursor_set split: if_splits)

lemma cursors_moved_rep:
  assumes "cursors_moved h h'" "list_rep h p as qs"
  shows "list_rep h' p as qs" "datas h' bs = datas h bs"
proof -
  have i: "items h' = items h" using assms(1) by (simp add: cursors_moved_def)
  then have n: "nexts h' = nexts h" by (rule nexts_eq_items)
  from assms(2) obtain L where L: "lists h p = Some L" by (auto simp: list_rep_def)
  with assms(1) obtain it k where "lists h' p = Some (L\<lparr>l_iter := it, l_iter_idx := k\<rparr>)" by (auto simp: cursors_moved_def dest: spec [of _ p])
  then show "list_rep h' p as qs" using assms(2) L n by (auto simp: list_rep_def)
  show "datas h' bs = datas h bs" using i by (simp add: datas_def)
qed

lemma cursors_moved_view:
  assumes V: "view h V" and c: "cursors_moved h h'"
  shows "view h' V"
proof -
  from V obtain R where S: "store_rep h R" and VR: "V = (\<lambda>p. map_option (\<lambda>(as, qs). (datas h as, length qs)) (R p))"
    by (auto simp: view_def)
  have i: "items h' = items h" "brk h' = brk h" using c by (simp_all add: cursors_moved_def)
  have l: "(lists h' p = None) = (lists h p = None)" for p using c by (auto simp: cursors_moved_def)
  have d: "datas h' as = datas h as" for as using i by (simp add: datas_def)
  have dom: "dom (lists h') = dom (lists h)" using l by (auto simp: dom_def)
  have "heap_ok h" using S by (simp add: store_rep_def)
  then have "heap_ok h'" using i l by (auto simp: heap_ok_def)
  moreover have "\<forall>p as qs. R p = Some (as, qs) \<longrightarrow> list_rep h' p as qs"
    using S cursors_moved_rep(1) [OF c] by (simp add: store_rep_def)
  ultimately have "store_rep h' R" using S dom unfolding store_rep_def by simp
  then show ?thesis using VR unfolding view_def by (intro exI [of _ R]) (simp add: d)
qed

section \<open>What \<open>compute_mpat_tables\<close> leaves alone\<close>

definition mpat_keeps :: "parser \<Rightarrow> parser \<Rightarrow> bool" where
  "mpat_keeps p p' \<longleftrightarrow> (\<exists>R S pr pt. p' = p\<lparr>ps_nfa := (ps_nfa p)\<lparr>reach := R\<rparr>, ps_lists := S, ps_print := pr, ps_pats := pt\<rparr> \<and>
     cursors_moved (reach (ps_nfa p)) R \<and> cursors_moved (ps_lists p) S)"

lemma mpat_keepsI: "p' = p\<lparr>ps_nfa := (ps_nfa p)\<lparr>reach := R\<rparr>, ps_lists := S, ps_print := pr, ps_pats := pt\<rparr> \<Longrightarrow>
    cursors_moved (reach (ps_nfa p)) R \<Longrightarrow> cursors_moved (ps_lists p) S \<Longrightarrow> mpat_keeps p p'"
  unfolding mpat_keeps_def by blast

lemma mpat_keeps_refl: "mpat_keeps p p"
  by (rule mpat_keepsI [where R = "reach (ps_nfa p)" and S = "ps_lists p" and pr = "ps_print p" and pt = "ps_pats p"])
    (simp_all add: cursors_moved_refl)

lemma mpat_keeps_trans: "mpat_keeps p q \<Longrightarrow> mpat_keeps q r \<Longrightarrow> mpat_keeps p r"
proof -
  assume "mpat_keeps p q" "mpat_keeps q r"
  then obtain R S pr pt R' S' pr' pt' where
    q: "q = p\<lparr>ps_nfa := (ps_nfa p)\<lparr>reach := R\<rparr>, ps_lists := S, ps_print := pr, ps_pats := pt\<rparr>"
    "cursors_moved (reach (ps_nfa p)) R" "cursors_moved (ps_lists p) S" and
    r: "r = q\<lparr>ps_nfa := (ps_nfa q)\<lparr>reach := R'\<rparr>, ps_lists := S', ps_print := pr', ps_pats := pt'\<rparr>"
    "cursors_moved (reach (ps_nfa q)) R'" "cursors_moved (ps_lists q) S'" unfolding mpat_keeps_def by (elim exE conjE) (rule that)
  show ?thesis
  proof (rule mpat_keepsI)
    show "r = p\<lparr>ps_nfa := (ps_nfa p)\<lparr>reach := R'\<rparr>, ps_lists := S', ps_print := pr', ps_pats := pt'\<rparr>" using q(1) r(1) by simp
    show "cursors_moved (reach (ps_nfa p)) R'" "cursors_moved (ps_lists p) S'" using cursors_moved_trans q r by auto
  qed
qed

lemma mpat_keeps_print: "mpat_keeps p (p\<lparr>ps_print := b\<rparr>)"
  by (rule mpat_keepsI [where R = "reach (ps_nfa p)" and S = "ps_lists p" and pr = b and pt = "ps_pats p"])
    (simp_all add: cursors_moved_refl)

lemma mpat_keeps_pl: "pl_op p f = Some (v, p') \<Longrightarrow> (\<And>h'. f (ps_lists p) = Some (v, h') \<Longrightarrow> cursors_moved (ps_lists p) h') \<Longrightarrow> mpat_keeps p p'"
proof -
  assume a: "pl_op p f = Some (v, p')" and c: "\<And>h'. f (ps_lists p) = Some (v, h') \<Longrightarrow> cursors_moved (ps_lists p) h'"
  from a obtain S where S: "f (ps_lists p) = Some (v, S)" "p' = p\<lparr>ps_lists := S\<rparr>" by (auto simp: pl_op_def bind_eq_Some_conv)
  show ?thesis
    by (rule mpat_keepsI [where R = "reach (ps_nfa p)" and S = S and pr = "ps_print p" and pt = "ps_pats p"])
      (use c [OF S(1)] S(2) in \<open>simp_all add: cursors_moved_refl\<close>)
qed

lemma mpat_keeps_pr: "pr_op p f = Some (v, p') \<Longrightarrow> (\<And>h'. f (reach (ps_nfa p)) = Some (v, h') \<Longrightarrow> cursors_moved (reach (ps_nfa p)) h') \<Longrightarrow> mpat_keeps p p'"
proof -
  assume a: "pr_op p f = Some (v, p')" and c: "\<And>h'. f (reach (ps_nfa p)) = Some (v, h') \<Longrightarrow> cursors_moved (reach (ps_nfa p)) h'"
  from a obtain R where R: "f (reach (ps_nfa p)) = Some (v, R)" "p' = p\<lparr>ps_nfa := (ps_nfa p)\<lparr>reach := R\<rparr>\<rparr>" by (auto simp: pr_op_def bind_eq_Some_conv)
  show ?thesis
    by (rule mpat_keepsI [where R = R and S = "ps_lists p" and pr = "ps_print p" and pt = "ps_pats p"])
      (use c [OF R(1)] R(2) in \<open>simp_all add: cursors_moved_refl\<close>)
qed

lemma mpat_keeps_pp: "pp_op p f = Some (v, p') \<Longrightarrow> mpat_keeps p p'"
proof -
  assume a: "pp_op p f = Some (v, p')"
  then obtain P where "p' = p\<lparr>ps_pats := P\<rparr>" by (auto simp: pp_op_def bind_eq_Some_conv)
  then show ?thesis
    by (intro mpat_keepsI [where R = "reach (ps_nfa p)" and S = "ps_lists p" and pr = "ps_print p" and pt = P])
      (simp_all add: cursors_moved_refl)
qed

text \<open>Results are kept by binds; every step of the pattern maker is one of the operations above.\<close>

definition mpat_ok :: "('r \<Rightarrow> parser) \<Rightarrow> parser \<Rightarrow> 'r option \<Rightarrow> bool" where
  "mpat_ok prj p m \<longleftrightarrow> (\<forall>r. m = Some r \<longrightarrow> mpat_keeps p (prj r))"

lemma mpat_okD: "mpat_ok prj p m \<Longrightarrow> m = Some r \<Longrightarrow> mpat_keeps p (prj r)"
  by (simp add: mpat_ok_def)

lemma mpat_ok_bind: "mpat_ok pj p m \<Longrightarrow> (\<And>r. m = Some r \<Longrightarrow> mpat_ok prj (pj r) (f r)) \<Longrightarrow> mpat_ok prj p (Option.bind m f)"
  unfolding mpat_ok_def
proof (intro allI impI)
  fix r
  assume 1: "\<forall>r. m = Some r \<longrightarrow> mpat_keeps p (pj r)" and 2: "\<And>r. m = Some r \<Longrightarrow> \<forall>ra. f r = Some ra \<longrightarrow> mpat_keeps (pj r) (prj ra)"
    and 3: "Option.bind m f = Some r"
  from 3 obtain x where x: "m = Some x" "f x = Some r" by (auto simp: bind_eq_Some_conv)
  then show "mpat_keeps p (prj r)" using 1 2 [OF x(1)] mpat_keeps_trans by blast
qed

lemma mpat_ok_get: "(\<And>v. mpat_ok prj p (f v)) \<Longrightarrow> mpat_ok prj p (Option.bind m f)"
  by (auto simp: mpat_ok_def bind_eq_Some_conv)

lemma mpat_ok_if: "mpat_ok prj p m \<Longrightarrow> mpat_ok prj p m' \<Longrightarrow> mpat_ok prj p (if b then m else m')"
  by simp

lemma mpat_ok_ret: "mpat_keeps p (prj r) \<Longrightarrow> mpat_ok prj p (Some r)"
  by (simp add: mpat_ok_def)

lemma mpat_ok_print: "mpat_ok prj (p\<lparr>ps_print := b\<rparr>) m \<Longrightarrow> mpat_ok prj p m"
  unfolding mpat_ok_def using mpat_keeps_print mpat_keeps_trans by blast

lemma mpat_ok_iter: "mpat_ok snd p (pl_op p (\<lambda>lh. list_set_iterator lh l i))" "mpat_ok snd p (pr_op p (\<lambda>lh. list_set_iterator lh l i))"
    "mpat_ok snd p (pl_op p (\<lambda>lh. list_get_next lh l))" "mpat_ok snd p (pr_op p (\<lambda>lh. list_get_next lh l))" "mpat_ok snd p (pp_op p f)"
  by (auto simp: mpat_ok_def intro: mpat_keeps_pl mpat_keeps_pr mpat_keeps_pp list_set_iterator_moved list_get_next_moved)

abbreviation synth_ok :: "synth_fun \<Rightarrow> bool" where
  "synth_ok rec \<equiv> \<forall>root x i p. mpat_ok (\<lambda>(ret, root, p). p) p (rec root x i p)"

lemma synth_branches_ok:
  "synth_branches body l ret root p = Some y \<Longrightarrow> \<forall>root t p. mpat_ok (\<lambda>(ret, root, p). p) p (body root t p) \<Longrightarrow> mpat_keeps p (snd (snd y))"
proof (induction rule: synth_branches.raw_induct [rotated 1, consumes 1, case_names step])
  case (step sb body l ret root p y)
  from step(2) obtain tmp p1 where n: "pl_op p (\<lambda>lh. list_get_next lh l) = Some (tmp, p1)"
    "(case tmp of None \<Rightarrow> Some (ret, root, p1) | Some t \<Rightarrow> Option.bind (body root (Some t) p1) (\<lambda>(ret, root, p). sb body l ret root p)) = Some y"
    by (auto simp: bind_eq_Some_conv split: prod.splits)
  have k: "mpat_keeps p p1" using mpat_okD [OF mpat_ok_iter(3) n(1)] by simp
  show ?case
  proof (cases tmp)
    case None
    then have "y = (ret, root, p1)" using n(2) by simp
    then show "mpat_keeps p (snd (snd y))" using k by simp
  next
    case (Some t)
    then obtain r2 root2 p2 where b: "body root (Some t) p1 = Some (r2, root2, p2)" "sb body l r2 root2 p2 = Some y"
      using n(2) by (auto simp: bind_eq_Some_conv)
    have "mpat_keeps p1 p2" using step(3) b(1) by (fastforce simp: mpat_ok_def)
    moreover have "mpat_keeps p2 (snd (snd y))" using step(1) [OF b(2)] step(3) by blast
    ultimately show ?thesis using k mpat_keeps_trans by blast
  qed
qed

lemma synth_node_ok:
  assumes rec: "synth_ok rec"
  shows "synth_node rec root n i p = Some (ret, i', root', p') \<Longrightarrow> mpat_keeps p p'"
proof -
  have r: "mpat_keeps q q'" if "rec root x i q = Some (ret, root', q')" for root x i q ret root' q'
    using rec that by (fastforce simp: mpat_ok_def)
  assume s: "synth_node rec root n i p = Some (ret, i', root', p')"
  consider "n_type n = NFA_LITERAL" | "n_type n = NFA_EPSILON \<or> n_type n = NFA_CAPTUREGRP_BEGIN \<or> n_type n = NFA_CAPTUREGRP_END"
    | "n_type n = NFA_TREE" | "n_type n = NFA_SPLIT" "n_lit n = 63" | "p' = p \<or> p' = p\<lparr>ps_print := True\<rparr>"
  proof -
    assume c: "n_type n = NFA_LITERAL \<Longrightarrow> thesis" "n_type n = NFA_EPSILON \<or> n_type n = NFA_CAPTUREGRP_BEGIN \<or> n_type n = NFA_CAPTUREGRP_END \<Longrightarrow> thesis"
      "n_type n = NFA_TREE \<Longrightarrow> thesis" "n_type n = NFA_SPLIT \<Longrightarrow> n_lit n = 63 \<Longrightarrow> thesis" "p' = p \<or> p' = p\<lparr>ps_print := True\<rparr> \<Longrightarrow> thesis"
    show thesis
    proof (cases "n_type n = NFA_LITERAL \<or> (n_type n = NFA_EPSILON \<or> n_type n = NFA_CAPTUREGRP_BEGIN \<or> n_type n = NFA_CAPTUREGRP_END) \<or>
        n_type n = NFA_TREE \<or> n_type n = NFA_SPLIT \<and> n_lit n = 63")
      case True
      then show ?thesis using c(1-4) by blast
    next
      case False
      then have "p' = p \<or> p' = p\<lparr>ps_print := True\<rparr>" using s by (simp add: synth_node_def split: if_splits)
      then show ?thesis by (rule c(5))
    qed
  qed
  then show ?thesis
  proof cases
    case 1
    then obtain root2 where "rec root2 (n_out2 n) (i + 1) (p\<lparr>ps_print := True\<rparr>) = Some (ret, root', p')"
      using s by (auto simp: synth_node_def bind_eq_Some_conv)
    from r [OF this] show ?thesis using mpat_keeps_print mpat_keeps_trans by blast
  next
    case 2
    then have "rec root (n_out2 n) i p = Some (ret, root', p')"
      using s by (auto simp: synth_node_def bind_eq_Some_conv nfa_types)
    then show ?thesis by (rule r)
  next
    case 3
    then obtain l v p1 where l: "pl_op p (\<lambda>lh. list_set_iterator lh l 0) = Some (v, p1)"
      "synth_branches (\<lambda>root t. rec root t i) l 0 root p1 = Some (ret, root', p')"
      using s by (auto simp: synth_node_def bind_eq_Some_conv nfa_types)
    have "mpat_keeps p p1" using mpat_okD [OF mpat_ok_iter(1) l(1)] by simp
    moreover have "mpat_keeps p1 p'" using synth_branches_ok [OF l(2)] rec by simp
    ultimately show ?thesis by (rule mpat_keeps_trans)
  next
    case 4
    then obtain r1 root1 p1 where "rec root (n_out1 n) i p = Some (r1, root1, p1)" "rec root1 (n_out2 n) i p1 = Some (ret, root', p')"
      using s by (auto simp: synth_node_def bind_eq_Some_conv nfa_types)
    then show ?thesis using r mpat_keeps_trans by blast
  next
    case 5
    then show ?thesis using mpat_keeps_refl mpat_keeps_print by auto
  qed
qed

lemma synthesize_pattern_ok: "synth_ok (synthesize_pattern k)"
proof (induction k)
  case 0
  then show ?case by (simp add: mpat_ok_def)
next
  case (Suc k)
  have after: "mpat_ok (\<lambda>p. p) q (if ps_print q then do { (_, q) \<leftarrow> pp_op q f; Some (q\<lparr>ps_print := False\<rparr>) } else Some q)" for q f
  proof (cases "ps_print q")
    case True
    have "mpat_ok (\<lambda>p. p) q (do { (_, q) \<leftarrow> pp_op q f; Some (q\<lparr>ps_print := False\<rparr>) })"
    proof (rule mpat_ok_bind [OF mpat_ok_iter(5)])
      show "mpat_ok (\<lambda>p. p) (snd r) (case r of (_, q) \<Rightarrow> Some (q\<lparr>ps_print := False\<rparr>))" for r
        using mpat_keeps_print by (cases r) (simp add: mpat_ok_ret)
    qed
    then show ?thesis using True by simp
  qed (simp add: mpat_ok_ret mpat_keeps_refl)
  show ?case
  proof (intro allI)
    fix root x i p
    show "mpat_ok (\<lambda>(ret, root, p). p) p (synthesize_pattern (Suc k) root x i p)"
      unfolding synthesize_pattern.simps synth_body_def
    proof (rule mpat_ok_get, rule mpat_ok_bind [where pj = "\<lambda>(ret, i, root, p). p"])
      fix n
      show "mpat_ok (\<lambda>(ret, i, root, p). p) p (synth_node (synthesize_pattern k) root n i p)"
        using synth_node_ok [OF Suc] by (auto simp: mpat_ok_def)
      fix r :: "int \<times> int \<times> byte list \<times> parser"
      obtain ret i' root' q where r: "r = (ret, i', root', q)" by (cases r)
      show "mpat_ok (\<lambda>(ret, root, p). p) (case r of (ret, i, root, p) \<Rightarrow> p) (case r of (ret, i, root, p) \<Rightarrow>
          if ret \<noteq> - 1 then do {
            p \<leftarrow> (if ps_print p then do {
                (_, p) \<leftarrow> pp_op p (\<lambda>ph. list_append ph (ps_synth_patterns p) (Some (strndup root i)));
                Some (p\<lparr>ps_print := False\<rparr>) } else Some p);
            root \<leftarrow> arr_set root i 0;
            Some (if i = 0 then 0 else i - 1, root, p) }
          else Some (ret, root, p))"
        unfolding r prod.case
        by (rule mpat_ok_if, rule mpat_ok_bind [OF after], rule mpat_ok_get) (simp_all add: mpat_ok_ret mpat_keeps_refl)
    qed
  qed
qed

lemma mpat_tables_loop_ok: "mpat_tables_loop k start root p = Some q \<Longrightarrow> mpat_keeps p q"
proof (induction rule: mpat_tables_loop.raw_induct [rotated 1, consumes 1, case_names step])
  case (step loop k start root p q)
  from step(2) obtain nfa p1 where n: "pr_op p (\<lambda>lh. list_get_next lh start) = Some (nfa, p1)"
    "q = p1 \<or> loop k start root p1 = Some q \<or>
      (\<exists>a v root1 p2. synthesize_pattern k root (Some a) 0 p1 = Some (v, root1, p2) \<and> loop k start root1 p2 = Some q)"
    by (fastforce simp: bind_eq_Some_conv split: option.splits if_splits)
  have k1: "mpat_keeps p p1" using mpat_okD [OF mpat_ok_iter(4) n(1)] by simp
  from n(2) have "mpat_keeps p1 q"
  proof (elim disjE exE conjE)
    fix a v root1 p2
    assume s: "synthesize_pattern k root (Some a) 0 p1 = Some (v, root1, p2)" and l: "loop k start root1 p2 = Some q"
    have "mpat_keeps p1 p2" using synthesize_pattern_ok [of k] s by (fastforce simp: mpat_ok_def)
    then show ?thesis using step(1) [OF l] mpat_keeps_trans by blast
  qed (use step(1) mpat_keeps_refl in auto)
  with k1 show ?case by (rule mpat_keeps_trans)
qed

lemma compute_mpat_tables_keeps: "compute_mpat_tables k p start = Some q \<Longrightarrow> mpat_keeps p q"
proof (cases "start = None")
  case False
  assume "compute_mpat_tables k p start = Some q"
  then obtain v p1 root where "pr_op p (\<lambda>lh. list_set_iterator lh start 0) = Some (v, p1)" "mpat_tables_loop k start root p1 = Some q"
    using False by (auto simp: compute_mpat_tables_def bind_eq_Some_conv)
  then show ?thesis using mpat_okD [OF mpat_ok_iter(2)] mpat_tables_loop_ok mpat_keeps_trans by fastforce
qed (simp add: compute_mpat_tables_def mpat_keeps_refl)

end
