(* ===== verification/NfaAlloc.thy ===== *)
theory NfaAlloc
  imports Nfa
begin

text \<open>
  The allocator as a service: the locale \<open>block_alloc\<close> says what the constructors of \<open>src/nfa.c\<close>
  rely on (a block that is taken is not in use, and blocks in use keep their contents); the
  interpretation discharges it for \<open>src/nfa_alloc.c\<close>, reached through a control block.
\<close>

section \<open>The contract\<close>

text \<open>A client's requests: take a block, or give back the \<open>i\<close>-th one it holds.\<close>

primrec serve :: "('s \<Rightarrow> (addr \<times> 's) option) \<Rightarrow> (addr \<Rightarrow> 's \<Rightarrow> 's option) \<Rightarrow> nat option list \<Rightarrow> addr list \<Rightarrow> 's \<Rightarrow>
    (addr list \<times> 's) option" where
  "serve get put [] ls s = Some (ls, s)"
| "serve get put (r # rs) ls s = (case r of
     None \<Rightarrow> do { (x, s) \<leftarrow> get s; serve get put rs (x # ls) s }
   | Some i \<Rightarrow> if i < length ls then do { s \<leftarrow> put (ls ! i) s; serve get put rs (take i ls @ drop (Suc i) ls) s }
       else serve get put rs ls s)"

primrec held :: "nat option list \<Rightarrow> nat \<Rightarrow> nat" where
  "held [] k = k"
| "held (r # rs) k = (case r of None \<Rightarrow> held rs (Suc k) | Some i \<Rightarrow> held rs (if i < k then k - 1 else k))"

locale block_alloc =
  fixes get :: "'s \<Rightarrow> (addr \<times> 's) option"
    and put :: "addr \<Rightarrow> 's \<Rightarrow> 's option"
    and holds :: "'s \<Rightarrow> addr set \<Rightarrow> bool"
    and content :: "'s \<Rightarrow> addr \<Rightarrow> 'c"
  assumes get_ok: "holds s L \<Longrightarrow> \<exists>x s'. get s = Some (x, s') \<and> x \<notin> L \<and> holds s' (insert x L) \<and> (\<forall>a \<in> L. content s' a = content s a)"
    and put_ok: "holds s L \<Longrightarrow> x \<in> L \<Longrightarrow> \<exists>s'. put x s = Some s' \<and> holds s' (L - {x}) \<and> (\<forall>a \<in> L. content s' a = content s a)"
begin

lemma serve_ok: "holds s (set ls) \<Longrightarrow> distinct ls \<Longrightarrow>
    \<exists>ls' s'. serve get put rs ls s = Some (ls', s') \<and> distinct ls' \<and> holds s' (set ls') \<and> length ls' = held rs (length ls)"
proof (induction rs arbitrary: ls s)
  case Nil
  then show ?case by simp
next
  case (Cons r rs)
  show ?case
  proof (cases r)
    case None
    from get_ok [OF Cons.prems(1)] obtain x t where t: "get s = Some (x, t)" "x \<notin> set ls" "holds t (set (x # ls))" by auto
    have "distinct (x # ls)" using t(2) Cons.prems(2) by simp
    from Cons.IH [OF t(3) this] t(1) None show ?thesis by auto
  next
    case (Some i)
    show ?thesis
    proof (cases "i < length ls")
      case False
      then show ?thesis using Cons Some by auto
    next
      case True
      let ?ls = "take i ls @ drop (Suc i) ls"
      have sp: "ls = take i ls @ ls ! i # drop (Suc i) ls" using True by (simp add: id_take_nth_drop)
      have d: "distinct ?ls" "set ?ls = set ls - {ls ! i}"
      proof -
        have "distinct (take i ls @ ls ! i # drop (Suc i) ls)" using Cons.prems(2) sp by metis
        moreover have "set ls = set (take i ls @ ls ! i # drop (Suc i) ls)" using sp by metis
        ultimately show "distinct ?ls" "set ?ls = set ls - {ls ! i}" by auto
      qed
      from put_ok [OF Cons.prems(1), of "ls ! i"] True obtain t where
        t: "put (ls ! i) s = Some t" "holds t (set ?ls)" using d(2) by auto
      have "length ?ls = length ls - 1" using True by simp
      with Cons.IH [OF t(2) d(1)] t(1) Some True show ?thesis by auto
    qed
  qed
qed

end

section \<open>The pools of a control block\<close>

definition ctrl_alloc :: "addr \<Rightarrow> nheap \<Rightarrow> (addr \<times> nheap) option" where
  "ctrl_alloc c h = do {
     C \<leftarrow> ctget h (Some c);
     (x, al, h) \<leftarrow> nfa_alloc h (c_alloc C);
     h \<leftarrow> ctset h (Some c) (c_alloc_update (\<lambda>_. al));
     a \<leftarrow> x;
     Some (a, h) }"

definition ctrl_dealloc :: "addr \<Rightarrow> addr \<Rightarrow> nheap \<Rightarrow> nheap option" where
  "ctrl_dealloc c x h = do { C \<leftarrow> ctget h (Some c); nfa_dealloc h (c_alloc C) (Some x) }"

definition pool_ok :: "addr \<Rightarrow> nheap \<Rightarrow> addr set \<Rightarrow> bool" where
  "pool_ok c h L \<longleftrightarrow> (\<exists>C al F As. ctrls h c = Some C \<and> c_alloc C = Some al \<and> alloc_ok h al L F As)"

lemma alloc_ok_ctrls: "alloc_ok (h\<lparr>ctrls := f\<rparr>) al L F As = alloc_ok h al L F As"
proof -
  have "snext (h\<lparr>ctrls := f\<rparr>) = snext h" "sprev (h\<lparr>ctrls := f\<rparr>) = sprev h" "anext (h\<lparr>ctrls := f\<rparr>) = anext h"
    "aprev (h\<lparr>ctrls := f\<rparr>) = aprev h" "sfree (h\<lparr>ctrls := f\<rparr>) = sfree h"
    by (simp_all add: fun_eq_iff snext_def sprev_def anext_def aprev_def sfree_def)
  then show ?thesis by (simp add: alloc_ok_def)
qed

text \<open>What taking a slot through the control block leaves alone.\<close>

definition same_world :: "addr \<Rightarrow> nheap \<Rightarrow> nheap \<Rightarrow> bool" where
  "same_world c h h' \<longleftrightarrow> (\<forall>a. slots h a \<noteq> None \<longrightarrow> nfa_at h' a = nfa_at h a) \<and> ranges h' = ranges h \<and>
     (\<forall>d. d \<noteq> c \<longrightarrow> ctrls h' d = ctrls h d) \<and>
     (\<exists>C C'. ctrls h c = Some C \<and> ctrls h' c = Some C' \<and> C'\<lparr>c_alloc := c_alloc C\<rparr> = C) \<and>
     dom (slots h) \<subseteq> dom (slots h') \<and>
     (\<forall>a. slots h a \<noteq> None \<longrightarrow> lists (reach h') a = lists (reach h) a) \<and> items (reach h') = items (reach h)"

lemma pool_live: "pool_ok c h L \<Longrightarrow> a \<in> L \<Longrightarrow> slots h a \<noteq> None"
  by (auto simp: pool_ok_def alloc_ok_def sfree_def)

lemma ctrl_alloc_ok:
  assumes "pool_ok c h L"
  shows "\<exists>x h'. ctrl_alloc c h = Some (x, h') \<and> x \<notin> L \<and> pool_ok c h' (insert x L) \<and> same_world c h h' \<and> slots h' x \<noteq> None"
proof -
  from assms obtain C al F As where C: "ctrls h c = Some C" "c_alloc C = Some al" "alloc_ok h al L F As" by (auto simp: pool_ok_def)
  from nfa_alloc_ok [OF C(3)] obtain x al' F' As' g where
    g: "nfa_alloc h (Some al) = Some (Some x, Some al', g)" "alloc_ok g al' (insert x L) F' As'" "x \<notin> L" "same_nodes h g"
    "dom (slots h) \<subseteq> dom (slots g)" by blast
  have cg: "ctrls g = ctrls h" using g(4) by (simp add: same_nodes_def)
  let ?C = "C\<lparr>c_alloc := Some al'\<rparr>"
  let ?h = "g\<lparr>ctrls := (ctrls h)(c \<mapsto> ?C)\<rparr>"
  have "ctrl_alloc c h = Some (x, ?h)" using C g(1) cg by (simp add: ctrl_alloc_def ctget_def ctset_def)
  moreover have "pool_ok c ?h (insert x L)" unfolding pool_ok_def alloc_ok_ctrls using g(2) by simp blast
  moreover have "same_world c h ?h"
    using g(4,5) C(1) by (simp add: same_world_def same_nodes_def nfa_at_def)
  moreover have "slots ?h x \<noteq> None" using g(2) by (auto simp: alloc_ok_def sfree_def)
  ultimately show ?thesis using g(3) by blast
qed

lemma ctrl_dealloc_ok:
  assumes "pool_ok c h L" "x \<in> L"
  shows "\<exists>h'. ctrl_dealloc c x h = Some h' \<and> pool_ok c h' (L - {x}) \<and> same_nodes h h' \<and> dom (slots h') = dom (slots h)"
proof -
  from assms(1) obtain C al F As where C: "ctrls h c = Some C" "c_alloc C = Some al" "alloc_ok h al L F As" by (auto simp: pool_ok_def)
  from nfa_dealloc_ok [OF C(3) assms(2)] obtain h' F' where
    h': "nfa_dealloc h (Some al) (Some x) = Some h'" "alloc_ok h' al (L - {x}) F' As" "same_nodes h h'" "dom (slots h') = dom (slots h)" by blast
  have "ctrl_dealloc c x h = Some h'" using C h'(1) by (simp add: ctrl_dealloc_def ctget_def)
  moreover have "pool_ok c h' (L - {x})" unfolding pool_ok_def using h'(2,3) C(1,2) by (auto simp: same_nodes_def)
  ultimately show ?thesis using h'(3,4) by blast
qed

interpretation npool: block_alloc "ctrl_alloc c" "ctrl_dealloc c" "pool_ok c" nfa_at for c
proof
  fix s L
  assume H: "pool_ok c s L"
  from ctrl_alloc_ok [OF H] obtain x s' where "ctrl_alloc c s = Some (x, s')" "x \<notin> L" "pool_ok c s' (insert x L)" "same_world c s s'" by blast
  moreover have "\<forall>a \<in> L. nfa_at s' a = nfa_at s a" using calculation(4) pool_live [OF H] by (auto simp: same_world_def)
  ultimately show "\<exists>x s'. ctrl_alloc c s = Some (x, s') \<and> x \<notin> L \<and> pool_ok c s' (insert x L) \<and> (\<forall>a \<in> L. nfa_at s' a = nfa_at s a)"
    by blast
next
  fix s L x
  assume H: "pool_ok c s L" "x \<in> L"
  from ctrl_dealloc_ok [OF H] obtain s' where "ctrl_dealloc c x s = Some s'" "pool_ok c s' (L - {x})" "same_nodes s s'" by blast
  moreover have "\<forall>a \<in> L. nfa_at s' a = nfa_at s a" using calculation(3) pool_live [OF H(1)] by (auto simp: same_nodes_def)
  ultimately show "\<exists>s'. ctrl_dealloc c x s = Some s' \<and> pool_ok c s' (L - {x}) \<and> (\<forall>a \<in> L. nfa_at s' a = nfa_at s a)" by blast
qed

section \<open>The first pool\<close>

lemma init_loop_ok:
  assumes "\<forall>j. i \<le> j \<and> j < n - 1 \<longrightarrow> slots h (pool + j) \<noteq> None" "i \<le> n - 1"
  shows "\<exists>h'. init_loop h pool pv i n = Some (if i < n - 1 then Some (pool + (n - 2)) else pv, h') \<and>
    (\<forall>a. slots h' a = (if pool + i \<le> a \<and> a < pool + (n - 1)
       then map_option (\<lambda>s. s\<lparr>sl_free := True, sl_next := Some (a + 1), sl_prev := (if a = pool + i then pv else Some (a - 1))\<rparr>) (slots h a)
       else slots h a)) \<and>
    allocs h' = allocs h \<and> ctrls h' = ctrls h \<and> nbrk h' = nbrk h"
  using assms
proof (induction "n - 1 - i" arbitrary: i h pv)
  case 0
  then show ?case by (subst init_loop.simps) auto
next
  case (Suc k)
  have i: "i < n - 1" "k = n - 1 - Suc i" "Suc i \<le> n - 1" using Suc.hyps(2) by auto
  obtain s where s: "slots h (pool + i) = Some s" using Suc.prems(1) i(1) by blast
  let ?s = "s\<lparr>sl_free := True, sl_next := Some (pool + (i + 1)), sl_prev := pv\<rparr>"
  let ?h = "h\<lparr>slots := (slots h)(pool + i \<mapsto> ?s)\<rparr>"
  have "\<forall>j. Suc i \<le> j \<and> j < n - 1 \<longrightarrow> slots ?h (pool + j) \<noteq> None" using Suc.prems by auto
  from Suc.hyps(1) [OF i(2) this i(3), of "Some (pool + i)"] obtain h' where
    h': "init_loop ?h pool (Some (pool + i)) (Suc i) n = Some (if Suc i < n - 1 then Some (pool + (n - 2)) else Some (pool + i), h')"
    "\<forall>a. slots h' a = (if pool + Suc i \<le> a \<and> a < pool + (n - 1)
       then map_option (\<lambda>s. s\<lparr>sl_free := True, sl_next := Some (a + 1), sl_prev := (if a = pool + Suc i then Some (pool + i) else Some (a - 1))\<rparr>) (slots ?h a)
       else slots ?h a)"
    "allocs h' = allocs ?h" "ctrls h' = ctrls ?h" "nbrk h' = nbrk ?h" by blast
  have e: "(if Suc i < n - 1 then Some (pool + (n - 2)) else Some (pool + i)) = Some (pool + (n - 2))" using i(1) by auto
  have "init_loop h pool pv i n = Some (Some (pool + (n - 2)), h')"
    using i s h'(1) unfolding e by (subst init_loop.simps) (simp add: sset_def)
  moreover have "slots h' a = (if pool + i \<le> a \<and> a < pool + (n - 1)
       then map_option (\<lambda>s. s\<lparr>sl_free := True, sl_next := Some (a + 1), sl_prev := (if a = pool + i then pv else Some (a - 1))\<rparr>) (slots h a)
       else slots h a)" for a
  proof (cases "a = pool + i")
    case True
    then show ?thesis using h'(2) s i by simp
  next
    case False
    then show ?thesis using h'(2) by auto
  qed
  ultimately show ?case using h'(3-5) i(1) by auto
qed

definition first_pool :: "(addr \<Rightarrow> nslot option) \<Rightarrow> addr \<Rightarrow> nat \<Rightarrow> addr \<Rightarrow> nslot option" where
  "first_pool S p n a = (if p \<le> a \<and> a < p + n then Some (zero_slot\<lparr>sl_free := True,
       sl_next := Some (if a = p + (n - 1) then p else a + 1), sl_prev := Some (if a = p then p + (n - 1) else a - 1)\<rparr>)
     else S a)"

lemma init_links:
  assumes n: "1 \<le> n" and S: "slots h = (\<lambda>a. if p \<le> a \<and> a < p + n then Some zero_slot else S a)"
  shows "\<exists>h'. do { h \<leftarrow> sset h (Some p) (sl_free_update (\<lambda>_. True));
     (if n = 1 then do {
             h \<leftarrow> sset h (Some p) (sl_free_update (\<lambda>_. True));
             h \<leftarrow> sset h (Some p) (sl_next_update (\<lambda>_. Some p));
             sset h (Some p) (sl_prev_update (\<lambda>_. Some p)) }
           else do {
             h \<leftarrow> sset h (Some p) (sl_free_update (\<lambda>_. True));
             h \<leftarrow> sset h (Some p) (sl_next_update (\<lambda>_. Some (p + 1)));
             h \<leftarrow> sset h (Some p) (sl_prev_update (\<lambda>_. Some (p + (n - 1))));
             (prev, h) \<leftarrow> init_loop h p (Some p) 1 n;
             h \<leftarrow> sset h (Some (p + (n - 1))) (sl_free_update (\<lambda>_. True));
             h \<leftarrow> sset h (Some (p + (n - 1))) (sl_next_update (\<lambda>_. Some p));
             sset h (Some (p + (n - 1))) (sl_prev_update (\<lambda>_. prev)) }) } = Some h' \<and>
    slots h' = first_pool S p n \<and> allocs h' = allocs h \<and> ctrls h' = ctrls h \<and> nbrk h' = nbrk h"
proof (cases "n = 1")
  case True
  let ?h = "h\<lparr>slots := (slots h)(p \<mapsto> zero_slot\<lparr>sl_free := True, sl_next := Some p, sl_prev := Some p\<rparr>)\<rparr>"
  have sp: "slots h p = Some zero_slot" using S n by simp
  have f: "slots ?h = first_pool S p n" using True by (auto simp: first_pool_def S fun_eq_iff)
  show ?thesis
    by (rule exI [of _ ?h]) (use True sp f in \<open>simp add: sset_def\<close>)
next
  case False
  then have n2: "2 \<le> n" using n by simp
  let ?z = "zero_slot\<lparr>sl_free := True, sl_next := Some (p + 1), sl_prev := Some (p + (n - 1))\<rparr>"
  let ?g = "h\<lparr>slots := (slots h)(p \<mapsto> ?z)\<rparr>"
  have sp: "slots h p = Some zero_slot" using S n by simp
  have "\<forall>j. 1 \<le> j \<and> j < n - 1 \<longrightarrow> slots ?g (p + j) \<noteq> None" "1 \<le> n - 1" using S n2 by auto
  from init_loop_ok [OF this, of "Some p"] obtain g' where
    g': "init_loop ?g p (Some p) 1 n = Some (if 1 < n - 1 then Some (p + (n - 2)) else Some p, g')"
    "\<forall>a. slots g' a = (if p + 1 \<le> a \<and> a < p + (n - 1)
       then map_option (\<lambda>s. s\<lparr>sl_free := True, sl_next := Some (a + 1), sl_prev := (if a = p + 1 then Some p else Some (a - 1))\<rparr>) (slots ?g a)
       else slots ?g a)" "allocs g' = allocs ?g" "ctrls g' = ctrls ?g" "nbrk g' = nbrk ?g" by blast
  let ?e = "p + (n - 1)"
  have pv: "(if 1 < n - 1 then Some (p + (n - 2)) else Some p) = Some (?e - 1)" using n2 by auto
  have pe: "?e \<noteq> p" "p \<le> ?e" "?e < p + n" "\<not> ?e < ?e" using n2 by linarith+
  have se: "slots g' ?e = Some zero_slot" unfolding g'(2) [rule_format, of ?e] using pe S by simp
  let ?h = "g'\<lparr>slots := (slots g')(?e \<mapsto> zero_slot\<lparr>sl_free := True, sl_next := Some p, sl_prev := Some (?e - 1)\<rparr>)\<rparr>"
  have "slots ?h a = first_pool S p n a" for a
  proof -
    consider "a = ?e" | "a = p" | "p + 1 \<le> a" "a < ?e" | "a < p \<or> p + n \<le> a" using n2 by linarith
    then show ?thesis
    proof cases
      case 1 then show ?thesis using False pe by (simp add: first_pool_def)
    next
      case 2
      have "p + 1 \<noteq> p + n" using False by simp
      then show ?thesis using 2 pe False n2 unfolding fun_upd_apply g'(2) [rule_format, of a] first_pool_def by (simp add: g'(2) [rule_format, of p])
    next
      case 3
      have "slots ?g a = Some zero_slot" using 3 S pe by simp
      then show ?thesis using 3 pe n2 unfolding fun_upd_apply g'(2) [rule_format, of a] first_pool_def by (auto simp: g'(2) [rule_format, of a])
    next
      case 4
      have "a \<noteq> ?e" "a \<noteq> p" "\<not> (p + 1 \<le> a \<and> a < ?e)" "\<not> (p \<le> a \<and> a < p + n)" using 4 pe n2 by linarith+
      moreover from this have "slots ?g a = S a" using S by auto
      ultimately have "slots g' a = S a" "a \<noteq> ?e" "first_pool S p n a = S a"
        unfolding g'(2) [rule_format, of a] first_pool_def by (simp_all only: if_False not_False_eq_True)
      then show ?thesis by simp
    qed
  qed
  then have f: "slots ?h = first_pool S p n" by (rule ext)
  have i: "init_loop ?g p (Some p) (Suc 0) n = Some (Some (?e - 1), g')" using g'(1) unfolding pv by simp
  show ?thesis
    by (rule exI [of _ ?h]) (use False sp se f i g'(3-5) in \<open>simp add: sset_def\<close>)
qed

lemma nfa_alloc_init_ok:
  assumes C: "ctrls h c = Some C" and fr: "\<forall>a \<ge> nbrk h. slots h a = None \<and> allocs h a = None" and n: "1 \<le> n"
  shows "\<exists>h' al F. nfa_alloc_init h (Some c) (int n) = Some h' \<and> ctrls h' c = Some (C\<lparr>c_alloc := Some al\<rparr>) \<and>
    alloc_ok h' al {} F [al] \<and> length F = n"
proof -
  let ?al = "nbrk h" and ?p = "Suc (nbrk h)"
  let ?Z = "\<lparr>al_free = None, al_pool = None, al_next = None, al_prev = None, al_size = 0\<rparr>"
  let ?g1 = "h\<lparr>allocs := (allocs h)(?al \<mapsto> ?Z), nbrk := ?p, ctrls := (ctrls h)(c \<mapsto> C\<lparr>c_alloc := Some ?al\<rparr>)\<rparr>"
  have g1: "ctset (snd (calloc_alloc h)) (Some c) (c_alloc_update (\<lambda>_. Some ?al)) = Some ?g1"
    using C by (simp add: calloc_alloc_def ctset_def)
  obtain g2 where g2: "calloc_pool ?g1 n = (?p, g2)"
    "slots g2 = (\<lambda>a. if ?p \<le> a \<and> a < ?p + n then Some zero_slot else slots h a)" "allocs g2 = (allocs h)(?al \<mapsto> ?Z)"
    "ctrls g2 = (ctrls h)(c \<mapsto> C\<lparr>c_alloc := Some ?al\<rparr>)" "nbrk g2 = ?p + n + 1"
  proof -
    let ?g = "?g1\<lparr>slots := (\<lambda>a. if ?p \<le> a \<and> a < ?p + n then Some zero_slot else slots ?g1 a),
      reach := (reach ?g1)\<lparr>lists := (\<lambda>a. if ?p \<le> a \<and> a < ?p + n then Some zero_list else lists (reach ?g1) a),
        brk := max (brk (reach ?g1)) (?p + n)\<rparr>, nbrk := ?p + n + 1\<rparr>"
    have "calloc_pool ?g1 n = (?p, ?g)" unfolding calloc_pool_def Let_def by simp
    then show ?thesis by (rule that) (simp_all cong: if_cong)
  qed
  let ?K = "?Z\<lparr>al_pool := Some ?p, al_size := int n\<rparr>"
  let ?g3 = "g2\<lparr>allocs := (allocs h)(?al \<mapsto> ?K)\<rparr>"
  have g3: "do { h \<leftarrow> alset g2 (Some ?al) (al_pool_update (\<lambda>_. Some ?p)); alset h (Some ?al) (al_size_update (\<lambda>_. int n)) } = Some ?g3"
    by (simp add: alset_def g2(3))
  have s3: "slots ?g3 = (\<lambda>a. if ?p \<le> a \<and> a < ?p + n then Some zero_slot else slots h a)" using g2(2) by simp
  from init_links [OF n s3] obtain g4 where g4: "do { h \<leftarrow> sset ?g3 (Some ?p) (sl_free_update (\<lambda>_. True));
     (if n = 1 then do {
             h \<leftarrow> sset h (Some ?p) (sl_free_update (\<lambda>_. True));
             h \<leftarrow> sset h (Some ?p) (sl_next_update (\<lambda>_. Some ?p));
             sset h (Some ?p) (sl_prev_update (\<lambda>_. Some ?p)) }
           else do {
             h \<leftarrow> sset h (Some ?p) (sl_free_update (\<lambda>_. True));
             h \<leftarrow> sset h (Some ?p) (sl_next_update (\<lambda>_. Some (?p + 1)));
             h \<leftarrow> sset h (Some ?p) (sl_prev_update (\<lambda>_. Some (?p + (n - 1))));
             (prev, h) \<leftarrow> init_loop h ?p (Some ?p) 1 n;
             h \<leftarrow> sset h (Some (?p + (n - 1))) (sl_free_update (\<lambda>_. True));
             h \<leftarrow> sset h (Some (?p + (n - 1))) (sl_next_update (\<lambda>_. Some ?p));
             sset h (Some (?p + (n - 1))) (sl_prev_update (\<lambda>_. prev)) }) } = Some g4"
    "slots g4 = first_pool (slots h) ?p n" "allocs g4 = allocs ?g3" "ctrls g4 = ctrls ?g3" "nbrk g4 = nbrk ?g3" by blast
  let ?K2 = "?K\<lparr>al_free := Some ?p, al_next := Some ?al, al_prev := Some ?al\<rparr>"
  let ?h' = "g4\<lparr>allocs := (allocs h)(?al \<mapsto> ?K2)\<rparr>"
  have f: "do { h \<leftarrow> alset g4 (Some ?al) (al_free_update (\<lambda>_. Some ?p)); h \<leftarrow> alset h (Some ?al) (al_next_update (\<lambda>_. Some ?al));
      alset h (Some ?al) (al_prev_update (\<lambda>_. Some ?al)) } = Some ?h'" by (simp add: alset_def g4(3))
  have c1: "(int n = 1) = (n = 1)" "\<not> int n < 1" using n by auto
  have "nfa_alloc_init h (Some c) (int n) = do {
      h \<leftarrow> ctset (snd (calloc_alloc h)) (Some c) (c_alloc_update (\<lambda>_. Some ?al));
      case calloc_pool h n of (p, h) \<Rightarrow> do {
        h \<leftarrow> do { h \<leftarrow> alset h (Some ?al) (al_pool_update (\<lambda>_. Some p)); alset h (Some ?al) (al_size_update (\<lambda>_. int n)) };
        h \<leftarrow> do { h \<leftarrow> sset h (Some p) (sl_free_update (\<lambda>_. True));
     (if n = 1 then do {
             h \<leftarrow> sset h (Some p) (sl_free_update (\<lambda>_. True));
             h \<leftarrow> sset h (Some p) (sl_next_update (\<lambda>_. Some p));
             sset h (Some p) (sl_prev_update (\<lambda>_. Some p)) }
           else do {
             h \<leftarrow> sset h (Some p) (sl_free_update (\<lambda>_. True));
             h \<leftarrow> sset h (Some p) (sl_next_update (\<lambda>_. Some (p + 1)));
             h \<leftarrow> sset h (Some p) (sl_prev_update (\<lambda>_. Some (p + (n - 1))));
             (prev, h) \<leftarrow> init_loop h p (Some p) 1 n;
             h \<leftarrow> sset h (Some (p + (n - 1))) (sl_free_update (\<lambda>_. True));
             h \<leftarrow> sset h (Some (p + (n - 1))) (sl_next_update (\<lambda>_. Some p));
             sset h (Some (p + (n - 1))) (sl_prev_update (\<lambda>_. prev)) }) };
        do { h \<leftarrow> alset h (Some ?al) (al_free_update (\<lambda>_. Some p)); h \<leftarrow> alset h (Some ?al) (al_next_update (\<lambda>_. Some ?al));
          alset h (Some ?al) (al_prev_update (\<lambda>_. Some ?al)) } } }"
    using C c1 unfolding nfa_alloc_init_def ctget_def Let_def calloc_alloc_def bind_assoc
    by (simp only: bind.bind_lunit prod.case snd_conv nat_int option.distinct if_False simp_thms)
  then have e: "nfa_alloc_init h (Some c) (int n) = Some ?h'"
    by (simp only: g1 g2(1) g3 g4(1) f prod.case bind.bind_lunit)
  let ?F = "[?p..<?p + n]"
  have fl: "?F = ?p # [Suc ?p..<?p + n]" "last ?F = ?p + (n - 1)" "hd ?F = ?p" "?F \<noteq> []"
  proof -
    have l: "?p < ?p + n" using n by linarith
    show f1: "?F = ?p # [Suc ?p..<?p + n]" by (rule upt_conv_Cons [OF l])
    show "last ?F = ?p + (n - 1)" unfolding last_upt [OF l] using n by linarith
    show "hd ?F = ?p" "?F \<noteq> []" by (simp_all only: f1 list.sel list.distinct simp_thms)
  qed
  have "lpath (snext ?h') (Some ?p) ?F (Some ?p)"
  proof -
    have "lpath (\<lambda>a. Some (Some (Suc a))) (Some ?p) ?F (Some (?p + n))" by (rule lpath_upt) (use n in auto)
    from lpath_snoc_upd [OF this distinct_upt fl(4), of "Some ?p"]
    have "lpath ((\<lambda>a. Some (Some (Suc a)))(?p + (n - 1) \<mapsto> Some ?p)) (Some ?p) ?F (Some ?p)" unfolding fl(2) .
    moreover have "lpath ((\<lambda>a. Some (Some (Suc a)))(?p + (n - 1) \<mapsto> Some ?p)) (Some ?p) ?F (Some ?p) =
      lpath (snext ?h') (Some ?p) ?F (Some ?p)"
      by (rule lpath_cong) (auto simp: snext_def g4(2) first_pool_def)
    ultimately show ?thesis by (simp only:)
  qed
  moreover have "lpath (sprev ?h') (Some (?p + n - 1)) (rev ?F) (Some (?p + n - 1))"
    by (rule lpath_rev_upt) (use n in \<open>auto simp: sprev_def g4(2) first_pool_def\<close>)
  then have "lpath (sprev ?h') (Some (last ?F)) (rev ?F) (Some (last ?F))" unfolding fl(2) using n by simp
  ultimately have "dring (snext ?h') (sprev ?h') ?F" unfolding dring_def fl(3) by simp
  moreover have "\<forall>x \<in> set ?F. sfree ?h' x = Some True" by (auto simp: sfree_def g4(2) first_pool_def)
  moreover have "dring (anext ?h') (aprev ?h') [?al]" by (simp add: dring_def anext_def aprev_def)
  moreover have "\<forall>a \<ge> nbrk ?h'. slots ?h' a = None \<and> allocs ?h' a = None"
    using fr g4(5) g2(5) by (auto simp: g4(2) first_pool_def)
  moreover have "hdp ?F = Some ?p" using fl by (simp add: hdp_hd)
  ultimately have "alloc_ok ?h' ?al {} ?F [?al]" using n by (simp add: alloc_ok_def)
  moreover have "ctrls ?h' c = Some (C\<lparr>c_alloc := Some ?al\<rparr>)" using g4(4) g2(4) by simp
  ultimately show ?thesis using e by (intro exI [of _ ?h'] exI [of _ ?al] exI [of _ ?F]) simp
qed

section \<open>Properties\<close>

text \<open>C10: from \<open>nfa_alloc_init\<close> with a pool of any positive size, any sequence of requests to take
  a node and to give one back is served without touching memory outside the pools, however often
  the pool has to grow; the nodes in use are always distinct, and their number is right.\<close>

theorem allocator_serves:
  assumes "1 \<le> n"
  shows "\<exists>c h lh h1 ls h2. new_nfa_ctrl empty_nheap empty_lheap = (Some c, h, lh) \<and>
    nfa_alloc_init h (Some c) (int n) = Some h1 \<and>
    serve (ctrl_alloc c) (ctrl_dealloc c) rs [] h1 = Some (ls, h2) \<and>
    distinct ls \<and> length ls = held rs 0 \<and> pool_ok c h2 (set ls)"
proof -
  obtain fr lh where l: "new_list (empty_lheap :: addr lheap) = (fr, lh)" by fastforce
  let ?C = "\<lparr>c_id = Some 0, c_next_seq = 1, c_next_interval = 0, c_free_range = Some fr, c_alloc = None\<rparr>"
  let ?h = "empty_nheap\<lparr>ctrls := (\<lambda>_. None)(0 \<mapsto> ?C), nbrk := 1\<rparr>"
  have k: "new_nfa_ctrl empty_nheap empty_lheap = (Some 0, ?h, lh)" using l by (simp add: new_nfa_ctrl_def empty_nheap_def)
  have "ctrls ?h 0 = Some ?C" "\<forall>a \<ge> nbrk ?h. slots ?h a = None \<and> allocs ?h a = None" by (simp_all add: empty_nheap_def)
  from nfa_alloc_init_ok [OF this assms] obtain h1 al F where
    h1: "nfa_alloc_init ?h (Some 0) (int n) = Some h1" "ctrls h1 0 = Some (?C\<lparr>c_alloc := Some al\<rparr>)" "alloc_ok h1 al {} F [al]" by blast
  then have "pool_ok 0 h1 (set [])" by (auto simp: pool_ok_def)
  from npool.serve_ok [OF this, of rs] obtain ls h2 where
    "serve (ctrl_alloc 0) (ctrl_dealloc 0) rs [] h1 = Some (ls, h2)" "distinct ls" "pool_ok 0 h2 (set ls)" "length ls = held rs 0" by auto
  then show ?thesis using k h1(1) by blast
qed

theorem allocator_serves_witness:
  "\<exists>c h lh h1 ls h2. new_nfa_ctrl empty_nheap empty_lheap = (Some c, h, lh) \<and> nfa_alloc_init h (Some c) 2 = Some h1 \<and>
    serve (ctrl_alloc c) (ctrl_dealloc c) [None, None, None, Some 1, None] [] h1 = Some (ls, h2) \<and> distinct ls \<and> length ls = 3"
proof -
  have e: "held [None, None, None, Some 1, None] 0 = 3" by code_simp
  have t: "int 2 = 2" "(1::nat) \<le> 2" by simp_all
  show ?thesis
    by (rule exE [OF allocator_serves [OF t(2), of "[None, None, None, Some 1, None]", unfolded t(1) e]])
      (elim exE conjE, intro exI conjI, assumption+)
qed

end
