(* ===== verification/CharRangeProps.thy ===== *)
theory CharRangeProps
  imports CharRange
begin

text \<open>
  The properties of bracket expressions and of the capture group map.
\<close>

lemma fold_opt_map: "fold_opt f (map g xs) s = fold_opt (\<lambda>x. f (g x)) xs s"
  by (induction xs arbitrary: s) (auto split: bind_splits)

lemma length_fresh: "length (fresh_range negate) = 2"
  by (simp add: fresh_range_def SIZE_OF_RANGE_def SIZE_OF_LOCALE_def BITS_PER_BLOCK_def signed_divide_int_def)

lemma fresh_ranges:
  assumes "\<forall>(low, high) \<in> set rs. low \<le> high \<and> unat high < 128"
  shows "\<exists>r. fold_opt (\<lambda>(low, high) r. update_range_nfa low high r negate) rs (fresh_range negate) = Some r \<and>
    (\<forall>c. is_literal_in_range r c = Some (unat c < 128 \<and> (covers rs (unat c) \<noteq> negate)))"
proof -
  have "\<forall>(low, high) \<in> set rs. low \<le> high" "\<forall>(low, high) \<in> set rs. unat high < 128" using assms by auto
  with update_ranges_spec [OF length_fresh [of negate] this(1), of negate] obtain r where
    r: "fold_opt (\<lambda>(low, high) r. update_range_nfa low high r negate) rs (fresh_range negate) = Some r" "length r = 2"
    "\<forall>w. abit r w = (if covers rs w then \<not> negate else abit (fresh_range negate) w)" by auto
  have "is_literal_in_range r c = Some (unat c < 128 \<and> (covers rs (unat c) \<noteq> negate))" for c
    using literal_abit [OF r(2), of c] r(3) by (auto simp: fresh_abit)
  then show ?thesis using r(1) by blast
qed

lemma coll_loop_hit:
  assumes "i < length cs" "\<forall>j < i. strncmp_eq n s (coll_name (cs ! j)) = Some False"
    "strncmp_eq n s (coll_name (cs ! i)) = Some True"
  shows "coll_loop s n negate cs r = do {
    r \<leftarrow> fold_opt (\<lambda>(low, high) r. update_range_nfa low high r negate) (class_ranges (cs ! i)) r; Some (True, r) }"
  using assms
proof (induction cs arbitrary: i)
  case Nil
  then show ?case by simp
next
  case (Cons c cs)
  show ?case
  proof (cases i)
    case 0
    then show ?thesis using Cons.prems(3) by (simp add: class_ranges_def fold_opt_map case_prod_unfold)
  next
    case (Suc k)
    have "strncmp_eq n s (coll_name c) = Some False" using Cons.prems(2) Suc by auto
    moreover have "coll_loop s n negate cs r = do {
        r \<leftarrow> fold_opt (\<lambda>(low, high) r. update_range_nfa low high r negate) (class_ranges (cs ! k)) r; Some (True, r) }"
      by (rule Cons.IH) (use Cons.prems Suc in auto)
    ultimately show ?thesis using Suc by simp
  qed
qed

lemma strncmp_total: "n \<le> length s \<Longrightarrow> 0 \<in> set t \<Longrightarrow> strncmp_eq n s t \<noteq> None"
proof (induction n s t rule: strncmp_eq.induct)
  case (2 n a as b bs)
  then show ?case by auto
qed auto

lemma class_name_match:
  assumes i: "i < 12" "j < 12"
  shows "strncmp_eq (length (class_names ! i)) (butlast (cstr (class_names ! i)) @ [b]) (coll_name (collations ! j)) = Some (i = j)"
proof -
  let ?s = "class_names ! i" and ?c = "collations ! j"
  have l: "length class_names = 12" "length collations = 12" by code_simp+
  have "map (\<lambda>s. map (\<lambda>c. strncmp_eq (length s) (butlast (cstr s) @ [b]) (coll_name c) = Some True) collations) class_names ! i ! j
      = map (\<lambda>i. map (\<lambda>j. i = j) [0..<12]) [0..<12] ! i ! j" by (simp only: class_lookup)
  then have e: "(strncmp_eq (length ?s) (butlast (cstr ?s) @ [b]) (coll_name ?c) = Some True) = (i = j)"
    using i l by simp
  have "list_all (\<lambda>c. 0 \<in> set (coll_name c)) collations" by code_simp
  then have "0 \<in> set (coll_name ?c)" using i l by (simp add: list_all_length)
  moreover have "length ?s \<le> length (butlast (cstr ?s) @ [b])" by (simp add: cstr_def)
  ultimately have "strncmp_eq (length ?s) (butlast (cstr ?s) @ [b]) (coll_name ?c) \<noteq> None" by (rule strncmp_total [rotated])
  with e show ?thesis by (cases "strncmp_eq (length ?s) (butlast (cstr ?s) @ [b]) (coll_name ?c)") auto
qed

text \<open>The text of the pattern from the name of class \<open>i\<close> on: the name and the byte that follows it.\<close>

definition class_text :: "nat \<Rightarrow> byte \<Rightarrow> byte list" where
  "class_text i b = butlast (cstr (class_names ! i)) @ [b]"

lemma class_update:
  assumes i: "i < 12" and r: "length r = 2"
  shows "\<exists>r'. update_range_w_collation (class_text i b) (length (class_names ! i)) r negate = Some (True, r') \<and>
    length r' = 2 \<and> (\<forall>w. abit r' w = (if covers (class_ranges (collations ! i)) w then \<not> negate else abit r w))"
proof -
  have l: "length collations = 12" by code_simp
  then have "collations ! i \<in> set collations" using i by simp
  then have "\<forall>(low, high) \<in> set (class_ranges (collations ! i)). low \<le> high \<and> unat high < 128" using class_ranges_ok by blast
  then have ok: "\<forall>(low, high) \<in> set (class_ranges (collations ! i)). low \<le> high"
    "\<forall>(low, high) \<in> set (class_ranges (collations ! i)). unat high < 128" by auto
  from update_ranges_spec [OF r ok(1), of negate] ok(2) obtain r' where
    r': "fold_opt (\<lambda>(low, high) r. update_range_nfa low high r negate) (class_ranges (collations ! i)) r = Some r'"
    "length r' = 2" "\<forall>w. abit r' w = (if covers (class_ranges (collations ! i)) w then \<not> negate else abit r w)" by auto
  have "\<forall>j < i. strncmp_eq (length (class_names ! i)) (class_text i b) (coll_name (collations ! j)) = Some False"
    using class_name_match i by (auto simp: class_text_def)
  from coll_loop_hit [OF _ this, of negate r] class_name_match [OF i i, of b] i l r'(1)
  have "update_range_w_collation (class_text i b) (length (class_names ! i)) r negate = Some (True, r')"
    by (simp add: update_range_w_collation_def class_text_def)
  then show ?thesis using r'(2,3) by blast
qed

text \<open>The items of a bracket expression: a range, or a class by its number in \<open>class_names\<close> with the
  byte that follows its name.\<close>

datatype bracket_item = Span u32 u32 | Named nat byte

fun add_item :: "bool \<Rightarrow> bracket_item \<Rightarrow> block list \<Rightarrow> block list option" where
  "add_item negate (Span low high) r = update_range_nfa low high r negate"
| "add_item negate (Named i b) r = do {
     (found, r) \<leftarrow> update_range_w_collation (class_text i b) (length (class_names ! i)) r negate;
     (if found then Some r else None) }"

fun item_ok :: "bracket_item \<Rightarrow> bool" where
  "item_ok (Span low high) \<longleftrightarrow> low \<le> high \<and> unat high < 128"
| "item_ok (Named i b) \<longleftrightarrow> i < 12"

fun item_ranges :: "bracket_item \<Rightarrow> (u32 \<times> u32) list" where
  "item_ranges (Span low high) = [(low, high)]"
| "item_ranges (Named i b) = class_ranges (collations ! i)"

lemma add_item_spec:
  assumes "item_ok x" "length r = 2"
  shows "\<exists>r'. add_item negate x r = Some r' \<and> length r' = 2 \<and>
    (\<forall>w. abit r' w = (if covers (item_ranges x) w then \<not> negate else abit r w))"
proof (cases x)
  case (Span low high)
  have "fold_opt f [] = Some" for f :: "u32 \<times> u32 \<Rightarrow> block list \<Rightarrow> block list option" by (rule ext) simp
  then show ?thesis using update_ranges_spec [OF assms(2), of "[(low, high)]" negate] assms(1) Span by auto
next
  case (Named i b)
  then show ?thesis using class_update [of i r b negate] assms by auto
qed

lemma add_items_spec:
  assumes "\<forall>x \<in> set items. item_ok x" "length r = 2"
  shows "\<exists>r'. fold_opt (add_item negate) items r = Some r' \<and> length r' = 2 \<and>
    (\<forall>w. abit r' w = (if \<exists>x \<in> set items. covers (item_ranges x) w then \<not> negate else abit r w))"
  using assms
proof (induction items arbitrary: r)
  case (Cons x items)
  from add_item_spec [of x r negate] Cons.prems obtain r1 where
    r1: "add_item negate x r = Some r1" "length r1 = 2"
    "\<forall>w. abit r1 w = (if covers (item_ranges x) w then \<not> negate else abit r w)" by auto
  from Cons.IH [OF _ r1(2)] Cons.prems(1) obtain r' where
    "fold_opt (add_item negate) items r1 = Some r'" "length r' = 2"
    "\<forall>w. abit r' w = (if \<exists>x \<in> set items. covers (item_ranges x) w then \<not> negate else abit r1 w)" by auto
  then show ?case using r1 by auto
qed simp




lemma cgrp_mark:
  assumes "length a = 1"
  shows "\<exists>a'. mark_closure_map_backref a d = Some a' \<and> length a' = 1 \<and>
    (\<forall>v < 63. abit a' v = (abit a v \<or> (1 \<le> d \<and> d \<le> 9 \<and> int v = d - 1)))"
proof (cases "0 < d \<and> d \<le> 9")
  case False
  then show ?thesis using assms by (auto simp: mark_closure_map_backref_def CGRP_MAX_def)
next
  case True
  then obtain n where n: "d = int n" "0 < n" "n \<le> 9" by (metis of_nat_0_less_iff of_nat_le_iff of_nat_numeral pos_int_cases)
  have b: "set_bit_c BITS_PER_BLOCK (int n) = Some (push_bit (n - 1) 1)" using set_bit_c_nat [of n] n by simp
  have x: "get_bit_array_idx (int n) BITS_PER_BLOCK = 0"
    using n by (simp add: get_bit_array_idx_def BITS_PER_BLOCK_def idx_nonneg)
  have "abit (a[(n - 1) div 64 := a ! ((n - 1) div 64) OR push_bit (n - 1) 1]) w = (if w = n - 1 then True else abit a w)" for w
    by (rule abit_upd) (use n assms in \<open>auto simp: bit_or_iff bit_one_shift\<close>)
  moreover have "(n - 1) div 64 = 0" using n by simp
  ultimately have "\<forall>w. abit (a[0 := a ! 0 OR push_bit (n - 1) 1]) w = (w = n - 1 \<or> abit a w)" by simp
  moreover have "mark_closure_map_backref a d = Some (a[0 := a ! 0 OR push_bit (n - 1) 1])"
    using True b x assms unfolding n(1) by (simp add: mark_closure_map_backref_def CGRP_MAX_def set_bit_array_def cell_upd_def)
  moreover have "(v = n - 1) = (1 \<le> d \<and> d \<le> 9 \<and> int v = d - 1)" for v using n by linarith
  ultimately show ?thesis using assms by (intro exI [of _ "a[0 := a ! 0 OR push_bit (n - 1) 1]"]) (simp only: length_list_update, blast)
qed

lemma cgrp_test:
  assumes "length a = 1"
  shows "\<exists>x. cgrp_has_backref a i = Some x \<and> (x \<noteq> 0 \<longleftrightarrow> 1 \<le> i \<and> i \<le> 9 \<and> abit a (nat (i - 1)))"
proof (cases "0 < i \<and> i \<le> 9")
  case False
  then show ?thesis by (auto simp: cgrp_has_backref_def CGRP_MAX_def)
next
  case True
  then obtain n where n: "i = int n" "0 < n" "n \<le> 9" by (metis of_nat_0_less_iff of_nat_le_iff of_nat_numeral pos_int_cases)
  have b: "set_bit_c BITS_PER_BLOCK (int n) = Some (2 ^ (n - 1))" using set_bit_c_nat [of n] n by simp
  have x: "get_bit_array_idx (int n) BITS_PER_BLOCK = 0"
    using n by (simp add: get_bit_array_idx_def BITS_PER_BLOCK_def idx_nonneg)
  have "cgrp_has_backref a i = Some (a ! 0 AND 2 ^ (n - 1))"
    using True b x assms unfolding n(1)
    by (simp add: cgrp_has_backref_def CGRP_MAX_def check_bit_array_def get_bit_array_bucket_def cell_get_def)
  moreover have "n - Suc 0 < 64" using n by simp
  then have "a ! 0 AND 2 ^ (n - 1) \<noteq> 0 \<longleftrightarrow> abit a (n - 1)"
    using n assms by (simp add: abit_def and_exp_eq_0_iff_not_bit)
  moreover have "nat (i - 1) = n - 1" using n by simp
  ultimately show ?thesis using True by auto
qed

section \<open>Properties\<close>

text \<open>C11: a bracket expression built from any list of ranges (low bound at most the high bound)
  on a new range NFA accepts exactly the characters below 128 in one of the ranges, or, negated,
  exactly those in none; bytes of 128 and more are never accepted. A range that reaches 128 or
  more (a non-ASCII byte is sign-extended to such a value) makes the update write outside the
  bitmap or shift by an undefined amount.\<close>

theorem bracket_ranges_bitmap:
  assumes "\<forall>(low, high) \<in> set rs. low \<le> high"
  shows "if \<forall>(low, high) \<in> set rs. unat high < 128
    then \<exists>r. fold_opt (\<lambda>(low, high) r. update_range_nfa low high r negate) rs (fresh_range negate) = Some r \<and>
      (\<forall>c. is_literal_in_range r c = Some (unat c < 128 \<and> (covers rs (unat c) \<noteq> negate)))
    else fold_opt (\<lambda>(low, high) r. update_range_nfa low high r negate) rs (fresh_range negate) = None"
proof (cases "\<forall>(low, high) \<in> set rs. unat high < 128")
  case True
  then have "\<forall>(low, high) \<in> set rs. low \<le> high \<and> unat high < 128" using assms by auto
  from fresh_ranges [OF this, of negate] True show ?thesis by simp
next
  case False
  show ?thesis using update_ranges_spec [OF length_fresh [of negate] assms, of negate] unfolding if_not_P [OF False] .
qed

theorem bracket_ranges_bitmap_witness:
  "\<exists>r. fold_opt (\<lambda>(low, high) r. update_range_nfa low high r True) [(97, 122), (48, 57)] (fresh_range True) = Some r \<and>
    is_literal_in_range r 65 = Some True \<and> is_literal_in_range r 98 = Some False \<and> is_literal_in_range r 200 = Some False"
proof -
  have h: "\<forall>(low, high) \<in> set [(97, 122), (48, 57 :: u32)]. low \<le> high" by simp
  have t: "\<forall>(low, high) \<in> set [(97 :: u32, 122), (48, 57 :: u32)]. unat high < 128" by simp
  from bracket_ranges_bitmap [OF h, of True] t obtain r where
    r: "fold_opt (\<lambda>(low, high) r. update_range_nfa low high r True) [(97, 122), (48, 57)] (fresh_range True) = Some r"
    "\<forall>c. is_literal_in_range r c = Some (unat c < 128 \<and> (covers [(97, 122), (48, 57)] (unat c) \<noteq> True))" by auto
  have "is_literal_in_range r 65 = Some True \<and> is_literal_in_range r 98 = Some False \<and> is_literal_in_range r 200 = Some False"
    unfolding r(2) [rule_format] by (simp add: covers_def)
  then show ?thesis using r(1) by blast
qed

text \<open>C18: a bracket expression made of any sequence of ranges and named classes (each of the twelve
  names, whatever byte follows it in the pattern), in any order, accepts exactly the characters below
  128 in one of its ranges or in the row of one of its classes; negated, exactly the ones in none. So an
  item keeps all that the items before it put into the bitmap.\<close>

theorem named_class_bitmap:
  assumes "\<forall>x \<in> set items. item_ok x"
  shows "\<exists>r. fold_opt (add_item negate) items (fresh_range negate) = Some r \<and>
    (\<forall>c. is_literal_in_range r c = Some (unat c < 128 \<and> ((\<exists>x \<in> set items. covers (item_ranges x) (unat c)) \<noteq> negate)))"
proof -
  from add_items_spec [OF assms length_fresh [of negate]] obtain r where
    r: "fold_opt (add_item negate) items (fresh_range negate) = Some r" "length r = 2"
    "\<forall>w. abit r w = (if \<exists>x \<in> set items. covers (item_ranges x) w then \<not> negate else abit (fresh_range negate) w)" by blast
  have "is_literal_in_range r c = Some (unat c < 128 \<and> ((\<exists>x \<in> set items. covers (item_ranges x) (unat c)) \<noteq> negate))" for c
    using literal_abit [OF r(2), of c] r(3) by (auto simp: fresh_abit)
  then show ?thesis using r(1) by blast
qed

theorem named_class_bitmap_witness:
  "\<exists>r. fold_opt (add_item False) [Span 97 97, Named 4 58, Span 95 95] (fresh_range False) = Some r \<and>
    map (is_literal_in_range r) [97, 55, 95, 65] = [Some True, Some True, Some True, Some False]"
proof -
  have n: "class_ranges (collations ! 4) = [(48, 57)]" by code_simp
  have h: "\<forall>x \<in> set [Span 97 97, Named 4 58, Span 95 95]. item_ok x" by simp
  have cov: "(\<exists>x \<in> set [Span 97 97, Named 4 58, Span 95 95]. covers (item_ranges x) c) = (c = 97 \<or> 48 \<le> c \<and> c \<le> 57 \<or> c = 95)" for c
    unfolding list.set bex_simps item_ranges.simps n by (auto simp: covers_def)
  from named_class_bitmap [OF h, of False] obtain r where
    r: "fold_opt (add_item False) [Span 97 97, Named 4 58, Span 95 95] (fresh_range False) = Some r"
    "\<forall>c. is_literal_in_range r c = Some (unat c < 128 \<and>
      ((\<exists>x \<in> set [Span 97 97, Named 4 58, Span 95 95]. covers (item_ranges x) (unat c)) \<noteq> False))"
    by (elim exE conjE) (rule that)
  have "map (is_literal_in_range r) [97, 55, 95, 65] = [Some True, Some True, Some True, Some False]"
    unfolding list.map r(2) [rule_format] cov by simp
  with r(1) show ?thesis by (intro exI [of _ r] conjI)
qed



text \<open>C20: after any sequence of back-references noted in the pattern, the capture group map answers
  yes exactly for the groups 1 to 9 that were noted, never touching memory outside the map.\<close>

theorem capture_group_map:
  "\<exists>a. fold_opt (\<lambda>d a. mark_closure_map_backref a d) ds (replicate (nat CGRP_MAP_SIZE) 0) = Some a \<and>
    map_option (\<lambda>x. x \<noteq> 0) (cgrp_has_backref a i) = Some (1 \<le> i \<and> i \<le> 9 \<and> i \<in> set ds)"
proof -
  have "\<exists>b. fold_opt (\<lambda>d a. mark_closure_map_backref a d) ds a = Some b \<and> length b = 1 \<and>
    (\<forall>v < 63. abit b v = (abit a v \<or> (\<exists>d \<in> set ds. 1 \<le> d \<and> d \<le> 9 \<and> int v = d - 1)))" if "length a = 1" for a
    using that
  proof (induction ds arbitrary: a)
    case Nil
    then show ?case by simp
  next
    case (Cons d ds)
    from cgrp_mark [OF Cons.prems, of d] obtain a1 where a1: "mark_closure_map_backref a d = Some a1" "length a1 = 1"
      "\<forall>v < 63. abit a1 v = (abit a v \<or> (1 \<le> d \<and> d \<le> 9 \<and> int v = d - 1))" by blast
    from Cons.IH [OF a1(2)] a1(1,3) show ?case by auto
  qed
  from this [of "[0]"] obtain b where
    b: "fold_opt (\<lambda>d a. mark_closure_map_backref a d) ds [0] = Some b" "length b = 1"
    "\<forall>v < 63. abit b v = (abit [0] v \<or> (\<exists>d \<in> set ds. 1 \<le> d \<and> d \<le> 9 \<and> int v = d - 1))" by auto
  have s: "replicate (nat CGRP_MAP_SIZE) 0 = [0 :: block]"
    by (simp add: CGRP_MAP_SIZE_def CGRP_MAX_def BITS_PER_BLOCK_def signed_divide_int_def)
  from cgrp_test [OF b(2), of i] obtain x where
    x: "cgrp_has_backref b i = Some x" "x \<noteq> 0 \<longleftrightarrow> 1 \<le> i \<and> i \<le> 9 \<and> abit b (nat (i - 1))" by blast
  have "abit b (nat (i - 1)) = (i \<in> set ds)" if "1 \<le> i" "i \<le> 9"
    using b(3) [rule_format, of "nat (i - 1)"] that by (auto simp: abit_def)
  then show ?thesis unfolding s using b(1) x by auto
qed

end
