(* ===== verification/NfaFrag.thy ===== *)
theory NfaFrag
  imports NfaAlloc NfaGraph CharRangeProps
begin

text \<open>
  The heap of \<open>src/nfa.c\<close> seen as a graph, and what its primitives do to that graph: \<open>nctx c h L\<close>
  says that \<open>L\<close> are the nodes in use of the control block \<open>c\<close>; \<open>nfrag\<close> that some of them form a
  fragment with a given language.
\<close>

section \<open>Updating a node\<close>

definition nupd :: "nheap \<Rightarrow> addr \<Rightarrow> (nfa \<Rightarrow> nfa) \<Rightarrow> nheap" where
  "nupd h a f = h\<lparr>slots := (slots h)(a := map_option (\<lambda>s. s\<lparr>sl_nfa := f (sl_nfa s)\<rparr>) (slots h a))\<rparr>"

lemma nget_at [simp]: "nget h (Some a) = nfa_at h a"
  by (cases "slots h a") (simp_all add: nh_prims nfa_at_def)

lemma nset_nupd [simp]: "nfa_at h a = Some n \<Longrightarrow> nset h (Some a) f = Some (nupd h a f)"
  by (auto simp: nh_prims nfa_at_def nupd_def)

lemma nfa_at_nupd [simp]: "nfa_at (nupd h a f) b = (if b = a then map_option f (nfa_at h a) else nfa_at h b)"
  by (cases "slots h a") (auto simp: nfa_at_def nupd_def)

lemma nupd_sel [simp]:
  "ranges (nupd h a f) = ranges h" "ctrls (nupd h a f) = ctrls h" "reach (nupd h a f) = reach h" "nbrk (nupd h a f) = nbrk h"
  by (simp_all add: nupd_def)

lemma alloc_ok_nupd: "alloc_ok (nupd h a f) al L F As = alloc_ok h al L F As"
proof -
  have "snext (nupd h a f) = snext h" "sprev (nupd h a f) = sprev h" "sfree (nupd h a f) = sfree h"
    "anext (nupd h a f) = anext h" "aprev (nupd h a f) = aprev h" "\<And>x. (slots (nupd h a f) x = None) = (slots h x = None)"
    "allocs (nupd h a f) = allocs h"
    by (auto simp: fun_eq_iff snext_def sprev_def sfree_def anext_def aprev_def nupd_def option.map_comp comp_def)
  then show ?thesis by (simp add: alloc_ok_def)
qed

lemma pool_ok_nupd [simp]: "pool_ok c (nupd h a f) L = pool_ok c h L"
  by (simp add: pool_ok_def alloc_ok_nupd)

section \<open>List headers and the break only grow, ranges stay\<close>

definition covered :: "nheap \<Rightarrow> bool" where
  "covered h \<longleftrightarrow> (\<forall>a. slots h a \<noteq> None \<longrightarrow> lists (reach h) a \<noteq> None)"

text \<open>No flag is set, and the lists of reachable nodes are all empty, as \<open>calloc\<close> makes them.\<close>

definition clean :: "nheap \<Rightarrow> bool" where
  "clean h \<longleftrightarrow> (\<forall>a s. slots h a = Some s \<longrightarrow> n_flags (sl_nfa s) = 0) \<and>
     (\<forall>a L. lists (reach h) a = Some L \<longrightarrow> L = zero_list \<and> a < brk (reach h)) \<and> items (reach h) = (\<lambda>_. None)"

definition grows :: "nheap \<Rightarrow> nheap \<Rightarrow> bool" where
  "grows h h' \<longleftrightarrow> nbrk h \<le> nbrk h' \<and> (covered h \<longrightarrow> covered h') \<and> (clean h \<longrightarrow> clean h') \<and> ranges h' = ranges h"

lemma grows_refl: "grows h h"
  by (simp add: grows_def)

lemma grows_trans: "grows h g \<Longrightarrow> grows g k \<Longrightarrow> grows h k"
  by (auto simp: grows_def)

lemma covered_nupd [simp]: "covered (nupd h a f) = covered h"
  by (auto simp: covered_def nupd_def)

lemma clean_nupd [simp]: "(\<And>n. n_flags n = 0 \<Longrightarrow> n_flags (f n) = 0) \<Longrightarrow> clean h \<Longrightarrow> clean (nupd h a f)"
  by (cases "slots h a") (auto simp: clean_def nupd_def)

lemma clean_at: "clean h \<Longrightarrow> nfa_at h a = Some n \<Longrightarrow> n_flags n = 0"
  by (auto simp: clean_def nfa_at_def)

lemma clean_ctrls [simp]: "clean (h\<lparr>ctrls := f\<rparr>) = clean h"
  by (simp add: clean_def)

lemma sset_grows: "sset h p f = Some h' \<Longrightarrow> (\<And>s. n_flags (sl_nfa (f s)) = n_flags (sl_nfa s)) \<Longrightarrow> grows h h'"
  by (auto simp: sset_def grows_def covered_def clean_def split: bind_splits if_splits)

lemma alset_grows: "alset h p f = Some h' \<Longrightarrow> grows h h'"
  by (auto simp: alset_def grows_def covered_def clean_def split: bind_splits)

lemma ctset_grows: "ctset h p f = Some h' \<Longrightarrow> grows h h'"
  by (auto simp: ctset_def grows_def covered_def clean_def split: bind_splits)

lemma calloc_pool_grows: "calloc_pool h n = (p, h') \<Longrightarrow> grows h h'"
  by (auto simp: calloc_pool_def grows_def covered_def clean_def zero_slot_def zero_nfa_def less_max_iff_disj Let_def split: if_splits)

lemma calloc_alloc_grows: "calloc_alloc h = (p, h') \<Longrightarrow> grows h h'"
  by (auto simp: calloc_alloc_def grows_def covered_def clean_def)

text \<open>Whatever a computation returns, its heap is at least as large.\<close>

definition gm :: "('r \<Rightarrow> nheap) \<Rightarrow> nheap \<Rightarrow> 'r option \<Rightarrow> bool" where
  "gm prj h m \<longleftrightarrow> (\<forall>r. m = Some r \<longrightarrow> grows h (prj r))"

lemma gm_sset: "gm (\<lambda>x. x) h (sset h p (sl_free_update f))" "gm (\<lambda>x. x) h (sset h p (sl_next_update g))"
    "gm (\<lambda>x. x) h (sset h p (sl_prev_update g))"
  by (auto simp: gm_def intro: sset_grows)

lemma gm_bind: "gm (\<lambda>x. x) h m \<Longrightarrow> (\<And>g. gm prj g (f g)) \<Longrightarrow> gm prj h (Option.bind m f)"
  by (force simp: gm_def bind_eq_Some_conv intro: grows_trans)

lemma expand_loop_gm: "gm (\<lambda>x. x) h (expand_loop h pool prev i n)"
proof (induction "n - i" arbitrary: h prev i)
  case 0
  then show ?case by (subst expand_loop.simps) (simp add: gm_def grows_refl)
next
  case (Suc k)
  then have "i < n" "k = n - (i + 1)" by simp_all
  then show ?case using Suc.hyps(1) [OF \<open>k = n - (i + 1)\<close>]
    by (subst expand_loop.simps) (simp, (rule gm_bind gm_sset)+, simp)
qed

lemma gm_prims: "gm (\<lambda>x. x) h (sset h p (sl_free_update f))" "gm (\<lambda>x. x) h (sset h p (sl_next_update g))"
    "gm (\<lambda>x. x) h (sset h p (sl_prev_update g))" "gm (\<lambda>x. x) h (alset h q k)" "gm (\<lambda>x. x) h (ctset h r l)"
    "gm (\<lambda>x. x) h (expand_loop h a b i n)"
  by (rule gm_sset expand_loop_gm)+ (auto simp: gm_def dest: alset_grows ctset_grows intro: expand_loop_gm [unfolded gm_def, rule_format])

lemma gm_bind_pair: "gm snd h m \<Longrightarrow> (\<And>p g. gm prj g (f p g)) \<Longrightarrow> gm prj h (Option.bind m (\<lambda>(p, g). f p g))"
  by (force simp: gm_def bind_eq_Some_conv intro: grows_trans)

lemma gm_bind_any: "(\<And>v. gm prj h (f v)) \<Longrightarrow> gm prj h (Option.bind m f)"
  by (auto simp: gm_def bind_eq_Some_conv)

lemma gm_case_alloc: "(\<And>p g. gm prj g (f p g)) \<Longrightarrow> gm prj h (case calloc_alloc h of (p, g) \<Rightarrow> f p g)"
  by (force simp: gm_def split: prod.split dest: calloc_alloc_grows intro: grows_trans)

lemma gm_case_pool: "(\<And>p g. gm prj g (f p g)) \<Longrightarrow> gm prj h (case calloc_pool h n of (p, g) \<Rightarrow> f p g)"
  by (force simp: gm_def split: prod.split dest: calloc_pool_grows intro: grows_trans)

lemma gm_if: "gm prj h m \<Longrightarrow> gm prj h m' \<Longrightarrow> gm prj h (if b then m else m')"
  by simp

lemma gm_ret: "prj r = h \<Longrightarrow> gm prj h (Some r)"
  by (simp add: gm_def grows_refl)

lemmas gm_rules = gm_prims gm_bind [OF gm_prims(1)] gm_bind [OF gm_prims(2)] gm_bind [OF gm_prims(3)] gm_bind [OF gm_prims(4)]
  gm_bind [OF gm_prims(5)] gm_bind [OF gm_prims(6)]
  gm_bind [OF gm_if] gm_bind_pair [OF gm_if] gm_case_alloc gm_case_pool gm_if

lemma nfa_alloc_expand_gm: "gm snd h (nfa_alloc_expand h alloc)"
  unfolding nfa_alloc_expand_def Let_def by (rule gm_rules gm_bind_any | rule gm_ret, simp)+

lemma init_loop_gm: "gm snd h (init_loop h pool prev i n)"
proof (induction "n - 1 - i" arbitrary: h prev i)
  case 0
  then have "\<not> i < n - 1" by simp
  then show ?case by (subst init_loop.simps) (simp add: gm_def grows_refl)
next
  case (Suc k)
  then have "i < n - 1" "k = n - 1 - (i + 1)" by simp_all
  then show ?case using Suc.hyps(1) [OF \<open>k = n - 1 - (i + 1)\<close>]
    by (subst init_loop.simps) (simp, (rule gm_rules)+, simp)
qed

lemma nfa_alloc_init_gm: "gm (\<lambda>h. h) h (nfa_alloc_init h ctrl n)"
  unfolding nfa_alloc_init_def Let_def
  by (rule gm_rules gm_bind_pair [OF init_loop_gm] gm_bind_any | rule gm_ret, simp)+

lemma nfa_alloc_gm: "gm (\<lambda>r. snd (snd r)) h (nfa_alloc h alloc)"
  unfolding nfa_alloc_def Let_def by (rule gm_rules nfa_alloc_expand_gm gm_bind_any | rule gm_ret, simp)+

lemma nfa_dealloc_gm: "gm (\<lambda>h. h) h (nfa_dealloc h alloc x)"
  unfolding nfa_dealloc_def Let_def by (rule gm_rules gm_bind_any | rule gm_ret, simp)+

section \<open>The nodes of a control block\<close>

definition nctx :: "addr \<Rightarrow> nheap \<Rightarrow> addr set \<Rightarrow> bool" where
  "nctx c h L \<longleftrightarrow> pool_ok c h L \<and> covered h \<and> (\<forall>a \<in> L. \<exists>n. nfa_at h a = Some n \<and> n_ctrl n = Some c) \<and>
     (\<forall>q \<ge> nbrk h. ranges h q = None) \<and> clean h"

lemma nctx_node: "nctx c h L \<Longrightarrow> a \<in> L \<Longrightarrow> \<exists>n. nfa_at h a = Some n \<and> n_ctrl n = Some c"
  by (simp add: nctx_def)

lemma nctx_nupd: "nctx c h L \<Longrightarrow> (\<And>n. (n_ctrl n = Some c \<longrightarrow> n_ctrl (f n) = Some c) \<and> (n_flags n = 0 \<longrightarrow> n_flags (f n) = 0)) \<Longrightarrow> nctx c (nupd h a f) L"
  by (auto simp: nctx_def)

text \<open>What a step leaves alone: the nodes of \<open>N\<close>, and every range that exists.\<close>

definition keeps :: "addr set \<Rightarrow> nheap \<Rightarrow> nheap \<Rightarrow> bool" where
  "keeps N h h' \<longleftrightarrow> (\<forall>a \<in> N. nfa_at h' a = nfa_at h a) \<and> (\<forall>q < nbrk h. ranges h' q = ranges h q) \<and> nbrk h \<le> nbrk h'"

lemma keeps_refl: "keeps N h h"
  by (simp add: keeps_def)

lemma keeps_trans: "keeps N h g \<Longrightarrow> keeps M g k \<Longrightarrow> N \<subseteq> M \<Longrightarrow> keeps N h k"
  by (force simp: keeps_def)

lemma keeps_nupd: "keeps N h g \<Longrightarrow> a \<notin> N \<Longrightarrow> keeps N h (nupd g a f)"
  by (auto simp: keeps_def)

lemma keeps_mono: "keeps N h g \<Longrightarrow> M \<subseteq> N \<Longrightarrow> keeps M h g"
  by (auto simp: keeps_def)

lemma pool_ok_ctrls:
  assumes "pool_ok c h L" "ctrls h c = Some C"
  shows "pool_ok c (h\<lparr>ctrls := (ctrls h)(c \<mapsto> C\<lparr>c_next_seq := i\<rparr>)\<rparr>) L"
  using assms by (simp add: pool_ok_def alloc_ok_ctrls)

lemma mark_nfa_ok:
  assumes C: "nctx c h L" and a: "a \<in> L"
  shows "\<exists>h' i. mark_nfa h (Some a) = Some h' \<and> nctx c h' L \<and> ranges h' = ranges h \<and> nbrk h' = nbrk h \<and>
    (\<forall>b. nfa_at h' b = nfa_at (nupd h a (n_id_update (\<lambda>_. i))) b)"
proof -
  obtain n where n: "nfa_at h a = Some n" "n_ctrl n = Some c" using nctx_node [OF C a] by blast
  obtain K where K: "ctrls h c = Some K" using C by (auto simp: nctx_def pool_ok_def)
  show ?thesis
  proof (cases "n_id n = 0")
    case True
    let ?g = "nupd h a (n_id_update (\<lambda>_. c_next_seq K))"
    let ?h = "?g\<lparr>ctrls := (ctrls ?g)(c \<mapsto> K\<lparr>c_next_seq := c_next_seq K + 1\<rparr>)\<rparr>"
    have e: "mark_nfa h (Some a) = Some ?h" using n K True by (simp add: mark_nfa_def ctget_def ctset_def)
    have g: "nctx c ?g L" by (rule nctx_nupd [OF C]) simp
    have "pool_ok c ?h L" by (rule pool_ok_ctrls) (use g K in \<open>simp_all add: nctx_def\<close>)
    then have "nctx c ?h L" using g by (simp add: nctx_def covered_def nfa_at_def)
    then show ?thesis using e by (intro exI [of _ ?h] exI [of _ "c_next_seq K"]) (simp add: nfa_at_def)
  next
    case False
    then have "mark_nfa h (Some a) = Some h" using n by (simp add: mark_nfa_def)
    moreover have "n_id_update (\<lambda>_. n_id n) n = n" by simp
    ultimately show ?thesis using C n by (intro exI [of _ h] exI [of _ "n_id n"]) simp
  qed
qed

lemma new_nfa_ok:
  assumes C: "nctx c h L"
  shows "\<exists>x h' n. new_nfa h (Some c) ty = Some (Some x, h') \<and> x \<notin> L \<and> nctx c h' (insert x L) \<and> keeps L h h' \<and>
    nfa_at h' x = Some n \<and> n_ctrl n = Some c \<and> n_type n = ty \<and> n_parent n = None \<and> n_out1 n = None \<and> n_out2 n = None \<and> n_id n = 0 \<and>
    ranges h' = ranges h"
proof -
  from C have P: "pool_ok c h L" by (simp add: nctx_def)
  from ctrl_alloc_ok [OF P] obtain x g where
    g: "ctrl_alloc c h = Some (x, g)" "x \<notin> L" "pool_ok c g (insert x L)" "same_world c h g" "slots g x \<noteq> None" by blast
  obtain m where m: "nfa_at g x = Some m" using g(5) by (auto simp: nfa_at_def)
  obtain K al k where K: "ctrls h c = Some K" "c_alloc K \<noteq> None" "nfa_alloc h (c_alloc K) = Some (Some x, al, k)"
      "ctset k (Some c) (c_alloc_update (\<lambda>_. al)) = Some g"
    using g(1) P by (auto simp: ctrl_alloc_def ctget_def pool_ok_def bind_eq_Some_conv)
  let ?h = "nupd (nupd (nupd (nupd g x (n_id_update (\<lambda>_. 0))) x (n_ctrl_update (\<lambda>_. Some c))) x (n_type_update (\<lambda>_. ty))) x
    (\<lambda>n. n\<lparr>n_parent := None, n_out1 := None, n_out2 := None\<rparr>)"
  have e: "new_nfa h (Some c) ty = Some (Some x, ?h)"
    using K m by (auto simp: new_nfa_def ctget_def)
  have gr: "grows h g"
    using nfa_alloc_gm [of h "c_alloc K"] K(3) ctset_grows [OF K(4)] by (auto simp: gm_def intro: grows_trans)
  have live: "\<And>a. a \<in> L \<Longrightarrow> nfa_at g a = nfa_at h a" using g(4) pool_live [OF P] by (auto simp: same_world_def)
  have r: "ranges g = ranges h" using g(4) by (simp add: same_world_def)
  have "nctx c ?h (insert x L)"
    using C g(3) gr live m r by (auto simp: nctx_def grows_def)
  moreover have "keeps L h ?h" using g(2) live r gr by (auto simp: keeps_def grows_def)
  ultimately show ?thesis using e g(2) m r by (intro exI [of _ x] exI [of _ ?h]) simp
qed

end
