(* ===== verification/ClosureCompile.thy ===== *)
theory ClosureCompile
  imports ClosureAll ClosureMpat NfaFrag
begin

text \<open>
  The whole of \<open>collect_adjacencies\<close> on an automaton as the constructors leave it: no flag is set and
  all lists of reachable nodes are empty.
\<close>

section \<open>Automata that differ in flags and lists only\<close>

definition same_graph :: "nheap \<Rightarrow> nheap \<Rightarrow> bool" where
  "same_graph h h' \<longleftrightarrow> ranges h' = ranges h \<and>
     (\<forall>a. map_option (n_flags_update (\<lambda>_. 0)) (nfa_at h' a) = map_option (n_flags_update (\<lambda>_. 0)) (nfa_at h a))"

lemma same_graph_refl: "same_graph h h"
  by (simp add: same_graph_def)

lemma same_graph_trans: "same_graph h g \<Longrightarrow> same_graph g k \<Longrightarrow> same_graph h k"
  by (simp add: same_graph_def)

lemma flags_eqD: "n_flags_update (\<lambda>_. 0) n = n_flags_update (\<lambda>_. 0) m \<Longrightarrow>
    n_type n = n_type m \<and> n_out1 n = n_out1 m \<and> n_out2 n = n_out2 m \<and> n_low n = n_low m \<and> n_lit n = n_lit m \<and> n_parent n = n_parent m"
  by (cases n; cases m) simp

lemma same_graphD: "same_graph h h' \<Longrightarrow> nfa_at h a = Some n \<Longrightarrow> \<exists>m. nfa_at h' a = Some m \<and>
    n_type m = n_type n \<and> n_out1 m = n_out1 n \<and> n_out2 m = n_out2 n \<and> n_low m = n_low n \<and> n_lit m = n_lit n \<and> n_parent m = n_parent n"
proof -
  assume "same_graph h h'" "nfa_at h a = Some n"
  then have e: "map_option (n_flags_update (\<lambda>_. 0)) (nfa_at h' a) = Some (n_flags_update (\<lambda>_. 0) n)" by (simp add: same_graph_def)
  then obtain m where m: "nfa_at h' a = Some m" "n_flags_update (\<lambda>_. 0) m = n_flags_update (\<lambda>_. 0) n" by (cases "nfa_at h' a") auto
  then show ?thesis using flags_eqD [OF m(2)] by blast
qed

lemma same_graphD_None: "same_graph h h' \<Longrightarrow> nfa_at h a = None \<Longrightarrow> nfa_at h' a = None"
  by (cases "nfa_at h' a") (auto simp: same_graph_def dest: spec [of _ a])

lemma same_graph_views:
  assumes "same_graph h h'"
  shows "ntype h' = ntype h" "nsuccs h' B = nsuccs h B" "branching h' = branching h" "leaf h' = leaf h"
    "reaches h' B = reaches h B" "follow h' B = follow h B" "inner h' = inner h" "accepts_in h' = accepts_in h"
proof -
  have t: "ntype h' x = ntype h x \<and> nsuccs h' B x = nsuccs h B x" for x
  proof (cases "nfa_at h x")
    case None
    then show ?thesis using same_graphD_None [OF assms] by (simp add: ntype_def nsuccs_def)
  next
    case (Some n)
    from same_graphD [OF assms Some] Some show ?thesis by (auto simp: ntype_def nsuccs_def)
  qed
  then show ty: "ntype h' = ntype h" and s: "nsuccs h' B = nsuccs h B" by auto
  from ty show b: "branching h' = branching h" by (auto simp: branching_def fun_eq_iff)
  with ty show l: "leaf h' = leaf h" by (auto simp: leaf_def fun_eq_iff)
  with s show r: "reaches h' B = reaches h B" by (auto simp: reaches_def walk_step_def fun_eq_iff)
  from l ty show "inner h' = inner h" "accepts_in h' = accepts_in h" by (auto simp: inner_def accepts_in_def fun_eq_iff)
  have "follow h' B x = follow h B x" for x
  proof (cases "nfa_at h x")
    case None
    then show ?thesis using same_graphD_None [OF assms] by (simp add: follow_def)
  next
    case (Some n)
    from same_graphD [OF assms Some] Some show ?thesis by (auto simp: follow_def l r)
  qed
  then show "follow h' B = follow h B" by auto
qed

lemma same_graph_node:
  assumes "same_graph h h'" "walk_node h B M rk x n"
  shows "\<exists>m. walk_node h' B M rk x m"
proof -
  from assms(2) have n: "nfa_at h x = Some n" by (simp add: walk_node_def)
  from same_graphD [OF assms(1) n] obtain m where m: "nfa_at h' x = Some m" "n_type m = n_type n" "n_out2 m = n_out2 n" "n_low m = n_low n" by blast
  have "walk_node h' B M rk x m" using assms(2) m unfolding walk_node_def same_graph_views(2) [OF assms(1)] by simp
  then show ?thesis ..
qed

lemma same_graph_walkable: "same_graph h h' \<Longrightarrow> walkable h B M rk \<Longrightarrow> walkable h' B M rk"
  unfolding walkable_def using same_graph_node by blast

lemma same_graph_ctx:
  assumes "same_graph (ps_nfa p) (ps_nfa q)" "ps_branch_stack q = ps_branch_stack p" "coll_ctx p B M rk b stk"
  shows "coll_ctx q B M rk b stk"
proof -
  have "n_low m \<noteq> UBranches (Some stk)" if m: "nfa_at (ps_nfa q) x = Some m" "n_type m = NFA_TREE" and x: "x \<in> M" for x m
  proof -
    obtain n where n: "nfa_at (ps_nfa p) x = Some n" using same_graphD_None [OF assms(1), of x] m(1) by fastforce
    from same_graphD [OF assms(1) n] m have "n_type n = NFA_TREE" "n_low m = n_low n" by auto
    then show ?thesis using assms(3) n x by (auto simp: coll_ctx_def)
  qed
  then show ?thesis using assms same_graph_walkable [OF assms(1)] by (simp add: coll_ctx_def same_graph_views(1) [OF assms(1)])
qed

lemma same_graph_with_flags: "same_graph h ((with_flags fl h)\<lparr>reach := R\<rparr>)"
  by (auto simp: same_graph_def with_flags_def nfa_at_def option.map_comp comp_def)

lemma same_graph_reach: "same_graph h (h\<lparr>reach := R\<rparr>)"
  by (simp add: same_graph_def nfa_at_def)

section \<open>A state is given by its flags and lists\<close>

definition nflags :: "nheap \<Rightarrow> addr \<Rightarrow> u32" where
  "nflags h a = (case nfa_at h a of None \<Rightarrow> 0 | Some n \<Rightarrow> n_flags n)"

lemma with_nflags: "with_flags (nflags h) h = h"
proof -
  have "map_option (\<lambda>s. s\<lparr>sl_nfa := (sl_nfa s)\<lparr>n_flags := nflags h a\<rparr>\<rparr>) (slots h a) = slots h a" for a
    by (cases "slots h a") (simp_all add: nflags_def nfa_at_def)
  then show ?thesis by (simp add: with_flags_def)
qed

lemma walk_state_self: "p = walk_state p (nflags (ps_nfa p)) (reach (ps_nfa p)) (ps_recursion p)"
  by (simp add: walk_state_def with_nflags)

lemma coll_state_self: "p = coll_state p (ps_lists p) (nflags (ps_nfa p)) (reach (ps_nfa p)) (ps_recursion p)"
  using walk_state_self [of p] by (simp add: coll_state_def)

lemma nflags_coll: "nfa_at (ps_nfa p) a \<noteq> None \<Longrightarrow> nflags (ps_nfa (coll_state p S fl R r)) a = fl a"
  by (cases "slots (ps_nfa p) a") (auto simp: coll_state_def walk_state_def with_flags_def nflags_def nfa_at_def)

lemma same_graph_coll: "same_graph (ps_nfa p) (ps_nfa (coll_state p S fl R r))"
  using same_graph_with_flags by (simp add: coll_state_def walk_state_def)

lemma clean_nflags: "clean h \<Longrightarrow> nflags h = (\<lambda>_. 0)"
  by (auto simp: nflags_def fun_eq_iff split: option.split dest: clean_at)

section \<open>Empty lists\<close>

definition empty_lists :: "'a lheap \<Rightarrow> 'a lview" where
  "empty_lists h = (\<lambda>a. map_option (\<lambda>_. ([], 0)) (lists h a))"

lemma empty_lists_view:
  assumes "\<And>a L. lists h a = Some L \<Longrightarrow> a < brk h \<and> L\<lparr>l_iter := SNull, l_iter_idx := 0\<rparr> = zero_list" "items h = (\<lambda>_. None)"
  shows "view h (empty_lists h)"
proof -
  let ?R = "\<lambda>a. map_option (\<lambda>_. ([], [])) (lists h a)"
  have "list_rep h a [] []" if "lists h a = Some L" for a L
  proof -
    have "l_size L = 0 \<and> l_pool_size L = 0 \<and> l_head L = None \<and> l_pool L = None \<and> l_tail L = None"
      using assms(1) [OF that] by (cases L) (simp add: zero_list_def)
    then show ?thesis using that by (simp add: list_rep_def)
  qed
  moreover have "heap_ok h"
    using assms(2) assms(1) unfolding heap_ok_def by (metis linorder_not_le option.exhaust)
  moreover have "dom ?R = dom (lists h)" by auto
  ultimately have "store_rep h ?R" unfolding store_rep_def by auto
  moreover have "empty_lists h = (\<lambda>a. map_option (\<lambda>(as, qs). (datas h as, length qs)) (?R a))"
    by (auto simp: empty_lists_def fun_eq_iff option.map_comp comp_def)
  ultimately show ?thesis unfolding view_def by blast
qed

lemma new_temp_list_view:
  assumes "clean (ps_nfa p)" "new_temp_list p = (tmp, q)"
  shows "tmp = nbrk (ps_nfa p)" "view (reach (ps_nfa q)) (empty_lists (reach (ps_nfa q)))" "same_graph (ps_nfa p) (ps_nfa q)"
    "nflags (ps_nfa q) = (\<lambda>_. 0)" "ps_lists q = ps_lists p" "ps_branch_stack q = ps_branch_stack p" "ps_recursion q = ps_recursion p"
    "\<And>a. lists (reach (ps_nfa p)) a \<noteq> None \<or> a = tmp \<Longrightarrow> empty_lists (reach (ps_nfa q)) a = Some ([], 0)"
proof -
  let ?h = "ps_nfa p"
  let ?R = "(reach ?h)\<lparr>lists := (lists (reach ?h))(nbrk ?h \<mapsto> zero_list\<lparr>l_iter_idx := -1, l_iter := SHead (nbrk ?h)\<rparr>), brk := max (brk (reach ?h)) (nbrk ?h + 1)\<rparr>"
  have q: "tmp = nbrk ?h" "q = p\<lparr>ps_nfa := ?h\<lparr>reach := ?R, nbrk := nbrk ?h + 1\<rparr>\<rparr>"
    using assms(2) unfolding new_temp_list_def Let_def by auto
  show "tmp = nbrk ?h" "ps_lists q = ps_lists p" "ps_branch_stack q = ps_branch_stack p" "ps_recursion q = ps_recursion p" using q by simp_all
  have n: "nfa_at (ps_nfa q) a = nfa_at ?h a" for a using q(2) by (simp add: nfa_at_def)
  show "same_graph ?h (ps_nfa q)" using n q(2) by (simp add: same_graph_def)
  show "nflags (ps_nfa q) = (\<lambda>_. 0)" using clean_nflags [OF assms(1)] n by (simp add: nflags_def fun_eq_iff)
  show "view (reach (ps_nfa q)) (empty_lists (reach (ps_nfa q)))"
  proof (rule empty_lists_view)
    show "items (reach (ps_nfa q)) = (\<lambda>_. None)" using assms(1) q(2) by (simp add: clean_def)
    show "a < brk (reach (ps_nfa q)) \<and> L\<lparr>l_iter := SNull, l_iter_idx := 0\<rparr> = zero_list" if "lists (reach (ps_nfa q)) a = Some L" for a L
    proof (cases "a = nbrk ?h")
      case True
      then have "L = zero_list\<lparr>l_iter_idx := -1, l_iter := SHead (nbrk ?h)\<rparr>" using that q(2) by simp
      then show ?thesis using True q(2) by (simp add: zero_list_def less_max_iff_disj)
    next
      case False
      then have l: "lists (reach ?h) a = Some L" using that q(2) by simp
      then have "L = zero_list" "a < brk (reach ?h)" using assms(1) by (simp_all add: clean_def)
      then show ?thesis using q(2) by (simp add: zero_list_def less_max_iff_disj)
    qed
  qed
  show "empty_lists (reach (ps_nfa q)) a = Some ([], 0)" if "lists (reach ?h) a \<noteq> None \<or> a = tmp" for a
    using that q by (auto simp: empty_lists_def)
qed

lemma free_list_view:
  assumes "view h V" "V p = Some (xs, n)"
  shows "\<exists>h'. free_list h (Some p) = Some h' \<and> view h' (V(p := None))"
proof -
  from assms(1) obtain R where S: "store_rep h R" and VR: "V = (\<lambda>p. map_option (\<lambda>(as, qs). (datas h as, length qs)) (R p))"
    by (auto simp: view_def)
  have "R p \<noteq> None" using assms(2) VR by auto
  then obtain L where L: "lists h p = Some L" using S unfolding store_rep_def by blast
  let ?h = "h\<lparr>lists := (lists h)(p := None)\<rparr>"
  have d: "datas ?h as = datas h as" for as by (simp add: datas_def)
  have "list_rep ?h q as qs" if "(R(p := None)) q = Some (as, qs)" for q as qs
  proof -
    have "q \<noteq> p" "R q = Some (as, qs)" using that by (auto split: if_splits)
    then have "list_rep h q as qs" using S by (simp add: store_rep_def)
    then show ?thesis using \<open>q \<noteq> p\<close> by (auto simp: list_rep_def)
  qed
  moreover have "heap_ok ?h" using S by (auto simp: store_rep_def heap_ok_def)
  moreover have "dom (R(p := None)) = dom (lists ?h)" using S by (auto simp: store_rep_def)
  ultimately have "store_rep ?h (R(p := None))" using S unfolding store_rep_def by (auto split: if_splits)
  then have "view ?h (V(p := None))" using VR unfolding view_def by (intro exI [of _ "R(p := None)"]) (auto simp: d)
  then show ?thesis using L by (simp add: free_list_def)
qed

section \<open>The start node\<close>

definition collect_first :: "nat \<Rightarrow> parser \<Rightarrow> ptr \<Rightarrow> (addr \<times> parser) option" where
  "collect_first k p start = do {
     let (tmp, p) = new_temp_list p;
     p \<leftarrow> collect_adjacencies_helper k start start None p;
     (_, p) \<leftarrow> pl_op p (\<lambda>lh. list_append lh (ps_branch_stack p) start);
     Some (tmp, p) }"

lemma collect_adjacencies_first: "collect_adjacencies k p (Some s) tot = do {
     (tmp, p) \<leftarrow> collect_first k p (Some s);
     p \<leftarrow> compute_mpat_tables k p (Some s);
     (_, p) \<leftarrow> pl_op p (\<lambda>lh. list_set_iterator lh (ps_branch_stack p) 0);
     p \<leftarrow> collect_loop k (Some tmp) tot 0 p;
     (_, p) \<leftarrow> pr_op p (\<lambda>lh. map_option (Pair ()) (free_list lh (Some tmp)));
     Some p }"
  by (simp add: collect_adjacencies_def collect_first_def Let_def Option.bind_assoc split: prod.split)
    (simp add: case_prod_unfold Option.bind_assoc)

text \<open>Nodes in order: everything is empty but the list of the start.\<close>

definition begun :: "nheap \<Rightarrow> addr lview \<Rightarrow> addr set \<Rightarrow> addr \<Rightarrow> addr \<Rightarrow> (addr \<Rightarrow> u32) \<Rightarrow> addr lview \<Rightarrow> bool" where
  "begun h B M start tmp fl V \<longleftrightarrow> closing h B M start [] fl V \<and> V tmp = Some ([], 0)"

lemma collect_first_begun:
  assumes ctx: "coll_ctx p B M rk b stk" and start: "start \<in> M" "\<not> leaf (ps_nfa p) start" and cl: "clean (ps_nfa p)"
    and lst: "\<forall>x \<in> M. lists (reach (ps_nfa p)) x \<noteq> None" and tmp: "nbrk (ps_nfa p) \<notin> M"
    and S: "view (ps_lists p) (B(stk \<mapsto> ([], ns)))"
    and k: "card {x \<in> M. branching (ps_nfa p) x} * (b + 2) + b + 2 \<le> k"
  shows "\<exists>p2 V ns'. collect_first k p (Some start) = Some (nbrk (ps_nfa p), p2) \<and> same_graph (ps_nfa p) (ps_nfa p2) \<and>
    ps_branch_stack p2 = Some stk \<and> view (ps_lists p2) (B(stk \<mapsto> ([Some start], ns'))) \<and> view (reach (ps_nfa p2)) V \<and>
    begun (ps_nfa p) B M start (nbrk (ps_nfa p)) (nflags (ps_nfa p2)) V"
proof -
  let ?h = "ps_nfa p"
  obtain t p1 where t: "new_temp_list p = (t, p1)" by fastforce
  note t1 = new_temp_list_view [OF cl t]
  let ?E = "empty_lists (reach (ps_nfa p1))"
  note G = same_graph_views [OF t1(3)]
  have ctx1: "coll_ctx p1 B M rk b stk" by (rule same_graph_ctx [OF t1(3) t1(6) ctx])
  have stk: "ps_branch_stack p = Some stk" using ctx by (simp add: coll_ctx_def)
  from start(1) ctx obtain n where n: "nfa_at ?h start = Some n" by (auto simp: coll_ctx_def walkable_def walk_node_def)
  then obtain n1 where n1: "nfa_at (ps_nfa p1) start = Some n1" using same_graphD [OF t1(3)] by blast
  have inv: "walk_inv p1 (B(stk \<mapsto> ([], ns))) M rk b start"
    using walkable_stack [OF ctx1] ctx1 S start n1 t1(5) unfolding walk_inv_def by (auto simp: coll_ctx_def)
  have fuel: "walk_fuel (ps_nfa p1) M rk b {} (Some start) \<le> k"
    using k ctx start(1) by (auto simp: walk_fuel_def G coll_ctx_def)
  have W: "walks p1 (B(stk \<mapsto> ([], ns))) M ?E start {} (Some start) (collect_adjacencies_helper k)"
    by (rule helper_walks [OF inv _ fuel]) (use start in simp)
  have m: "marks (ps_nfa p1) M start {} (\<lambda>_. 0)" using start(2) by (simp add: marks_def G)
  have E: "?E x = Some ([], 0)" if "x \<in> M \<or> x = t" for x using t1(8) [of x] lst that by auto
  have V0: "view (reach (ps_nfa p1)) (?E(start \<mapsto> (map Some [], 0)))" using t1(2) E start(1) by (simp add: fun_upd_idem)
  have self: "p1 = walk_state p1 (\<lambda>_. 0) (reach (ps_nfa p1)) (ps_recursion p1)" using walk_state_self [of p1] t1(4) by simp
  let ?Y = "reaches ?h B {} (Some start)"
  have r: "reaches (ps_nfa p1) (B(stk \<mapsto> ([], ns))) {} (Some start) = ?Y" using reaches_stack [OF ctx1, of "Some start"] start(1) G by simp
  have wr: "walk_result p1 ?E start ?Y (\<lambda>_. 0) [] (ps_recursion p1) (collect_adjacencies_helper k (Some start) (Some start) None p1)"
    using walksD [OF W m V0, of "ps_recursion p1"] r self by simp
  obtain fl R xs n2 where w: "collect_adjacencies_helper k (Some start) (Some start) None p1 = Some (walk_state p1 fl R (ps_recursion p1))"
    "view R (?E(start \<mapsto> (map Some xs, n2)))" "collected ?Y [] xs" "flags_kept (ps_nfa p1) start (\<lambda>_. 0) fl"
    "bit (fl start) 3 \<longleftrightarrow> bit (0 :: u32) 3 \<or> accepts_in (ps_nfa p1) ?Y"
    by (rule walk_resultE [OF wr]) (rule that, simp_all)
  from list_append_view [OF S, of stk "[]" ns "Some start"] obtain S1 where
    S1: "list_append (ps_lists p) (Some stk) (Some start) = Some (0, S1)" "view S1 (B(stk \<mapsto> ([Some start], ns - 1)))" by auto
  let ?p2 = "coll_state p1 S1 fl R (ps_recursion p1)"
  have run: "collect_first k p (Some start) = Some (nbrk ?h, ?p2)"
    using t w(1) S1(1) stk t1(1, 5, 6) by (simp add: collect_first_def coll_state_def walk_state_def pl_op_def)
  have sg: "same_graph ?h (ps_nfa ?p2)" using same_graph_trans [OF t1(3) same_graph_coll] .
  have at: "nfa_at (ps_nfa p1) x \<noteq> None" if "x \<in> M" for x
    using ctx1 that by (auto simp: coll_ctx_def walkable_def walk_node_def)
  have nf: "nflags (ps_nfa ?p2) x = fl x" if "x \<in> M" for x using nflags_coll [OF at [OF that]] .
  have bits: "\<not> bit (fl x) i" if "x \<noteq> start \<or> i \<noteq> 3 \<and> i \<noteq> 1" "ntype ?h x \<noteq> NFA_EPSILON \<or> i \<noteq> 2" for x i
    using w(4) that by (auto simp: flags_kept_def G)
  let ?V = "?E(start \<mapsto> (map Some xs, n2))"
  have fo: "follow ?h B start = ?Y" using start(2) n by (simp add: follow_def)
  have "closing ?h B M start [] (nflags (ps_nfa ?p2)) ?V"
    unfolding closing_def
  proof (intro conjI ballI impI)
    show "\<not> bit (nflags (ps_nfa ?p2) x) 2" if "x \<in> M" "branching ?h x" for x
      using bits [of x 2] nf [OF that(1)] that by (auto simp: branching_def nfa_types)
    show "filled ?h B (nflags (ps_nfa ?p2)) ?V start"
      using w(3, 5) nf [OF start(1)] by (auto simp: filled_def fo collected_def G)
    show "fresh (nflags (ps_nfa ?p2)) ?V x" if "x \<in> inner ?h M - set []" for x
    proof -
      have x: "x \<in> M" "x \<noteq> start" "ntype ?h x \<noteq> NFA_EPSILON" using that start(2) by (auto simp: inner_def leaf_def)
      then show ?thesis using bits [of x 0] bits [of x 3] nf [OF x(1)] E [of x] by (simp add: fresh_def)
    qed
  qed simp_all
  moreover have "?V (nbrk ?h) = Some ([], 0)" using E [of t] t1(1) tmp start(1) by auto
  ultimately have "begun ?h B M start (nbrk ?h) (nflags (ps_nfa ?p2)) ?V" by (simp add: begun_def)
  then show ?thesis using run sg S1(2) w(2) stk t1(6) by (intro exI [of _ ?p2] exI [of _ ?V] exI [of _ "ns - 1"]) simp
qed

section \<open>All nodes\<close>

definition follows :: "nheap \<Rightarrow> addr lview \<Rightarrow> (addr \<times> addr) set" where
  "follows h B = {(x, y). ntype h x \<noteq> NFA_ACCEPTING \<and> y \<in> follow h B x}"

text \<open>Every node that can be reached and does not accept has its closure.\<close>

definition all_filled :: "nheap \<Rightarrow> addr lview \<Rightarrow> addr \<Rightarrow> (addr \<Rightarrow> u32) \<Rightarrow> addr lview \<Rightarrow> bool" where
  "all_filled h B start fl V \<longleftrightarrow> (\<forall>x. (start, x) \<in> (follows h B)\<^sup>* \<longrightarrow> ntype h x \<noteq> NFA_ACCEPTING \<longrightarrow> filled h B fl V x)"

lemma closing_all:
  assumes c: "closing h B M start ys fl V" and M: "walkable h B M rk" "start \<in> M" "\<not> leaf h start"
    and d: "\<forall>x \<in> set (start # ys). \<forall>y \<in> follow h B x. bit (fl y) 0"
  shows "all_filled h B start fl V"
proof -
  have "ntype h x = NFA_ACCEPTING \<or> x \<in> set (start # ys)" if "(start, x) \<in> (follows h B)\<^sup>*" for x
    using that
  proof (induction rule: rtrancl_induct)
    case (step y z)
    then have y: "ntype h y \<noteq> NFA_ACCEPTING" "z \<in> follow h B y" "y \<in> set (start # ys)" by (auto simp: follows_def)
    then have "y \<in> M" using c M(2) by (auto simp: closing_def inner_def)
    then have z: "z \<in> M" "leaf h z" "bit (fl z) 0" using follow_in [OF M(1) _ y(1)] follow_leaf y d by blast+
    then have "ntype h z \<noteq> NFA_ACCEPTING \<Longrightarrow> z \<in> set ys" using c by (auto simp: closing_def inner_def fresh_def)
    then show ?case by auto
  qed simp
  then show ?thesis unfolding all_filled_def using closing_filled [OF c] by blast
qed

lemma filled_flags: "filled h B fl V x \<Longrightarrow> fl' x = fl x \<Longrightarrow> filled h B fl' V x"
  by (simp add: filled_def)

lemma follows_in:
  assumes "walkable h B M rk" "start \<in> M" "(start, x) \<in> (follows h B)\<^sup>*"
  shows "x \<in> M"
  using assms(3)
proof (induction rule: rtrancl_induct)
  case (step y z)
  then show ?case using follow_in [OF assms(1), of y] by (auto simp: follows_def)
qed (rule assms(2))

lemma collect_all:
  assumes ctx: "coll_ctx p B M rk b stk" and start: "start \<in> M" "\<not> leaf (ps_nfa p) start" and cl: "clean (ps_nfa p)"
    and lst: "\<forall>x \<in> M. lists (reach (ps_nfa p)) x \<noteq> None" and tmp: "nbrk (ps_nfa p) \<notin> M"
    and S: "view (ps_lists p) (B(stk \<mapsto> ([], ns)))"
    and k: "card {x \<in> M. branching (ps_nfa p) x} * (b + 2) + b + 2 \<le> k" and tot: "int (card (inner (ps_nfa p) M)) \<le> tot"
    and mp: "case collect_first k p (Some start) of None \<Rightarrow> True | Some (tmp, q) \<Rightarrow> \<not> Option.is_none (compute_mpat_tables k q (Some start))"
  shows "\<exists>p' V. collect_adjacencies k p (Some start) tot = Some p' \<and> same_graph (ps_nfa p) (ps_nfa p') \<and> view (reach (ps_nfa p')) V \<and>
    all_filled (ps_nfa p) B start (nflags (ps_nfa p')) V"
proof -
  let ?h = "ps_nfa p" let ?t = "nbrk ?h"
  from collect_first_begun [OF ctx start cl lst tmp S k] obtain p2 V ns' where
    2: "collect_first k p (Some start) = Some (?t, p2)" "same_graph ?h (ps_nfa p2)" "ps_branch_stack p2 = Some stk"
    "view (ps_lists p2) (B(stk \<mapsto> ([Some start], ns')))" "view (reach (ps_nfa p2)) V" "begun ?h B M start ?t (nflags (ps_nfa p2)) V" by blast
  from mp 2(1) obtain p3 where 3: "compute_mpat_tables k p2 (Some start) = Some p3" by (auto simp: Option.is_none_def)
  from compute_mpat_tables_keeps [OF 3] obtain R S3 pr pt where
    p3: "p3 = p2\<lparr>ps_nfa := (ps_nfa p2)\<lparr>reach := R\<rparr>, ps_lists := S3, ps_print := pr, ps_pats := pt\<rparr>"
    "cursors_moved (reach (ps_nfa p2)) R" "cursors_moved (ps_lists p2) S3" unfolding mpat_keeps_def by (elim exE conjE) (rule that)
  have h3: "ps_branch_stack p3 = Some stk" "nflags (ps_nfa p3) = nflags (ps_nfa p2)" "view (reach (ps_nfa p3)) V"
    "view (ps_lists p3) (B(stk \<mapsto> ([Some start], ns')))"
    using p3(1) 2(3) cursors_moved_view [OF 2(5) p3(2)] cursors_moved_view [OF 2(4) p3(3)]
    by (simp_all add: nflags_def nfa_at_def fun_eq_iff)
  have sg: "same_graph ?h (ps_nfa p3)" using same_graph_trans [OF 2(2) same_graph_reach] p3(1) by simp
  note G = same_graph_views [OF sg]
  have "(B(stk \<mapsto> ([Some start], ns'))) stk = Some ([Some start], ns')" by simp
  from list_set_iterator_0 [OF h3(4) this] obtain S4 where
    4: "list_set_iterator (ps_lists p3) (Some stk) 0 = Some (1, S4)" "view S4 (B(stk \<mapsto> ([Some start], ns')))" "cursor_at S4 stk 0" by (auto simp del: fun_upd_apply)
  let ?p4 = "coll_state p3 S4 (nflags (ps_nfa p3)) (reach (ps_nfa p3)) (ps_recursion p3)"
  have p4: "p3\<lparr>ps_lists := S4\<rparr> = ?p4"
    by (simp add: coll_state_def walk_state_def with_nflags)
  have ctx3: "coll_ctx p3 B M rk b stk" using same_graph_ctx [OF sg _ ctx] h3(1) ctx by (simp add: coll_ctx_def)
  have c3: "closing (ps_nfa p3) B M start [] (nflags (ps_nfa p3)) V"
    using 2(6) unfolding begun_def closing_def filled_def G h3(2) by simp
  have s3: "\<not> leaf (ps_nfa p3) start" "card {x \<in> M. branching (ps_nfa p3) x} * (b + 2) + b + 2 \<le> k" "int (card (inner (ps_nfa p3) M)) \<le> tot"
    using start(2) k tot by (simp_all add: G)
  have S4: "view S4 (B(stk \<mapsto> (map Some (start # []), ns')))" using 4(2) by simp
  from collect_loop_closes [OF ctx3 s3(1) start(1) s3(2, 3) c3 h3(3) S4 4(3), where tmp = "Some ?t" and ?V0.0 = V and r = "ps_recursion p3"]
  obtain S' fl' R' V' ys' where
    5: "collect_loop k (Some ?t) tot 0 ?p4 = Some (coll_state p3 S' fl' R' (ps_recursion p3))"
    "closing (ps_nfa p3) B M start ys' fl' V'" "view R' V'" "outside M V V'"
    "\<forall>x \<in> set (start # ys'). \<forall>y \<in> follow (ps_nfa p3) B x. bit (fl' y) 0" by (auto simp: outside_def)
  have W3: "walkable (ps_nfa p3) B M rk" using ctx3 by (simp add: coll_ctx_def)
  have V't: "V' ?t = Some ([], 0)" using 5(4) tmp 2(6) by (simp add: outside_def begun_def)
  from free_list_view [OF 5(3) V't] obtain R'' where 6: "free_list R' (Some ?t) = Some R''" "view R'' (V'(?t := None))" by blast
  let ?p' = "coll_state p3 S' fl' R'' (ps_recursion p3)"
  have "pr_op (coll_state p3 S' fl' R' (ps_recursion p3)) (\<lambda>lh. map_option (Pair ()) (free_list lh (Some ?t))) = Some ((), ?p')"
    using pr_op_walk [of "p3\<lparr>ps_lists := S'\<rparr>"] 6(1) by (simp add: coll_state_def)
  then have run: "collect_adjacencies k p (Some start) tot = Some ?p'"
    unfolding collect_adjacencies_first using 2(1) 3 4(1) 5(1) h3(1) p4 by (simp add: pl_op_def)
  have sg': "same_graph ?h (ps_nfa ?p')" using same_graph_trans [OF sg same_graph_coll] .
  have at: "nfa_at (ps_nfa p3) x \<noteq> None" if "x \<in> M" for x using W3 that by (auto simp: walkable_def walk_node_def)
  have af: "all_filled (ps_nfa p3) B start fl' V'" by (rule closing_all [OF 5(2) W3 start(1) s3(1) 5(5)])
  have "all_filled ?h B start (nflags (ps_nfa ?p')) (V'(?t := None))"
    unfolding all_filled_def
  proof (intro allI impI)
    fix x
    assume x: "(start, x) \<in> (follows ?h B)\<^sup>*" "ntype ?h x \<noteq> NFA_ACCEPTING"
    then have x3: "(start, x) \<in> (follows (ps_nfa p3) B)\<^sup>*" "ntype (ps_nfa p3) x \<noteq> NFA_ACCEPTING" by (simp_all add: follows_def G)
    have xM: "x \<in> M" by (rule follows_in [OF W3 start(1) x3(1)])
    have "filled ?h B fl' V' x" using af x3 unfolding all_filled_def filled_def G by blast
    moreover have "nflags (ps_nfa ?p') x = fl' x" using nflags_coll [OF at [OF xM]] .
    moreover have "x \<noteq> ?t" using xM tmp by blast
    ultimately show "filled ?h B (nflags (ps_nfa ?p')) (V'(?t := None)) x" by (simp add: filled_def)
  qed
  then show ?thesis using run sg' 6(2) by (intro exI [of _ ?p'] exI [of _ "V'(?t := None)"]) simp
qed

end
