(* ===== verification/NfaThompson.thy ===== *)
theory NfaThompson
  imports NfaFrag
begin

text \<open>
  The constructors of \<open>src/nfa.c\<close> as Thompson's construction: the graph of a heap of nodes, and for
  every constructor the language of the fragment it builds. Line ends never match \<open>.\<close> or a bracket
  expression, and a null byte ends the input, so it matches nothing.
\<close>

section \<open>The graph of the heap\<close>

definition sx :: "byte \<Rightarrow> u32" where
  "sx c = word_of_int (sint c)"

definition eps_to :: "ptr \<Rightarrow> (byte set option \<times> addr) set" where
  "eps_to p = (\<lambda>y. (None, y)) ` set_option p"

definition chr_to :: "byte set \<Rightarrow> ptr \<Rightarrow> (byte set option \<times> addr) set" where
  "chr_to P p = (\<lambda>y. (Some P, y)) ` set_option p"

definition range_chars :: "byte \<Rightarrow> block list \<Rightarrow> byte set" where
  "range_chars eol bm = {c. c \<noteq> 0 \<and> c \<noteq> eol \<and> is_literal_in_range bm (sx c) = Some True}"

definition node_chars :: "byte \<Rightarrow> nheap \<Rightarrow> nfa \<Rightarrow> byte set" where
  "node_chars eol h n = (if n_type n = NFA_LITERAL then {c. c \<noteq> 0 \<and> sx c = n_lit n}
     else if n_type n = NFA_ANY then {c. c \<noteq> 0 \<and> c \<noteq> eol}
     else if n_type n = NFA_RANGE then (case n_low n of URange (Some q) \<Rightarrow> (case ranges h q of Some bm \<Rightarrow> range_chars eol bm | None \<Rightarrow> {}) | _ \<Rightarrow> {})
     else {})"

definition node_edges :: "byte \<Rightarrow> nheap \<Rightarrow> nfa \<Rightarrow> (byte set option \<times> addr) set" where
  "node_edges eol h n = (if n_type n = NFA_EPSILON then eps_to (n_out2 n)
     else if n_type n = NFA_SPLIT then eps_to (n_out1 n) \<union> eps_to (n_out2 n)
     else if n_type n = NFA_LITERAL \<or> n_type n = NFA_ANY \<or> n_type n = NFA_RANGE then chr_to (node_chars eol h n) (n_out2 n)
     else {})"

definition nedges :: "byte \<Rightarrow> nheap \<Rightarrow> (addr, byte) graph" where
  "nedges eol h x = (case nfa_at h x of None \<Rightarrow> {} | Some n \<Rightarrow> node_edges eol h n)"

lemma eps_to_simps [simp]: "eps_to None = {}" "eps_to (Some y) = {(None, y)}"
  by (simp_all add: eps_to_def)

lemma nedges_at: "nfa_at h x = Some n \<Longrightarrow> nedges eol h x = node_edges eol h n"
  by (simp add: nedges_def)

lemma edges_epsilon: "n_type n = NFA_EPSILON \<Longrightarrow> node_edges eol h n = eps_to (n_out2 n)"
  by (simp add: node_edges_def)

lemma edges_split: "n_type n = NFA_SPLIT \<Longrightarrow> node_edges eol h n = eps_to (n_out1 n) \<union> eps_to (n_out2 n)"
  by (simp add: node_edges_def nfa_types)

lemma edges_accepting: "n_type n = NFA_ACCEPTING \<Longrightarrow> node_edges eol h n = {}"
  by (simp add: node_edges_def nfa_types)

lemmas edge_simps = edges_epsilon edges_split edges_accepting

lemma edges_chars: "n_type n \<in> {NFA_LITERAL, NFA_ANY, NFA_RANGE} \<Longrightarrow> n_out2 n = Some y \<Longrightarrow>
    node_edges eol h n = {(Some (node_chars eol h n), y)}"
  by (auto simp: node_edges_def chr_to_def nfa_types)

text \<open>The types that the constructors below give a node; ranges are allocated before the break.\<close>

definition node_ok :: "nheap \<Rightarrow> nfa \<Rightarrow> bool" where
  "node_ok h n \<longleftrightarrow> n_type n \<in> {NFA_EPSILON, NFA_SPLIT, NFA_LITERAL, NFA_ANY, NFA_RANGE, NFA_ACCEPTING} \<and>
     (n_type n = NFA_RANGE \<longrightarrow> (\<exists>q < nbrk h. n_low n = URange (Some q)))"

lemma node_ok_edges: "node_ok h n \<Longrightarrow> \<forall>q < nbrk h. ranges g q = ranges h q \<Longrightarrow> node_edges eol g n = node_edges eol h n"
  by (auto simp: node_ok_def node_edges_def node_chars_def)

section \<open>Fragments of the heap\<close>

text \<open>\<open>falls rk h N\<close>: following epsilon nodes ends.\<close>

definition falls :: "(addr \<Rightarrow> nat) \<Rightarrow> nheap \<Rightarrow> addr set \<Rightarrow> bool" where
  "falls rk h N \<longleftrightarrow> (\<forall>x \<in> N. \<forall>n. nfa_at h x = Some n \<and> n_type n = NFA_EPSILON \<longrightarrow> (\<exists>y \<in> N. n_out2 n = Some y \<and> rk y < rk x))"

definition nfrag :: "byte \<Rightarrow> nheap \<Rightarrow> addr set \<Rightarrow> addr \<Rightarrow> addr \<Rightarrow> byte list set \<Rightarrow> bool" where
  "nfrag eol h N s a W \<longleftrightarrow> frag (nedges eol h) N s a \<and> flang (nedges eol h) s a = W \<and>
     (\<forall>x \<in> N. \<exists>n. nfa_at h x = Some n \<and> node_ok h n) \<and> (\<exists>rk. falls rk h N) \<and>
     (\<exists>n. nfa_at h a = Some n \<and> n_type n = NFA_ACCEPTING \<and> n_parent n = Some s)"

lemma nfrag_ends: "nfrag eol h N s a W \<Longrightarrow> s \<in> N \<and> a \<in> N \<and> s \<noteq> a"
  using frag_ends [of "nedges eol h" N s a] by (simp add: nfrag_def)

lemma nfrag_end: "nfrag eol h N s a W \<Longrightarrow> \<exists>n. nfa_at h a = Some n \<and> n_type n = NFA_ACCEPTING \<and> n_parent n = Some s"
  by (simp add: nfrag_def)

lemma keeps_edges:
  assumes "\<forall>x \<in> N. \<exists>n. nfa_at h x = Some n \<and> node_ok h n" "keeps N h g"
  shows "\<forall>x \<in> N. nedges eol g x = nedges eol h x"
proof
  fix x assume x: "x \<in> N"
  then obtain n where n: "nfa_at h x = Some n" "node_ok h n" using assms(1) by blast
  have g: "nfa_at g x = Some n" "\<forall>q < nbrk h. ranges g q = ranges h q" using x n(1) assms(2) by (auto simp: keeps_def)
  show "nedges eol g x = nedges eol h x"
    unfolding nedges_at [OF n(1)] nedges_at [OF g(1)] by (rule node_ok_edges [OF n(2) g(2)])
qed

lemma node_ok_mono: "node_ok h n \<Longrightarrow> nbrk h \<le> nbrk g \<Longrightarrow> node_ok g n"
  unfolding node_ok_def by (meson less_le_trans)

lemma nfrag_keeps:
  assumes F: "nfrag eol h N s a W" and K: "keeps N h g"
  shows "nfrag eol g N s a W"
proof -
  have e: "\<forall>x \<in> N. nedges eol g x = nedges eol h x" by (rule keeps_edges [OF _ K]) (use F in \<open>simp add: nfrag_def\<close>)
  have n: "\<forall>x \<in> N. nfa_at g x = nfa_at h x" "nbrk h \<le> nbrk g" using K by (auto simp: keeps_def)
  have f: "frag (nedges eol h) N s a" using F by (simp add: nfrag_def)
  have "\<forall>x \<in> N. \<exists>n. nfa_at g x = Some n \<and> node_ok g n"
  proof
    fix x assume x: "x \<in> N"
    then obtain m where "nfa_at h x = Some m" "node_ok h m" using F by (auto simp: nfrag_def)
    then show "\<exists>n. nfa_at g x = Some n \<and> node_ok g n" using n x node_ok_mono by auto
  qed
  moreover have "\<exists>rk. falls rk g N" using F n unfolding nfrag_def falls_def by simp
  moreover have "a \<in> N" using nfrag_ends [OF F] by simp
  ultimately show ?thesis using frag_cong [OF f e] F n by (simp add: nfrag_def)
qed

text \<open>The loop that skips epsilon nodes ends, and does not change the language.\<close>

lemma tighten_ok:
  assumes "falls rk h N" "\<forall>x \<in> N. nfa_at h x \<noteq> None" "\<forall>x \<in> N - {a}. nedges eol h x = G x" "x \<in> N"
    "\<exists>n. nfa_at h a = Some n \<and> n_type n \<noteq> NFA_EPSILON"
  shows "\<exists>t \<in> N. tighten h (Some x) = Some (Some t) \<and> (\<forall>w. run G t w a \<longleftrightarrow> run G x w a)"
  using assms(4)
proof (induction "rk x" arbitrary: x rule: less_induct)
  case less
  obtain n where n: "nfa_at h x = Some n" using assms(2) less.prems by blast
  show ?case
  proof (cases "n_type n = NFA_EPSILON")
    case False
    then show ?thesis using n less.prems by (subst tighten.simps) auto
  next
    case True
    then have xa: "x \<noteq> a" using assms(5) n by auto
    from True obtain y where y: "y \<in> N" "n_out2 n = Some y" "rk y < rk x" using assms(1) n less.prems by (auto simp: falls_def)
    have "G x = {(None, y)}" using bspec [OF assms(3), of x] less.prems xa nedges_at [OF n, of eol] edges_epsilon [OF True] y by auto
    then have "run G x w a \<longleftrightarrow> run G y w a" for w using run_one_eps [of G x y a w] xa by simp
    moreover have "tighten h (Some x) = tighten h (Some y)" using n True y by (subst tighten.simps) simp
    ultimately show ?thesis using less.hyps [OF y(3,1)] by simp
  qed
qed

section \<open>One character\<close>

lemma nfrag_edge:
  assumes s: "nfa_at h s = Some n" "n_type n \<in> {NFA_LITERAL, NFA_ANY, NFA_RANGE}" "n_out2 n = Some a" "node_ok h n"
    and a: "nfa_at h a = Some m" "n_type m = NFA_ACCEPTING" "n_parent m = Some s" and sa: "s \<noteq> a"
  shows "nfrag eol h {s, a} s a {[c] | c. c \<in> node_chars eol h n}"
proof -
  have e: "nedges eol h s = {(Some (node_chars eol h n), a)}" "nedges eol h a = {}"
    using edges_chars [OF s(2,3)] edges_accepting [OF a(2)] by (simp_all add: nedges_at [OF s(1)] nedges_at [OF a(1)])
  have "node_ok h m" using a(2) by (simp add: node_ok_def nfa_types)
  moreover have "falls rk h {s, a}" for rk using s a by (auto simp: falls_def nfa_types)
  ultimately show ?thesis using frag_edge [OF sa e] s a unfolding nfrag_def by auto
qed

lemma new_literal_ok:
  assumes C: "nctx c h L" and ty: "ty \<in> {NFA_LITERAL, NFA_ANY}"
  shows "\<exists>h' s a. new_literal_nfa h (Some c) l ty = Some (Some a, h') \<and> {s, a} \<inter> L = {} \<and> nctx c h' ({s, a} \<union> L) \<and> keeps L h h' \<and>
    nfrag eol h' {s, a} s a {[x] | x. x \<noteq> 0 \<and> (if ty = NFA_LITERAL then sx x = l else x \<noteq> eol)}"
proof -
  from new_nfa_ok [OF C, of NFA_ACCEPTING] obtain a h1 na where
    1: "new_nfa h (Some c) NFA_ACCEPTING = Some (Some a, h1)" "a \<notin> L" "nctx c h1 (insert a L)" "keeps L h h1"
    "nfa_at h1 a = Some na" "n_type na = NFA_ACCEPTING" by blast
  from new_nfa_ok [OF 1(3), of ty] obtain s h2 ns where
    2: "new_nfa h1 (Some c) ty = Some (Some s, h2)" "s \<notin> insert a L" "nctx c h2 (insert s (insert a L))" "keeps (insert a L) h1 h2"
    "nfa_at h2 s = Some ns" "n_type ns = ty" by blast
  from mark_nfa_ok [OF 2(3), of s] obtain h3 i where
    3: "mark_nfa h2 (Some s) = Some h3" "nctx c h3 (insert s (insert a L))" "ranges h3 = ranges h2" "nbrk h3 = nbrk h2"
    "\<forall>b. nfa_at h3 b = nfa_at (nupd h2 s (n_id_update (\<lambda>_. i))) b" by blast
  have a2: "nfa_at h2 a = Some na" using 2(4) 1(5) by (simp add: keeps_def)
  let ?n = "ns\<lparr>n_id := i\<rparr>"
  have s3: "nfa_at h3 s = Some ?n" and a3: "nfa_at h3 a = Some na" using 3(5) 2(2,5) a2 by auto
  let ?h = "nupd (nupd (nupd h3 s (n_lit_update (\<lambda>_. l))) s (\<lambda>n. n\<lparr>n_out1 := Some a, n_out2 := Some a\<rparr>)) a (n_parent_update (\<lambda>_. Some s))"
  have e: "new_literal_nfa h (Some c) l ty = Some (Some a, ?h)"
    using 1(1) 2(1,2) 3(1) s3 a3 by (simp add: new_literal_nfa_def)
  have sL: "s \<noteq> a" "s \<notin> L" using 2(2) by auto
  have C': "nctx c ?h (insert s (insert a L))" by (intro nctx_nupd 3(2)) simp_all
  have K: "keeps L h ?h"
  proof -
    have "keeps L h h2" by (rule keeps_trans [OF 1(4) 2(4)]) auto
    then have "keeps L h h3" using 3(3-5) sL by (auto simp: keeps_def)
    then show ?thesis using 1(2) sL by (intro keeps_nupd)
  qed
  let ?m = "?n\<lparr>n_lit := l, n_out1 := Some a, n_out2 := Some a\<rparr>"
  have s': "nfa_at ?h s = Some ?m" and a': "nfa_at ?h a = Some (na\<lparr>n_parent := Some s\<rparr>)" using s3 a3 sL by simp_all
  have r: "node_ok ?h ?m" using ty 2(6) by (auto simp: node_ok_def nfa_types)
  have "nfrag eol ?h {s, a} s a {[x] | x. x \<in> node_chars eol ?h ?m}"
    by (rule nfrag_edge [OF s' _ _ r a']) (use ty 1(6) 2(6) sL in auto)
  moreover have "node_chars eol ?h ?m = {x. x \<noteq> 0 \<and> (if ty = NFA_LITERAL then sx x = l else x \<noteq> eol)}"
    using ty 2(6) by (auto simp: node_chars_def nfa_types)
  ultimately show ?thesis using e sL 1(2) C' K by (intro exI [of _ ?h] exI [of _ s] exI [of _ a]) simp
qed

section \<open>Brackets\<close>

lemma nctx_ranges:
  assumes C: "nctx c h L" and k: "nbrk h \<le> k" "\<forall>q \<ge> k. R q = None"
  shows "nctx c (h\<lparr>ranges := R, nbrk := k\<rparr>) L"
proof -
  let ?g = "h\<lparr>ranges := R, nbrk := k\<rparr>"
  obtain K al F As where K: "ctrls h c = Some K" "c_alloc K = Some al" "alloc_ok h al L F As"
    using C by (auto simp: nctx_def pool_ok_def)
  have "snext ?g = snext h" "sprev ?g = sprev h" "sfree ?g = sfree h" "anext ?g = anext h" "aprev ?g = aprev h"
    by (simp_all add: fun_eq_iff snext_def sprev_def sfree_def anext_def aprev_def)
  then have "alloc_ok ?g al L F As" using K(3) k by (simp add: alloc_ok_def)
  then have "pool_ok c ?g L" using K by (auto simp: pool_ok_def)
  then show ?thesis using C k by (auto simp: nctx_def covered_def clean_def nfa_at_def)
qed

lemma nctx_ranges1:
  assumes "nctx c h L" "\<forall>q \<ge> nbrk h. R q = None"
  shows "nctx c (h\<lparr>ranges := R\<rparr>) L"
  using nctx_ranges [OF assms(1) _ assms(2)] by simp

lemma nfa_at_ranges [simp]: "nfa_at (h\<lparr>ranges := R\<rparr>) b = nfa_at h b" "nfa_at (h\<lparr>ranges := R, nbrk := k\<rparr>) b = nfa_at h b"
  by (simp_all add: nfa_at_def)

lemma new_range_ok:
  assumes C: "nctx c h L"
  shows "\<exists>h' s a q n m. new_range_nfa h (Some c) neg = Some (Some a, h') \<and> {s, a} \<inter> L = {} \<and> s \<noteq> a \<and> nctx c h' ({s, a} \<union> L) \<and>
    keeps L h h' \<and> nfa_at h' s = Some n \<and> n_type n = NFA_RANGE \<and> n_out2 n = Some a \<and> n_low n = URange (Some q) \<and>
    nfa_at h' a = Some m \<and> n_type m = NFA_ACCEPTING \<and> n_parent m = Some s \<and> nbrk h \<le> q \<and> q < nbrk h' \<and>
    ranges h' q = Some (fresh_range neg)"
proof -
  from new_nfa_ok [OF C, of NFA_RANGE] obtain s h1 ns where
    1: "new_nfa h (Some c) NFA_RANGE = Some (Some s, h1)" "s \<notin> L" "nctx c h1 (insert s L)" "keeps L h h1"
    "nfa_at h1 s = Some ns" "n_type ns = NFA_RANGE" by blast
  from new_nfa_ok [OF 1(3), of NFA_ACCEPTING] obtain a h2 na where
    2: "new_nfa h1 (Some c) NFA_ACCEPTING = Some (Some a, h2)" "a \<notin> insert s L" "nctx c h2 (insert a (insert s L))" "keeps (insert s L) h1 h2"
    "nfa_at h2 a = Some na" "n_type na = NFA_ACCEPTING" by blast
  from mark_nfa_ok [OF 2(3), of s] obtain h3 i where
    3: "mark_nfa h2 (Some s) = Some h3" "nctx c h3 (insert a (insert s L))" "ranges h3 = ranges h2" "nbrk h3 = nbrk h2"
    "\<forall>b. nfa_at h3 b = nfa_at (nupd h2 s (n_id_update (\<lambda>_. i))) b" by blast
  have s2: "nfa_at h2 s = Some ns" using 2(4) 1(5) by (simp add: keeps_def)
  have sL: "s \<noteq> a" "s \<notin> L" "a \<notin> L" using 2(2) 1(2) by auto
  let ?q = "nbrk h3"
  let ?g = "h3\<lparr>ranges := (ranges h3)(?q \<mapsto> fresh_range neg), nbrk := ?q + 1\<rparr>"
  let ?n = "ns\<lparr>n_id := i\<rparr>"
  have s3: "nfa_at ?g s = Some ?n" and a3: "nfa_at ?g a = Some na" using 3(5) s2 2(5) sL by auto
  let ?h = "nupd (nupd (nupd ?g s (n_low_update (\<lambda>_. URange (Some ?q)))) a (n_parent_update (\<lambda>_. Some s))) s
    (\<lambda>n. n\<lparr>n_out1 := Some a, n_out2 := Some a\<rparr>)"
  have e: "new_range_nfa h (Some c) neg = Some (Some a, ?h)"
    using 1(1) 2(1) 3(1) s3 a3 sL by (simp add: new_range_nfa_def Let_def)
  have "nctx c ?g (insert a (insert s L))"
    by (rule nctx_ranges [OF 3(2)]) (use 3(2) in \<open>auto simp: nctx_def\<close>)
  then have C': "nctx c ?h (insert a (insert s L))" by (intro nctx_nupd) simp_all
  have kq: "keeps L h h2" "nbrk h \<le> ?q" using keeps_trans [OF 1(4) 2(4)] 3(4) by (auto simp: keeps_def)
  have K: "keeps L h ?h"
  proof -
    have "keeps L h h3" using kq 3(3-5) sL by (auto simp: keeps_def)
    then have "keeps L h ?g" using kq(2) by (auto simp: keeps_def)
    then show ?thesis using sL by (intro keeps_nupd)
  qed
  have r: "ranges ?h ?q = Some (fresh_range neg)" "?q < nbrk ?h" by simp_all
  show ?thesis using e sL C' K kq s3 a3 1(6) 2(6) r
    by (intro exI [of _ ?h] exI [of _ s] exI [of _ a] exI [of _ ?q]) (auto simp: insert_commute)
qed

lemma update_range_node_fold:
  assumes "nfa_at h s = Some n" "n_low n = URange (Some q)" "ranges h q = Some bm"
    "fold_opt (\<lambda>(low, high) r. update_range_nfa low high r neg) rs bm = Some r"
  shows "fold_opt (\<lambda>(low, high) h. update_range_node h low high (Some s) neg) rs h = Some (h\<lparr>ranges := (ranges h)(q \<mapsto> r)\<rparr>)"
  using assms
proof (induction rs arbitrary: h bm)
  case Nil
  then show ?case by (simp add: fun_upd_idem)
next
  case (Cons x rs)
  obtain low high where x: "x = (low, high)" by (cases x)
  from Cons.prems(4) obtain b where b: "update_range_nfa low high bm neg = Some b"
    "fold_opt (\<lambda>(low, high) r. update_range_nfa low high r neg) rs b = Some r" by (auto simp: x bind_eq_Some_conv)
  let ?h = "h\<lparr>ranges := (ranges h)(q \<mapsto> b)\<rparr>"
  have "nfa_at ?h s = Some n" using Cons.prems(1) by simp
  moreover have "ranges ?h q = Some b" by simp
  ultimately have "fold_opt (\<lambda>(low, high) h. update_range_node h low high (Some s) neg) rs ?h = Some (?h\<lparr>ranges := (ranges ?h)(q \<mapsto> r)\<rparr>)"
    using Cons.prems(2) b(2) by (intro Cons.IH)
  moreover have "?h\<lparr>ranges := (ranges ?h)(q \<mapsto> r)\<rparr> = h\<lparr>ranges := (ranges h)(q \<mapsto> r)\<rparr>"
    by (cases h) (auto simp: fun_eq_iff)
  moreover have "update_range_node h low high (Some s) neg = Some ?h"
    using Cons.prems b by (simp add: update_range_node_def node_range_def low_range_def)
  ultimately show ?case by (simp only: x fold_opt.simps prod.case bind.bind_lunit)
qed

definition bracket_chars :: "byte \<Rightarrow> bool \<Rightarrow> (u32 \<times> u32) list \<Rightarrow> byte set" where
  "bracket_chars eol neg rs = {x. x \<noteq> 0 \<and> x \<noteq> eol \<and> unat (sx x) < 128 \<and> covers rs (unat (sx x)) \<noteq> neg}"

lemma bracket_ok:
  assumes C: "nctx c h L" and rs: "\<forall>(low, high) \<in> set rs. low \<le> high \<and> unat high < 128"
  shows "\<exists>h1 h' s a n. new_range_nfa h (Some c) neg = Some (Some a, h1) \<and> nfa_at h1 a = Some n \<and> n_parent n = Some s \<and>
    fold_opt (\<lambda>(low, high) h. update_range_node h low high (Some s) neg) rs h1 = Some h' \<and>
    {s, a} \<inter> L = {} \<and> nctx c h' ({s, a} \<union> L) \<and> keeps L h h' \<and> nfrag eol h' {s, a} s a {[x] | x. x \<in> bracket_chars eol neg rs}"
proof -
  from new_range_ok [OF C, of neg] obtain h1 s a q n m where
    1: "new_range_nfa h (Some c) neg = Some (Some a, h1)" "{s, a} \<inter> L = {}" "s \<noteq> a" "nctx c h1 ({s, a} \<union> L)" "keeps L h h1"
    "nfa_at h1 s = Some n" "n_type n = NFA_RANGE" "n_out2 n = Some a" "n_low n = URange (Some q)"
    "nfa_at h1 a = Some m" "n_type m = NFA_ACCEPTING" "n_parent m = Some s" "nbrk h \<le> q" "q < nbrk h1" "ranges h1 q = Some (fresh_range neg)"
    by (elim exE conjE) (rule that)
  from fresh_ranges [OF rs, of neg] obtain r where
    r: "fold_opt (\<lambda>(low, high) r. update_range_nfa low high r neg) rs (fresh_range neg) = Some r"
    "\<forall>c. is_literal_in_range r c = Some (unat c < 128 \<and> (covers rs (unat c) \<noteq> neg))" by blast
  let ?h = "h1\<lparr>ranges := (ranges h1)(q \<mapsto> r)\<rparr>"
  have e: "fold_opt (\<lambda>(low, high) h. update_range_node h low high (Some s) neg) rs h1 = Some ?h"
    by (rule update_range_node_fold [OF 1(6,9,15) r(1)])
  have C': "nctx c ?h ({s, a} \<union> L)"
  proof -
    have "\<forall>p \<ge> nbrk h1. ((ranges h1)(q \<mapsto> r)) p = None" using 1(4,14) by (auto simp: nctx_def)
    then show ?thesis by (rule nctx_ranges1 [OF 1(4)])
  qed
  have K: "keeps L h ?h" using 1(5,13) by (auto simp: keeps_def)
  have s': "nfa_at ?h s = Some n" and a': "nfa_at ?h a = Some m" using 1 by simp_all
  have ro: "node_ok ?h n" using 1(7,9,14) by (simp add: node_ok_def)
  have "nfrag eol ?h {s, a} s a {[x] | x. x \<in> node_chars eol ?h n}"
    by (rule nfrag_edge [OF s' _ 1(8) ro a' 1(11,12,3)]) (simp add: 1(7))
  moreover have "node_chars eol ?h n = bracket_chars eol neg rs"
    using 1(7,9) r(2) by (simp add: node_chars_def nfa_types range_chars_def bracket_chars_def)
  ultimately show ?thesis using e 1 C' K by (intro exI [of _ h1] exI [of _ ?h] exI [of _ s] exI [of _ a] exI [of _ m]) simp
qed

end
