(* ===== verification/NfaClosure.thy ===== *)
theory NfaClosure
  imports NfaThompson
begin

text \<open>
  The constructors of \<open>src/nfa.c\<close> that combine fragments: repetition and concatenation.
\<close>

section \<open>Around a fragment\<close>

text \<open>Two fresh nodes for a new start and a new end, and what is known then.\<close>

lemma fresh_pair:
  assumes C: "nctx c h L" and F: "nfrag eol h N s a W" and N: "N \<subseteq> L"
  shows "\<exists>b z h1 h2 nb nz na ns. new_nfa h (Some c) ty = Some (Some b, h1) \<and> new_nfa h1 (Some c) NFA_ACCEPTING = Some (Some z, h2) \<and>
    b \<notin> L \<and> z \<notin> L \<and> b \<noteq> z \<and> nctx c h2 (insert b (insert z L)) \<and> keeps L h h2 \<and> nfrag eol h2 N s a W \<and>
    nfa_at h2 b = Some nb \<and> n_type nb = ty \<and> nfa_at h2 z = Some nz \<and> n_type nz = NFA_ACCEPTING \<and>
    nfa_at h a = Some na \<and> nfa_at h2 a = Some na \<and> n_parent na = Some s \<and> n_ctrl na = Some c \<and> nfa_at h2 s = Some ns \<and>
    a \<noteq> b \<and> a \<noteq> z \<and> s \<noteq> b \<and> s \<noteq> z"
proof -
  from new_nfa_ok [OF C, of ty] obtain b h1 nb where
    1: "new_nfa h (Some c) ty = Some (Some b, h1)" "b \<notin> L" "nctx c h1 (insert b L)" "keeps L h h1" "nfa_at h1 b = Some nb" "n_type nb = ty"
    by blast
  from new_nfa_ok [OF 1(3), of NFA_ACCEPTING] obtain z h2 nz where
    2: "new_nfa h1 (Some c) NFA_ACCEPTING = Some (Some z, h2)" "z \<notin> insert b L" "nctx c h2 (insert z (insert b L))"
      "keeps (insert b L) h1 h2" "nfa_at h2 z = Some nz" "n_type nz = NFA_ACCEPTING" by blast
  have K: "keeps L h h2" by (rule keeps_trans [OF 1(4) 2(4)]) auto
  have F2: "nfrag eol h2 N s a W" by (rule nfrag_keeps [OF F keeps_mono [OF K N]])
  have aL: "a \<in> L" "s \<in> L" using nfrag_ends [OF F] N by auto
  obtain na where a: "nfa_at h2 a = Some na" "n_parent na = Some s" using nfrag_end [OF F2] by blast
  obtain ns where s: "nfa_at h2 s = Some ns" using F2 nfrag_ends [OF F] by (auto simp: nfrag_def)
  have ah: "nfa_at h a = Some na" using K a aL by (simp add: keeps_def)
  have "n_ctrl na = Some c" using nctx_node [OF C aL(1)] ah by simp
  moreover have "nfa_at h2 b = Some nb" using 2(4) 1(5) by (simp add: keeps_def)
  moreover have "nctx c h2 (insert b (insert z L))" using 2(3) by (simp add: insert_commute)
  moreover have "a \<noteq> b \<and> a \<noteq> z \<and> s \<noteq> b \<and> s \<noteq> z" "z \<notin> L" "b \<noteq> z" using aL 1(2) 2(2) by auto
  ultimately show ?thesis using 1(1,2,6) 2(1,5,6) K F2 a s ah
    by (intro exI [of _ b] exI [of _ z] exI [of _ h1] exI [of _ h2] exI [of _ nb] exI [of _ nz] exI [of _ na] exI [of _ ns]) simp
qed

lemma fallsD: "falls rk h N \<Longrightarrow> x \<in> N \<Longrightarrow> nfa_at h x = Some n \<Longrightarrow> n_type n = NFA_EPSILON \<Longrightarrow>
    \<exists>y \<in> N. n_out2 n = Some y \<and> rk y < rk x"
  by (simp add: falls_def)

lemma wrap_nfrag:
  assumes F: "nfrag eol h N s a W" and b: "b \<notin> N" "z \<notin> N" "b \<noteq> z"
    and K: "\<forall>y \<in> N - {a}. nfa_at h' y = nfa_at h y" "nbrk h \<le> nbrk h'"
    and A: "nfa_at h' a = Some na" "n_type na \<in> {NFA_SPLIT, NFA_EPSILON}" "n_type na = NFA_EPSILON \<Longrightarrow> n_out2 na = Some z"
    and B: "nfa_at h' b = Some nb" "n_type nb \<in> {NFA_SPLIT, NFA_EPSILON}" "n_type nb = NFA_EPSILON \<Longrightarrow> n_out2 nb = Some s"
    and Z: "nfa_at h' z = Some nz" "n_type nz = NFA_ACCEPTING" "n_parent nz = Some b"
    and G: "frag (nedges eol h') (insert b (insert z N)) b z" "flang (nedges eol h') b z = W'"
  shows "nfrag eol h' (insert b (insert z N)) b z W'"
proof -
  let ?N = "insert b (insert z N)"
  have s: "s \<in> N" "a \<in> N" using nfrag_ends [OF F] by simp_all
  have "\<exists>n. nfa_at h' y = Some n \<and> node_ok h' n" if y: "y \<in> ?N" for y
  proof (cases "y \<in> N - {a}")
    case True
    then obtain n where "nfa_at h y = Some n" "node_ok h n" using F by (auto simp: nfrag_def)
    then show ?thesis using K True node_ok_mono by auto
  next
    case False
    then have "y = a \<or> y = b \<or> y = z" using y by blast
    then show ?thesis using A B Z by (auto simp: node_ok_def nfa_types)
  qed
  moreover have "\<exists>rk. falls rk h' ?N"
  proof -
    obtain rk where rk: "falls rk h N" using F by (auto simp: nfrag_def)
    let ?rk = "\<lambda>y. if y = z then 0 else if y = b then rk s + 2 else rk y + 1"
    have "\<exists>x \<in> ?N. n_out2 n = Some x \<and> ?rk x < ?rk y" if y: "y \<in> ?N" and n: "nfa_at h' y = Some n" "n_type n = NFA_EPSILON" for y n
    proof -
      consider "y \<in> N - {a}" | "y = a" | "y = b" | "y = z" using y by blast
      then show ?thesis
      proof cases
        case 1
        then have "nfa_at h y = Some n" "y \<in> N" using n K(1) by auto
        from fallsD [OF rk this(2,1) n(2)] obtain x where x: "x \<in> N" "n_out2 n = Some x" "rk x < rk y" by blast
        have "y \<noteq> z" "y \<noteq> b" "x \<noteq> z" "x \<noteq> b" using 1 x(1) b by auto
        then show ?thesis using x by auto
      next
        case 2
        have "a \<noteq> z" "a \<noteq> b" using s b by auto
        then show ?thesis using 2 A n by auto
      next
        case 3
        have "s \<noteq> z" "s \<noteq> b" using s b by auto
        then show ?thesis using 3 B n b s by auto
      next
        case 4
        then show ?thesis using Z n by (simp add: nfa_types)
      qed
    qed
    then have "falls ?rk h' ?N" unfolding falls_def by blast
    then show ?thesis by blast
  qed
  ultimately show ?thesis using G Z by (simp add: nfrag_def)
qed

text \<open>The node to which the loop goes back.\<close>

lemma loop_target:
  assumes F: "nfrag eol h N s a W" and K: "keeps (N - {a}) h g" and A: "nfa_at g a = Some na" "n_type na = NFA_SPLIT"
  shows "\<exists>t \<in> N. tighten g (Some s) = Some (Some t) \<and> (\<forall>w. run (nedges eol h) t w a \<longleftrightarrow> run (nedges eol h) s w a)"
proof -
  obtain rk where rk: "falls rk h N" using F by (auto simp: nfrag_def)
  have n: "\<forall>x \<in> N - {a}. nfa_at g x = nfa_at h x" using K by (simp add: keeps_def)
  have "\<forall>x \<in> N. \<exists>n. nfa_at h x = Some n \<and> node_ok h n" using F by (simp add: nfrag_def)
  then have e: "\<forall>x \<in> N - {a}. nedges eol g x = nedges eol h x" by (intro keeps_edges [OF _ K]) blast
  have "falls rk g N" unfolding falls_def
  proof (intro ballI allI impI)
    fix x m assume x: "x \<in> N" "nfa_at g x = Some m \<and> n_type m = NFA_EPSILON"
    then have "x \<noteq> a" using A by (auto simp: nfa_types)
    then have "nfa_at h x = Some m" using x n by simp
    then show "\<exists>y \<in> N. n_out2 m = Some y \<and> rk y < rk x" using fallsD [OF rk x(1)] x by blast
  qed
  moreover have "\<forall>x \<in> N. nfa_at g x \<noteq> None"
  proof
    fix x assume "x \<in> N"
    then show "nfa_at g x \<noteq> None" using F A n by (cases "x = a") (auto simp: nfrag_def)
  qed
  ultimately show ?thesis using e A nfrag_ends [OF F] by (intro tighten_ok) (auto simp: nfa_types)
qed

text \<open>The edges inside the fragment stay.\<close>

lemma inner_edges:
  assumes "nfrag eol h N s a W" "\<forall>y \<in> N - {a}. nfa_at g y = nfa_at h y" "nbrk g = nbrk h" "ranges g = ranges h"
  shows "\<forall>y \<in> N - {a}. nedges eol g y = nedges eol h y"
  by (rule keeps_edges) (use assms in \<open>auto simp: nfrag_def keeps_def\<close>)

lemma nfrag_frag: "nfrag eol h N s a W \<Longrightarrow> frag (nedges eol h) N s a" "nfrag eol h N s a W \<Longrightarrow> flang (nedges eol h) s a = W"
  by (simp_all add: nfrag_def)

section \<open>Repetition\<close>

lemma new_kleene_ok:
  assumes C: "nctx c h L" and F: "nfrag eol h N s a W" and N: "N \<subseteq> L"
  shows "\<exists>h' b z. new_kleene_nfa h (Some a) = Some (Some z, h') \<and> b \<notin> L \<and> z \<notin> L \<and> b \<noteq> z \<and> nctx c h' (insert b (insert z L)) \<and>
    keeps (L - N) h h' \<and> nfrag eol h' (insert b (insert z N)) b z (kstar W)"
proof -
  from fresh_pair [OF C F N, of NFA_SPLIT] obtain b z h1 h2 nb nz na ns where
    2: "new_nfa h (Some c) NFA_SPLIT = Some (Some b, h1)" "new_nfa h1 (Some c) NFA_ACCEPTING = Some (Some z, h2)"
      "b \<notin> L" "z \<notin> L" "b \<noteq> z" "nctx c h2 (insert b (insert z L))" "keeps L h h2" "nfrag eol h2 N s a W"
      "nfa_at h2 b = Some nb" "n_type nb = NFA_SPLIT" "nfa_at h2 z = Some nz" "n_type nz = NFA_ACCEPTING"
      "nfa_at h a = Some na" "nfa_at h2 a = Some na" "n_parent na = Some s" "n_ctrl na = Some c" "nfa_at h2 s = Some ns"
      "a \<noteq> b" "a \<noteq> z" "s \<noteq> b" "s \<noteq> z" by blast
  have bN: "b \<notin> N" "z \<notin> N" "a \<in> N" "a \<noteq> s" using 2(3,4) N nfrag_ends [OF F] by auto
  note ne = 2(5,18-21) 2(5,18-21) [symmetric]
  let ?g1 = "nupd (nupd (nupd (nupd h2 b (n_id_update (\<lambda>_. n_id ns))) b (n_lit_update (\<lambda>_. word_of_int 63))) b (n_out1_update (\<lambda>_. Some z))) b
    (n_out2_update (\<lambda>_. Some s))"
  define g where "g = nupd (nupd (nupd ?g1 a (n_type_update (\<lambda>_. NFA_SPLIT))) a (n_lit_update (\<lambda>_. word_of_int 42))) a (n_out2_update (\<lambda>_. Some z))"
  have "keeps (N - {a}) h2 g" unfolding g_def by (intro keeps_nupd keeps_refl) (use bN in auto)
  moreover have "nfa_at g a = Some (na\<lparr>n_type := NFA_SPLIT, n_lit := word_of_int 42, n_out2 := Some z\<rparr>)" using 2 by (simp add: g_def)
  ultimately obtain t where t: "t \<in> N" "tighten g (Some s) = Some (Some t)"
    "\<forall>w. run (nedges eol h2) t w a \<longleftrightarrow> run (nedges eol h2) s w a" using loop_target [OF 2(8)] by fastforce
  define h' where "h' = nupd (nupd g a (n_out1_update (\<lambda>_. Some t))) z (n_parent_update (\<lambda>_. Some b))"
  have e: "new_kleene_nfa h (Some a) = Some (Some z, h')"
    using 2(1,2,9,11,13-17) ne bN(4) t(2) by (simp add: new_kleene_nfa_def h'_def g_def)
  have C': "nctx c h' (insert b (insert z L))" unfolding h'_def g_def by (intro nctx_nupd 2(6)) simp_all
  have K: "keeps (L - N) h h'" unfolding h'_def g_def by (intro keeps_nupd keeps_mono [OF 2(7)]) (use 2(3,4) bN in auto)
  have na': "nfa_at h' a = Some (na\<lparr>n_type := NFA_SPLIT, n_lit := word_of_int 42, n_out2 := Some z, n_out1 := Some t\<rparr>)"
    and nb': "nfa_at h' b = Some (nb\<lparr>n_id := n_id ns, n_lit := word_of_int 63, n_out1 := Some z, n_out2 := Some s\<rparr>)"
    and nz': "nfa_at h' z = Some (nz\<lparr>n_parent := Some b\<rparr>)" using 2 ne by (simp_all add: h'_def g_def)
  have old: "\<forall>y \<in> N - {a}. nfa_at h' y = nfa_at h2 y" "nbrk h' = nbrk h2" "ranges h' = ranges h2"
    using bN by (auto simp: h'_def g_def)
  have E: "nedges eol h' a = {(None, t), (None, z)}" "nedges eol h' z = {}" "nedges eol h' b = {(None, z), (None, s)}"
    using 2(10,12) by (auto simp: nedges_at [OF na'] nedges_at [OF nb'] nedges_at [OF nz'] edge_simps)
  note star = frag_star [OF nfrag_frag(1) [OF 2(8)] bN(1,2) 2(5) inner_edges [OF 2(8) old] E t(1,3), unfolded nfrag_frag(2) [OF 2(8)]]
  have "nfrag eol h' (insert b (insert z N)) b z (kstar W)"
    by (rule wrap_nfrag [OF 2(8) bN(1,2) 2(5) old(1) _ na' _ _ nb' _ _ nz' _ _ star]) (use 2(10,12) old(2) in \<open>simp_all add: nfa_types\<close>)
  then show ?thesis using e 2(3-5) C' K by blast
qed

lemma new_posclosure_ok:
  assumes C: "nctx c h L" and F: "nfrag eol h N s a W" and N: "N \<subseteq> L"
  shows "\<exists>h' b z. new_posclosure_nfa h (Some a) = Some (Some z, h') \<and> b \<notin> L \<and> z \<notin> L \<and> b \<noteq> z \<and> nctx c h' (insert b (insert z L)) \<and>
    keeps (L - N) h h' \<and> nfrag eol h' (insert b (insert z N)) b z (conc W (kstar W))"
proof -
  from fresh_pair [OF C F N, of NFA_EPSILON] obtain b z h1 h2 nb nz na ns where
    2: "new_nfa h (Some c) NFA_EPSILON = Some (Some b, h1)" "new_nfa h1 (Some c) NFA_ACCEPTING = Some (Some z, h2)"
      "b \<notin> L" "z \<notin> L" "b \<noteq> z" "nctx c h2 (insert b (insert z L))" "keeps L h h2" "nfrag eol h2 N s a W"
      "nfa_at h2 b = Some nb" "n_type nb = NFA_EPSILON" "nfa_at h2 z = Some nz" "n_type nz = NFA_ACCEPTING"
      "nfa_at h a = Some na" "nfa_at h2 a = Some na" "n_parent na = Some s" "n_ctrl na = Some c" "nfa_at h2 s = Some ns"
      "a \<noteq> b" "a \<noteq> z" "s \<noteq> b" "s \<noteq> z" by blast
  have bN: "b \<notin> N" "z \<notin> N" "a \<in> N" "a \<noteq> s" using 2(3,4) N nfrag_ends [OF F] by auto
  note ne = 2(5,18-21) 2(5,18-21) [symmetric]
  define g where "g = nupd (nupd (nupd (nupd h2 b (n_id_update (\<lambda>_. n_id ns))) b (\<lambda>n. n\<lparr>n_out1 := Some s, n_out2 := Some s\<rparr>)) a
    (n_type_update (\<lambda>_. NFA_SPLIT))) a (n_lit_update (\<lambda>_. word_of_int 43))"
  have "keeps (N - {a}) h2 g" unfolding g_def by (intro keeps_nupd keeps_refl) (use bN in auto)
  moreover have "nfa_at g a = Some (na\<lparr>n_type := NFA_SPLIT, n_lit := word_of_int 43\<rparr>)" using 2 by (simp add: g_def)
  ultimately obtain t where t: "t \<in> N" "tighten g (Some s) = Some (Some t)"
    "\<forall>w. run (nedges eol h2) t w a \<longleftrightarrow> run (nedges eol h2) s w a" using loop_target [OF 2(8)] by fastforce
  define h' where "h' = nupd (nupd (nupd g a (n_out1_update (\<lambda>_. Some t))) a (n_out2_update (\<lambda>_. Some z))) z (n_parent_update (\<lambda>_. Some b))"
  have e: "new_posclosure_nfa h (Some a) = Some (Some z, h')"
    using 2(1,2,9,11,13-17) ne bN(4) t(2) by (simp add: new_posclosure_nfa_def h'_def g_def)
  have C': "nctx c h' (insert b (insert z L))" unfolding h'_def g_def by (intro nctx_nupd 2(6)) simp_all
  have K: "keeps (L - N) h h'" unfolding h'_def g_def by (intro keeps_nupd keeps_mono [OF 2(7)]) (use 2(3,4) bN in auto)
  have na': "nfa_at h' a = Some (na\<lparr>n_type := NFA_SPLIT, n_lit := word_of_int 43, n_out1 := Some t, n_out2 := Some z\<rparr>)"
    and nb': "nfa_at h' b = Some (nb\<lparr>n_id := n_id ns, n_out1 := Some s, n_out2 := Some s\<rparr>)"
    and nz': "nfa_at h' z = Some (nz\<lparr>n_parent := Some b\<rparr>)" using 2 ne by (simp_all add: h'_def g_def)
  have old: "\<forall>y \<in> N - {a}. nfa_at h' y = nfa_at h2 y" "nbrk h' = nbrk h2" "ranges h' = ranges h2"
    using bN by (auto simp: h'_def g_def)
  have E: "nedges eol h' a = {(None, t), (None, z)}" "nedges eol h' z = {}" "nedges eol h' b = {(None, s)}"
    using 2(10,12) by (auto simp: nedges_at [OF na'] nedges_at [OF nb'] nedges_at [OF nz'] edge_simps)
  note plus = frag_plus [OF nfrag_frag(1) [OF 2(8)] bN(1,2) 2(5) inner_edges [OF 2(8) old] E t(1,3), unfolded nfrag_frag(2) [OF 2(8)]]
  have "nfrag eol h' (insert b (insert z N)) b z (conc W (kstar W))"
    by (rule wrap_nfrag [OF 2(8) bN(1,2) 2(5) old(1) _ na' _ _ nb' _ _ nz' _ _ plus]) (use 2(10,12) old(2) in \<open>simp_all add: nfa_types\<close>)
  then show ?thesis using e 2(3-5) C' K by blast
qed

lemma new_qmark_ok:
  assumes C: "nctx c h L" and F: "nfrag eol h N s a W" and N: "N \<subseteq> L"
  shows "\<exists>h' b z. new_qmark_nfa h (Some a) = Some (Some z, h') \<and> b \<notin> L \<and> z \<notin> L \<and> b \<noteq> z \<and> nctx c h' (insert b (insert z L)) \<and>
    keeps (L - N) h h' \<and> nfrag eol h' (insert b (insert z N)) b z (insert [] W)"
proof -
  from fresh_pair [OF C F N, of NFA_SPLIT] obtain b z h1 h2 nb nz na ns where
    2: "new_nfa h (Some c) NFA_SPLIT = Some (Some b, h1)" "new_nfa h1 (Some c) NFA_ACCEPTING = Some (Some z, h2)"
      "b \<notin> L" "z \<notin> L" "b \<noteq> z" "nctx c h2 (insert b (insert z L))" "keeps L h h2" "nfrag eol h2 N s a W"
      "nfa_at h2 b = Some nb" "n_type nb = NFA_SPLIT" "nfa_at h2 z = Some nz" "n_type nz = NFA_ACCEPTING"
      "nfa_at h a = Some na" "nfa_at h2 a = Some na" "n_parent na = Some s" "n_ctrl na = Some c" "nfa_at h2 s = Some ns"
      "a \<noteq> b" "a \<noteq> z" "s \<noteq> b" "s \<noteq> z" by blast
  have bN: "b \<notin> N" "z \<notin> N" "a \<in> N" "a \<noteq> s" using 2(3,4) N nfrag_ends [OF F] by auto
  note ne = 2(5,18-21) 2(5,18-21) [symmetric]
  define h' where "h' = nupd (nupd (nupd (nupd (nupd (nupd (nupd (nupd h2 b (n_id_update (\<lambda>_. n_id ns))) b (n_out1_update (\<lambda>_. Some z))) b
    (n_out2_update (\<lambda>_. Some s))) b (n_lit_update (\<lambda>_. word_of_int 63))) a (n_type_update (\<lambda>_. NFA_EPSILON))) a
    (n_out1_update (\<lambda>_. Some z))) a (n_out2_update (\<lambda>_. Some z))) z (n_parent_update (\<lambda>_. Some b))"
  have e: "new_qmark_nfa h (Some a) = Some (Some z, h')"
    using 2(1,2,9,11,13-17) ne bN(4) by (simp add: new_qmark_nfa_def h'_def)
  have C': "nctx c h' (insert b (insert z L))" unfolding h'_def by (intro nctx_nupd 2(6)) simp_all
  have K: "keeps (L - N) h h'" unfolding h'_def by (intro keeps_nupd keeps_mono [OF 2(7)]) (use 2(3,4) bN in auto)
  have na': "nfa_at h' a = Some (na\<lparr>n_type := NFA_EPSILON, n_out1 := Some z, n_out2 := Some z\<rparr>)"
    and nb': "nfa_at h' b = Some (nb\<lparr>n_id := n_id ns, n_out1 := Some z, n_out2 := Some s, n_lit := word_of_int 63\<rparr>)"
    and nz': "nfa_at h' z = Some (nz\<lparr>n_parent := Some b\<rparr>)" using 2 ne by (simp_all add: h'_def)
  have old: "\<forall>y \<in> N - {a}. nfa_at h' y = nfa_at h2 y" "nbrk h' = nbrk h2" "ranges h' = ranges h2"
    using bN by (auto simp: h'_def)
  have E: "nedges eol h' a = {(None, z)}" "nedges eol h' z = {}" "nedges eol h' b = {(None, z), (None, s)}"
    using 2(10,12) by (auto simp: nedges_at [OF na'] nedges_at [OF nb'] nedges_at [OF nz'] edge_simps)
  note opt = frag_opt [OF nfrag_frag(1) [OF 2(8)] bN(1,2) 2(5) inner_edges [OF 2(8) old] E, unfolded nfrag_frag(2) [OF 2(8)]]
  have "nfrag eol h' (insert b (insert z N)) b z (insert [] W)"
    by (rule wrap_nfrag [OF 2(8) bN(1,2) 2(5) old(1) _ na' _ _ nb' _ _ nz' _ _ opt]) (use 2(10,12) old(2) in \<open>simp_all add: nfa_types\<close>)
  then show ?thesis using e 2(3-5) C' K by blast
qed

end
