(* ===== verification/NfaConcat.thy ===== *)
theory NfaConcat
  imports NfaClosure
begin

text \<open>
  \<open>concatenate_nfa\<close> of \<open>src/nfa.c\<close>: the end of the first fragment becomes a copy of the start of the
  second, which goes back to the allocator.
\<close>

lemma nfa_at_reach [simp]: "nfa_at (h\<lparr>reach := R\<rparr>) b = nfa_at h b"
  by (simp add: nfa_at_def)

lemma nctx_reach:
  assumes "nctx c h L" "\<forall>a. lists (reach h) a \<noteq> None \<longrightarrow> lists R a \<noteq> None"
    "\<forall>a L. lists R a = Some L \<longrightarrow> L = zero_list \<and> a < brk R" "items R = (\<lambda>_. None)"
  shows "nctx c (h\<lparr>reach := R\<rparr>) L"
proof -
  let ?g = "h\<lparr>reach := R\<rparr>"
  have "snext ?g = snext h" "sprev ?g = sprev h" "sfree ?g = sfree h" "anext ?g = anext h" "aprev ?g = aprev h"
    by (simp_all add: fun_eq_iff snext_def sprev_def sfree_def anext_def aprev_def)
  then have "pool_ok c ?g L" using assms(1) by (simp add: nctx_def pool_ok_def alloc_ok_def)
  then show ?thesis using assms by (simp add: nctx_def covered_def clean_def)
qed

lemma dealloc_ok:
  assumes C: "nctx c h L" and x: "x \<in> L"
  shows "\<exists>K h'. ctget h (Some c) = Some K \<and> nfa_dealloc h (c_alloc K) (Some x) = Some h' \<and> nctx c h' (L - {x}) \<and> keeps L h h'"
proof -
  have P: "pool_ok c h L" using C by (simp add: nctx_def)
  from ctrl_dealloc_ok [OF P x] obtain h' where
    d: "ctrl_dealloc c x h = Some h'" "pool_ok c h' (L - {x})" "same_nodes h h'" "dom (slots h') = dom (slots h)" by blast
  obtain K where K: "ctget h (Some c) = Some K" "nfa_dealloc h (c_alloc K) (Some x) = Some h'"
    using d(1) by (auto simp: ctrl_dealloc_def bind_eq_Some_conv)
  have g: "grows h h'" using nfa_dealloc_gm [of h "c_alloc K" "Some x"] K(2) by (simp add: gm_def)
  have "\<forall>a \<in> L. nfa_at h' a = nfa_at h a" using d(3) pool_live [OF P] by (simp add: same_nodes_def)
  then have "keeps L h h'" "nctx c h' (L - {x})"
    using C g d(2,3) by (auto simp: keeps_def nctx_def grows_def same_nodes_def)
  then show ?thesis using K by blast
qed

lemma concatenate_ok:
  assumes C: "nctx c h L" and F: "nfrag eol h N1 s1 a1 W1" "nfrag eol h N2 s2 a2 W2" and N: "N1 \<subseteq> L" "N2 \<subseteq> L" "N1 \<inter> N2 = {}"
  shows "\<exists>h'. concatenate_nfa h (Some a1) (Some a2) = Some (Some a2, h') \<and> nctx c h' (L - {s2}) \<and>
    keeps (L - (N1 \<union> N2)) h h' \<and> nfrag eol h' (N1 \<union> N2 - {s2}) s1 a2 (conc W1 W2)"
proof -
  note e1 = nfrag_ends [OF F(1)] and e2 = nfrag_ends [OF F(2)]
  have ne: "a1 \<noteq> a2" "a1 \<noteq> s2" "s2 \<noteq> a2" "a1 \<notin> N2" "s2 \<notin> N1" "a2 \<notin> N1" "s1 \<notin> N2" "a1 \<in> L" "s2 \<in> L" "a2 \<in> L" using e1 e2 N by auto
  obtain m1 where m1: "nfa_at h a1 = Some m1" "n_parent m1 = Some s1" using nfrag_end [OF F(1)] by blast
  obtain m2 where m2: "nfa_at h a2 = Some m2" "n_type m2 = NFA_ACCEPTING" "n_parent m2 = Some s2" using nfrag_end [OF F(2)] by blast
  obtain d where d: "nfa_at h s2 = Some d" "node_ok h d" using F(2) e2 by (auto simp: nfrag_def)
  have dc: "n_ctrl d = Some c" using nctx_node [OF C ne(9)] d by simp
  obtain l where l: "lists (reach h) s2 = Some l" using C d(1) by (auto simp: nctx_def covered_def nfa_at_def)
  have cl: "clean h" using C by (simp add: nctx_def)
  then have df: "n_flags d = 0" by (rule clean_at) (rule d(1))
  have a1l: "\<exists>l'. lists (reach h) a1 = Some l'" using C m1(1) by (auto simp: nctx_def covered_def nfa_at_def)
  let ?R = "(reach h)\<lparr>lists := (lists (reach h))(a1 \<mapsto> l)\<rparr>"
  let ?g = "(nupd h a1 (\<lambda>_. d))\<lparr>reach := ?R\<rparr>"
  define k where "k = nupd (nupd (nupd (nupd ?g a2 (n_parent_update (\<lambda>_. Some s1))) s2 (\<lambda>n. n\<lparr>n_parent := None, n_out1 := None, n_out2 := None\<rparr>)) s2
    (n_lit_update (\<lambda>_. 0))) s2 (n_parent_update (\<lambda>_. Some s2))"
  have cp: "copy_node h (Some a1) (Some s2) = Some ?g" using m1 d(1) l by (simp add: copy_node_def)
  have Ck: "nctx c k L"
  proof -
    have "nctx c (nupd h a1 (\<lambda>_. d)) L" by (rule nctx_nupd [OF C]) (simp add: dc df)
    then have "nctx c ?g L" by (rule nctx_reach) (use cl a1l l in \<open>auto simp: clean_def split: if_splits\<close>)
    then show ?thesis unfolding k_def by (intro nctx_nupd) simp_all
  qed
  have kd: "nfa_at k a1 = Some d" "nfa_at k a2 = Some (m2\<lparr>n_parent := Some s1\<rparr>)" "\<exists>d'. nfa_at k s2 = Some d' \<and> n_ctrl d' = Some c"
    using ne m1 m2 d dc by (auto simp: k_def)
  have old: "\<forall>y. y \<notin> {a1, a2, s2} \<longrightarrow> nfa_at k y = nfa_at h y" "ranges k = ranges h" "nbrk k = nbrk h" by (auto simp: k_def)
  from dealloc_ok [OF Ck ne(9)] obtain K h' where
    h': "ctget k (Some c) = Some K" "nfa_dealloc k (c_alloc K) (Some s2) = Some h'" "nctx c h' (L - {s2})" "keeps L k h'" by blast
  have e: "concatenate_nfa h (Some a1) (Some a2) = Some (Some a2, h')"
    using m1 m2 d ne cp kd(3) h'(1,2) by (auto simp: concatenate_nfa_def k_def)
  have K: "keeps (L - (N1 \<union> N2)) h h'"
    using old h'(4) e1 e2 by (auto simp: keeps_def)
  have at: "nfa_at h' a1 = Some d" "nfa_at h' a2 = Some (m2\<lparr>n_parent := Some s1\<rparr>)" "\<forall>y \<in> N1 \<union> N2 - {a1, a2, s2}. nfa_at h' y = nfa_at h y"
    "\<forall>q < nbrk h. ranges h' q = ranges h q" "nbrk h \<le> nbrk h'"
  proof -
    have k: "\<And>y. y \<in> L \<Longrightarrow> nfa_at h' y = nfa_at k y" "\<forall>q < nbrk k. ranges h' q = ranges k q" "nbrk k \<le> nbrk h'"
      using h'(4) by (simp_all add: keeps_def)
    show "nfa_at h' a1 = Some d" using k(1) [OF ne(8)] kd(1) by simp
    show "nfa_at h' a2 = Some (m2\<lparr>n_parent := Some s1\<rparr>)" using k(1) [OF ne(10)] kd(2) by simp
    show "\<forall>y \<in> N1 \<union> N2 - {a1, a2, s2}. nfa_at h' y = nfa_at h y"
    proof
      fix y assume y: "y \<in> N1 \<union> N2 - {a1, a2, s2}"
      then have "y \<in> L" "y \<notin> {a1, a2, s2}" using N(1,2) by auto
      then show "nfa_at h' y = nfa_at h y" using k(1) old(1) by simp
    qed
    show "\<forall>q < nbrk h. ranges h' q = ranges h q" using k(2) old(2,3) by simp
    show "nbrk h \<le> nbrk h'" using k(3) old(3) by simp
  qed
  have H1: "\<forall>y \<in> N1 - {a1}. nedges eol h' y = nedges eol h y"
    by (rule keeps_edges) (use F(1) at(3-5) ne in \<open>auto simp: nfrag_def keeps_def\<close>)
  have G: "frag (nedges eol h) N1 s1 a1" "frag (nedges eol h) N2 s2 a2" using F by (simp_all add: nfrag_def)
  have H2: "\<forall>y \<in> N2 - {s2}. nedges eol h' y = nedges eol h y"
  proof
    fix y assume y: "y \<in> N2 - {s2}"
    have "\<forall>y \<in> N2 - {s2, a2}. nedges eol h' y = nedges eol h y"
      by (rule keeps_edges) (use F(2) at(3-5) ne in \<open>auto simp: nfrag_def keeps_def\<close>)
    moreover have "nedges eol h' a2 = nedges eol h a2" using m2 by (simp add: nedges_at [OF at(2)] nedges_at [OF m2(1)] edge_simps)
    ultimately show "nedges eol h' y = nedges eol h y" using y by blast
  qed
  have H3: "nedges eol h' a1 = nedges eol h s2"
    unfolding nedges_at [OF at(1)] nedges_at [OF d(1)] by (rule node_ok_edges [OF d(2) at(4)])
  note cc = frag_conc [OF G N(3) H1 H2 H3]
  have all: "\<forall>x \<in> N1 \<union> N2. \<exists>n. nfa_at h x = Some n \<and> node_ok h n" using F unfolding nfrag_def by blast
  have ok: "\<exists>n. nfa_at h' y = Some n \<and> node_ok h' n" if y: "y \<in> N1 \<union> N2 - {s2}" for y
  proof (cases "y = a1 \<or> y = a2")
    case True
    then show ?thesis using at(1,2) node_ok_mono [OF d(2) at(5)] m2(2) by (auto simp: node_ok_def nfa_types)
  next
    case False
    obtain n where n: "nfa_at h y = Some n" "node_ok h n" using all y by blast
    have "nfa_at h' y = Some n" using at(3) False y n(1) by auto
    then show ?thesis using node_ok_mono [OF n(2) at(5)] by blast
  qed
  obtain r1 r2 where r: "falls r1 h N1" "falls r2 h N2" using F by (auto simp: nfrag_def)
  let ?rk = "\<lambda>y. if y \<in> N1 - {a1} then r1 y + r2 s2 + 1 else if y = a1 then r2 s2 else r2 y"
  have "\<exists>x \<in> N1 \<union> N2 - {s2}. n_out2 n = Some x \<and> ?rk x < ?rk y"
    if y: "y \<in> N1 \<union> N2 - {s2}" and n: "nfa_at h' y = Some n" "n_type n = NFA_EPSILON" for y n
  proof -
    have out: "x \<in> N2 - {s2}" "x \<notin> N1" if "x \<in> N2" "n_out2 n = Some x" "nfa_at h z = Some n" "z \<in> N2" for x z
    proof -
      have "(None, x) \<in> nedges eol h z" using that n(2) by (simp add: nedges_at edge_simps)
      then show "x \<in> N2 - {s2}" using fragD [OF G(2) that(4)] by blast
      then show "x \<notin> N1" using N by blast
    qed
    consider "y \<in> N1 - {a1}" | "y = a1" | "y = a2" | "y \<in> N2 - {s2, a2}" using y by blast
    then show ?thesis
    proof cases
      case 1
      then have "y \<noteq> a2" "y \<noteq> s2" using ne by auto
      then have "nfa_at h y = Some n" using bspec [OF at(3), of y] n(1) 1 by simp
      from fallsD [OF r(1) _ this n(2)] 1 obtain x where "x \<in> N1" "n_out2 n = Some x" "r1 x < r1 y" by blast
      then show ?thesis using 1 ne by (intro bexI [of _ x]) auto
    next
      case 2
      then have "n = d" using at(1) n(1) by simp
      then have dn: "nfa_at h s2 = Some n" using d(1) by simp
      from fallsD [OF r(2) _ this n(2)] e2 obtain x where x: "x \<in> N2" "n_out2 n = Some x" "r2 x < r2 s2" by blast
      then show ?thesis using 2 out [OF x(1,2) dn] e2 ne by (intro bexI [of _ x]) auto
    next
      case 3
      then have "n = m2\<lparr>n_parent := Some s1\<rparr>" using at(2) n(1) by simp
      then have "n_type n = NFA_ACCEPTING" using m2(2) by simp
      then show ?thesis using n(2) by (simp add: nfa_types)
    next
      case 4
      then have "y \<notin> N1" "y \<noteq> a1" using ne N by auto
      then have yn: "nfa_at h y = Some n" "y \<notin> N1" "y \<noteq> a1" using bspec [OF at(3), of y] n(1) 4 by auto
      from fallsD [OF r(2) _ yn(1) n(2)] 4 obtain x where x: "x \<in> N2" "n_out2 n = Some x" "r2 x < r2 y" by blast
      then show ?thesis using 4 out [OF x(1,2) yn(1)] yn ne by (intro bexI [of _ x]) auto
    qed
  qed
  then have "falls ?rk h' (N1 \<union> N2 - {s2})" unfolding falls_def by blast
  moreover have "flang (nedges eol h) s1 a1 = W1" "flang (nedges eol h) s2 a2 = W2" using F by (simp_all add: nfrag_def)
  moreover have "\<exists>n. nfa_at h' a2 = Some n \<and> n_type n = NFA_ACCEPTING \<and> n_parent n = Some s1" using at(2) m2(2) by simp
  ultimately have "nfrag eol h' (N1 \<union> N2 - {s2}) s1 a2 (conc W1 W2)"
    unfolding nfrag_def using cc ok by blast
  then show ?thesis using e h'(3) K by blast
qed

end
