(* ===== verification/Thompson.thy ===== *)
theory Thompson
  imports NfaConcat
begin

text \<open>
  Thompson's construction with the constructors of \<open>src/nfa.c\<close>: an expression is built by the calls
  that the parser makes for it, and the runs of the resulting graph from its start to its accepting
  node are exactly the words of the expression.
\<close>

datatype rexp = RLit u32 | RAny | RSet bool "(u32 \<times> u32) list" | RStr "byte list" | RCat rexp rexp | RStar rexp | RPlus rexp | ROpt rexp

primrec build :: "ptr \<Rightarrow> rexp \<Rightarrow> nheap \<Rightarrow> (ptr \<times> nheap) option" where
  "build ctrl (RLit l) h = new_literal_nfa h ctrl l NFA_LITERAL"
| "build ctrl RAny h = new_literal_nfa h ctrl 46 NFA_ANY"
| "build ctrl (RSet neg rs) h = do {
     (a, h) \<leftarrow> new_range_nfa h ctrl neg;
     n \<leftarrow> nget h a;
     h \<leftarrow> fold_opt (\<lambda>(low, high) h. update_range_node h low high (n_parent n) neg) rs h;
     Some (a, h) }"
| "build ctrl (RStr bs) h = new_lliteral_nfa h ctrl bs (length bs)"
| "build ctrl (RCat r r') h = do { (a, h) \<leftarrow> build ctrl r h; (b, h) \<leftarrow> build ctrl r' h; concatenate_nfa h a b }"
| "build ctrl (RStar r) h = do { (a, h) \<leftarrow> build ctrl r h; new_kleene_nfa h a }"
| "build ctrl (RPlus r) h = do { (a, h) \<leftarrow> build ctrl r h; new_posclosure_nfa h a }"
| "build ctrl (ROpt r) h = do { (a, h) \<leftarrow> build ctrl r h; new_qmark_nfa h a }"

primrec lang :: "byte \<Rightarrow> rexp \<Rightarrow> byte list set" where
  "lang eol (RLit l) = {[x] | x. x \<noteq> 0 \<and> sx x = l}"
| "lang eol RAny = {[x] | x. x \<noteq> 0 \<and> x \<noteq> eol}"
| "lang eol (RSet neg rs) = {[x] | x. x \<in> bracket_chars eol neg rs}"
| "lang eol (RStr bs) = {bs}"
| "lang eol (RCat r r') = conc (lang eol r) (lang eol r')"
| "lang eol (RStar r) = kstar (lang eol r)"
| "lang eol (RPlus r) = conc (lang eol r) (kstar (lang eol r))"
| "lang eol (ROpt r) = insert [] (lang eol r)"

text \<open>Bracket expressions with ordered ASCII bounds, and strings as the parser cuts them.\<close>

primrec wf_rexp :: "rexp \<Rightarrow> bool" where
  "wf_rexp (RLit l) = True"
| "wf_rexp RAny = True"
| "wf_rexp (RSet neg rs) = (\<forall>(low, high) \<in> set rs. low \<le> high \<and> unat high < 128)"
| "wf_rexp (RStr bs) = (bs \<noteq> [] \<and> 0 \<notin> set bs)"
| "wf_rexp (RCat r r') = (wf_rexp r \<and> wf_rexp r')"
| "wf_rexp (RStar r) = wf_rexp r"
| "wf_rexp (RPlus r) = wf_rexp r"
| "wf_rexp (ROpt r) = wf_rexp r"

text \<open>The number of nodes in use at the end.\<close>

primrec nodes :: "rexp \<Rightarrow> nat" where
  "nodes (RLit l) = 2"
| "nodes RAny = 2"
| "nodes (RSet neg rs) = 2"
| "nodes (RStr bs) = length bs + 1"
| "nodes (RCat r r') = nodes r + nodes r' - 1"
| "nodes (RStar r) = nodes r + 2"
| "nodes (RPlus r) = nodes r + 2"
| "nodes (ROpt r) = nodes r + 2"

text \<open>What building \<open>r\<close> has to achieve.\<close>

definition builds :: "byte \<Rightarrow> addr \<Rightarrow> nheap \<Rightarrow> addr set \<Rightarrow> nat \<Rightarrow> byte list set \<Rightarrow> (ptr \<times> nheap) option \<Rightarrow> bool" where
  "builds eol c h L k W m \<longleftrightarrow> (\<exists>h' N s a. m = Some (Some a, h') \<and> N \<inter> L = {} \<and> finite N \<and> card N = k \<and> nctx c h' (N \<union> L) \<and> keeps L h h' \<and>
     nfrag eol h' N s a W)"

lemma buildsE:
  assumes "builds eol c h L k W m"
  obtains h' N s a where "m = Some (Some a, h')" "N \<inter> L = {}" "finite N" "card N = k" "nctx c h' (N \<union> L)" "keeps L h h'" "nfrag eol h' N s a W"
  using assms unfolding builds_def by (elim exE conjE) (rule that)

lemma builds_char:
  assumes "nctx c h L" "ty \<in> {NFA_LITERAL, NFA_ANY}"
  shows "builds eol c h L 2 {[x] | x. x \<noteq> 0 \<and> (if ty = NFA_LITERAL then sx x = l else x \<noteq> eol)} (new_literal_nfa h (Some c) l ty)"
proof -
  from new_literal_ok [OF assms, of l eol] obtain h' s a where
    1: "new_literal_nfa h (Some c) l ty = Some (Some a, h')" "{s, a} \<inter> L = {}" "nctx c h' ({s, a} \<union> L)" "keeps L h h'"
    "nfrag eol h' {s, a} s a {[x] | x. x \<noteq> 0 \<and> (if ty = NFA_LITERAL then sx x = l else x \<noteq> eol)}"
    by (elim exE conjE) (rule that)
  have "card {s, a} = 2" using nfrag_ends [OF 1(5)] by simp
  then show ?thesis unfolding builds_def using 1 by (intro exI [of _ h'] exI [of _ "{s, a}"] exI [of _ s] exI [of _ a] conjI) simp_all
qed

lemma bit_sx: "n < 8 \<Longrightarrow> bit (sx x) n = bit x n"
  by (cases "n = 7") (simp_all add: sx_def bit_signed_iff min_def)

lemma sx_inj: "sx x = sx y \<longleftrightarrow> x = y"
proof
  assume e: "sx x = sx y"
  show "x = y"
  proof (rule bit_word_eqI)
    fix n assume "n < LENGTH(8)"
    then show "bit x n = bit y n" using bit_sx [of n x] bit_sx [of n y] e by simp
  qed
qed simp

lemma builds_concat:
  assumes 1: "nctx c h1 (N1 \<union> L)" "N1 \<inter> L = {}" "finite N1" "card N1 = k1" "keeps L h h1" "nfrag eol h1 N1 s1 a1 W1"
    and 2: "builds eol c h1 (N1 \<union> L) k2 W2 (Some (Some a2, h2))"
  shows "builds eol c h L (k1 + k2 - 1) (conc W1 W2) (concatenate_nfa h2 (Some a1) (Some a2))"
proof -
  from 2 obtain N2 s2 where
    2: "N2 \<inter> (N1 \<union> L) = {}" "finite N2" "card N2 = k2" "nctx c h2 (N2 \<union> (N1 \<union> L))" "keeps (N1 \<union> L) h1 h2" "nfrag eol h2 N2 s2 a2 W2"
    by (auto elim: buildsE)
  have F1: "nfrag eol h2 N1 s1 a1 W1" by (rule nfrag_keeps [OF 1(6) keeps_mono [OF 2(5)]]) simp
  have sub: "N1 \<subseteq> N2 \<union> (N1 \<union> L)" "N2 \<subseteq> N2 \<union> (N1 \<union> L)" "N1 \<inter> N2 = {}" using 2(1) by auto
  from concatenate_ok [OF 2(4) F1 2(6) sub] obtain h' where
    h': "concatenate_nfa h2 (Some a1) (Some a2) = Some (Some a2, h')" "nctx c h' (N2 \<union> (N1 \<union> L) - {s2})"
      "keeps (N2 \<union> (N1 \<union> L) - (N1 \<union> N2)) h2 h'" "nfrag eol h' (N1 \<union> N2 - {s2}) s1 a2 (conc W1 W2)" by (elim exE conjE) (rule that)
  have s2: "s2 \<in> N2" "s2 \<notin> L" using nfrag_ends [OF 2(6)] 2(1) by auto
  have "card (N1 \<union> N2 - {s2}) = k1 + k2 - 1" using 1(3,4) 2(2,3) s2 sub(3) by (simp add: card_Un_disjoint)
  moreover have "N2 \<union> (N1 \<union> L) - {s2} = N1 \<union> N2 - {s2} \<union> L" "N2 \<union> (N1 \<union> L) - (N1 \<union> N2) = L"
    using s2 2(1) 1(2) by auto
  moreover have "keeps L h h2" by (rule keeps_trans [OF 1(5) 2(5)]) simp
  moreover have "keeps L h2 h'" using h'(3) calculation(3) by simp
  ultimately have "keeps L h h'" "nctx c h' (N1 \<union> N2 - {s2} \<union> L)" "card (N1 \<union> N2 - {s2}) = k1 + k2 - 1"
    using keeps_trans [of L h h2 L h'] h'(2) by simp_all
  moreover have "(N1 \<union> N2 - {s2}) \<inter> L = {}" "finite (N1 \<union> N2 - {s2})" using 1(2,3) 2(1,2) by auto
  ultimately show ?thesis unfolding builds_def using h'(1,4) by blast
qed

lemma builds_then:
  assumes B: "builds eol c h L k W m" and f: "\<And>h' N s a. nctx c h' (N \<union> L) \<Longrightarrow> nfrag eol h' N s a W \<Longrightarrow> N \<subseteq> N \<union> L \<Longrightarrow>
      \<exists>g b z. f h' (Some a) = Some (Some z, g) \<and> b \<notin> N \<union> L \<and> z \<notin> N \<union> L \<and> b \<noteq> z \<and> nctx c g (insert b (insert z (N \<union> L))) \<and>
        keeps (N \<union> L - N) h' g \<and> nfrag eol g (insert b (insert z N)) b z W'"
  shows "builds eol c h L (k + 2) W' (Option.bind m (\<lambda>(a, h). f h a))"
proof -
  from B obtain h' N s a where 1: "m = Some (Some a, h')" "N \<inter> L = {}" "finite N" "card N = k" "nctx c h' (N \<union> L)" "keeps L h h'"
    "nfrag eol h' N s a W" by (rule buildsE)
  from f [OF 1(5,7)] obtain g b z where g: "f h' (Some a) = Some (Some z, g)" "b \<notin> N \<union> L" "z \<notin> N \<union> L" "b \<noteq> z"
    "nctx c g (insert b (insert z (N \<union> L)))" "keeps (N \<union> L - N) h' g" "nfrag eol g (insert b (insert z N)) b z W'" by blast
  have "N \<union> L - N = L" using 1(2) by auto
  then have "keeps L h g" using keeps_trans [OF 1(6), of L g] g(6) by simp
  moreover have "card (insert b (insert z N)) = k + 2" using 1(3,4) g(2-4) by simp
  moreover have "insert b (insert z N) \<inter> L = {}" "finite (insert b (insert z N))" using 1(2,3) g(2,3) by auto
  moreover have "nctx c g (insert b (insert z N) \<union> L)" using g(5) by simp
  moreover have "Option.bind m (\<lambda>(a, h). f h a) = Some (Some z, g)" using 1(1) g(1) by simp
  ultimately show ?thesis unfolding builds_def using g(7) by blast
qed

lemma builds_literal:
  assumes "nctx c h L" "x \<noteq> 0"
  shows "builds eol c h L 2 {[x]} (new_literal_nfa h (Some c) (sx x) NFA_LITERAL)"
proof -
  have "{[y] | y. y \<noteq> 0 \<and> (if NFA_LITERAL = NFA_LITERAL then sx y = sx x else y \<noteq> eol)} = {[x]}" using assms(2) by (auto simp: sx_inj)
  then show ?thesis using builds_char [OF assms(1), of NFA_LITERAL eol "sx x"] by simp
qed

lemma lliteral_loop_ok:
  assumes "nctx c h (N \<union> L)" "N \<inter> L = {}" "finite N" "keeps L h0 h" "nfrag eol h N s a {w}" "0 \<notin> set cs"
  shows "builds eol c h0 L (card N + length cs) {w @ cs} (lliteral_loop h (Some c) cs (Some a))"
  using assms
proof (induction cs arbitrary: h N s a w)
  case Nil
  then show ?case by (auto simp: builds_def)
next
  case (Cons x cs)
  have x: "x \<noteq> 0" "0 \<notin> set cs" using Cons.prems(6) by auto
  have B: "builds eol c h (N \<union> L) 2 {[x]} (new_literal_nfa h (Some c) (sx x) NFA_LITERAL)"
    by (rule builds_literal [OF Cons.prems(1) x(1)])
  then obtain b g where g: "new_literal_nfa h (Some c) (sx x) NFA_LITERAL = Some (Some b, g)" by (auto simp: builds_def)
  have "builds eol c h0 L (card N + 2 - 1) (conc {w} {[x]}) (concatenate_nfa g (Some a) (Some b))"
    by (rule builds_concat [OF Cons.prems(1-3) refl Cons.prems(4,5)]) (use B g in simp)
  moreover have "conc {w} {[x]} = {w @ [x]}" by (auto simp: conc_def)
  ultimately have "builds eol c h0 L (card N + 1) {w @ [x]} (concatenate_nfa g (Some a) (Some b))" by simp
  then obtain h' N' s' a' where 1: "concatenate_nfa g (Some a) (Some b) = Some (Some a', h')" "N' \<inter> L = {}" "finite N'" "card N' = card N + 1"
    "nctx c h' (N' \<union> L)" "keeps L h0 h'" "nfrag eol h' N' s' a' {w @ [x]}" by (rule buildsE)
  from Cons.IH [OF 1(5,2,3,6,7) x(2)] show ?case using g 1(1,4) by (simp add: sx_def)
qed

lemma build_str:
  assumes C: "nctx c h L" and bs: "bs \<noteq> []" "0 \<notin> set bs"
  shows "builds eol c h L (length bs + 1) {bs} (new_lliteral_nfa h (Some c) bs (length bs))"
proof -
  obtain x cs where x: "bs = x # cs" using bs(1) by (cases bs) auto
  have nz: "x \<noteq> 0" "0 \<notin> set cs" using bs(2) x by auto
  from builds_literal [OF C nz(1), of eol] obtain g N s a where 1: "new_literal_nfa h (Some c) (sx x) NFA_LITERAL = Some (Some a, g)"
    "N \<inter> L = {}" "finite N" "card N = 2" "nctx c g (N \<union> L)" "keeps L h g" "nfrag eol g N s a {[x]}" by (rule buildsE)
  have "new_lliteral_nfa h (Some c) bs (length bs) = lliteral_loop g (Some c) cs (Some a)"
    using 1(1) x by (simp add: new_lliteral_nfa_def sx_def)
  then show ?thesis using lliteral_loop_ok [OF 1(5,2,3,6,7) nz(2)] 1(4) x by simp
qed

lemma build_ok: "wf_rexp r \<Longrightarrow> nctx c h L \<Longrightarrow> builds eol c h L (nodes r) (lang eol r) (build (Some c) r h)"
proof (induction r arbitrary: h L)
  case (RLit l)
  then show ?case using builds_char [of c h L NFA_LITERAL eol l] by simp
next
  case RAny
  then show ?case using builds_char [of c h L NFA_ANY eol 46] by (simp add: nfa_types)
next
  case (RSet neg rs)
  then have rs: "\<forall>(low, high) \<in> set rs. low \<le> high \<and> unat high < 128" by simp
  from bracket_ok [OF RSet.prems(2) rs, of neg eol] obtain h1 h' s a n where
    1: "new_range_nfa h (Some c) neg = Some (Some a, h1)" "nfa_at h1 a = Some n" "n_parent n = Some s"
    "fold_opt (\<lambda>(low, high) h. update_range_node h low high (Some s) neg) rs h1 = Some h'"
    "{s, a} \<inter> L = {}" "nctx c h' ({s, a} \<union> L)" "keeps L h h'" "nfrag eol h' {s, a} s a {[x] | x. x \<in> bracket_chars eol neg rs}"
    by (elim exE conjE) (rule that)
  have "card {s, a} = 2" using nfrag_ends [OF 1(8)] by simp
  moreover have "build (Some c) (RSet neg rs) h = Some (Some a, h')" using 1(1-4) by simp
  ultimately show ?case unfolding builds_def using 1(5-8)
    by (intro exI [of _ h'] exI [of _ "{s, a}"] exI [of _ s] exI [of _ a] conjI) simp_all
next
  case (RStr bs)
  then show ?case using build_str by simp
next
  case (RCat r r')
  have w: "wf_rexp r" "wf_rexp r'" using RCat.prems(1) by simp_all
  from RCat.IH(1) [OF w(1) RCat.prems(2)] obtain h1 N1 s1 a1 where 1: "build (Some c) r h = Some (Some a1, h1)" "N1 \<inter> L = {}" "finite N1"
    "card N1 = nodes r" "nctx c h1 (N1 \<union> L)" "keeps L h h1" "nfrag eol h1 N1 s1 a1 (lang eol r)" by (rule buildsE)
  have B: "builds eol c h1 (N1 \<union> L) (nodes r') (lang eol r') (build (Some c) r' h1)" by (rule RCat.IH(2) [OF w(2) 1(5)])
  then obtain a2 h2 where 2: "build (Some c) r' h1 = Some (Some a2, h2)" by (auto simp: builds_def)
  have "builds eol c h L (nodes r + nodes r' - 1) (conc (lang eol r) (lang eol r')) (concatenate_nfa h2 (Some a1) (Some a2))"
    by (rule builds_concat [OF 1(5,2-4,6,7)]) (use B 2 in simp)
  then show ?case using 1(1) 2 by simp
next
  case (RStar r)
  then have B: "builds eol c h L (nodes r) (lang eol r) (build (Some c) r h)" by simp
  show ?case unfolding build.simps lang.simps nodes.simps by (rule builds_then [OF B]) (rule new_kleene_ok)
next
  case (RPlus r)
  then have B: "builds eol c h L (nodes r) (lang eol r) (build (Some c) r h)" by simp
  show ?case unfolding build.simps lang.simps nodes.simps by (rule builds_then [OF B]) (rule new_posclosure_ok)
next
  case (ROpt r)
  then have B: "builds eol c h L (nodes r) (lang eol r) (build (Some c) r h)" by simp
  show ?case unfolding build.simps lang.simps nodes.simps by (rule builds_then [OF B]) (rule new_qmark_ok)
qed

section \<open>Properties\<close>

lemma first_nctx:
  assumes "1 \<le> n"
  shows "\<exists>c h lh h1. new_nfa_ctrl empty_nheap lh0 = (Some c, h, lh) \<and> nfa_alloc_init h (Some c) (int n) = Some h1 \<and> nctx c h1 {}"
proof -
  obtain fr lh where l: "new_list lh0 = (fr, lh)" by fastforce
  let ?C = "\<lparr>c_id = Some 0, c_next_seq = 1, c_next_interval = 0, c_free_range = Some fr, c_alloc = None\<rparr>"
  let ?h = "empty_nheap\<lparr>ctrls := (\<lambda>_. None)(0 \<mapsto> ?C), nbrk := 1\<rparr>"
  have k: "new_nfa_ctrl empty_nheap lh0 = (Some 0, ?h, lh)" using l by (simp add: new_nfa_ctrl_def empty_nheap_def)
  have "ctrls ?h 0 = Some ?C" "\<forall>a \<ge> nbrk ?h. slots ?h a = None \<and> allocs ?h a = None" by (simp_all add: empty_nheap_def)
  from nfa_alloc_init_ok [OF this assms] obtain h1 al F where
    h1: "nfa_alloc_init ?h (Some 0) (int n) = Some h1" "ctrls h1 0 = Some (?C\<lparr>c_alloc := Some al\<rparr>)" "alloc_ok h1 al {} F [al]" by blast
  have "grows ?h h1" using nfa_alloc_init_gm [of ?h "Some 0" "int n"] h1(1) by (simp add: gm_def)
  moreover have "covered ?h" by (simp add: covered_def empty_nheap_def)
  moreover have "clean ?h" by (simp add: clean_def empty_nheap_def empty_lheap_def)
  ultimately have "clean h1" "covered h1" "ranges h1 = ranges ?h" by (simp_all add: grows_def)
  then have "nctx 0 h1 {}" using h1(2,3) by (auto simp: nctx_def pool_ok_def empty_nheap_def)
  then show ?thesis using k h1(1) by blast
qed

text \<open>C1: for every expression, built on a fresh control block with a pool of any positive size, the
  construction succeeds, uses exactly the predicted number of nodes, and the runs of the graph from
  its start to its accepting node are exactly the words of the expression.\<close>

theorem thompson_language:
  assumes "wf_rexp r" "1 \<le> n"
  shows "\<exists>c h lh h1 a h2 m s N. new_nfa_ctrl empty_nheap empty_lheap = (Some c, h, lh) \<and> nfa_alloc_init h (Some c) (int n) = Some h1 \<and>
    build (Some c) r h1 = Some (Some a, h2) \<and> nfa_at h2 a = Some m \<and> n_type m = NFA_ACCEPTING \<and> n_parent m = Some s \<and>
    (\<forall>w. run (nedges eol h2) s w a \<longleftrightarrow> w \<in> lang eol r) \<and> card N = nodes r \<and> pool_ok c h2 N"
proof -
  from first_nctx [OF assms(2), of empty_lheap] obtain c h lh h1 where
    1: "new_nfa_ctrl empty_nheap empty_lheap = (Some c, h, lh)" "nfa_alloc_init h (Some c) (int n) = Some h1" "nctx c h1 {}" by blast
  from build_ok [OF assms(1) 1(3), of eol] obtain h2 N s a where
    2: "build (Some c) r h1 = Some (Some a, h2)" "card N = nodes r" "nctx c h2 (N \<union> {})" "nfrag eol h2 N s a (lang eol r)" by (rule buildsE)
  obtain m where m: "nfa_at h2 a = Some m" "n_type m = NFA_ACCEPTING" "n_parent m = Some s" using nfrag_end [OF 2(4)] by blast
  have "flang (nedges eol h2) s a = lang eol r" using 2(4) by (rule nfrag_frag)
  then have "\<forall>w. run (nedges eol h2) s w a \<longleftrightarrow> w \<in> lang eol r" by (auto simp: flang_def)
  moreover have "pool_ok c h2 N" using 2(3) by (simp add: nctx_def)
  ultimately show ?thesis using 1(1,2) 2(1,2) m by blast
qed

text \<open>\<open>(ab|)+[0-9]*\<close>, with an initial pool of three nodes.\<close>

theorem thompson_language_witness:
  "\<exists>c h lh h1 a h2 m s N. new_nfa_ctrl empty_nheap empty_lheap = (Some c, h, lh) \<and> nfa_alloc_init h (Some c) 3 = Some h1 \<and>
    build (Some c) (RCat (RPlus (ROpt (RStr [97, 98]))) (RStar (RSet False [(48, 57)]))) h1 = Some (Some a, h2) \<and>
    nfa_at h2 a = Some m \<and> n_type m = NFA_ACCEPTING \<and> n_parent m = Some s \<and>
    (\<forall>w. run (nedges 10 h2) s w a \<longleftrightarrow> w \<in> lang 10 (RCat (RPlus (ROpt (RStr [97, 98]))) (RStar (RSet False [(48, 57)])))) \<and>
    card N = 10 \<and> pool_ok c h2 N"
proof -
  have t: "wf_rexp (RCat (RPlus (ROpt (RStr [97, 98]))) (RStar (RSet False [(48, 57)])))" "(1::nat) \<le> 3" "int 3 = 3" by simp_all
  have e: "nodes (RCat (RPlus (ROpt (RStr [97, 98]))) (RStar (RSet False [(48, 57)]))) = 10" by code_simp
  show ?thesis by (rule thompson_language [OF t(1,2), of 10, unfolded t(3) e])
qed

end
