(* ===== verification/ClosureLang.thy ===== *)
theory ClosureLang
  imports ClosureAll Thompson
begin

text \<open>
  The language of the lists that \<open>collect_adjacencies\<close> makes: reading a word along the lists accepts
  the same words as the runs of the graph.
\<close>

section \<open>Reading along lists of successors\<close>

text \<open>\<open>L x\<close> are the nodes that can follow \<open>x\<close>, \<open>P y\<close> the characters that \<open>y\<close> reads.\<close>

inductive list_run :: "(addr \<Rightarrow> addr set) \<Rightarrow> (addr \<Rightarrow> byte set) \<Rightarrow> addr \<Rightarrow> byte list \<Rightarrow> addr \<Rightarrow> bool" for L P where
  list_run_stop: "z \<in> L x \<Longrightarrow> list_run L P x [] z"
| list_run_char: "y \<in> L x \<Longrightarrow> c \<in> P y \<Longrightarrow> list_run L P y w z \<Longrightarrow> list_run L P x (c # w) z"

inductive_cases list_run_cases: "list_run L P x w z"

lemma list_run_Nil: "list_run L P x [] z \<longleftrightarrow> z \<in> L x"
  by (auto elim: list_run_cases intro: list_run_stop)

lemma list_run_Cons: "list_run L P x (c # w) z \<longleftrightarrow> (\<exists>y \<in> L x. c \<in> P y \<and> list_run L P y w z)"
  by (auto elim: list_run_cases intro: list_run_char)

definition reads :: "byte \<Rightarrow> nheap \<Rightarrow> addr \<Rightarrow> byte set" where
  "reads eol h x = (case nfa_at h x of None \<Rightarrow> {} | Some n \<Rightarrow> node_chars eol h n)"

text \<open>A part of the graph with the nodes of Thompson's construction.\<close>

definition simple_part :: "nheap \<Rightarrow> addr set \<Rightarrow> bool" where
  "simple_part h M \<longleftrightarrow> (\<forall>x \<in> M. \<exists>n. nfa_at h x = Some n \<and> node_ok h n)"

lemma simple_eps:
  assumes "nfa_at h x = Some n" "node_ok h n"
  shows "(None, y) \<in> nedges eol h x \<longleftrightarrow> Some y \<in> set (nsuccs h B x)"
    "(Some Q, y) \<in> nedges eol h x \<longleftrightarrow> n_type n \<in> {NFA_LITERAL, NFA_ANY, NFA_RANGE} \<and> Q = reads eol h x \<and> n_out2 n = Some y"
proof -
  consider "n_type n = NFA_EPSILON" | "n_type n = NFA_SPLIT" | "n_type n \<in> {NFA_LITERAL, NFA_ANY, NFA_RANGE}" | "n_type n = NFA_ACCEPTING"
    using assms(2) unfolding node_ok_def by blast
  then have "((None, y) \<in> nedges eol h x \<longleftrightarrow> Some y \<in> set (nsuccs h B x)) \<and>
    ((Some Q, y) \<in> nedges eol h x \<longleftrightarrow> n_type n \<in> {NFA_LITERAL, NFA_ANY, NFA_RANGE} \<and> Q = reads eol h x \<and> n_out2 n = Some y)"
  proof cases
    case 1
    then show ?thesis using assms(1) by (cases "n_out2 n") (auto simp: nedges_at nsuccs_def node_edges_def nfa_types)
  next
    case 2
    then show ?thesis using assms(1) by (cases "n_out1 n"; cases "n_out2 n") (auto simp: nedges_at nsuccs_def node_edges_def nfa_types)
  next
    case 3
    have "nsuccs h B x = []" using 3 assms(1) by (auto simp: nsuccs_def nfa_types)
    moreover have "nedges eol h x = chr_to (reads eol h x) (n_out2 n)"
      using 3 assms(1) by (auto simp: nedges_at node_edges_def reads_def nfa_types)
    ultimately show ?thesis using 3 by (auto simp: chr_to_def)
  next
    case 4
    then show ?thesis using assms(1) by (simp add: nedges_at nsuccs_def node_edges_def nfa_types)
  qed
  then show "(None, y) \<in> nedges eol h x \<longleftrightarrow> Some y \<in> set (nsuccs h B x)"
    "(Some Q, y) \<in> nedges eol h x \<longleftrightarrow> n_type n \<in> {NFA_LITERAL, NFA_ANY, NFA_RANGE} \<and> Q = reads eol h x \<and> n_out2 n = Some y" by blast+
qed

lemma walk_run:
  assumes "simple_part h M" "closed (nedges eol h) M" "x \<in> M" "(x, y) \<in> (walk_step h B {})\<^sup>*"
  shows "y \<in> M \<and> run (nedges eol h) x [] y"
  using assms(4)
proof (induction rule: rtrancl_induct)
  case base
  then show ?case using assms(3) by (simp add: run_refl)
next
  case (step y z)
  then obtain n where "nfa_at h y = Some n" "node_ok h n" using assms(1) by (auto simp: simple_part_def)
  then have e: "(None, z) \<in> nedges eol h y" using step(2) simple_eps(1) [of h y n z eol B] by (simp add: walk_step_def)
  then have "z \<in> M" using closedD [OF assms(2)] step by blast
  moreover have "run (nedges eol h) x ([] @ []) z" using step.IH run_eps [OF e run_refl [where x = z and G = "nedges eol h"]] by (intro run_trans) blast+
  ultimately show ?case by simp
qed

lemma run_first:
  assumes "run (nedges eol h) q w z" "simple_part h M" "closed (nedges eol h) M" "q \<in> M" "leaf h z"
  shows "if w = [] then z \<in> reaches h B {} (Some q)
    else \<exists>y \<in> reaches h B {} (Some q). \<exists>n t. nfa_at h y = Some n \<and> n_out2 n = Some t \<and> hd w \<in> reads eol h y \<and> run (nedges eol h) t (tl w) z"
  using assms
proof (induction rule: run.induct)
  case (run_refl x)
  then show ?case by (simp add: reaches_leaf)
next
  case (run_eps y x w z)
  obtain n where n: "nfa_at h x = Some n" "node_ok h n" using run_eps.prems by (auto simp: simple_part_def)
  have s: "Some y \<in> set (nsuccs h B x)" using run_eps.hyps(1) simple_eps(1) [OF n] by blast
  then have "\<not> leaf h x" using leaf_succs by fastforce
  then have sub: "reaches h B {} (Some y) \<subseteq> reaches h B {} (Some x)" using reaches_step [of h x "{}" B] s by auto
  have "y \<in> M" using closedD [OF run_eps.prems(2,3) run_eps.hyps(1)] .
  from run_eps.IH [OF run_eps.prems(1,2) this run_eps.prems(4)] sub show ?case by (auto split: if_splits)
next
  case (run_char Q y x c w z)
  obtain n where n: "nfa_at h x = Some n" "node_ok h n" using run_char.prems by (auto simp: simple_part_def)
  have e: "n_type n \<in> {NFA_LITERAL, NFA_ANY, NFA_RANGE}" "Q = reads eol h x" "n_out2 n = Some y" using run_char.hyps(1) simple_eps(2) [OF n] by auto
  then have "leaf h x" using n by (auto simp: leaf_def branching_def ntype_def nfa_types)
  then show ?case using n e run_char.hyps by (auto simp: reaches_leaf)
qed

lemma first_run:
  assumes "simple_part h M" "closed (nedges eol h) M" "q \<in> M"
    and y: "y \<in> reaches h B {} (Some q)" "nfa_at h y = Some n" "n_out2 n = Some t" "c \<in> reads eol h y" "run (nedges eol h) t w z"
  shows "run (nedges eol h) q (c # w) z"
proof -
  have "(q, y) \<in> (walk_step h B {})\<^sup>*" "leaf h y" using y(1) by (auto simp: reaches_def)
  then have qy: "y \<in> M" "run (nedges eol h) q [] y" using walk_run [OF assms(1-3)] by blast+
  then have "node_ok h n" using assms(1) y(2) by (auto simp: simple_part_def)
  moreover have "n_type n \<in> {NFA_LITERAL, NFA_ANY, NFA_RANGE}" using y(2, 4) by (auto simp: reads_def node_chars_def split: if_splits)
  ultimately have "(Some (reads eol h y), t) \<in> nedges eol h y" using simple_eps(2) [OF y(2)] y(3) by blast
  then have "run (nedges eol h) y (c # w) z" using y(4, 5) by (rule run.run_char)
  then show ?thesis using run_trans [OF qy(2)] by fastforce
qed

text \<open>From a node the lists read what the graph reads: the start goes on from itself, the others from
  their successor.\<close>

definition goes_on :: "nheap \<Rightarrow> addr \<Rightarrow> ptr" where
  "goes_on h x = (case nfa_at h x of None \<Rightarrow> None | Some n \<Rightarrow> if leaf h x then n_out2 n else Some x)"

lemma follow_goes_on: "follow h B x = reaches h B {} (goes_on h x)"
  by (auto simp: follow_def goes_on_def split: option.split)

lemma list_run_graph:
  assumes P: "simple_part h M" "closed (nedges eol h) M" and z: "leaf h z"
  shows "goes_on h x = Some q \<Longrightarrow> q \<in> M \<Longrightarrow> list_run (follow h B) (reads eol h) x w z \<longleftrightarrow> run (nedges eol h) q w z"
proof (induction w arbitrary: x q)
  case Nil
  have "run (nedges eol h) q [] z" if "z \<in> reaches h B {} (Some q)"
    using walk_run [OF P Nil(2)] that by (auto simp: reaches_def)
  moreover have "z \<in> reaches h B {} (Some q)" if "run (nedges eol h) q [] z" using run_first [OF that P Nil(2) z] by simp
  ultimately show ?case using Nil(1) by (auto simp: list_run_Nil follow_goes_on)
next
  case (Cons c w)
  have *: "goes_on h y = Some t \<and> t \<in> M" if "y \<in> reaches h B {} (Some q)" "nfa_at h y = Some n" "n_out2 n = Some t" "c \<in> reads eol h y" for y n t
  proof -
    have y: "leaf h y" "y \<in> M" using that(1) walk_run [OF P Cons.prems(2)] by (auto simp: reaches_def)
    then have ok: "node_ok h n" using P(1) that(2) by (auto simp: simple_part_def)
    have "n_type n \<in> {NFA_LITERAL, NFA_ANY, NFA_RANGE}" using that(2, 4) by (auto simp: reads_def node_chars_def split: if_splits)
    then have "(Some (reads eol h y), t) \<in> nedges eol h y" using simple_eps(2) [OF that(2) ok] that(3) by blast
    then show ?thesis using closedD [OF P(2) y(2)] y(1) that(2, 3) by (auto simp: goes_on_def)
  qed
  show ?case
  proof
    assume "list_run (follow h B) (reads eol h) x (c # w) z"
    then obtain y where y: "y \<in> reaches h B {} (Some q)" "c \<in> reads eol h y" "list_run (follow h B) (reads eol h) y w z"
      using Cons.prems(1) by (auto simp: list_run_Cons follow_goes_on)
    obtain n where n: "nfa_at h y = Some n" using y(2) by (auto simp: reads_def split: option.splits)
    have ly: "leaf h y" "y \<in> M" using y(1) walk_run [OF P Cons.prems(2)] by (auto simp: reaches_def)
    show "run (nedges eol h) q (c # w) z"
    proof (cases "n_out2 n")
      case None
      then have "follow h B y = {}" using ly n by (simp add: follow_def)
      then show ?thesis using y(3) by (auto elim: list_run_cases)
    next
      case (Some t)
      then have "run (nedges eol h) t w z" using Cons.IH [of y t] * [OF y(1) n Some y(2)] y(3) by blast
      then show ?thesis using first_run [OF P Cons.prems(2) y(1) n Some y(2)] by blast
    qed
  next
    assume "run (nedges eol h) q (c # w) z"
    from run_first [OF this P Cons.prems(2) z, of B] obtain y n t where
      y: "y \<in> reaches h B {} (Some q)" "nfa_at h y = Some n" "n_out2 n = Some t" "c \<in> reads eol h y" "run (nedges eol h) t w z" by auto
    have "list_run (follow h B) (reads eol h) y w z" using Cons.IH [of y t] * [OF y(1-4)] y(5) by blast
    then show "list_run (follow h B) (reads eol h) x (c # w) z" using y(1, 4) Cons.prems(1) by (auto simp: list_run_Cons follow_goes_on)
  qed
qed

text \<open>Only the lists of the nodes that the walk comes to matter.\<close>

lemma list_run_cong:
  assumes "list_run L P x w z" "x \<in> X" "\<And>y. y \<in> X \<Longrightarrow> L y = L' y" "\<And>y. y \<in> X \<Longrightarrow> {t \<in> L y. P t \<noteq> {}} \<subseteq> X"
  shows "list_run L' P x w z"
  using assms(1, 2)
proof (induction rule: list_run.induct)
  case (list_run_stop z x)
  then show ?case using assms(3) by (auto intro: list_run.list_run_stop)
next
  case (list_run_char y x c w z)
  then have "y \<in> X" using assms(4) by blast
  then show ?case using list_run_char assms(3) by (auto intro: list_run.list_run_char)
qed

section \<open>Fragments\<close>

lemma nfrag_simple: "nfrag eol h M s a W \<Longrightarrow> simple_part h M \<and> closed (nedges eol h) M"
  unfolding nfrag_def simple_part_def by (intro conjI, blast, rule frag_closed) blast

lemma simple_walkable:
  assumes "simple_part h M" "closed (nedges eol h) M" "falls rk h M" "finite M"
  shows "walkable h B M rk"
  unfolding walkable_def
proof (intro conjI ballI assms(4))
  fix x assume x: "x \<in> M"
  then obtain n where n: "nfa_at h x = Some n" "node_ok h n" using assms(1) by (auto simp: simple_part_def)
  have s: "\<forall>y. Some y \<in> set (nsuccs h B x) \<longrightarrow> y \<in> M" using simple_eps(1) [OF n, of _ eol B] closedD [OF assms(2) x] by blast
  have c: "n_type n \<in> {NFA_LITERAL, NFA_ANY, NFA_RANGE} \<Longrightarrow> n_out2 n = Some y \<Longrightarrow> y \<in> M" for y
    using simple_eps(2) [OF n, of _ y eol] closedD [OF assms(2) x] by blast
  have "\<forall>y. n_out2 n = Some y \<longrightarrow> y \<in> M" if acc: "n_type n \<noteq> NFA_ACCEPTING"
  proof -
    consider "n_type n = NFA_EPSILON" | "n_type n = NFA_SPLIT" | "n_type n \<in> {NFA_LITERAL, NFA_ANY, NFA_RANGE}"
      using acc n(2) by (auto simp: node_ok_def)
    then show ?thesis
    proof cases
      case 3
      then show ?thesis using c by blast
    qed (use n(1) s in \<open>simp_all add: nsuccs_def nfa_types\<close>)
  qed
  moreover have "\<forall>y. n_out2 n = Some y \<longrightarrow> rk y < rk x" if "n_type n = NFA_EPSILON"
    using that assms(3) x n(1) by (fastforce simp: falls_def)
  moreover have "n_type n \<noteq> NFA_TREE" using n(2) by (auto simp: node_ok_def nfa_types)
  ultimately have "walk_node h B M rk x n" using n(1) s by (simp add: walk_node_def)
  then show "\<exists>n. walk_node h B M rk x n" ..
qed

end
