(* ===== verification/Parser.thy ===== *)
theory Parser
  imports Compile
begin

text \<open>
  The parser, \<open>src/regex_parser.c\<close>: the operations on its state, the literals, the bracket lists
  and the intervals.

  An operation that can end the program returns the left of a sum: the message of \<open>fatal\<close>, or the
  message and the position of \<open>parser_fatal\<close> (\<open>src/errmsg.h\<close>).
\<close>

section \<open>Errors\<close>

datatype perr = Fatal string | Parser_fatal string int

definition INVALID_RANGE_EXPRESSION_ERROR :: string where
  "INVALID_RANGE_EXPRESSION_ERROR = ''Invalid range expression where low_bound > high_bound''"
definition INVALID_INTERVAL_EXPRESSION_ERROR :: string where
  "INVALID_INTERVAL_EXPRESSION_ERROR = ''Invalid interval, min > max''"
definition MALFORMED_COLLATION_EXPRESSION_ERROR :: string where
  "MALFORMED_COLLATION_EXPRESSION_ERROR = ''Malformed bracket expression; missing '.]', ':]' or '=]'' @ [CHR 0x27]"
definition UNKNOWN_CHARCLASS_ERROR :: string where
  "UNKNOWN_CHARCLASS_ERROR = ''Unrecognized character-class''"
definition MISSING_OPEN_BRACE_ERROR :: string where
  "MISSING_OPEN_BRACE_ERROR = ''Missing opening brace''"
definition MISSING_OPEN_BRACKET_ERROR :: string where
  "MISSING_OPEN_BRACKET_ERROR = ''Missing opening bracket''"
definition MISSING_OPEN_PAREN_ERROR :: string where
  "MISSING_OPEN_PAREN_ERROR = ''Missing opening paren''"
definition MISSING_CLOSE_PAREN_ERROR :: string where
  "MISSING_CLOSE_PAREN_ERROR = ''Missing closing paren''"
definition MISSING_CLOSE_BRACKET_ERROR :: string where
  "MISSING_CLOSE_BRACKET_ERROR = ''Missing closing bracket''"
definition MISSING_CLOSE_BRACE_ERROR :: string where
  "MISSING_CLOSE_BRACE_ERROR = ''Missing closing brace''"
definition INVALID_BACKREF_ERROR :: string where
  "INVALID_BACKREF_ERROR = ''Invalid back-reference''"
definition INVALID_PARSE_START_ERROR :: string where
  "INVALID_PARSE_START_ERROR = ''Expected char or '('' @ [CHR 0x27]"

text \<open>A step that may end the program, and what follows it.\<close>

type_synonym presult = "(perr + parser) option"

definition andthen :: "(perr + 'v) option \<Rightarrow> ('v \<Rightarrow> (perr + 'w) option) \<Rightarrow> (perr + 'w) option" where
  "andthen m f = do { r \<leftarrow> m; (case r of Inl e \<Rightarrow> Some (Inl e) | Inr x \<Rightarrow> f x) }"

definition fine :: "'v option \<Rightarrow> (perr + 'v) option" where
  "fine m = map_option Inr m"

definition parser_fatal :: "parser \<Rightarrow> string \<Rightarrow> int \<Rightarrow> (perr + 'v) option" where
  "parser_fatal p msg back = do { s \<leftarrow> parser_scanner p; Some (Inl (Parser_fatal msg (readhead s - back))) }"

section \<open>The state\<close>

definition sym_push :: "parser \<Rightarrow> ptr \<Rightarrow> parser option" where
  "sym_push p x = do { (_, p) \<leftarrow> pl_op p (\<lambda>lh. stack_push lh (ps_symbol_stack p) x); Some p }"

definition sym_pop :: "parser \<Rightarrow> (ptr \<times> parser) option" where
  "sym_pop p = pl_op p (\<lambda>lh. stack_pop lh (ps_symbol_stack p))"

definition sym_size :: "parser \<Rightarrow> int option" where
  "sym_size p = list_size (ps_lists p) (ps_symbol_stack p)"

definition nf_op :: "parser \<Rightarrow> (nheap \<Rightarrow> (ptr \<times> nheap) option) \<Rightarrow> (ptr \<times> parser) option" where
  "nf_op p f = do { (x, h) \<leftarrow> f (ps_nfa p); Some (x, p\<lparr>ps_nfa := h\<rparr>) }"

text \<open>\<open>push(concatenate_nfa(left, right))\<close>, and with the two operands popped.\<close>

definition push_concat :: "parser \<Rightarrow> ptr \<Rightarrow> ptr \<Rightarrow> parser option" where
  "push_concat p left right = do {
     (x, p) \<leftarrow> nf_op p (\<lambda>h. concatenate_nfa h left right);
     sym_push p x }"

definition pop_concat :: "parser \<Rightarrow> parser option" where
  "pop_concat p = do {
     (right, p) \<leftarrow> sym_pop p;
     (left, p) \<leftarrow> sym_pop p;
     push_concat p left right }"

definition parser_consume_token :: "parser \<Rightarrow> parser option" where
  "parser_consume_token p = do {
     a \<leftarrow> ps_scanner p;
     s \<leftarrow> ps_scanners p a;
     (sn, cf, s) \<leftarrow> regex_scan (ps_seen_newline p) (ps_flags p) s;
     t \<leftarrow> curtoken s;
     Some (p\<lparr>ps_seen_newline := sn, ps_flags := cf, ps_scanners := (ps_scanners p)(a \<mapsto> s), ps_lookahead := t\<rparr>) }"

definition parser_unput :: "parser \<Rightarrow> parser option" where
  "parser_unput p = do {
     a \<leftarrow> ps_scanner p;
     s \<leftarrow> ps_scanners p a;
     so \<leftarrow> unput (Some s);
     s \<leftarrow> so;
     Some (p\<lparr>ps_scanners := (ps_scanners p)(a \<mapsto> s)\<rparr>) }"

definition parser_backtrack :: "parser \<Rightarrow> parser option" where
  "parser_backtrack p = do { p \<leftarrow> parser_unput p; p \<leftarrow> parser_unput p; parser_consume_token p }"

definition look :: "parser \<Rightarrow> symbol_type" where
  "look p = t_type (ps_lookahead p)"

definition look_value :: "parser \<Rightarrow> u32" where
  "look_value p = t_value (ps_lookahead p)"

definition parser_pos :: "parser \<Rightarrow> int option" where
  "parser_pos p = do { s \<leftarrow> parser_scanner p; Some (get_cur_pos (Some s)) }"

text \<open>The bytes at an address of the scanner's buffer.\<close>

definition bytes_from :: "parser \<Rightarrow> int \<Rightarrow> byte list option" where
  "bytes_from p a = do {
     s \<leftarrow> parser_scanner p;
     _ \<leftarrow> ensure (buffer s \<le> a \<and> a \<le> buffer s + int (length (bytes s)));
     Some (drop (nat (a - buffer s)) (bytes s)) }"

partial_function (option) upper_loop :: "int \<Rightarrow> scanner \<Rightarrow> scanner option" where [code]:
  "upper_loop c s = (if c \<noteq> get_buffer_end (Some s) - 1 then do {
       x \<leftarrow> char_at s c;
       s \<leftarrow> char_put s c (if 97 \<le> x \<and> x \<le> 122 then x - 32 else x);
       upper_loop (c + 1) s }
     else Some s)"

text \<open>\<open>init_parser\<close>; the heaps and the stack of scanners are those of the program at that time.\<close>

definition init_parser ::
    "(addr \<Rightarrow> scanner option) \<Rightarrow> ptr \<Rightarrow> addr \<Rightarrow> addr lheap \<Rightarrow> (nat \<Rightarrow> int) \<Rightarrow> u32 \<Rightarrow> presult" where
  "init_parser ss scn gs gl base cfl = (if scn = None
     then Some (Inl (Fatal ''FAILED TO INITIALIZE PARSER, NO SCANNER PROVIDED''))
     else do {
       let (sym, lh) = new_list empty_lheap;
       let (br, lh) = new_list lh;
       let (sp, ph) = new_list empty_lheap;
       let (ct, nh, lh) = new_nfa_ctrl empty_nheap lh;
       let p = \<lparr>ps_scanners = ss, ps_scanner = scn, ps_gs = gs, ps_glists = gl, ps_nfa = nh, ps_lists = lh, ps_pats = ph,
         ps_symbol_stack = Some sym, ps_branch_stack = Some br, ps_synth_patterns = Some sp, ps_lookahead = new_token,
         ps_nfa_ctrl = ct, ps_flags = cfl, ps_paren_stack = None, ps_prev_interval = None, ps_prev_interval_head = None,
         ps_paren_count = 0, ps_subtree_branch_count = 0, ps_cgrp_count = 0, ps_current_cgrp = 0, ps_in_new_cgrp = 0,
         ps_paren_idx = 0, ps_in_alternation = 0, ps_tree_count = 0, ps_branch = 0, ps_lowest_id_on_branch = 0,
         ps_interval_count = 0, ps_total_nfa_ids = 0,
         ps_capgrp_record = replicate (nat CGRP_MAX) \<lparr>cg_next_id = 0, cg_end = 0\<rparr>,
         ps_cgrp_map = replicate (nat CGRP_MAP_SIZE) 0, ps_seen_newline = False, ps_matching_list_len = 0,
         ps_charclass = replicate 128 0, ps_charclass_used = 0, ps_recursion = 0, ps_print = False, ps_base = base\<rparr>;
       p \<leftarrow> parser_consume_token p;
       p \<leftarrow> (if has_flag IGNORE_CASE_FLAG (ps_flags p) then do {
               a \<leftarrow> ps_scanner p;
               s \<leftarrow> ps_scanners p a;
               s \<leftarrow> upper_loop (get_cur_pos (Some s)) s;
               Some (p\<lparr>ps_scanners := (ps_scanners p)(a \<mapsto> s)\<rparr>) }
             else Some p);
       Some (Inr p) })"

section \<open>Capture groups\<close>

definition set_node_id :: "parser \<Rightarrow> ptr \<Rightarrow> u32 \<Rightarrow> parser option" where
  "set_node_id p x i = pn_set p x (n_id_update (\<lambda>_. i))"

definition set_capgrp :: "parser \<Rightarrow> (cgrecord \<Rightarrow> cgrecord) \<Rightarrow> parser option" where
  "set_capgrp p f = do {
     r \<leftarrow> arr_get (ps_capgrp_record p) (ps_current_cgrp p - 1);
     l \<leftarrow> arr_set (ps_capgrp_record p) (ps_current_cgrp p - 1) (f r);
     Some (p\<lparr>ps_capgrp_record := l\<rparr>) }"

definition paren_top :: "parser \<Rightarrow> int \<Rightarrow> int option" where
  "paren_top p i = do { l \<leftarrow> ps_paren_stack p; arr_get l i }"

definition track_capture_group :: "parser \<Rightarrow> u32 \<Rightarrow> (bool \<times> parser) option" where
  "track_capture_group p ty = do {
     b \<leftarrow> cgrp_has_backref (ps_cgrp_map p) (ps_current_cgrp p);
     p \<leftarrow> (if b \<noteq> 0 then do {
             (right, p) \<leftarrow> nf_op p (\<lambda>h. new_literal_nfa h (ps_nfa_ctrl p) NFA_LITERAL ty);
             (left, p) \<leftarrow> sym_pop p;
             r \<leftarrow> pn_get p right;
             rp \<leftarrow> pn_get p (n_parent r);
             p \<leftarrow> (if ty = NFA_CAPTUREGRP_BEGIN then set_capgrp p (cg_next_id_update (\<lambda>_. n_id rp)) else Some p);
             k \<leftarrow> paren_top p (ps_paren_idx p - 1);
             p \<leftarrow> set_node_id p (n_parent r) (word_of_int (k - 1));
             push_concat p left right }
           else Some p);
     p \<leftarrow> (if ty = NFA_CAPTUREGRP_END then do {
             p \<leftarrow> (if b \<noteq> 0 then do { pos \<leftarrow> parser_pos p; set_capgrp p (cg_end_update (\<lambda>_. pos)) } else Some p);
             Some (p\<lparr>ps_current_cgrp := ps_current_cgrp p - 1\<rparr>) }
           else Some p);
     Some (b \<noteq> 0, p) }"

text \<open>The result of \<open>update_open_paren_accounting\<close> is the count of branches to restore.\<close>

definition update_open_paren_accounting :: "parser \<Rightarrow> (int \<times> parser) option" where
  "update_open_paren_accounting p = do {
     let p = p\<lparr>ps_in_new_cgrp := 1, ps_paren_count := ps_paren_count p + 1, ps_cgrp_count := ps_cgrp_count p + 1\<rparr>;
     let p = p\<lparr>ps_current_cgrp := ps_cgrp_count p\<rparr>;
     l \<leftarrow> ps_paren_stack p;
     l \<leftarrow> arr_set l (ps_paren_idx p) (ps_cgrp_count p);
     let p = p\<lparr>ps_paren_stack := Some l, ps_paren_idx := ps_paren_idx p + 1\<rparr>;
     (_, p) \<leftarrow> track_capture_group p NFA_CAPTUREGRP_BEGIN;
     Some (ps_subtree_branch_count p, p\<lparr>ps_subtree_branch_count := 0\<rparr>) }"

definition update_close_paren_accounting :: "parser \<Rightarrow> int \<Rightarrow> parser" where
  "update_close_paren_accounting p subtree_br_cnt =
     p\<lparr>ps_subtree_branch_count := subtree_br_cnt, ps_paren_idx := ps_paren_idx p - 1\<rparr>"

definition validate_backref :: "parser \<Rightarrow> presult" where
  "validate_backref p = do {
     let val = sint (look_value p);
     bad \<leftarrow> (if val = 0 \<or> val > CGRP_MAX then Some True
             else do { r \<leftarrow> arr_get (ps_capgrp_record p) (val - 1); Some (cg_end r = 0) });
     (if bad then parser_fatal p INVALID_BACKREF_ERROR 0
      else if ps_in_alternation p \<noteq> 0 then do {
        tmp \<leftarrow> list_get_tail (ps_lists p) (ps_branch_stack p);
        t \<leftarrow> pn_get p tmp;
        tp \<leftarrow> pn_get p (n_parent t);
        r \<leftarrow> arr_get (ps_capgrp_record p) (val - 1);
        (if sint (n_id tp) \<le> sint (cg_next_id r) \<and> sint (cg_next_id r) < ps_lowest_id_on_branch p
         then parser_fatal p INVALID_BACKREF_ERROR 0 else Some (Inr p)) }
      else Some (Inr p)) }"

section \<open>Intervals\<close>

definition rep_join :: "int \<Rightarrow> u32 \<Rightarrow> u32" where
  "rep_join m r = (if m = 0 \<or> r = 0 then r + word_of_int m else r * word_of_int m)"

definition merge_intervals :: "parser \<Rightarrow> int \<Rightarrow> int \<Rightarrow> ptr \<Rightarrow> (bool \<times> parser) option" where
  "merge_intervals p mn mx target = do {
     t \<leftarrow> pn_get p target;
     tmp \<leftarrow> tighten (ps_nfa p) (n_parent t);
     m \<leftarrow> (if ps_prev_interval_head p = tmp then do {
            i \<leftarrow> pn_get p (ps_prev_interval p);
            e \<leftarrow> pn_get p (n_out2 i);
            Some (n_out2 e = None) }
          else Some False);
     (if m then do {
        i \<leftarrow> pn_get p (ps_prev_interval p);
        (a, b) \<leftarrow> low_reps (n_low i);
        p \<leftarrow> pn_set p (ps_prev_interval p) (n_low_update (\<lambda>_. UReps (rep_join mn a) (rep_join mx b)));
        p \<leftarrow> sym_push p target;
        Some (True, p) }
      else Some (False, p)) }"

partial_function (option) discard_whitespace :: "parser \<Rightarrow> parser option" where [code]:
  "discard_whitespace p = (if look_value p = 32 \<or> look_value p = 9
     then do { p \<leftarrow> parser_consume_token p; discard_whitespace p } else Some p)"

partial_function (option) convert_to_uint :: "int \<Rightarrow> int \<Rightarrow> parser \<Rightarrow> (int \<times> parser) option" where [code]:
  "convert_to_uint dec_pos interval p = (if look p = ASCIIDIGIT then do {
       let interval = sint (word_of_int (interval * (dec_pos * 10)) + (look_value p - 48));
       p \<leftarrow> parser_consume_token p;
       convert_to_uint (dec_pos * 10 + 1) interval p }
     else Some (interval, p))"

definition interval_bound :: "parser \<Rightarrow> (int \<times> parser) option" where
  "interval_bound p = do {
     p \<leftarrow> discard_whitespace p;
     (v, p) \<leftarrow> convert_to_uint 0 (-1) p;
     p \<leftarrow> discard_whitespace p;
     Some (v, p) }"

definition bound_join :: "int \<Rightarrow> int \<Rightarrow> int" where
  "bound_join m l = (if m = -1 then l else if l \<ge> 0 then m * l else m)"

partial_function (option) interval_loop :: "int \<Rightarrow> int \<Rightarrow> parser \<Rightarrow> (int \<times> int \<times> bool \<times> parser) option" where [code]:
  "interval_loop mn mx p = do {
     p \<leftarrow> parser_consume_token p;
     (local_min, p) \<leftarrow> interval_bound p;
     (local_max, p) \<leftarrow> (if look_value p = 44 then do { p \<leftarrow> parser_consume_token p; interval_bound p }
        else Some (-1, p));
     let mn = bound_join mn local_min;
     let mx = bound_join mx local_max;
     (braces_balance, p) \<leftarrow> (if look p = CLOSEBRACE then do { p \<leftarrow> parser_consume_token p; Some (True, p) }
        else Some (False, p));
     (if mn \<noteq> -1 \<and> braces_balance \<and> look p = OPENBRACE then interval_loop mn mx p
      else Some (mn, mx, braces_balance, p)) }"

definition make_interval :: "parser \<Rightarrow> ptr \<Rightarrow> int \<Rightarrow> int \<Rightarrow> (ptr \<times> parser) option" where
  "make_interval p target mn mx = do {
     (x, head, interval, h) \<leftarrow> new_interval_nfa (ps_nfa p) target (word_of_int mn) (word_of_int mx);
     Some (x, p\<lparr>ps_nfa := h, ps_prev_interval_head := head, ps_prev_interval := interval,
       ps_interval_count := ps_interval_count p + 1\<rparr>) }"

definition interval_with_max :: "parser \<Rightarrow> ptr \<Rightarrow> int \<Rightarrow> int \<Rightarrow> presult" where
  "interval_with_max p target mn mx = (if mx \<noteq> 0 \<and> mn > mx then parser_fatal p INVALID_INTERVAL_EXPRESSION_ERROR 2
     else if mn = 0 \<and> mx = 1 then fine (do {
       (x, p) \<leftarrow> nf_op p (\<lambda>h. new_qmark_nfa h target);
       p \<leftarrow> sym_push p x;
       Some (p\<lparr>ps_interval_count := ps_interval_count p + 1\<rparr>) })
     else if mn = 1 \<and> mx = 1 then fine (sym_push p target)
     else fine (do {
       let mn = (if \<not> (mn > 0 \<and> mx = 0) then (if mn \<ge> 0 then mn else 0) else mn);
       (merged, p) \<leftarrow> merge_intervals p mn mx target;
       (if merged then Some p else do { (x, p) \<leftarrow> make_interval p target mn mx; sym_push p x }) }))"

definition interval_without_max :: "parser \<Rightarrow> ptr \<Rightarrow> int \<Rightarrow> int \<Rightarrow> parser option" where
  "interval_without_max p target mn mx = (if mn = 1 \<and> mx = -1 then do {
       (x, p) \<leftarrow> nf_op p (\<lambda>h. new_posclosure_nfa h target);
       sym_push p x }
     else if mn > 0 \<and> mx = -1 then do {
       (x, p) \<leftarrow> make_interval p target mn mx;
       (left, p) \<leftarrow> sym_pop p;
       push_concat p left x }
     else if mn = -1 \<and> mx = -1 then do {
       (x, p) \<leftarrow> nf_op p (\<lambda>h. new_kleene_nfa h target);
       sym_push p x }
     else do {
       c \<leftarrow> ctget (ps_nfa p) (ps_nfa_ctrl p);
       h \<leftarrow> nfa_dealloc (ps_nfa p) (c_alloc c) target;
       let p = p\<lparr>ps_nfa := h\<rparr>;
       let p = (if ps_in_alternation p \<noteq> 0 then p\<lparr>ps_subtree_branch_count := ps_subtree_branch_count p - 1\<rparr> else p);
       sz \<leftarrow> sym_size p;
       (if sz = 0 \<and> ps_in_alternation p = 0 then do {
          (accept, p) \<leftarrow> nf_op p (\<lambda>h. new_nfa h (ps_nfa_ctrl p) NFA_ACCEPTING);
          p \<leftarrow> pn_set p accept (n_parent_update (\<lambda>_. accept));
          sym_push p accept }
        else Some p) })"

definition parse_interval_expression :: "parser \<Rightarrow> presult" where
  "parse_interval_expression p = do {
     (target, p) \<leftarrow> sym_pop p;
     (mn, mx, braces_balance, p) \<leftarrow> interval_loop (-1) (-1) p;
     (if \<not> braces_balance then parser_fatal p MISSING_CLOSE_BRACE_ERROR 0
      else if mx > 0 then interval_with_max p target mn mx
      else fine (interval_without_max p target mn mx)) }"

section \<open>Literals\<close>

text \<open>The loop that extends a literal to a string; the type of the token is \<open>next\<close>.\<close>

partial_function (option) literal_loop :: "int \<Rightarrow> parser \<Rightarrow> (int \<times> parser) option" where [code]:
  "literal_loop len p = (
     if (look p = ASCIIDIGIT \<or> look p = ALPHA) \<and> look_value p \<noteq> 92 then do {
       p \<leftarrow> parser_consume_token p;
       literal_loop (len + 1) p }
     else if look p \<in> {OPENBRACE, KLEENE, QMARK, PLUS} then do {
       p \<leftarrow> parser_backtrack p;
       (if len - 1 > 1 then do { p \<leftarrow> parser_backtrack p; Some (len - 2, p) } else Some (len - 1, p)) }
     else do { p \<leftarrow> parser_backtrack p; Some (len - 1, p) })"

definition string_literal :: "parser \<Rightarrow> (ptr \<times> parser) option" where
  "string_literal p = do {
     src \<leftarrow> parser_pos p;
     p \<leftarrow> parser_consume_token (p\<lparr>ps_flags := clear_flag ESCP_SEQ_FLAG (ps_flags p)\<rparr>);
     (len, p) \<leftarrow> literal_loop 2 p;
     let p = p\<lparr>ps_flags := set_flag ESCP_SEQ_FLAG (ps_flags p)\<rparr>;
     bs \<leftarrow> bytes_from p src;
     (if len > 1 then nf_op p (\<lambda>h. new_lliteral_nfa h (ps_nfa_ctrl p) bs (nat len))
      else do {
        _ \<leftarrow> ensure (bs \<noteq> []);
        nf_op p (\<lambda>h. new_literal_nfa h (ps_nfa_ctrl p) (word_of_int (sint (hd bs))) NFA_LITERAL) }) }"

definition one_literal :: "parser \<Rightarrow> (ptr \<times> parser) option" where
  "one_literal p = do {
     (nfa, p) \<leftarrow> (if look p = DOT then nf_op p (\<lambda>h. new_literal_nfa h (ps_nfa_ctrl p) (look_value p) NFA_ANY)
        else if look p = DOLLAR then nf_op p (\<lambda>h. new_literal_nfa h (ps_nfa_ctrl p) (look_value p) NFA_EOL_ANCHOR)
        else if look p = CIRCUMFLEX then nf_op p (\<lambda>h. new_literal_nfa h (ps_nfa_ctrl p) (look_value p) NFA_BOL_ANCHOR)
        else string_literal p);
     p \<leftarrow> parser_consume_token p;
     Some (nfa, p) }"

section \<open>Bracket expressions\<close>

primrec charclass_search :: "u32 \<Rightarrow> u32 list \<Rightarrow> nat \<Rightarrow> nat \<Rightarrow> nat option" where
  "charclass_search element cs i 0 = None"
| "charclass_search element cs i (Suc k) = (if element = cs ! i then Some i else charclass_search element cs (i + 1) k)"

definition token_in_charclass :: "parser \<Rightarrow> u32 \<Rightarrow> bool \<Rightarrow> (bool \<times> parser) option" where
  "token_in_charclass p element reset = (if reset
     then Some (False, p\<lparr>ps_charclass := replicate 128 0, ps_charclass_used := 0\<rparr>)
     else (case charclass_search element (ps_charclass p) 0 (ps_charclass_used p) of
       Some i \<Rightarrow> Some (True, p)
     | None \<Rightarrow> do {
         cs \<leftarrow> arr_set (ps_charclass p) (int (ps_charclass_used p)) element;
         Some (False, p\<lparr>ps_charclass := cs, ps_charclass_used := ps_charclass_used p + 1\<rparr>) }))"

definition add_range :: "parser \<Rightarrow> ptr \<Rightarrow> bool \<Rightarrow> u32 \<Rightarrow> u32 \<Rightarrow> parser option" where
  "add_range p range_nfa negate low high = do {
     h \<leftarrow> update_range_node (ps_nfa p) low high range_nfa negate;
     Some (p\<lparr>ps_nfa := h\<rparr>) }"

definition lower :: "u32 \<Rightarrow> bool" where "lower v \<longleftrightarrow> 97 \<le> v \<and> v \<le> 122"
definition upper :: "u32 \<Rightarrow> bool" where "upper v \<longleftrightarrow> 65 \<le> v \<and> v \<le> 90"

text \<open>A range \<open>a-b\<close>; the two tokens are given by their values.\<close>

definition bracket_range :: "parser \<Rightarrow> ptr \<Rightarrow> bool \<Rightarrow> u32 \<Rightarrow> u32 \<Rightarrow> presult" where
  "bracket_range p range_nfa negate a b = (
     if lower a then
       (if lower b then
          (if a > b then parser_fatal p INVALID_RANGE_EXPRESSION_ERROR 0
           else fine (add_range p range_nfa negate a b))
        else if upper b then fine (do { p \<leftarrow> add_range p range_nfa negate a 122; add_range p range_nfa negate 65 b })
        else parser_fatal p INVALID_RANGE_EXPRESSION_ERROR 0)
     else if a \<le> b then
       (if upper a then
          (if upper b then fine (add_range p range_nfa negate a b)
           else parser_fatal p INVALID_RANGE_EXPRESSION_ERROR 0)
        else fine (add_range p range_nfa negate a b))
     else parser_fatal p INVALID_RANGE_EXPRESSION_ERROR 0)"

partial_function (option) class_end_loop :: "symbol_type \<Rightarrow> token \<Rightarrow> parser \<Rightarrow> (token \<times> parser) option" where [code]:
  "class_end_loop delim prev_token p = (if look p \<noteq> EOF_SYM then
       (if look p = CLOSEBRACKET \<and> t_type prev_token = delim then Some (prev_token, p)
        else do {
          let prev_token = ps_lookahead p;
          p \<leftarrow> parser_consume_token p;
          class_end_loop delim prev_token p })
     else Some (prev_token, p))"

definition parser_readhead :: "parser \<Rightarrow> int option" where
  "parser_readhead p = do { s \<leftarrow> parser_scanner p; Some (get_scanner_readhead (Some s)) }"

text \<open>An expression \<open>[:name:]\<close>, \<open>[.name.]\<close> or \<open>[=name=]\<close>. The result also tells whether
  \<open>parse_matching_list\<close> returns at once. The warnings for the last two are output only.\<close>

definition bracket_class :: "parser \<Rightarrow> ptr \<Rightarrow> bool \<Rightarrow> (perr + bool \<times> parser) option" where
  "bracket_class p range_nfa negate = do {
     let delim = look p;
     let prev_token = ps_lookahead p;
     str_start \<leftarrow> parser_readhead p;
     p \<leftarrow> parser_consume_token p;
     (str_start, prev_token, p) \<leftarrow> (if look p = CLOSEBRACKET then do {
          str_start \<leftarrow> parser_readhead p;
          let prev_token = ps_lookahead p;
          (x, p) \<leftarrow> nf_op p (\<lambda>h. new_literal_nfa h (ps_nfa_ctrl p) (look_value p) NFA_LITERAL);
          p \<leftarrow> sym_push p x;
          p \<leftarrow> parser_consume_token p;
          Some (str_start, prev_token, p) }
        else Some (str_start, prev_token, p));
     (prev_token, p) \<leftarrow> class_end_loop delim prev_token p;
     (if look p \<noteq> CLOSEBRACKET \<and> t_type prev_token \<noteq> delim
      then parser_fatal p MALFORMED_COLLATION_EXPRESSION_ERROR 0
      else do {
        r \<leftarrow> parser_readhead p;
        let coll_str_len = r - str_start - 2;
        (if coll_str_len \<le> 0 then Some (Inr (True, p)) else do {
           bs \<leftarrow> bytes_from p str_start;
           (ok, p) \<leftarrow> (if delim = COLON then do {
                (ok, h) \<leftarrow> update_range_node_w_collation (ps_nfa p) (strndup bs coll_str_len) (nat coll_str_len) range_nfa negate;
                Some (ok, p\<lparr>ps_nfa := h\<rparr>) }
              else Some (True, p));
           (if \<not> ok then parser_fatal p UNKNOWN_CHARCLASS_ERROR 0
            else do { p \<leftarrow> parser_consume_token p; Some (Inr (False, p)) }) }) }) }"

text \<open>One element that is not a class: a range or a single character.\<close>

definition bracket_element :: "parser \<Rightarrow> token \<Rightarrow> ptr \<Rightarrow> bool \<Rightarrow> presult" where
  "bracket_element p prev_token range_nfa negate = (if look p = HYPHEN then do {
       p \<leftarrow> parser_consume_token p;
       andthen (bracket_range p range_nfa negate (t_value prev_token) (look_value p))
         (\<lambda>p. fine (parser_consume_token p)) }
     else fine (add_range p range_nfa negate (t_value prev_token) (t_value prev_token)))"

end
