(* ===== verification/Grammar.thy ===== *)
theory Grammar
  imports Parser
begin

text \<open>
  The recursive descent of \<open>src/regex_parser.c\<close>.

  The seven functions call each other. Each is a definition that takes the calls as a parameter
  \<open>rec\<close>, which a tag selects, and \<open>parse\<close> is the iteration of their bodies on a bound of the depth
  of the calls; \<open>None\<close> is also the result of a bound that is too small.
\<close>

section \<open>The functions\<close>

datatype phrase = Start | Sub | Quantifier | Paren | Bracket | Literal | Matching ptr bool

type_synonym parse_fun = "phrase \<Rightarrow> parser \<Rightarrow> presult"

text \<open>\<open>parse_matching_list\<close>.\<close>

definition dot_colon_or_equal :: "token \<Rightarrow> bool" where
  "dot_colon_or_equal l \<longleftrightarrow> t_type l = DOT \<or> t_type l = COLON \<or> t_type l = EQUAL"

definition more_matching :: "parse_fun \<Rightarrow> ptr \<Rightarrow> bool \<Rightarrow> parser \<Rightarrow> presult" where
  "more_matching rec range_nfa negate p =
     andthen (rec (Matching range_nfa negate) (p\<lparr>ps_matching_list_len := ps_matching_list_len p + 1\<rparr>))
       (\<lambda>p. Some (Inr (p\<lparr>ps_matching_list_len := ps_matching_list_len p - 1\<rparr>)))"

definition parse_matching_list :: "parse_fun \<Rightarrow> ptr \<Rightarrow> bool \<Rightarrow> parser \<Rightarrow> presult" where
  "parse_matching_list rec range_nfa negate p = do {
     let prev_token = ps_lookahead p;
     p \<leftarrow> parser_consume_token p;
     (if t_type prev_token = EOF_SYM then Some (Inr p)
      else if t_type prev_token = OPENBRACKET \<and> dot_colon_or_equal (ps_lookahead p) then
        andthen (bracket_class p range_nfa negate) (\<lambda>(stop, p).
          if stop then Some (Inr p) else more_matching rec range_nfa negate p)
      else if t_type prev_token = CLOSEBRACKET \<and> ps_matching_list_len p > 0 then fine (parser_backtrack p)
      else if look p = EOF_SYM then Some (Inr p)
      else andthen (bracket_element p prev_token range_nfa negate) (more_matching rec range_nfa negate)) }"

definition parse_bracket_expression :: "parse_fun \<Rightarrow> parser \<Rightarrow> presult" where
  "parse_bracket_expression rec p = do {
     p \<leftarrow> sym_push p None;
     p \<leftarrow> parser_consume_token (p\<lparr>ps_flags := clear_flag ESCP_SEQ_FLAG (ps_flags p)\<rparr>);
     (negate, p) \<leftarrow> (if look p = CIRCUMFLEX then do { p \<leftarrow> parser_consume_token p; Some (True, p) } else Some (False, p));
     (range_nfa, p) \<leftarrow> nf_op p (\<lambda>h. new_range_nfa h (ps_nfa_ctrl p) negate);
     p \<leftarrow> sym_push p range_nfa;
     r \<leftarrow> pn_get p range_nfa;
     andthen (rec (Matching (n_parent r) negate) p) (\<lambda>p.
       if look p \<noteq> CLOSEBRACKET then parser_fatal p MISSING_CLOSE_BRACKET_ERROR 0
       else do {
         (_, p) \<leftarrow> token_in_charclass p 0 True;
         p \<leftarrow> parser_consume_token (p\<lparr>ps_flags := set_flag ESCP_SEQ_FLAG (ps_flags p)\<rparr>);
         (right, p) \<leftarrow> sym_pop p;
         (left, p) \<leftarrow> sym_pop p;
         (if left \<noteq> None then Some (Inl (Fatal ''Error parsing bracket expression''))
          else do { p \<leftarrow> sym_push p right; rec Quantifier p }) }) }"

definition parse_literal_expression :: "parse_fun \<Rightarrow> parser \<Rightarrow> presult" where
  "parse_literal_expression rec p = do {
     (nfa, p) \<leftarrow> one_literal p;
     p \<leftarrow> sym_push p nfa;
     rec Quantifier p }"

text \<open>The loop that joins what is left above the start of the group.\<close>

function join_loop :: "int \<Rightarrow> int \<Rightarrow> ptr \<Rightarrow> parser \<Rightarrow> (ptr \<times> parser) option" where
  "join_loop sz preceding right p = (if sz > preceding then do {
       (left, p) \<leftarrow> sym_pop p;
       (right, p) \<leftarrow> nf_op p (\<lambda>h. concatenate_nfa h left right);
       join_loop (sz - 1) preceding right p }
     else Some (right, p))"
  by pat_completeness auto
termination by (relation "measure (\<lambda>(s, q, r, p). nat (s - q))") auto

declare join_loop.simps [simp del]

definition parse_paren_expression :: "parse_fun \<Rightarrow> parser \<Rightarrow> presult" where
  "parse_paren_expression rec p = do {
     (subtree_branch_count, p) \<leftarrow> update_open_paren_accounting p;
     let in_new_cgrp = ps_in_new_cgrp p;
     preceding_stack_size \<leftarrow> sym_size p;
     p \<leftarrow> parser_consume_token p;
     p \<leftarrow> sym_push p None;
     andthen (rec Start p) (\<lambda>p.
       if look p = CLOSEPAREN then
         (if ps_paren_count p = 0 then parser_fatal p MISSING_CLOSE_PAREN_ERROR 0
          else do {
            (has_backref, p) \<leftarrow> track_capture_group p NFA_CAPTUREGRP_END;
            p \<leftarrow> parser_consume_token (p\<lparr>ps_paren_count := ps_paren_count p - 1\<rparr>);
            let p = (update_close_paren_accounting p subtree_branch_count)\<lparr>ps_in_new_cgrp := in_new_cgrp\<rparr>;
            (right, p) \<leftarrow> sym_pop p;
            sz \<leftarrow> sym_size p;
            (right, p) \<leftarrow> join_loop sz preceding_stack_size right p;
            (right, p) \<leftarrow> (if has_backref then do {
                 (left, p) \<leftarrow> sym_pop p;
                 nf_op p (\<lambda>h. concatenate_nfa h left right) }
               else Some (right, p));
            p \<leftarrow> sym_push p right;
            rec Quantifier p })
       else parser_fatal p MISSING_CLOSE_PAREN_ERROR 0) }"

section \<open>Alternation\<close>

text \<open>The loop over the symbols of the left branch, up to a \<open>NULL\<close> or the bottom.\<close>

partial_function (option) branch_concat :: "parser \<Rightarrow> parser option" where [code]:
  "branch_concat p = do {
     sz \<leftarrow> sym_size p;
     (if sz > 0 then do {
        (right, p) \<leftarrow> sym_pop p;
        (left, p) \<leftarrow> sym_pop p;
        (if left = None then do { p \<leftarrow> sym_push p None; sym_push p right }
         else do { p \<leftarrow> push_concat p left right; branch_concat p }) }
      else Some p) }"

text \<open>The loop over the symbols of the right branch.\<close>

partial_function (option) branch_join :: "ptr \<Rightarrow> ptr \<Rightarrow> parser \<Rightarrow> (ptr \<times> parser) option" where [code]:
  "branch_join left right p = (if left \<noteq> None then do {
       (right, p) \<leftarrow> nf_op p (\<lambda>h. concatenate_nfa h left right);
       (left, p) \<leftarrow> sym_pop p;
       branch_join left right p }
     else Some (right, p))"

definition branch_push :: "parser \<Rightarrow> ptr \<Rightarrow> parser option" where
  "branch_push p x = do { (_, p) \<leftarrow> pl_op p (\<lambda>lh. stack_push lh (ps_branch_stack p) x); Some p }"

definition new_branches :: "parser \<Rightarrow> u32 \<Rightarrow> parser option" where
  "new_branches p k = do {
     (x, h, lh) \<leftarrow> new_alternation_nfa (ps_nfa p) (ps_lists p) (ps_nfa_ctrl p) (ps_branch_stack p) (unat k) None;
     sym_push (p\<lparr>ps_nfa := h, ps_lists := lh\<rparr>) x }"

definition NEXT_NFA_ID :: "parser \<Rightarrow> u32 option" where
  "NEXT_NFA_ID p = (if ps_nfa_ctrl p = None then Some (-1)
     else do { c \<leftarrow> ctget (ps_nfa p) (ps_nfa_ctrl p); Some (c_next_seq c) })"

definition begin_alternation :: "parser \<Rightarrow> parser option" where
  "begin_alternation p = do {
     let p = p\<lparr>ps_tree_count := ps_tree_count p + (if ps_in_alternation p \<noteq> 0 then 0 else 1), ps_branch := ps_branch p + 1,
       ps_in_alternation := ps_in_alternation p + 1\<rparr>;
     i \<leftarrow> NEXT_NFA_ID p;
     p \<leftarrow> parser_consume_token (p\<lparr>ps_lowest_id_on_branch := sint i\<rparr>);
     p \<leftarrow> branch_concat p;
     (left, p) \<leftarrow> sym_pop p;
     p \<leftarrow> (if left \<noteq> None then branch_push p left else Some p);
     let p = (if ps_in_new_cgrp p \<noteq> 0 then p\<lparr>ps_subtree_branch_count := 2, ps_in_new_cgrp := 0\<rparr>
       else p\<lparr>ps_subtree_branch_count := ps_subtree_branch_count p + 1\<rparr>);
     sym_push p None }"

definition end_alternation :: "parser \<Rightarrow> parser option" where
  "end_alternation p = do {
     t \<leftarrow> stack_peek (ps_lists p) (ps_symbol_stack p);
     p \<leftarrow> (if t \<noteq> None then do {
             (right, p) \<leftarrow> sym_pop p;
             (left, p) \<leftarrow> sym_pop p;
             (right, p) \<leftarrow> branch_join left right p;
             p \<leftarrow> sym_push p None;
             branch_push p right }
           else Some p);
     let p = p\<lparr>ps_in_alternation := ps_in_alternation p - 1\<rparr>;
     (if ps_in_alternation p = 0 then do {
        sz \<leftarrow> list_size (ps_lists p) (ps_branch_stack p);
        p \<leftarrow> new_branches p (word_of_int sz);
        Some (p\<lparr>ps_subtree_branch_count := 0, ps_branch := 0\<rparr>) }
      else do {
        p \<leftarrow> new_branches p (word_of_int (ps_subtree_branch_count p));
        Some (p\<lparr>ps_subtree_branch_count := 0\<rparr>) }) }"

section \<open>Quantifiers, sub-expressions, start\<close>

definition apply_quantifier :: "parse_fun \<Rightarrow> (nheap \<Rightarrow> ptr \<Rightarrow> (ptr \<times> nheap) option) \<Rightarrow> parser \<Rightarrow> presult" where
  "apply_quantifier rec f p = do {
     p \<leftarrow> parser_consume_token p;
     (nfa, p) \<leftarrow> sym_pop p;
     (nfa, p) \<leftarrow> nf_op p (\<lambda>h. f h nfa);
     p \<leftarrow> sym_push p nfa;
     rec Quantifier p }"

definition parse_quantifier_expression :: "parse_fun \<Rightarrow> parser \<Rightarrow> presult" where
  "parse_quantifier_expression rec p = (case look p of
     PLUS \<Rightarrow> apply_quantifier rec new_posclosure_nfa p
   | KLEENE \<Rightarrow> apply_quantifier rec new_kleene_nfa p
   | QMARK \<Rightarrow> apply_quantifier rec new_qmark_nfa p
   | OPENBRACE \<Rightarrow> andthen (parse_interval_expression p) (rec Quantifier)
   | PIPE \<Rightarrow> do {
       p \<leftarrow> begin_alternation p;
       andthen (rec Sub p) (\<lambda>p. fine (end_alternation p)) }
   | _ \<Rightarrow> Some (Inr p))"

definition parse_sub_expression :: "parse_fun \<Rightarrow> parser \<Rightarrow> presult" where
  "parse_sub_expression rec p = (case look p of
     OPENPAREN \<Rightarrow> andthen (rec Paren p) (rec Sub)
   | OPENBRACKET \<Rightarrow> andthen (rec Bracket p) (\<lambda>p. andthen (rec Sub p) (\<lambda>p. fine (pop_concat p)))
   | BACKREFERENCE \<Rightarrow> andthen (validate_backref p) (\<lambda>p. do {
       (left, p) \<leftarrow> nf_op p (\<lambda>h. new_backreference_nfa h (ps_nfa_ctrl p) (look_value p - 1));
       p \<leftarrow> sym_push p left;
       p \<leftarrow> parser_consume_token p;
       andthen (rec Quantifier p) (\<lambda>p. andthen (rec Sub p) (\<lambda>p. fine (pop_concat p))) })
   | CLOSEBRACE \<Rightarrow> parser_fatal p MISSING_OPEN_BRACE_ERROR 0
   | CLOSEBRACKET \<Rightarrow> parser_fatal p MISSING_OPEN_BRACKET_ERROR 0
   | CLOSEPAREN \<Rightarrow> (if ps_paren_count p = 0 then parser_fatal p MISSING_OPEN_PAREN_ERROR 0 else Some (Inr p))
   | ty \<Rightarrow> (if ty \<in> {DOT, COLON, ALPHA, DOLLAR, CIRCUMFLEX, ASCIIDIGIT, HYPHEN} then do {
       let p = (if ty = HYPHEN then p\<lparr>ps_lookahead := (ps_lookahead p)\<lparr>t_type := ALPHA\<rparr>\<rparr> else p);
       andthen (rec Literal p) (\<lambda>p. andthen (rec Sub p) (\<lambda>p. fine (pop_concat p))) }
     else Some (Inr p)))"

definition regex_parser_start :: "parse_fun \<Rightarrow> parser \<Rightarrow> presult" where
  "regex_parser_start rec p = (if look p \<in> {ALPHA, ASCIIDIGIT, BACKREFERENCE, CIRCUMFLEX, DOLLAR, DOT, OPENBRACKET, OPENPAREN}
     then rec Sub p else parser_fatal p INVALID_PARSE_START_ERROR 0)"

primrec parse :: "nat \<Rightarrow> parse_fun" where
  "parse 0 t p = None"
| "parse (Suc k) t p = (case t of
     Start \<Rightarrow> regex_parser_start (parse k) p
   | Sub \<Rightarrow> parse_sub_expression (parse k) p
   | Quantifier \<Rightarrow> parse_quantifier_expression (parse k) p
   | Paren \<Rightarrow> parse_paren_expression (parse k) p
   | Bracket \<Rightarrow> parse_bracket_expression (parse k) p
   | Literal \<Rightarrow> parse_literal_expression (parse k) p
   | Matching r n \<Rightarrow> parse_matching_list (parse k) r n p)"

section \<open>The whole expression\<close>

definition scan_char :: "parser \<Rightarrow> (int \<times> parser) option" where
  "scan_char p = do {
     a \<leftarrow> ps_scanner p;
     s \<leftarrow> ps_scanners p a;
     (c, cf, so) \<leftarrow> next_char (ps_flags p) (Some s);
     s \<leftarrow> so;
     Some (c, p\<lparr>ps_flags := cf, ps_scanners := (ps_scanners p)(a \<mapsto> s)\<rparr>) }"

text \<open>The loop of \<open>prescan_input\<close>; \<open>c\<close> is a \<open>char\<close>.\<close>

partial_function (option) prescan_loop :: "int \<Rightarrow> int \<Rightarrow> int \<Rightarrow> int \<Rightarrow> parser \<Rightarrow> (int \<times> int \<times> parser) option" where [code]:
  "prescan_loop eol c paren_count token_count p = (if c \<noteq> eol then
       (if c = ch (CHR 0x5C) then do {
          (c, p) \<leftarrow> scan_char p;
          p \<leftarrow> (if is_digit_c c then do {
                  m \<leftarrow> mark_closure_map_backref (ps_cgrp_map p) (c - ch (CHR ''0''));
                  Some (p\<lparr>ps_cgrp_map := m\<rparr>) }
                else Some p);
          (c, p) \<leftarrow> scan_char p;
          prescan_loop eol c paren_count (token_count + 1) p }
        else do {
          let paren_count = (if c = ch (CHR ''('') then paren_count + 1 else paren_count);
          (c, p) \<leftarrow> scan_char p;
          prescan_loop eol c paren_count (token_count + 1) p })
     else Some (paren_count, token_count, p))"

text \<open>\<open>a\<close> is the address of the temporary scanner, \<open>tb\<close> that of its buffer; both are new.\<close>

definition prescan_input :: "addr \<Rightarrow> int \<Rightarrow> parser \<Rightarrow> parser option" where
  "prescan_input a tb p = do {
     s \<leftarrow> parser_scanner p;
     (cf, new_s) \<leftarrow> init_scanner (get_filename (Some s)) tb (take (nat (buf_len s)) (bytes s)) (buf_len s) (line_len s) (ps_flags p);
     let p = p\<lparr>ps_flags := cf, ps_scanners := (ps_scanners p)(a \<mapsto> new_s)\<rparr>;
     (_, cur, gl) \<leftarrow> scanner_push_state (ps_gs p) (ps_glists p) (ps_scanner p) (Some a);
     let p = p\<lparr>ps_scanner := cur, ps_glists := gl\<rparr>;
     s \<leftarrow> parser_scanner p;
     x \<leftarrow> char_at s (readhead s);
     (paren_count, token_count, p) \<leftarrow> (if x \<noteq> eol_symbol s then do {
          (c, p) \<leftarrow> scan_char p;
          prescan_loop (eol_symbol s) c 0 0 p }
        else Some (0, 0, p));
     let p = (if paren_count \<noteq> 0 then p\<lparr>ps_paren_stack := Some (replicate (nat paren_count) 0)\<rparr> else p);
     (old, cur, gl) \<leftarrow> scanner_pop_state (ps_gs p) (ps_glists p) (ps_scanner p);
     ss \<leftarrow> free_scanner (ps_scanners p) old;
     let p = p\<lparr>ps_scanner := cur, ps_glists := gl, ps_scanners := ss\<rparr>;
     h \<leftarrow> nfa_alloc_init (ps_nfa p) (ps_nfa_ctrl p) token_count;
     Some (p\<lparr>ps_nfa := h\<rparr>) }"

definition insert_epsilon_start :: "parser \<Rightarrow> parser option" where
  "insert_epsilon_start p = do {
     t \<leftarrow> stack_peek (ps_lists p) (ps_symbol_stack p);
     n \<leftarrow> pn_get p t;
     start \<leftarrow> pn_get p (n_parent n);
     (if n_type start AND NOT (NFA_SPLIT OR NFA_EPSILON) \<noteq> 0 then do {
        (start_node, p) \<leftarrow> nf_op p (\<lambda>h. new_nfa h (ps_nfa_ctrl p) NFA_EPSILON);
        (right, p) \<leftarrow> sym_pop p;
        r \<leftarrow> pn_get p right;
        p \<leftarrow> pn_set p start_node (\<lambda>n. n\<lparr>n_out1 := n_parent r, n_out2 := n_parent r\<rparr>);
        p \<leftarrow> pn_set p right (n_parent_update (\<lambda>_. start_node));
        sym_push p right }
      else Some p) }"

partial_function (option) concat_all :: "ptr \<Rightarrow> parser \<Rightarrow> (ptr \<times> parser) option" where [code]:
  "concat_all right p = do {
     sz \<leftarrow> sym_size p;
     (if sz > 0 then do {
        (left, p) \<leftarrow> sym_pop p;
        (right, p) \<leftarrow> nf_op p (\<lambda>h. concatenate_nfa h left right);
        concat_all right p }
      else Some (right, p)) }"

text \<open>\<open>parse_regex\<close>; \<open>k\<close> bounds the depth of the calls.\<close>

definition finish_regex :: "nat \<Rightarrow> parser \<Rightarrow> parser option" where
  "finish_regex k p = do {
     sz \<leftarrow> sym_size p;
     p \<leftarrow> (if sz > 1 then do {
             (right, p) \<leftarrow> sym_pop p;
             (left, p) \<leftarrow> sym_pop p;
             (right, p) \<leftarrow> nf_op p (\<lambda>h. concatenate_nfa h left right);
             (right, p) \<leftarrow> concat_all right p;
             sym_push p right }
           else Some p);
     t \<leftarrow> stack_peek (ps_lists p) (ps_symbol_stack p);
     h \<leftarrow> mark_nfa (ps_nfa p) t;
     let p = p\<lparr>ps_nfa := h\<rparr>;
     i \<leftarrow> NEXT_NFA_ID p;
     p \<leftarrow> insert_epsilon_start (p\<lparr>ps_total_nfa_ids := sint i\<rparr>);
     compile_regex k p }"

definition parse_regex :: "nat \<Rightarrow> addr \<Rightarrow> int \<Rightarrow> parser \<Rightarrow> presult" where
  "parse_regex k a tb p = do {
     p \<leftarrow> prescan_input a tb p;
     andthen (parse k Start p) (\<lambda>p. fine (finish_regex k p)) }"

text \<open>What is left of the heaps.\<close>

definition parser_free :: "parser \<Rightarrow> (nheap \<times> addr lheap \<times> (byte list) lheap) option" where
  "parser_free p = do {
     (_, h, lh) \<leftarrow> free_nfa (ps_nfa p) (ps_lists p) (ps_nfa_ctrl p);
     (_, lh) \<leftarrow> list_free lh (ps_symbol_stack p) False;
     (_, lh) \<leftarrow> list_free lh (ps_branch_stack p) False;
     (_, ph) \<leftarrow> list_free (ps_pats p) (ps_synth_patterns p) True;
     Some (h, lh, ph) }"

end
