(* ===== verification/CompiledLang.thy ===== *)
theory CompiledLang
  imports ClosureCompile ClosureLang Grammar
begin

text \<open>
  From an expression to the lists the recogniser works on: Thompson's construction, the epsilon start
  of \<open>insert_epsilon_start\<close> and \<open>compile_regex\<close>.
\<close>

section \<open>Ranks\<close>

lemma falls_card:
  assumes "falls rk h M" "finite M"
  shows "falls (\<lambda>x. card {y \<in> M. rk y < rk x}) h M"
  unfolding falls_def
proof (intro ballI allI impI)
  fix x n
  assume x: "x \<in> M" "nfa_at h x = Some n \<and> n_type n = NFA_EPSILON"
  then obtain y where y: "y \<in> M" "n_out2 n = Some y" "rk y < rk x" using assms(1) unfolding falls_def by blast
  have "{z \<in> M. rk z < rk y} \<subset> {z \<in> M. rk z < rk x}" using y by force
  then have "card {z \<in> M. rk z < rk y} < card {z \<in> M. rk z < rk x}" using assms(2) by (intro psubset_card_mono) simp_all
  then show "\<exists>y \<in> M. n_out2 n = Some y \<and> card {z \<in> M. rk z < rk y} < card {z \<in> M. rk z < rk x}" using y by blast
qed

section \<open>The epsilon start\<close>

text \<open>What the parser hands over: the automaton \<open>a\<close> on its stack, and nothing on the branch stack.\<close>

definition handed_over :: "byte \<Rightarrow> parser \<Rightarrow> addr \<Rightarrow> addr set \<Rightarrow> addr \<Rightarrow> addr \<Rightarrow> byte list set \<Rightarrow> addr \<Rightarrow> addr \<Rightarrow> addr lview \<Rightarrow> bool" where
  "handed_over eol p c M s a W ss stk V \<longleftrightarrow> nctx c (ps_nfa p) M \<and> simple_part (ps_nfa p) M \<and> closed (nedges eol (ps_nfa p)) M \<and>
     (\<exists>rk. falls rk (ps_nfa p) M) \<and> finite M \<and> s \<in> M \<and> a \<in> M \<and> (\<forall>w. run (nedges eol (ps_nfa p)) s w a \<longleftrightarrow> w \<in> W) \<and>
     (\<exists>n. nfa_at (ps_nfa p) a = Some n \<and> n_type n = NFA_ACCEPTING \<and> n_parent n = Some s) \<and>
     ps_nfa_ctrl p = Some c \<and> ps_symbol_stack p = Some ss \<and> ps_branch_stack p = Some stk \<and> ss \<noteq> stk \<and>
     view (ps_lists p) V \<and> (\<exists>i. V ss = Some ([Some a], i)) \<and> (\<exists>j. V stk = Some ([], j))"

lemma start_types: "node_ok h n \<Longrightarrow> n_type n AND NOT (NFA_SPLIT OR NFA_EPSILON) \<noteq> 0 \<longleftrightarrow> n_type n \<noteq> NFA_SPLIT \<and> n_type n \<noteq> NFA_EPSILON"
  by (auto simp: node_ok_def nfa_types)

lemma peek_view: "view h V \<Longrightarrow> V p = Some (Some x # xs, n) \<Longrightarrow> stack_peek h (Some p) = Some (Some x)"
  unfolding stack_peek_def using list_get_at_view [of h V p "Some x # xs" n 0] by simp

lemma insert_epsilon_start_ok:
  assumes H: "handed_over eol p c M s a W ss stk V"
  shows "\<exists>p' M' s' V'. insert_epsilon_start p = Some p' \<and> handed_over eol p' c M' s' a W ss stk V' \<and> \<not> leaf (ps_nfa p') s' \<and>
    card M' \<le> card M + 1 \<and> ps_total_nfa_ids p' = ps_total_nfa_ids p \<and> ps_interval_count p' = ps_interval_count p \<and>
    inner (ps_nfa p') M' \<subseteq> inner (ps_nfa p) M"
proof -
  let ?h = "ps_nfa p"
  from H have C: "nctx c ?h M" and P: "simple_part ?h M" "closed (nedges eol ?h) M" "finite M" and sa: "s \<in> M" "a \<in> M"
    and W: "\<forall>w. run (nedges eol ?h) s w a \<longleftrightarrow> w \<in> W" and st: "ps_nfa_ctrl p = Some c" "ps_symbol_stack p = Some ss" "ps_branch_stack p = Some stk" "ss \<noteq> stk"
    and Vw: "view (ps_lists p) V" by (simp_all add: handed_over_def)
  from H obtain rk n i j where rk: "falls rk ?h M" and n: "nfa_at ?h a = Some n" "n_type n = NFA_ACCEPTING" "n_parent n = Some s"
    and V: "V ss = Some ([Some a], i)" "V stk = Some ([], j)" unfolding handed_over_def by blast
  obtain m where m: "nfa_at ?h s = Some m" "node_ok ?h m" using P(1) sa(1) by (auto simp: simple_part_def)
  have pk: "stack_peek (ps_lists p) (Some ss) = Some (Some a)" using peek_view [OF Vw V(1)] .
  show ?thesis
  proof (cases "n_type m = NFA_SPLIT \<or> n_type m = NFA_EPSILON")
    case True
    then have "insert_epsilon_start p = Some p"
      using st(2) pk n m start_types [OF m(2)] by (auto simp: insert_epsilon_start_def pn_get_def)
    moreover have "\<not> leaf ?h s" using True m by (auto simp: leaf_def branching_def ntype_def)
    ultimately show ?thesis using H by (intro exI [of _ p] exI [of _ M] exI [of _ s] exI [of _ V]) simp
  next
    case False
    from new_nfa_ok [OF C, of NFA_EPSILON] obtain x g e where
      1: "new_nfa ?h (Some c) NFA_EPSILON = Some (Some x, g)" "x \<notin> M" "nctx c g (insert x M)" "keeps M ?h g" "nfa_at g x = Some e"
      "n_type e = NFA_EPSILON" by blast
    have ga: "nfa_at g a = Some n" using 1(4) sa n by (simp add: keeps_def)
    have xa: "x \<noteq> a" "x \<noteq> s" using 1(2) sa by auto
    let ?k = "nupd (nupd g x (\<lambda>n. n\<lparr>n_out1 := Some s, n_out2 := Some s\<rparr>)) a (n_parent_update (\<lambda>_. Some x))"
    from list_shift_view [OF Vw V(1)] obtain S1 where S1: "list_shift (ps_lists p) (Some ss) = Some (Some a, S1)" "view S1 (V(ss \<mapsto> ([], Suc i)))" by auto
    have "(V(ss \<mapsto> ([], Suc i))) ss = Some ([], Suc i)" by simp
    from list_push_view [OF S1(2) this, of "Some a"] obtain S2 where S2: "list_push S1 (Some ss) (Some a) = Some (1, S2)" "view S2 (V(ss \<mapsto> ([Some a], i)))" by (auto simp del: fun_upd_apply)
    let ?p = "p\<lparr>ps_nfa := ?k, ps_lists := S2\<rparr>"
    have run: "insert_epsilon_start p = Some ?p"
      using False st(1, 2) pk n m 1(1, 5) start_types [OF m(2)] S1(1) S2(1) ga xa
      by (simp add: insert_epsilon_start_def pn_get_def pn_set_def nf_op_def sym_pop_def sym_push_def pl_op_def)
    have Ck: "nctx c ?k (insert x M)" using 1(3) by (intro nctx_nupd) simp_all
    have at: "nfa_at ?k y = (if y = x then Some (e\<lparr>n_out1 := Some s, n_out2 := Some s\<rparr>) else if y = a then Some (n\<lparr>n_parent := Some x\<rparr>) else nfa_at g y)" for y
      using ga 1(5) xa by simp
    have gM: "nfa_at g y = nfa_at ?h y" if "y \<in> M" for y using 1(4) that by (simp add: keeps_def)
    have nb: "nbrk ?h \<le> nbrk ?k" "\<forall>q < nbrk ?h. ranges ?k q = ranges ?h q" using 1(4) by (simp_all add: keeps_def)
    have ok: "\<exists>l. nfa_at ?k y = Some l \<and> node_ok ?k l" if yM: "y \<in> insert x M" for y
    proof (cases "y = x \<or> y = a")
      case True
      then show ?thesis using at [of y] 1(6) n(2) by (auto simp: node_ok_def nfa_types)
    next
      case False
      then obtain l where "nfa_at ?h y = Some l" "node_ok ?h l" using P(1) yM by (auto simp: simple_part_def)
      then show ?thesis using at [of y] False yM gM [of y] node_ok_mono [OF _ nb(1)] by auto
    qed
    have ed: "nedges eol ?k y = nedges eol ?h y" if y: "y \<in> M" for y
    proof (cases "y = a")
      case True
      have "nfa_at ?k a = Some (n\<lparr>n_parent := Some x\<rparr>)" using at [of a] xa by simp
      then have "nedges eol ?k a = {}" "nedges eol ?h a = {}" using n(1, 2) by (simp_all add: nedges_at edges_accepting)
      then show ?thesis using True by simp
    next
      case False
      then have yx: "y \<noteq> x" using y 1(2) by auto
      obtain l where l: "nfa_at ?h y = Some l" "node_ok ?h l" using P(1) y by (auto simp: simple_part_def)
      then show ?thesis using at [of y] False yx gM [OF y] node_ok_edges [OF l(2) nb(2)] by (simp add: nedges_def)
    qed
    have ex: "nedges eol ?k x = {(None, s)}" using at [of x] 1(6) by (simp add: nedges_def edges_epsilon)
    have cl: "closed (nedges eol ?k) (insert x M)" using P(2) ed ex sa(1) by (auto simp: closed_def)
    have rn: "run (nedges eol ?k) x w a \<longleftrightarrow> w \<in> W" for w
      using run_one_eps [of "nedges eol ?k" x s a w, OF ex xa(1)] run_cong [OF P(2) sa(1), of "nedges eol ?k" w a] ed W by simp
    have fa: "falls (rk(x := Suc (rk s))) ?k (insert x M)"
      unfolding falls_def
    proof (intro ballI allI impI)
      fix y l
      assume y: "y \<in> insert x M" "nfa_at ?k y = Some l \<and> n_type l = NFA_EPSILON"
      show "\<exists>z \<in> insert x M. n_out2 l = Some z \<and> (rk(x := Suc (rk s))) z < (rk(x := Suc (rk s))) y"
      proof (cases "y = x")
        case True
        then show ?thesis using y(2) at [of x] sa(1) xa by auto
      next
        case False
        then have yM: "y \<in> M" "y \<noteq> a" using y at [of a] xa n(2) by (auto simp: nfa_types)
        then have "nfa_at ?h y = Some l" using y(2) at [of y] False gM by simp
        then obtain z where "z \<in> M" "n_out2 l = Some z" "rk z < rk y" using rk yM y(2) unfolding falls_def by blast
        then show ?thesis using False 1(2) by auto
      qed
    qed
    have "handed_over eol ?p c (insert x M) x a W ss stk (V(ss \<mapsto> ([Some a], i)))"
      unfolding handed_over_def
    proof (intro conjI)
      show "nctx c (ps_nfa ?p) (insert x M)" "closed (nedges eol (ps_nfa ?p)) (insert x M)" using Ck cl by simp_all
      show "simple_part (ps_nfa ?p) (insert x M)" using ok unfolding simple_part_def by simp
      show "\<exists>rk. falls rk (ps_nfa ?p) (insert x M)" using fa by auto
      show "\<forall>w. run (nedges eol (ps_nfa ?p)) x w a \<longleftrightarrow> w \<in> W" using rn by simp
      show "\<exists>n. nfa_at (ps_nfa ?p) a = Some n \<and> n_type n = NFA_ACCEPTING \<and> n_parent n = Some x" using ga n(2) xa by simp
    qed (use P(3) sa st S2(2) V in simp_all)
    moreover have "\<not> leaf (ps_nfa ?p) x" using at [of x] 1(6) by (simp add: leaf_def ntype_def)
    moreover have "card (insert x M) \<le> card M + 1" using P(3) 1(2) by simp
    moreover have "inner (ps_nfa ?p) (insert x M) \<subseteq> inner ?h M"
    proof
      fix y assume y: "y \<in> inner (ps_nfa ?p) (insert x M)"
      have "y \<noteq> x" using y calculation(2) by (auto simp: inner_def)
      moreover have "y \<noteq> a" using y at [of a] n xa by (auto simp: inner_def ntype_def)
      ultimately show "y \<in> inner ?h M" using y at [of y] gM [of y] by (auto simp: inner_def leaf_def branching_def ntype_def)
    qed
    ultimately show ?thesis using run
      by (intro exI [of _ ?p] exI [of _ "insert x M"] exI [of _ x] exI [of _ "V(ss \<mapsto> ([Some a], i))"]) simp
  qed
qed

section \<open>The compiled lists\<close>

definition listed :: "addr lview \<Rightarrow> addr \<Rightarrow> addr set" where
  "listed V x = (case V x of None \<Rightarrow> {} | Some (xs, _) \<Rightarrow> {y. Some y \<in> set xs})"

lemma filled_listed: "filled h B fl V x \<Longrightarrow> listed V x = follow h B x"
proof -
  assume "filled h B fl V x"
  then obtain xs n where "V x = Some (map Some xs, n)" "set xs = follow h B x" unfolding filled_def by blast
  then show ?thesis by (auto simp: listed_def)
qed

lemma same_graph_reads:
  assumes "same_graph h h'"
  shows "reads eol h' = reads eol h"
proof
  fix x
  have r: "ranges h' = ranges h" using assms by (simp add: same_graph_def)
  show "reads eol h' x = reads eol h x"
  proof (cases "nfa_at h x")
    case None
    then show ?thesis using same_graphD_None [OF assms] by (simp add: reads_def)
  next
    case (Some n)
    from same_graphD [OF assms Some] obtain m where m: "nfa_at h' x = Some m" "n_type m = n_type n" "n_low m = n_low n" "n_lit m = n_lit n" by blast
    have "node_chars eol h' m = node_chars eol h n" unfolding node_chars_def m(2-4) r ..
    then show ?thesis using Some m(1) by (simp add: reads_def)
  qed
qed

lemma all_filled_runs:
  assumes P: "simple_part h M" "closed (nedges eol h) M" and start: "start \<in> M" "\<not> leaf h start" and a: "leaf h a"
    and f: "all_filled h B start fl V"
  shows "list_run (listed V) (reads eol h) start w a \<longleftrightarrow> run (nedges eol h) start w a"
proof -
  let ?X = "{x. (start, x) \<in> (follows h B)\<^sup>* \<and> ntype h x \<noteq> NFA_ACCEPTING}"
  have s: "ntype h start \<noteq> NFA_ACCEPTING" using start(2) by (auto simp: leaf_def branching_def nfa_types)
  then have sX: "start \<in> ?X" by simp
  have eq: "listed V y = follow h B y" if "y \<in> ?X" for y using f that filled_listed by (auto simp: all_filled_def)
  have rd: "ntype h t \<noteq> NFA_ACCEPTING" if "reads eol h t \<noteq> {}" for t
    using that by (auto simp: reads_def ntype_def node_chars_def nfa_types split: option.splits if_splits)
  have stay: "{t \<in> follow h B y. reads eol h t \<noteq> {}} \<subseteq> ?X" if "y \<in> ?X" for y
  proof
    fix t assume t: "t \<in> {t \<in> follow h B y. reads eol h t \<noteq> {}}"
    then have "(y, t) \<in> follows h B" using that by (simp add: follows_def)
    then show "t \<in> ?X" using that t rd by (auto intro: rtrancl_into_rtrancl)
  qed
  have "list_run (listed V) (reads eol h) start w a \<longleftrightarrow> list_run (follow h B) (reads eol h) start w a"
    using list_run_cong [of "listed V" "reads eol h" start w a ?X "follow h B"] list_run_cong [of "follow h B" "reads eol h" start w a ?X "listed V"]
      sX eq stay by auto
  moreover have "goes_on h start = Some start"
    using start P(1) by (auto simp: goes_on_def simple_part_def)
  ultimately show ?thesis using list_run_graph [OF P a _ start(1)] by simp
qed

text \<open>The nodes that read, of those that are not free.\<close>

definition reading_nodes :: "nheap \<Rightarrow> addr list" where
  "reading_nodes h = filter (\<lambda>x. case slots h x of None \<Rightarrow> False
     | Some s \<Rightarrow> \<not> sl_free s \<and> n_type (sl_nfa s) \<in> {NFA_LITERAL, NFA_ANY, NFA_RANGE}) [0..<nbrk h]"

lemma inner_reading:
  assumes "nctx c h M" "simple_part h M"
  shows "inner h M \<subseteq> set (reading_nodes h)"
proof
  fix x assume "x \<in> inner h M"
  then have x: "x \<in> M" "leaf h x" "ntype h x \<noteq> NFA_ACCEPTING" by (simp_all add: inner_def)
  from assms(2) x(1) obtain n where n: "nfa_at h x = Some n" "node_ok h n" by (auto simp: simple_part_def)
  then obtain s where s: "slots h x = Some s" "n = sl_nfa s" by (auto simp: nfa_at_def)
  have "n_type n \<in> {NFA_LITERAL, NFA_ANY, NFA_RANGE}" using n x by (auto simp: node_ok_def leaf_def branching_def ntype_def)
  moreover have "\<not> sl_free s \<and> x < nbrk h"
  proof -
    from assms(1) obtain al F As where "alloc_ok h al M F As" by (auto simp: nctx_def pool_ok_def)
    then have "sfree h x = Some False" "\<forall>a \<ge> nbrk h. slots h a = None" using x(1) by (simp_all add: alloc_ok_def)
    then show ?thesis using s(1) by (auto simp: sfree_def not_le [symmetric])
  qed
  ultimately show "x \<in> set (reading_nodes h)" using s by (simp add: reading_nodes_def)
qed

definition patterns_made :: "nat \<Rightarrow> parser \<Rightarrow> bool" where
  "patterns_made k p = (case do {
       t \<leftarrow> stack_peek (ps_lists p) (ps_symbol_stack p);
       n \<leftarrow> pn_get p t;
       (tmp, q) \<leftarrow> collect_first k p (n_parent n);
       Some (n_parent n, q) } of
     None \<Rightarrow> True | Some (s, q) \<Rightarrow> \<not> Option.is_none (compute_mpat_tables k q s))"

text \<open>What is handed over satisfies what \<open>collect_adjacencies\<close> needs.\<close>

lemma handed_over_ctx:
  assumes H: "handed_over eol p c M s a W ss stk V"
  shows "\<exists>rk j. coll_ctx p V M rk (card M) stk \<and> s \<in> M \<and> clean (ps_nfa p) \<and> (\<forall>x \<in> M. lists (reach (ps_nfa p)) x \<noteq> None) \<and>
    nbrk (ps_nfa p) \<notin> M \<and> view (ps_lists p) (V(stk \<mapsto> ([], j))) \<and>
    card {x \<in> M. branching (ps_nfa p) x} * (card M + 2) + card M + 2 \<le> (card M + 1) * (card M + 2)"
proof -
  let ?h = "ps_nfa p" let ?b = "card M"
  from H have C: "nctx c ?h M" and P: "simple_part ?h M" "closed (nedges eol ?h) M" "finite M" and sa: "s \<in> M"
    and st: "ps_branch_stack p = Some stk" and Vw: "view (ps_lists p) V" by (simp_all add: handed_over_def)
  from H obtain rk j where rk: "falls rk ?h M" and V: "V stk = Some ([], j)" unfolding handed_over_def by blast
  let ?rk = "\<lambda>x. card {y \<in> M. rk y < rk x}"
  have types: "n_type l \<noteq> NFA_TREE \<and> n_type l \<noteq> NFA_INTERVAL" if "x \<in> M" "nfa_at ?h x = Some l" for x l
    using P(1) that by (auto simp: simple_part_def node_ok_def nfa_types dest!: bspec [of _ _ x])
  have "ntype ?h x \<noteq> NFA_INTERVAL" if "x \<in> M" for x using P(1) that types [OF that] by (fastforce simp: simple_part_def ntype_def)
  moreover have "\<forall>x \<in> M. ?rk x \<le> ?b" using P(3) by (auto intro: card_mono)
  ultimately have ctx: "coll_ctx p V M ?rk ?b stk"
    using simple_walkable [OF P(1, 2) falls_card [OF rk P(3)] P(3)] st types unfolding coll_ctx_def by blast
  have cl: "clean ?h" "covered ?h" using C by (simp_all add: nctx_def)
  have lst: "\<forall>x \<in> M. lists (reach ?h) x \<noteq> None" using cl(2) P(1) by (auto simp: covered_def simple_part_def nfa_at_def)
  have tmp: "nbrk ?h \<notin> M"
  proof -
    from C obtain al F As where "alloc_ok ?h al M F As" by (auto simp: nctx_def pool_ok_def)
    then show ?thesis by (auto simp: alloc_ok_def sfree_def)
  qed
  have S: "view (ps_lists p) (V(stk \<mapsto> ([], j)))" using Vw V by (simp add: fun_upd_idem)
  have "card {x \<in> M. branching ?h x} \<le> ?b" using P(3) by (intro card_mono) auto
  then have "card {x \<in> M. branching ?h x} * (?b + 2) + ?b + 2 \<le> ?b * (?b + 2) + (?b + 2)"
    using mult_le_mono1 by (metis add.assoc add_le_mono1)
  also have "\<dots> = (?b + 1) * (?b + 2)" by simp
  finally show ?thesis using ctx sa cl(1) lst tmp S by blast
qed

lemma patterns_made_first:
  assumes "patterns_made k p" "ps_symbol_stack p = Some ss" "stack_peek (ps_lists p) (Some ss) = Some (Some a)"
    "nfa_at (ps_nfa p) a = Some n" "n_parent n = Some s"
  shows "case collect_first k p (Some s) of None \<Rightarrow> True | Some (tmp, q) \<Rightarrow> \<not> Option.is_none (compute_mpat_tables k q (Some s))"
  using assms by (auto simp: patterns_made_def pn_get_def split: option.splits)

lemma compile_regex_ok:
  assumes H: "handed_over eol p c M s a W ss stk V" and s: "\<not> leaf (ps_nfa p) s"
    and tot: "int (card (inner (ps_nfa p) M)) \<le> ps_total_nfa_ids p + ps_interval_count p"
    and k: "(card M + 1) * (card M + 2) \<le> k" and mp: "patterns_made k p"
  shows "\<exists>p' V' n. compile_regex k p = Some p' \<and> view (reach (ps_nfa p')) V' \<and> nfa_at (ps_nfa p') a = Some n \<and> n_type n = NFA_ACCEPTING \<and>
    n_parent n = Some s \<and> (\<forall>w. list_run (listed V') (reads eol (ps_nfa p')) s w a \<longleftrightarrow> w \<in> W)"
proof -
  let ?h = "ps_nfa p"
  from H have P: "simple_part ?h M" "closed (nedges eol ?h) M" and W: "\<forall>w. run (nedges eol ?h) s w a \<longleftrightarrow> w \<in> W"
    and st: "ps_symbol_stack p = Some ss" and Vw: "view (ps_lists p) V" by (simp_all add: handed_over_def)
  from H obtain n i where n: "nfa_at ?h a = Some n" "n_type n = NFA_ACCEPTING" "n_parent n = Some s"
    and V: "V ss = Some ([Some a], i)" unfolding handed_over_def by blast
  have pk: "stack_peek (ps_lists p) (Some ss) = Some (Some a)" using peek_view [OF Vw V] .
  from handed_over_ctx [OF H] obtain rk j where C: "coll_ctx p V M rk (card M) stk" "s \<in> M" "clean ?h" "\<forall>x \<in> M. lists (reach ?h) x \<noteq> None"
    "nbrk ?h \<notin> M" "view (ps_lists p) (V(stk \<mapsto> ([], j)))" "card {x \<in> M. branching ?h x} * (card M + 2) + card M + 2 \<le> (card M + 1) * (card M + 2)"
    by blast
  from collect_all [OF C(1, 2) s C(3-6) le_trans [OF C(7) k] tot patterns_made_first [OF mp st pk n(1, 3)]] obtain p' V' where
    r: "collect_adjacencies k p (Some s) (ps_total_nfa_ids p + ps_interval_count p) = Some p'" "same_graph ?h (ps_nfa p')"
    "view (reach (ps_nfa p')) V'" "all_filled ?h V s (nflags (ps_nfa p')) V'" by blast
  have "compile_regex k p = Some p'" using st pk n r(1) by (simp add: compile_regex_def pn_get_def)
  moreover have "leaf ?h a" using n by (auto simp: leaf_def branching_def ntype_def nfa_types)
  then have "\<forall>w. list_run (listed V') (reads eol (ps_nfa p')) s w a \<longleftrightarrow> w \<in> W"
    using all_filled_runs [OF P C(2) s _ r(4)] W same_graph_reads [OF r(2)] by simp
  moreover obtain m where "nfa_at (ps_nfa p') a = Some m" "n_type m = NFA_ACCEPTING" "n_parent m = Some s"
    using same_graphD [OF r(2) n(1)] n(2, 3) by auto
  ultimately show ?thesis using r(3) by blast
qed

end
