(* ===== verification/CompiledProps.thy ===== *)
theory CompiledProps
  imports CompiledLang
begin

text \<open>
  The properties of \<open>src/compile.c\<close>.
\<close>

section \<open>A parser for the witnesses\<close>











section \<open>From expression to lists\<close>








section \<open>The same parser, ready to collect\<close>



section \<open>Collecting\<close>





end
