(* ===== verification/ScannerProps.thy ===== *)
theory ScannerProps
  imports Scanner SlistProps
begin

text \<open>
  The scanner reads a line of the pattern as a lexer would: \<open>lex\<close> is the specification.
\<close>

section \<open>A prepared line\<close>

text \<open>\<open>scan_at s p i\<close>: the buffer holds the line \<open>p\<close>, the end-of-line symbol and a terminator, and
  the read head is at offset \<open>i\<close>.\<close>

definition plain :: "byte list \<Rightarrow> bool" where
  "plain p \<longleftrightarrow> (\<forall>b \<in> set p. b \<noteq> 0 \<and> b \<noteq> 10 \<and> b \<noteq> 254 \<and> b \<noteq> 255)"

definition scan_at :: "scanner \<Rightarrow> byte list \<Rightarrow> nat \<Rightarrow> bool" where
  "scan_at s p i \<longleftrightarrow> 1 < buffer s \<and> (\<exists>rest. bytes s = p @ 254 # 0 # rest) \<and> line_len s = int (length p) + 1 \<and>
     eol_symbol s = -2 \<and> readhead s = buffer s + int i \<and> str_begin s \<le> readhead s \<and> last_newline s = 0 \<and>
     curtoken s \<noteq> None \<and> i \<le> length p + 1 \<and> plain p"

definition byte_at :: "byte list \<Rightarrow> nat \<Rightarrow> byte" where
  "byte_at p i = (p @ [254, 0]) ! i"

lemma ch_codes [simp]: "ch (CHR 0x0A) = 10" "ch (CHR 0x5C) = 92" "ch (CHR ''0'') = 48" "ch (CHR ''9'') = 57"
  by (simp_all add: ch_def)

lemma char_at_line:
  assumes "scan_at s p i"
  shows "char_at s (readhead s) = Some (sint (byte_at p i))"
  using assms by (auto simp: scan_at_def char_at_def byte_at_def nth_append nth_Cons')

lemma byte_consts: "sint (0 :: byte) = 0" "sint (10 :: byte) = 10" "sint (254 :: byte) = -2" "sint (255 :: byte) = -1"
    "sint (92 :: byte) = 92"
  by simp_all

lemma byte_at_line: "plain p \<Longrightarrow> i < length p \<Longrightarrow>
    sint (byte_at p i) \<noteq> 0 \<and> sint (byte_at p i) \<noteq> 10 \<and> sint (byte_at p i) \<noteq> -2 \<and> sint (byte_at p i) \<noteq> -1"
  using sint_byte_eq [of "p ! i" 0] sint_byte_eq [of "p ! i" 10] sint_byte_eq [of "p ! i" 254] sint_byte_eq [of "p ! i" 255]
  by (auto simp: byte_at_def nth_append plain_def simp del: byte_consts(5))

lemma byte_at_end: "sint (byte_at p (length p)) = -2" "sint (byte_at p (Suc (length p))) = 0"
  by (simp_all add: byte_at_def nth_append)

definition line_flags :: "byte list \<Rightarrow> nat \<Rightarrow> u32 \<Rightarrow> u32" where
  "line_flags p i cf = (let cf = (if i = 0 then set_flag AT_BOL_FLAG cf else clear_flag AT_BOL_FLAG cf) in
     if i = length p then set_flag AT_EOL_FLAG cf else clear_flag AT_EOL_FLAG cf)"

lemma update_flags_line:
  assumes A: "scan_at s p i"
  shows "update_flags cf s = Some (line_flags p i cf)"
proof -
  have B: "1 < buffer s" "readhead s = buffer s + int i" "last_newline s = 0" "eol_symbol s = -2" "i \<le> length p + 1" "plain p"
    using A by (auto simp: scan_at_def)
  have "(sint (byte_at p i) = -2 \<or> sint (byte_at p i) = 10) = (i = length p)"
  proof -
    consider "i < length p" | "i = length p" | "i = Suc (length p)" using B(5) by linarith
    then show ?thesis using byte_at_line [OF B(6)] byte_at_end [of p] by cases auto
  qed
  moreover have "(readhead s = buffer s \<or> readhead s - last_newline s = 1) = (i = 0)" using B(1-3) by auto
  ultimately show ?thesis using char_at_line [OF A] B(1,4) by (auto simp: update_flags_def line_flags_def Let_def)
qed

lemma next_char_line:
  assumes A: "scan_at s p i" and i: "i \<le> length p"
  shows "next_char cf (Some s) = Some (sint (byte_at p i), line_flags p i cf, Some (s\<lparr>readhead := readhead s + 1\<rparr>)) \<and>
    scan_at (s\<lparr>readhead := readhead s + 1\<rparr>) p (Suc i)"
proof -
  have "plain p" using A by (simp add: scan_at_def)
  then have "sint (byte_at p i) \<noteq> 0" using byte_at_line [of p i] byte_at_end [of p] i by (cases "i = length p") auto
  moreover have "scan_at (s\<lparr>readhead := readhead s + 1\<rparr>) p (Suc i)" using A i by (auto simp: scan_at_def)
  ultimately show ?thesis using char_at_line [OF A] update_flags_line [OF A, of cf] by (simp add: next_char_def)
qed

lemma next_char_done: "scan_at s p (Suc (length p)) \<Longrightarrow> next_char cf (Some s) = Some (0, cf, Some s)"
  using char_at_line [of s p "Suc (length p)"] byte_at_end [of p] by (simp add: next_char_def)

lemma unput_line:
  assumes A: "scan_at s p i" and i: "i \<le> length p"
  shows "unput (Some (s\<lparr>readhead := readhead s + 1\<rparr>)) = Some (Some s)"
proof -
  have "plain p" using A by (simp add: scan_at_def)
  then have "sint (byte_at p i) \<noteq> 10" using byte_at_line [of p i] byte_at_end [of p] i by (cases "i = length p") auto
  moreover have "char_at s (readhead s) = Some (sint (byte_at p i))" by (rule char_at_line [OF A])
  ultimately show ?thesis using A by (auto simp: unput_def scan_at_def Let_def char_at_def)
qed

lemma flag_bits: "bit AT_BOL_FLAG k = (k = 4)" "bit AT_EOL_FLAG k = (k = 3)"
proof -
  have "AT_BOL_FLAG = 2 ^ 4" "AT_EOL_FLAG = 2 ^ 3" by (simp_all add: AT_BOL_FLAG_def AT_EOL_FLAG_def)
  note f = this
  show "bit AT_BOL_FLAG k = (k = 4)" unfolding f(1) bit_exp_iff by auto
  show "bit AT_EOL_FLAG k = (k = 3)" unfolding f(2) bit_exp_iff by auto
qed

lemma has_flag_bit: "has_flag (2 ^ k) cf \<longleftrightarrow> bit cf k"
  by (simp add: has_flag_def and_exp_eq_0_iff_not_bit)

lemma line_flags_bits: "k < 32 \<Longrightarrow> bit (line_flags p i cf) k =
    (if k = 4 then i = 0 else if k = 3 then i = length p else bit cf k)"
  by (auto simp: line_flags_def Let_def set_flag_def clear_flag_def bit_or_iff bit_and_iff bit_not_iff flag_bits)

lemma line_flags_escp: "has_flag ESCP_SEQ_FLAG (line_flags p i cf) = has_flag ESCP_SEQ_FLAG cf"
proof -
  have e: "ESCP_SEQ_FLAG = 2 ^ 5" by (simp add: ESCP_SEQ_FLAG_def)
  show ?thesis unfolding e has_flag_bit by (simp add: line_flags_bits)
qed

section \<open>The lexer\<close>

text \<open>The lexer is stated on the bytes of the text, without reference to the code: \<open>operators\<close> pairs
  each punctuation mark with its symbol, a digit is a digit, anything else is an ordinary character.\<close>

definition operators :: "(byte \<times> symbol_type) list" where
  "operators = zip (map of_char ''$^.*+:|?()-[]{}'')
     [DOLLAR, CIRCUMFLEX, DOT, KLEENE, PLUS, COLON, PIPE, QMARK, OPENPAREN, CLOSEPAREN, HYPHEN,
      OPENBRACKET, CLOSEBRACKET, OPENBRACE, CLOSEBRACE]"

definition digits :: "byte list" where
  "digits = map of_char ''0123456789''"

definition symbol_of :: "byte \<Rightarrow> symbol_type" where
  "symbol_of b = (case map_of operators b of Some ty \<Rightarrow> ty | None \<Rightarrow> if b \<in> set digits then ASCIIDIGIT else ALPHA)"

fun lex :: "byte list \<Rightarrow> (int \<times> symbol_type) list" where
  "lex [] = []"
| "lex [b] = (if b = 92 then [] else [(sint b, symbol_of b)])"
| "lex (b # d # bs) = (if b = 92
     then (if d \<in> set digits then (sint d - 48, BACKREFERENCE) else (sint d, ALPHA)) # lex bs
     else (sint b, symbol_of b) # lex (d # bs))"

lemma sint_byte_code: "0 \<le> k \<Longrightarrow> k < 128 \<Longrightarrow> sint (b :: byte) = k \<longleftrightarrow> b = word_of_int k"
proof -
  assume k: "0 \<le> k" "k < 128"
  have "sint (word_of_int k :: byte) = k" using k by (simp add: sint_uint signed_take_bit_eq_take_bit_shift take_bit_eq_mod uint_word_of_int)
  then show ?thesis using sint_byte_eq [of b "word_of_int k"] by simp
qed

lemma digits_agree: "is_digit_c (sint b) \<longleftrightarrow> b \<in> set digits"
proof -
  have "is_digit_c (sint b) \<longleftrightarrow> sint b \<in> {48, 49, 50, 51, 52, 53, 54, 55, 56, 57}" unfolding is_digit_c_def ch_codes insert_iff by simp presburger
  then show ?thesis by (simp add: sint_byte_code digits_def)
qed

lemma char_token_agrees:
  assumes "b \<noteq> 10" "b \<noteq> 255"
  shows "char_token (sint b) = (sint b, symbol_of b)"
proof -
  have n: "sint b \<noteq> 10" "sint b \<noteq> -1" using assms sint_byte_eq [of b 10] sint_byte_eq [of b 255] by auto
  show ?thesis using n
    by (simp add: char_token_def symbol_of_def operators_def digits_agree ch_def EOF_c_def sint_byte_code) (auto simp: digits_def)
qed

partial_function (option) scan_all :: "bool \<Rightarrow> u32 \<Rightarrow> scanner \<Rightarrow> (token list \<times> bool \<times> u32 \<times> scanner) option" where [code]:
  "scan_all seen cf s = do {
     (seen, cf, s) \<leftarrow> regex_scan seen cf s;
     t \<leftarrow> curtoken s;
     (if t_type t = EOF_SYM then Some ([], seen, cf, s)
      else do { (ts, st) \<leftarrow> scan_all seen cf s; Some (t # ts, st) }) }"

definition tok_of :: "token \<Rightarrow> u32 \<times> symbol_type" where
  "tok_of t = (t_value t, t_type t)"

definition spec_of :: "int \<times> symbol_type \<Rightarrow> u32 \<times> symbol_type" where
  "spec_of v = (word_of_int (fst v), snd v)"

lemma set_token_line:
  assumes "scan_at s p i"
  shows "\<exists>s'. set_token v s = Some s' \<and> scan_at s' p i \<and> eol_symbol s' = -2 \<and>
    (\<exists>t. curtoken s' = Some t \<and> tok_of t = spec_of v)"
  using assms by (auto simp: set_token_def scan_at_def update_token_def tok_of_def spec_of_def)

text \<open>One token: \<open>j\<close> is where the read head stands afterwards.\<close>

lemma scan_char:
  assumes A: "scan_at s p i" and i: "i < length p" and b: "byte_at p i \<noteq> 92"
  shows "\<exists>s'. regex_scan False cf s = Some (False, line_flags p i cf, s') \<and> scan_at s' p (Suc i) \<and>
    (\<exists>t. curtoken s' = Some t \<and> tok_of t = spec_of (char_token (sint (byte_at p i))))"
proof -
  let ?c = "sint (byte_at p i)"
  have pl: "plain p" using A by (simp add: scan_at_def)
  note c = byte_at_line [OF pl i]
  have "?c \<noteq> 92" using b sint_byte_eq [of "byte_at p i" 92] by simp
  from next_char_line [OF A, of cf] i obtain s1 where
    s1: "next_char cf (Some s) = Some (?c, line_flags p i cf, Some s1)" "scan_at s1 p (Suc i)" by auto
  from set_token_line [OF s1(2), of "char_token ?c"] obtain s2 where
    s2: "set_token (char_token ?c) s1 = Some s2" "scan_at s2 p (Suc i)" "eol_symbol s2 = -2"
    "\<exists>t. curtoken s2 = Some t \<and> tok_of t = spec_of (char_token ?c)" by blast
  have "regex_scan False cf s = Some (False, line_flags p i cf, s2)"
    using s1(1) s2(1,3) c \<open>?c \<noteq> 92\<close> by (simp add: regex_scan_def)
  then show ?thesis using s2 by blast
qed

lemma scan_escape:
  assumes A: "scan_at s p i" and i: "Suc i < length p" and b: "byte_at p i = 92" and e: "has_flag ESCP_SEQ_FLAG cf"
  shows "\<exists>cf' s'. regex_scan False cf s = Some (False, cf', s') \<and> scan_at s' p (Suc (Suc i)) \<and> has_flag ESCP_SEQ_FLAG cf' \<and>
    (\<exists>t. curtoken s' = Some t \<and> tok_of t = spec_of (let d = sint (byte_at p (Suc i)) in
       if is_digit_c d then (d - 48, BACKREFERENCE) else (d, ALPHA)))"
proof -
  let ?d = "sint (byte_at p (Suc i))"
  have pl: "plain p" using A by (simp add: scan_at_def)
  note d = byte_at_line [OF pl i]
  from next_char_line [OF A, of cf] i obtain s1 where
    s1: "next_char cf (Some s) = Some (92, line_flags p i cf, Some s1)" "scan_at s1 p (Suc i)" using b by auto
  from next_char_line [OF s1(2), of "line_flags p i cf"] i obtain s2 where
    s2: "next_char (line_flags p i cf) (Some s1) = Some (?d, line_flags p (Suc i) (line_flags p i cf), Some s2)"
    "scan_at s2 p (Suc (Suc i))" by auto
  let ?v = "if is_digit_c ?d then (?d - 48, BACKREFERENCE) else (?d, ALPHA)"
  from set_token_line [OF s2(2), of ?v] obtain s3 where
    s3: "set_token ?v s2 = Some s3" "scan_at s3 p (Suc (Suc i))" "eol_symbol s3 = -2"
    "\<exists>t. curtoken s3 = Some t \<and> tok_of t = spec_of ?v" by blast
  have e2: "eol_symbol s2 = -2" using s2(2) by (simp add: scan_at_def)
  have st: "(if is_digit_c ?d then set_token (?d - 48, BACKREFERENCE) s2 else set_token (?d, ALPHA) s2) = Some s3"
    using s3(1) by (auto split: if_splits)
  have "regex_scan False cf s = Some (False, line_flags p (Suc i) (line_flags p i cf), s3)"
    using s1(1) s2(1) s3(3) st e2 e d by (cases "is_digit_c ?d") (simp_all add: regex_scan_def line_flags_escp)
  moreover have "has_flag ESCP_SEQ_FLAG (line_flags p (Suc i) (line_flags p i cf))" using e by (simp add: line_flags_escp)
  ultimately show ?thesis using s3(2,4) by (auto simp: Let_def)
qed

text \<open>At the end of the line, after a trailing backslash and beyond, the token is the end token.\<close>

lemma scan_end:
  assumes A: "scan_at s p i" and e: "has_flag ESCP_SEQ_FLAG cf"
    and i: "i = length p \<or> (Suc i = length p \<and> byte_at p i = 92)"
  shows "\<exists>cf' s' j. regex_scan False cf s = Some (False, cf', s') \<and> scan_at s' p j \<and> length p \<le> j \<and>
    has_flag ESCP_SEQ_FLAG cf' \<and> (\<exists>t. curtoken s' = Some t \<and> tok_of t = (0, EOF_SYM))"
  using i
proof
  assume i: "i = length p"
  from next_char_line [OF A, of cf] i byte_at_end(1) [of p] obtain s1 where
    s1: "next_char cf (Some s) = Some (-2, line_flags p i cf, Some s1)" "scan_at s1 p (Suc i)" by auto
  from set_token_line [OF s1(2), of "char_token (-2)"] obtain s2 where
    s2: "set_token (char_token (-2)) s1 = Some s2" "scan_at s2 p (Suc i)" "eol_symbol s2 = -2" by blast
  from set_token_line [OF s2(2), of "(0, EOF_SYM)"] obtain s3 where
    s3: "set_token (0, EOF_SYM) s2 = Some s3" "scan_at s3 p (Suc i)"
    "\<exists>t. curtoken s3 = Some t \<and> tok_of t = spec_of (0, EOF_SYM)" by blast
  have "regex_scan False cf s = Some (False, line_flags p i cf, s3)"
    using s1(1) s2(1,3) s3(1) by (simp add: regex_scan_def)
  then show ?thesis using s3(2,3) i e by (intro exI [of _ "line_flags p i cf"] exI [of _ s3] exI [of _ "Suc i"])
      (simp add: line_flags_escp spec_of_def)
next
  assume i: "Suc i = length p \<and> byte_at p i = 92"
  from next_char_line [OF A, of cf] i obtain s1 where
    s1: "next_char cf (Some s) = Some (92, line_flags p i cf, Some s1)" "scan_at s1 p (Suc i)" by auto
  from next_char_line [OF s1(2), of "line_flags p i cf"] i byte_at_end(1) [of p] have
    s2: "next_char (line_flags p i cf) (Some s1) = Some (-2, line_flags p (Suc i) (line_flags p i cf), Some (s1\<lparr>readhead := readhead s1 + 1\<rparr>))"
    by auto
  have e2: "eol_symbol s1 = -2" using s1(2) by (simp add: scan_at_def)
  from unput_line [OF s1(2)] i have u: "unput (Some (s1\<lparr>readhead := readhead s1 + 1\<rparr>)) = Some (Some s1)" by simp
  from set_token_line [OF s1(2), of "(0, EOF_SYM)"] obtain s3 where
    s3: "set_token (0, EOF_SYM) s1 = Some s3" "scan_at s3 p (Suc i)"
    "\<exists>t. curtoken s3 = Some t \<and> tok_of t = spec_of (0, EOF_SYM)" by blast
  have "regex_scan False cf s = Some (False, line_flags p (Suc i) (line_flags p i cf), s3)"
    using s1(1) s2 s3(1) u e2 e by (simp add: regex_scan_def line_flags_escp)
  then show ?thesis using s3(2,3) i e
    by (intro exI [of _ "line_flags p (Suc i) (line_flags p i cf)"] exI [of _ s3] exI [of _ "Suc i"])
      (simp add: line_flags_escp spec_of_def)
qed

lemma scan_beyond:
  assumes A: "scan_at s p (Suc (length p))" and t: "curtoken s = Some t" "tok_of t = (0, EOF_SYM)"
  shows "regex_scan False cf s = Some (False, cf, s)"
proof -
  have "eol_symbol s = -2" using A by (simp add: scan_at_def)
  then show ?thesis using next_char_done [OF A, of cf] by (simp add: regex_scan_def)
qed

text \<open>\<open>reading s p i\<close>: the scanner is at offset \<open>i\<close>; past the end symbol its token is the end token.\<close>

definition reading :: "scanner \<Rightarrow> byte list \<Rightarrow> nat \<Rightarrow> bool" where
  "reading s p i \<longleftrightarrow> scan_at s p i \<and> (i = Suc (length p) \<longrightarrow> (\<exists>t. curtoken s = Some t \<and> tok_of t = (0, EOF_SYM)))"

lemma lex_end: "i = length p \<or> Suc i = length p \<and> byte_at p i = 92 \<Longrightarrow> lex (drop i p) = []"
proof (erule disjE)
  assume k: "Suc i = length p \<and> byte_at p i = 92"
  then have "drop i p = [p ! i]" using Cons_nth_drop_Suc [of i p] by simp
  moreover have "p ! i = 92" using k by (auto simp: byte_at_def nth_append)
  ultimately show ?thesis by simp
qed simp

lemma lex_char: "i < length p \<Longrightarrow> byte_at p i \<noteq> 92 \<Longrightarrow>
    lex (drop i p) = (sint (byte_at p i), symbol_of (byte_at p i)) # lex (drop (Suc i) p)"
  using Cons_nth_drop_Suc [of i p, symmetric] by (cases "drop (Suc i) p") (simp_all add: byte_at_def nth_append)

lemma lex_escape: "Suc i < length p \<Longrightarrow> byte_at p i = 92 \<Longrightarrow>
    lex (drop i p) = (let b = byte_at p (Suc i) in
      if b \<in> set digits then (sint b - 48, BACKREFERENCE) else (sint b, ALPHA)) # lex (drop (Suc (Suc i)) p)"
  using Cons_nth_drop_Suc [of i p, symmetric] Cons_nth_drop_Suc [of "Suc i" p, symmetric]
  by (simp add: byte_at_def nth_append Let_def)

text \<open>One call: the token is the next one of the lexer, the end token when there is none.\<close>

lemma scan_step:
  assumes R: "reading s p i" and e: "has_flag ESCP_SEQ_FLAG cf"
  shows "\<exists>cf' s' k t. regex_scan False cf s = Some (False, cf', s') \<and> reading s' p k \<and> has_flag ESCP_SEQ_FLAG cf' \<and>
    curtoken s' = Some t \<and> lex (drop k p) = tl (lex (drop i p)) \<and>
    (if lex (drop i p) = [] then tok_of t = (0, EOF_SYM) else i < k \<and> k \<le> length p \<and> tok_of t = spec_of (hd (lex (drop i p))))"
proof -
  have A: "scan_at s p i" using R by (simp add: reading_def)
  then have il: "i \<le> Suc (length p)" and pl: "plain p" by (simp_all add: scan_at_def)
  consider "i = Suc (length p)" | "i = length p \<or> Suc i = length p \<and> byte_at p i = 92" | "i < length p" "byte_at p i \<noteq> 92"
    | "Suc i < length p" "byte_at p i = 92" using il by fastforce
  then show ?thesis
  proof cases
    case 1
    then obtain t where "curtoken s = Some t" "tok_of t = (0, EOF_SYM)" using R by (auto simp: reading_def)
    then show ?thesis using scan_beyond A R e 1 by auto
  next
    case 2
    from scan_end [OF A e 2] obtain cf' s' j t where
      r: "regex_scan False cf s = Some (False, cf', s')" "scan_at s' p j" "length p \<le> j" "has_flag ESCP_SEQ_FLAG cf'"
      "curtoken s' = Some t" "tok_of t = (0, EOF_SYM)" by blast
    then have "reading s' p j" "lex (drop j p) = []" by (auto simp: reading_def)
    then show ?thesis using r lex_end [OF 2] by auto
  next
    case 3
    from scan_char [OF A 3, of cf] obtain s' t where
      r: "regex_scan False cf s = Some (False, line_flags p i cf, s')" "scan_at s' p (Suc i)"
      "curtoken s' = Some t" "tok_of t = spec_of (char_token (sint (byte_at p i)))" by blast
    have "byte_at p i \<noteq> 10 \<and> byte_at p i \<noteq> 255" using byte_at_line [OF pl 3(1)] by auto
    then have "tok_of t = spec_of (hd (lex (drop i p)))" using r(4) lex_char [OF 3] by (simp add: char_token_agrees)
    moreover have "reading s' p (Suc i)" using r(2) 3(1) by (simp add: reading_def)
    ultimately show ?thesis using r lex_char [OF 3] 3(1) e
      by (intro exI [of _ "line_flags p i cf"] exI [of _ s'] exI [of _ "Suc i"] exI [of _ t]) (simp add: line_flags_escp)
  next
    case 4
    from scan_escape [OF A 4 e] obtain cf' s' t where
      r: "regex_scan False cf s = Some (False, cf', s')" "scan_at s' p (Suc (Suc i))" "has_flag ESCP_SEQ_FLAG cf'"
      "curtoken s' = Some t" "tok_of t = spec_of (let d = sint (byte_at p (Suc i)) in
         if is_digit_c d then (d - 48, BACKREFERENCE) else (d, ALPHA))" by blast
    moreover have "reading s' p (Suc (Suc i))" using r(2) 4(1) by (simp add: reading_def)
    ultimately show ?thesis using lex_escape [OF 4] 4(1)
      by (intro exI [of _ cf'] exI [of _ s'] exI [of _ "Suc (Suc i)"] exI [of _ t]) (auto simp: Let_def digits_agree)
  qed
qed

lemma symbol_of_no_end: "symbol_of b \<noteq> EOF_SYM"
  by (simp add: symbol_of_def operators_def)

lemma lex_no_end: "v \<in> set (lex p) \<Longrightarrow> snd v \<noteq> EOF_SYM"
  by (induction p rule: lex.induct) (auto simp: symbol_of_no_end split: if_splits)

lemma scan_all_lex:
  assumes "reading s p i" "has_flag ESCP_SEQ_FLAG cf"
  shows "\<exists>ts cf' s' j. scan_all False cf s = Some (ts, False, cf', s') \<and> map tok_of ts = map spec_of (lex (drop i p)) \<and>
    reading s' p j \<and> lex (drop j p) = [] \<and> has_flag ESCP_SEQ_FLAG cf'"
  using assms
proof (induction "length p - i" arbitrary: s i cf rule: less_induct)
  case less
  from scan_step [OF less.prems] obtain cf1 s1 k t where
    r: "regex_scan False cf s = Some (False, cf1, s1)" "reading s1 p k" "has_flag ESCP_SEQ_FLAG cf1" "curtoken s1 = Some t"
      "lex (drop k p) = tl (lex (drop i p))"
    and n: "if lex (drop i p) = [] then tok_of t = (0, EOF_SYM) else i < k \<and> k \<le> length p \<and> tok_of t = spec_of (hd (lex (drop i p)))"
    by blast
  show ?case
  proof (cases "lex (drop i p)")
    case Nil
    then have "t_type t = EOF_SYM" using n by (simp add: tok_of_def)
    then have "scan_all False cf s = Some ([], False, cf1, s1)" using r(1,4) by (subst scan_all.simps) simp
    then show ?thesis using r Nil by auto
  next
    case (Cons v vs)
    then have k: "i < k" "k \<le> length p" "tok_of t = spec_of v" using n by auto
    have "snd v \<noteq> EOF_SYM" using lex_no_end [of v "drop i p"] Cons by simp
    then have ty: "t_type t \<noteq> EOF_SYM" using k(3) by (simp add: tok_of_def spec_of_def)
    have "length p - k < length p - i" using k by simp
    from less.hyps [OF this r(2,3)] obtain ts cf' s' j where
      q: "scan_all False cf1 s1 = Some (ts, False, cf', s')" "map tok_of ts = map spec_of (lex (drop k p))" "reading s' p j"
      "lex (drop j p) = []" "has_flag ESCP_SEQ_FLAG cf'" by blast
    have "scan_all False cf s = Some (t # ts, False, cf', s')" using r(1,4) ty q(1) by (subst scan_all.simps) simp
    moreover have "map tok_of (t # ts) = map spec_of (lex (drop i p))" using q(2) r(5) k(3) Cons by simp
    ultimately show ?thesis using q(3-5) by blast
  qed
qed

text \<open>A fixed number of calls, whatever they return.\<close>

fun scan_times :: "nat \<Rightarrow> bool \<Rightarrow> u32 \<Rightarrow> scanner \<Rightarrow> (token list \<times> bool \<times> u32 \<times> scanner) option" where
  "scan_times 0 seen cf s = Some ([], seen, cf, s)"
| "scan_times (Suc n) seen cf s = do {
     (seen, cf, s) \<leftarrow> regex_scan seen cf s;
     t \<leftarrow> curtoken s;
     (ts, st) \<leftarrow> scan_times n seen cf s;
     Some (t # ts, st) }"

lemma scan_times_lex:
  assumes "reading s p i" "has_flag ESCP_SEQ_FLAG cf"
  shows "\<exists>ts cf' s'. scan_times n False cf s = Some (ts, False, cf', s') \<and>
    map tok_of ts = take n (map spec_of (lex (drop i p)) @ replicate n (0, EOF_SYM))"
  using assms
proof (induction n arbitrary: s i cf)
  case (Suc n)
  from scan_step [OF Suc.prems] obtain cf1 s1 k t where
    r: "regex_scan False cf s = Some (False, cf1, s1)" "reading s1 p k" "has_flag ESCP_SEQ_FLAG cf1" "curtoken s1 = Some t"
      "lex (drop k p) = tl (lex (drop i p))"
    and n: "if lex (drop i p) = [] then tok_of t = (0, EOF_SYM) else i < k \<and> k \<le> length p \<and> tok_of t = spec_of (hd (lex (drop i p)))"
    by blast
  from Suc.IH [OF r(2,3)] obtain ts cf' s' where
    q: "scan_times n False cf1 s1 = Some (ts, False, cf', s')"
      "map tok_of ts = take n (map spec_of (lex (drop k p)) @ replicate n (0, EOF_SYM))" by blast
  have "scan_times (Suc n) False cf s = Some (t # ts, False, cf', s')" using r(1,4) q(1) by simp
  moreover have "map tok_of (t # ts) = take (Suc n) (map spec_of (lex (drop i p)) @ replicate (Suc n) (0, EOF_SYM))"
  proof (cases "lex (drop i p)")
    case Nil
    then show ?thesis using n q(2) r(5) by simp
  next
    case (Cons v vs)
    have "replicate (n - m) z = take (n - m) (z # replicate n z)" for m and z :: "u32 \<times> symbol_type"
      by (metis diff_le_self le_Suc_eq min.absorb1 replicate_Suc take_replicate)
    then show ?thesis using n q(2) r(5) Cons by simp
  qed
  ultimately show ?case by blast
qed simp

section \<open>Preparing a line\<close>

lemma has_escp: "has_flag ESCP_SEQ_FLAG (set_flag ESCP_SEQ_FLAG cf)"
proof -
  have e: "ESCP_SEQ_FLAG = 2 ^ 5" by (simp add: ESCP_SEQ_FLAG_def)
  show ?thesis unfolding e has_flag_bit by (simp add: set_flag_def bit_or_iff bit_exp_iff)
qed

text \<open>The text of a line: \<open>p\<close> followed by a newline, or a non-empty \<open>p\<close> alone.\<close>

definition line_text :: "byte list \<Rightarrow> bool \<Rightarrow> byte list" where
  "line_text p nl = p @ (if nl then [10] else [])"

lemma reset_scanner_line:
  assumes p: "plain p" "nl \<or> p \<noteq> []" and b: "bytes s = line_text p nl @ 0 # rest" "1 < buffer s"
    and l: "line_len s = int (length (line_text p nl))" "buf_len s = int (length (bytes s))"
    and t: "eol_symbol s = -2" "curtoken s \<noteq> None"
  shows "\<exists>s'. reset_scanner cf s fname = Some (line_flags p 0 (set_flag ESCP_SEQ_FLAG cf), s') \<and> scan_at s' p 0 \<and>
    filename s' = fname \<and> str_begin s' = buffer s'"
proof (cases nl)
  case True
  have b': "bytes s = p @ 10 # 0 # rest" using b(1) True by (simp add: line_text_def)
  have ll: "line_len s = int (length p) + 1" using l(1) True by (simp add: line_text_def)
  let ?s = "s\<lparr>last_newline := 0\<rparr>"
  let ?s1 = "?s\<lparr>bytes := p @ 254 # 0 # rest\<rparr>"
  let ?s2 = "?s1\<lparr>readhead := buffer s, str_begin := buffer s\<rparr>"
  have r: "char_at ?s (buffer ?s + line_len ?s - 1) = Some 10" using b' ll b(2) by (simp add: char_at_def nth_append)
  have w: "char_put ?s (buffer ?s + line_len ?s - 1) (eol_symbol ?s) = Some ?s1"
    using b' ll t(1) by (simp add: char_put_def list_update_append)
  have A: "scan_at ?s2 p 0" using p(1) b(2) ll t by (simp add: scan_at_def)
  have "reset_scanner cf s fname = Some (line_flags p 0 (set_flag ESCP_SEQ_FLAG cf), ?s2\<lparr>filename := fname\<rparr>)"
    using r w update_flags_line [OF A, of "set_flag ESCP_SEQ_FLAG cf"] by (simp add: reset_scanner_def Let_def)
  moreover have "scan_at (?s2\<lparr>filename := fname\<rparr>) p 0" using A by (simp add: scan_at_def)
  ultimately show ?thesis by (intro exI [of _ "?s2\<lparr>filename := fname\<rparr>"]) simp
next
  case False
  have b': "bytes s = p @ 0 # rest" "p \<noteq> []" using b(1) p(2) False by (auto simp: line_text_def)
  have ll: "line_len s = int (length p)" using l(1) False by (simp add: line_text_def)
  let ?s = "s\<lparr>last_newline := 0\<rparr>"
  obtain rest' n where g: "(if buf_len ?s < line_len ?s + 2
      then ?s\<lparr>bytes := take (nat (buf_len ?s + 1)) (bytes ?s @ [0]), buf_len := buf_len ?s + 1\<rparr> else ?s) =
      ?s\<lparr>bytes := p @ 0 # rest', buf_len := n\<rparr>" "rest' \<noteq> []"
  proof (cases "rest = []")
    case True
    then have "(if buf_len ?s < line_len ?s + 2
      then ?s\<lparr>bytes := take (nat (buf_len ?s + 1)) (bytes ?s @ [0]), buf_len := buf_len ?s + 1\<rparr> else ?s) =
      ?s\<lparr>bytes := p @ 0 # [0], buf_len := int (length p) + 2\<rparr>" using b' l(2) ll by (simp add: nat_add_distrib)
    then show ?thesis using that by blast
  next
    case f: False
    then have "\<not> buf_len ?s < line_len ?s + 2" using b' l(2) ll by (cases rest) auto
    moreover have "?s = ?s\<lparr>bytes := p @ 0 # rest, buf_len := buf_len s\<rparr>" using b' by simp
    ultimately show ?thesis using that f by metis
  qed
  obtain y ys where y: "rest' = y # ys" using g(2) by (cases rest') auto
  have "p ! (length p - 1) \<in> set p" using b'(2) by simp
  then have np: "sint (p ! (length p - 1)) \<noteq> 10"
    using p(1) sint_byte_eq [of "p ! (length p - 1)" 10] by (auto simp: plain_def)
  have r: "char_at ?s (buffer ?s + line_len ?s - 1) = Some (sint (p ! (length p - 1)))"
    using b' ll by (auto simp: char_at_def nth_append nat_diff_distrib Suc_leI)
  let ?g = "?s\<lparr>bytes := p @ 0 # rest', buf_len := n\<rparr>"
  let ?g1 = "?s\<lparr>bytes := p @ 254 # rest', buf_len := n\<rparr>" and ?g2 = "?s\<lparr>bytes := p @ 254 # 0 # ys, buf_len := n\<rparr>"
  have w: "char_put ?g (buffer ?g + line_len ?g) (eol_symbol ?g) = Some ?g1"
    using ll t(1) by (simp add: char_put_def list_update_append)
  have w2: "char_put ?g1 (buffer ?g1 + line_len ?g1 + 1) 0 = Some ?g2"
    using ll y by (simp add: char_put_def list_update_append nat_add_distrib)
  let ?s2 = "?g2\<lparr>line_len := line_len s + 1, readhead := buffer s, str_begin := buffer s\<rparr>"
  have A: "scan_at ?s2 p 0" using p(1) b(2) ll t by (simp add: scan_at_def)
  have "reset_scanner cf s fname = Some (line_flags p 0 (set_flag ESCP_SEQ_FLAG cf), ?s2\<lparr>filename := fname\<rparr>)"
    using r np w w2 update_flags_line [OF A, of "set_flag ESCP_SEQ_FLAG cf"]
    unfolding reset_scanner_def Let_def g(1) by simp
  moreover have "scan_at (?s2\<lparr>filename := fname\<rparr>) p 0" using A by (simp add: scan_at_def)
  ultimately show ?thesis by (intro exI [of _ "?s2\<lparr>filename := fname\<rparr>"]) simp
qed

lemma init_scanner_line:
  assumes p: "plain p" "nl \<or> p \<noteq> []" and b: "1 < buf"
  shows "\<exists>s. init_scanner fname buf (line_text p nl @ [z]) (int (length (line_text p nl)) + 1)
      (int (length (line_text p nl))) cf = Some (line_flags p 0 (set_flag ESCP_SEQ_FLAG cf), s) \<and> scan_at s p 0 \<and>
      filename s = fname"
proof -
  let ?l = "line_text p nl" and ?n = "int (length (line_text p nl))"
  let ?s = "\<lparr>line_no = 0, eol_symbol = -2, line_len = ?n, buf_len = ?n + 1, filename = fname, buffer = buf,
    bytes = ?l @ 0 # [], readhead = 0, str_begin = 0, last_newline = 0, curtoken = Some new_token\<rparr>"
  have "init_scanner fname buf (?l @ [z]) (?n + 1) ?n cf = reset_scanner cf ?s fname"
    by (simp add: init_scanner_def char_put_def list_update_append EOF_c_def)
  moreover have "\<exists>s'. reset_scanner cf ?s fname = Some (line_flags p 0 (set_flag ESCP_SEQ_FLAG cf), s') \<and> scan_at s' p 0 \<and>
    filename s' = fname \<and> str_begin s' = buffer s'"
    by (rule reset_scanner_line [OF p, of _ "[]"]) (use b in simp_all)
  ultimately show ?thesis by auto
qed

section \<open>Properties\<close>

text \<open>C3: a pattern line (with or without its newline, in the smallest buffer) without the bytes 0,
  10, 254 and 255 is scanned, from \<open>init_scanner\<close>, to exactly the tokens of the lexer: each operator
  by its entry in the table \<open>operators\<close>, a digit as a digit, a backslash with a digit as a
  back-reference, a backslash with any other character as that character, a lone trailing backslash as
  nothing. Calling \<open>regex_scan\<close> until it returns the end token gives these tokens and ends, and however
  often it is called, every call after the last token returns the end token again, without an access
  outside the buffer.\<close>

theorem scanner_lexes:
  assumes "plain p" "nl \<or> p \<noteq> []" "1 < buf"
  shows "\<exists>cf0 s0. init_scanner fname buf (line_text p nl @ [z]) (int (length (line_text p nl)) + 1)
      (int (length (line_text p nl))) cf = Some (cf0, s0) \<and>
    (\<exists>ts cf1 s1. scan_all False cf0 s0 = Some (ts, False, cf1, s1) \<and> map tok_of ts = map spec_of (lex p)) \<and>
    (\<forall>n. \<exists>ts cf1 s1. scan_times n False cf0 s0 = Some (ts, False, cf1, s1) \<and>
      map tok_of ts = take n (map spec_of (lex p) @ replicate n (0, EOF_SYM)))"
proof -
  from init_scanner_line [OF assms, of fname z cf] obtain s0 where
    s0: "init_scanner fname buf (line_text p nl @ [z]) (int (length (line_text p nl)) + 1) (int (length (line_text p nl))) cf =
      Some (line_flags p 0 (set_flag ESCP_SEQ_FLAG cf), s0)" "scan_at s0 p 0" by blast
  have e: "has_flag ESCP_SEQ_FLAG (line_flags p 0 (set_flag ESCP_SEQ_FLAG cf))" by (simp add: line_flags_escp has_escp)
  have "reading s0 p 0" using s0(2) by (simp add: reading_def)
  note R = this
  have "\<exists>ts cf1 s1. scan_all False (line_flags p 0 (set_flag ESCP_SEQ_FLAG cf)) s0 = Some (ts, False, cf1, s1) \<and>
    map tok_of ts = map spec_of (lex p)" using scan_all_lex [OF R e] unfolding drop_0 by blast
  moreover have "\<forall>n. \<exists>ts cf1 s1. scan_times n False (line_flags p 0 (set_flag ESCP_SEQ_FLAG cf)) s0 = Some (ts, False, cf1, s1) \<and>
    map tok_of ts = take n (map spec_of (lex p) @ replicate n (0, EOF_SYM))"
    using scan_times_lex [OF R e] unfolding drop_0 by blast
  ultimately show ?thesis using s0(1) by blast
qed

theorem scanner_lexes_witness:
  "\<exists>cf0 s0 ts cf1 s1. init_scanner None 4096 [97, 42, 92, 49, 0] 5 4 0 = Some (cf0, s0) \<and>
    scan_times 5 False cf0 s0 = Some (ts, False, cf1, s1) \<and>
    map tok_of ts = [(97, ALPHA), (42, KLEENE), (1, BACKREFERENCE), (0, EOF_SYM), (0, EOF_SYM)]"
proof -
  have p: "plain [97, 42, 92, 49]" by (simp add: plain_def)
  have l: "line_text [97, 42, 92, 49] False = [97, 42, 92, 49]" by (simp add: line_text_def)
  have t: "take 5 (map spec_of (lex [97, 42, 92, 49]) @ replicate 5 (0, EOF_SYM)) =
    [(97, ALPHA), (42, KLEENE), (1, BACKREFERENCE), (0, EOF_SYM), (0, EOF_SYM)]" by code_simp
  have n: "int (length [97, 42, 92, 49 :: byte]) = 4" "4 + 1 = (5 :: int)" by simp_all
  have c: "False \<or> [97, 42, 92, 49 :: byte] \<noteq> []" "(1::int) < 4096" by simp_all
  obtain cf0 s0 where r: "init_scanner None 4096 ([97, 42, 92, 49] @ [0]) 5 4 0 = Some (cf0, s0)"
      "\<forall>n. \<exists>ts cf1 s1. scan_times n False cf0 s0 = Some (ts, False, cf1, s1) \<and>
        map tok_of ts = take n (map spec_of (lex [97, 42, 92, 49]) @ replicate n (0, EOF_SYM))"
    using scanner_lexes [OF p c, of None 0 0] unfolding l n by (elim exE conjE) (rule that)
  from r(2) [rule_format, of 5] obtain ts cf1 s1 where
    "scan_times 5 False cf0 s0 = Some (ts, False, cf1, s1)" "map tok_of ts = [(97, ALPHA), (42, KLEENE), (1, BACKREFERENCE), (0, EOF_SYM), (0, EOF_SYM)]"
    unfolding t by (elim exE conjE)
  moreover have "init_scanner None 4096 [97, 42, 92, 49, 0] 5 4 0 = Some (cf0, s0)" using r(1) by simp
  ultimately show ?thesis by (intro exI conjI)
qed

text \<open>The value that remains of an integer in a signed number of 32 bits.\<close>

definition wrapped :: "int \<Rightarrow> int" where
  "wrapped k = (k + 2 ^ 31) mod 2 ^ 32 - 2 ^ 31"

lemma narrow_int: "sint (word_of_int k :: 32 word) = wrapped k"
  by (simp add: wrapped_def sint_uint uint_word_of_int signed_take_bit_eq_take_bit_shift take_bit_eq_mod mod_simps)

text \<open>C33: on a prepared line \<open>next_char\<close> returns the character at the read head and moves past it,
  sets the begin-of-line flag exactly at the first character and the end-of-line flag exactly at
  the end symbol, leaves every other flag alone, and \<open>unput\<close> undoes the move.\<close>

theorem next_char_reads:
  assumes "scan_at s p i" "i \<le> length p"
  shows "\<exists>cf' s'. next_char cf (Some s) = Some (sint (byte_at p i), cf', Some s') \<and> scan_at s' p (Suc i) \<and>
    unput (Some s') = Some (Some s) \<and>
    map (\<lambda>k. bit cf' k) [0..<32] = map (\<lambda>k. if k = 4 then i = 0 else if k = 3 then i = length p else bit cf k) [0..<32]"
proof (intro exI conjI)
  show "next_char cf (Some s) = Some (sint (byte_at p i), line_flags p i cf, Some (s\<lparr>readhead := readhead s + 1\<rparr>))"
    using next_char_line [OF assms] by blast
  show "scan_at (s\<lparr>readhead := readhead s + 1\<rparr>) p (Suc i)" using next_char_line [OF assms] by blast
  show "unput (Some (s\<lparr>readhead := readhead s + 1\<rparr>)) = Some (Some s)" by (rule unput_line [OF assms])
  show "map (\<lambda>k. bit (line_flags p i cf) k) [0..<32] =
      map (\<lambda>k. if k = 4 then i = 0 else if k = 3 then i = length p else bit cf k) [0..<32]"
    by (intro map_cong refl line_flags_bits) simp
qed

definition demo_scanner :: scanner where
  "demo_scanner = \<lparr>line_no = 0, eol_symbol = -2, line_len = 2, buf_len = 3, filename = None, buffer = 4096,
     bytes = [97, 254, 0], readhead = 4096, str_begin = 4096, last_newline = 0, curtoken = Some new_token\<rparr>"

lemma demo_scanner_at: "scan_at demo_scanner [97] 0"
  by (simp add: scan_at_def demo_scanner_def plain_def)

theorem next_char_reads_witness:
  "\<exists>cf' s'. next_char 0 (Some demo_scanner) = Some (97, cf', Some s') \<and> unput (Some s') = Some (Some demo_scanner)"
proof -
  have "sint (byte_at [97] 0) = 97" by (simp add: byte_at_def)
  then show ?thesis using next_char_reads [OF demo_scanner_at, of 0] by auto
qed

lemma restart_from_wrapped: "restart_from cf s pos = do {
    (if wrapped (pos - buffer s) \<ge> 0 \<and> wrapped (pos - buffer s) < line_len s then do {
       cf \<leftarrow> update_flags cf (s\<lparr>readhead := pos, str_begin := pos\<rparr>);
       Some (cf, s\<lparr>readhead := pos, str_begin := pos\<rparr>) }
     else Some (set_flag AT_EOL_FLAG cf, s\<lparr>readhead := buffer s + line_len s\<rparr>)) }"
  by (simp only: restart_from_def narrow_int Let_def)

text \<open>C34: \<open>restart_from\<close> moves the read head (and the beginning of the string) to any position of
  the line, the end symbol included, from where the characters are read again. For a position outside
  the line the difference of the addresses, narrowed to 32 bits, decides: when it lies outside the line
  too, the read head moves to the terminator and the end-of-line flag is set; when it falls inside by
  wrapping, the character at the position, outside the buffer, is read (the model stops). The block of
  the buffer is supposed to be smaller than 2 to the 31, as the sizes of the source are.\<close>

theorem restart_from_moves:
  assumes "scan_at s p i" "length (bytes s) < 2 ^ 31"
  shows "(if buffer s \<le> pos \<and> pos \<le> buffer s + int (length p)
     then \<exists>s'. restart_from cf s pos = Some (line_flags p (nat (pos - buffer s)) cf, s') \<and>
       scan_at s' p (nat (pos - buffer s)) \<and> str_begin s' = pos
     else if 0 \<le> wrapped (pos - buffer s) \<and> wrapped (pos - buffer s) \<le> int (length p) then restart_from cf s pos = None
     else \<exists>s'. restart_from cf s pos = Some (set_flag AT_EOL_FLAG cf, s') \<and> scan_at s' p (Suc (length p)) \<and>
       str_begin s' = str_begin s)"
proof -
  have l: "line_len s = int (length p) + 1" "bytes s = p @ 254 # 0 # drop (length p + 2) (bytes s)"
    using assms(1) by (auto simp: scan_at_def)
  have b: "int (length p) + 2 \<le> int (length (bytes s))" using arg_cong [OF l(2), of length] by simp
  consider "buffer s \<le> pos \<and> pos \<le> buffer s + int (length p)"
    | "\<not> (buffer s \<le> pos \<and> pos \<le> buffer s + int (length p))" "0 \<le> wrapped (pos - buffer s) \<and> wrapped (pos - buffer s) \<le> int (length p)"
    | "\<not> (buffer s \<le> pos \<and> pos \<le> buffer s + int (length p))" "\<not> (0 \<le> wrapped (pos - buffer s) \<and> wrapped (pos - buffer s) \<le> int (length p))" by blast
  then show ?thesis
  proof cases
    case 1
    let ?s = "s\<lparr>readhead := pos, str_begin := pos\<rparr>"
    have A: "scan_at ?s p (nat (pos - buffer s))" using assms(1) 1 by (auto simp: scan_at_def)
    have "wrapped (pos - buffer s) = pos - buffer s" using 1 b assms(2) by (simp add: wrapped_def)
    then have "restart_from cf s pos = Some (line_flags p (nat (pos - buffer s)) cf, ?s)"
      using 1 update_flags_line [OF A, of cf] l(1) by (simp add: restart_from_wrapped)
    then show ?thesis using A 1 by auto
  next
    case 2
    let ?s = "s\<lparr>readhead := pos, str_begin := pos\<rparr>"
    have "\<not> (buffer s \<le> pos \<and> pos < buffer s + int (length (bytes s)))"
    proof
      assume i: "buffer s \<le> pos \<and> pos < buffer s + int (length (bytes s))"
      then have "wrapped (pos - buffer s) = pos - buffer s" using assms(2) by (simp add: wrapped_def)
      then show False using 2 i by simp
    qed
    then have "update_flags cf ?s = None" using assms(1) by (auto simp: update_flags_def char_at_def scan_at_def Let_def)
    then have "restart_from cf s pos = None" using 2(2) l(1) by (simp add: restart_from_wrapped)
    then show ?thesis using 2 by auto
  next
    case 3
    let ?s = "s\<lparr>readhead := buffer s + line_len s\<rparr>"
    have "restart_from cf s pos = Some (set_flag AT_EOL_FLAG cf, ?s)"
      using 3(2) l(1) by (auto simp: restart_from_wrapped)
    moreover have "scan_at ?s p (Suc (length p))" using assms(1) l(1) by (auto simp: scan_at_def)
    ultimately show ?thesis using 3 by auto
  qed
qed

theorem restart_from_moves_witness:
  "(\<exists>s'. restart_from 0 demo_scanner 4097 = Some (line_flags [97] 1 0, s') \<and> scan_at s' [97] 1) \<and>
   (\<exists>s'. restart_from 0 demo_scanner 9 = Some (set_flag AT_EOL_FLAG 0, s') \<and> scan_at s' [97] 2) \<and>
   restart_from 0 demo_scanner (4097 + 2 ^ 32) = None"
proof -
  have b: "length (bytes demo_scanner) < 2 ^ 31" by (simp add: demo_scanner_def)
  have d: "buffer demo_scanner = 4096" by (simp add: demo_scanner_def)
  have "\<exists>s'. restart_from 0 demo_scanner 4097 = Some (line_flags [97] 1 0, s') \<and> scan_at s' [97] 1"
    using restart_from_moves [OF demo_scanner_at b, of 4097 0] by (auto simp: d)
  moreover have "\<exists>s'. restart_from 0 demo_scanner 9 = Some (set_flag AT_EOL_FLAG 0, s') \<and> scan_at s' [97] 2"
    using restart_from_moves [OF demo_scanner_at b, of 9 0] by (auto simp add: d wrapped_def numeral_2_eq_2)
  moreover have "restart_from 0 demo_scanner (4097 + 2 ^ 32) = None"
    using restart_from_moves [OF demo_scanner_at b, of "4097 + 2 ^ 32" 0] by (simp add: d wrapped_def)
  ultimately show ?thesis by blast
qed

text \<open>C35: scanner states nest: pushing the current scanner makes the new one current, and popping
  returns the current one and restores the one pushed last; popping with an empty stack leaves no
  current scanner.\<close>

theorem scanner_states_nest:
  assumes "list_holds V gs h ys"
  shows "\<exists>n h1 h2. scanner_push_state gs h (Some a) (Some b) = Some (n, Some b, h1) \<and> list_holds V gs h1 (a # ys) \<and>
    scanner_pop_state gs h1 (Some b) = Some (Some b, Some a, h2) \<and> list_holds V gs h2 ys \<and>
    (\<exists>h3. scanner_pop_state gs h2 (Some a) = Some (Some a, if ys = [] then None else Some (hd ys), h3) \<and>
      list_holds V gs h3 (tl ys))"
proof -
  from lst.push_ok [OF assms, of a] obtain h1 where
    h1: "map_option snd (stack_push h (Some gs) (Some a)) = Some h1" "list_holds V gs h1 (a # ys)"
    by (auto simp: list_push_elem_def)
  from lst.pop_ok [OF h1(2)] obtain h2 where
    h2: "stack_pop h1 (Some gs) = Some (Some a, h2)" "list_holds V gs h2 ys" by (auto simp: list_pop_def)
  obtain h3 where h3: "stack_pop h2 (Some gs) = Some (if ys = [] then None else Some (hd ys), h3)" "list_holds V gs h3 (tl ys)"
  proof (cases ys)
    case Nil
    then show ?thesis using lst.pop_empty [of V gs h2] h2(2) that by (auto simp: list_pop_def)
  next
    case (Cons y zs)
    then show ?thesis using lst.pop_ok [of V gs h2 y zs] h2(2) that by (auto simp: list_pop_def)
  qed
  from h1(1) obtain n where "stack_push h (Some gs) (Some a) = Some (n, h1)" by auto
  then have "scanner_push_state gs h (Some a) (Some b) = Some (n, Some b, h1)" by (simp add: scanner_push_state_def)
  moreover have "scanner_pop_state gs h1 (Some b) = Some (Some b, Some a, h2)" using h2(1) by (simp add: scanner_pop_state_def)
  moreover have "scanner_pop_state gs h2 (Some a) = Some (Some a, if ys = [] then None else Some (hd ys), h3)"
    using h3(1) by (simp add: scanner_pop_state_def)
  ultimately show ?thesis using h1(2) h2(2) h3(2) by blast
qed

theorem scanner_states_nest_witness:
  "\<exists>n h1 h2. scanner_push_state 1 demo3 (Some 7) (Some 8) = Some (n, Some 8, h1) \<and>
    scanner_pop_state 1 h1 (Some 8) = Some (Some 8, Some 7, h2) \<and> list_holds demo3_view 1 h2 [40]"
proof -
  have "demo3_view(1 \<mapsto> (map Some [40], 0)) = demo3_view" by (simp add: demo3_view_def fun_upd_idem)
  then have "list_holds demo3_view 1 demo3 [40]" using demo3_view by (metis list_holds_def)
  from scanner_states_nest [OF this, of 7 8] show ?thesis by blast
qed

end
