(* ===== verification/Sim.thy ===== *)
theory Sim
  imports Scanner BoyerMoore Mpat Nfa "HOL-Library.Signed_Division"
begin

text \<open>
  The state of the recognizer, \<open>src/recognizer.h\<close>, and the operations of \<open>src/recognizer.c\<close> on its
  pools of threads, its matches and the control block.

  There is one control block, and all threads belong to it and share its scanner, so the back
  pointers \<open>ctrl\<close> and \<open>scanner\<close> of a thread are not fields; \<open>input_ptr\<close> is never used. A pointer
  into the line is the integer address of the scanner model, 0 for \<open>NULL\<close>; the address \<open>sc_nul\<close> is
  that of the string literal that makes the recognizer stop. What is printed on the standard output
  is appended to \<open>sc_out\<close>. The function pointers \<open>kw_*\<close> depend on the kind of the search object.
\<close>

section \<open>Data\<close>

record match =
  mt_start :: int
  mt_end :: int
  mt_last :: int

definition null_match :: match where
  "null_match = \<lparr>mt_start = 0, mt_end = 0, mt_last = 0\<rparr>"

record simpool =
  sp_head :: ptr
  sp_tail :: ptr

record nfasim =
  ts_bref :: int
  ts_ip :: ptr
  ts_match :: match
  ts_status :: int
  ts_intervals :: int
  ts_backrefs :: int
  ts_icount :: int
  ts_next :: ptr
  ts_brm :: "match list"
  ts_loop :: "int list"

datatype kwobj = KwNone | KwBm "bmobj option" | KwMpat "mpat option"

record simctrl =
  sc_match_idx :: int
  sc_filename_len :: int
  sc_loop_cap :: nat
  sc_cur_pos :: int
  sc_filename :: "byte list"
  sc_buffer_start :: int
  sc_buffer_end :: int
  sc_last_interval_pos :: int
  sc_start :: ptr
  sc_pool :: simpool
  sc_active :: simpool
  sc_next :: simpool
  sc_scanner :: scanner
  sc_kw :: kwobj
  sc_flags :: u32
  sc_match :: match
  sc_matches :: "byte list"
  sc_sp :: "int list"
  sc_threads :: "addr \<Rightarrow> nfasim option"
  sc_brk :: addr
  sc_nfa :: nheap
  sc_nul :: int
  sc_out :: "byte list"

text \<open>A thread from \<open>xmalloc\<close> is zeroed.\<close>

definition zero_thread :: "nat \<Rightarrow> nfasim" where
  "zero_thread cap = \<lparr>ts_bref = 0, ts_ip = None, ts_match = null_match, ts_status = 0, ts_intervals = 0, ts_backrefs = 0,
     ts_icount = 0, ts_next = None, ts_brm = replicate (nat CGRP_MAX) null_match, ts_loop = replicate cap 0\<rparr>"

definition tget :: "simctrl \<Rightarrow> ptr \<Rightarrow> nfasim option" where
  "tget c p = deref (sc_threads c) p"

definition tset :: "simctrl \<Rightarrow> ptr \<Rightarrow> (nfasim \<Rightarrow> nfasim) \<Rightarrow> simctrl option" where
  "tset c p f = do { a \<leftarrow> p; t \<leftarrow> sc_threads c a; Some (c\<lparr>sc_threads := (sc_threads c)(a \<mapsto> f t)\<rparr>) }"

definition xmalloc_thread :: "simctrl \<Rightarrow> ptr \<times> simctrl" where
  "xmalloc_thread c = (Some (sc_brk c),
     c\<lparr>sc_threads := (sc_threads c)(sc_brk c \<mapsto> zero_thread (sc_loop_cap c)), sc_brk := sc_brk c + 1\<rparr>)"

definition text_at :: "simctrl \<Rightarrow> int \<Rightarrow> int option" where
  "text_at c p = (if p = sc_nul c then Some 0 else char_at (sc_scanner c) p)"

text \<open>The three pools are passed by address.\<close>

datatype poolid = PoolFree | PoolActive | PoolNext

definition pget :: "simctrl \<Rightarrow> poolid \<Rightarrow> simpool" where
  "pget c d = (case d of PoolFree \<Rightarrow> sc_pool c | PoolActive \<Rightarrow> sc_active c | PoolNext \<Rightarrow> sc_next c)"

definition pset :: "simctrl \<Rightarrow> poolid \<Rightarrow> (simpool \<Rightarrow> simpool) \<Rightarrow> simctrl" where
  "pset c d f = (case d of PoolFree \<Rightarrow> c\<lparr>sc_pool := f (sc_pool c)\<rparr> | PoolActive \<Rightarrow> c\<lparr>sc_active := f (sc_active c)\<rparr>
     | PoolNext \<Rightarrow> c\<lparr>sc_next := f (sc_next c)\<rparr>)"

section \<open>Pools\<close>

definition swap_next_w_active :: "simctrl \<Rightarrow> simctrl" where
  "swap_next_w_active c = (let c = pset c PoolActive (sp_head_update (\<lambda>_. sp_head (sc_next c)));
     c = pset c PoolActive (sp_tail_update (\<lambda>_. sp_tail (sc_next c)));
     c = pset c PoolNext (sp_head_update (\<lambda>_. None)) in
     pset c PoolNext (sp_tail_update (\<lambda>_. None)))"

definition sim_pool_shift :: "simctrl \<Rightarrow> poolid \<Rightarrow> (ptr \<times> simctrl) option" where
  "sim_pool_shift c d = (if sp_head (pget c d) \<noteq> None then do {
       let ret = sp_head (pget c d);
       c \<leftarrow> (if sp_head (pget c d) = sp_tail (pget c d)
             then Some (pset (pset c d (sp_tail_update (\<lambda>_. None))) d (sp_head_update (\<lambda>_. None)))
             else do { t \<leftarrow> tget c ret; Some (pset c d (sp_head_update (\<lambda>_. ts_next t))) });
       c \<leftarrow> tset c ret (ts_next_update (\<lambda>_. None));
       Some (ret, c) }
     else Some (None, c))"

definition sim_pool_append :: "simctrl \<Rightarrow> poolid \<Rightarrow> ptr \<Rightarrow> simctrl option" where
  "sim_pool_append c d thread = do {
     c \<leftarrow> (if sp_head (pget c d) = None
           then Some (pset (pset c d (sp_head_update (\<lambda>_. thread))) d (sp_tail_update (\<lambda>_. thread)))
           else do {
             c \<leftarrow> tset c (sp_tail (pget c d)) (ts_next_update (\<lambda>_. thread));
             Some (pset c d (sp_tail_update (\<lambda>_. thread))) });
     tset c thread (ts_next_update (\<lambda>_. None)) }"

text \<open>\<open>pool->tail->next = q->head; pool->tail = q->tail\<close>, for the free pool.\<close>

definition link_pool :: "simctrl \<Rightarrow> simpool \<Rightarrow> simctrl option" where
  "link_pool c q = do {
     c \<leftarrow> tset c (sp_tail (sc_pool c)) (ts_next_update (\<lambda>_. sp_head q));
     Some (pset c PoolFree (sp_tail_update (\<lambda>_. sp_tail q))) }"

definition release_all_threads :: "simctrl \<Rightarrow> ptr \<Rightarrow> simctrl option" where
  "release_all_threads c thread = do {
     let one = \<lparr>sp_head = thread, sp_tail = thread\<rparr>;
     c \<leftarrow> (if sp_head (sc_pool c) = None then
           (if sp_head (sc_active c) \<noteq> None then do {
              let c = pset c PoolFree (\<lambda>_. sc_active c);
              c \<leftarrow> (if sp_head (sc_next c) \<noteq> None then link_pool c (sc_next c) else Some c);
              (if thread \<noteq> None then link_pool c one else Some c) }
            else if sp_head (sc_next c) \<noteq> None then do {
              let c = pset c PoolFree (\<lambda>_. sc_next c);
              (if thread \<noteq> None then link_pool c one else Some c) }
            else if thread \<noteq> None then Some (pset c PoolFree (\<lambda>_. one)) else Some c)
         else do {
           c \<leftarrow> (if sp_head (sc_active c) \<noteq> None then do {
                   c \<leftarrow> link_pool c (sc_active c);
                   (if sp_head (sc_next c) \<noteq> None then link_pool c (sc_next c) else Some c) }
                 else if sp_head (sc_next c) \<noteq> None then link_pool c (sc_next c) else Some c);
           (if thread \<noteq> None then link_pool c one else Some c) });
     c \<leftarrow> (if thread \<noteq> None then tset c thread (ts_next_update (\<lambda>_. None)) else Some c);
     Some (pset (pset c PoolNext (\<lambda>_. \<lparr>sp_head = None, sp_tail = None\<rparr>)) PoolActive (\<lambda>_. \<lparr>sp_head = None, sp_tail = None\<rparr>)) }"

section \<open>Matches\<close>

definition update_longest_match :: "match \<Rightarrow> match \<Rightarrow> match" where
  "update_longest_match m nm = (if mt_end m = 0 \<or> mt_end m - mt_start m < mt_end nm - mt_start nm
     then m\<lparr>mt_start := mt_start nm, mt_end := mt_end nm\<rparr>
     else if mt_start nm - mt_end m > -1 \<and> mt_start nm - mt_end m \<le> 1 then m\<lparr>mt_end := mt_end nm\<rparr>
     else m)"

definition update_match :: "simctrl \<Rightarrow> ptr \<Rightarrow> simctrl option" where
  "update_match c sim = do {
     t \<leftarrow> tget c sim;
     (if mt_start (ts_match t) = 0
      then tset c sim (ts_match_update (\<lambda>m. m\<lparr>mt_start := sc_cur_pos c, mt_end := sc_cur_pos c\<rparr>))
      else tset c sim (ts_match_update (mt_end_update (\<lambda>_. sc_cur_pos c)))) }"

section \<open>Characters\<close>

definition in_ranges :: "nat \<Rightarrow> nat \<Rightarrow> u32 \<Rightarrow> bool" where
  "in_ranges i j c \<longleftrightarrow> (case coll_ranges (collations ! i) ! j of (low, high) \<Rightarrow>
     (word_of_int low :: u32) \<le> c \<and> c \<le> word_of_int high)"

definition is_literal_space :: "u32 \<Rightarrow> bool" where
  "is_literal_space c \<longleftrightarrow> uint c < SIZE_OF_LOCALE \<and> (in_ranges 9 0 c \<or> in_ranges 9 1 c)"

definition is_literal_word_constituent :: "u32 \<Rightarrow> bool" where
  "is_literal_word_constituent c \<longleftrightarrow> uint c < SIZE_OF_LOCALE \<and> (in_ranges 1 0 c \<or> in_ranges 1 1 c \<or> in_ranges 1 2 c)"

end
