(* ===== verification/Output.thy ===== *)
theory Output
  imports Sim
begin

text \<open>
  The output buffer of the recognizer: \<open>flush_matches\<close>, \<open>fill_output_buffer\<close>, \<open>new_match\<close> of
  \<open>src/recognizer.c\<close>.

  \<open>sc_matches\<close> is the array \<open>matches\<close>, so its length is \<open>MATCH_BUFFER_SIZE\<close>, and a write outside
  it is an error. Bytes printed are appended to \<open>sc_out\<close>.
\<close>

section \<open>Writing the buffer\<close>

definition match_buffer_size :: "simctrl \<Rightarrow> int" where
  "match_buffer_size c = int (length (sc_matches c))"

definition put_match :: "simctrl \<Rightarrow> int \<Rightarrow> byte \<Rightarrow> simctrl option" where
  "put_match c i b = (if 0 \<le> i \<and> i < match_buffer_size c then Some (c\<lparr>sc_matches := (sc_matches c)[nat i := b]\<rparr>) else None)"

definition put_bytes :: "simctrl \<Rightarrow> int \<Rightarrow> byte list \<Rightarrow> simctrl option" where
  "put_bytes c i bs = (if 0 \<le> i \<and> i + int (length bs) \<le> match_buffer_size c
     then Some (c\<lparr>sc_matches := take (nat i) (sc_matches c) @ bs @ drop (nat i + length bs) (sc_matches c)\<rparr>) else None)"

text \<open>\<open>strncpy\<close> stops at a null byte and fills the rest with null bytes.\<close>

primrec strncpy_src :: "(int \<Rightarrow> int option) \<Rightarrow> int \<Rightarrow> nat \<Rightarrow> byte list option" where
  "strncpy_src rd p 0 = Some []"
| "strncpy_src rd p (Suc n) = do {
     c \<leftarrow> rd p;
     (if c = 0 then Some (replicate (Suc n) 0)
      else do { bs \<leftarrow> strncpy_src rd (p + 1) n; Some (word_of_int c # bs) }) }"

definition strncpy_match :: "simctrl \<Rightarrow> int \<Rightarrow> int \<Rightarrow> int \<Rightarrow> simctrl option" where
  "strncpy_match c i src n = do {
     _ \<leftarrow> ensure (0 \<le> n);
     bs \<leftarrow> strncpy_src (text_at c) src (nat n);
     put_bytes c i bs }"

text \<open>\<open>snprintf\<close> with a size: at most \<open>size - 1\<close> characters and a null byte.\<close>

definition snprintf_match :: "simctrl \<Rightarrow> int \<Rightarrow> int \<Rightarrow> byte list \<Rightarrow> simctrl option" where
  "snprintf_match c i sz bs = (if sz \<le> 0 then Some c else put_bytes c i (take (nat (sz - 1)) bs @ [0]))"

definition print :: "simctrl \<Rightarrow> byte list \<Rightarrow> simctrl" where
  "print c bs = c\<lparr>sc_out := sc_out c @ bs\<rparr>"

definition flush_matches :: "simctrl \<Rightarrow> simctrl option" where
  "flush_matches c = do {
     _ \<leftarrow> ensure (0 \<in> set (sc_matches c));
     let c = print c (takeWhile (\<lambda>b. b \<noteq> 0) (sc_matches c));
     Some (c\<lparr>sc_match_idx := 0, sc_match := (sc_match c)\<lparr>mt_last := 0\<rparr>\<rparr>) }"

text \<open>The macros \<open>APPEND_NEWLINE\<close> and \<open>APPEND_NULL\<close>.\<close>

definition append_newline :: "simctrl \<Rightarrow> simctrl option" where
  "append_newline c = do {
     c \<leftarrow> put_match c (sc_match_idx c) 10;
     Some (c\<lparr>sc_match_idx := sc_match_idx c + 1\<rparr>) }"

definition append_null :: "simctrl \<Rightarrow> simctrl option" where
  "append_null c = do {
     c \<leftarrow> put_match c (sc_match_idx c) 0;
     Some (c\<lparr>sc_match := (sc_match c)\<lparr>mt_last := mt_end (sc_match c)\<rparr>\<rparr>) }"

section \<open>Filling the buffer\<close>

partial_function (option) fill_loop :: "simctrl \<Rightarrow> int \<Rightarrow> int \<Rightarrow> int \<Rightarrow> (simctrl \<times> int \<times> int) option" where [code]:
  "fill_loop c begin_p fill_size remain_out = (if remain_out > fill_size then do {
       c \<leftarrow> strncpy_match c (sc_match_idx c) begin_p fill_size;
       c \<leftarrow> append_null (c\<lparr>sc_match_idx := match_buffer_size c - 1\<rparr>);
       c \<leftarrow> flush_matches c;
       fill_loop c (begin_p + fill_size) fill_size (remain_out - fill_size) }
     else Some (c, begin_p, remain_out))"

text \<open>The part of \<open>fill_output_buffer\<close> before its loop, for a buffer that is not empty.\<close>

definition fill_rest :: "simctrl \<Rightarrow> int \<Rightarrow> int \<Rightarrow> int \<Rightarrow> (simctrl \<times> int \<times> int \<times> int) option" where
  "fill_rest c begin_p fill_size remain_out = (if fill_size < 1 then do {
       c \<leftarrow> flush_matches c;
       Some (c, begin_p, match_buffer_size c - 1, remain_out) }
     else do {
       c \<leftarrow> strncpy_match c (sc_match_idx c) begin_p fill_size;
       c \<leftarrow> append_null (c\<lparr>sc_match_idx := match_buffer_size c - 1\<rparr>);
       c \<leftarrow> flush_matches c;
       Some (c, begin_p + fill_size, match_buffer_size c - 1, remain_out - fill_size) })"

definition fill_last :: "simctrl \<Rightarrow> int \<Rightarrow> int \<Rightarrow> simctrl option" where
  "fill_last c begin_p remain_out = (if remain_out \<noteq> 0 then do {
       (c, remain_out) \<leftarrow> (if remain_out = match_buffer_size c then do {
            c \<leftarrow> strncpy_match c 0 begin_p (match_buffer_size c - 1);
            c \<leftarrow> append_null (c\<lparr>sc_match_idx := match_buffer_size c - 1\<rparr>);
            c \<leftarrow> flush_matches c;
            Some (c, remain_out - (match_buffer_size c - 1)) }
          else Some (c, remain_out));
       c \<leftarrow> strncpy_match c 0 begin_p remain_out;
       c \<leftarrow> append_newline (c\<lparr>sc_match_idx := remain_out\<rparr>);
       c \<leftarrow> append_null c;
       flush_matches c }
     else Some c)"

definition fill_output_buffer :: "simctrl \<Rightarrow> int \<Rightarrow> int \<Rightarrow> bool \<Rightarrow> simctrl option" where
  "fill_output_buffer c begin_p sz flush_buffer = (if sc_match_idx c + sz + 1 \<ge> match_buffer_size c then do {
       let fill_size = match_buffer_size c - sc_match_idx c - 1;
       (c, begin_p, fill_size, remain_out) \<leftarrow> (if sc_match_idx c \<noteq> 0 then fill_rest c begin_p fill_size sz
          else Some (c, begin_p, fill_size, sz));
       (c, begin_p, remain_out) \<leftarrow> fill_loop c begin_p fill_size remain_out;
       fill_last c begin_p remain_out }
     else do {
       c \<leftarrow> strncpy_match c (sc_match_idx c) begin_p sz;
       c \<leftarrow> append_newline (c\<lparr>sc_match_idx := sc_match_idx c + sz\<rparr>);
       c \<leftarrow> append_null c;
       (if flush_buffer then flush_matches c else Some c) })"

section \<open>A new match\<close>

text \<open>The loop that counts the digits of the line number, and \<open>%d\<close>.\<close>

function line_width :: "int \<Rightarrow> int \<Rightarrow> int" where
  "line_width tmp w = (if tmp sdiv 10 > 0 then line_width (tmp sdiv 10) (w + 1) else w)"
  by pat_completeness auto
termination by (relation "measure (\<lambda>(t, w). nat t)") (auto simp: signed_divide_int_def sgn_if split: if_splits)

declare line_width.simps [simp del]

function dec_nat :: "nat \<Rightarrow> byte list" where
  "dec_nat n = (if n < 10 then [word_of_nat (48 + n)] else dec_nat (n div 10) @ [word_of_nat (48 + n mod 10)])"
  by pat_completeness auto
termination by (relation "measure id") auto

declare dec_nat.simps [simp del]

definition dec :: "int \<Rightarrow> byte list" where
  "dec i = (if i < 0 then 45 # dec_nat (nat (- i)) else dec_nat (nat i))"

definition flag :: "simctrl \<Rightarrow> u32 \<Rightarrow> bool" where
  "flag c f \<longleftrightarrow> sc_flags c AND f \<noteq> 0"

definition new_match :: "simctrl \<Rightarrow> simctrl option" where
  "new_match c = (if flag c SILENT_MATCH_FLAG then Some c else do {
     let begin_p = mt_start (sc_match c);
     let end_p = mt_end (sc_match c);
     let nm_len = sc_filename_len c;
     let n = line_no (sc_scanner c);
     (if begin_p \<noteq> 0 \<and> begin_p \<le> end_p then do {
        let (begin_p, end_p) = (if flag c SHOW_MATCH_LINE_FLAG then (sc_buffer_start c, sc_buffer_end c - 1) else (begin_p, end_p));
        let sz = end_p - begin_p + 1;
        let with_name = (flag c SHOW_FILE_NAME_FLAG \<and> nm_len > 0);
        let with_line = flag c SHOW_LINENO_FLAG;
        let sz = (if with_name then sz + (nm_len + 1) else sz);
        let w = (if with_line then line_width n 1 else 1);
        let sz = (if with_line then sz + (w + 1) else sz);
        let gap = mt_start (sc_match c) - mt_last (sc_match c);
        let c = (if mt_last (sc_match c) \<noteq> 0 then
            (if gap = 0 then c\<lparr>sc_match_idx := sc_match_idx c - 2\<rparr>
             else if gap = 1 then c\<lparr>sc_match_idx := sc_match_idx c - 1\<rparr> else c) else c);
        let too_big = (sc_match_idx c + sz + 1 \<ge> match_buffer_size c);
        (c, too_big) \<leftarrow> (if sc_match_idx c \<noteq> 0 \<and> too_big then do {
             c \<leftarrow> flush_matches c;
             Some (c, sc_match_idx c + sz + 1 \<ge> match_buffer_size c) }
           else Some (c, too_big));
        (c, sz, fl) \<leftarrow> (if with_name then do {
             (c, fl) \<leftarrow> (if too_big then Some (print c (sc_filename c @ [58]), True)
                else do {
                  c \<leftarrow> snprintf_match c (sc_match_idx c) (nm_len + 2) (sc_filename c @ [58]);
                  Some (c\<lparr>sc_match_idx := sc_match_idx c + (nm_len + 1)\<rparr>, False) });
             Some (c, sz - (nm_len + 1), fl) }
           else Some (c, sz, False));
        (c, sz, fl) \<leftarrow> (if with_line then do {
             (c, fl) \<leftarrow> (if too_big then Some (print c (dec n @ [58]), True)
                else do {
                  c \<leftarrow> snprintf_match c (sc_match_idx c) (nm_len + w + 1) (dec n @ [58]);
                  Some (c\<lparr>sc_match_idx := sc_match_idx c + (w + 1)\<rparr>, fl) });
             Some (c, sz - (w + 1), fl) }
           else Some (c, sz, fl));
        fill_output_buffer c begin_p sz fl }
      else Some c) })"

end
