(* ===== verification/Recog.thy ===== *)
theory Recog
  imports Output CharRange
begin

text \<open>
  Threads: \<open>thread_clone\<close>, \<open>load_next\<close>, \<open>process_adjacents\<close>, \<open>thread_step\<close>, \<open>load_start_states\<close>
  of \<open>src/recognizer.c\<close>.

  \<open>load_next\<close>, \<open>thread_clone\<close> and \<open>process_adjacents\<close> call each other. Each is a definition that
  takes \<open>load_next\<close> as a parameter (\<open>rec\<close>), and \<open>load_next\<close> itself is the iteration of its body
  on a bound of the depth of the calls; \<open>None\<close> is also the result of a bound that is too small.
\<close>

section \<open>Lists of reachable nodes\<close>

definition reach_op :: "simctrl \<Rightarrow> (addr lheap \<Rightarrow> ('v \<times> addr lheap) option) \<Rightarrow> ('v \<times> simctrl) option" where
  "reach_op c f = do {
     (v, lh) \<leftarrow> f (reach (sc_nfa c));
     Some (v, c\<lparr>sc_nfa := (sc_nfa c)\<lparr>reach := lh\<rparr>\<rparr>) }"

text \<open>The macro \<open>list_for_each\<close>; the header of the list of a node is under the address of the node.\<close>

partial_function (option) reach_each_loop ::
    "(ptr \<Rightarrow> simctrl \<Rightarrow> simctrl option) \<Rightarrow> ptr \<Rightarrow> int \<Rightarrow> simctrl \<Rightarrow> simctrl option" where [code]:
  "reach_each_loop body l finish c = do {
     (tmp, c) \<leftarrow> reach_op c (\<lambda>lh. list_get_next lh l);
     (case tmp of None \<Rightarrow> Some c
      | Some t \<Rightarrow> do {
          r \<leftarrow> deref (lists (reach (sc_nfa c))) l;
          (if l_iter_idx r \<le> finish then do {
             c \<leftarrow> body (Some t) c;
             reach_each_loop body l finish c }
           else Some c) }) }"

definition reach_each :: "(ptr \<Rightarrow> simctrl \<Rightarrow> simctrl option) \<Rightarrow> ptr \<Rightarrow> int \<Rightarrow> int \<Rightarrow> simctrl \<Rightarrow> simctrl option" where
  "reach_each body l start finish c = do {
     (_, c) \<leftarrow> reach_op c (\<lambda>lh. list_set_iterator lh l start);
     reach_each_loop body l finish c }"

section \<open>Threads\<close>

type_synonym load_fun = "ptr \<Rightarrow> ptr \<Rightarrow> poolid \<Rightarrow> int \<Rightarrow> simctrl \<Rightarrow> simctrl option"

definition node_in_range :: "simctrl \<Rightarrow> ptr \<Rightarrow> int \<Rightarrow> bool option" where
  "node_in_range c p x = do { (_, bm) \<leftarrow> node_range (sc_nfa c) p; is_literal_in_range bm (word_of_int x) }"

definition no_first_match :: "simctrl \<Rightarrow> ptr \<Rightarrow> int \<Rightarrow> bool option" where
  "no_first_match c p lookahead = do {
     n \<leftarrow> nget (sc_nfa c) p;
     (if n_type n = NFA_LITERAL then do { x \<leftarrow> text_at c lookahead; Some (n_lit n \<noteq> word_of_int x) }
      else if n_type n = NFA_RANGE then do { x \<leftarrow> text_at c lookahead; b \<leftarrow> node_in_range c p x; Some (\<not> b) }
      else Some False) }"

definition thread_clone :: "load_fun \<Rightarrow> ptr \<Rightarrow> ptr \<Rightarrow> poolid \<Rightarrow> int \<Rightarrow> simctrl \<Rightarrow> (ptr \<times> simctrl) option" where
  "thread_clone rec nfa sim dst lookahead c = do {
     skip \<leftarrow> no_first_match c nfa lookahead;
     (if skip then Some (None, c) else do {
        let new_thread = (sp_head (sc_pool c) = None);
        (clone, c) \<leftarrow> (if new_thread then Some (xmalloc_thread c) else sim_pool_shift c PoolFree);
        s \<leftarrow> tget c sim;
        c \<leftarrow> tset c clone (\<lambda>t. t\<lparr>ts_status := 0, ts_ip := nfa, ts_bref := 0, ts_match := ts_match s,
               ts_backrefs := ts_backrefs s, ts_icount := ts_icount s\<rparr>);
        t \<leftarrow> tget c clone;
        c \<leftarrow> (if ts_intervals s \<noteq> 0 then tset c clone (\<lambda>t. t\<lparr>ts_loop := ts_loop s, ts_intervals := ts_intervals s\<rparr>)
              else if \<not> new_thread \<and> ts_intervals t \<noteq> 0
                then tset c clone (\<lambda>t. t\<lparr>ts_loop := replicate (sc_loop_cap c) 0, ts_intervals := 0\<rparr>)
              else Some c);
        t \<leftarrow> tget c clone;
        c \<leftarrow> (if ts_backrefs t > 0 \<and> \<not> new_thread then tset c clone (ts_brm_update (\<lambda>_. ts_brm s)) else Some c);
        c \<leftarrow> rec clone nfa dst lookahead c;
        t \<leftarrow> tget c clone;
        (if ts_status t = -1 then do { c \<leftarrow> sim_pool_append c PoolFree clone; Some (None, c) }
         else Some (clone, c)) }) }"

definition clone_each :: "load_fun \<Rightarrow> ptr \<Rightarrow> poolid \<Rightarrow> int \<Rightarrow> ptr \<Rightarrow> simctrl \<Rightarrow> simctrl option" where
  "clone_each rec sim dst lookahead tmp c = do { (_, c) \<leftarrow> thread_clone rec tmp sim dst lookahead c; Some c }"

text \<open>The loop of \<open>process_adjacents\<close>, which asks for the size of the list in every round.\<close>

partial_function (option) adjacents_loop :: "(ptr \<Rightarrow> simctrl \<Rightarrow> simctrl option) \<Rightarrow> ptr \<Rightarrow> int \<Rightarrow> simctrl \<Rightarrow> simctrl option" where [code]:
  "adjacents_loop body l i c = do {
     n \<leftarrow> list_size (reach (sc_nfa c)) l;
     (if i < n then do {
        t \<leftarrow> list_get_at (reach (sc_nfa c)) l i;
        c \<leftarrow> body t c;
        adjacents_loop body l (i + 1) c }
      else Some c) }"

definition process_adjacents :: "load_fun \<Rightarrow> load_fun" where
  "process_adjacents rec sim nfa dst lookahead c = do {
     c \<leftarrow> adjacents_loop (clone_each rec sim dst lookahead) nfa 1 c;
     hd \<leftarrow> list_get_head (reach (sc_nfa c)) nfa;
     rec sim hd dst lookahead c }"

definition brm_update :: "simctrl \<Rightarrow> ptr \<Rightarrow> u32 \<Rightarrow> (match \<Rightarrow> match) \<Rightarrow> simctrl option" where
  "brm_update c sim i f = do {
     s \<leftarrow> tget c sim;
     m \<leftarrow> arr_get (ts_brm s) (uint i);
     b \<leftarrow> arr_set (ts_brm s) (uint i) (f m);
     tset c sim (ts_brm_update (\<lambda>_. b)) }"

definition loop_count :: "simctrl \<Rightarrow> ptr \<Rightarrow> u32 \<Rightarrow> int option" where
  "loop_count c sim i = do { s \<leftarrow> tget c sim; arr_get (ts_loop s) (uint i) }"

definition set_loop_count :: "simctrl \<Rightarrow> ptr \<Rightarrow> u32 \<Rightarrow> int \<Rightarrow> simctrl option" where
  "set_loop_count c sim i v = do {
     s \<leftarrow> tget c sim;
     l \<leftarrow> arr_set (ts_loop s) (uint i) v;
     tset c sim (ts_loop_update (\<lambda>_. l)) }"

section \<open>Intervals\<close>

text \<open>The ways an interval continues: back into its body, or out of it. \<open>out_of\<close> also clears the count.\<close>

definition load_at :: "load_fun \<Rightarrow> ptr \<Rightarrow> int \<Rightarrow> load_fun" where
  "load_at rec nfa i sim _ dst lookahead c = do {
     tmp \<leftarrow> list_get_at (reach (sc_nfa c)) nfa i;
     rec sim tmp dst lookahead c }"

definition load_head :: "load_fun \<Rightarrow> load_fun" where
  "load_head rec sim nfa dst lookahead c = do {
     tmp \<leftarrow> list_get_head (reach (sc_nfa c)) nfa;
     rec sim tmp dst lookahead c }"

definition tracking_add :: "simctrl \<Rightarrow> ptr \<Rightarrow> int \<Rightarrow> simctrl option" where
  "tracking_add c sim d = tset c sim (\<lambda>t. t\<lparr>ts_intervals := ts_intervals t + d\<rparr>)"

definition load_interval :: "load_fun \<Rightarrow> load_fun" where
  "load_interval rec sim nfa dst lookahead c = do {
     c \<leftarrow> tset c sim (\<lambda>t. t\<lparr>ts_icount := ts_icount t + 1\<rparr>);
     n \<leftarrow> nget (sc_nfa c) nfa;
     far_end \<leftarrow> list_size (reach (sc_nfa c)) nfa;
     k \<leftarrow> loop_count c sim (n_id n);
     let count = k + 1;
     c \<leftarrow> set_loop_count c sim (n_id n) count;
     (min_rep, max_rep) \<leftarrow> low_reps (n_low n);
     let split_idx = sint (n_lit n);
     let clones = reach_each (clone_each rec sim dst lookahead) nfa;
     (if count < sint min_rep then do {
        c \<leftarrow> tracking_add c sim 1;
        c \<leftarrow> clones 1 split_idx c;
        load_head rec sim nfa dst lookahead c }
      else if sint max_rep > 0 then
        (if count < sint max_rep then do {
           c \<leftarrow> tracking_add c sim 1;
           (if n_flags n AND CYCLE \<noteq> 0 \<and> sc_last_interval_pos c = lookahead then do {
              c \<leftarrow> set_loop_count c sim (n_id n) 0;
              c \<leftarrow> tracking_add c sim (-1);
              c \<leftarrow> clones (split_idx + 1) far_end c;
              load_at rec nfa split_idx sim nfa dst lookahead c }
            else do {
              let c = (if n_flags n AND CYCLE \<noteq> 0 then c\<lparr>sc_last_interval_pos := lookahead\<rparr> else c);
              c \<leftarrow> clones 0 split_idx c;
              c \<leftarrow> set_loop_count c sim (n_id n) 0;
              c \<leftarrow> tracking_add c sim (-1);
              c \<leftarrow> clones (split_idx + 1) far_end c;
              load_at rec nfa split_idx sim nfa dst lookahead c }) }
         else do {
           c \<leftarrow> tracking_add c sim (-1);
           c \<leftarrow> set_loop_count c sim (n_id n) 0;
           (if n_flags n AND CYCLE \<noteq> 0 then do {
              c \<leftarrow> clones 1 far_end c;
              load_head rec sim nfa dst lookahead c }
            else do {
              c \<leftarrow> clones (split_idx + 1) far_end c;
              load_at rec nfa split_idx sim nfa dst lookahead c }) })
      else do {
        c \<leftarrow> tracking_add c sim 1;
        c \<leftarrow> clones 0 split_idx c;
        c \<leftarrow> (if n_flags n AND ACCEPTS = 0 then set_loop_count c sim (n_id n) 0 else Some c);
        c \<leftarrow> clones (split_idx + 1) far_end c;
        load_at rec nfa split_idx sim nfa dst lookahead c }) }"

section \<open>Loading the next state\<close>

text \<open>The default case: a node that reads a character, or an anchor.\<close>

definition load_state :: "load_fun" where
  "load_state sim nfa dst lookahead c = do {
     n \<leftarrow> nget (sc_nfa c) nfa;
     c \<leftarrow> tset c sim (ts_status_update (\<lambda>_. -1));
     s \<leftarrow> tget c sim;
     seen \<leftarrow> (if ts_intervals s \<noteq> 0 then Some False
              else do { p \<leftarrow> arr_get (sc_sp c) (uint (n_id n)); Some (p = lookahead) });
     (if seen then Some c else do {
        (match, c) \<leftarrow> (if n_type n = NFA_LITERAL then do { x \<leftarrow> text_at c lookahead; Some (n_lit n = word_of_int x, c) }
          else if n_type n = NFA_RANGE then do { x \<leftarrow> text_at c lookahead; b \<leftarrow> node_in_range c nfa x; Some (b, c) }
          else do { c \<leftarrow> tset c sim (\<lambda>t. t\<lparr>ts_ip := nfa, ts_status := 0\<rparr>); Some (True, c) });
        (if match then do {
           sp \<leftarrow> arr_set (sc_sp c) (uint (n_id n)) lookahead;
           c \<leftarrow> tset (c\<lparr>sc_sp := sp\<rparr>) sim (\<lambda>t. t\<lparr>ts_ip := nfa, ts_status := 0\<rparr>);
           sim_pool_append c dst sim }
         else Some c) }) }"

definition load_next_body :: "load_fun \<Rightarrow> load_fun" where
  "load_next_body rec sim nfa dst lookahead c = do {
     n \<leftarrow> nget (sc_nfa c) nfa;
     (if n_type n = NFA_CAPTUREGRP_BEGIN then do {
        c \<leftarrow> tset c sim (ts_backrefs_update (\<lambda>_. 1));
        c \<leftarrow> brm_update c sim (n_id n) (\<lambda>m. m\<lparr>mt_start := lookahead, mt_end := 0\<rparr>);
        process_adjacents rec sim nfa dst lookahead c }
      else if n_type n = NFA_CAPTUREGRP_END then do {
        c \<leftarrow> brm_update c sim (n_id n) (mt_end_update (\<lambda>_. lookahead - 1));
        process_adjacents rec sim nfa dst lookahead c }
      else if n_type n = NFA_INTERVAL then load_interval rec sim nfa dst lookahead c
      else if n_type n = NFA_ACCEPTING then do {
        c \<leftarrow> tset c sim (\<lambda>t. t\<lparr>ts_ip := nfa, ts_status := 0\<rparr>);
        sim_pool_append c PoolActive sim }
      else load_state sim nfa dst lookahead c) }"

primrec load_next :: "nat \<Rightarrow> load_fun" where
  "load_next 0 sim nfa dst lookahead c = None"
| "load_next (Suc n) sim nfa dst lookahead c = load_next_body (load_next n) sim nfa dst lookahead c"

section \<open>Stepping a thread\<close>

definition toupper :: "int \<Rightarrow> int" where
  "toupper i = (if 97 \<le> i \<and> i \<le> 122 then i - 32 else i)"

definition input_of :: "simctrl \<Rightarrow> int option" where
  "input_of c = do { x \<leftarrow> text_at c (sc_cur_pos c); Some (if flag c IGNORE_CASE_FLAG then toupper x else x) }"

definition inst_token :: "simctrl \<Rightarrow> nfa \<Rightarrow> u32" where
  "inst_token c n = (if flag c IGNORE_CASE_FLAG then word_of_int (toupper (sint (n_lit n))) else n_lit n)"

definition fail_thread :: "simctrl \<Rightarrow> ptr \<Rightarrow> simctrl option" where
  "fail_thread c sim = tset c sim (ts_status_update (\<lambda>_. -1))"

definition advance :: "nat \<Rightarrow> simctrl \<Rightarrow> ptr \<Rightarrow> ptr \<Rightarrow> simctrl option" where
  "advance k c sim ip = do {
     c \<leftarrow> update_match c sim;
     process_adjacents (load_next k) sim ip PoolNext (sc_cur_pos c + 1) c }"

definition step_backref :: "nat \<Rightarrow> simctrl \<Rightarrow> ptr \<Rightarrow> nfa \<Rightarrow> int \<Rightarrow> simctrl option" where
  "step_backref k c sim n x = do {
     s \<leftarrow> tget c sim;
     c \<leftarrow> (if ts_bref s = 0 then do {
            c \<leftarrow> update_match c sim;
            m \<leftarrow> arr_get (ts_brm s) (uint (n_id n));
            tset c sim (ts_bref_update (\<lambda>_. mt_start m)) }
          else Some c);
     s \<leftarrow> tget c sim;
     (if ts_bref s \<noteq> 0 then do {
        y \<leftarrow> text_at c (ts_bref s);
        (if x = y then do {
           m \<leftarrow> arr_get (ts_brm s) (uint (n_id n));
           (if ts_bref s = mt_end m then do {
              c \<leftarrow> update_match c sim;
              c \<leftarrow> tset c sim (ts_bref_update (\<lambda>_. 0));
              process_adjacents (load_next k) sim (ts_ip s) PoolNext (sc_cur_pos c + 1) c }
            else do {
              c \<leftarrow> tset c sim (\<lambda>t. t\<lparr>ts_bref := ts_bref t + 1, ts_status := 0\<rparr>);
              sim_pool_append c PoolNext sim }) }
         else fail_thread c sim) }
      else fail_thread c sim) }"

definition thread_step :: "nat \<Rightarrow> ptr \<Rightarrow> simctrl \<Rightarrow> (int \<times> simctrl) option" where
  "thread_step k sim c = do {
     s \<leftarrow> tget c sim;
     n \<leftarrow> nget (sc_nfa c) (ts_ip s);
     sp \<leftarrow> arr_set (sc_sp c) (uint (n_id n)) 0;
     let c = c\<lparr>sc_sp := sp\<rparr>;
     x \<leftarrow> input_of c;
     let eol = eol_symbol (sc_scanner c);
     c \<leftarrow> (if x \<noteq> 0 then
           (if n_type n = NFA_ANY then
              (if x \<noteq> eol then advance k c sim (ts_ip s) else fail_thread c sim)
            else if n_type n = NFA_LITERAL then
              (if word_of_int x = inst_token c n then advance k c sim (ts_ip s) else fail_thread c sim)
            else if n_type n = NFA_RANGE then
              (if x \<noteq> eol then do {
                 b \<leftarrow> node_in_range c (ts_ip s) x;
                 (if b then advance k c sim (ts_ip s) else fail_thread c sim) }
               else fail_thread c sim)
            else if n_type n = NFA_BACKREFERENCE then step_backref k c sim n x
            else if n_type n = NFA_BOL_ANCHOR then
              (if sc_cur_pos c = buffer (sc_scanner c)
               then process_adjacents (load_next k) sim (ts_ip s) PoolActive (sc_cur_pos c) c else fail_thread c sim)
            else if n_type n = NFA_EOL_ANCHOR then
              (if x = eol then process_adjacents (load_next k) sim (ts_ip s) PoolNext (sc_cur_pos c) c
               else fail_thread c sim)
            else if n_type n = NFA_ACCEPTING then tset c sim (ts_status_update (\<lambda>_. 1))
            else fail_thread c sim)
         else tset c sim (ts_status_update (\<lambda>_. 1)));
     s \<leftarrow> tget c sim;
     Some (ts_status s, c) }"

section \<open>Starting\<close>

definition start_state :: "nat \<Rightarrow> int \<Rightarrow> ptr \<Rightarrow> simctrl \<Rightarrow> simctrl option" where
  "start_state k lookahead tmp c = do {
     (clone, c) \<leftarrow> (if sp_head (sc_pool c) \<noteq> None then do {
          (clone, c) \<leftarrow> sim_pool_shift c PoolFree;
          c \<leftarrow> tset c clone (ts_loop_update (\<lambda>_. replicate (sc_loop_cap c) 0));
          Some (clone, c) }
        else Some (xmalloc_thread c));
     c \<leftarrow> tset c clone (\<lambda>t. t\<lparr>ts_ip := tmp, ts_status := 0, ts_bref := 0,
            ts_match := (ts_match t)\<lparr>mt_end := 0, mt_start := 0\<rparr>, ts_icount := 0, ts_backrefs := 0\<rparr>);
     let c = c\<lparr>sc_match := (sc_match c)\<lparr>mt_last := 0\<rparr>\<rparr>;
     n \<leftarrow> nget (sc_nfa c) tmp;
     (if n_type n = NFA_RANGE then do {
        x \<leftarrow> text_at c lookahead;
        b \<leftarrow> node_in_range c tmp x;
        sim_pool_append c (if b then PoolActive else PoolFree) clone }
      else do {
        c \<leftarrow> load_next k clone tmp PoolActive lookahead c;
        t \<leftarrow> tget c clone;
        (if ts_status t = -1 then sim_pool_append c PoolFree clone else Some c) }) }"

definition load_start_states :: "nat \<Rightarrow> ptr \<Rightarrow> int \<Rightarrow> simctrl \<Rightarrow> simctrl option" where
  "load_start_states k start lookahead c = do {
     far_end \<leftarrow> list_size (reach (sc_nfa c)) start;
     reach_each (start_state k lookahead) start 0 far_end c }"

end
