(* ===== verification/Run.thy ===== *)
theory Run
  imports Recog ParserData
begin

text \<open>
  The search for matches: the keyword search, \<open>run_nfa\<close>, and the life of the control block
  (\<open>src/recognizer.c\<close>).

  The function pointers \<open>kw_*\<close> are the operations of the kind of object in \<open>sc_kw\<close>. A call of
  \<open>fatal\<close> ends the program: its message is the left of a sum.
\<close>

section \<open>The keyword search\<close>

definition no_kw :: "simctrl \<Rightarrow> bool" where
  "no_kw c \<longleftrightarrow> (case sc_kw c of KwNone \<Rightarrow> True | _ \<Rightarrow> False)"

definition kw_ptr :: "int \<Rightarrow> ptr" where
  "kw_ptr a = (if a = 0 then None else Some (nat a))"

definition kw_addr :: "ptr \<Rightarrow> int" where
  "kw_addr p = (case p of None \<Rightarrow> 0 | Some a \<Rightarrow> int a)"

definition kw_search :: "simctrl \<Rightarrow> int \<Rightarrow> int \<Rightarrow> simctrl option" where
  "kw_search c b e = (case sc_kw c of
     KwNone \<Rightarrow> None
   | KwBm ob \<Rightarrow> do {
       ob \<leftarrow> bm_search (\<lambda>a. map_option word_of_int (text_at c (int a))) ob (kw_ptr b) (kw_ptr e);
       Some (c\<lparr>sc_kw := KwBm ob\<rparr>) }
   | KwMpat ob \<Rightarrow> do { ob \<leftarrow> mpat_search (text_at c) ob b e; Some (c\<lparr>sc_kw := KwMpat ob\<rparr>) })"

definition kw_match_count :: "simctrl \<Rightarrow> int option" where
  "kw_match_count c = (case sc_kw c of KwNone \<Rightarrow> None | KwBm ob \<Rightarrow> bm_match_count ob | KwMpat ob \<Rightarrow> mpat_match_count ob)"

text \<open>The next match, as the field \<open>beg\<close> of the record.\<close>

definition kw_next_match :: "simctrl \<Rightarrow> (int option \<times> simctrl) option" where
  "kw_next_match c = (case sc_kw c of
     KwNone \<Rightarrow> None
   | KwBm ob \<Rightarrow> do {
       (mr, ob) \<leftarrow> bm_next_match ob;
       (case mr of None \<Rightarrow> Some (None, c\<lparr>sc_kw := KwBm ob\<rparr>)
        | Some a \<Rightarrow> do {
            b \<leftarrow> ob;
            r \<leftarrow> mrecs (bm_matches b) a;
            Some (Some (kw_addr (m_beg r)), c\<lparr>sc_kw := KwBm ob\<rparr>) }) }
   | KwMpat ob \<Rightarrow> do {
       (mr, ob) \<leftarrow> mpat_next_match ob;
       Some (map_option fst mr, c\<lparr>sc_kw := KwMpat ob\<rparr>) })"

definition kw_clear_matches :: "simctrl \<Rightarrow> simctrl option" where
  "kw_clear_matches c = (case sc_kw c of
     KwNone \<Rightarrow> None
   | KwBm ob \<Rightarrow> do { ob \<leftarrow> bm_clear_matches ob; Some (c\<lparr>sc_kw := KwBm ob\<rparr>) }
   | KwMpat ob \<Rightarrow> do { ob \<leftarrow> mpat_clear_matches ob; Some (c\<lparr>sc_kw := KwMpat ob\<rparr>) })"

definition find_keyword_start_pos :: "nat \<Rightarrow> simctrl \<Rightarrow> simctrl option" where
  "find_keyword_start_pos k c = do {
     c \<leftarrow> kw_search c (sc_buffer_start c) (sc_buffer_end c);
     let c = c\<lparr>sc_cur_pos := sc_buffer_end c + 1\<rparr>;
     n \<leftarrow> kw_match_count c;
     (if n > 0 then do {
        (mr, c) \<leftarrow> kw_next_match c;
        b \<leftarrow> mr;
        load_start_states k (sc_start c) b (c\<lparr>sc_cur_pos := b\<rparr>) }
      else Some c) }"

text \<open>The loop that skips the matches that begin inside the last one.\<close>

partial_function (option) skip_matches :: "simctrl \<Rightarrow> (int option \<times> simctrl) option" where [code]:
  "skip_matches c = do {
     (mr, c) \<leftarrow> kw_next_match c;
     (case mr of Some b \<Rightarrow> if b \<le> mt_end (sc_match c) then skip_matches c else Some (mr, c)
      | None \<Rightarrow> Some (mr, c)) }"

definition update_input_pointer :: "simctrl \<Rightarrow> bool \<Rightarrow> int \<Rightarrow> (int \<times> simctrl) option" where
  "update_input_pointer c current_run ip = (if no_kw c then
       (if \<not> current_run \<or> mt_end (sc_match c) = 0 then Some (ip + 1, c)
        else Some (mt_end (sc_match c) + 1, c))
     else do {
       (mr, c) \<leftarrow> (if \<not> current_run \<or> mt_end (sc_match c) = 0 then kw_next_match c else skip_matches c);
       Some ((case mr of Some b \<Rightarrow> b | None \<Rightarrow> sc_nul c), c) })"

section \<open>The main loop\<close>

definition release_thread :: "simctrl \<Rightarrow> ptr \<Rightarrow> (ptr \<times> simctrl) option" where
  "release_thread c sim = do { c \<leftarrow> sim_pool_append c PoolFree sim; sim_pool_shift c PoolActive }"

definition reset_thread :: "nat \<Rightarrow> simctrl \<Rightarrow> int \<Rightarrow> (string + ptr \<times> simctrl) option" where
  "reset_thread k c start_pos = (if sp_head (sc_pool c) \<noteq> None then do {
       (cf, s) \<leftarrow> restart_from (sc_flags c) (sc_scanner c) start_pos;
       c \<leftarrow> load_start_states k (sc_start c) start_pos (c\<lparr>sc_flags := cf, sc_scanner := s\<rparr>);
       r \<leftarrow> sim_pool_shift c PoolActive;
       Some (Inr r) }
     else Some (Inl ''Unable to obtain an execution threads''))"

definition SILENT_OR_LINE_FLAG :: u32 where
  "SILENT_OR_LINE_FLAG = SILENT_MATCH_FLAG OR INVERT_MATCH_FLAG OR SHOW_MATCH_LINE_FLAG"

definition individual_matches :: "simctrl \<Rightarrow> bool" where
  "individual_matches c \<longleftrightarrow> sc_flags c AND SILENT_OR_LINE_FLAG = 0"

definition bail_early :: "simctrl \<Rightarrow> bool" where
  "bail_early c \<longleftrightarrow> flag c (INVERT_MATCH_FLAG OR MGLOBAL_FLAG)"

definition line_or_invert :: "simctrl \<Rightarrow> bool" where
  "line_or_invert c \<longleftrightarrow> flag c (SHOW_MATCH_LINE_FLAG OR INVERT_MATCH_FLAG)"

text \<open>The inner loop, over the threads of one position. The result says whether the search stops
  here, and gives \<open>thread\<close>, \<open>current_run\<close> and \<open>match_found\<close>.\<close>

partial_function (option) thread_loop ::
    "nat \<Rightarrow> ptr \<Rightarrow> bool \<Rightarrow> bool \<Rightarrow> simctrl \<Rightarrow> (bool \<times> ptr \<times> bool \<times> bool \<times> simctrl) option" where [code]:
  "thread_loop k thread current_run match_found c = (if thread = None then Some (False, thread, current_run, match_found, c)
     else do {
       (_, c) \<leftarrow> thread_step k thread c;
       t \<leftarrow> tget c thread;
       (if ts_status t = 1 then
          (if individual_matches c then do {
             let c = c\<lparr>sc_match := update_longest_match (sc_match c) (ts_match t)\<rparr>;
             (if \<not> flag c MGLOBAL_FLAG then do {
                c \<leftarrow> new_match c;
                Some (True, thread, True, True, c) }
              else do {
                (thread, c) \<leftarrow> release_thread c thread;
                thread_loop k thread True True c }) }
           else if \<not> bail_early c then Some (True, thread, True, True, c)
           else do {
             (thread, c) \<leftarrow> release_thread c thread;
             thread_loop k thread True True c })
        else if ts_status t = -1 then do {
          (thread, c) \<leftarrow> release_thread c thread;
          thread_loop k thread current_run match_found c }
        else if ts_status t = 0 then do {
          (thread, c) \<leftarrow> sim_pool_shift c PoolActive;
          thread_loop k thread current_run match_found c }
        else thread_loop k thread current_run match_found c) })"

text \<open>What follows the inner loop: the next position of this run, or the start of a new run.\<close>

definition next_position :: "nat \<Rightarrow> int \<Rightarrow> bool \<Rightarrow> simctrl \<Rightarrow> (string + int \<times> ptr \<times> bool \<times> simctrl) option" where
  "next_position k ip current_run c = (if sp_head (sc_next c) \<noteq> None then do {
       (thread, c) \<leftarrow> sim_pool_shift (swap_next_w_active c) PoolActive;
       Some (Inr (ip, thread, current_run, c\<lparr>sc_cur_pos := sc_cur_pos c + 1\<rparr>)) }
     else do {
       c \<leftarrow> (if \<not> line_or_invert c then new_match c else Some c);
       (ip, c) \<leftarrow> update_input_pointer c current_run ip;
       r \<leftarrow> reset_thread k (c\<lparr>sc_last_interval_pos := 0, sc_match := (sc_match c)\<lparr>mt_start := 0, mt_end := 0\<rparr>,
              sc_cur_pos := ip\<rparr>) ip;
       Some (case r of Inl e \<Rightarrow> Inl e | Inr (thread, c) \<Rightarrow> Inr (ip, thread, False, c)) })"

partial_function (option) run_loop ::
    "nat \<Rightarrow> int \<Rightarrow> ptr \<Rightarrow> bool \<Rightarrow> bool \<Rightarrow> simctrl \<Rightarrow> (string + ptr \<times> bool \<times> simctrl) option" where [code]:
  "run_loop k ip thread current_run match_found c = do {
     x \<leftarrow> text_at c ip;
     (if x \<noteq> 0 then do {
        (stop, thread, current_run, match_found, c) \<leftarrow> thread_loop k thread current_run match_found c;
        (if stop then Some (Inr (thread, match_found, c)) else do {
           r \<leftarrow> next_position k ip current_run c;
           (case r of Inl e \<Rightarrow> Some (Inl e)
            | Inr (ip, thread, current_run, c) \<Rightarrow> run_loop k ip thread current_run match_found c) }) }
      else Some (Inr (thread, match_found, c))) }"

definition finish_run :: "ptr \<Rightarrow> bool \<Rightarrow> simctrl \<Rightarrow> simctrl option" where
  "finish_run thread match_found c = do {
     c \<leftarrow> release_all_threads c thread;
     c \<leftarrow> (if \<not> match_found \<and> flag c INVERT_MATCH_FLAG \<or> match_found \<and> flag c SHOW_MATCH_LINE_FLAG
           then new_match (c\<lparr>sc_match := (sc_match c)\<lparr>mt_start := sc_buffer_start c, mt_end := sc_buffer_end c - 1\<rparr>\<rparr>)
           else Some c);
     (if \<not> no_kw c then kw_clear_matches c else Some c) }"

definition run_nfa :: "nat \<Rightarrow> simctrl \<Rightarrow> (string + bool \<times> simctrl) option" where
  "run_nfa k c = do {
     let c = c\<lparr>sc_last_interval_pos := 0\<rparr>;
     c \<leftarrow> (if \<not> no_kw c then find_keyword_start_pos k c
           else load_start_states k (sc_start c) (sc_cur_pos c) c);
     let ip = sc_cur_pos c;
     let kw = (\<not> no_kw c);
     (thread, c) \<leftarrow> sim_pool_shift c PoolActive;
     r \<leftarrow> (if kw \<and> thread = None then Some (Inr (thread, False, c))
           else run_loop k ip thread False False c);
     (case r of Inl e \<Rightarrow> Some (Inl e)
      | Inr (thread, match_found, c) \<Rightarrow> do {
          c \<leftarrow> finish_run thread match_found c;
          Some (Inr (match_found, c)) }) }"

section \<open>The life of the control block\<close>

text \<open>A block from \<open>xmalloc\<close> is zeroed. The array \<open>active_threads_sp\<close> has one pointer for each
  identifier (and one byte). \<open>nul\<close> is the address of the string literal, \<open>bufsize\<close> the size of the
  output buffer, \<open>threads\<close> and \<open>brk\<close> the heap of threads.\<close>

definition init_kw :: "parser \<Rightarrow> (kwobj \<times> parser) option" where
  "init_kw p = do {
     kw_count \<leftarrow> list_size (ps_pats p) (ps_synth_patterns p);
     (if kw_count = 0 then Some (KwNone, p)
      else if kw_count = 1 then do {
        kw \<leftarrow> list_get_head (ps_pats p) (ps_synth_patterns p);
        s \<leftarrow> kw;
        n \<leftarrow> str_len s;
        ob \<leftarrow> bm_init_obj (Some new_bm_obj) (Some s) (int n);
        Some (KwBm ob, p) }
      else do {
        (ok, ob, ph) \<leftarrow> mpat_init (new_mpat (ps_base p)) (ps_pats p) (ps_synth_patterns p);
        let p = p\<lparr>ps_pats := ph\<rparr>;
        (if \<not> ok then do { _ \<leftarrow> mpat_obj_free (Some ob); Some (KwNone, p) }
         else Some (KwMpat (Some ob), p)) }) }"

definition new_nfa_sim :: "nat \<Rightarrow> int \<Rightarrow> parser \<Rightarrow> scanner \<Rightarrow> (simctrl \<times> parser) option" where
  "new_nfa_sim bufsize nul p s = do {
     top_nfa \<leftarrow> stack_peek (ps_lists p) (ps_symbol_stack p);
     n \<leftarrow> nget (ps_nfa p) top_nfa;
     let cap = nat (ps_interval_count p);
     let sim = (zero_thread cap)\<lparr>ts_ip := n_parent n\<rparr>;
     let pool = \<lparr>sp_head = Some 0, sp_tail = Some 0\<rparr>;
     let none = \<lparr>sp_head = None, sp_tail = None\<rparr>;
     (kw, p) \<leftarrow> init_kw p;
     Some (\<lparr>sc_match_idx = 0, sc_filename_len = 0, sc_loop_cap = cap, sc_cur_pos = 0, sc_filename = [],
       sc_buffer_start = 0, sc_buffer_end = 0, sc_last_interval_pos = 0, sc_start = n_parent n,
       sc_pool = pool, sc_active = none, sc_next = none, sc_scanner = s, sc_kw = kw, sc_flags = ps_flags p,
       sc_match = null_match, sc_matches = replicate bufsize 0, sc_sp = replicate (nat (ps_total_nfa_ids p)) 0,
       sc_threads = [0 \<mapsto> sim], sc_brk = 1, sc_nfa = ps_nfa p, sc_nul = nul, sc_out = []\<rparr>, p) }"

definition reset_nfa_sim :: "simctrl \<Rightarrow> simctrl option" where
  "reset_nfa_sim c = do {
     let s = Some (sc_scanner c);
     name \<leftarrow> get_filename s;
     Some (c\<lparr>sc_buffer_start := get_cur_pos s, sc_buffer_end := get_buffer_end s - 1,
       sc_filename := butlast (cstr name), sc_filename_len := int (length name),
       sc_cur_pos := get_cur_pos s, sc_match := null_match\<rparr>) }"

text \<open>\<open>free_nfa_sim\<close>: what is left of the threads; the search object is released with it.\<close>

partial_function (option) free_threads :: "simctrl \<Rightarrow> simctrl option" where [code]:
  "free_threads c = do {
     (tmp, c) \<leftarrow> sim_pool_shift c PoolFree;
     (case tmp of None \<Rightarrow> Some c
      | Some a \<Rightarrow> free_threads (c\<lparr>sc_threads := (sc_threads c)(a := None)\<rparr>)) }"

definition free_nfa_sim :: "simctrl option \<Rightarrow> (addr \<Rightarrow> nfasim option) option option" where
  "free_nfa_sim co = (case co of None \<Rightarrow> Some None | Some c \<Rightarrow> do {
     c \<leftarrow> release_all_threads c None;
     c \<leftarrow> (if sp_head (sc_pool c) \<noteq> None then free_threads c else Some c);
     _ \<leftarrow> (case sc_kw c of KwNone \<Rightarrow> Some () | KwBm ob \<Rightarrow> do { _ \<leftarrow> bm_obj_free ob; Some () }
           | KwMpat ob \<Rightarrow> do { _ \<leftarrow> mpat_obj_free ob; Some () });
     Some (Some (sc_threads c)) })"

end
