(* ===== verification/SimPools.thy ===== *)
theory SimPools
  imports Run
begin

text \<open>
  The pools of threads are queues, and no thread is lost.

  The abstract state of the three pools is three sequences, the set of threads that are held by the
  recognizer, and the number of threads made so far. The interface \<open>thread_pools\<close> states what each
  operation of \<open>src/recognizer.c\<close> does to it; inside, any sequence of calls is shown to follow the
  abstract machine. The interpretation proves the laws for the model of the code.
\<close>

section \<open>Sequences of threads\<close>

definition next_of :: "simctrl \<Rightarrow> addr \<Rightarrow> ptr option" where
  "next_of c a = map_option ts_next (sc_threads c a)"

definition pool_rep :: "simctrl \<Rightarrow> simpool \<Rightarrow> addr list \<Rightarrow> bool" where
  "pool_rep c q as \<longleftrightarrow> lpath (next_of c) (sp_head q) as None \<and> sp_tail q = (if as = [] then None else Some (last as))"

lemma pool_rep_Nil [simp]: "pool_rep c q [] \<longleftrightarrow> q = \<lparr>sp_head = None, sp_tail = None\<rparr>"
  by (cases q) (auto simp: pool_rep_def)

lemma pool_rep_head: "pool_rep c q as \<Longrightarrow> sp_head q = None \<longleftrightarrow> as = []"
  by (cases as) (auto simp: pool_rep_def)

lemma pool_rep_cong: "pool_rep c q as \<Longrightarrow> (\<And>a. a \<in> set as \<Longrightarrow> next_of c' a = next_of c a) \<Longrightarrow> pool_rep c' q as"
  unfolding pool_rep_def using lpath_cong [of as "next_of c'" "next_of c"] by auto

lemma pool_rep_one: "next_of c a = Some None \<Longrightarrow> pool_rep c \<lparr>sp_head = Some a, sp_tail = Some a\<rparr> [a]"
  by (simp add: pool_rep_def)

text \<open>A chain whose last link still points somewhere, as while a pool is being extended.\<close>

lemma pool_rep_link:
  assumes A: "pool_rep c q as" "as \<noteq> []" and B: "lpath (next_of c) p bs None" and d: "set as \<inter> set bs = {}"
  shows "\<exists>c'. tset c (sp_tail q) (ts_next_update (\<lambda>_. p)) = Some c' \<and>
     lpath (next_of c') (sp_head q) (as @ bs) None \<and> (\<forall>x. x \<noteq> last as \<longrightarrow> sc_threads c' x = sc_threads c x) \<and>
     (\<exists>t. sc_threads c (last as) = Some t) \<and> c' = c\<lparr>sc_threads := sc_threads c'\<rparr> \<and> dom (sc_threads c') = dom (sc_threads c)"
proof -
  from A have path: "lpath (next_of c) (sp_head q) as None" and tail: "sp_tail q = Some (last as)"
    by (auto simp: pool_rep_def)
  have dis: "distinct as" by (rule lpath_distinct [OF path])
  have "next_of c (last as) \<noteq> None" by (rule lpath_alloc [OF path]) (simp add: A(2))
  then obtain t where t: "sc_threads c (last as) = Some t" by (auto simp: next_of_def)
  define c' where "c' = c\<lparr>sc_threads := (sc_threads c)(last as \<mapsto> t\<lparr>ts_next := p\<rparr>)\<rparr>"
  have n: "next_of c' = (next_of c)(last as \<mapsto> p)" by (auto simp: c'_def next_of_def)
  have l: "last as \<notin> set bs" using d A(2) last_in_set by blast
  have "lpath (next_of c') (sp_head q) as p" unfolding n by (rule lpath_snoc_upd [OF path dis A(2)])
  moreover have "lpath (next_of c') p bs None" unfolding n using B l by simp
  ultimately have "lpath (next_of c') (sp_head q) (as @ bs) None" by auto
  moreover have "tset c (sp_tail q) (ts_next_update (\<lambda>_. p)) = Some c'"
    by (simp add: tset_def tail t c'_def)
  ultimately show ?thesis using t by (intro exI [of _ c']) (auto simp: c'_def)
qed

section \<open>The abstract machine\<close>

type_synonym pools = "poolid \<Rightarrow> addr list"

datatype poolop = PoShift poolid | PoAppend poolid addr | PoSwap | PoRelease "addr option" | PoNew

definition opt_list :: "'v option \<Rightarrow> 'v list" where
  "opt_list v = (case v of None \<Rightarrow> [] | Some x \<Rightarrow> [x])"

text \<open>The state is the pools, the threads held, and the number of threads.\<close>

fun pspec :: "poolop \<Rightarrow> pools \<times> addr set \<times> nat \<Rightarrow> (ptr \<times> pools \<times> addr set \<times> nat) option" where
  "pspec (PoShift d) (Q, H, n) = (case Q d of [] \<Rightarrow> Some (None, Q, H, n)
     | a # as \<Rightarrow> Some (Some a, Q(d := as), insert a H, n))"
| "pspec (PoAppend d a) (Q, H, n) = (if a \<in> H then Some (None, Q(d := Q d @ [a]), H - {a}, n) else None)"
| "pspec PoSwap (Q, H, n) = (if Q PoolActive = [] then Some (None, Q(PoolActive := Q PoolNext, PoolNext := []), H, n) else None)"
| "pspec (PoRelease t) (Q, H, n) = (if set (opt_list t) \<subseteq> H then
     Some (None, (\<lambda>_. [])(PoolFree := Q PoolFree @ Q PoolActive @ Q PoolNext @ opt_list t), H - set (opt_list t), n) else None)"
| "pspec PoNew (Q, H, n) = Some (Some n, Q, insert n H, n + 1)"

fun pspecs :: "poolop list \<Rightarrow> pools \<times> addr set \<times> nat \<Rightarrow> (ptr list \<times> pools \<times> addr set \<times> nat) option" where
  "pspecs [] s = Some ([], s)"
| "pspecs (x # xs) s = do { (v, s) \<leftarrow> pspec x s; (vs, s) \<leftarrow> pspecs xs s; Some (v # vs, s) }"

text \<open>Every thread is in one place.\<close>

definition partitioned :: "pools \<times> addr set \<times> nat \<Rightarrow> bool" where
  "partitioned s \<longleftrightarrow> (case s of (Q, H, n) \<Rightarrow> distinct (Q PoolFree @ Q PoolActive @ Q PoolNext) \<and>
     H \<inter> (set (Q PoolFree) \<union> set (Q PoolActive) \<union> set (Q PoolNext)) = {} \<and>
     (\<forall>x. x \<in> H \<or> x \<in> set (Q PoolFree) \<or> x \<in> set (Q PoolActive) \<or> x \<in> set (Q PoolNext) \<longleftrightarrow> x < n))"

lemma partitioned_step: "pspec x s = Some (v, s') \<Longrightarrow> partitioned s \<Longrightarrow> partitioned s'"
proof (cases x)
  case (PoShift d)
  then show "pspec x s = Some (v, s') \<Longrightarrow> partitioned s \<Longrightarrow> partitioned s'"
    by (cases s; cases d) (auto simp: partitioned_def split: list.splits)
next
  case (PoAppend d a)
  then show "pspec x s = Some (v, s') \<Longrightarrow> partitioned s \<Longrightarrow> partitioned s'"
    by (cases s; cases d) (auto simp: partitioned_def split: if_splits)
next
  case PoSwap
  then show "pspec x s = Some (v, s') \<Longrightarrow> partitioned s \<Longrightarrow> partitioned s'"
    by (cases s) (auto simp: partitioned_def split: if_splits)
next
  case (PoRelease t)
  then show "pspec x s = Some (v, s') \<Longrightarrow> partitioned s \<Longrightarrow> partitioned s'"
    by (cases s; cases t) (auto simp: partitioned_def opt_list_def split: if_splits)
next
  case PoNew
  then show "pspec x s = Some (v, s') \<Longrightarrow> partitioned s \<Longrightarrow> partitioned s'"
    by (cases s) (auto simp: partitioned_def less_Suc_eq)
qed

section \<open>The interface\<close>

locale thread_pools =
  fixes rep :: "'c \<Rightarrow> pools \<times> addr set \<times> nat \<Rightarrow> bool"
    and shift :: "'c \<Rightarrow> poolid \<Rightarrow> (ptr \<times> 'c) option"
    and append :: "'c \<Rightarrow> poolid \<Rightarrow> ptr \<Rightarrow> 'c option"
    and swap :: "'c \<Rightarrow> 'c"
    and release :: "'c \<Rightarrow> ptr \<Rightarrow> 'c option"
    and new :: "'c \<Rightarrow> ptr \<times> 'c"
  assumes shift_law: "rep c s \<Longrightarrow> pspec (PoShift d) s = Some (v, s') \<Longrightarrow> \<exists>c'. shift c d = Some (v, c') \<and> rep c' s'"
    and append_law: "rep c s \<Longrightarrow> pspec (PoAppend d a) s = Some (v, s') \<Longrightarrow> \<exists>c'. append c d (Some a) = Some c' \<and> rep c' s'"
    and swap_law: "rep c s \<Longrightarrow> pspec PoSwap s = Some (v, s') \<Longrightarrow> rep (swap c) s'"
    and release_law: "rep c s \<Longrightarrow> pspec (PoRelease t) s = Some (v, s') \<Longrightarrow> \<exists>c'. release c t = Some c' \<and> rep c' s'"
    and new_law: "rep c s \<Longrightarrow> pspec PoNew s = Some (v, s') \<Longrightarrow> \<exists>c'. new c = (v, c') \<and> rep c' s'"
begin

fun exec :: "poolop \<Rightarrow> 'c \<Rightarrow> (ptr \<times> 'c) option" where
  "exec (PoShift d) c = shift c d"
| "exec (PoAppend d a) c = map_option (Pair None) (append c d (Some a))"
| "exec PoSwap c = Some (None, swap c)"
| "exec (PoRelease t) c = map_option (Pair None) (release c t)"
| "exec PoNew c = Some (new c)"

fun execs :: "poolop list \<Rightarrow> 'c \<Rightarrow> (ptr list \<times> 'c) option" where
  "execs [] c = Some ([], c)"
| "execs (x # xs) c = do { (v, c) \<leftarrow> exec x c; (vs, c) \<leftarrow> execs xs c; Some (v # vs, c) }"

lemma exec_refines:
  assumes "rep c s" "pspec x s = Some (v, s')"
  shows "\<exists>c'. exec x c = Some (v, c') \<and> rep c' s'"
proof (cases x)
  case (PoShift d)
  with shift_law assms show ?thesis by simp
next
  case (PoAppend d a)
  with append_law [of c s d a v s'] assms have "\<exists>c'. append c d (Some a) = Some c' \<and> rep c' s'" by simp
  moreover have "v = None" using assms(2) PoAppend by (cases s) (auto split: if_splits)
  ultimately show ?thesis using PoAppend by auto
next
  case PoSwap
  moreover have "v = None" using assms(2) PoSwap by (cases s) (auto split: if_splits)
  ultimately show ?thesis using swap_law assms by auto
next
  case (PoRelease t)
  with release_law [of c s t v s'] assms have "\<exists>c'. release c t = Some c' \<and> rep c' s'" by simp
  moreover have "v = None" using assms(2) PoRelease by (cases s) (auto split: if_splits)
  ultimately show ?thesis using PoRelease by auto
next
  case PoNew
  with new_law [OF assms(1), of v s'] assms(2) show ?thesis by auto
qed

lemma execs_refine: "rep c s \<Longrightarrow> pspecs xs s = Some (vs, s') \<Longrightarrow> \<exists>c'. execs xs c = Some (vs, c') \<and> rep c' s'"
proof (induction xs arbitrary: c s vs)
  case Nil
  then show ?case by simp
next
  case (Cons x xs)
  from Cons.prems(2) obtain v s1 ws where 1: "pspec x s = Some (v, s1)" "pspecs xs s1 = Some (ws, s')" "vs = v # ws"
    by (auto split: Option.bind_splits)
  from exec_refines [OF Cons.prems(1) 1(1)] obtain c1 where 2: "exec x c = Some (v, c1)" "rep c1 s1" by blast
  from Cons.IH [OF 2(2) 1(2)] obtain c' where "execs xs c1 = Some (ws, c')" "rep c' s'" by blast
  with 1 2 show ?case by simp
qed

end

section \<open>The laws of the code\<close>

definition sim_rep :: "simctrl \<Rightarrow> pools \<times> addr set \<times> nat \<Rightarrow> bool" where
  "sim_rep c s \<longleftrightarrow> partitioned s \<and> (case s of (Q, H, n) \<Rightarrow> (\<forall>d. pool_rep c (pget c d) (Q d)) \<and>
     (\<forall>a\<in>H. next_of c a = Some None) \<and> sc_brk c = n \<and> dom (sc_threads c) = {..<n})"

lemma pget_pset [simp]: "pget (pset c d f) e = (if e = d then f (pget c d) else pget c e)"
  by (cases d; cases e) (auto simp: pget_def pset_def)

lemma pset_same [simp]: "sc_threads (pset c d f) = sc_threads c" "sc_brk (pset c d f) = sc_brk c" "next_of (pset c d f) = next_of c"
  by (cases d; simp add: pset_def next_of_def fun_eq_iff)+

lemma tset_other [simp]: "pget (c\<lparr>sc_threads := T\<rparr>) d = pget c d"
  by (cases d) (auto simp: pget_def)

lemma pool_rep_pset [simp]: "pool_rep (pset c d f) q as \<longleftrightarrow> pool_rep c q as"
  by (simp add: pool_rep_def)

lemma next_of_upd: "next_of (c\<lparr>sc_threads := (sc_threads c)(a \<mapsto> t)\<rparr>) = (next_of c)(a \<mapsto> ts_next t)"
  by (auto simp: next_of_def)

lemma partitioned_in:
  assumes "partitioned (Q, H, n)"
  shows "a \<in> set (Q d) \<Longrightarrow> a \<in> set (Q e) \<Longrightarrow> d = e" "a \<in> set (Q d) \<Longrightarrow> a \<notin> H" "distinct (Q d)"
    "a \<in> set (Q d) \<Longrightarrow> a < n" "a \<in> H \<Longrightarrow> a < n"
  using assms by (cases d; cases e; auto simp: partitioned_def)+

lemma sim_shift:
  assumes R: "sim_rep c s" and P: "pspec (PoShift d) s = Some (v, s')"
  shows "\<exists>c'. sim_pool_shift c d = Some (v, c') \<and> sim_rep c' s'"
proof -
  obtain Q H n where s: "s = (Q, H, n)" by (cases s)
  note r = R [unfolded sim_rep_def s prod.case]
  have part: "partitioned s'" using partitioned_step [OF P] R by (simp add: sim_rep_def)
  show ?thesis
  proof (cases "Q d")
    case Nil
    then have "pget c d = \<lparr>sp_head = None, sp_tail = None\<rparr>" using r by (metis pool_rep_Nil)
    with Nil P R s show ?thesis by (simp add: sim_pool_shift_def)
  next
    case (Cons a as)
    have rep: "pool_rep c (pget c d) (a # as)" using r Cons by metis
    have s': "s' = (Q(d := as), insert a H, n)" "v = Some a" using P s Cons by auto
    have hd: "sp_head (pget c d) = Some a" and tl: "sp_tail (pget c d) = Some (last (a # as))"
      using rep by (auto simp: pool_rep_def)
    obtain t where t: "sc_threads c a = Some t" and path: "lpath (next_of c) (ts_next t) as None"
      using rep by (auto simp: pool_rep_def next_of_def)
    have dis: "distinct (a # as)" using partitioned_in(3) r Cons by metis
    define q where "q = (if as = [] then \<lparr>sp_head = None, sp_tail = None\<rparr> else (pget c d)\<lparr>sp_head := ts_next t\<rparr>)"
    define c1 where "c1 = pset c d (\<lambda>_. q)"
    define c' where "c' = c1\<lparr>sc_threads := (sc_threads c)(a \<mapsto> t\<lparr>ts_next := None\<rparr>)\<rparr>"
    have single: "sp_head (pget c d) = sp_tail (pget c d) \<longleftrightarrow> as = []" using hd tl dis by (cases as) auto
    have one: "pset (pset c d (sp_tail_update (\<lambda>_. None))) d (sp_head_update (\<lambda>_. None)) = c1" if "as = []"
      using that by (cases d) (auto simp: c1_def q_def pset_def)
    have more: "pset c d (sp_head_update (\<lambda>_. ts_next t)) = c1" if "as \<noteq> []"
      using that by (cases d) (auto simp: c1_def q_def pset_def pget_def)
    have run: "sim_pool_shift c d = Some (Some a, c')"
      using hd single one more t by (auto simp: sim_pool_shift_def tget_def tset_def c'_def c1_def)
    have nx: "next_of c' = (next_of c)(a \<mapsto> None)" by (auto simp: c'_def next_of_def)
    have pools: "pool_rep c' (pget c' e) ((Q(d := as)) e)" for e
    proof (cases "e = d")
      case True
      have "pool_rep c q as" using path tl by (cases as) (auto simp: pool_rep_def q_def)
      then have "pool_rep c' q as" by (rule pool_rep_cong) (use dis nx in auto)
      with True show ?thesis by (simp add: c'_def c1_def)
    next
      case False
      have "pool_rep c (pget c e) (Q e)" using r by simp
      then have "pool_rep c' (pget c e) (Q e)"
        by (rule pool_rep_cong) (use nx partitioned_in(1) r Cons False in fastforce)
      with False show ?thesis by (simp add: c'_def c1_def)
    qed
    have "sim_rep c' s'" unfolding sim_rep_def s' prod.case
      using part s' pools r nx t by (auto simp: c'_def c1_def)
    with run s' show ?thesis by blast
  qed
qed

lemma sim_append:
  assumes R: "sim_rep c s" and P: "pspec (PoAppend d a) s = Some (v, s')"
  shows "\<exists>c'. sim_pool_append c d (Some a) = Some c' \<and> sim_rep c' s'"
proof -
  obtain Q H n where s: "s = (Q, H, n)" by (cases s)
  note r = R [unfolded sim_rep_def s prod.case]
  have part: "partitioned s'" using partitioned_step [OF P] R by (simp add: sim_rep_def)
  have aH: "a \<in> H" and s': "s' = (Q(d := Q d @ [a]), H - {a}, n)" using P s by (auto split: if_splits)
  have na: "next_of c a = Some None" using r aH by auto
  then obtain t where t: "sc_threads c a = Some t" "ts_next t = None" by (auto simp: next_of_def)
  have aQ: "a \<notin> set (Q e)" for e using partitioned_in(2) r aH by metis
  have rep: "pool_rep c (pget c d) (Q d)" using r by metis
  obtain c1 where c1: "(if sp_head (pget c d) = None
           then Some (pset (pset c d (sp_head_update (\<lambda>_. Some a))) d (sp_tail_update (\<lambda>_. Some a)))
           else do {
             c \<leftarrow> tset c (sp_tail (pget c d)) (ts_next_update (\<lambda>_. Some a));
             Some (pset c d (sp_tail_update (\<lambda>_. Some a))) }) = Some c1"
    and pd: "pool_rep c1 (pget c1 d) (Q d @ [a])" and pe: "\<And>e. e \<noteq> d \<Longrightarrow> pget c1 e = pget c e"
    and th: "\<And>x. x \<notin> set (Q d) \<Longrightarrow> sc_threads c1 x = sc_threads c x" and b: "sc_brk c1 = sc_brk c"
    and dm: "dom (sc_threads c1) = dom (sc_threads c)"
  proof (cases "Q d")
    case Nil
    then have e: "pget c d = \<lparr>sp_head = None, sp_tail = None\<rparr>" using rep by simp
    show thesis
      by (rule that [of "pset (pset c d (sp_head_update (\<lambda>_. Some a))) d (sp_tail_update (\<lambda>_. Some a))"])
        (use e Nil na in \<open>simp_all add: pool_rep_def\<close>)
  next
    case (Cons x xs)
    have l: "lpath (next_of c) (Some a) [a] None" using na by simp
    have ne: "Q d \<noteq> []" and dj: "set (Q d) \<inter> set [a] = {}" using Cons aQ [of d] by auto
    from pool_rep_link [OF rep ne l dj] obtain c2 where
      2: "tset c (sp_tail (pget c d)) (ts_next_update (\<lambda>_. Some a)) = Some c2"
      "lpath (next_of c2) (sp_head (pget c d)) (Q d @ [a]) None"
      "\<And>x. x \<noteq> last (Q d) \<Longrightarrow> sc_threads c2 x = sc_threads c x" "c2 = c\<lparr>sc_threads := sc_threads c2\<rparr>"
      "dom (sc_threads c2) = dom (sc_threads c)" by blast
    have pg: "pget c2 e = pget c e" for e by (subst 2(4)) simp
    have nh: "sp_head (pget c d) \<noteq> None" using pool_rep_head [OF rep] Cons by simp
    have br: "sc_brk c2 = sc_brk c" by (subst 2(4)) simp
    show thesis
    proof (rule that [of "pset c2 d (sp_tail_update (\<lambda>_. Some a))"])
      show "pool_rep (pset c2 d (sp_tail_update (\<lambda>_. Some a))) (pget (pset c2 d (sp_tail_update (\<lambda>_. Some a))) d) (Q d @ [a])"
        using 2(2) by (simp add: pool_rep_def pg)
      show "sc_threads (pset c2 d (sp_tail_update (\<lambda>_. Some a))) x = sc_threads c x" if "x \<notin> set (Q d)" for x
        using 2(3) that Cons by (metis last_in_set list.distinct(1) pset_same(1))
    qed (use 2 nh pg br in auto)
  qed
  have t1: "sc_threads c1 a = Some t" using th aQ t by simp
  define c' where "c' = c1\<lparr>sc_threads := (sc_threads c1)(a \<mapsto> t\<lparr>ts_next := None\<rparr>)\<rparr>"
  have c'1: "c' = c1" using t1 t(2) by (cases c1) (auto simp: c'_def fun_eq_iff)
  have run: "sim_pool_append c d (Some a) = Some c'"
    unfolding sim_pool_append_def c1 bind.bind_lunit by (simp add: tset_def t1 c'_def)
  have pools: "pool_rep c' (pget c' e) ((Q(d := Q d @ [a])) e)" for e
  proof (cases "e = d")
    case True
    with pd c'1 show ?thesis by simp
  next
    case False
    have "pool_rep c (pget c e) (Q e)" using r by simp
    then have "pool_rep c1 (pget c e) (Q e)"
      by (rule pool_rep_cong) (use th partitioned_in(1) r False in \<open>metis next_of_def\<close>)
    with False pe c'1 show ?thesis by simp
  qed
  have held: "next_of c' x = Some None" if "x \<in> H - {a}" for x
  proof -
    have "x \<notin> set (Q d)" using partitioned_in(2) r that by (metis DiffD1)
    then show ?thesis using th r that c'1 by (simp add: next_of_def)
  qed
  have "sim_rep c' s'" unfolding sim_rep_def s' prod.case
    using part s' pools r held b dm c'1 by auto
  with run show ?thesis by blast
qed

text \<open>\<open>release_all_threads\<close> joins the pools that are not empty, one after the other.\<close>

definition join_pool :: "simctrl \<Rightarrow> simpool \<Rightarrow> simctrl option" where
  "join_pool c q = (if sp_head q = None then Some c
     else if sp_head (sc_pool c) = None then Some (pset c PoolFree (\<lambda>_. q)) else link_pool c q)"

lemma release_eq: "release_all_threads c t = do {
     c \<leftarrow> join_pool c (sc_active c);
     c \<leftarrow> join_pool c (sc_next c);
     c \<leftarrow> join_pool c \<lparr>sp_head = t, sp_tail = t\<rparr>;
     c \<leftarrow> (if t \<noteq> None then tset c t (ts_next_update (\<lambda>_. None)) else Some c);
     Some (pset (pset c PoolNext (\<lambda>_. \<lparr>sp_head = None, sp_tail = None\<rparr>)) PoolActive (\<lambda>_. \<lparr>sp_head = None, sp_tail = None\<rparr>)) }"
proof -
  let ?one = "\<lparr>sp_head = t, sp_tail = t\<rparr>"
  have one: "sp_head ?one = t" by simp
  show ?thesis
    unfolding release_all_threads_def Let_def join_pool_def one
    by (cases "sp_head (sc_pool c)"; cases "sp_head (sc_active c)"; cases "sp_head (sc_next c)"; cases t;
      simp add: pset_def link_pool_def tset_def Option.bind_assoc)
qed

lemma join_pool_rep:
  assumes P: "pool_rep c (pget c PoolFree) as" and Q: "pool_rep c q bs" and dj: "set as \<inter> set bs = {}"
  shows "\<exists>c'. join_pool c q = Some c' \<and> pool_rep c' (pget c' PoolFree) (as @ bs) \<and>
     (\<forall>x. x \<notin> set as \<longrightarrow> sc_threads c' x = sc_threads c x) \<and> (\<forall>e. e \<noteq> PoolFree \<longrightarrow> pget c' e = pget c e) \<and>
     sc_brk c' = sc_brk c \<and> dom (sc_threads c') = dom (sc_threads c)"
proof (cases "as = [] \<or> bs = []")
  case True
  show ?thesis
  proof (cases "bs = []")
    case True
    with P Q show ?thesis by (intro exI [of _ c]) (simp add: join_pool_def)
  next
    case False
    with True have as: "as = []" by simp
    have "pget c PoolFree = \<lparr>sp_head = None, sp_tail = None\<rparr>" using P as by simp
    moreover have "sp_head q \<noteq> None" using pool_rep_head [OF Q] False by simp
    ultimately have "join_pool c q = Some (pset c PoolFree (\<lambda>_. q))" by (auto simp: join_pool_def pget_def)
    then show ?thesis using Q as by (intro exI [of _ "pset c PoolFree (\<lambda>_. q)"]) simp
  qed
next
  case False
  then have ne: "as \<noteq> []" "bs \<noteq> []" by auto
  have qh: "lpath (next_of c) (sp_head q) bs None" and qt: "sp_tail q = Some (last bs)" using Q ne by (auto simp: pool_rep_def)
  from pool_rep_link [OF P ne(1) qh dj] obtain c2 where
    2: "tset c (sp_tail (pget c PoolFree)) (ts_next_update (\<lambda>_. sp_head q)) = Some c2"
    "lpath (next_of c2) (sp_head (pget c PoolFree)) (as @ bs) None"
    "\<And>x. x \<noteq> last as \<Longrightarrow> sc_threads c2 x = sc_threads c x" "c2 = c\<lparr>sc_threads := sc_threads c2\<rparr>"
    "dom (sc_threads c2) = dom (sc_threads c)" by blast
  have pg: "pget c2 e = pget c e" for e by (subst 2(4)) simp
  have br: "sc_brk c2 = sc_brk c" by (subst 2(4)) simp
  have h1: "sp_head q \<noteq> None" using pool_rep_head [OF Q] ne by simp
  have h2: "sp_head (sc_pool c) \<noteq> None" using pool_rep_head [OF P] ne by (simp add: pget_def)
  define c' where "c' = pset c2 PoolFree (sp_tail_update (\<lambda>_. sp_tail q))"
  have "join_pool c q = Some c'"
    using h1 h2 2(1) by (auto simp: join_pool_def link_pool_def c'_def pget_def)
  moreover have "pool_rep c' (pget c' PoolFree) (as @ bs)"
    using 2(2) ne qt by (simp add: c'_def pool_rep_def pg)
  moreover have "sc_threads c' x = sc_threads c x" if "x \<notin> set as" for x
  proof -
    have "x \<noteq> last as" using that last_in_set [OF ne(1)] by blast
    then show ?thesis using 2(3) by (simp add: c'_def)
  qed
  ultimately show ?thesis using 2(5) br pg by (intro exI [of _ c']) (auto simp: c'_def)
qed

lemma sim_release:
  assumes R: "sim_rep c s" and P: "pspec (PoRelease t) s = Some (v, s')"
  shows "\<exists>c'. release_all_threads c t = Some c' \<and> sim_rep c' s'"
proof -
  obtain Q H n where s: "s = (Q, H, n)" by (cases s)
  note r = R [unfolded sim_rep_def s prod.case]
  have part: "partitioned s'" using partitioned_step [OF P] R by (simp add: sim_rep_def)
  have tH: "set (opt_list t) \<subseteq> H"
    and s': "s' = ((\<lambda>_. [])(PoolFree := Q PoolFree @ Q PoolActive @ Q PoolNext @ opt_list t), H - set (opt_list t), n)"
    using P s by (auto split: if_splits)
  define A where "A = Q PoolFree"
  define B where "B = Q PoolActive"
  define C where "C = Q PoolNext"
  have rep: "pool_rep c (pget c PoolFree) A" "pool_rep c (pget c PoolActive) B" "pool_rep c (pget c PoolNext) C"
    using r by (auto simp: A_def B_def C_def)
  have dj: "set A \<inter> set B = {}" "set (A @ B) \<inter> set C = {}" "set ((A @ B) @ C) \<inter> set (opt_list t) = {}"
    using r tH by (auto simp: partitioned_def A_def B_def C_def)
  have held: "next_of c a = Some None" if "a \<in> H" for a using r that by auto
  have nH: "a \<in> H \<Longrightarrow> a \<notin> set A \<union> set B \<union> set C" for a using r by (auto simp: partitioned_def A_def B_def C_def)
  from join_pool_rep [OF rep(1,2) dj(1)] obtain c1 where 1: "join_pool c (pget c PoolActive) = Some c1"
    "pool_rep c1 (pget c1 PoolFree) (A @ B)" "\<And>x. x \<notin> set A \<Longrightarrow> sc_threads c1 x = sc_threads c x"
    "\<And>e. e \<noteq> PoolFree \<Longrightarrow> pget c1 e = pget c e" "sc_brk c1 = sc_brk c" "dom (sc_threads c1) = dom (sc_threads c)" by blast
  have r1: "pool_rep c1 (pget c1 PoolNext) C"
    using pool_rep_cong [OF rep(3), of c1] 1(3,4) dj(2) by (force simp: next_of_def)
  from join_pool_rep [OF 1(2) r1 dj(2)] obtain c2 where 2: "join_pool c1 (pget c1 PoolNext) = Some c2"
    "pool_rep c2 (pget c2 PoolFree) ((A @ B) @ C)" "\<And>x. x \<notin> set (A @ B) \<Longrightarrow> sc_threads c2 x = sc_threads c1 x"
    "\<And>e. e \<noteq> PoolFree \<Longrightarrow> pget c2 e = pget c1 e" "sc_brk c2 = sc_brk c1" "dom (sc_threads c2) = dom (sc_threads c1)" by blast
  have same2: "sc_threads c2 a = sc_threads c a" if "a \<in> H" for a
    using 1(3) [of a] 2(3) [of a] nH [OF that] by simp
  have r2: "pool_rep c2 \<lparr>sp_head = t, sp_tail = t\<rparr> (opt_list t)"
  proof (cases t)
    case None
    then show ?thesis by (simp add: opt_list_def)
  next
    case (Some a)
    then have "next_of c2 a = Some None" using tH held same2 by (auto simp: next_of_def opt_list_def)
    with Some show ?thesis by (simp add: opt_list_def pool_rep_one)
  qed
  from join_pool_rep [OF 2(2) r2 dj(3)] obtain c3 where 3: "join_pool c2 \<lparr>sp_head = t, sp_tail = t\<rparr> = Some c3"
    "pool_rep c3 (pget c3 PoolFree) (((A @ B) @ C) @ opt_list t)"
    "\<And>x. x \<notin> set ((A @ B) @ C) \<Longrightarrow> sc_threads c3 x = sc_threads c2 x"
    "\<And>e. e \<noteq> PoolFree \<Longrightarrow> pget c3 e = pget c2 e" "sc_brk c3 = sc_brk c2" "dom (sc_threads c3) = dom (sc_threads c2)" by blast
  have same3: "sc_threads c3 a = sc_threads c a" if "a \<in> H" for a
    using same2 [OF that] 3(3) [of a] nH [OF that] by simp
  have last: "(if t \<noteq> None then tset c3 t (ts_next_update (\<lambda>_. None)) else Some c3) = Some c3"
  proof (cases t)
    case (Some a)
    then have aH: "a \<in> H" using tH by (simp add: opt_list_def)
    then obtain x where x: "sc_threads c3 a = Some x" "ts_next x = None"
      using held [OF aH] same3 [OF aH] by (auto simp: next_of_def)
    have "(sc_threads c3)(a \<mapsto> x\<lparr>ts_next := None\<rparr>) = sc_threads c3" using x by (cases x) (auto simp: fun_eq_iff)
    then have "c3\<lparr>sc_threads := (sc_threads c3)(a \<mapsto> x\<lparr>ts_next := None\<rparr>)\<rparr> = c3" by simp
    with Some x show ?thesis by (simp add: tset_def)
  qed simp
  define e0 where "e0 = (\<lambda>_ :: simpool. \<lparr>sp_head = None, sp_tail = None\<rparr>)"
  define c' where "c' = pset (pset c3 PoolNext e0) PoolActive e0"
  have p1: "pget c PoolActive = sc_active c" "pget c1 PoolNext = sc_next c1" by (simp_all add: pget_def)
  have run: "release_all_threads c t = Some c'"
    unfolding release_eq c'_def e0_def using 1(1) 2(1) 3(1) last p1 by simp
  have pools: "pool_rep c' (pget c' d) (((\<lambda>_. [])(PoolFree := Q PoolFree @ Q PoolActive @ Q PoolNext @ opt_list t)) d)" for d
    using 3(2) by (cases d) (auto simp: c'_def e0_def A_def B_def C_def)
  have "sim_rep c' s'" unfolding sim_rep_def s' prod.case
    using part s' pools r held same3 1(5,6) 2(5,6) 3(5,6) by (auto simp: c'_def next_of_def)
  with run show ?thesis by blast
qed

lemma sim_swap:
  assumes R: "sim_rep c s" and P: "pspec PoSwap s = Some (v, s')"
  shows "sim_rep (swap_next_w_active c) s'"
proof -
  obtain Q H n where s: "s = (Q, H, n)" by (cases s)
  note r = R [unfolded sim_rep_def s prod.case]
  have part: "partitioned s'" using partitioned_step [OF P] R by (simp add: sim_rep_def)
  have s': "s' = (Q(PoolActive := Q PoolNext, PoolNext := []), H, n)" using P s by (auto split: if_splits)
  define c' where "c' = swap_next_w_active c"
  have g: "pget c' PoolActive = pget c PoolNext" "pget c' PoolNext = \<lparr>sp_head = None, sp_tail = None\<rparr>"
    "pget c' PoolFree = pget c PoolFree"
    by (simp_all add: c'_def swap_next_w_active_def Let_def pset_def pget_def)
  have t: "sc_threads c' = sc_threads c" "sc_brk c' = sc_brk c"
    by (simp_all add: c'_def swap_next_w_active_def Let_def pset_def)
  have n: "next_of c' = next_of c" by (simp add: next_of_def t fun_eq_iff)
  have pools: "pool_rep c' (pget c' d) ((Q(PoolActive := Q PoolNext, PoolNext := [])) d)" for d
    using r g by (cases d) (auto simp: pool_rep_def n)
  show ?thesis unfolding c'_def [symmetric] sim_rep_def s' prod.case
    using part s' pools r t n by simp
qed

lemma sim_new:
  assumes R: "sim_rep c s" and P: "pspec PoNew s = Some (v, s')"
  shows "\<exists>c'. xmalloc_thread c = (v, c') \<and> sim_rep c' s'"
proof -
  obtain Q H n where s: "s = (Q, H, n)" by (cases s)
  note r = R [unfolded sim_rep_def s prod.case]
  have part: "partitioned s'" using partitioned_step [OF P] R by (simp add: sim_rep_def)
  have s': "s' = (Q, insert n H, n + 1)" "v = Some n" using P s by auto
  define c' where "c' = snd (xmalloc_thread c)"
  have run: "xmalloc_thread c = (Some n, c')" using r by (simp add: c'_def xmalloc_thread_def)
  have nx: "next_of c' = (next_of c)(n \<mapsto> None)" using r
    by (auto simp: c'_def xmalloc_thread_def next_of_def zero_thread_def)
  have g: "pget c' d = pget c d" for d by (cases d) (simp_all add: c'_def xmalloc_thread_def pget_def)
  have pools: "pool_rep c' (pget c' d) (Q d)" for d
  proof -
    have "pool_rep c (pget c d) (Q d)" using r by simp
    then have "pool_rep c' (pget c d) (Q d)"
      by (rule pool_rep_cong) (use nx r partitioned_in(4) in fastforce)
    then show ?thesis by (simp add: g)
  qed
  have "dom (sc_threads c') = insert n (dom (sc_threads c))" "sc_brk c' = sc_brk c + 1"
    using r by (auto simp: c'_def xmalloc_thread_def)
  then have "sim_rep c' s'" unfolding sim_rep_def s' prod.case
    using part s' pools r nx by (auto simp: lessThan_Suc)
  with run s' show ?thesis by blast
qed

interpretation pools: thread_pools sim_rep sim_pool_shift sim_pool_append swap_next_w_active release_all_threads xmalloc_thread
  by unfold_locales (fact sim_shift sim_append sim_swap sim_release sim_new)+

section \<open>No thread is lost\<close>

text \<open>C25: Any sequence of calls on the three pools of threads (\<open>sim_pool_shift\<close>, \<open>sim_pool_append\<close> of a
  thread that is held, \<open>swap_next_w_active\<close> when the active pool is empty, \<open>release_all_threads\<close>, and
  the allocation of a thread) runs without a memory error and behaves as on three queues; and every
  thread ever allocated is afterwards in exactly one pool or held, in exactly one place.
\<close>

theorem pools_refine_queues:
  assumes "sim_rep c s" "pspecs xs s = Some (vs, s')"
  shows "\<exists>c'. pools.execs xs c = Some (vs, c') \<and> sim_rep c' s' \<and> partitioned s'"
  using pools.execs_refine [OF assms] by (auto simp: sim_rep_def)

text \<open>A control block with one thread, in the free pool, as \<open>new_nfa_sim\<close> makes it.\<close>

lemma new_nfa_sim_rep:
  assumes "new_nfa_sim b nul p s = Some (c, p')"
  shows "sim_rep c ((\<lambda>_. [])(PoolFree := [0]), {}, 1)"
proof -
  from assms have f: "sc_pool c = \<lparr>sp_head = Some 0, sp_tail = Some 0\<rparr>" "sc_active c = \<lparr>sp_head = None, sp_tail = None\<rparr>"
    "sc_next c = \<lparr>sp_head = None, sp_tail = None\<rparr>" "sc_brk c = 1" "\<exists>t. sc_threads c = [0 \<mapsto> t] \<and> ts_next t = None"
    by (auto simp: new_nfa_sim_def zero_thread_def Let_def split: Option.bind_splits)
  have "pool_rep c (pget c d) (((\<lambda>_. [])(PoolFree := [0])) d)" for d
    using f by (cases d) (auto simp: pget_def pool_rep_def next_of_def)
  moreover have "partitioned ((\<lambda>_. [])(PoolFree := [0]), {}, 1)" by (auto simp: partitioned_def)
  ultimately show ?thesis using f by (auto simp: sim_rep_def split: if_splits)
qed

definition small_ctrl :: simctrl where
  "small_ctrl = \<lparr>sc_match_idx = 0, sc_filename_len = 0, sc_loop_cap = 0, sc_cur_pos = 0, sc_filename = [],
     sc_buffer_start = 0, sc_buffer_end = 0, sc_last_interval_pos = 0, sc_start = None,
     sc_pool = \<lparr>sp_head = Some 0, sp_tail = Some 0\<rparr>, sc_active = \<lparr>sp_head = None, sp_tail = None\<rparr>,
     sc_next = \<lparr>sp_head = None, sp_tail = None\<rparr>,
     sc_scanner = \<lparr>line_no = 1, eol_symbol = -2, line_len = 3, buf_len = 4, filename = None, buffer = 100, bytes = [97, 98, 254, 0],
       readhead = 100, str_begin = 100, last_newline = 0, curtoken = None\<rparr>,
     sc_kw = KwNone, sc_flags = 0, sc_match = null_match, sc_matches = replicate 8 0, sc_sp = [],
     sc_threads = [0 \<mapsto> zero_thread 0], sc_brk = 1, sc_nfa = empty_nheap, sc_nul = 7, sc_out = []\<rparr>"

lemma small_ctrl_rep: "sim_rep small_ctrl ((\<lambda>_. [])(PoolFree := [0]), {}, 1)"
proof -
  have "pool_rep small_ctrl (pget small_ctrl d) (((\<lambda>_. [])(PoolFree := [0])) d)" for d
    by (cases d) (auto simp: small_ctrl_def pget_def pool_rep_def next_of_def zero_thread_def)
  then show ?thesis by (auto simp: sim_rep_def partitioned_def small_ctrl_def)
qed

lemma pools_refine_queues_witness:
  "\<exists>c'. pools.execs [PoShift PoolFree, PoNew, PoAppend PoolNext 1, PoSwap, PoRelease (Some 0), PoShift PoolFree] small_ctrl =
     Some ([Some 0, Some 1, None, None, None, Some 1], c') \<and>
     sim_rep c' ((\<lambda>_. [])(PoolFree := [0]), {1}, 2) \<and> partitioned ((\<lambda>_. [])(PoolFree := [0]), {1}, 2)"
  by (rule pools_refine_queues [OF small_ctrl_rep]) (auto simp: opt_list_def fun_eq_iff)

end
