(* ===== verification/OutputProps.thy ===== *)
theory OutputProps
  imports Output SimPools
begin

text \<open>
  What the output buffer prints.

  The bytes that the user will have seen once the buffer is flushed are \<open>shown c\<close>. The operations on
  the buffer change four fields of the control block only (\<open>out_upd\<close>).
\<close>

section \<open>The state of the buffer\<close>

definition shown :: "simctrl \<Rightarrow> byte list" where
  "shown c = sc_out c @ take (nat (sc_match_idx c)) (sc_matches c)"

definition out_ok :: "simctrl \<Rightarrow> bool" where
  "out_ok c \<longleftrightarrow> 0 \<le> sc_match_idx c \<and> sc_match_idx c < match_buffer_size c \<and>
     0 \<notin> set (take (nat (sc_match_idx c)) (sc_matches c)) \<and>
     (sc_match_idx c \<noteq> 0 \<longrightarrow> sc_matches c ! nat (sc_match_idx c) = 0)"

text \<open>The bytes at an address of the text, none of them null.\<close>

definition text_bytes :: "simctrl \<Rightarrow> int \<Rightarrow> byte list \<Rightarrow> bool" where
  "text_bytes c p bs \<longleftrightarrow> (\<forall>i<length bs. text_at c (p + int i) = Some (sint (bs ! i)) \<and> bs ! i \<noteq> 0)"

definition out_upd :: "simctrl \<Rightarrow> byte list \<Rightarrow> byte list \<Rightarrow> int \<Rightarrow> int \<Rightarrow> simctrl" where
  "out_upd c M O' i l = c\<lparr>sc_matches := M, sc_out := O', sc_match_idx := i, sc_match := (sc_match c)\<lparr>mt_last := l\<rparr>\<rparr>"

lemma out_upd_simps [simp]:
  "sc_matches (out_upd c M P i l) = M" "sc_out (out_upd c M P i l) = P" "sc_match_idx (out_upd c M P i l) = i"
  "out_upd (out_upd c M P i l) M' P' i' l' = out_upd c M' P' i' l'" "mt_end (sc_match (out_upd c M P i l)) = mt_end (sc_match c)"
  "text_at (out_upd c M P i l) = text_at c" "(out_upd c M P i l)\<lparr>sc_match_idx := j\<rparr> = out_upd c M P j l"
  "match_buffer_size (out_upd c M P i l) = int (length M)" "text_bytes (out_upd c M P i l) = text_bytes c"
  by (auto simp: out_upd_def match_buffer_size_def text_at_def text_bytes_def fun_eq_iff)

lemma out_upd_self: "out_upd c (sc_matches c) (sc_out c) (sc_match_idx c) (mt_last (sc_match c)) = c"
  by (simp add: out_upd_def)

lemma text_bytes_drop: "text_bytes c p bs \<Longrightarrow> n \<le> length bs \<Longrightarrow> text_bytes c (p + int n) (drop n bs)"
  unfolding text_bytes_def
proof (intro allI impI)
  fix i
  assume A: "\<forall>i<length bs. text_at c (p + int i) = Some (sint (bs ! i)) \<and> bs ! i \<noteq> 0" "n \<le> length bs"
    "i < length (drop n bs)"
  then have "n + i < length bs" by simp
  with A(1) have "text_at c (p + int (n + i)) = Some (sint (bs ! (n + i))) \<and> bs ! (n + i) \<noteq> 0" by blast
  with A show "text_at c (p + int n + int i) = Some (sint (drop n bs ! i)) \<and> drop n bs ! i \<noteq> 0"
    by (simp add: add.assoc)
qed

lemma text_bytes_nonzero: "text_bytes c p bs \<Longrightarrow> 0 \<notin> set bs"
  by (metis in_set_conv_nth text_bytes_def)

lemma strncpy_src_text: "text_bytes c p bs \<Longrightarrow> n \<le> length bs \<Longrightarrow> strncpy_src (text_at c) p n = Some (take n bs)"
proof (induction n arbitrary: p bs)
  case 0
  then show ?case by simp
next
  case (Suc n)
  then obtain b bs' where bs: "bs = b # bs'" by (cases bs) auto
  have b: "text_at c p = Some (sint b)" "b \<noteq> 0" using Suc.prems(1) bs by (auto simp: text_bytes_def dest: spec [of _ 0])
  have "text_bytes c (p + 1) bs'" using text_bytes_drop [OF Suc.prems(1), of 1] bs by simp
  then have "strncpy_src (text_at c) (p + 1) n = Some (take n bs')" using Suc.prems(2) bs by (intro Suc.IH) auto
  moreover have "sint b \<noteq> 0" using b(2) by (simp add: signed_eq_0_iff)
  ultimately show ?case using b bs by simp
qed

section \<open>Primitive operations\<close>

lemma put_bytes_upd: "0 \<le> j \<Longrightarrow> j + int (length bs) \<le> int (length M) \<Longrightarrow>
   put_bytes (out_upd c M P i l) j bs = Some (out_upd c (take (nat j) M @ bs @ drop (nat j + length bs) M) P i l)"
  by (simp add: put_bytes_def) (simp add: out_upd_def)

lemma strncpy_upd:
  assumes "text_bytes c p bs" "0 \<le> j" "j + n \<le> int (length M)" "0 \<le> n" "n \<le> int (length bs)"
  shows "strncpy_match (out_upd c M P i l) j p n =
    Some (out_upd c (take (nat j) M @ take (nat n) bs @ drop (nat (j + n)) M) P i l)"
proof -
  have "strncpy_src (text_at c) p (nat n) = Some (take (nat n) bs)"
    by (rule strncpy_src_text [OF assms(1)]) (use assms in linarith)
  moreover have "length (take (nat n) bs) = nat n" using assms by auto
  moreover have "nat j + nat n = nat (j + n)" using assms by auto
  ultimately show ?thesis using assms by (simp add: strncpy_match_def put_bytes_upd)
qed

lemma append_null_upd: "0 \<le> i \<Longrightarrow> i < int (length M) \<Longrightarrow>
   append_null (out_upd c M P i l) = Some (out_upd c (M[nat i := 0]) P i (mt_end (sc_match c)))"
  by (simp add: append_null_def put_match_def) (simp add: out_upd_def)

lemma append_newline_upd: "0 \<le> i \<Longrightarrow> i < int (length M) \<Longrightarrow>
   append_newline (out_upd c M P i l) = Some (out_upd c (M[nat i := 10]) P (i + 1) l)"
  by (simp add: append_newline_def put_match_def) (simp add: out_upd_def)

lemma append_null_outside: "i \<ge> int (length M) \<Longrightarrow> append_null (out_upd c M P i l) = None"
  by (simp add: append_null_def put_match_def)

lemma flush_upd:
  assumes "take n M = bs" "0 \<notin> set bs" "n < length M" "M ! n = 0"
  shows "flush_matches (out_upd c M P i l) = Some (out_upd c M (P @ bs) 0 0)"
proof -
  have "M = bs @ 0 # drop (Suc n) M" using assms by (metis id_take_nth_drop)
  moreover from this have "takeWhile (\<lambda>b. b \<noteq> 0) M = bs"
    using assms(2) by (metis (mono_tags, lifting) takeWhile.simps(2) takeWhile_append2 append_Nil2)
  moreover have "0 \<in> set M" using assms by (metis nth_mem)
  ultimately show ?thesis by (simp add: flush_matches_def print_def) (simp add: out_upd_def)
qed

lemma flush_ok:
  assumes "out_ok c" "sc_match_idx c \<noteq> 0"
  shows "flush_matches c = Some (out_upd c (sc_matches c) (shown c) 0 0)"
proof -
  have "flush_matches (out_upd c (sc_matches c) (sc_out c) (sc_match_idx c) (mt_last (sc_match c))) =
      Some (out_upd c (sc_matches c) (sc_out c @ take (nat (sc_match_idx c)) (sc_matches c)) 0 0)"
    by (rule flush_upd [where n = "nat (sc_match_idx c)"]) (use assms in \<open>auto simp: out_ok_def match_buffer_size_def\<close>)
  then show ?thesis by (simp add: out_upd_self shown_def)
qed

text \<open>A full buffer: the text fills it up to its last byte, which becomes the terminator.\<close>

definition fill_flush :: "simctrl \<Rightarrow> int \<Rightarrow> int \<Rightarrow> simctrl option" where
  "fill_flush c p n = do {
     c \<leftarrow> strncpy_match c (sc_match_idx c) p n;
     c \<leftarrow> append_null (c\<lparr>sc_match_idx := match_buffer_size c - 1\<rparr>);
     flush_matches c }"

lemma fill_flush_upd:
  assumes T: "text_bytes c p bs" and i: "0 \<le> i" "i + n + 1 = int (length M)" "0 \<le> n" "n \<le> int (length bs)"
    and z: "0 \<notin> set (take (nat i) M)"
  shows "\<exists>M'. length M' = length M \<and>
    fill_flush (out_upd c M P i l) p n = Some (out_upd c M' (P @ take (nat i) M @ take (nat n) bs) 0 0)"
proof -
  define M1 where "M1 = take (nat i) M @ take (nat n) bs @ drop (nat (i + n)) M"
  define M2 where "M2 = M1[length M - 1 := 0]"
  have len: "length M1 = length M" using i by (simp add: M1_def)
  have s: "strncpy_match (out_upd c M P i l) i p n = Some (out_upd c M1 P i l)"
    unfolding M1_def by (rule strncpy_upd [OF T]) (use i in auto)
  have e: "nat (int (length M) - 1) = length M - 1" by simp
  have a: "append_null (out_upd c M1 P (int (length M1) - 1) l) = Some (out_upd c M2 P (int (length M) - 1) (mt_end (sc_match c)))"
  proof -
    have "M \<noteq> []" using i by auto
    then show ?thesis using append_null_upd [of "int (length M) - 1" M1 c P l] i len e by (simp add: M2_def)
  qed
  have "length M - Suc (nat i) = nat n" "nat (i + n) = nat i + nat n" using i by auto
  then have t: "take (length M - 1) M2 = take (nat i) M @ take (nat n) bs"
    using i len by (simp add: M2_def) (simp add: M1_def)
  have "flush_matches (out_upd c M2 P (int (length M) - 1) (mt_end (sc_match c))) =
      Some (out_upd c M2 (P @ (take (nat i) M @ take (nat n) bs)) 0 0)"
    by (rule flush_upd [OF t]) (use z text_bytes_nonzero [OF T] len i in \<open>auto simp: M2_def dest: in_set_takeD\<close>)
  with s a len show ?thesis by (intro exI [of _ M2]) (simp add: fill_flush_def M2_def)
qed

text \<open>The loop over the chunks and what follows it, from an empty buffer.\<close>

definition fill_tail :: "simctrl \<Rightarrow> int \<Rightarrow> int \<Rightarrow> simctrl option" where
  "fill_tail c p n = do {
     (c, p, n) \<leftarrow> fill_loop c p (match_buffer_size c - 1) n;
     fill_last c p n }"

lemma fill_loop_done: "r \<le> k \<Longrightarrow> fill_loop c p k r = Some (c, p, r)"
  by (subst fill_loop.simps) simp

lemma fill_tail_step:
  assumes "n > match_buffer_size c - 1" "sc_match_idx c = 0"
    and "\<And>c'. fill_flush c p (match_buffer_size c - 1) = Some c' \<Longrightarrow> match_buffer_size c' = match_buffer_size c"
  shows "fill_tail c p n =
    Option.bind (fill_flush c p (match_buffer_size c - 1)) (\<lambda>c'. fill_tail c' (p + (match_buffer_size c - 1)) (n - (match_buffer_size c - 1)))"
proof (cases "fill_flush c p (match_buffer_size c - 1)")
  case None
  then show ?thesis using assms(1, 2)
    by (subst fill_tail_def, subst fill_loop.simps)
      (auto simp: fill_flush_def bind_eq_None_conv bind_eq_Some_conv split: Option.bind_splits)
next
  case (Some c')
  from Some assms(3) have "match_buffer_size c' = match_buffer_size c" by blast
  with Some show ?thesis using assms(1, 2)
    by (subst fill_tail_def, subst fill_loop.simps) (auto simp: fill_flush_def fill_tail_def split: Option.bind_splits)
qed

lemma fill_last_upd:
  assumes T: "text_bytes c p bs" and n: "bs \<noteq> []" "int (length bs) \<le> int (length M) - 1"
  shows "int (length bs) = int (length M) - 1 \<Longrightarrow> fill_last (out_upd c M P 0 l) p (int (length bs)) = None"
    and "int (length bs) < int (length M) - 1 \<Longrightarrow> \<exists>M'. length M' = length M \<and>
      fill_last (out_upd c M P 0 l) p (int (length bs)) = Some (out_upd c M' (P @ bs @ [10]) 0 0)"
proof -
  let ?n = "int (length bs)"
  define M1 where "M1 = bs @ drop (length bs) M"
  define M2 where "M2 = M1[length bs := 10]"
  define M3 where "M3 = M2[Suc (length bs) := 0]"
  have len: "length M1 = length M" "length M2 = length M" "length M3 = length M"
    using n by (auto simp: M1_def M2_def M3_def)
  have s: "strncpy_match (out_upd c M P 0 l) 0 p ?n = Some (out_upd c M1 P 0 l)"
    using strncpy_upd [OF T, of 0 ?n M P 0 l] n by (simp add: M1_def)
  have nl: "append_newline (out_upd c M1 P ?n l) = Some (out_upd c M2 P (?n + 1) l)"
    using append_newline_upd [of ?n M1 c P l] n len by (simp add: M2_def)
  have neq: "?n \<noteq> 0" "?n \<noteq> int (length M)" using n by auto
  show "fill_last (out_upd c M P 0 l) p ?n = None" if "?n = int (length M) - 1"
    using s nl neq append_null_outside [of M2 "?n + 1" c P l] len that by (simp add: fill_last_def)
  assume lt: "?n < int (length M) - 1"
  have an: "append_null (out_upd c M2 P (?n + 1) l) = Some (out_upd c M3 P (?n + 1) (mt_end (sc_match c)))"
    using append_null_upd [of "?n + 1" M2 c P l] lt len by (simp add: M3_def nat_add_distrib)
  have t: "take (Suc (length bs)) M3 = bs @ [10]"
    using lt len by (simp add: M3_def M2_def take_Suc_conv_app_nth) (simp add: M1_def)
  have "flush_matches (out_upd c M3 P (?n + 1) (mt_end (sc_match c))) = Some (out_upd c M3 (P @ (bs @ [10])) 0 0)"
    by (rule flush_upd [OF t]) (use text_bytes_nonzero [OF T] lt len in \<open>auto simp: M3_def\<close>)
  then show "\<exists>M'. length M' = length M \<and>
      fill_last (out_upd c M P 0 l) p ?n = Some (out_upd c M' (P @ bs @ [10]) 0 0)"
    using s nl an len neq by (intro exI [of _ M3]) (simp add: fill_last_def)
qed

lemma fill_tail_upd:
  assumes "text_bytes c p bs" "bs \<noteq> []" "length M > 1"
  shows "if int (length bs) mod (int (length M) - 1) = 0 then fill_tail (out_upd c M P 0 l) p (int (length bs)) = None
    else \<exists>M'. length M' = length M \<and> fill_tail (out_upd c M P 0 l) p (int (length bs)) = Some (out_upd c M' (P @ bs @ [10]) 0 0)"
  using assms
proof (induction "length bs" arbitrary: bs p M P l rule: less_induct)
  case less
  define F where "F = int (length M) - 1"
  have F: "F \<ge> 1" "nat F = length M - 1" using less.prems by (auto simp: F_def)
  show ?case
  proof (cases "int (length bs) > F")
    case False
    have tl: "fill_tail (out_upd c M P 0 l) p (int (length bs)) = fill_last (out_upd c M P 0 l) p (int (length bs))"
      using False by (simp add: fill_tail_def fill_loop_done F_def)
    have pos: "int (length bs) > 0" using less.prems by simp
    show ?thesis
    proof (cases "int (length bs) = F")
      case True
      then show ?thesis using fill_last_upd(1) [OF less.prems(1, 2), of M P l] tl by (simp add: F_def)
    next
      case ne: False
      have "int (length bs) mod F = int (length bs)" using ne False pos by (intro mod_pos_pos_trivial) auto
      then show ?thesis using fill_last_upd(2) [OF less.prems(1, 2), of M P l] tl ne False pos by (simp add: F_def)
    qed
  next
    case True
    have ne: "M \<noteq> []" using less.prems(3) by auto
    obtain M' where M': "length M' = length M" "fill_flush (out_upd c M P 0 l) p F = Some (out_upd c M' (P @ take (nat F) bs) 0 0)"
      using fill_flush_upd [OF less.prems(1), of 0 F M P l] True F ne F_def by auto
    have tl: "fill_tail (out_upd c M P 0 l) p (int (length bs)) =
        fill_tail (out_upd c M' (P @ take (nat F) bs) 0 0) (p + F) (int (length bs) - F)"
      using fill_tail_step [of "out_upd c M P 0 l" "int (length bs)" p] True M' by (simp add: F_def)
    let ?bs = "drop (nat F) bs"
    have T': "text_bytes c (p + F) ?bs" using text_bytes_drop [OF less.prems(1), of "nat F"] True F(1) by simp
    have l': "int (length ?bs) = int (length bs) - F" using True F by simp
    have lt: "length ?bs < length bs" "?bs \<noteq> []" using True F(1) by auto
    have md: "(int (length bs) - F) mod F = int (length bs) mod F" by (metis minus_mod_self2)
    have e: "(P @ take (nat F) bs) @ drop (nat F) bs @ [10] = P @ bs @ [10]" by (metis append_assoc append_take_drop_id)
    have m: "length M' > 1" using M'(1) less.prems(3) by simp
    show ?thesis using less.hyps [OF lt(1) T' lt(2) m, of "P @ take (nat F) bs" 0]
      unfolding l' M'(1) F_def [symmetric] md e tl .
  qed
qed

section \<open>The whole of fill-output-buffer\<close>

lemma out_ok_empty: "M \<noteq> [] \<Longrightarrow> out_ok (out_upd c M P 0 l)"
  by (simp add: out_ok_def)

lemma fill_output_small:
  assumes ok: "out_ok c" and T: "text_bytes c p bs" and lt: "sc_match_idx c + int (length bs) + 1 < match_buffer_size c"
  shows "\<exists>M j l. fill_output_buffer c p (int (length bs)) fl = Some (out_upd c M (if fl then shown c @ bs @ [10] else sc_out c) j l) \<and>
    length M = length (sc_matches c) \<and> out_ok (out_upd c M (if fl then shown c @ bs @ [10] else sc_out c) j l) \<and>
    (if fl then j = 0 else sc_out c @ take (nat j) M = shown c @ bs @ [10])"
proof -
  define i where "i = sc_match_idx c"
  define k where "k = nat i"
  let ?M = "sc_matches c"
  let ?n = "int (length bs)"
  have i: "0 \<le> i" "i + ?n + 1 < int (length ?M)" "i = int k" using ok lt by (auto simp: out_ok_def match_buffer_size_def i_def k_def)
  define M1 where "M1 = take k ?M @ bs @ drop (k + length bs) ?M"
  define M2 where "M2 = M1[k + length bs := 10]"
  define M3 where "M3 = M2[Suc (k + length bs) := 0]"
  have len: "length M1 = length ?M" "length M2 = length ?M" "length M3 = length ?M"
    using i by (auto simp: M1_def M2_def M3_def)
  have c: "c = out_upd c ?M (sc_out c) i (mt_last (sc_match c))" by (simp add: i_def out_upd_self)
  have s: "strncpy_match c i p ?n = Some (out_upd c M1 (sc_out c) i (mt_last (sc_match c)))"
    using strncpy_upd [OF T, of i ?n ?M "sc_out c" i "mt_last (sc_match c)"] i c [symmetric]
    by (simp add: M1_def nat_add_distrib)
  have nl: "append_newline (out_upd c M1 (sc_out c) (i + ?n) (mt_last (sc_match c))) =
      Some (out_upd c M2 (sc_out c) (i + ?n + 1) (mt_last (sc_match c)))"
    using append_newline_upd [of "i + ?n" M1 c] i len by (simp add: M2_def nat_add_distrib)
  have an: "append_null (out_upd c M2 (sc_out c) (i + ?n + 1) (mt_last (sc_match c))) =
      Some (out_upd c M3 (sc_out c) (i + ?n + 1) (mt_end (sc_match c)))"
    using append_null_upd [of "i + ?n + 1" M2 c] i len by (simp add: M3_def nat_add_distrib)
  have t: "take (Suc (k + length bs)) M3 = take k ?M @ bs @ [10]"
    using i len by (simp add: M3_def M2_def take_Suc_conv_app_nth) (simp add: M1_def)
  have nz: "0 \<notin> set (take k ?M @ bs @ [10])"
    using ok text_bytes_nonzero [OF T] by (auto simp: out_ok_def k_def i_def)
  have M3n: "M3 ! Suc (k + length bs) = 0" using i len by (simp add: M3_def)
  have e: "nat (i + ?n + 1) = Suc (k + length bs)" using i by simp
  have fl: "flush_matches (out_upd c M3 (sc_out c) (i + ?n + 1) (mt_end (sc_match c))) = Some (out_upd c M3 (sc_out c @ take k ?M @ bs @ [10]) 0 0)"
    by (rule flush_upd [OF t nz]) (use M3n i len in auto)
  have sh: "shown c = sc_out c @ take k ?M" by (simp add: shown_def k_def i_def)
  have ok3: "out_ok (out_upd c M3 (sc_out c) (i + ?n + 1) (mt_end (sc_match c)))"
    unfolding out_ok_def out_upd_simps e t using nz M3n i len by simp
  have run: "fill_output_buffer c p ?n fl = (if fl then Some (out_upd c M3 (shown c @ bs @ [10]) 0 0)
      else Some (out_upd c M3 (sc_out c) (i + ?n + 1) (mt_end (sc_match c))))"
    using s nl an fl sh lt by (simp add: fill_output_buffer_def i_def [symmetric])
  show ?thesis
  proof (cases fl)
    case True
    then show ?thesis using run len i by (intro exI [of _ M3] exI [of _ 0]) (auto intro: out_ok_empty)
  next
    case False
    then show ?thesis using run len ok3 sh t e
      by (intro exI [of _ M3] exI [of _ "i + ?n + 1"] exI [of _ "mt_end (sc_match c)"]) simp
  qed
qed

lemma fill_output_large:
  assumes ok: "out_ok c" and T: "text_bytes c p bs" and ne: "bs \<noteq> []" and n: "NB = match_buffer_size c" "NB > 1"
    and ge: "sc_match_idx c + int (length bs) + 1 \<ge> NB"
  shows "if 0 < sc_match_idx c \<and> sc_match_idx c < NB - 1 \<and> sc_match_idx c + int (length bs) = NB - 1
      then \<exists>M. fill_output_buffer c p (int (length bs)) fl = Some (out_upd c M (shown c @ bs) 0 0) \<and> length M = length (sc_matches c)
      else if (sc_match_idx c + int (length bs)) mod (NB - 1) = 0 then fill_output_buffer c p (int (length bs)) fl = None
      else \<exists>M. fill_output_buffer c p (int (length bs)) fl = Some (out_upd c M (shown c @ bs @ [10]) 0 0) \<and> length M = length (sc_matches c)"
proof -
  define i where "i = sc_match_idx c"
  let ?M = "sc_matches c"
  let ?n = "int (length bs)"
  let ?l = "mt_last (sc_match c)"
  have i: "0 \<le> i" "i < NB" "NB = int (length ?M)" "1 < length ?M" "i + ?n + 1 \<ge> NB"
    using ok n ge by (auto simp: out_ok_def match_buffer_size_def i_def)
  have c: "out_upd c ?M (sc_out c) i ?l = c" by (simp add: i_def out_upd_self)
  have tl: "Option.bind (fill_loop (out_upd c M P 0 l) q (NB - 1) r) (\<lambda>(c, q, r). fill_last c q r) = fill_tail (out_upd c M P 0 l) q r"
    if "length M = length ?M" for M P l q r
    using that i by (simp add: fill_tail_def)
  consider (z) "i = 0" | (full) "i = NB - 1" "0 < i" | (part) "0 < i" "i < NB - 1" using i by linarith
  then show ?thesis
  proof cases
    case z
    have c0: "out_upd c ?M (sc_out c) 0 ?l = c" using c z by simp
    have "fill_output_buffer c p ?n fl = fill_tail c p ?n"
      using ge z n tl [of ?M "sc_out c" ?l p ?n] c0 by (simp add: fill_output_buffer_def i_def [symmetric])
    moreover have "shown c = sc_out c" using z by (simp add: shown_def i_def)
    ultimately show ?thesis using fill_tail_upd [OF T ne i(4), of "sc_out c" ?l, unfolded c0] z i
      by (auto simp: i_def)
  next
    case full
    have f: "flush_matches c = Some (out_upd c ?M (shown c) 0 0)" by (rule flush_ok [OF ok]) (use full i_def in simp)
    have "fill_output_buffer c p ?n fl = fill_tail (out_upd c ?M (shown c) 0 0) p ?n"
      using full ge n f tl [of ?M "shown c" 0 p ?n] i
      by (simp add: fill_output_buffer_def i_def [symmetric] fill_rest_def)
    moreover have "(i + ?n) mod (NB - 1) = ?n mod (NB - 1)" using full by simp
    ultimately show ?thesis using fill_tail_upd [OF T ne i(4), of "shown c" 0] full i by (auto simp: i_def [symmetric])
  next
    case part
    define F where "F = NB - i - 1"
    have F: "F \<ge> 1" "F \<le> ?n" "i + F + 1 = int (length ?M)" "nat F \<le> length bs" "int (nat F) = F" using part i by (auto simp: F_def)
    obtain M where M: "length M = length ?M" "fill_flush c p F = Some (out_upd c M (shown c @ take (nat F) bs) 0 0)"
      using fill_flush_upd [OF T i(1) F(3), of "sc_out c" ?l] F c ok
      by (auto simp: out_ok_def i_def shown_def)
    have rest: "fill_rest c p F ?n = Some (out_upd c M (shown c @ take (nat F) bs) 0 0, p + F, NB - 1, ?n - F)"
      using M F i by (auto simp: fill_rest_def fill_flush_def bind_eq_Some_conv)
    have run: "fill_output_buffer c p ?n fl = fill_tail (out_upd c M (shown c @ take (nat F) bs) 0 0) (p + F) (?n - F)"
      using rest tl [OF M(1)] part ge n by (simp add: fill_output_buffer_def i_def [symmetric] F_def)
    have m0: "0 \<le> int (length ?M) - 1" using i(3, 5) F(1, 3) i(1) by linarith
    show ?thesis
    proof (cases "?n = F")
      case True
      have "fill_tail (out_upd c M (shown c @ take (nat F) bs) 0 0) (p + F) 0 = Some (out_upd c M (shown c @ bs) 0 0)"
        using True i F M by (simp add: fill_tail_def fill_loop_done [OF m0] fill_last_def)
      then show ?thesis using run True part M by (auto simp: i_def [symmetric] F_def)
    next
      case False
      let ?bs = "drop (nat F) bs"
      have T': "text_bytes c (p + F) ?bs" using text_bytes_drop [OF T F(4)] F by simp
      have l': "int (length ?bs) = ?n - F" "?bs \<noteq> []" using F False by auto
      have "?n - F = (i + ?n) - (NB - 1)" by (simp add: F_def)
      then have "(i + ?n) mod (NB - 1) = (?n - F) mod (NB - 1)" by (metis minus_mod_self2)
      moreover have jn: "take (nat F) bs @ ?bs @ [10] = bs @ [10]" by (metis append_assoc append_take_drop_id)
      moreover have "length M > 1" using i M(1) by simp
      moreover have "i + ?n \<noteq> NB - 1" using False by (simp add: F_def)
      ultimately show ?thesis using fill_tail_upd [OF T' l'(2), of M "shown c @ take (nat F) bs" 0] run l'(1) i(3) M(1)
        by (auto simp: i_def [symmetric] jn split: if_splits)
    qed
  qed
qed

text \<open>Only the four fields change, and the array keeps its length.\<close>

definition out_frame :: "simctrl \<Rightarrow> simctrl \<Rightarrow> bool" where
  "out_frame c c' \<longleftrightarrow> (\<exists>M P i l. length M = length (sc_matches c) \<and> c' = out_upd c M P i l)"

lemma out_frameI: "length M = length (sc_matches c) \<Longrightarrow> out_frame c (out_upd c M P i l)"
  by (auto simp: out_frame_def)

lemma out_frame_refl: "out_frame c c"
  using out_frameI [of "sc_matches c" c "sc_out c" "sc_match_idx c" "mt_last (sc_match c)"] by (simp add: out_upd_self)

lemma out_frame_trans: "out_frame a b \<Longrightarrow> out_frame b c \<Longrightarrow> out_frame a c"
  by (fastforce simp: out_frame_def)

lemma out_frame_text: "out_frame c c' \<Longrightarrow> text_bytes c' = text_bytes c \<and> match_buffer_size c' = match_buffer_size c"
  by (auto simp: out_frame_def match_buffer_size_def)

lemma fill_output_buffer_prints_aux:
  assumes ok: "out_ok c" and T: "text_bytes c p bs" and ne: "bs \<noteq> []"
    and nb: "nb = match_buffer_size c" "nb > 1" and tot: "tot = sc_match_idx c + int (length bs)"
  shows "if tot + 1 < nb
      then \<exists>c'. fill_output_buffer c p (int (length bs)) fl = Some c' \<and> out_ok c' \<and> out_frame c c' \<and>
        shown c' = shown c @ bs @ [10] \<and> (fl \<longrightarrow> sc_match_idx c' = 0)
      else if 0 < sc_match_idx c \<and> sc_match_idx c < nb - 1 \<and> tot = nb - 1
      then \<exists>c'. fill_output_buffer c p (int (length bs)) fl = Some c' \<and> out_ok c' \<and> out_frame c c' \<and>
        shown c' = shown c @ bs \<and> sc_match_idx c' = 0
      else if tot mod (nb - 1) = 0 then fill_output_buffer c p (int (length bs)) fl = None
      else \<exists>c'. fill_output_buffer c p (int (length bs)) fl = Some c' \<and> out_ok c' \<and> out_frame c c' \<and>
        shown c' = shown c @ bs @ [10] \<and> sc_match_idx c' = 0"
proof (cases "tot + 1 < nb")
  case True
  then have "sc_match_idx c + int (length bs) + 1 < match_buffer_size c" using tot nb by simp
  from fill_output_small [OF ok T this, of fl] obtain M j l where
    r: "fill_output_buffer c p (int (length bs)) fl = Some (out_upd c M (if fl then shown c @ bs @ [10] else sc_out c) j l)"
      "length M = length (sc_matches c)" "out_ok (out_upd c M (if fl then shown c @ bs @ [10] else sc_out c) j l)"
      "if fl then j = 0 else sc_out c @ take (nat j) M = shown c @ bs @ [10]" by blast
  then show ?thesis using True out_frameI [OF r(2)] by (cases fl) (auto simp: shown_def)
next
  case False
  have M: "M \<noteq> []" if "length M = length (sc_matches c)" for M :: "byte list"
    using that nb by (auto simp: match_buffer_size_def)
  have ge: "sc_match_idx c + int (length bs) + 1 \<ge> nb" using False tot by simp
  from fill_output_large [OF ok T ne nb ge, of fl, folded tot] False show ?thesis
    by (auto simp: shown_def out_ok_empty M out_frameI split: if_splits)
qed

text \<open>C26: Writing a text to the output buffer. Let \<open>tot\<close> be what is pending plus the text. When that and
  a newline and a terminator fit, they are appended (and printed, if a flush is asked for). Otherwise everything is
  printed, whatever the number of chunks, except in two cases that depend on the length alone: when
  text and pending bytes fill the array but for its last byte the newline is lost, and when they fill
  a whole number of chunks the terminator is written after the last byte of the array.
\<close>

theorem fill_output_buffer_prints:
  assumes "out_ok c" and "text_bytes c p bs" and "bs \<noteq> []"
    and "nb = match_buffer_size c" "nb > 1" and "tot = sc_match_idx c + int (length bs)"
  shows "if tot + 1 < nb
      then \<exists>c'. fill_output_buffer c p (int (length bs)) fl = Some c' \<and> out_ok c' \<and> out_frame c c' \<and>
        shown c' = shown c @ bs @ [10] \<and> (fl \<longrightarrow> sc_match_idx c' = 0)
      else if 0 < sc_match_idx c \<and> sc_match_idx c < nb - 1 \<and> tot = nb - 1
      then \<exists>c'. fill_output_buffer c p (int (length bs)) fl = Some c' \<and> out_ok c' \<and> out_frame c c' \<and>
        shown c' = shown c @ bs \<and> sc_match_idx c' = 0
      else if tot mod (nb - 1) = 0 then fill_output_buffer c p (int (length bs)) fl = None
      else \<exists>c'. fill_output_buffer c p (int (length bs)) fl = Some c' \<and> out_ok c' \<and> out_frame c c' \<and>
        shown c' = shown c @ bs @ [10] \<and> sc_match_idx c' = 0"
  by (rule fill_output_buffer_prints_aux [OF assms])

lemma small_ctrl_text: "text_bytes small_ctrl 100 [97, 98]" "out_ok small_ctrl" "match_buffer_size small_ctrl = 8"
  by (simp_all add: text_bytes_def less_Suc_eq text_at_def char_at_def out_ok_def match_buffer_size_def) (simp_all add: small_ctrl_def)

lemma fill_output_buffer_prints_witness:
  "\<exists>c'. fill_output_buffer small_ctrl 100 2 True = Some c' \<and> out_ok c' \<and> out_frame small_ctrl c' \<and>
     shown c' = [97, 98, 10] \<and> sc_match_idx c' = 0"
proof -
  have s: "shown small_ctrl = []" "sc_match_idx small_ctrl = 0" by (simp_all add: shown_def small_ctrl_def)
  show ?thesis
    using fill_output_buffer_prints [OF small_ctrl_text(2, 1) _ small_ctrl_text(3) [symmetric] _ refl, of True] s by simp
qed

section \<open>New matches\<close>

lemma out_upd_frame_simps [simp]:
  "sc_flags (out_upd c M P i l) = sc_flags c" "sc_filename (out_upd c M P i l) = sc_filename c"
  "sc_filename_len (out_upd c M P i l) = sc_filename_len c" "sc_scanner (out_upd c M P i l) = sc_scanner c"
  "sc_buffer_start (out_upd c M P i l) = sc_buffer_start c" "sc_buffer_end (out_upd c M P i l) = sc_buffer_end c"
  "mt_start (sc_match (out_upd c M P i l)) = mt_start (sc_match c)"
  by (simp_all add: out_upd_def)

definition emit :: "simctrl \<Rightarrow> bool \<Rightarrow> int \<Rightarrow> byte list \<Rightarrow> simctrl option" where
  "emit c big k bs = (if big then Some (print c bs)
     else do {
       c \<leftarrow> snprintf_match c (sc_match_idx c) k bs;
       Some (c\<lparr>sc_match_idx := sc_match_idx c + int (length bs)\<rparr>) })"

lemma emit_ok:
  assumes ok: "out_ok c" and room: "if big then sc_match_idx c = 0 else sc_match_idx c + int (length bs) + 1 \<le> match_buffer_size c"
    and k: "k > int (length bs)" and z: "0 \<notin> set bs"
  shows "\<exists>c'. emit c big k bs = Some c' \<and> out_ok c' \<and> out_frame c c' \<and> shown c' = shown c @ bs \<and>
    sc_match_idx c' = (if big then 0 else sc_match_idx c + int (length bs))"
proof (cases big)
  case True
  have p: "print c bs = out_upd c (sc_matches c) (sc_out c @ bs) (sc_match_idx c) (mt_last (sc_match c))"
    by (simp add: print_def out_upd_def)
  show ?thesis using True room ok unfolding emit_def p
    by (auto simp: shown_def out_ok_def match_buffer_size_def out_frame_def)
next
  case False
  define M where "M = take (nat (sc_match_idx c)) (sc_matches c) @ (bs @ [0]) @ drop (nat (sc_match_idx c) + length (bs @ [0])) (sc_matches c)"
  define j where "j = sc_match_idx c + int (length bs)"
  have i: "0 \<le> sc_match_idx c" "sc_match_idx c + int (length bs) + 1 \<le> int (length (sc_matches c))"
    using ok room False by (auto simp: out_ok_def match_buffer_size_def)
  have len: "length M = length (sc_matches c)" "nat j = nat (sc_match_idx c) + length bs" using i by (auto simp: M_def j_def)
  have tk: "take (nat (k - 1)) bs = bs" using k by simp
  have "snprintf_match c (sc_match_idx c) k bs = Some (c\<lparr>sc_matches := M\<rparr>)"
    using i k unfolding snprintf_match_def tk put_bytes_def match_buffer_size_def M_def by simp
  then have e: "emit c big k bs = Some (out_upd c M (sc_out c) j (mt_last (sc_match c)))"
    using False by (simp add: emit_def j_def) (simp add: out_upd_def)
  have t: "take (nat j) M = take (nat (sc_match_idx c)) (sc_matches c) @ bs" "M ! nat j = 0"
    using i by (simp_all add: len(2)) (simp_all add: M_def nth_append)
  have "out_ok (out_upd c M (sc_out c) j (mt_last (sc_match c)))"
    using ok z t i len(1) by (auto simp: out_ok_def match_buffer_size_def j_def)
  then show ?thesis using e t False len(1) out_frameI [OF len(1)] by (simp add: shown_def j_def)
qed

lemma line_width_dec: "0 < n \<Longrightarrow> line_width n w = w - 1 + int (length (dec n))"
proof (induction n w rule: line_width.induct)
  case (1 n w)
  have d: "n sdiv 10 = n div 10" using 1 by (simp add: signed_divide_int_def)
  have q: "nat n div 10 = nat (n div 10)" using 1 by (simp add: nat_div_distrib)
  show ?case
  proof (cases "n div 10 > 0")
    case True
    then have "\<not> nat n < 10" by auto
    then have "length (dec n) = Suc (length (dec (n div 10)))"
      using 1(2) True q by (simp add: dec_def) (subst dec_nat.simps, simp)
    then show ?thesis using 1 True d by (subst line_width.simps) simp
  next
    case False
    then have "nat n < 10" using 1 by auto
    then show ?thesis using 1 False d by (subst line_width.simps) (simp add: dec_def dec_nat.simps)
  qed
qed

lemma dec_nonzero: "0 < n \<Longrightarrow> 0 \<notin> set (dec n)"
proof -
  have z: "word_of_nat (48 + k) \<noteq> (0 :: 8 word)" if "k < 10" for k
  proof -
    have "unat (word_of_nat (48 + k) :: 8 word) = 48 + k" using that by (simp add: unsigned_of_nat take_bit_nat_eq_self del: of_nat_add)
    then show ?thesis by (metis add_is_0 unsigned_0 zero_neq_numeral)
  qed
  have "0 \<notin> set (dec_nat m)" for m
  proof (induction m rule: dec_nat.induct)
    case (1 m)
    then show ?case using z [of m] z [of "m mod 10"] by (subst dec_nat.simps) auto
  qed
  then show "0 < n \<Longrightarrow> 0 \<notin> set (dec n)" by (simp add: dec_def)
qed

text \<open>What is printed for a match: the line or the match, after the name and the number of the line.\<close>

definition match_text :: "simctrl \<Rightarrow> int \<times> int" where
  "match_text c = (if flag c SHOW_MATCH_LINE_FLAG then (sc_buffer_start c, sc_buffer_end c - 1)
     else (mt_start (sc_match c), mt_end (sc_match c)))"

definition match_prefix :: "simctrl \<Rightarrow> byte list" where
  "match_prefix c = (if flag c SHOW_FILE_NAME_FLAG then sc_filename c @ [58] else []) @
     (if flag c SHOW_LINENO_FLAG then dec (line_no (sc_scanner c)) @ [58] else [])"

definition match_ready :: "simctrl \<Rightarrow> bool" where
  "match_ready c \<longleftrightarrow> \<not> flag c SILENT_MATCH_FLAG \<and> mt_start (sc_match c) \<noteq> 0 \<and> mt_start (sc_match c) \<le> mt_end (sc_match c) \<and>
     (mt_last (sc_match c) \<noteq> 0 \<longrightarrow> mt_start (sc_match c) - mt_last (sc_match c) \<notin> {0, 1}) \<and>
     0 < sc_filename_len c \<and> sc_filename_len c = int (length (sc_filename c)) \<and> 0 \<notin> set (sc_filename c) \<and>
     0 < line_no (sc_scanner c)"

definition make_room :: "simctrl \<Rightarrow> int \<Rightarrow> (simctrl \<times> bool) option" where
  "make_room c sz = (if sc_match_idx c \<noteq> 0 \<and> sc_match_idx c + sz + 1 \<ge> match_buffer_size c then do {
       c \<leftarrow> flush_matches c;
       Some (c, sc_match_idx c + sz + 1 \<ge> match_buffer_size c) }
     else Some (c, sc_match_idx c + sz + 1 \<ge> match_buffer_size c))"

lemma make_room_ok:
  assumes ok: "out_ok c"
  shows "\<exists>c' big. make_room c sz = Some (c', big) \<and> out_ok c' \<and> out_frame c c' \<and> shown c' = shown c \<and>
    (if big then sc_match_idx c' = 0 else sc_match_idx c' + sz + 1 < match_buffer_size c)"
proof (cases "sc_match_idx c \<noteq> 0 \<and> sc_match_idx c + sz + 1 \<ge> match_buffer_size c")
  case True
  have "sc_matches c \<noteq> []" using ok by (auto simp: out_ok_def match_buffer_size_def)
  then show ?thesis using True flush_ok [OF ok] out_frameI [of "sc_matches c" c]
    by (auto simp: make_room_def out_ok_empty match_buffer_size_def) (auto simp: shown_def)
next
  case False
  then show ?thesis using ok by (auto simp: make_room_def out_frame_refl)
qed

lemma new_match_steps:
  assumes ok: "out_ok c" and r: "match_ready c"
  shows "new_match c = do {
    (c', big) \<leftarrow> make_room c (snd (match_text c) - fst (match_text c) + 1 + int (length (match_prefix c)));
    c' \<leftarrow> (if flag c SHOW_FILE_NAME_FLAG then emit c' big (sc_filename_len c + 2) (sc_filename c @ [58]) else Some c');
    c' \<leftarrow> (if flag c SHOW_LINENO_FLAG
       then emit c' big (sc_filename_len c + int (length (dec (line_no (sc_scanner c)))) + 1) (dec (line_no (sc_scanner c)) @ [58])
       else Some c');
    fill_output_buffer c' (fst (match_text c)) (snd (match_text c) - fst (match_text c) + 1)
      (big \<and> (flag c SHOW_FILE_NAME_FLAG \<or> flag c SHOW_LINENO_FLAG)) }"
proof -
  let ?n = "line_no (sc_scanner c)"
  note rd = r [unfolded match_ready_def]
  have n: "line_width ?n 1 = int (length (dec ?n))" using line_width_dec [of ?n 1] rd by simp
  have k: "sc_filename_len c = int (length (sc_filename c))" "0 < int (length (sc_filename c))" "\<not> flag c SILENT_MATCH_FLAG"
    "mt_start (sc_match c) \<noteq> 0" "mt_start (sc_match c) \<le> mt_end (sc_match c)" using rd by auto
  have gap: "(if mt_last (sc_match c) \<noteq> 0 then
            (if mt_start (sc_match c) - mt_last (sc_match c) = 0 then c\<lparr>sc_match_idx := sc_match_idx c - 2\<rparr>
             else if mt_start (sc_match c) - mt_last (sc_match c) = 1 then c\<lparr>sc_match_idx := sc_match_idx c - 1\<rparr> else c) else c) = c"
    using rd by auto
  show ?thesis
  proof (cases "sc_match_idx c = 0")
    case True
    show ?thesis
      unfolding new_match_def Let_def gap match_prefix_def match_text_def make_room_def emit_def using True n k
      by (cases "flag c SHOW_MATCH_LINE_FLAG"; cases "flag c SHOW_FILE_NAME_FLAG"; cases "flag c SHOW_LINENO_FLAG")
        (simp_all add: algebra_simps Option.bind_assoc split: if_split)
  next
    case False
    show ?thesis
      unfolding new_match_def Let_def gap match_prefix_def match_text_def make_room_def emit_def flush_ok [OF ok False] using False n k
      by (cases "flag c SHOW_MATCH_LINE_FLAG"; cases "flag c SHOW_FILE_NAME_FLAG"; cases "flag c SHOW_LINENO_FLAG")
        (simp_all add: algebra_simps Option.bind_assoc split: if_split)
  qed
qed

text \<open>C24: What the user sees of a match. A match that does not follow its predecessor directly adds exactly one line to
  what has been and will be printed: the name of the file and the number of the line, if asked for, each
  followed by a colon, the line or the match, and a newline; whether they fit in the buffer, fit after
  it is flushed, or are longer than the whole of it. Only a text whose length is a multiple
  of \<open>MATCH_BUFFER_SIZE - 1\<close> makes the program write after the end of the array.
\<close>

theorem new_match_prints:
  assumes ok: "out_ok c" and r: "match_ready c" and nb: "nb = match_buffer_size c" "1 < nb"
    and T: "text_bytes c (fst (match_text c)) bs" and L: "snd (match_text c) - fst (match_text c) + 1 = int (length bs)" "bs \<noteq> []"
  shows "if int (length bs) mod (nb - 1) = 0 then new_match c = None
    else \<exists>c'. new_match c = Some c' \<and> out_ok c' \<and> out_frame c c' \<and> shown c' = shown c @ match_prefix c @ bs @ [10]"
proof -
  let ?f = "flag c SHOW_FILE_NAME_FLAG" and ?l = "flag c SHOW_LINENO_FLAG"
  let ?name = "sc_filename c @ [58]" and ?num = "dec (line_no (sc_scanner c)) @ [58]"
  note rd = r [unfolded match_ready_def]
  obtain c1 big where c1: "make_room c (int (length bs) + int (length (match_prefix c))) = Some (c1, big)" "out_ok c1" "out_frame c c1"
    "shown c1 = shown c" "if big then sc_match_idx c1 = 0
      else sc_match_idx c1 + (int (length bs) + int (length (match_prefix c))) + 1 < match_buffer_size c"
    using make_room_ok [OF ok] by blast
  have "\<exists>c2. (if ?f then emit c1 big (sc_filename_len c + 2) ?name else Some c1) = Some c2 \<and> out_ok c2 \<and> out_frame c c2 \<and>
      shown c2 = shown c @ (if ?f then ?name else []) \<and>
      sc_match_idx c2 = (if big then 0 else sc_match_idx c1 + (if ?f then int (length ?name) else 0))"
  proof (cases ?f)
    case True
    have "if big then sc_match_idx c1 = 0 else sc_match_idx c1 + int (length ?name) + 1 \<le> match_buffer_size c1"
      using c1(5) True L(2) out_frame_text [OF c1(3)] by (auto simp: match_prefix_def split: if_splits)
    from emit_ok [OF c1(2) this, of "sc_filename_len c + 2"] rd c1(3, 4) True show ?thesis
      by (auto dest: out_frame_trans)
  qed (use c1 in auto)
  then obtain c2 where c2: "(if ?f then emit c1 big (sc_filename_len c + 2) ?name else Some c1) = Some c2" "out_ok c2" "out_frame c c2"
    "shown c2 = shown c @ (if ?f then ?name else [])"
    "sc_match_idx c2 = (if big then 0 else sc_match_idx c1 + (if ?f then int (length ?name) else 0))" by blast
  have "\<exists>c3. (if ?l then emit c2 big (sc_filename_len c + int (length (dec (line_no (sc_scanner c)))) + 1) ?num else Some c2) = Some c3 \<and>
      out_ok c3 \<and> out_frame c c3 \<and> shown c3 = shown c @ match_prefix c \<and>
      sc_match_idx c3 = (if big then 0 else sc_match_idx c1 + int (length (match_prefix c)))"
  proof (cases ?l)
    case True
    have "if big then sc_match_idx c2 = 0 else sc_match_idx c2 + int (length ?num) + 1 \<le> match_buffer_size c2"
      using c1(5) c2(5) True L(2) out_frame_text [OF c2(3)] by (auto simp: match_prefix_def split: if_splits)
    from emit_ok [OF c2(2) this, of "sc_filename_len c + int (length (dec (line_no (sc_scanner c)))) + 1"] rd c2(3-5) True
      dec_nonzero [of "line_no (sc_scanner c)"]
    show ?thesis by (auto simp: match_prefix_def dest: out_frame_trans)
  qed (use c2 in \<open>auto simp: match_prefix_def\<close>)
  then obtain c3 where c3: "(if ?l then emit c2 big (sc_filename_len c + int (length (dec (line_no (sc_scanner c)))) + 1) ?num else Some c2) = Some c3"
    "out_ok c3" "out_frame c c3" "shown c3 = shown c @ match_prefix c"
    "sc_match_idx c3 = (if big then 0 else sc_match_idx c1 + int (length (match_prefix c)))" by blast
  have run: "new_match c = fill_output_buffer c3 (fst (match_text c)) (int (length bs)) (big \<and> (?f \<or> ?l))"
    using new_match_steps [OF ok r, unfolded L(1)] c1(1) c2(1) c3(1) by simp
  have fr: "text_bytes c3 (fst (match_text c)) bs" "nb = match_buffer_size c3" using T nb out_frame_text [OF c3(3)] by auto
  have pos: "int (length bs) > 0" using L(2) by simp
  define tot where "tot = sc_match_idx c3 + int (length bs)"
  have small: "int (length bs) mod (nb - 1) \<noteq> 0" if "int (length bs) + 1 < nb" using that pos by simp
  note fill = fill_output_buffer_prints_aux [OF c3(2) fr(1) L(2) fr(2) nb(2) tot_def, of "big \<and> (?f \<or> ?l)"]
  show ?thesis
  proof (cases "tot + 1 < nb")
    case True
    moreover from True c3(2) have "int (length bs) + 1 < nb" by (auto simp: tot_def out_ok_def)
    ultimately show ?thesis using fill small run c3(3, 4) by (auto dest: out_frame_trans)
  next
    case False
    then have big: "big" using c1(5) c3(5) nb by (auto simp: tot_def split: if_splits)
    then have "tot = int (length bs)" "sc_match_idx c3 = 0" using c3(5) by (auto simp: tot_def)
    then show ?thesis using fill False run c3(4) out_frame_trans [OF c3(3)] by auto
  qed
qed

definition match_ctrl :: simctrl where
  "match_ctrl = small_ctrl\<lparr>sc_filename_len := 1, sc_filename := [102], sc_matches := replicate 16 0,
     sc_flags := SHOW_FILE_NAME_FLAG OR SHOW_LINENO_FLAG, sc_match := \<lparr>mt_start = 100, mt_end = 101, mt_last = 0\<rparr>\<rparr>"

lemma match_ctrl_facts: "out_ok match_ctrl" "match_ready match_ctrl" "match_buffer_size match_ctrl = 16"
  "match_text match_ctrl = (100, 101)" "text_bytes match_ctrl 100 [97, 98]"
  "match_prefix match_ctrl = [102, 58, 49, 58]" "shown match_ctrl = []"
proof -
  have f: "flag match_ctrl SHOW_FILE_NAME_FLAG" "flag match_ctrl SHOW_LINENO_FLAG" "\<not> flag match_ctrl SILENT_MATCH_FLAG"
    "\<not> flag match_ctrl SHOW_MATCH_LINE_FLAG" by code_simp+
  have d: "dec 1 = [49]" by code_simp
  show "match_ready match_ctrl" "match_text match_ctrl = (100, 101)" "match_prefix match_ctrl = [102, 58, 49, 58]"
    using f d by (simp_all add: match_ready_def match_text_def match_prefix_def) (simp_all add: match_ctrl_def small_ctrl_def)
  show "out_ok match_ctrl" "match_buffer_size match_ctrl = 16" "shown match_ctrl = []"
    by (simp_all add: out_ok_def match_buffer_size_def shown_def match_ctrl_def small_ctrl_def)
  show "text_bytes match_ctrl 100 [97, 98]"
    by (simp add: text_bytes_def less_Suc_eq text_at_def char_at_def) (simp add: match_ctrl_def small_ctrl_def)
qed

lemma new_match_prints_witness:
  "\<exists>c'. new_match match_ctrl = Some c' \<and> out_ok c' \<and> out_frame match_ctrl c' \<and> shown c' = [102, 58, 49, 58, 97, 98, 10]"
  using new_match_prints [OF match_ctrl_facts(1, 2) match_ctrl_facts(3) [symmetric], of "[97, 98]"] match_ctrl_facts(4-7) by simp

end
