(* ===== verification/Regex.thy ===== *)
theory Regex
  imports Run Grammar
begin

text \<open>
  The program, \<open>src/main.c\<close>, with \<open>src/misc.c\<close>.

  What the C library decides is a parameter: the options \<open>getopt_long\<close> returns, with the value of
  \<open>optind\<close> after each; the entries \<open>fts_read\<close> delivers for an argument; the lines \<open>getline\<close> reads
  from a file. What is printed on the standard output is \<open>sc_out\<close>; of the messages on the standard
  error only the one of \<open>parser_fatal\<close> is modelled.
\<close>

section \<open>misc.c\<close>

definition round_to_page :: "64 word \<Rightarrow> 64 word \<Rightarrow> 64 word" where
  "round_to_page cached_page_size sz = ((sz + (cached_page_size - 1)) div cached_page_size) * cached_page_size"

definition err_buf_sz :: nat where "err_buf_sz = 201"

text \<open>\<open>snprintf(buf, size, ...)\<close> into the buffer of \<open>err_buf_sz\<close> bytes: what a print of the buffer shows.\<close>

definition snprintf_err :: "nat \<Rightarrow> byte list \<Rightarrow> byte list option" where
  "snprintf_err sz bs = (if sz = 0 then Some []
     else if min (length bs) (sz - 1) < err_buf_sz then Some (take (sz - 1) bs) else None)"

definition ascii :: "string \<Rightarrow> byte list" where
  "ascii s = map (\<lambda>c. word_of_nat (of_char c)) s"

definition error_line :: "byte list \<Rightarrow> byte list \<Rightarrow> byte list \<Rightarrow> byte list" where
  "error_line program_name msg regex = program_name @ ascii '': '' @ msg @ ascii '': '' @ regex"

text \<open>What \<open>parser_fatal\<close> prints; \<open>here\<close> is an offset into the expression.\<close>

definition parser_fatal_message :: "byte list \<Rightarrow> byte list \<Rightarrow> byte list \<Rightarrow> int \<Rightarrow> byte list option" where
  "parser_fatal_message program_name msg regex here = (let sz = length (error_line program_name msg regex) in
     if sz > err_buf_sz then do {
       let line = error_line program_name msg ([39] @ ascii ''regex is too long to be displayed'' @ [39]);
       s \<leftarrow> snprintf_err (length line + 1) (line @ [10]);
       Some (s @ [10]) }
     else do {
       s \<leftarrow> snprintf_err sz (error_line program_name msg regex);
       Some (s @ [10] @ replicate (nat (int sz - 1 - int (length regex) + here)) 32 @ [94, 10]) })"

section \<open>Options\<close>

record options =
  op_flags :: u32
  op_pattern_file_idx :: int
  op_recurse_dirs :: bool

definition set_option :: "int \<Rightarrow> int \<Rightarrow> options \<Rightarrow> int + options" where
  "set_option opt optind p = (
     if opt = 1 \<or> opt = ch (CHR ''h'') then Inl 0
     else if opt = ch (CHR ''f'') then Inr (p\<lparr>op_pattern_file_idx := optind - 1\<rparr>)
     else if opt = ch (CHR ''g'') then Inr (p\<lparr>op_flags := set_flag MGLOBAL_FLAG (op_flags p)\<rparr>)
     else if opt = ch (CHR ''i'') then Inr (p\<lparr>op_flags := set_flag IGNORE_CASE_FLAG (op_flags p)\<rparr>)
     else if opt = ch (CHR ''q'') then Inr (p\<lparr>op_flags := set_flag SILENT_MATCH_FLAG (op_flags p)\<rparr>)
     else if opt = ch (CHR ''v'') then
       Inr (p\<lparr>op_flags := set_flag INVERT_MATCH_FLAG (clear_flag SHOW_MATCH_LINE_FLAG (op_flags p))\<rparr>)
     else if opt = ch (CHR ''F'') then Inr (p\<lparr>op_flags := set_flag SHOW_FILE_NAME_FLAG (op_flags p)\<rparr>)
     else if opt = ch (CHR ''n'') then Inr (p\<lparr>op_flags := set_flag SHOW_LINENO_FLAG (op_flags p)\<rparr>)
     else if opt = ch (CHR ''o'') then Inr (p\<lparr>op_flags := clear_flag SHOW_MATCH_LINE_FLAG (op_flags p)\<rparr>)
     else if opt = ch (CHR ''r'') then
       Inr (p\<lparr>op_recurse_dirs := True, op_flags := set_flag SHOW_FILE_NAME_FLAG (op_flags p)\<rparr>)
     else Inl 1)"

text \<open>The left is the exit code of the help, or of an unknown option.\<close>

fun parse_options :: "(int \<times> int) list \<Rightarrow> options \<Rightarrow> int + options" where
  "parse_options [] p = Inr p"
| "parse_options ((opt, optind) # os) p = (case set_option opt optind p of Inl e \<Rightarrow> Inl e | Inr p \<Rightarrow> parse_options os p)"

definition default_options :: options where
  "default_options = \<lparr>op_flags = SHOW_MATCH_LINE_FLAG, op_pattern_file_idx = 0, op_recurse_dirs = False\<rparr>"

section \<open>Searching files\<close>

text \<open>\<open>getline\<close> makes the buffer long enough and stores the line and a null byte.\<close>

definition getline :: "scanner \<Rightarrow> byte list \<Rightarrow> scanner" where
  "getline s line = (let n = length line; cap = max (nat (buf_len s)) (n + 1) in
     s\<lparr>line_len := int n, buf_len := int cap, bytes := line @ [0] @ drop (n + 1) (bytes s @ replicate (cap - length (bytes s)) 0)\<rparr>)"

text \<open>The loop over the lines: \<open>line\<close> and \<open>status\<close> are its variables. A line longer than the buffer
  moves it; the address is taken to stay.\<close>

fun process_lines :: "nat \<Rightarrow> string \<Rightarrow> byte list list \<Rightarrow> int \<Rightarrow> int \<Rightarrow> simctrl \<Rightarrow> (string + int \<times> simctrl) option" where
  "process_lines k path [] line status c = Some (Inr (status, c))"
| "process_lines k path (l # ls) line status c = do {
     (cf, s) \<leftarrow> reset_scanner (sc_flags c) (getline (sc_scanner c) l) (Some path);
     c \<leftarrow> reset_nfa_sim (c\<lparr>sc_flags := cf, sc_scanner := s\<rparr>);
     r \<leftarrow> run_nfa k (c\<lparr>sc_scanner := (sc_scanner c)\<lparr>line_no := line + 1\<rparr>\<rparr>);
     (case r of Inl e \<Rightarrow> Some (Inl e)
      | Inr (b, c) \<Rightarrow>
          let status = status + (if b then 1 else 0) in
          if status \<noteq> 0 \<and> flag c SILENT_MATCH_FLAG then Some (Inr (status, c))
          else process_lines k path ls (line + 1) status c) }"

datatype input = Unreadable | Is_output | Text "byte list list"

definition process_file :: "nat \<Rightarrow> string \<Rightarrow> input \<Rightarrow> simctrl \<Rightarrow> (string + int \<times> simctrl) option" where
  "process_file k path inp c = (case inp of
     Text ls \<Rightarrow> do {
       r \<leftarrow> process_lines k path ls 0 0 c;
       (case r of Inl e \<Rightarrow> Some (Inl e)
        | Inr (status, c) \<Rightarrow> do {
            c \<leftarrow> (if sc_match_idx c \<noteq> 0 then flush_matches c else Some c);
            Some (Inr (status, c)) }) }
   | _ \<Rightarrow> Some (Inr (0, c)))"

text \<open>The kinds of entries; only the regular files and the dangling links are processed.\<close>

datatype fts_info = FTS_NSOK | FTS_DEFAULT | FTS_SLNONE | FTS_F | FTS_NS | FTS_ERR | FTS_DNR | FTS_D | FTS_SL | FTS_DP | FTS_DC

definition is_stdin :: "string \<Rightarrow> bool" where
  "is_stdin argv \<longleftrightarrow> length argv = 1 \<and> hd argv = CHR ''-''"

fun search_entries :: "nat \<Rightarrow> (fts_info \<times> string \<times> input) list \<Rightarrow> int \<Rightarrow> simctrl \<Rightarrow> (string + int \<times> simctrl) option" where
  "search_entries k [] status c = Some (Inr (status, c))"
| "search_entries k ((info, path, inp) # es) status c = (if info = FTS_SLNONE \<or> info = FTS_F then do {
       r \<leftarrow> process_file k path inp c;
       (case r of Inl e \<Rightarrow> Some (Inl e) | Inr (st, c) \<Rightarrow> search_entries k es (status + st) c) }
     else search_entries k es status c)"

text \<open>\<open>fts recurse arg\<close> is what \<open>fts_read\<close> delivers for an argument, or \<open>None\<close> if \<open>fts_open\<close> fails;
  \<open>recurse\<close> tells whether the directories met are entered.\<close>

type_synonym fts = "bool \<Rightarrow> string \<Rightarrow> (fts_info \<times> string \<times> input) list option"

fun handle_search_targets :: "nat \<Rightarrow> fts \<Rightarrow> bool \<Rightarrow> string list \<Rightarrow> int \<Rightarrow> simctrl \<Rightarrow> (string + int \<times> simctrl) option" where
  "handle_search_targets k fts recurse_dirs [] status c = Some (Inr (status, c))"
| "handle_search_targets k fts recurse_dirs (arg # argv) status c =
     (if is_stdin arg then handle_search_targets k fts recurse_dirs argv status c
      else (case fts recurse_dirs arg of
        None \<Rightarrow> handle_search_targets k fts recurse_dirs argv status c
      | Some es \<Rightarrow> do {
          r \<leftarrow> search_entries k es status c;
          (case r of Inl e \<Rightarrow> Some (Inl e) | Inr (status, c) \<Rightarrow> handle_search_targets k fts recurse_dirs argv status c) }))"

section \<open>The program\<close>

text \<open>How the program ends: with an exit status and what it printed, or with a message.\<close>

datatype outcome = Status int "byte list" | Usage int | Failure perr

text \<open>The addresses the allocator gives: of the scanner's buffer, of the temporary one, of the string
  literal, of the blocks of patterns.\<close>

record layout =
  ly_buffer :: int
  ly_tmp :: int
  ly_nul :: int
  ly_base :: "nat \<Rightarrow> int"

text \<open>What is compiled and searched once the expression \<open>regex\<close> is in a buffer of \<open>len\<close> bytes.\<close>

definition search_all :: "nat \<Rightarrow> nat \<Rightarrow> layout \<Rightarrow> fts \<Rightarrow> options \<Rightarrow> string list \<Rightarrow> string option \<Rightarrow> byte list \<Rightarrow> nat \<Rightarrow> outcome option" where
  "search_all k bufsize ly fts op targets fname buf len = do {
     (cf, s) \<leftarrow> init_scanner fname (ly_buffer ly) buf (int (length buf)) (int len) (op_flags op);
     let gl = (empty_lheap :: addr lheap)\<lparr>lists := [0 \<mapsto> zero_list], brk := 1\<rparr>;
     r \<leftarrow> andthen (init_parser [0 \<mapsto> s] (Some 0) 0 gl (ly_base ly) cf) (parse_regex k 1 (ly_tmp ly));
     (case r of Inl e \<Rightarrow> Some (Failure e)
      | Inr p \<Rightarrow> do {
          s \<leftarrow> parser_scanner p;
          (c, p) \<leftarrow> new_nfa_sim bufsize (ly_nul ly) p s;
          r \<leftarrow> handle_search_targets k fts (op_recurse_dirs op) targets 0 c;
          (case r of Inl e \<Rightarrow> Some (Failure (Fatal e))
           | Inr (status, c) \<Rightarrow> do {
               _ \<leftarrow> free_nfa_sim (Some c);
               _ \<leftarrow> parser_free p;
               Some (Status (if status = 0 then 1 else 0) (sc_out c)) }) }) }"

text \<open>\<open>opts\<close> is what \<open>getopt_long\<close> returned, \<open>optind\<close> the index of the first argument left; \<open>pattern_file\<close>
  gives the first line of a file in the buffer of \<open>getline\<close>, if it can be opened and read.\<close>

definition main :: "nat \<Rightarrow> nat \<Rightarrow> layout \<Rightarrow> fts \<Rightarrow> (string \<Rightarrow> (byte list \<times> nat option) option) \<Rightarrow> (int \<times> int) list \<Rightarrow>
    nat \<Rightarrow> string list \<Rightarrow> outcome option" where
  "main k bufsize ly fts pattern_file opts optind argv = (case parse_options opts default_options of
     Inl code \<Rightarrow> Some (Usage code)
   | Inr op \<Rightarrow>
       let by_file = (op_pattern_file_idx op \<noteq> 0);
           target_idx = (if \<not> by_file \<and> optind < length argv then optind + 1 else optind);
           targets = drop target_idx argv in
       if target_idx \<ge> length argv then Some (Usage 1)
       else if by_file then do {
         _ \<leftarrow> ensure (0 \<le> op_pattern_file_idx op \<and> nat (op_pattern_file_idx op) < length argv);
         let name = argv ! nat (op_pattern_file_idx op);
         (case pattern_file name of
            None \<Rightarrow> Some (Failure (Fatal ''Failed to open pattern file''))
          | Some (buf, None) \<Rightarrow> Some (Failure (Fatal ''Unable to read regex file''))
          | Some (buf, Some len) \<Rightarrow> search_all k bufsize ly fts op targets (Some name) buf len) }
       else search_all k bufsize ly fts op targets None (ascii (argv ! optind) @ [0]) (length (argv ! optind)))"

end
